(* ===== verification/Prelude.thy ===== *)
theory Prelude
  imports Main "HOL-Library.Word" "HOL-Library.Multiset"
begin

text \<open>
  Shared vocabulary of the development: the fixed-width integer types of the C++ code, the
  faults that replace undefined behaviour, exceptions and deliberate crashes, the result type
  with its bind, arithmetic on \<^verbatim>\<open>size_t\<close> with the wrap-around written out, checked memory
  copies (\<^verbatim>\<open>memcpy\<close> inside one allocation), the little-endian layout of integers, and the
  generic list and counting lemmas that the component theories use.
\<close>

named_theorems size_simps \<open>size_t arithmetic that does not wrap\<close>
named_theorems res_simps \<open>results, binds and checked memory accesses\<close>

type_synonym byte = "8 word"
type_synonym u16 = "16 word"
type_synonym u32 = "32 word"
type_synonym u64 = "64 word"

subsection \<open>Faults and results\<close>

text \<open>
  \<^item> \<open>MemFault\<close>: an access outside the allocation it goes through (undefined behaviour);
  \<^item> \<open>NullDeref\<close>: a null pointer is dereferenced;
  \<^item> \<open>DeadObject\<close>: a freed or never allocated object is used;
  \<^item> \<open>ReaderException\<close>, \<open>LogicError\<close>, \<open>InvalidArgument\<close>: the C++ exceptions
    \<^verbatim>\<open>PacketReaderException\<close>, \<^verbatim>\<open>std::logic_error\<close>, \<^verbatim>\<open>std::invalid_argument\<close>;
  \<^item> \<open>InvalidParameter\<close>: the invalid-parameter handler of the C runtime, which ends the process;
  \<^item> \<open>CrashDumped\<close>: \<^verbatim>\<open>CrashDump::Crash()\<close>, which writes through a null pointer on purpose;
  \<^item> \<open>Spin\<close>: a retry loop that never leaves.
\<close>

datatype fault =
    MemFault | NullDeref | DeadObject
  | ReaderException | LogicError | InvalidArgument
  | InvalidParameter | CrashDumped | Spin

type_synonym 'a res = "fault + 'a"

definition rbind :: "'a res \<Rightarrow> ('a \<Rightarrow> 'b res) \<Rightarrow> 'b res" where
  "rbind r f = (case r of Inl e \<Rightarrow> Inl e | Inr x \<Rightarrow> f x)"

lemma rbind_Inr [simp, res_simps]: "rbind (Inr x) f = f x"
  by (simp add: rbind_def)

lemma rbind_Inl [simp, res_simps]: "rbind (Inl e) f = Inl e"
  by (simp add: rbind_def)

lemma rbind_eq_Inr: "rbind r f = Inr y \<longleftrightarrow> (\<exists>x. r = Inr x \<and> f x = Inr y)"
  by (cases r) auto

lemma rbind_eq_Inl: "rbind r f = Inl e \<longleftrightarrow> r = Inl e \<or> (\<exists>x. r = Inr x \<and> f x = Inl e)"
  by (cases r) auto

lemma rbind_cong [fundef_cong]:
  "r = r' \<Longrightarrow> (\<And>x. r' = Inr x \<Longrightarrow> f x = g x) \<Longrightarrow> rbind r f = rbind r' g"
  by (cases r') auto

text \<open>
  A result that satisfies \<open>P\<close>, or an error of \<open>E\<close>; \<open>rok\<close> allows the deliberate stops: the exception of a sending buffer
  that overflows and the crash dump.
\<close>

definition rok_in :: "fault set \<Rightarrow> ('a \<Rightarrow> bool) \<Rightarrow> 'a res \<Rightarrow> bool" where
  "rok_in E P r = (case r of Inl e \<Rightarrow> e \<in> E | Inr y \<Rightarrow> P y)"

abbreviation rok :: "('a \<Rightarrow> bool) \<Rightarrow> 'a res \<Rightarrow> bool" where
  "rok \<equiv> rok_in {InvalidArgument, CrashDumped}"

lemma rok_simps [simp]: "rok_in E P (Inr y) = P y" "rok_in E P (Inl e) = (e \<in> E)"
  by (simp_all add: rok_in_def)

lemma rok_def: "rok P r = (case r of Inl e \<Rightarrow> e = InvalidArgument \<or> e = CrashDumped | Inr y \<Rightarrow> P y)"
  by (cases r) simp_all

lemma rok_bind: "rok_in E Q r \<Longrightarrow> (\<And>y. Q y \<Longrightarrow> rok_in E P (f y)) \<Longrightarrow> rok_in E P (rbind r f)"
  by (cases r) auto

lemma rok_mono: "rok_in E Q r \<Longrightarrow> (\<And>y. Q y \<Longrightarrow> P y) \<Longrightarrow> rok_in E P r"
  by (cases r) auto

lemma rbind_assoc: "rbind (rbind r f) g = rbind r (\<lambda>x. rbind (f x) g)"
  by (cases r) auto

primrec rfold :: "('a \<Rightarrow> 's \<Rightarrow> 's res) \<Rightarrow> 'a list \<Rightarrow> 's \<Rightarrow> 's res" where
  "rfold f [] s = Inr s"
| "rfold f (x # xs) s = rbind (f x s) (rfold f xs)"

lemma rfold_append: "rfold f (xs @ ys) s = rbind (rfold f xs s) (rfold f ys)"
  by (induction xs arbitrary: s) (auto simp: rbind_def split: sum.splits)

lemma rfold_inv:
  assumes "rfold f xs s = Inr t" and "P s"
    and "\<And>x u v. x \<in> set xs \<Longrightarrow> P u \<Longrightarrow> f x u = Inr v \<Longrightarrow> P v"
  shows "P t"
  using assms by (induction xs arbitrary: s) (auto simp: rbind_eq_Inr)

subsection \<open>Arithmetic on size\_t\<close>

definition size_lim :: nat where
  "size_lim = 2 ^ 64"

definition sz_add :: "nat \<Rightarrow> nat \<Rightarrow> nat" where
  "sz_add a b = (a + b) mod size_lim"

definition sz_sub :: "nat \<Rightarrow> nat \<Rightarrow> nat" where
  "sz_sub a b = (if b \<le> a then (a - b) mod size_lim else (size_lim - (b - a) mod size_lim) mod size_lim)"

lemma size_lim_pos [simp]: "0 < size_lim"
  by (simp add: size_lim_def)

lemma sz_add_eq [size_simps]: "a + b < size_lim \<Longrightarrow> sz_add a b = a + b"
  by (simp add: sz_add_def)

lemma sz_sub_eq [size_simps]: "b \<le> a \<Longrightarrow> a < size_lim \<Longrightarrow> sz_sub a b = a - b"
  by (simp add: sz_sub_def)

lemma sz_add_bound: "sz_add a b < size_lim"
  by (simp add: sz_add_def)

lemma sz_sub_bound: "sz_sub a b < size_lim"
  by (simp add: sz_sub_def)

subsection \<open>Checked memory\<close>

text \<open>
  An allocation is the list of its cells. \<open>mem_read m off n\<close> copies \<open>n\<close> cells out of it from
  offset \<open>off\<close>, \<open>mem_write m off xs\<close> copies \<open>xs\<close> into it; both fault when the range leaves the
  allocation. A \<^verbatim>\<open>memcpy(dst + i, src + j, n)\<close> is a read of \<open>src\<close> followed by a write to \<open>dst\<close>.
\<close>

definition mem_read :: "'a list \<Rightarrow> nat \<Rightarrow> nat \<Rightarrow> 'a list res" where
  "mem_read m off n = (if off + n \<le> length m then Inr (take n (drop off m)) else Inl MemFault)"

definition mem_write :: "'a list \<Rightarrow> nat \<Rightarrow> 'a list \<Rightarrow> 'a list res" where
  "mem_write m off xs =
     (if off + length xs \<le> length m then Inr (take off m @ xs @ drop (off + length xs) m)
      else Inl MemFault)"

lemma mem_read_ok [res_simps]:
  "off + n \<le> length m \<Longrightarrow> mem_read m off n = Inr (take n (drop off m))"
  by (simp add: mem_read_def)

lemma mem_write_ok [res_simps]:
  "off + length xs \<le> length m \<Longrightarrow>
   mem_write m off xs = Inr (take off m @ xs @ drop (off + length xs) m)"
  by (simp add: mem_write_def)

lemma mem_read_eq_Inr:
  "mem_read m off n = Inr xs \<longleftrightarrow> off + n \<le> length m \<and> xs = take n (drop off m)"
  by (auto simp: mem_read_def)

lemma mem_write_eq_Inr:
  "mem_write m off xs = Inr m' \<longleftrightarrow>
   off + length xs \<le> length m \<and> m' = take off m @ xs @ drop (off + length xs) m"
  by (auto simp: mem_write_def)

lemma length_overwrite [simp]:
  "off + length xs \<le> length m \<Longrightarrow> length (take off m @ xs @ drop (off + length xs) m) = length m"
  by simp

lemma nth_overwrite:
  assumes "off + length xs \<le> length m" and "i < length m"
  shows "(take off m @ xs @ drop (off + length xs) m) ! i =
    (if off \<le> i \<and> i < off + length xs then xs ! (i - off) else m ! i)"
  using assms by (auto simp: nth_append min_def)

lemma take_drop_overwrite:
  assumes "off + length xs \<le> length m"
  shows "take (length xs) (drop off (take off m @ xs @ drop (off + length xs) m)) = xs"
  using assms by (simp add: min_def)

lemma take_drop_extend:
  assumes "k \<le> w" "w \<le> length m"
  shows "take (w + length x - k) (drop k (take w m @ x @ rest)) = take (w - k) (drop k m) @ x"
proof -
  have "drop k (take w m @ x @ rest) = take (w - k) (drop k m) @ x @ rest"
    using assms by (simp add: drop_take)
  moreover have "w + length x - k = length (take (w - k) (drop k m) @ x)"
    using assms by simp
  ultimately show ?thesis by (simp only: append_assoc [symmetric] append_eq_conv_conj) simp
qed

subsection \<open>Little-endian integers\<close>

text \<open>The bytes of an unsigned integer as the target machine (x86-64) stores them.\<close>

fun le_bytes :: "nat \<Rightarrow> nat \<Rightarrow> byte list" where
  "le_bytes 0 v = []"
| "le_bytes (Suc n) v = of_nat v # le_bytes n (v div 256)"

fun le_nat :: "byte list \<Rightarrow> nat" where
  "le_nat [] = 0"
| "le_nat (b # bs) = unat b + 256 * le_nat bs"

lemma unat_byte_less: "unat (b :: byte) < 256"
  using unsigned_less [of b] by simp

lemma unat_u16_less: "unat (w :: u16) < 65536"
  using unsigned_less [of w] by simp

lemma le_bytes_2: "le_bytes 2 v = [of_nat v, of_nat (v div 256)]"
  by (simp add: numeral_2_eq_2)

lemma length_le_bytes [simp]: "length (le_bytes n v) = n"
  by (induction n arbitrary: v) auto

lemma le_nat_le_bytes: "le_nat (le_bytes n v) = v mod 256 ^ n"
proof (induction n arbitrary: v)
  case 0
  then show ?case by simp
next
  case (Suc n)
  have "v mod 256 + 256 * (v div 256 mod 256 ^ n) = v mod (256 * 256 ^ n)"
    by (simp add: mod_mult2_eq)
  then show ?case using Suc by (simp add: unat_of_nat)
qed

lemma le_nat_le_bytes_id [simp]: "v < 256 ^ n \<Longrightarrow> le_nat (le_bytes n v) = v"
  by (simp add: le_nat_le_bytes)

lemma le_bytes_le_nat [simp]: "le_bytes (length bs) (le_nat bs) = bs"
proof (induction bs)
  case Nil
  then show ?case by simp
next
  case (Cons b bs)
  have "unat b < 256" by (rule unat_byte_less)
  then have "(unat b + 256 * le_nat bs) div 256 = le_nat bs" by simp
  moreover have "(256 :: byte) = 0"
    by simp
  then have "(word_of_nat (unat b + 256 * le_nat bs) :: byte) = b"
    by (simp only: of_nat_add of_nat_mult of_nat_numeral mult_zero_left) simp
  ultimately show ?case using Cons by simp
qed

lemma le_nat_bound: "le_nat bs < 256 ^ length bs"
  by (metis le_bytes_le_nat le_nat_le_bytes mod_less_divisor zero_less_power zero_less_numeral)

subsection \<open>Lists, sums and updates\<close>

lemma take_drop_append_swap:
  "n \<le> length xs \<Longrightarrow> take n xs @ drop n xs = xs"
  by simp

lemma sum_upd:
  fixes f :: "'b \<Rightarrow> int"
  assumes "t < (n :: nat)"
  shows "(\<Sum>i<n. f ((g(t := p)) i)) = (\<Sum>i<n. f (g i)) - f (g t) + f p"
proof -
  have "(\<Sum>i<n. f ((g(t := p)) i)) = f p + (\<Sum>i\<in>{..<n} - {t}. f ((g(t := p)) i))"
    using assms by (subst sum.remove [of _ t]) auto
  also have "(\<Sum>i\<in>{..<n} - {t}. f ((g(t := p)) i)) = (\<Sum>i\<in>{..<n} - {t}. f (g i))"
    by (intro sum.cong) auto
  also have "\<dots> = (\<Sum>i<n. f (g i)) - f (g t)"
    using assms by (subst sum.remove [of "{..<n}" t]) auto
  finally show ?thesis by simp
qed

lemma distinct_remove1_set: "distinct xs \<Longrightarrow> set (remove1 x xs) = set xs - {x}"
  by simp

end
