(* ===== verification/Packet_Codec.thy ===== *)
theory Packet_Codec
  imports Prelude
begin

unbundle bit_operations_syntax

text \<open>
  The stream cipher and the checksum of \<^verbatim>\<open>nf/network/packet/Packet.cpp\<close>. Both loops run in place
  over \<^verbatim>\<open>size\<close> bytes; the model maps the list of these bytes. All accumulators are
  \<^verbatim>\<open>uint8_t\<close>: C++ promotes to \<^verbatim>\<open>int\<close> and truncates on assignment, which is addition and xor on
  8-bit words.
\<close>

fun encode_loop :: "byte \<Rightarrow> byte \<Rightarrow> byte \<Rightarrow> byte \<Rightarrow> byte list \<Rightarrow> byte list" where
  "encode_loop accK accRK P E [] = []"
| "encode_loop accK accRK P E (b # bs) =
     (let accK' = accK + 1; accRK' = accRK + 1;
          P' = (P + accRK') XOR b;
          E' = (E + accK') XOR P'
      in E' # encode_loop accK' accRK' P' E' bs)"

definition PacketEncode :: "byte \<Rightarrow> byte \<Rightarrow> byte list \<Rightarrow> byte list" where
  "PacketEncode key randKey bytes = encode_loop key randKey 0 0 bytes"

fun decode_loop :: "byte \<Rightarrow> byte \<Rightarrow> byte \<Rightarrow> byte \<Rightarrow> byte list \<Rightarrow> byte list" where
  "decode_loop accK accRK prevE prevP [] = []"
| "decode_loop accK accRK prevE prevP (currE # bs) =
     (let accK' = accK + 1; accRK' = accRK + 1;
          currP = (prevE + accK') XOR currE
      in ((prevP + accRK') XOR currP) # decode_loop accK' accRK' currE currP bs)"

definition PacketDecode :: "byte \<Rightarrow> byte \<Rightarrow> byte list \<Rightarrow> byte list" where
  "PacketDecode key randKey bytes = decode_loop key randKey 0 0 bytes"

fun checksum_loop :: "u64 \<Rightarrow> byte list \<Rightarrow> u64" where
  "checksum_loop checksum [] = checksum"
| "checksum_loop checksum (b # bs) = checksum_loop (checksum + ucast b) bs"

definition CalculateCheckSum :: "byte list \<Rightarrow> byte" where
  "CalculateCheckSum bytes = ucast (checksum_loop 0 bytes mod 256)"

subsection \<open>The interface of a keyed byte cipher\<close>

text \<open>
  What the packet layer relies on: decoding with the same keys undoes encoding, and the length is
  kept, so that a packet can be transformed in place.
\<close>

locale byte_cipher =
  fixes enc :: "byte \<Rightarrow> byte \<Rightarrow> byte list \<Rightarrow> byte list"
    and dec :: "byte \<Rightarrow> byte \<Rightarrow> byte list \<Rightarrow> byte list"
  assumes dec_enc: "dec k r (enc k r bs) = bs"
    and length_enc: "length (enc k r bs) = length bs"
    and length_dec: "length (dec k r bs) = length bs"
begin

lemma enc_inj: "enc k r bs = enc k r cs \<Longrightarrow> bs = cs"
  by (metis dec_enc)

text \<open>In place: overwriting a range with its encoding and then with its decoding restores the memory.\<close>

lemma in_place_restore:
  assumes "off + n \<le> length m" and "mem_write m off (enc k r (take n (drop off m))) = Inr m'"
  shows "mem_write m' off (dec k r (take n (drop off m'))) = Inr m"
proof -
  let ?x = "take n (drop off m)" let ?e = "enc k r ?x"
  have l: "length ?e = n" using assms(1) by (simp add: length_enc)
  have m': "m' = take off m @ ?e @ drop (off + n) m"
    using assms l by (simp add: mem_write_eq_Inr)
  have "take n (drop off m') = ?e"
    using take_drop_overwrite [of off ?e m] assms(1) l m' by simp
  moreover have "take off m @ ?x @ drop (off + n) m = m"
    by (simp add: drop_drop add.commute flip: append_assoc take_add)
  ultimately show ?thesis
    using assms(1) l m' by (simp add: mem_write_def dec_enc length_dec)
qed

end

lemma length_encode_loop [simp]: "length (encode_loop k r p e bs) = length bs"
  by (induction k r p e bs rule: encode_loop.induct) (auto simp: Let_def)

lemma length_decode_loop [simp]: "length (decode_loop k r e p bs) = length bs"
  by (induction k r e p bs rule: decode_loop.induct) (auto simp: Let_def)

lemma xor_cancel: "a XOR (a XOR b) = (b :: 'a :: len word)"
  by (simp flip: xor.assoc)

lemma decode_encode_loop: "decode_loop k r e p (encode_loop k r p e bs) = bs"
  by (induction k r p e bs rule: encode_loop.induct) (auto simp: Let_def xor_cancel)

lemma encode_decode_loop: "encode_loop k r p e (decode_loop k r e p bs) = bs"
  by (induction k r e p bs rule: decode_loop.induct) (auto simp: Let_def xor_cancel)

interpretation codec: byte_cipher PacketEncode PacketDecode
  by unfold_locales (simp_all add: PacketEncode_def PacketDecode_def decode_encode_loop)

lemma PacketEncode_PacketDecode: "PacketEncode k r (PacketDecode k r bs) = bs"
  by (simp add: PacketEncode_def PacketDecode_def encode_decode_loop)

text \<open>The cipher is causal: a prefix of the stream is encoded independently of what follows.\<close>

lemma encode_loop_take: "encode_loop k r p e (take n bs) = take n (encode_loop k r p e bs)"
  by (induction k r p e bs arbitrary: n rule: encode_loop.induct) (auto simp: Let_def take_Cons')

subsection \<open>The checksum\<close>

text \<open>
  The 64-bit accumulator may wrap on a long enough input; the returned byte does not notice,
  because 256 divides \<open>2 ^ 64\<close>.
\<close>

lemma unat_ucast_byte: "unat (ucast (c :: u64) :: byte) = unat c mod 256"
  by (simp add: unsigned_ucast_eq take_bit_eq_mod)

lemma ucast_add_byte: "(ucast (c + ucast b :: u64) :: byte) = ucast c + b"
proof -
  have b: "unat (ucast b :: u64) = unat b"
    using unat_byte_less [of b] by (simp add: unsigned_ucast_eq take_bit_eq_mod)
  have "unat (ucast (c + ucast b :: u64) :: byte) = (unat c + unat b) mod 256"
    by (simp add: unat_ucast_byte unat_word_ariths b mod_mod_cancel)
  also have "\<dots> = unat (ucast c + b :: byte)"
    by (simp add: unat_word_ariths unat_ucast_byte mod_simps)
  finally show ?thesis by (rule unsigned_word_eqI)
qed

lemma ucast_mod_256: "(ucast (c mod 256 :: u64) :: byte) = ucast c"
proof -
  have "unat (ucast (c mod 256) :: byte) = unat (ucast c :: byte)"
    by (simp add: unat_ucast_byte unat_mod_distrib)
  then show ?thesis by (rule unsigned_word_eqI)
qed

lemma ucast_checksum_loop: "(ucast (checksum_loop c bs) :: byte) = ucast c + sum_list bs"
  by (induction bs arbitrary: c) (auto simp: ucast_add_byte add.assoc)

lemma CalculateCheckSum_eq: "CalculateCheckSum bs = sum_list bs"
  by (simp add: CalculateCheckSum_def ucast_mod_256 ucast_checksum_loop)

lemma sum_list_update_byte: "i < length bs \<Longrightarrow> sum_list (bs[i := b]) = sum_list bs - bs ! i + (b :: byte)"
  by (induction bs arbitrary: i) (auto split: nat.splits)

subsection \<open>Properties\<close>

text \<open>
  For every key and random key, encoding is a bijection on the byte strings of each length: decoding undoes it and
  is undone by it.
\<close>

theorem cipher_bijective:
  "PacketDecode k r (PacketEncode k r bs) = bs \<and> PacketEncode k r (PacketDecode k r bs) = bs \<and>
   length (PacketEncode k r bs) = length bs"
  by (simp add: codec.dec_enc PacketEncode_PacketDecode codec.length_enc)

text \<open>
  The checksum detects every change of a single byte of a body: it stays the same only if the byte does.
\<close>

lemma checksum_detects_byte:
  assumes "i < length bs"
  shows "CalculateCheckSum (bs[i := b]) = CalculateCheckSum bs \<longleftrightarrow> b = bs ! i"
  using assms by (auto simp: CalculateCheckSum_eq sum_list_update_byte algebra_simps)

end
