(* ===== verification/Packet_Buffer.thy ===== *)
theory Packet_Buffer
  imports Packet_Codec
begin

text \<open>
  The class template \<^verbatim>\<open>nf::network::packet::Packet<THeader, tHeaderSize, tBodyCapacity>\<close>
  (\<^verbatim>\<open>Packet.hpp\<close>, \<^verbatim>\<open>Packet_impl.hpp\<close>, \<^verbatim>\<open>Packet_reader.hpp\<close>, \<^verbatim>\<open>Packet_writer.hpp\<close>). Pointers into
  \<^verbatim>\<open>mBuffer\<close> are offsets; the template parameters are the first two fields. The constructor does not
  initialise the buffer, so its bytes are an argument of \<open>Packet_Initial\<close>.
\<close>

record Packet =
  pk_tHeaderSize :: nat
  pk_tBodyCapacity :: nat
  pk_mBuffer :: "byte list"
  pk_mReadPos :: nat
  pk_mWritePos :: nat
  pk_mBodyBegin :: nat
  pk_mBodyEnd :: nat
  pk_mEncodeBegin :: nat
  pk_mIsEncoded :: u32
  pk_mRefCount :: int

definition Packet_Initial :: "nat \<Rightarrow> nat \<Rightarrow> byte list \<Rightarrow> Packet" where
  "Packet_Initial tHeaderSize tBodyCapacity garbage =
     \<lparr>pk_tHeaderSize = tHeaderSize, pk_tBodyCapacity = tBodyCapacity, pk_mBuffer = garbage,
      pk_mReadPos = tHeaderSize, pk_mWritePos = tHeaderSize, pk_mBodyBegin = tHeaderSize,
      pk_mBodyEnd = tBodyCapacity, pk_mEncodeBegin = tHeaderSize - 1,
      pk_mIsEncoded = 0, pk_mRefCount = 0\<rparr>"

definition Packet_ClearBuffer :: "Packet \<Rightarrow> Packet" where
  "Packet_ClearBuffer p = p\<lparr>pk_mReadPos := pk_mBodyBegin p, pk_mWritePos := pk_mBodyBegin p\<rparr>"

definition GetHeaderSize :: "Packet \<Rightarrow> nat" where
  "GetHeaderSize p = pk_tHeaderSize p"

definition GetBodyCapacity :: "Packet \<Rightarrow> nat" where
  "GetBodyCapacity p = pk_tBodyCapacity p"

definition GetBodySize :: "Packet \<Rightarrow> nat" where
  "GetBodySize p = sz_sub (pk_mWritePos p) (pk_mBodyBegin p)"

definition GetPacketSize :: "Packet \<Rightarrow> nat" where
  "GetPacketSize p = sz_add (GetHeaderSize p) (GetBodySize p)"

definition MoveBodyWritePos :: "Packet \<Rightarrow> nat \<Rightarrow> Packet \<times> nat" where
  "MoveBodyWritePos p n =
     (let moveSize = min (sz_sub (pk_mBodyEnd p) (pk_mWritePos p)) n
      in (p\<lparr>pk_mWritePos := pk_mWritePos p + moveSize\<rparr>, moveSize))"

definition MoveBodyReadPos :: "Packet \<Rightarrow> nat \<Rightarrow> Packet \<times> nat" where
  "MoveBodyReadPos p n =
     (let moveSize = min (sz_sub (pk_mWritePos p) (pk_mReadPos p)) n
      in (p\<lparr>pk_mReadPos := pk_mReadPos p + moveSize\<rparr>, moveSize))"

definition SetHeader :: "Packet \<Rightarrow> byte list \<Rightarrow> Packet res" where
  "SetHeader p header =
     rbind (mem_read header 0 (pk_tHeaderSize p)) (\<lambda>h.
     rbind (mem_write (pk_mBuffer p) 0 h) (\<lambda>buf. Inr (p\<lparr>pk_mBuffer := buf\<rparr>)))"

definition GetHeader :: "Packet \<Rightarrow> byte list res" where
  "GetHeader p = mem_read (pk_mBuffer p) 0 (pk_tHeaderSize p)"

subsection \<open>Copying with the size switch\<close>

text \<open>
  A single load and store of \<open>n\<close> bytes, and the \<^verbatim>\<open>switch\<close> that \<^verbatim>\<open>GetBody\<close>, \<^verbatim>\<open>PeekBody\<close> and
  \<^verbatim>\<open>PutBody\<close> use in place of \<^verbatim>\<open>memcpy\<close> for up to 8 bytes.
\<close>

definition move_bytes :: "byte list \<Rightarrow> nat \<Rightarrow> byte list \<Rightarrow> nat \<Rightarrow> nat \<Rightarrow> byte list res" where
  "move_bytes dst i src j n = rbind (mem_read src j n) (\<lambda>xs. mem_write dst i xs)"

definition switch_copy :: "byte list \<Rightarrow> nat \<Rightarrow> byte list \<Rightarrow> nat \<Rightarrow> nat \<Rightarrow> byte list res" where
  "switch_copy dst i src j n =
     (if n = 0 then Inr dst
      else if n = 1 then move_bytes dst i src j 1
      else if n = 2 then move_bytes dst i src j 2
      else if n = 3 then
        rbind (move_bytes dst i src j 2) (\<lambda>d. move_bytes d (i + 2) src (j + 2) 1)
      else if n = 4 then move_bytes dst i src j 4
      else if n = 5 then
        rbind (move_bytes dst i src j 4) (\<lambda>d. move_bytes d (i + 4) src (j + 4) 1)
      else if n = 6 then
        rbind (move_bytes dst i src j 4) (\<lambda>d. move_bytes d (i + 4) src (j + 4) 2)
      else if n = 7 then
        rbind (move_bytes dst i src j 4) (\<lambda>d.
        rbind (move_bytes d (i + 4) src (j + 4) 2) (\<lambda>d. move_bytes d (i + 6) src (j + 6) 1))
      else if n = 8 then move_bytes dst i src j 8
      else move_bytes dst i src j n)"

text \<open>\<^verbatim>\<open>data\<close> is the caller's memory; the result is the packet, that memory and the size.\<close>

definition GetBody :: "Packet \<Rightarrow> byte list \<Rightarrow> nat \<Rightarrow> (Packet \<times> byte list \<times> nat) res" where
  "GetBody p data n =
     (let m = min (sz_sub (pk_mWritePos p) (pk_mReadPos p)) n in
      if m \<noteq> n then Inl ReaderException
      else if n = 0 then Inr (p, data, 0)
      else rbind (switch_copy data 0 (pk_mBuffer p) (pk_mReadPos p) n) (\<lambda>data'.
        Inr (p\<lparr>pk_mReadPos := pk_mReadPos p + n\<rparr>, data', n)))"

definition PeekBody :: "Packet \<Rightarrow> byte list \<Rightarrow> nat \<Rightarrow> (byte list \<times> nat) res" where
  "PeekBody p data n =
     (let m = min (sz_sub (pk_mWritePos p) (pk_mReadPos p)) n in
      if m = 0 then Inr (data, 0)
      else rbind (switch_copy data 0 (pk_mBuffer p) (pk_mReadPos p) m) (\<lambda>data'. Inr (data', m)))"

definition PutBody :: "Packet \<Rightarrow> byte list \<Rightarrow> nat \<Rightarrow> (Packet \<times> nat) res" where
  "PutBody p data n =
     (let m = min (sz_sub (pk_mBodyEnd p) (pk_mWritePos p)) n in
      if m = 0 then Inr (p, 0)
      else rbind (switch_copy (pk_mBuffer p) (pk_mWritePos p) data 0 m) (\<lambda>buf.
        Inr (p\<lparr>pk_mBuffer := buf, pk_mWritePos := pk_mWritePos p + m\<rparr>, m)))"

subsection \<open>Stream operators\<close>

text \<open>
  The operators for the integer types, \<^verbatim>\<open>std::byte\<close>, \<^verbatim>\<open>float\<close> and \<^verbatim>\<open>double\<close> differ in
  \<open>n = sizeof\<close> only; a value is its object representation, read as an unsigned number. The asserted
  result of \<^verbatim>\<open>PutBody\<close> is not used in a release build: a write that does not fit is cut off.
\<close>

definition stream_read :: "Packet \<Rightarrow> nat \<Rightarrow> (Packet \<times> nat) res" where
  "stream_read p n =
     rbind (GetBody p (replicate n 0) n) (\<lambda>(p', data, getResult). Inr (p', le_nat data))"

definition stream_write :: "Packet \<Rightarrow> nat \<Rightarrow> nat \<Rightarrow> Packet res" where
  "stream_write p n v = rbind (PutBody p (le_bytes n v) n) (\<lambda>(p', putResult). Inr p')"

definition stream_read_header :: "Packet \<Rightarrow> byte list res" where
  "stream_read_header p = GetHeader p"

subsection \<open>Encoding\<close>

text \<open>
  \<open>rnd\<close> is the value of \<^verbatim>\<open>::rand()\<close>. \<^verbatim>\<open>EncodeOnce\<close> stores the checksum in the byte before the
  body, encodes that byte and the body in place and then writes the rest of the header.
\<close>

definition EncodeOnce :: "Packet \<Rightarrow> byte \<Rightarrow> byte \<Rightarrow> nat \<Rightarrow> (Packet \<times> bool) res" where
  "EncodeOnce p code key rnd =
     (if pk_mIsEncoded p \<noteq> 0 then Inr (p\<lparr>pk_mIsEncoded := 1\<rparr>, False)
      else
        let n = GetBodySize p; randKey = (of_nat (rnd mod 255) :: byte) in
        rbind (mem_read (pk_mBuffer p) (pk_mBodyBegin p) n) (\<lambda>body.
        rbind (mem_write (pk_mBuffer p) (pk_mEncodeBegin p) [CalculateCheckSum body]) (\<lambda>b1.
        rbind (mem_read b1 (pk_mEncodeBegin p) (sz_add n 1)) (\<lambda>plain.
        rbind (mem_write b1 (pk_mEncodeBegin p) (PacketEncode key randKey plain)) (\<lambda>b2.
        rbind (mem_write b2 0 [code]) (\<lambda>b3.
        rbind (mem_write b3 1 (le_bytes 2 n)) (\<lambda>b4.
        rbind (mem_write b4 3 [randKey]) (\<lambda>b5.
        Inr (p\<lparr>pk_mIsEncoded := 1, pk_mBuffer := b5\<rparr>, True)))))))))"

definition DoDecode :: "Packet \<Rightarrow> byte \<Rightarrow> byte \<Rightarrow> (Packet \<times> bool) res" where
  "DoDecode p key randKey =
     (let n = GetBodySize p in
      rbind (mem_read (pk_mBuffer p) (pk_mEncodeBegin p) (sz_add n 1)) (\<lambda>cipher.
      rbind (mem_write (pk_mBuffer p) (pk_mEncodeBegin p) (PacketDecode key randKey cipher)) (\<lambda>b.
      rbind (mem_read b (pk_mEncodeBegin p) 1) (\<lambda>saved.
      rbind (mem_read b (pk_mBodyBegin p) n) (\<lambda>body.
      Inr (p\<lparr>pk_mBuffer := b\<rparr>, saved = [CalculateCheckSum body]))))))"

subsection \<open>Reference counting\<close>

definition Packet_AddRef :: "Packet \<Rightarrow> Packet \<times> int" where
  "Packet_AddRef p = (p\<lparr>pk_mRefCount := pk_mRefCount p + 1\<rparr>, pk_mRefCount p + 1)"

definition Packet_AddRef_n :: "Packet \<Rightarrow> int \<Rightarrow> Packet \<times> int" where
  "Packet_AddRef_n p x = (p\<lparr>pk_mRefCount := pk_mRefCount p + x\<rparr>, pk_mRefCount p + x)"

definition Packet_SubRef :: "Packet \<Rightarrow> Packet \<times> int" where
  "Packet_SubRef p = (p\<lparr>pk_mRefCount := pk_mRefCount p - 1\<rparr>, pk_mRefCount p - 1)"

subsection \<open>The switch copies like memcpy\<close>

lemma move_bytes_ok:
  "i + n \<le> length dst \<Longrightarrow> j + n \<le> length src \<Longrightarrow>
   move_bytes dst i src j n = Inr (take i dst @ take n (drop j src) @ drop (i + n) dst)"
  by (simp add: move_bytes_def res_simps)

lemma move_bytes_fault:
  "\<not> (i + n \<le> length dst \<and> j + n \<le> length src) \<Longrightarrow> move_bytes dst i src j n = Inl MemFault"
  by (auto simp: move_bytes_def mem_read_def mem_write_def)

lemma move_bytes_split:
  "rbind (move_bytes dst i src j a) (\<lambda>d. move_bytes d (i + a) src (j + a) b) =
   move_bytes dst i src j (a + b)"
proof (cases "i + (a + b) \<le> length dst \<and> j + (a + b) \<le> length src")
  case True
  define x where "x = take a (drop j src)"
  let ?d = "take i dst @ x @ drop (i + a) dst"
  have x: "length x = a" using True by (auto simp: x_def min_def)
  have d: "take (i + a) ?d = take i dst @ x" "length ?d = length dst"
    "drop (i + a + b) ?d = drop (i + (a + b)) dst"
    using True x by (auto simp: ac_simps)
  have "move_bytes ?d (i + a) src (j + a) b =
      Inr (take (i + a) ?d @ take b (drop (j + a) src) @ drop (i + a + b) ?d)"
    using True d(2) by (intro move_bytes_ok) auto
  also have "take (i + a) ?d @ take b (drop (j + a) src) @ drop (i + a + b) ?d =
      take i dst @ take (a + b) (drop j src) @ drop (i + (a + b)) dst"
    unfolding d(1,3) by (simp add: take_add x_def add.commute)
  finally show ?thesis
    using True by (simp add: move_bytes_ok x_def)
next
  case False
  then show ?thesis
    by (cases "i + a \<le> length dst \<and> j + a \<le> length src")
      (auto simp: move_bytes_ok move_bytes_fault)
qed

lemma switch_copy_eq: "0 < n \<Longrightarrow> switch_copy dst i src j n = move_bytes dst i src j n"
  using move_bytes_split [of dst i src j 2 1] move_bytes_split [of dst i src j 4 1]
    move_bytes_split [of dst i src j 4 2] move_bytes_split [of dst i src j 6 1]
  by (auto simp: switch_copy_def simp flip: rbind_assoc)

subsection \<open>Invariant and abstraction\<close>

definition pk_inv :: "Packet \<Rightarrow> bool" where
  "pk_inv p \<longleftrightarrow>
     1 \<le> pk_tHeaderSize p \<and> pk_tHeaderSize p \<le> pk_tBodyCapacity p \<and>
     pk_tHeaderSize p + pk_tBodyCapacity p < size_lim \<and>
     length (pk_mBuffer p) = pk_tHeaderSize p + pk_tBodyCapacity p \<and>
     pk_mBodyBegin p = pk_tHeaderSize p \<and> pk_mBodyEnd p = pk_tBodyCapacity p \<and>
     pk_mEncodeBegin p = pk_tHeaderSize p - 1 \<and>
     pk_tHeaderSize p \<le> pk_mReadPos p \<and> pk_mReadPos p \<le> pk_mWritePos p \<and>
     pk_mWritePos p \<le> pk_tBodyCapacity p"

definition pk_body :: "Packet \<Rightarrow> byte list" where
  "pk_body p = take (pk_mWritePos p - pk_tHeaderSize p) (drop (pk_tHeaderSize p) (pk_mBuffer p))"

definition pk_unread :: "Packet \<Rightarrow> byte list" where
  "pk_unread p = take (pk_mWritePos p - pk_mReadPos p) (drop (pk_mReadPos p) (pk_mBuffer p))"

text \<open>What goes on the wire: the header and the body, contiguous from \<^verbatim>\<open>GetHeaderPtr()\<close>.\<close>

definition pk_wire :: "Packet \<Rightarrow> byte list" where
  "pk_wire p = take (GetPacketSize p) (pk_mBuffer p)"

lemma pk_inv_Initial:
  "1 \<le> h \<Longrightarrow> h \<le> c \<Longrightarrow> h + c < size_lim \<Longrightarrow> length g = h + c \<Longrightarrow> pk_inv (Packet_Initial h c g)"
  by (simp add: pk_inv_def Packet_Initial_def)

lemma pk_inv_ClearBuffer: "pk_inv p \<Longrightarrow> pk_inv (Packet_ClearBuffer p)"
  by (auto simp: pk_inv_def Packet_ClearBuffer_def)

lemma pk_inv_sizes:
  assumes "pk_inv p"
  shows "GetBodySize p = pk_mWritePos p - pk_tHeaderSize p"
    and "GetPacketSize p = pk_mWritePos p"
    and "sz_sub (pk_mWritePos p) (pk_mReadPos p) = pk_mWritePos p - pk_mReadPos p"
    and "sz_sub (pk_mBodyEnd p) (pk_mWritePos p) = pk_tBodyCapacity p - pk_mWritePos p"
    and "sz_add (GetBodySize p) 1 = pk_mWritePos p - pk_tHeaderSize p + 1"
  using assms by (auto simp: pk_inv_def GetBodySize_def GetPacketSize_def GetHeaderSize_def size_simps)

lemma length_pk_body [simp]: "pk_inv p \<Longrightarrow> length (pk_body p) = GetBodySize p"
  by (auto simp: pk_inv_sizes pk_body_def pk_inv_def)

lemma length_pk_unread [simp]: "pk_inv p \<Longrightarrow> length (pk_unread p) = pk_mWritePos p - pk_mReadPos p"
  by (auto simp: pk_unread_def pk_inv_def)

lemma pk_unread_fresh: "pk_mReadPos p = pk_tHeaderSize p \<Longrightarrow> pk_unread p = pk_body p"
  by (simp add: pk_unread_def pk_body_def)

subsection \<open>Reading and writing the body\<close>

lemma GetBody_eq:
  assumes "pk_inv p" and "n \<le> length data"
  shows "GetBody p data n =
    (if n \<le> length (pk_unread p)
     then Inr (p\<lparr>pk_mReadPos := pk_mReadPos p + n\<rparr>, take n (pk_unread p) @ drop n data, n)
     else Inl ReaderException)"
proof -
  have "pk_mReadPos p + n \<le> length (pk_mBuffer p)" if "n \<le> pk_mWritePos p - pk_mReadPos p"
    using that assms(1) by (auto simp: pk_inv_def)
  then show ?thesis
    using assms by (cases n)
      (auto simp: GetBody_def pk_inv_sizes Let_def switch_copy_eq move_bytes_ok pk_unread_def min_def)
qed

text \<open>Without room for the data: too short a packet is noticed first, then the copy leaves the destination.\<close>

lemma GetBody_small:
  assumes "pk_inv p"
  shows "length (pk_unread p) < n \<Longrightarrow> GetBody p data n = Inl ReaderException"
    and "n \<le> length (pk_unread p) \<Longrightarrow> length data < n \<Longrightarrow> GetBody p data n = Inl MemFault"
  using assms by (auto simp: GetBody_def pk_inv_sizes Let_def switch_copy_eq move_bytes_fault min_def)

lemma pk_inv_read:
  "pk_inv p \<Longrightarrow> n \<le> length (pk_unread p) \<Longrightarrow> pk_inv (p\<lparr>pk_mReadPos := pk_mReadPos p + n\<rparr>)"
  by (auto simp: pk_inv_def)

lemma pk_unread_read:
  "pk_unread (p\<lparr>pk_mReadPos := pk_mReadPos p + n\<rparr>) = drop n (pk_unread p)"
  by (simp add: pk_unread_def drop_take add.commute)

lemma PeekBody_eq:
  assumes "pk_inv p" and "n \<le> length data"
  shows "PeekBody p data n =
    Inr (let m = min n (length (pk_unread p)) in (take m (pk_unread p) @ drop m data, m))"
proof -
  define m where "m = min (pk_mWritePos p - pk_mReadPos p) n"
  have m: "pk_mReadPos p + m \<le> length (pk_mBuffer p)" "m \<le> length data"
    "m \<le> pk_mWritePos p - pk_mReadPos p"
    using assms by (auto simp: pk_inv_def m_def)
  have "take m (pk_unread p) = take m (drop (pk_mReadPos p) (pk_mBuffer p))"
    using m(3) by (simp add: pk_unread_def min_absorb1)
  moreover have "min n (length (pk_unread p)) = m" "min (sz_sub (pk_mWritePos p) (pk_mReadPos p)) n = m"
    using assms(1) by (auto simp: m_def pk_inv_sizes min.commute)
  ultimately show ?thesis
    using m by (cases "m = 0") (simp_all add: PeekBody_def switch_copy_eq move_bytes_ok)
qed

lemma PutBody_eq:
  assumes inv: "pk_inv p" and "n \<le> length data"
    and m: "m = min n (pk_tBodyCapacity p - pk_mWritePos p)"
  shows "PutBody p data n =
    Inr (p\<lparr>pk_mBuffer := take (pk_mWritePos p) (pk_mBuffer p) @ take m data @
             drop (pk_mWritePos p + m) (pk_mBuffer p),
           pk_mWritePos := pk_mWritePos p + m\<rparr>, m)"
proof -
  have "pk_mWritePos p + m \<le> length (pk_mBuffer p)" "m \<le> length data"
    using assms by (auto simp: pk_inv_def)
  moreover have "min (sz_sub (pk_mBodyEnd p) (pk_mWritePos p)) n = m"
    using inv m by (simp add: pk_inv_sizes min.commute)
  ultimately show ?thesis
    by (cases "m = 0") (simp_all add: PutBody_def switch_copy_eq move_bytes_ok)
qed

lemma PutBody_spec:
  assumes inv: "pk_inv p" and n: "n \<le> length data"
  shows "\<exists>p' m. PutBody p data n = Inr (p', m) \<and> pk_inv p' \<and>
    m = min n (pk_tBodyCapacity p - pk_mWritePos p) \<and>
    pk_body p' = pk_body p @ take m data \<and> pk_unread p' = pk_unread p @ take m data \<and>
    p' = p\<lparr>pk_mBuffer := pk_mBuffer p', pk_mWritePos := pk_mWritePos p + m\<rparr> \<and>
    take (pk_tHeaderSize p) (pk_mBuffer p') = take (pk_tHeaderSize p) (pk_mBuffer p)"
proof -
  let ?w = "pk_mWritePos p"
  define m where "m = min n (pk_tBodyCapacity p - ?w)"
  define x where "x = take m data"
  let ?rest = "drop (?w + m) (pk_mBuffer p)"
  let ?buf = "take ?w (pk_mBuffer p) @ x @ ?rest"
  let ?p' = "p\<lparr>pk_mBuffer := ?buf, pk_mWritePos := ?w + m\<rparr>"
  have m: "length x = m" "?w + m \<le> pk_tBodyCapacity p"
    using n inv by (auto simp: m_def x_def pk_inv_def)
  have w: "?w \<le> length (pk_mBuffer p)" "pk_tHeaderSize p \<le> ?w" "pk_mReadPos p \<le> ?w"
    using inv by (auto simp: pk_inv_def)
  have sel: "pk_mBuffer ?p' = ?buf" "pk_mWritePos ?p' = ?w + m"
    "pk_tHeaderSize ?p' = pk_tHeaderSize p" "pk_mReadPos ?p' = pk_mReadPos p"
    by simp_all
  have "pk_inv ?p'" using inv m w by (auto simp: pk_inv_def)
  moreover have "pk_body ?p' = pk_body p @ x" "pk_unread ?p' = pk_unread p @ x"
    using take_drop_extend [OF w(2,1), of x ?rest, unfolded m(1)]
      take_drop_extend [OF w(3,1), of x ?rest, unfolded m(1)]
    unfolding pk_body_def pk_unread_def sel by blast+
  moreover have "take (pk_tHeaderSize p) (pk_mBuffer ?p') = take (pk_tHeaderSize p) (pk_mBuffer p)"
    using w by simp
  ultimately show ?thesis
    using PutBody_eq [OF inv n m_def] unfolding m_def [symmetric] x_def [symmetric]
    by (intro exI [of _ ?p'] exI [of _ m]) (simp add: x_def)
qed

subsection \<open>The encoded form of a packet\<close>

text \<open>
  The frame that \<^verbatim>\<open>EncodeOnce\<close> leaves in a packet with a 5-byte \<^verbatim>\<open>NetHeader\<close>: code, length, random
  key, and the encoding of the checksum followed by the body.
\<close>

definition net_frame :: "byte \<Rightarrow> byte \<Rightarrow> byte \<Rightarrow> byte list \<Rightarrow> byte list" where
  "net_frame code key randKey body =
     code # le_bytes 2 (length body) @ randKey # PacketEncode key randKey (CalculateCheckSum body # body)"

lemma length_net_frame [simp]: "length (net_frame c k r body) = 5 + length body"
  by (simp add: net_frame_def codec.length_enc)

lemma mem_write_mid:
  "i = length xs \<Longrightarrow> length ys' = length ys \<Longrightarrow> mem_write (xs @ ys @ zs) i ys' = Inr (xs @ ys' @ zs)"
  by (simp add: mem_write_def)

lemma mem_read_mid:
  "i = length xs \<Longrightarrow> n = length ys \<Longrightarrow> mem_read (xs @ ys @ zs) i n = Inr ys"
  by (simp add: mem_read_def)

lemma list_split5:
  assumes "5 + n \<le> length m"
  obtains b0 b1 b2 b3 b4 ys zs where "m = [b0, b1, b2, b3, b4] @ ys @ zs" "length ys = n"
    "ys = take n (drop 5 m)"
proof -
  obtain b0 b1 b2 b3 b4 r where r: "m = b0 # b1 # b2 # b3 # b4 # r"
    using assms by (auto simp: numeral_eq_Suc Suc_le_length_iff)
  show ?thesis
    using assms r by (intro that [of b0 b1 b2 b3 b4 "take n r" "drop n r"]) (auto simp: r)
qed

lemma pk_split5:
  assumes "pk_inv p" "pk_tHeaderSize p = 5"
  obtains b0 b1 b2 b3 b4 zs where "pk_mBuffer p = [b0, b1, b2, b3, b4] @ pk_body p @ zs"
proof -
  have "5 + (pk_mWritePos p - 5) \<le> length (pk_mBuffer p)"
    using assms by (auto simp: pk_inv_def)
  then obtain b0 b1 b2 b3 b4 ys zs where
    "pk_mBuffer p = [b0, b1, b2, b3, b4] @ ys @ zs" "ys = take (pk_mWritePos p - 5) (drop 5 (pk_mBuffer p))"
    by (rule list_split5)
  then show ?thesis using that [of b0 b1 b2 b3 b4 zs] assms(2) by (simp add: pk_body_def)
qed

lemma take_pre_mid: "n = length xs + length ys \<Longrightarrow> take n (xs @ ys @ zs) = xs @ ys"
  by simp

lemma EncodeOnce_spec:
  assumes inv: "pk_inv p" and h: "pk_tHeaderSize p = 5" and e: "pk_mIsEncoded p = 0"
  shows "\<exists>p'. EncodeOnce p code key rnd = Inr (p', True) \<and> pk_inv p' \<and>
    pk_wire p' = net_frame code key (of_nat (rnd mod 255)) (pk_body p) \<and>
    p' = p\<lparr>pk_mIsEncoded := 1, pk_mBuffer := pk_mBuffer p'\<rparr>"
proof -
  let ?b = "pk_body p" let ?rk = "of_nat (rnd mod 255) :: byte"
  define n where "n = GetBodySize p"
  obtain b0 b1 b2 b3 b4 zs where buf: "pk_mBuffer p = [b0, b1, b2, b3, b4] @ ?b @ zs"
    using pk_split5 [OF inv h] by blast
  define enc where "enc = PacketEncode key ?rk (CalculateCheckSum ?b # ?b)"
  have n: "length ?b = n" "sz_add n 1 = Suc n" "pk_mBodyBegin p = 5" "pk_mEncodeBegin p = 4"
      "pk_mWritePos p = 5 + n"
    using inv h pk_inv_sizes [OF inv] by (auto simp: n_def pk_inv_def)
  have enc: "length enc = Suc n" by (simp add: enc_def codec.length_enc n)
  define l0 :: byte where "l0 = of_nat n"
  define l1 :: byte where "l1 = of_nat (n div 256)"
  have l: "le_bytes 2 n = [l0, l1]" by (simp add: l0_def l1_def le_bytes_2)
  let ?cs = "CalculateCheckSum ?b"
  let ?buf = "[code, l0, l1, ?rk] @ enc @ zs"
  have steps: "mem_read (pk_mBuffer p) 5 n = Inr ?b"
    "mem_write (pk_mBuffer p) 4 [?cs] = Inr ([b0, b1, b2, b3] @ (?cs # ?b) @ zs)"
    "mem_read ([b0, b1, b2, b3] @ (?cs # ?b) @ zs) 4 (Suc n) = Inr (?cs # ?b)"
    "mem_write ([b0, b1, b2, b3] @ (?cs # ?b) @ zs) 4 enc = Inr ([b0, b1, b2, b3] @ enc @ zs)"
    "mem_write ([b0, b1, b2, b3] @ enc @ zs) 0 [code] = Inr ([code, b1, b2, b3] @ enc @ zs)"
    "mem_write ([code, b1, b2, b3] @ enc @ zs) 1 [l0, l1] = Inr ([code, l0, l1, b3] @ enc @ zs)"
    "mem_write ([code, l0, l1, b3] @ enc @ zs) 3 [?rk] = Inr ?buf"
    subgoal by (simp only: buf) (rule mem_read_mid, simp_all add: n)
    subgoal using mem_write_mid [of 4 "[b0, b1, b2, b3]" "[?cs]" "[b4]" "?b @ zs"] buf by simp
    subgoal by (rule mem_read_mid) (simp_all add: n)
    subgoal by (rule mem_write_mid) (simp_all add: n enc)
    subgoal using mem_write_mid [of 0 "[]" "[code]" "[b0]" "[b1, b2, b3] @ enc @ zs"] by simp
    subgoal using mem_write_mid [of 1 "[code]" "[l0, l1]" "[b1, b2]" "[b3] @ enc @ zs"] by simp
    subgoal using mem_write_mid [of 3 "[code, l0, l1]" "[?rk]" "[b3]" "enc @ zs"] by simp
    done
  have len: "length ?buf = length (pk_mBuffer p)"
    unfolding buf by (simp add: enc n)
  let ?p' = "p\<lparr>pk_mIsEncoded := 1, pk_mBuffer := ?buf\<rparr>"
  have "EncodeOnce p code key rnd = Inr (?p', True)"
    unfolding EncodeOnce_def Let_def n_def [symmetric] n(2,3,4) e
    by (simp only: steps rbind_Inr enc_def [symmetric] l simp_thms if_False)
  moreover have inv': "pk_inv ?p'"
    using inv len unfolding pk_inv_def Packet.select_convs by simp
  moreover have "pk_wire ?p' = take (5 + n) ?buf"
    unfolding pk_wire_def pk_inv_sizes [OF inv'] using n by simp
  moreover have "take (5 + n) ?buf = [code, l0, l1, ?rk] @ enc"
    by (rule take_pre_mid) (simp add: enc)
  ultimately show ?thesis
    by (intro exI [of _ ?p']) (simp add: net_frame_def n l enc_def)
qed

lemma EncodeOnce_again:
  "pk_mIsEncoded p \<noteq> 0 \<Longrightarrow> EncodeOnce p code key rnd = Inr (p\<lparr>pk_mIsEncoded := 1\<rparr>, False)"
  by (simp add: EncodeOnce_def)

text \<open>
  \<^verbatim>\<open>DoDecode\<close> on a 5-byte header: the byte before the body and the body are decoded in place and
  the checksum is compared.
\<close>

lemma pk_wire_split5:
  assumes "pk_inv p" "pk_tHeaderSize p = 5"
  obtains zs where "pk_mBuffer p = take 4 (pk_wire p) @ drop 4 (pk_wire p) @ zs"
    "length (pk_wire p) = 5 + GetBodySize p"
proof -
  have "pk_mBuffer p = pk_wire p @ drop (GetPacketSize p) (pk_mBuffer p)"
    by (simp add: pk_wire_def)
  moreover have "length (pk_wire p) = 5 + GetBodySize p"
    using assms pk_inv_sizes [OF assms(1)] by (auto simp: pk_wire_def pk_inv_def)
  ultimately show ?thesis
    using that [of "drop (GetPacketSize p) (pk_mBuffer p)"] by (simp flip: append_assoc)
qed

lemma DoDecode_spec:
  assumes inv: "pk_inv p" and h: "pk_tHeaderSize p = 5"
    and plain: "PacketDecode key randKey (drop 4 (pk_wire p)) = cs # body"
  shows "\<exists>p'. DoDecode p key randKey = Inr (p', cs = CalculateCheckSum body) \<and> pk_inv p' \<and>
    pk_body p' = body \<and> p' = p\<lparr>pk_mBuffer := pk_mBuffer p'\<rparr>"
proof -
  define n where "n = GetBodySize p"
  obtain zs where buf: "pk_mBuffer p = take 4 (pk_wire p) @ drop 4 (pk_wire p) @ zs"
    and len: "length (pk_wire p) = 5 + n"
    using pk_wire_split5 [OF inv h] n_def by blast
  define pre where "pre = take 4 (pk_wire p)"
  define c where "c = drop 4 (pk_wire p)"
  have pre: "length pre = 4" "length c = Suc n" using len by (auto simp: pre_def c_def)
  have n: "sz_add n 1 = Suc n" "pk_mBodyBegin p = 5" "pk_mEncodeBegin p = 4" "pk_mWritePos p = 5 + n"
    using inv h pk_inv_sizes [OF inv] by (auto simp: n_def pk_inv_def)
  have lb: "length body = n"
    using pre(2) plain codec.length_dec [of key randKey c] by (simp add: c_def)
  let ?buf = "pre @ (cs # body) @ zs" let ?p' = "p\<lparr>pk_mBuffer := ?buf\<rparr>"
  have steps: "mem_read (pk_mBuffer p) 4 (Suc n) = Inr c"
    "mem_write (pk_mBuffer p) 4 (cs # body) = Inr ?buf"
    "mem_read ?buf 4 1 = Inr [cs]" "mem_read ?buf 5 n = Inr body"
    subgoal unfolding buf pre_def [symmetric] c_def [symmetric] by (rule mem_read_mid) (simp_all add: pre)
    subgoal unfolding buf pre_def [symmetric] c_def [symmetric]
      by (rule mem_write_mid) (simp_all add: pre lb)
    subgoal using mem_read_mid [of 4 pre 1 "[cs]" "body @ zs"] pre by simp
    subgoal using mem_read_mid [of 5 "pre @ [cs]" n body zs] pre lb by simp
    done
  have "DoDecode p key randKey = Inr (?p', cs = CalculateCheckSum body)"
    unfolding DoDecode_def Let_def n_def [symmetric] n
    by (simp add: steps steps(3) [unfolded One_nat_def] plain [folded c_def] del: append_Cons)
  moreover have "length ?buf = length (pk_mBuffer p)"
    unfolding buf pre_def [symmetric] c_def [symmetric] by (simp add: pre lb)
  then have "pk_inv ?p'" using inv by (simp add: pk_inv_def)
  moreover have "pk_body ?p' = body"
    using pre lb n h by (simp add: pk_body_def)
  ultimately show ?thesis by (intro exI [of _ ?p']) simp
qed

text \<open>Decoding what \<^verbatim>\<open>EncodeOnce\<close> put on the wire gives the body back and accepts the checksum.\<close>

lemma DoDecode_net_frame:
  assumes inv: "pk_inv p" and h: "pk_tHeaderSize p = 5" and w: "pk_wire p = net_frame code key rk body"
  shows "\<exists>p'. DoDecode p key rk = Inr (p', True) \<and> pk_inv p' \<and> pk_body p' = body \<and>
    p' = p\<lparr>pk_mBuffer := pk_mBuffer p'\<rparr>"
proof -
  have "PacketDecode key rk (drop 4 (pk_wire p)) = CalculateCheckSum body # body"
    by (simp add: w net_frame_def le_bytes_2 codec.dec_enc)
  from DoDecode_spec [OF inv h this] show ?thesis by simp
qed

subsection \<open>Stream operators\<close>

lemma stream_write_spec:
  assumes "pk_inv p" and "pk_mWritePos p + n \<le> pk_tBodyCapacity p"
  shows "\<exists>p'. stream_write p n v = Inr p' \<and> pk_inv p' \<and> pk_unread p' = pk_unread p @ le_bytes n v \<and>
    pk_body p' = pk_body p @ le_bytes n v \<and> pk_tBodyCapacity p' = pk_tBodyCapacity p \<and>
    pk_mWritePos p' = pk_mWritePos p + n"
proof -
  obtain p' where "PutBody p (le_bytes n v) n = Inr (p', n)" "pk_inv p'"
    "pk_body p' = pk_body p @ le_bytes n v" "pk_unread p' = pk_unread p @ le_bytes n v"
    "p' = p\<lparr>pk_mBuffer := pk_mBuffer p', pk_mWritePos := pk_mWritePos p + n\<rparr>"
    using PutBody_spec [OF assms(1), of n "le_bytes n v"] assms(2) by (auto simp: min_absorb1)
  moreover from this(5) have "pk_tBodyCapacity p' = pk_tBodyCapacity p" "pk_mWritePos p' = pk_mWritePos p + n"
    by (auto dest: arg_cong [of _ _ pk_tBodyCapacity] arg_cong [of _ _ pk_mWritePos])
  ultimately show ?thesis
    by (intro exI [of _ p']) (simp add: stream_write_def)
qed

lemma stream_read_spec:
  assumes "pk_inv p" and "pk_unread p = le_bytes n v @ rest" and "v < 256 ^ n"
  shows "\<exists>p'. stream_read p n = Inr (p', v) \<and> pk_inv p' \<and> pk_unread p' = rest"
proof -
  let ?p' = "p\<lparr>pk_mReadPos := pk_mReadPos p + n\<rparr>"
  have n: "n \<le> length (pk_unread p)" using assms by (simp only: assms(2)) simp
  have "stream_read p n = Inr (?p', v)"
    using assms n by (simp add: stream_read_def GetBody_eq)
  then show ?thesis
    using pk_inv_read [OF assms(1) n] assms(2) by (simp add: pk_unread_read)
qed

lemma stream_read_short:
  assumes "pk_inv p" and "length (pk_unread p) < n"
  shows "stream_read p n = Inl ReaderException"
  using assms by (simp add: stream_read_def GetBody_eq)

text \<open>A message as a list of fields, each a size and a value.\<close>

definition write_fields :: "(nat \<times> nat) list \<Rightarrow> Packet \<Rightarrow> Packet res" where
  "write_fields fs p = rfold (\<lambda>(n, v) q. stream_write q n v) fs p"

fun read_fields :: "nat list \<Rightarrow> Packet \<Rightarrow> (Packet \<times> nat list) res" where
  "read_fields [] p = Inr (p, [])"
| "read_fields (n # ns) p =
     rbind (stream_read p n) (\<lambda>(p', v). rbind (read_fields ns p') (\<lambda>(p'', vs). Inr (p'', v # vs)))"

lemma write_fields_spec:
  assumes "pk_inv p" and "pk_mWritePos p + sum_list (map fst fs) \<le> pk_tBodyCapacity p"
  shows "\<exists>p'. write_fields fs p = Inr p' \<and> pk_inv p' \<and>
    pk_unread p' = pk_unread p @ concat (map (\<lambda>(n, v). le_bytes n v) fs)"
  using assms
proof (induction fs arbitrary: p)
  case Nil
  then show ?case by (simp add: write_fields_def)
next
  case (Cons f fs)
  obtain n v where f: "f = (n, v)" by force
  obtain p1 where p1: "stream_write p n v = Inr p1" "pk_inv p1" "pk_unread p1 = pk_unread p @ le_bytes n v"
    "pk_mWritePos p1 + sum_list (map fst fs) \<le> pk_tBodyCapacity p1"
    using stream_write_spec [OF Cons.prems(1), of n v] Cons.prems(2) f by auto
  then show ?case using Cons.IH [OF p1(2,4)] f by (auto simp: write_fields_def)
qed

lemma read_fields_spec:
  assumes "pk_inv p" and "pk_unread p = concat (map (\<lambda>(n, v). le_bytes n v) fs) @ rest"
    and "\<forall>(n, v) \<in> set fs. v < 256 ^ n"
  shows "\<exists>p'. read_fields (map fst fs) p = Inr (p', map snd fs) \<and> pk_inv p' \<and> pk_unread p' = rest"
  using assms
proof (induction fs arbitrary: p)
  case Nil
  then show ?case by simp
next
  case (Cons f fs)
  obtain n v where f: "f = (n, v)" by force
  obtain p1 where p1: "stream_read p n = Inr (p1, v)" "pk_inv p1"
    "pk_unread p1 = concat (map (\<lambda>(n, v). le_bytes n v) fs) @ rest"
    using stream_read_spec [OF Cons.prems(1), of n v] Cons.prems f by auto
  then show ?case using Cons.IH [OF p1(2,3)] Cons.prems(3) f by auto
qed

lemma stream_read_avail:
  assumes "pk_inv p" and "n \<le> length (pk_unread p)"
  shows "\<exists>p'. stream_read p n = Inr (p', le_nat (take n (pk_unread p))) \<and> pk_inv p' \<and> pk_unread p' = drop n (pk_unread p)"
proof -
  have "pk_unread p = le_bytes n (le_nat (take n (pk_unread p))) @ drop n (pk_unread p)"
    using le_bytes_le_nat [of "take n (pk_unread p)"] assms(2) by simp
  moreover have "le_nat (take n (pk_unread p)) < 256 ^ n"
    using le_bytes_le_nat [of "take n (pk_unread p)"] assms(2)
    by (metis le_nat_le_bytes length_take min_absorb2 mod_less_divisor zero_less_power zero_less_numeral)
  ultimately show ?thesis using stream_read_spec [OF assms(1)] by metis
qed

subsection \<open>Properties\<close>

text \<open>
  C30. A message of any fields that fit in the packet, written with the stream operators, is read back with the stream
  operators of the same types as the same values.
\<close>

theorem fields_round_trip:
  assumes "pk_inv p" "pk_unread p = []" "pk_mWritePos p + sum_list (map fst fs) \<le> pk_tBodyCapacity p"
    and "\<forall>(n, v) \<in> set fs. v < 256 ^ n"
  shows "\<exists>p1 p2. write_fields fs p = Inr p1 \<and> read_fields (map fst fs) p1 = Inr (p2, map snd fs) \<and> pk_inv p2 \<and> pk_unread p2 = []"
proof -
  obtain p1 where p1: "write_fields fs p = Inr p1" "pk_inv p1" "pk_unread p1 = concat (map (\<lambda>(n, v). le_bytes n v) fs)"
    using write_fields_spec [OF assms(1,3)] assms(2) by auto
  with read_fields_spec [OF p1(2), of fs "[]"] assms(4) show ?thesis by auto
qed

theorem fields_round_trip_witness:
  "\<exists>p1 p2. write_fields [(2, 3), (8, 12345678901), (2, 40000)] (Packet_Initial 5 4096 (replicate 4101 0)) = Inr p1 \<and>
    read_fields [2, 8, 2] p1 = Inr (p2, [3, 12345678901, 40000]) \<and> pk_unread p2 = []"
proof -
  let ?p = "Packet_Initial 5 4096 (replicate 4101 0)"
  have "pk_inv ?p" by (rule pk_inv_Initial) (simp_all add: size_lim_def)
  moreover have "pk_unread ?p = []" "pk_mWritePos ?p = 5" "pk_tBodyCapacity ?p = 4096"
    by (simp_all add: pk_unread_def Packet_Initial_def)
  ultimately show ?thesis using fields_round_trip [of ?p "[(2, 3), (8, 12345678901), (2, 40000)]"] by auto
qed

text \<open>
  Reading a sequence of fields from a packet either consumes exactly their bytes or, when the packet is too short
  for them, raises \<^verbatim>\<open>PacketReaderException\<close>: a truncated message from a client is never read past its end.
\<close>

theorem truncated_message_raises:
  assumes "pk_inv p"
  shows "if sum_list ns \<le> length (pk_unread p)
    then \<exists>p' vs. read_fields ns p = Inr (p', vs) \<and> pk_inv p' \<and> pk_unread p' = drop (sum_list ns) (pk_unread p)
    else read_fields ns p = Inl ReaderException"
  using assms
proof (induction ns arbitrary: p)
  case Nil
  then show ?case by auto
next
  case (Cons n ns)
  show ?case
  proof (cases "n \<le> length (pk_unread p)")
    case True
    from stream_read_avail [OF Cons.prems True] Cons.IH True show ?thesis
      by (fastforce simp: add.commute split: if_splits)
  next
    case False
    then show ?thesis using stream_read_short [OF Cons.prems] by simp
  qed
qed

theorem truncated_message_raises_witness:
  "read_fields [2, 8] (Packet_Initial 5 4096 (replicate 4101 0)) = Inl ReaderException"
proof -
  let ?p = "Packet_Initial 5 4096 (replicate 4101 0)"
  have "pk_inv ?p" by (rule pk_inv_Initial) (simp_all add: size_lim_def)
  moreover have "pk_unread ?p = []" by (simp add: pk_unread_def Packet_Initial_def)
  ultimately show ?thesis using truncated_message_raises [of ?p "[2, 8]"] by simp
qed

text \<open>
  C29. What \<^verbatim>\<open>EncodeOnce\<close> puts on the wire is decoded by the receiver with the same key and the random key of the header:
  the checksum is right and the body is the sender's. A second \<^verbatim>\<open>EncodeOnce\<close> changes nothing.
\<close>

theorem encode_decode_round_trip:
  assumes "pk_inv p" "pk_tHeaderSize p = 5" "pk_mIsEncoded p = 0"
    and q: "pk_inv q" "pk_tHeaderSize q = 5"
  shows "\<exists>p'. EncodeOnce p code key rnd = Inr (p', True) \<and> EncodeOnce p' code key rnd' = Inr (p', False) \<and>
    pk_wire p' ! 0 = code \<and>
    (pk_wire q = pk_wire p' \<longrightarrow> (\<exists>q'. DoDecode q key (pk_wire p' ! 3) = Inr (q', True) \<and> pk_body q' = pk_body p))"
proof -
  obtain p' where p': "EncodeOnce p code key rnd = Inr (p', True)"
    "pk_wire p' = net_frame code key (of_nat (rnd mod 255)) (pk_body p)"
    "p' = p\<lparr>pk_mIsEncoded := 1, pk_mBuffer := pk_mBuffer p'\<rparr>"
    using EncodeOnce_spec [OF assms(1-3)] by metis
  have e: "pk_mIsEncoded p' = 1" using arg_cong [OF p'(3), of pk_mIsEncoded] by simp
  then have "EncodeOnce p' code key rnd' = Inr (p', False)" by (simp add: EncodeOnce_again)
  moreover have w: "pk_wire p' ! 0 = code" "pk_wire p' ! 3 = of_nat (rnd mod 255)"
    by (simp_all add: p'(2) net_frame_def nth_append le_bytes_2)
  ultimately show ?thesis using p'(1,2) DoDecode_net_frame [OF q, of code key "of_nat (rnd mod 255)" "pk_body p"]
    by (intro exI [of _ p']) (auto simp: w)
qed

theorem encode_decode_round_trip_witness:
  "\<exists>p'. EncodeOnce (Packet_Initial 5 16 (replicate 21 0)) 0x77 0xa9 1000 = Inr (p', True) \<and> pk_wire p' ! 0 = 0x77 \<and>
    (\<exists>q'. DoDecode p' 0xa9 (pk_wire p' ! 3) = Inr (q', True) \<and> pk_body q' = [])"
proof -
  let ?p = "Packet_Initial 5 16 (replicate 21 0)"
  have i: "pk_inv ?p" "pk_tHeaderSize ?p = 5" "pk_mIsEncoded ?p = 0" "pk_body ?p = []"
    using pk_inv_Initial [of 5 16 "replicate 21 0"] by (simp_all add: size_lim_def) (simp_all add: Packet_Initial_def pk_body_def)
  obtain p' where p': "EncodeOnce ?p 0x77 0xa9 1000 = Inr (p', True)" "pk_inv p'" "p' = ?p\<lparr>pk_mIsEncoded := 1, pk_mBuffer := pk_mBuffer p'\<rparr>"
    using EncodeOnce_spec [OF i(1-3)] by metis
  have "pk_tHeaderSize p' = 5" using arg_cong [OF p'(3), of pk_tHeaderSize] i(2) by simp
  from encode_decode_round_trip [OF i(1-3) p'(2) this, of "0x77" "0xa9" 1000 0] p'(1) i(4) show ?thesis by auto
qed

end
