(* ===== verification/Object_Pool.thy ===== *)
theory Object_Pool
  imports Prelude
begin

text \<open>
  The single-threaded free-list pool \<^verbatim>\<open>nf::objectpool::ObjectPool\<close> (\<^verbatim>\<open>ObjectPool.hpp\<close>), the heap of
  block nodes that it and \<^verbatim>\<open>ObjectPoolLockFree\<close> work on, and the contract of an object pool as a
  locale. An address stands for a block node and for the object inside it (\<^verbatim>\<open>GetPtrBlockNode\<close> is a
  constant offset); \<open>bn_t\<close> says whether the object in the node is constructed. \<^verbatim>\<open>malloc\<close> returns a
  fresh address and does not fail.
\<close>

datatype eAllocationPolicy = NonePolicy | CallConstructorDestructor

record BlockNode =
  bn_Next :: "nat option"
  bn_SafeUpper :: int
  bn_t :: bool
  bn_SafeLower :: int

type_synonym node_heap = "nat \<rightharpoonup> BlockNode"

definition GUARD :: int where
  "GUARD = 0x1234567890ABCDEF"

definition construct :: "eAllocationPolicy \<Rightarrow> BlockNode \<Rightarrow> BlockNode" where
  "construct pol b = (if pol = CallConstructorDestructor then b\<lparr>bn_t := True\<rparr> else b)"

definition destruct :: "eAllocationPolicy \<Rightarrow> BlockNode \<Rightarrow> BlockNode res" where
  "destruct pol b =
     (if pol = CallConstructorDestructor
      then (if bn_t b then Inr (b\<lparr>bn_t := False\<rparr>) else Inl DeadObject) else Inr b)"

record ObjectPool =
  op_heap :: node_heap
  op_brk :: nat
  op_mMaxCapacity :: int
  op_mUsedSize :: int
  op_mCachedSize :: int
  op_mFreeBlockNodeHeader :: "nat option"

text \<open>The allocation loop: each new node points to the previous one.\<close>

fun alloc_nodes :: "eAllocationPolicy \<Rightarrow> nat \<Rightarrow> nat option \<Rightarrow> node_heap \<Rightarrow> nat \<Rightarrow> node_heap \<times> nat \<times> nat option" where
  "alloc_nodes pol 0 prev h brk = (h, brk, prev)"
| "alloc_nodes pol (Suc n) prev h brk =
     alloc_nodes pol n (Some brk)
       (h(brk \<mapsto> \<lparr>bn_Next = prev, bn_SafeUpper = GUARD, bn_t = (pol = NonePolicy), bn_SafeLower = GUARD\<rparr>))
       (Suc brk)"

definition AllocateFreeBlockNodes ::
    "eAllocationPolicy \<Rightarrow> nat \<Rightarrow> ObjectPool \<Rightarrow> ObjectPool \<times> nat option \<times> nat" where
  "AllocateFreeBlockNodes pol blockCount s =
     (let (h, brk, header) = alloc_nodes pol blockCount None (op_heap s) (op_brk s)
      in (s\<lparr>op_heap := h, op_brk := brk\<rparr>, header, blockCount))"

definition ObjectPool_Create :: "eAllocationPolicy \<Rightarrow> nat \<Rightarrow> ObjectPool" where
  "ObjectPool_Create pol initialCapacity =
     (let s = \<lparr>op_heap = Map.empty, op_brk = 0, op_mMaxCapacity = 0, op_mUsedSize = 0,
               op_mCachedSize = 0, op_mFreeBlockNodeHeader = None\<rparr>;
          (s', header, count) = AllocateFreeBlockNodes pol initialCapacity s
      in s'\<lparr>op_mFreeBlockNodeHeader := header, op_mMaxCapacity := op_mMaxCapacity s' + int count,
            op_mCachedSize := op_mCachedSize s' + int count\<rparr>)"

text \<open>
  The loop that frees the list. Every iteration frees the node it visits, so it runs at most once
  per address below \<open>op_brk\<close>: that number bounds it.
\<close>

fun free_nodes :: "eAllocationPolicy \<Rightarrow> nat \<Rightarrow> nat option \<Rightarrow> node_heap \<Rightarrow> node_heap res" where
  "free_nodes pol fuel None h = Inr h"
| "free_nodes pol 0 (Some a) h = Inl Spin"
| "free_nodes pol (Suc fuel) (Some a) h =
     (case h a of None \<Rightarrow> Inl DeadObject
      | Some b \<Rightarrow>
          if pol = NonePolicy \<and> \<not> bn_t b then Inl DeadObject
          else free_nodes pol fuel (bn_Next b) (h(a := None)))"

definition ObjectPool_Clear :: "eAllocationPolicy \<Rightarrow> ObjectPool \<Rightarrow> ObjectPool res" where
  "ObjectPool_Clear pol s =
     rbind (free_nodes pol (op_brk s) (op_mFreeBlockNodeHeader s) (op_heap s)) (\<lambda>h.
       let (s', header, count) = AllocateFreeBlockNodes pol 1 (s\<lparr>op_heap := h\<rparr>)
       in Inr (s'\<lparr>op_mFreeBlockNodeHeader := header, op_mMaxCapacity := op_mMaxCapacity s' + int count,
                  op_mCachedSize := op_mCachedSize s' + int count, op_mUsedSize := 0\<rparr>))"

definition ObjectPool_Rent :: "eAllocationPolicy \<Rightarrow> ObjectPool \<Rightarrow> (ObjectPool \<times> nat) res" where
  "ObjectPool_Rent pol s0 =
     (let s = (if op_mFreeBlockNodeHeader s0 = None
               then let (s', header, count) = AllocateFreeBlockNodes pol 1 s0
                    in s'\<lparr>op_mFreeBlockNodeHeader := header,
                          op_mMaxCapacity := op_mMaxCapacity s' + int count\<rparr>
               else s0)
      in case op_mFreeBlockNodeHeader s of
           None \<Rightarrow> Inl NullDeref
         | Some a \<Rightarrow>
             (case op_heap s a of
                None \<Rightarrow> Inl DeadObject
              | Some b \<Rightarrow>
                  Inr (s\<lparr>op_heap := (op_heap s)(a \<mapsto> construct pol b),
                         op_mFreeBlockNodeHeader := bn_Next b,
                         op_mUsedSize := op_mUsedSize s + 1,
                         op_mCachedSize := op_mCachedSize s - 1\<rparr>, a)))"

definition ObjectPool_Return :: "eAllocationPolicy \<Rightarrow> ObjectPool \<Rightarrow> nat \<Rightarrow> (ObjectPool \<times> bool) res" where
  "ObjectPool_Return pol s a =
     (case op_heap s a of
        None \<Rightarrow> Inl DeadObject
      | Some b \<Rightarrow>
          rbind (destruct pol b) (\<lambda>b.
            Inr (s\<lparr>op_heap := (op_heap s)(a \<mapsto> b\<lparr>bn_Next := op_mFreeBlockNodeHeader s\<rparr>),
                   op_mFreeBlockNodeHeader := Some a,
                   op_mUsedSize := op_mUsedSize s - 1,
                   op_mCachedSize := op_mCachedSize s + 1\<rparr>, True)))"

subsection \<open>The contract of an object pool\<close>

text \<open>
  A client holds handles. It rents (getting a new handle) or returns the handle at a position
  of its list; returning nothing it does not hold. The laws say that renting always
  succeeds with a handle nobody holds.
\<close>

datatype pool_op = PRent | PReturn nat

fun pool_run :: "('s \<Rightarrow> ('s \<times> nat) res) \<Rightarrow> ('s \<Rightarrow> nat \<Rightarrow> ('s \<times> bool) res) \<Rightarrow>
    pool_op list \<Rightarrow> 's \<Rightarrow> nat list \<Rightarrow> ('s \<times> nat list) res" where
  "pool_run rent ret [] s hs = Inr (s, hs)"
| "pool_run rent ret (PRent # ops) s hs =
     rbind (rent s) (\<lambda>(s', a). pool_run rent ret ops s' (a # hs))"
| "pool_run rent ret (PReturn i # ops) s hs =
     (if i < length hs
      then rbind (ret s (hs ! i)) (\<lambda>(s', ok). pool_run rent ret ops s' (take i hs @ drop (Suc i) hs))
      else pool_run rent ret ops s hs)"

locale object_pool =
  fixes inv :: "'s \<Rightarrow> bool"
    and live :: "'s \<Rightarrow> nat set"
    and rent :: "'s \<Rightarrow> ('s \<times> nat) res"
    and ret :: "'s \<Rightarrow> nat \<Rightarrow> ('s \<times> bool) res"
  assumes rent_law: "inv s \<Longrightarrow> \<exists>s' a. rent s = Inr (s', a) \<and> inv s' \<and> a \<notin> live s \<and> live s' = insert a (live s)"
    and ret_law: "inv s \<Longrightarrow> a \<in> live s \<Longrightarrow> \<exists>s'. ret s a = Inr (s', True) \<and> inv s' \<and> live s' = live s - {a}"
begin

lemma rentE:
  assumes "inv s"
  obtains s' a where "rent s = Inr (s', a)" "inv s'" "a \<notin> live s" "live s' = insert a (live s)"
  using rent_law [OF assms] by blast

lemma retE:
  assumes "inv s" "a \<in> live s"
  obtains s' where "ret s a = Inr (s', True)" "inv s'" "live s' = live s - {a}"
  using ret_law [OF assms] by blast

text \<open>Every client program runs, and the handles it holds are distinct and exactly the live objects.\<close>

lemma run_ok:
  assumes "inv s" "distinct hs" "live s = set hs"
  shows "\<exists>s' hs'. pool_run rent ret ops s hs = Inr (s', hs') \<and> inv s' \<and> distinct hs' \<and> live s' = set hs'"
  using assms
proof (induction ops arbitrary: s hs)
  case Nil
  then show ?case by simp
next
  case (Cons opn ops)
  show ?case
  proof (cases opn)
    case PRent
    obtain s' a where r: "rent s = Inr (s', a)" "inv s'" "a \<notin> live s" "live s' = insert a (live s)"
      using rentE [OF Cons.prems(1)] .
    then show ?thesis using Cons.IH [of s' "a # hs"] Cons.prems PRent by simp
  next
    case (PReturn i)
    show ?thesis
    proof (cases "i < length hs")
      case True
      let ?hs = "take i hs @ drop (Suc i) hs"
      obtain s' where r: "ret s (hs ! i) = Inr (s', True)" "inv s'" "live s' = live s - {hs ! i}"
        using retE [OF Cons.prems(1)] True Cons.prems(3) by (metis nth_mem)
      have "distinct (take i hs @ hs ! i # drop (Suc i) hs)"
        using Cons.prems(2) True by (simp flip: id_take_nth_drop)
      moreover have "set hs = insert (hs ! i) (set ?hs)"
        using arg_cong [OF id_take_nth_drop [OF True], of set] by simp
      ultimately have "distinct ?hs" "live s' = set ?hs"
        using r(3) Cons.prems(3) by auto
      then show ?thesis using Cons.IH [OF r(2)] PReturn True r(1) by simp
    qed (use Cons PReturn in simp)
  qed
qed

end

subsection \<open>The free list\<close>

primrec chain :: "node_heap \<Rightarrow> nat option \<Rightarrow> nat list \<Rightarrow> bool" where
  "chain h p [] \<longleftrightarrow> p = None"
| "chain h p (x # xs) \<longleftrightarrow> p = Some x \<and> (case h x of None \<Rightarrow> False | Some b \<Rightarrow> chain h (bn_Next b) xs)"

lemma chain_dom: "chain h p xs \<Longrightarrow> set xs \<subseteq> dom h"
  by (induction xs arbitrary: p) (auto split: option.splits)

lemma chain_upd [simp]: "a \<notin> set xs \<Longrightarrow> chain (h(a := v)) p xs = chain h p xs"
  by (induction xs arbitrary: p) (auto split: option.splits)

lemma chain_None [simp]: "chain h None xs \<longleftrightarrow> xs = []"
  by (cases xs) auto

lemma chain_Some: "chain h (Some a) xs \<longleftrightarrow> (\<exists>b ys. xs = a # ys \<and> h a = Some b \<and> chain h (bn_Next b) ys)"
  by (cases xs) (auto split: option.splits)

lemma chain_unique: "chain h p xs \<Longrightarrow> chain h p ys \<Longrightarrow> xs = ys"
proof (induction xs arbitrary: p ys)
  case Nil
  then show ?case by simp
next
  case (Cons x xs)
  then show ?case by (cases ys) (auto split: option.splits)
qed

text \<open>
  Well-formed heap: addresses below the break, guards intact, and an object is constructed when the
  policy constructs at allocation or the node is not on the free list \<open>xs\<close>.
\<close>

definition heap_ok :: "eAllocationPolicy \<Rightarrow> node_heap \<Rightarrow> nat \<Rightarrow> nat list \<Rightarrow> bool" where
  "heap_ok pol h brk xs \<longleftrightarrow>
     distinct xs \<and> set xs \<subseteq> dom h \<and> dom h \<subseteq> {..<brk} \<and>
     (\<forall>a b. h a = Some b \<longrightarrow>
        bn_SafeUpper b = GUARD \<and> bn_SafeLower b = GUARD \<and> bn_t b = (pol = NonePolicy \<or> a \<notin> set xs))"

lemma heap_ok_finite: "heap_ok pol h brk xs \<Longrightarrow> finite (dom h)"
  by (auto simp: heap_ok_def intro: finite_subset)

lemma heap_ok_push:
  assumes "heap_ok pol h brk xs" "a \<in> dom h" "a \<notin> set xs" "h a = Some b" "destruct pol b = Inr b'"
  shows "heap_ok pol (h(a \<mapsto> b'\<lparr>bn_Next := p\<rparr>)) brk (a # xs)"
  using assms by (cases pol) (auto simp: heap_ok_def destruct_def split: if_splits)

lemma heap_ok_destruct:
  assumes "heap_ok pol h brk xs" "h a = Some b" "a \<notin> set xs"
  shows "\<exists>b'. destruct pol b = Inr b'"
proof -
  have "bn_t b" using assms by (simp add: heap_ok_def)
  then show ?thesis by (simp add: destruct_def)
qed

lemma heap_ok_pop:
  assumes "heap_ok pol h brk (a # xs)" "h a = Some b"
  shows "heap_ok pol (h(a \<mapsto> construct pol b)) brk xs"
  using assms by (cases pol) (auto simp: heap_ok_def construct_def)

lemma heap_ok_fresh:
  assumes "heap_ok pol h brk xs" "b = \<lparr>bn_Next = p, bn_SafeUpper = GUARD,
    bn_t = (pol = NonePolicy), bn_SafeLower = GUARD\<rparr>"
  shows "heap_ok pol (h(brk \<mapsto> b)) (Suc brk) (brk # xs)" "brk \<notin> dom h"
  using assms by (auto simp: heap_ok_def less_Suc_eq)

lemma free_nodes_ok:
  assumes "heap_ok pol h brk xs" "chain h p xs" "length xs \<le> fuel"
  shows "free_nodes pol fuel p h = Inr (h |` (- set xs))"
  using assms
proof (induction xs arbitrary: h p fuel)
  case Nil
  then show ?case by simp
next
  case (Cons x xs)
  obtain b where b: "p = Some x" "h x = Some b" "chain h (bn_Next b) xs"
    using Cons.prems(2) by (auto split: option.splits)
  obtain n where n: "fuel = Suc n" "length xs \<le> n" using Cons.prems(3) by (cases fuel) auto
  have x: "x \<notin> set xs" and t: "pol = NonePolicy \<Longrightarrow> bn_t b"
    using Cons.prems(1) b(2) by (auto simp: heap_ok_def)
  have "heap_ok pol (h(x := None)) brk xs"
    using Cons.prems(1) x by (auto simp: heap_ok_def)
  moreover have "chain (h(x := None)) (bn_Next b) xs" using b(3) x by simp
  ultimately have "free_nodes pol n (bn_Next b) (h(x := None)) = Inr ((h(x := None)) |` (- set xs))"
    using n(2) by (rule Cons.IH)
  moreover have "(h(x := None)) |` (- set xs) = h |` (- set (x # xs))"
    by (auto simp: restrict_map_def)
  ultimately show ?case using b n t by auto
qed

subsection \<open>ObjectPool keeps the contract\<close>

definition op_free :: "ObjectPool \<Rightarrow> nat list \<Rightarrow> bool" where
  "op_free s xs \<longleftrightarrow> chain (op_heap s) (op_mFreeBlockNodeHeader s) xs"

definition op_inv :: "eAllocationPolicy \<Rightarrow> ObjectPool \<Rightarrow> bool" where
  "op_inv pol s \<longleftrightarrow>
     (\<exists>xs. op_free s xs \<and> heap_ok pol (op_heap s) (op_brk s) xs \<and>
       op_mUsedSize s = int (card (dom (op_heap s) - set xs)) \<and>
       op_mMaxCapacity s = int (card (dom (op_heap s))))"

definition op_live :: "ObjectPool \<Rightarrow> nat set" where
  "op_live s = {a \<in> dom (op_heap s). \<forall>xs. op_free s xs \<longrightarrow> a \<notin> set xs}"

lemma op_live_eq: "op_free s xs \<Longrightarrow> op_live s = dom (op_heap s) - set xs"
  by (auto simp: op_live_def op_free_def dest: chain_unique)

lemma op_inv_used: "op_inv pol s \<Longrightarrow> op_mUsedSize s = int (card (op_live s))"
  by (auto simp: op_inv_def op_live_eq)

lemma alloc_nodes_ok:
  assumes "heap_ok pol h brk xs" "chain h p xs" "alloc_nodes pol n p h brk = (h', brk', p')"
  shows "\<exists>ys. chain h' p' (ys @ xs) \<and> heap_ok pol h' brk' (ys @ xs) \<and> length ys = n \<and>
    dom h' = set ys \<union> dom h \<and> set ys \<inter> dom h = {}"
  using assms
proof (induction n arbitrary: p h brk xs)
  case 0
  then show ?case by (intro exI [of _ "[]"]) auto
next
  case (Suc n)
  let ?b = "\<lparr>bn_Next = p, bn_SafeUpper = GUARD, bn_t = (pol = NonePolicy), bn_SafeLower = GUARD\<rparr>"
  let ?h = "h(brk \<mapsto> ?b)"
  have f: "heap_ok pol ?h (Suc brk) (brk # xs)" "brk \<notin> dom h"
    using heap_ok_fresh [OF Suc.prems(1)] by auto
  then have c: "chain ?h (Some brk) (brk # xs)"
    using Suc.prems(2) chain_dom [OF Suc.prems(2)] by (subst chain.simps, subst chain_upd) auto
  obtain ys where "chain h' p' (ys @ brk # xs)" "heap_ok pol h' brk' (ys @ brk # xs)" "length ys = n"
    "dom h' = set ys \<union> dom ?h" "set ys \<inter> dom ?h = {}"
    using Suc.IH [OF f(1) c Suc.prems(3) [unfolded alloc_nodes.simps]] by blast
  then show ?case using f(2) by (intro exI [of _ "ys @ [brk]"]) auto
qed

lemma op_inv_Create: "op_inv pol (ObjectPool_Create pol n) \<and> op_live (ObjectPool_Create pol n) = {}"
proof -
  obtain h brk p where a: "alloc_nodes pol n None Map.empty 0 = (h, brk, p)" by (metis prod_cases3)
  have "heap_ok pol Map.empty 0 []" by (simp add: heap_ok_def)
  from alloc_nodes_ok [OF this _ a] obtain ys where
    ys: "chain h p ys" "heap_ok pol h brk ys" "length ys = n" "dom h = set ys" by auto
  let ?s = "ObjectPool_Create pol n"
  have s: "op_free ?s ys" "op_heap ?s = h" "op_brk ?s = brk" "op_mUsedSize ?s = 0" "op_mMaxCapacity ?s = int n"
    using ys by (auto simp: ObjectPool_Create_def AllocateFreeBlockNodes_def a op_free_def)
  moreover have "card (set ys) = n" using ys by (auto simp: heap_ok_def distinct_card)
  ultimately show ?thesis
    using ys by (auto simp: op_inv_def op_live_eq [OF s(1)])
qed

lemma ObjectPool_Rent_law:
  assumes "op_inv pol s"
  shows "\<exists>s' a. ObjectPool_Rent pol s = Inr (s', a) \<and> op_inv pol s' \<and> a \<notin> op_live s \<and>
    op_live s' = insert a (op_live s)"
proof -
  obtain xs where xs: "op_free s xs" "heap_ok pol (op_heap s) (op_brk s) xs"
    "op_mUsedSize s = int (card (dom (op_heap s) - set xs))" "op_mMaxCapacity s = int (card (dom (op_heap s)))"
    using assms by (auto simp: op_inv_def)
  note fin = heap_ok_finite [OF xs(2)]
  show ?thesis
  proof (cases xs)
    case Nil
    let ?brk = "op_brk s"
    let ?b = "\<lparr>bn_Next = None, bn_SafeUpper = GUARD, bn_t = (pol = NonePolicy), bn_SafeLower = GUARD\<rparr>"
    let ?h = "(op_heap s)(?brk \<mapsto> construct pol ?b)"
    let ?s' = "s\<lparr>op_heap := ?h, op_brk := Suc ?brk, op_mFreeBlockNodeHeader := None,
      op_mMaxCapacity := op_mMaxCapacity s + 1, op_mUsedSize := op_mUsedSize s + 1,
      op_mCachedSize := op_mCachedSize s - 1\<rparr>"
    have hd: "op_mFreeBlockNodeHeader s = None" using xs(1) Nil by (simp add: op_free_def)
    have r: "ObjectPool_Rent pol s = Inr (?s', ?brk)"
      using hd by (simp add: ObjectPool_Rent_def AllocateFreeBlockNodes_def)
    have f: "heap_ok pol ((op_heap s)(?brk \<mapsto> ?b)) (Suc ?brk) [?brk]" "?brk \<notin> dom (op_heap s)"
      using heap_ok_fresh [OF xs(2)] Nil by auto
    have ok: "heap_ok pol ?h (Suc ?brk) []" using heap_ok_pop [OF f(1), of ?b] by simp
    have free: "op_free ?s' []" by (simp add: op_free_def)
    have "op_inv pol ?s'"
      using ok f(2) xs(3,4) fin Nil unfolding op_inv_def
      by (intro exI [of _ "[]"]) (simp add: op_free_def)
    then show ?thesis
      using r f(2) op_live_eq [OF free] op_live_eq [OF xs(1)] Nil by auto
  next
    case (Cons a ys)
    obtain b where b: "op_mFreeBlockNodeHeader s = Some a" "op_heap s a = Some b" "chain (op_heap s) (bn_Next b) ys"
      using xs(1) Cons by (auto simp: op_free_def split: option.splits)
    have a: "a \<notin> set ys" using xs(2) Cons by (simp add: heap_ok_def)
    let ?h = "(op_heap s)(a \<mapsto> construct pol b)"
    let ?s' = "s\<lparr>op_heap := ?h, op_mFreeBlockNodeHeader := bn_Next b,
      op_mUsedSize := op_mUsedSize s + 1, op_mCachedSize := op_mCachedSize s - 1\<rparr>"
    have r: "ObjectPool_Rent pol s = Inr (?s', a)" using b by (simp add: ObjectPool_Rent_def)
    have free: "op_free ?s' ys" using a b(3) by (simp add: op_free_def)
    have dom: "dom ?h = dom (op_heap s)" using b(2) by auto
    have l: "dom (op_heap s) - set ys = insert a (dom (op_heap s) - set xs)"
      using a b(2) Cons by auto
    have "card (dom (op_heap s) - set ys) = Suc (card (dom (op_heap s) - set xs))"
      unfolding l using fin Cons by (subst card_insert_disjoint) auto
    then have "op_inv pol ?s'"
      using heap_ok_pop [OF xs(2) [unfolded Cons] b(2)] free dom xs(3,4) unfolding op_inv_def
      by (intro exI [of _ ys]) (simp add: dom del: dom_fun_upd)
    then show ?thesis
      using r op_live_eq [OF free] op_live_eq [OF xs(1)] dom l Cons by auto
  qed
qed

lemma ObjectPool_Return_law:
  assumes inv: "op_inv pol s" and a: "a \<in> op_live s"
  shows "\<exists>s'. ObjectPool_Return pol s a = Inr (s', True) \<and> op_inv pol s' \<and> op_live s' = op_live s - {a}"
proof -
  obtain xs where xs: "op_free s xs" "heap_ok pol (op_heap s) (op_brk s) xs"
    "op_mUsedSize s = int (card (dom (op_heap s) - set xs))" "op_mMaxCapacity s = int (card (dom (op_heap s)))"
    using inv by (auto simp: op_inv_def)
  note fin = heap_ok_finite [OF xs(2)]
  obtain b where b: "op_heap s a = Some b" and na: "a \<notin> set xs"
    using a op_live_eq [OF xs(1)] by auto
  obtain b' where d: "destruct pol b = Inr b'"
    using heap_ok_destruct [OF xs(2) b na] by blast
  let ?h = "(op_heap s)(a \<mapsto> b'\<lparr>bn_Next := op_mFreeBlockNodeHeader s\<rparr>)"
  let ?s' = "s\<lparr>op_heap := ?h, op_mFreeBlockNodeHeader := Some a, op_mUsedSize := op_mUsedSize s - 1,
    op_mCachedSize := op_mCachedSize s + 1\<rparr>"
  have r: "ObjectPool_Return pol s a = Inr (?s', True)" using b d by (simp add: ObjectPool_Return_def)
  have free: "op_free ?s' (a # xs)" using na xs(1) by (simp add: op_free_def)
  have dom: "dom ?h = dom (op_heap s)" using b by auto
  have "dom (op_heap s) - set xs = insert a (dom (op_heap s) - set (a # xs))"
    using na b by auto
  then have "card (dom (op_heap s) - set xs) = Suc (card (dom (op_heap s) - set (a # xs)))"
    using fin by (metis DiffD2 card_insert_disjoint finite_Diff list.set_intros(1))
  then have "op_inv pol ?s'"
    using heap_ok_push [OF xs(2) _ na b d] b free dom xs(3,4) unfolding op_inv_def
    by (intro exI [of _ "a # xs"]) (simp add: dom domI del: dom_fun_upd)
  then show ?thesis
    using r op_live_eq [OF free] op_live_eq [OF xs(1)] dom by auto
qed

interpretation op: object_pool "op_inv pol" op_live "ObjectPool_Rent pol" "ObjectPool_Return pol"
  by unfold_locales (rule ObjectPool_Rent_law ObjectPool_Return_law; assumption)+

subsection \<open>Properties\<close>

text \<open>
  A client of \<^verbatim>\<open>ObjectPool\<close>, with either allocation policy, that rents and returns in any order never gets an object
  it already holds, no access goes wrong, and the pool counts exactly the objects the client holds.
\<close>

lemma object_pool_run:
  "\<exists>s hs. pool_run (ObjectPool_Rent pol) (ObjectPool_Return pol) ops (ObjectPool_Create pol n) [] = Inr (s, hs) \<and>
     distinct hs \<and> op_live s = set hs \<and> op_mUsedSize s = int (length hs)"
proof -
  obtain s hs where "pool_run (ObjectPool_Rent pol) (ObjectPool_Return pol) ops (ObjectPool_Create pol n) [] = Inr (s, hs)"
    "op_inv pol s" "distinct hs" "op_live s = set hs"
    using op.run_ok [of pol "ObjectPool_Create pol n" "[]" ops] op_inv_Create [of pol n] by auto
  then show ?thesis using op_inv_used [of pol s] by (auto simp: distinct_card)
qed

end
