(* ===== verification/Pool_LockFree.thy ===== *)
theory Pool_LockFree
  imports Object_Pool
begin

text \<open>
  \<^verbatim>\<open>nf::objectpool::ObjectPoolLockFree\<close> (\<^verbatim>\<open>ObjectPoolLockFree.hpp\<close>) run by one thread: every operation
  of the class on the heap of block nodes, with the double-width compare-and-swap on
  \<^verbatim>\<open>mHead\<close> and its retry loop written out. With no other thread the first attempt of the loop
  succeeds, so one unit of fuel is given to it; running out of it is the fault \<open>Spin\<close>. The
  interleaved executions of several threads are the theory \<^verbatim>\<open>Pool_Concurrent\<close>.
\<close>

record Indexer =
  ix_UID :: u64
  ix_Node :: "nat option"

record ObjectPoolLockFree =
  lf_heap :: node_heap
  lf_brk :: nat
  lf_mHead :: Indexer
  lf_mMaxCapacity :: nat
  lf_mCachedSize :: int
  lf_mUsedSize :: int

text \<open>
  \<^verbatim>\<open>InterlockedCompareExchange128(dest, node, uid, &comparand)\<close>: whether it exchanged, the new value
  of the destination, and the comparand, which receives the value found.
\<close>

definition CompareExchange128 :: "Indexer \<Rightarrow> nat option \<Rightarrow> u64 \<Rightarrow> Indexer \<Rightarrow> bool \<times> Indexer \<times> Indexer" where
  "CompareExchange128 dest node uid comparand =
     (if dest = comparand then (True, \<lparr>ix_UID = uid, ix_Node = node\<rparr>, comparand)
      else (False, dest, dest))"

text \<open>The destructor is \<open>LockFree_Clear\<close> with \<^verbatim>\<open>isForce\<close>; the constructor leaves \<^verbatim>\<open>mHead.UID\<close> unset.\<close>

definition LockFree_Create :: "u64 \<Rightarrow> ObjectPoolLockFree" where
  "LockFree_Create garbage =
     \<lparr>lf_heap = Map.empty, lf_brk = 0, lf_mHead = \<lparr>ix_UID = garbage, ix_Node = None\<rparr>,
      lf_mMaxCapacity = 0, lf_mCachedSize = 0, lf_mUsedSize = 0\<rparr>"

definition LockFree_Clear :: "eAllocationPolicy \<Rightarrow> bool \<Rightarrow> ObjectPoolLockFree \<Rightarrow> ObjectPoolLockFree res" where
  "LockFree_Clear pol isForce s =
     (if \<not> isForce \<and> lf_mUsedSize s \<noteq> 0 then Inl LogicError
      else rbind (free_nodes pol (lf_brk s) (ix_Node (lf_mHead s)) (lf_heap s)) (\<lambda>h.
        Inr (s\<lparr>lf_heap := h, lf_mHead := (lf_mHead s)\<lparr>ix_Node := None\<rparr>,
               lf_mMaxCapacity := 0, lf_mUsedSize := 0\<rparr>)))"

definition LockFree_Init :: "eAllocationPolicy \<Rightarrow> nat \<Rightarrow> ObjectPoolLockFree \<Rightarrow> ObjectPoolLockFree res" where
  "LockFree_Init pol initialCapacity s =
     rbind (LockFree_Clear pol False s) (\<lambda>s.
       if initialCapacity = 0 then Inr s
       else Inr (s\<lparr>lf_mHead := (lf_mHead s)\<lparr>ix_Node := None\<rparr>, lf_mMaxCapacity := 0, lf_mUsedSize := 0\<rparr>))"

definition LockFree_AllocateFreeBlockNodes ::
    "eAllocationPolicy \<Rightarrow> ObjectPoolLockFree \<Rightarrow> ObjectPoolLockFree \<times> nat" where
  "LockFree_AllocateFreeBlockNodes pol s =
     (s\<lparr>lf_heap := (lf_heap s)(lf_brk s \<mapsto>
          \<lparr>bn_Next = None, bn_SafeUpper = GUARD, bn_t = (pol = NonePolicy), bn_SafeLower = GUARD\<rparr>),
        lf_brk := Suc (lf_brk s)\<rparr>, lf_brk s)"

fun rent_loop :: "nat \<Rightarrow> node_heap \<Rightarrow> Indexer \<Rightarrow> Indexer \<Rightarrow> (Indexer \<times> nat) res" where
  "rent_loop 0 h mHead headSnapshot = Inl Spin"
| "rent_loop (Suc fuel) h mHead headSnapshot =
     (case ix_Node headSnapshot of
        None \<Rightarrow> Inl NullDeref
      | Some a \<Rightarrow>
          (case h a of
             None \<Rightarrow> Inl DeadObject
           | Some b \<Rightarrow>
               (case CompareExchange128 mHead (bn_Next b) (ix_UID headSnapshot + 1) headSnapshot of
                  (ok, mHead', headSnapshot') \<Rightarrow>
                    if \<not> ok then rent_loop fuel h mHead' headSnapshot' else Inr (mHead', a))))"

definition LockFree_Rent :: "eAllocationPolicy \<Rightarrow> ObjectPoolLockFree \<Rightarrow> (ObjectPoolLockFree \<times> nat) res" where
  "LockFree_Rent pol s =
     rbind
       (if lf_mCachedSize s - 1 < 0
        then let (s', a) = LockFree_AllocateFreeBlockNodes pol s
             in Inr (s'\<lparr>lf_mMaxCapacity := lf_mMaxCapacity s' + 1\<rparr>, a)
        else rbind (rent_loop 1 (lf_heap s) (lf_mHead s) (lf_mHead s)) (\<lambda>(mHead, a).
               Inr (s\<lparr>lf_mCachedSize := lf_mCachedSize s - 1, lf_mHead := mHead\<rparr>, a)))
       (\<lambda>(s', a).
          case lf_heap s' a of
            None \<Rightarrow> Inl DeadObject
          | Some b \<Rightarrow>
              Inr (s'\<lparr>lf_heap := (lf_heap s')(a \<mapsto> construct pol b),
                      lf_mUsedSize := lf_mUsedSize s' + 1\<rparr>, a))"

fun return_loop :: "nat \<Rightarrow> nat \<Rightarrow> BlockNode \<Rightarrow> node_heap \<Rightarrow> Indexer \<Rightarrow> Indexer \<Rightarrow> (node_heap \<times> Indexer) res" where
  "return_loop 0 a b h mHead headSnapshot = Inl Spin"
| "return_loop (Suc fuel) a b h mHead headSnapshot =
     (let h' = h(a \<mapsto> b\<lparr>bn_Next := ix_Node headSnapshot\<rparr>) in
      case CompareExchange128 mHead (Some a) (ix_UID headSnapshot + 1) headSnapshot of
        (ok, mHead', headSnapshot') \<Rightarrow>
          if \<not> ok then return_loop fuel a b h' mHead' headSnapshot' else Inr (h', mHead'))"

text \<open>\<^verbatim>\<open>Return(nullptr)\<close> is the argument \<open>None\<close>.\<close>

definition LockFree_Return ::
    "eAllocationPolicy \<Rightarrow> ObjectPoolLockFree \<Rightarrow> nat option \<Rightarrow> (ObjectPoolLockFree \<times> bool) res" where
  "LockFree_Return pol s ptrT =
     (case ptrT of
        None \<Rightarrow> Inr (s, False)
      | Some a \<Rightarrow>
          (case lf_heap s a of
             None \<Rightarrow> Inl DeadObject
           | Some b \<Rightarrow>
               rbind (destruct pol b) (\<lambda>b.
               rbind (return_loop 1 a b (lf_heap s) (lf_mHead s) (lf_mHead s)) (\<lambda>(h, mHead).
                 Inr (s\<lparr>lf_heap := h, lf_mHead := mHead, lf_mCachedSize := lf_mCachedSize s + 1,
                        lf_mUsedSize := lf_mUsedSize s - 1\<rparr>, True)))))"

text \<open>\<^verbatim>\<open>Count()\<close> walks the free list; the walk is bounded as in \<open>free_nodes\<close>.\<close>

fun count_nodes :: "nat \<Rightarrow> node_heap \<Rightarrow> nat option \<Rightarrow> nat \<Rightarrow> nat res" where
  "count_nodes fuel h None acc = Inr acc"
| "count_nodes 0 h (Some a) acc = Inl Spin"
| "count_nodes (Suc fuel) h (Some a) acc =
     (case h a of None \<Rightarrow> Inl DeadObject | Some b \<Rightarrow> count_nodes fuel h (bn_Next b) (Suc acc))"

definition LockFree_Count :: "ObjectPoolLockFree \<Rightarrow> nat res" where
  "LockFree_Count s = count_nodes (lf_brk s) (lf_heap s) (ix_Node (lf_mHead s)) 0"

subsection \<open>Invariant\<close>

definition lf_free :: "ObjectPoolLockFree \<Rightarrow> nat list \<Rightarrow> bool" where
  "lf_free s xs \<longleftrightarrow> chain (lf_heap s) (ix_Node (lf_mHead s)) xs"

text \<open>The counters: \<^verbatim>\<open>mCachedSize\<close> is the length of the free list, \<^verbatim>\<open>mUsedSize\<close> the number of rented objects.\<close>

definition lf_inv :: "eAllocationPolicy \<Rightarrow> ObjectPoolLockFree \<Rightarrow> bool" where
  "lf_inv pol s \<longleftrightarrow>
     (\<exists>xs. lf_free s xs \<and> heap_ok pol (lf_heap s) (lf_brk s) xs \<and> lf_mCachedSize s = int (length xs) \<and>
       lf_mUsedSize s = int (card (dom (lf_heap s) - set xs)) \<and>
       lf_mMaxCapacity s = card (dom (lf_heap s)))"

definition lf_live :: "ObjectPoolLockFree \<Rightarrow> nat set" where
  "lf_live s = {a \<in> dom (lf_heap s). \<forall>xs. lf_free s xs \<longrightarrow> a \<notin> set xs}"

lemma lf_live_eq: "lf_free s xs \<Longrightarrow> lf_live s = dom (lf_heap s) - set xs"
  by (auto simp: lf_live_def lf_free_def dest: chain_unique)

lemma lf_inv_Create: "lf_inv pol (LockFree_Create g) \<and> lf_live (LockFree_Create g) = {}"
  by (auto simp: lf_inv_def lf_live_def LockFree_Create_def lf_free_def heap_ok_def)

lemma lf_inv_live_finite: "lf_inv pol s \<Longrightarrow> finite (lf_live s)"
  unfolding lf_inv_def lf_live_def by (auto dest: heap_ok_finite)

lemma lf_inv_used: "lf_inv pol s \<Longrightarrow> lf_mUsedSize s = int (card (lf_live s))"
  by (auto simp: lf_inv_def lf_live_eq)

lemma lf_inv_capacity:
  assumes "lf_inv pol s"
  shows "int (lf_mMaxCapacity s) = lf_mUsedSize s + lf_mCachedSize s"
proof -
  obtain xs where xs: "heap_ok pol (lf_heap s) (lf_brk s) xs" "lf_mCachedSize s = int (length xs)"
    "lf_mUsedSize s = int (card (dom (lf_heap s) - set xs))" "lf_mMaxCapacity s = card (dom (lf_heap s))"
    using assms by (auto simp: lf_inv_def)
  have "card (set xs) = length xs" "set xs \<subseteq> dom (lf_heap s)" "finite (dom (lf_heap s))"
    using xs(1) heap_ok_finite [OF xs(1)] by (auto simp: heap_ok_def distinct_card)
  then have "card (dom (lf_heap s) - set xs) + length xs = card (dom (lf_heap s))"
    by (metis card_Diff_subset card_mono finite_set le_add_diff_inverse2)
  then show ?thesis using xs by simp
qed

lemma LockFree_Rent_alloc:
  assumes inv: "lf_inv pol s" and c: "lf_mCachedSize s \<le> 0"
  shows "\<exists>s'. LockFree_Rent pol s = Inr (s', lf_brk s) \<and> lf_inv pol s' \<and> lf_brk s \<notin> lf_live s \<and>
    lf_live s' = insert (lf_brk s) (lf_live s)"
proof -
  obtain xs where xs: "lf_free s xs" "heap_ok pol (lf_heap s) (lf_brk s) xs" "lf_mCachedSize s = int (length xs)"
    "lf_mUsedSize s = int (card (dom (lf_heap s) - set xs))" "lf_mMaxCapacity s = card (dom (lf_heap s))"
    using inv by (auto simp: lf_inv_def)
  let ?brk = "lf_brk s"
  let ?b = "\<lparr>bn_Next = None, bn_SafeUpper = GUARD, bn_t = (pol = NonePolicy), bn_SafeLower = GUARD\<rparr>"
  let ?h = "(lf_heap s)(?brk \<mapsto> construct pol ?b)"
  let ?s' = "s\<lparr>lf_heap := ?h, lf_brk := Suc ?brk, lf_mMaxCapacity := lf_mMaxCapacity s + 1,
    lf_mUsedSize := lf_mUsedSize s + 1\<rparr>"
  have nil: "xs = []" using xs(3) c by simp
  have r: "LockFree_Rent pol s = Inr (?s', ?brk)"
    using c by (simp add: LockFree_Rent_def LockFree_AllocateFreeBlockNodes_def)
  have f: "heap_ok pol ((lf_heap s)(?brk \<mapsto> ?b)) (Suc ?brk) [?brk]" "?brk \<notin> dom (lf_heap s)"
    using heap_ok_fresh [OF xs(2)] nil by auto
  have ok: "heap_ok pol ?h (Suc ?brk) []" using heap_ok_pop [OF f(1), of ?b] by simp
  have free: "lf_free ?s' []" using xs(1) nil by (simp add: lf_free_def)
  have "lf_inv pol ?s'"
    using ok free f(2) xs(3-5) nil heap_ok_finite [OF xs(2)] unfolding lf_inv_def
    by (intro exI [of _ "[]"]) simp
  then show ?thesis
    using r f(2) lf_live_eq [OF free] lf_live_eq [OF xs(1)] nil by auto
qed

lemma LockFree_Rent_pop:
  assumes inv: "lf_inv pol s" and c: "0 < lf_mCachedSize s"
  shows "\<exists>s' a. LockFree_Rent pol s = Inr (s', a) \<and> lf_inv pol s' \<and> a \<notin> lf_live s \<and>
    lf_live s' = insert a (lf_live s)"
proof -
  obtain xs where xs: "lf_free s xs" "heap_ok pol (lf_heap s) (lf_brk s) xs" "lf_mCachedSize s = int (length xs)"
    "lf_mUsedSize s = int (card (dom (lf_heap s) - set xs))" "lf_mMaxCapacity s = card (dom (lf_heap s))"
    using inv by (auto simp: lf_inv_def)
  obtain a ys where Cons: "xs = a # ys" using xs(3) c by (cases xs) auto
  obtain b where b: "ix_Node (lf_mHead s) = Some a" "lf_heap s a = Some b" "chain (lf_heap s) (bn_Next b) ys"
    using xs(1) Cons by (auto simp: lf_free_def split: option.splits)
  have a: "a \<notin> set ys" using xs(2) Cons by (simp add: heap_ok_def)
  let ?h = "(lf_heap s)(a \<mapsto> construct pol b)"
  let ?s' = "s\<lparr>lf_heap := ?h, lf_mHead := \<lparr>ix_UID = ix_UID (lf_mHead s) + 1, ix_Node = bn_Next b\<rparr>,
    lf_mCachedSize := lf_mCachedSize s - 1, lf_mUsedSize := lf_mUsedSize s + 1\<rparr>"
  have r: "LockFree_Rent pol s = Inr (?s', a)"
    using b c by (simp add: LockFree_Rent_def CompareExchange128_def)
  have free: "lf_free ?s' ys" using a b(3) by (simp add: lf_free_def)
  have dom: "dom ?h = dom (lf_heap s)" using b(2) by auto
  have l: "dom (lf_heap s) - set ys = insert a (dom (lf_heap s) - set xs)"
    using a b(2) Cons by auto
  have "card (dom (lf_heap s) - set ys) = Suc (card (dom (lf_heap s) - set xs))"
    unfolding l using heap_ok_finite [OF xs(2)] Cons by (subst card_insert_disjoint) auto
  then have "lf_inv pol ?s'"
    using heap_ok_pop [OF xs(2) [unfolded Cons] b(2)] free dom xs(3-5) Cons unfolding lf_inv_def
    by (intro exI [of _ ys]) (simp add: dom del: dom_fun_upd)
  then show ?thesis
    using r lf_live_eq [OF free] lf_live_eq [OF xs(1)] dom l Cons by auto
qed

lemma LockFree_Rent_law:
  "lf_inv pol s \<Longrightarrow> \<exists>s' a. LockFree_Rent pol s = Inr (s', a) \<and> lf_inv pol s' \<and> a \<notin> lf_live s \<and>
    lf_live s' = insert a (lf_live s)"
  using LockFree_Rent_alloc [of pol s] LockFree_Rent_pop [of pol s] by (cases "0 < lf_mCachedSize s") auto

lemma LockFree_Return_law:
  assumes inv: "lf_inv pol s" and a: "a \<in> lf_live s"
  shows "\<exists>s'. LockFree_Return pol s (Some a) = Inr (s', True) \<and> lf_inv pol s' \<and> lf_live s' = lf_live s - {a}"
proof -
  obtain xs where xs: "lf_free s xs" "heap_ok pol (lf_heap s) (lf_brk s) xs" "lf_mCachedSize s = int (length xs)"
    "lf_mUsedSize s = int (card (dom (lf_heap s) - set xs))" "lf_mMaxCapacity s = card (dom (lf_heap s))"
    using inv by (auto simp: lf_inv_def)
  obtain b where b: "lf_heap s a = Some b" and na: "a \<notin> set xs"
    using a lf_live_eq [OF xs(1)] by auto
  obtain b' where d: "destruct pol b = Inr b'"
    using heap_ok_destruct [OF xs(2) b na] by blast
  let ?h = "(lf_heap s)(a \<mapsto> b'\<lparr>bn_Next := ix_Node (lf_mHead s)\<rparr>)"
  let ?s' = "s\<lparr>lf_heap := ?h, lf_mHead := \<lparr>ix_UID = ix_UID (lf_mHead s) + 1, ix_Node = Some a\<rparr>,
    lf_mCachedSize := lf_mCachedSize s + 1, lf_mUsedSize := lf_mUsedSize s - 1\<rparr>"
  have r: "LockFree_Return pol s (Some a) = Inr (?s', True)"
    using b d by (simp add: LockFree_Return_def CompareExchange128_def)
  have free: "lf_free ?s' (a # xs)" using na xs(1) by (simp add: lf_free_def)
  have dom: "dom ?h = dom (lf_heap s)" using b by auto
  have "dom (lf_heap s) - set xs = insert a (dom (lf_heap s) - set (a # xs))"
    using na b by auto
  then have "card (dom (lf_heap s) - set xs) = Suc (card (dom (lf_heap s) - set (a # xs)))"
    using heap_ok_finite [OF xs(2)]
    by (metis DiffD2 card_insert_disjoint finite_Diff list.set_intros(1))
  then have "lf_inv pol ?s'"
    using heap_ok_push [OF xs(2) _ na b d] b free dom xs(3-5) unfolding lf_inv_def
    by (intro exI [of _ "a # xs"]) (simp add: dom domI del: dom_fun_upd)
  then show ?thesis
    using r lf_live_eq [OF free] lf_live_eq [OF xs(1)] dom by auto
qed

interpretation lf: object_pool "lf_inv pol" lf_live "LockFree_Rent pol" "\<lambda>s a. LockFree_Return pol s (Some a)"
  by unfold_locales (rule LockFree_Rent_law LockFree_Return_law; assumption)+

lemma count_nodes_ok:
  "chain h p xs \<Longrightarrow> length xs \<le> fuel \<Longrightarrow> count_nodes fuel h p acc = Inr (acc + length xs)"
proof (induction xs arbitrary: p fuel acc)
  case (Cons x xs)
  then show ?case by (cases fuel) (auto split: option.splits)
qed simp

lemma heap_ok_length: "heap_ok pol h brk xs \<Longrightarrow> length xs \<le> brk"
proof -
  assume ok: "heap_ok pol h brk xs"
  then have "card (set xs) \<le> card {..<brk}" by (intro card_mono) (auto simp: heap_ok_def)
  then show "length xs \<le> brk" using ok by (simp add: heap_ok_def distinct_card)
qed

lemma LockFree_Count_eq:
  assumes "lf_inv pol s"
  shows "LockFree_Count s = Inr (nat (lf_mCachedSize s))"
proof -
  obtain xs where "lf_free s xs" "heap_ok pol (lf_heap s) (lf_brk s) xs" "lf_mCachedSize s = int (length xs)"
    using assms by (auto simp: lf_inv_def)
  then show ?thesis by (simp add: LockFree_Count_def count_nodes_ok heap_ok_length lf_free_def)
qed

text \<open>\<^verbatim>\<open>Clear\<close> releases exactly the free nodes, refuses while objects are rented, and keeps \<^verbatim>\<open>mCachedSize\<close>.\<close>

lemma LockFree_Clear_ok:
  assumes inv: "lf_inv pol s" and f: "isForce \<or> lf_live s = {}"
  shows "LockFree_Clear pol isForce s =
    Inr (s\<lparr>lf_heap := lf_heap s |` lf_live s, lf_mHead := (lf_mHead s)\<lparr>ix_Node := None\<rparr>,
           lf_mMaxCapacity := 0, lf_mUsedSize := 0\<rparr>)"
proof -
  obtain xs where xs: "lf_free s xs" "heap_ok pol (lf_heap s) (lf_brk s) xs"
    using inv by (auto simp: lf_inv_def)
  have "lf_heap s |` (- set xs) = lf_heap s |` lf_live s"
    using lf_live_eq [OF xs(1)] by (auto simp: restrict_map_def domIff)
  moreover have "isForce \<or> lf_mUsedSize s = 0"
    using f lf_inv_used [OF inv] by auto
  ultimately show ?thesis
    using free_nodes_ok [OF xs(2) _ heap_ok_length [OF xs(2)], of "ix_Node (lf_mHead s)"] xs(1)
    by (auto simp: LockFree_Clear_def lf_free_def)
qed

lemma LockFree_Clear_busy:
  assumes "lf_inv pol s" "lf_live s \<noteq> {}"
  shows "LockFree_Clear pol False s = Inl LogicError"
  using assms lf_inv_used [OF assms(1)] lf_inv_live_finite [OF assms(1)]
  by (simp add: LockFree_Clear_def)

text \<open>
  Because \<^verbatim>\<open>Clear\<close> does not reset \<^verbatim>\<open>mCachedSize\<close>, a pool that had free nodes dereferences a null head
  at the next \<^verbatim>\<open>Rent\<close>.
\<close>

lemma LockFree_Rent_after_Clear:
  assumes "lf_inv pol s" "lf_live s = {}" "0 < lf_mCachedSize s" "LockFree_Clear pol False s = Inr s'"
  shows "LockFree_Rent pol s' = Inl NullDeref"
  using assms LockFree_Clear_ok [OF assms(1), of False] by (auto simp: LockFree_Rent_def)

subsection \<open>Properties\<close>

text \<open>
  A client of \<^verbatim>\<open>ObjectPoolLockFree\<close> that runs alone never gets an object it already holds, and the counters are exact
  after every sequence of calls: objects in use, objects cached, and their sum the capacity.
\<close>

theorem lock_free_pool_run:
  "\<exists>s hs. pool_run (LockFree_Rent pol) (\<lambda>s a. LockFree_Return pol s (Some a)) ops (LockFree_Create g) [] = Inr (s, hs) \<and>
     distinct hs \<and> lf_live s = set hs \<and> lf_mUsedSize s = int (length hs) \<and>
     int (lf_mMaxCapacity s) = lf_mUsedSize s + lf_mCachedSize s \<and> LockFree_Count s = Inr (nat (lf_mCachedSize s))"
proof -
  obtain s hs where s: "pool_run (LockFree_Rent pol) (\<lambda>s a. LockFree_Return pol s (Some a)) ops (LockFree_Create g) [] = Inr (s, hs)"
    "lf_inv pol s" "distinct hs" "lf_live s = set hs"
    using lf.run_ok [of pol "LockFree_Create g" "[]" ops] lf_inv_Create [of pol g] by auto
  then show ?thesis
    using lf_inv_used [OF s(2)] lf_inv_capacity [OF s(2)] LockFree_Count_eq [OF s(2)] by (auto simp: distinct_card)
qed

text \<open>
  \<^verbatim>\<open>Clear\<close> refuses while objects are rented, and otherwise frees every node; but it does not reset \<^verbatim>\<open>mCachedSize\<close>,
  so that a pool which had free nodes dereferences a null head at the next \<^verbatim>\<open>Rent\<close>.
\<close>

lemma lock_free_rent_after_clear:
  assumes "lf_inv pol s"
  shows "if lf_live s \<noteq> {} then LockFree_Clear pol False s = Inl LogicError
    else \<exists>s'. LockFree_Clear pol False s = Inr s' \<and> lf_heap s' = Map.empty \<and>
      (0 < lf_mCachedSize s \<longrightarrow> LockFree_Rent pol s' = Inl NullDeref)"
  using LockFree_Clear_ok [OF assms, of False] LockFree_Clear_busy [OF assms] LockFree_Rent_after_Clear [OF assms]
  by auto

lemma lock_free_rent_after_clear_example:
  "\<exists>s1 s2 s'. LockFree_Rent NonePolicy (LockFree_Create 0) = Inr (s1, 0) \<and> LockFree_Return NonePolicy s1 (Some 0) = Inr (s2, True) \<and>
     LockFree_Clear NonePolicy False s2 = Inr s' \<and> LockFree_Rent NonePolicy s' = Inl NullDeref"
proof -
  let ?c = "LockFree_Create 0"
  have c: "lf_inv NonePolicy ?c" "lf_live ?c = {}" "lf_mCachedSize ?c = 0" "lf_brk ?c = 0" "lf_mMaxCapacity ?c = 0"
    using lf_inv_Create [of NonePolicy 0] by (simp_all add: LockFree_Create_def)
  obtain s1 where s1: "LockFree_Rent NonePolicy ?c = Inr (s1, 0)" "lf_inv NonePolicy s1" "lf_live s1 = {0}"
    using LockFree_Rent_alloc [OF c(1)] c(2-4) by auto
  obtain s2 where s2: "LockFree_Return NonePolicy s1 (Some 0) = Inr (s2, True)" "lf_inv NonePolicy s2" "lf_live s2 = {}"
    using LockFree_Return_law [OF s1(2), of 0] s1(3) by auto
  have "lf_mCachedSize s2 = lf_mCachedSize s1 + 1" "0 \<le> lf_mCachedSize s1"
    using s2(1) s1(2) by (auto simp: LockFree_Return_def lf_inv_def rbind_eq_Inr split: option.splits)
  then show ?thesis using lock_free_rent_after_clear [OF s2(2)] s1(1) s2(1,3) by auto
qed

end
