(* ===== verification/Pool_TLS.thy ===== *)
theory Pool_TLS
  imports Pool_LockFree
begin

text \<open>
  \<^verbatim>\<open>nf::objectpool::ObjectPoolTLS\<close> (\<^verbatim>\<open>ObjectPoolTLS.hpp\<close>): chunks of 100 objects rented from an
  \<^verbatim>\<open>ObjectPoolLockFree\<close>; each thread hands out objects of its own chunk, any thread returns
  them. Threads interleave between operations: \<open>tp_tls\<close> is the thread-local slot of every
  thread. The pointer to slot \<open>i\<close> of the chunk at address \<open>c\<close> is the number \<open>100 * c + i\<close>, so
  \<^verbatim>\<open>OriginChunk\<close> is a division.
\<close>

definition MAX_BLOCK_BUFFER_SIZE :: nat where
  "MAX_BLOCK_BUFFER_SIZE = 100"

record ObjectPoolTLSChunk =
  ck_BufferAllocIndex :: int
  ck_AvailableFreeCount :: int

definition Chunk_Create :: ObjectPoolTLSChunk where
  "Chunk_Create = \<lparr>ck_BufferAllocIndex = int MAX_BLOCK_BUFFER_SIZE,
     ck_AvailableFreeCount = int MAX_BLOCK_BUFFER_SIZE\<rparr>"

record ObjectPoolTLS =
  tp_mChunkPool :: ObjectPoolLockFree
  tp_chunks :: "nat \<rightharpoonup> ObjectPoolTLSChunk"
  tp_tls :: "nat \<Rightarrow> nat option"
  tp_mTLSAllocatedSize :: int

definition TLS_Create :: "u64 \<Rightarrow> ObjectPoolTLS" where
  "TLS_Create garbage = \<lparr>tp_mChunkPool = LockFree_Create garbage, tp_chunks = Map.empty,
     tp_tls = (\<lambda>_. None), tp_mTLSAllocatedSize = 0\<rparr>"

text \<open>\<^verbatim>\<open>mChunkPool.Rent()\<close> followed by \<^verbatim>\<open>TlsSetValue\<close>.\<close>

definition rent_chunk :: "nat \<Rightarrow> ObjectPoolTLS \<Rightarrow> (ObjectPoolTLS \<times> nat) res" where
  "rent_chunk t s =
     rbind (LockFree_Rent CallConstructorDestructor (tp_mChunkPool s)) (\<lambda>(pool, c).
       Inr (s\<lparr>tp_mChunkPool := pool, tp_chunks := (tp_chunks s)(c \<mapsto> Chunk_Create),
              tp_tls := (tp_tls s)(t := Some c)\<rparr>, c))"

definition TLS_Rent :: "nat \<Rightarrow> ObjectPoolTLS \<Rightarrow> (ObjectPoolTLS \<times> nat) res" where
  "TLS_Rent t s =
     rbind (case tp_tls s t of Some c \<Rightarrow> Inr (s, c) | None \<Rightarrow> rent_chunk t s) (\<lambda>(s, c).
       case tp_chunks s c of
         None \<Rightarrow> Inl DeadObject
       | Some ck \<Rightarrow>
           (let index = ck_BufferAllocIndex ck - 1;
                s = s\<lparr>tp_chunks := (tp_chunks s)(c \<mapsto> ck\<lparr>ck_BufferAllocIndex := index\<rparr>)\<rparr>
            in rbind (if index = 0 then rbind (rent_chunk t s) (\<lambda>(s, _). Inr s) else Inr s) (\<lambda>s.
                 if 0 \<le> index \<and> index < int MAX_BLOCK_BUFFER_SIZE
                 then Inr (s\<lparr>tp_mTLSAllocatedSize := tp_mTLSAllocatedSize s + 1\<rparr>,
                           MAX_BLOCK_BUFFER_SIZE * c + nat index)
                 else Inl MemFault)))"

definition TLS_Return :: "ObjectPoolTLS \<Rightarrow> nat \<Rightarrow> (ObjectPoolTLS \<times> bool) res" where
  "TLS_Return s ptrT =
     (let c = ptrT div MAX_BLOCK_BUFFER_SIZE in
      case tp_chunks s c of
        None \<Rightarrow> Inl DeadObject
      | Some ck \<Rightarrow>
          (let freeCount = ck_AvailableFreeCount ck - 1;
               s = s\<lparr>tp_chunks := (tp_chunks s)(c \<mapsto> ck\<lparr>ck_AvailableFreeCount := freeCount\<rparr>)\<rparr>
           in rbind (if freeCount = 0
                     then rbind (LockFree_Return CallConstructorDestructor (tp_mChunkPool s) (Some c)) (\<lambda>(pool, _).
                            Inr (s\<lparr>tp_mChunkPool := pool\<rparr>))
                     else Inr s) (\<lambda>s.
                Inr (s\<lparr>tp_mTLSAllocatedSize := tp_mTLSAllocatedSize s - 1\<rparr>, True))))"

definition TLS_GetMaxCapacity :: "ObjectPoolTLS \<Rightarrow> nat" where
  "TLS_GetMaxCapacity s = lf_mMaxCapacity (tp_mChunkPool s) * MAX_BLOCK_BUFFER_SIZE"

subsection \<open>Invariant\<close>

text \<open>
  \<open>L\<close> is the set of pointers that are out; \<open>slots L c\<close> are the slots of chunk \<open>c\<close> among them. A
  chunk that is in use has handed out the slots from \<^verbatim>\<open>BufferAllocIndex\<close> up, and
  \<^verbatim>\<open>AvailableFreeCount\<close> is what is still to be handed out plus what is out.
\<close>

definition slots :: "nat set \<Rightarrow> nat \<Rightarrow> nat set" where
  "slots L c = {i. i < 100 \<and> 100 * c + i \<in> L}"

definition chunk_ok :: "nat set \<Rightarrow> nat \<Rightarrow> ObjectPoolTLSChunk \<Rightarrow> bool" where
  "chunk_ok L c ck \<longleftrightarrow>
     0 \<le> ck_BufferAllocIndex ck \<and> ck_BufferAllocIndex ck \<le> 100 \<and>
     slots L c \<subseteq> {nat (ck_BufferAllocIndex ck)..<100} \<and>
     ck_AvailableFreeCount ck = ck_BufferAllocIndex ck + int (card (slots L c)) \<and>
     0 < ck_AvailableFreeCount ck"

definition chunks_ok :: "nat set \<Rightarrow> (nat \<rightharpoonup> ObjectPoolTLSChunk) \<Rightarrow> nat set \<Rightarrow> bool" where
  "chunks_ok live chunks L \<longleftrightarrow>
     (\<forall>c \<in> live. \<exists>ck. chunks c = Some ck \<and> chunk_ok L c ck) \<and> (\<forall>h \<in> L. h div 100 \<in> live)"

definition tls_ok :: "nat set \<Rightarrow> (nat \<rightharpoonup> ObjectPoolTLSChunk) \<Rightarrow> (nat \<Rightarrow> nat option) \<Rightarrow> bool" where
  "tls_ok live chunks tls \<longleftrightarrow>
     (\<forall>t c. tls t = Some c \<longrightarrow> c \<in> live \<and> (\<exists>ck. chunks c = Some ck \<and> 0 < ck_BufferAllocIndex ck)) \<and>
     (\<forall>t t' c. tls t = Some c \<longrightarrow> tls t' = Some c \<longrightarrow> t = t')"

definition tls_inv_with :: "(nat \<Rightarrow> nat option) \<Rightarrow> ObjectPoolTLS \<Rightarrow> nat set \<Rightarrow> bool" where
  "tls_inv_with tls s L \<longleftrightarrow>
     lf_inv CallConstructorDestructor (tp_mChunkPool s) \<and>
     chunks_ok (lf_live (tp_mChunkPool s)) (tp_chunks s) L \<and>
     tls_ok (lf_live (tp_mChunkPool s)) (tp_chunks s) tls \<and>
     finite L \<and> tp_mTLSAllocatedSize s = int (card L)"

definition tls_inv :: "ObjectPoolTLS \<Rightarrow> nat set \<Rightarrow> bool" where
  "tls_inv s L \<longleftrightarrow> tls_inv_with (tp_tls s) s L"

lemma finite_slots [simp]: "finite (slots L c)"
  by (simp add: slots_def)

lemma pointer_eq: "j < 100 \<Longrightarrow> (100 * c + j = h) = (c = h div 100 \<and> j = h mod (100 :: nat))"
  by auto

lemma slots_insert:
  "i < 100 \<Longrightarrow> slots (insert (100 * c + i) L) c' = (if c' = c then insert i (slots L c) else slots L c')"
  by (auto simp: slots_def pointer_eq)

lemma slots_remove: "slots (L - {h}) c = (if c = h div 100 then slots L c - {h mod 100} else slots L c)"
  by (auto simp: slots_def pointer_eq)

lemma tls_inv_Create: "tls_inv (TLS_Create g) {}"
  using lf_inv_Create [of CallConstructorDestructor g]
  by (simp add: tls_inv_def tls_inv_with_def chunks_ok_def tls_ok_def TLS_Create_def)

lemma chunk_ok_fresh: "slots L c = {} \<Longrightarrow> chunk_ok L c Chunk_Create"
  by (simp add: chunk_ok_def Chunk_Create_def MAX_BLOCK_BUFFER_SIZE_def)

lemma tls_ok_drop: "tls_ok live chunks tls \<Longrightarrow> tls_ok live chunks (tls(t := None))"
  by (auto simp: tls_ok_def split: if_splits)

lemma tls_ok_take:
  assumes "tls_ok live chunks (tls(t := None))" "c \<notin> live" "0 < ck_BufferAllocIndex ck"
  shows "tls_ok (insert c live) (chunks(c \<mapsto> ck)) (tls(t := Some c))"
  unfolding tls_ok_def
proof (intro conjI allI impI)
  fix t' c'
  assume "(tls(t := Some c)) t' = Some c'"
  then have "t' = t \<and> c' = c \<or> (tls(t := None)) t' = Some c'" by (auto split: if_splits)
  then show "c' \<in> insert c live" "\<exists>ck'. (chunks(c \<mapsto> ck)) c' = Some ck' \<and> 0 < ck_BufferAllocIndex ck'"
    using assms unfolding tls_ok_def by (metis insertCI, metis fun_upd_apply)
next
  fix t1 t2 c'
  assume "(tls(t := Some c)) t1 = Some c'" "(tls(t := Some c)) t2 = Some c'"
  then show "t1 = t2" using assms unfolding tls_ok_def by (metis fun_upd_apply option.inject)
qed

lemma chunks_ok_take:
  assumes "chunks_ok live chunks L" "c \<notin> live"
  shows "chunks_ok (insert c live) (chunks(c \<mapsto> Chunk_Create)) L"
proof -
  have "slots L c = {}" using assms by (fastforce simp: slots_def chunks_ok_def)
  then show ?thesis using assms chunk_ok_fresh [of L c] by (auto simp: chunks_ok_def)
qed

text \<open>Renting a chunk for thread \<open>t\<close>: the chunk that the thread gives up may be used up.\<close>

lemma rent_chunk_ok:
  assumes inv: "tls_inv_with ((tp_tls s)(t := None)) s L"
  shows "\<exists>s' c. rent_chunk t s = Inr (s', c) \<and> tls_inv s' L \<and> tp_tls s' t = Some c"
proof -
  obtain pool c where r: "LockFree_Rent CallConstructorDestructor (tp_mChunkPool s) = Inr (pool, c)"
    "lf_inv CallConstructorDestructor pool" "c \<notin> lf_live (tp_mChunkPool s)"
    "lf_live pool = insert c (lf_live (tp_mChunkPool s))"
    using inv lf.rentE [of CallConstructorDestructor "tp_mChunkPool s"] unfolding tls_inv_with_def by blast
  let ?s' = "s\<lparr>tp_mChunkPool := pool, tp_chunks := (tp_chunks s)(c \<mapsto> Chunk_Create),
    tp_tls := (tp_tls s)(t := Some c)\<rparr>"
  have "0 < ck_BufferAllocIndex Chunk_Create" by (simp add: Chunk_Create_def MAX_BLOCK_BUFFER_SIZE_def)
  then have "tls_inv ?s' L"
    using inv r chunks_ok_take [of "lf_live (tp_mChunkPool s)"] tls_ok_take [of "lf_live (tp_mChunkPool s)"]
    by (simp add: tls_inv_def tls_inv_with_def)
  then show ?thesis using r(1) by (intro exI [of _ ?s'] exI [of _ c]) (simp add: rent_chunk_def)
qed

lemma chunk_ok_insert:
  assumes ok: "chunk_ok L c ck" and k: "0 < ck_BufferAllocIndex ck" "i = nat (ck_BufferAllocIndex ck - 1)"
  shows "chunk_ok (insert (100 * c + i) L) c (ck\<lparr>ck_BufferAllocIndex := ck_BufferAllocIndex ck - 1\<rparr>)"
    and "i < 100" and "100 * c + i \<notin> L"
proof -
  show i: "i < 100" using assms by (auto simp: chunk_ok_def)
  have "i < nat (ck_BufferAllocIndex ck)" using k by simp
  then have n: "i \<notin> slots L c" using ok by (auto simp: chunk_ok_def)
  then show "100 * c + i \<notin> L" using i by (simp add: slots_def)
  have sub: "i \<le> x \<and> x < 100" if "x \<in> slots L c" for x
    using subsetD [of "slots L c" "{nat (ck_BufferAllocIndex ck)..<100}" x] ok k that
    by (auto simp: chunk_ok_def)
  show "chunk_ok (insert (100 * c + i) L) c (ck\<lparr>ck_BufferAllocIndex := ck_BufferAllocIndex ck - 1\<rparr>)"
    using assms n i sub by (auto simp: chunk_ok_def slots_insert)
qed

lemma chunk_ok_other: "slots L c = slots L' c \<Longrightarrow> chunk_ok L c ck = chunk_ok L' c ck"
  by (simp add: chunk_ok_def)

lemma TLS_Rent_law:
  assumes inv: "tls_inv s L"
  shows "\<exists>s' h. TLS_Rent t s = Inr (s', h) \<and> tls_inv s' (insert h L) \<and> h \<notin> L"
proof -
  obtain s1 c where s1: "(case tp_tls s t of Some c \<Rightarrow> Inr (s, c) | None \<Rightarrow> rent_chunk t s) = Inr (s1, c)"
    "tls_inv s1 L" "tp_tls s1 t = Some c"
    using rent_chunk_ok [of s t L] inv tls_ok_drop
    by (cases "tp_tls s t"; fastforce simp: tls_inv_def tls_inv_with_def)
  let ?live = "lf_live (tp_mChunkPool s1)"
  have ok: "chunks_ok ?live (tp_chunks s1) L" "tls_ok ?live (tp_chunks s1) (tp_tls s1)"
    using s1(2) by (auto simp: tls_inv_def tls_inv_with_def)
  obtain ck where ck: "tp_chunks s1 c = Some ck" "0 < ck_BufferAllocIndex ck" "c \<in> ?live" "chunk_ok L c ck"
    using ok s1(3) unfolding tls_ok_def chunks_ok_def by (metis option.inject)
  define k where "k = ck_BufferAllocIndex ck - 1"
  let ?h = "100 * c + nat k" let ?L = "insert ?h L"
  let ?chunks = "(tp_chunks s1)(c \<mapsto> ck\<lparr>ck_BufferAllocIndex := k\<rparr>)"
  let ?s2 = "s1\<lparr>tp_chunks := ?chunks\<rparr>"
  let ?s3 = "?s2\<lparr>tp_mTLSAllocatedSize := tp_mTLSAllocatedSize s1 + 1\<rparr>"
  have h: "chunk_ok ?L c (ck\<lparr>ck_BufferAllocIndex := k\<rparr>)" "nat k < 100" "?h \<notin> L"
    using chunk_ok_insert [OF ck(4,2)] by (auto simp: k_def)
  have ch: "chunks_ok ?live ?chunks ?L"
    unfolding chunks_ok_def
  proof (intro conjI ballI)
    fix c' assume "c' \<in> ?live"
    then show "\<exists>ck. ?chunks c' = Some ck \<and> chunk_ok ?L c' ck"
      using h ok(1) chunk_ok_other [of ?L c' L] by (auto simp: chunks_ok_def slots_insert)
  next
    fix h' assume "h' \<in> ?L"
    then show "h' div 100 \<in> ?live" using ok(1) ck(3) h(2) by (auto simp: chunks_ok_def)
  qed
  have tls: "tls_ok ?live ?chunks ((tp_tls s1)(t := None))"
    using ok(2) s1(3) unfolding tls_ok_def by (auto split: if_splits)
  have w: "tls_inv_with ((tp_tls s1)(t := None)) ?s3 ?L"
    using s1(2) ch tls h(3) by (simp add: tls_inv_def tls_inv_with_def)
  show ?thesis
  proof (cases "k = 0")
    case True
    obtain s4 c4 where s4: "rent_chunk t ?s3 = Inr (s4, c4)" "tls_inv s4 ?L"
      using rent_chunk_ok [of ?s3 t ?L] w by auto
    have "rent_chunk t ?s2 = Inr (s4\<lparr>tp_mTLSAllocatedSize := tp_mTLSAllocatedSize s1\<rparr>, c4)"
      "tp_mTLSAllocatedSize s4 = tp_mTLSAllocatedSize s1 + 1"
      using s4(1) by (auto simp: rent_chunk_def rbind_eq_Inr)
    then have "TLS_Rent t s = Inr (s4, ?h)"
      using s1(1) ck(1) h(2) True by (simp add: TLS_Rent_def k_def [symmetric] Let_def MAX_BLOCK_BUFFER_SIZE_def)
    then show ?thesis using s4(2) h(3) by blast
  next
    case False
    have "0 \<le> k" using ck(2) by (simp add: k_def)
    have "TLS_Rent t s = Inr (?s3, ?h)"
      using s1(1) ck(1) h(2) False \<open>0 \<le> k\<close>
      by (simp add: TLS_Rent_def k_def [symmetric] Let_def MAX_BLOCK_BUFFER_SIZE_def)
    moreover have "tls_ok ?live ?chunks (tp_tls s1)"
      using ok(2) False \<open>0 \<le> k\<close> unfolding tls_ok_def by auto
    then have "tls_inv ?s3 ?L"
      using s1(2) ch h(3) by (simp add: tls_inv_def tls_inv_with_def)
    ultimately show ?thesis using h(3) by blast
  qed
qed

lemma chunk_ok_remove:
  assumes ok: "chunk_ok L c ck" and h: "h \<in> L" "c = h div 100"
  shows "card (slots L c) = Suc (card (slots (L - {h}) c))"
    and "ck_AvailableFreeCount ck \<noteq> 1 \<Longrightarrow>
      chunk_ok (L - {h}) c (ck\<lparr>ck_AvailableFreeCount := ck_AvailableFreeCount ck - 1\<rparr>)"
    and "ck_AvailableFreeCount ck = 1 \<Longrightarrow> slots (L - {h}) c = {} \<and> ck_BufferAllocIndex ck = 0"
proof -
  have "h mod 100 \<in> slots L c" using h by (simp add: slots_def)
  then show card: "card (slots L c) = Suc (card (slots (L - {h}) c))"
    using h(2) card.remove [OF finite_slots, of "h mod 100" L c] by (simp add: slots_remove)
  have "slots (L - {h}) c \<subseteq> slots L c" by (auto simp: slots_def)
  then have sub: "slots (L - {h}) c \<subseteq> {nat (ck_BufferAllocIndex ck)..<100}"
    using ok unfolding chunk_ok_def by blast
  show "chunk_ok (L - {h}) c (ck\<lparr>ck_AvailableFreeCount := ck_AvailableFreeCount ck - 1\<rparr>)"
    if "ck_AvailableFreeCount ck \<noteq> 1"
    using ok card sub that by (simp add: chunk_ok_def)
  show "slots (L - {h}) c = {} \<and> ck_BufferAllocIndex ck = 0" if "ck_AvailableFreeCount ck = 1"
  proof -
    have "card (slots (L - {h}) c) = 0" "ck_BufferAllocIndex ck = 0"
      using ok card that unfolding chunk_ok_def by linarith+
    then show ?thesis by simp
  qed
qed

lemma chunks_ok_remove:
  assumes ok: "chunks_ok live chunks L"
    and c: "c = h div 100" "c \<in> live' \<Longrightarrow> chunk_ok (L - {h}) c ck"
    and live: "live' \<subseteq> live" "live - {c} \<subseteq> live'" "c \<notin> live' \<Longrightarrow> slots (L - {h}) c = {}"
  shows "chunks_ok live' (chunks(c \<mapsto> ck)) (L - {h})"
  unfolding chunks_ok_def
proof (intro conjI ballI)
  fix c' assume c': "c' \<in> live'"
  then obtain ck' where "chunks c' = Some ck'" "chunk_ok L c' ck'"
    using ok subsetD [OF live(1)] unfolding chunks_ok_def by blast
  then show "\<exists>ck'. (chunks(c \<mapsto> ck)) c' = Some ck' \<and> chunk_ok (L - {h}) c' ck'"
    using c c' chunk_ok_other [of "L - {h}" c' L] by (cases "c' = c") (auto simp: slots_remove)
next
  fix h' assume h': "h' \<in> L - {h}"
  then have "h' div 100 \<in> live" using ok by (auto simp: chunks_ok_def)
  moreover have "h' mod 100 \<in> slots (L - {h}) (h' div 100)" using h' by (simp add: slots_def)
  ultimately show "h' div 100 \<in> live'" using live by (cases "h' div 100 = c") auto
qed

lemma TLS_Return_law:
  assumes inv: "tls_inv s L" and h: "h \<in> L"
  shows "\<exists>s'. TLS_Return s h = Inr (s', True) \<and> tls_inv s' (L - {h})"
proof -
  define c where "c = h div 100"
  let ?pool = "tp_mChunkPool s" let ?live = "lf_live ?pool"
  have w: "lf_inv CallConstructorDestructor ?pool" "chunks_ok ?live (tp_chunks s) L"
    "tls_ok ?live (tp_chunks s) (tp_tls s)" "finite L" "tp_mTLSAllocatedSize s = int (card L)"
    using inv by (auto simp: tls_inv_def tls_inv_with_def)
  obtain ck where ck: "c \<in> ?live" "tp_chunks s c = Some ck" "chunk_ok L c ck"
    using w(2) h by (auto simp: chunks_ok_def c_def)
  define n where "n = ck_AvailableFreeCount ck - 1"
  let ?chunks = "(tp_chunks s)(c \<mapsto> ck\<lparr>ck_AvailableFreeCount := n\<rparr>)"
  let ?s1 = "s\<lparr>tp_chunks := ?chunks, tp_mTLSAllocatedSize := tp_mTLSAllocatedSize s - 1\<rparr>"
  note rem = chunk_ok_remove [OF ck(3) h c_def]
  have sz: "int (card L) - 1 = int (card (L - {h}))"
    using card.remove [OF w(4) h] by simp
  show ?thesis
  proof (cases "n = 0")
    case False
    have "chunk_ok (L - {h}) c (ck\<lparr>ck_AvailableFreeCount := n\<rparr>)" using rem(2) False by (simp add: n_def)
    then have "chunks_ok ?live ?chunks (L - {h})"
      using ck(1) by (intro chunks_ok_remove [OF w(2) c_def]) auto
    moreover have "tls_ok ?live ?chunks (tp_tls s)"
      using w(3) ck(2) unfolding tls_ok_def by fastforce
    ultimately have "tls_inv ?s1 (L - {h})"
      using w(1,4,5) sz by (simp add: tls_inv_def tls_inv_with_def)
    moreover have "TLS_Return s h = Inr (?s1, True)"
      using ck(2) False
      by (simp add: TLS_Return_def Let_def MAX_BLOCK_BUFFER_SIZE_def c_def [symmetric] n_def [symmetric])
    ultimately show ?thesis by blast
  next
    case True
    then have e: "slots (L - {h}) c = {}" "ck_BufferAllocIndex ck = 0" using rem(3) by (auto simp: n_def)
    obtain pool where pool: "LockFree_Return CallConstructorDestructor ?pool (Some c) = Inr (pool, True)"
      "lf_inv CallConstructorDestructor pool" "lf_live pool = ?live - {c}"
      using lf.retE [OF w(1) ck(1)] by blast
    let ?s2 = "?s1\<lparr>tp_mChunkPool := pool\<rparr>"
    have "chunks_ok (lf_live pool) ?chunks (L - {h})"
      using e(1) pool(3) by (intro chunks_ok_remove [OF w(2) c_def]) auto
    moreover have "tp_tls s t \<noteq> Some c" for t
      using w(3) ck(2) e(2) unfolding tls_ok_def by fastforce
    then have "tls_ok (lf_live pool) ?chunks (tp_tls s)"
      using w(3) pool(3) unfolding tls_ok_def by (metis Diff_iff fun_upd_apply singletonD)
    ultimately have "tls_inv ?s2 (L - {h})"
      using pool(2) w(4,5) sz by (simp add: tls_inv_def tls_inv_with_def)
    moreover have "TLS_Return s h = Inr (?s2, True)"
      using ck(2) True pool(1)
      by (simp add: TLS_Return_def Let_def MAX_BLOCK_BUFFER_SIZE_def c_def [symmetric] n_def [symmetric])
    ultimately show ?thesis by blast
  qed
qed

text \<open>The contract, with the set of rented pointers carried beside the state, for a renting thread \<open>t\<close>.\<close>

interpretation tls: object_pool "\<lambda>(s, L). tls_inv s L" snd
  "\<lambda>(s, L). rbind (TLS_Rent t s) (\<lambda>(s', h). Inr ((s', insert h L), h))"
  "\<lambda>(s, L) h. rbind (TLS_Return s h) (\<lambda>(s', ok). Inr ((s', L - {h}), ok))" for t
proof (unfold_locales, goal_cases)
  case (1 x)
  then obtain s L where x: "x = (s, L)" "tls_inv s L" by (cases x) auto
  from TLS_Rent_law [OF x(2), of t] show ?case by (auto simp: x(1))
next
  case (2 x a)
  then obtain s L where x: "x = (s, L)" "tls_inv s L" "a \<in> L" by (cases x) auto
  from TLS_Return_law [OF x(2,3)] show ?case by (auto simp: x(1))
qed

subsection \<open>Properties\<close>

text \<open>
  C32. \<^verbatim>\<open>ObjectPoolTLS\<close>: threads rent from chunks of their own, and any thread may return an object. In every interleaving of
  calls no thread is given an object that is held, and the pool counts exactly the objects that are held.
\<close>

theorem tls_pool_run:
  assumes "tls_inv s L" "h \<in> L"
  shows "\<exists>s1 s2 h'. TLS_Rent t s = Inr (s1, h') \<and> h' \<notin> L \<and> tls_inv s1 (insert h' L) \<and>
    TLS_Return s1 h = Inr (s2, True) \<and> tls_inv s2 (insert h' L - {h}) \<and> tp_mTLSAllocatedSize s2 = int (card L)"
proof -
  obtain s1 h' where r: "TLS_Rent t s = Inr (s1, h')" "tls_inv s1 (insert h' L)" "h' \<notin> L"
    using TLS_Rent_law [OF assms(1)] by blast
  obtain s2 where s2: "TLS_Return s1 h = Inr (s2, True)" "tls_inv s2 (insert h' L - {h})"
    using TLS_Return_law [OF r(2)] assms(2) by blast
  have "finite L" using assms(1) by (simp add: tls_inv_def tls_inv_with_def)
  then have "card (insert h' L - {h}) = card L"
    using assms(2) r(3) by simp
  then show ?thesis using r s2 by (auto simp: tls_inv_def tls_inv_with_def)
qed

theorem tls_pool_run_witness:
  "\<exists>s h s1 s2 h'. TLS_Rent 0 (TLS_Create 0) = Inr (s, h) \<and> TLS_Rent 1 s = Inr (s1, h') \<and> h' \<noteq> h \<and>
    TLS_Return s1 h = Inr (s2, True) \<and> tp_mTLSAllocatedSize s2 = 1"
proof -
  obtain s h where s: "TLS_Rent 0 (TLS_Create 0) = Inr (s, h)" "tls_inv s {h}"
    using TLS_Rent_law [OF tls_inv_Create [of 0]] by blast
  from tls_pool_run [OF s(2), of h 1] s(1) show ?thesis by auto
qed

end
