(* ===== verification/Packet_Pool.thy ===== *)
theory Packet_Pool
  imports Packet_Buffer Pool_TLS
begin

text \<open>
  \<^verbatim>\<open>nf::network::packet::PacketPool\<close> (\<^verbatim>\<open>PacketPool.hpp\<close>): reference-counted packets in an
  \<^verbatim>\<open>ObjectPoolTLS\<close>. The class has a send and a receive pool with the same operations, so the model has one
  pool and is used twice. \<open>pp_objs\<close> are the constructed packets. A rented packet is constructed in
  place; its buffer keeps what the memory held, which is the argument \<open>mem\<close> (a function of the
  address).
\<close>

definition NetHeaderSize :: nat where
  "NetHeaderSize = 5"

definition NET_PACKET_BODY_CAPACITY :: nat where
  "NET_PACKET_BODY_CAPACITY = 4 * 1024"

record PacketPool =
  pp_pool :: ObjectPoolTLS
  pp_objs :: "nat \<rightharpoonup> Packet"

definition PacketPool_Init :: "u64 \<Rightarrow> PacketPool" where
  "PacketPool_Init g = \<lparr>pp_pool = TLS_Create g, pp_objs = Map.empty\<rparr>"

text \<open>
  \<^verbatim>\<open>InitSendPool\<close> and \<^verbatim>\<open>InitRecvPool\<close>: a pool that exists already is kept. The count is handed to the
  constructor of \<^verbatim>\<open>ObjectPoolTLS\<close>, which ignores it.
\<close>

definition InitPool :: "u64 \<Rightarrow> nat \<Rightarrow> PacketPool option \<Rightarrow> PacketPool option \<times> bool" where
  "InitPool g cnt pool = (if pool \<noteq> None then (pool, False) else (Some (PacketPool_Init g), True))"

text \<open>The class template's parameter is the packet type: its header size and its body capacity.\<close>

definition Pool_Alloc :: "nat \<Rightarrow> nat \<Rightarrow> nat \<Rightarrow> (nat \<Rightarrow> byte list) \<Rightarrow> PacketPool \<Rightarrow> (PacketPool \<times> nat) res" where
  "Pool_Alloc tHeaderSize tBodyCapacity t mem s =
     rbind (TLS_Rent t (pp_pool s)) (\<lambda>(pool, a).
       let (p, refCount) = Packet_AddRef (Packet_Initial tHeaderSize tBodyCapacity (mem a))
       in Inr (s\<lparr>pp_pool := pool, pp_objs := (pp_objs s)(a \<mapsto> p)\<rparr>, a))"

definition AllocPacket :: "nat \<Rightarrow> (nat \<Rightarrow> byte list) \<Rightarrow> PacketPool \<Rightarrow> (PacketPool \<times> nat) res" where
  "AllocPacket = Pool_Alloc NetHeaderSize NET_PACKET_BODY_CAPACITY"

definition TryFreePacket :: "PacketPool \<Rightarrow> nat \<Rightarrow> (PacketPool \<times> bool) res" where
  "TryFreePacket s a =
     (case pp_objs s a of
        None \<Rightarrow> Inl DeadObject
      | Some p \<Rightarrow>
          (let (p', refCount) = Packet_SubRef p in
           if refCount = 0
           then rbind (TLS_Return (pp_pool s) a) (\<lambda>(pool, ok).
                  Inr (s\<lparr>pp_pool := pool, pp_objs := (pp_objs s)(a := None)\<rparr>, ok))
           else Inr (s\<lparr>pp_objs := (pp_objs s)(a \<mapsto> p')\<rparr>, False)))"

text \<open>Taking another reference through the pointer.\<close>

definition AddRefPacket :: "PacketPool \<Rightarrow> nat \<Rightarrow> PacketPool res" where
  "AddRefPacket s a =
     (case pp_objs s a of
        None \<Rightarrow> Inl DeadObject
      | Some p \<Rightarrow> Inr (s\<lparr>pp_objs := (pp_objs s)(a \<mapsto> fst (Packet_AddRef p))\<rparr>))"

subsection \<open>Invariant\<close>

definition packet_kind :: "nat \<Rightarrow> nat \<Rightarrow> Packet \<Rightarrow> bool" where
  "packet_kind h c p \<longleftrightarrow> pk_inv p \<and> pk_tHeaderSize p = h \<and> pk_tBodyCapacity p = c"

abbreviation net_packet :: "Packet \<Rightarrow> bool" where
  "net_packet \<equiv> packet_kind 5 4096"

lemma net_packet_def: "net_packet p \<longleftrightarrow> pk_inv p \<and> pk_tHeaderSize p = 5 \<and> pk_tBodyCapacity p = 4096"
  by (rule packet_kind_def)

definition mem_ok :: "(nat \<Rightarrow> byte list) \<Rightarrow> bool" where
  "mem_ok mem \<longleftrightarrow> (\<forall>a. length (mem a) = NetHeaderSize + NET_PACKET_BODY_CAPACITY)"

text \<open>Every constructed packet is referenced, and exactly the constructed packets are rented.\<close>

definition pool_inv :: "nat \<Rightarrow> nat \<Rightarrow> PacketPool \<Rightarrow> bool" where
  "pool_inv h c s \<longleftrightarrow> tls_inv (pp_pool s) (dom (pp_objs s)) \<and>
     (\<forall>a p. pp_objs s a = Some p \<longrightarrow> packet_kind h c p \<and> 1 \<le> pk_mRefCount p)"

abbreviation pp_inv :: "PacketPool \<Rightarrow> bool" where
  "pp_inv \<equiv> pool_inv 5 4096"

lemma pp_inv_def: "pp_inv s \<longleftrightarrow> tls_inv (pp_pool s) (dom (pp_objs s)) \<and>
     (\<forall>a p. pp_objs s a = Some p \<longrightarrow> net_packet p \<and> 1 \<le> pk_mRefCount p)"
  by (rule pool_inv_def)

definition pp_refs :: "PacketPool \<Rightarrow> nat \<Rightarrow> int" where
  "pp_refs s a = (case pp_objs s a of None \<Rightarrow> 0 | Some p \<Rightarrow> pk_mRefCount p)"

lemma packet_kind_Initial:
  "1 \<le> h \<Longrightarrow> h \<le> c \<Longrightarrow> h + c < size_lim \<Longrightarrow> length g = h + c \<Longrightarrow> packet_kind h c (Packet_Initial h c g)"
  using pk_inv_Initial [of h c g] by (simp add: packet_kind_def) (simp add: Packet_Initial_def)

lemma pk_inv_refcount [simp]: "pk_inv (p\<lparr>pk_mRefCount := n\<rparr>) = pk_inv p"
  by (simp add: pk_inv_def)

lemma packet_kind_refcount [simp]: "packet_kind h c (p\<lparr>pk_mRefCount := n\<rparr>) = packet_kind h c p"
  by (simp add: packet_kind_def)

lemma pool_inv_upd:
  assumes "pool_inv h c s" "a \<in> dom (pp_objs s)" "packet_kind h c p" "1 \<le> pk_mRefCount p"
  shows "pool_inv h c (s\<lparr>pp_objs := (pp_objs s)(a \<mapsto> p)\<rparr>)"
proof -
  have "dom ((pp_objs s)(a \<mapsto> p)) = dom (pp_objs s)" using assms(2) by auto
  then show ?thesis using assms unfolding pool_inv_def by (auto simp del: dom_fun_upd)
qed

lemma pool_inv_same_refs:
  assumes "pool_inv h c s" "pp_objs s a = Some p" "packet_kind h c p'" "pk_mRefCount p' = pk_mRefCount p"
  shows "pool_inv h c (s\<lparr>pp_objs := (pp_objs s)(a \<mapsto> p')\<rparr>)" "pp_refs (s\<lparr>pp_objs := (pp_objs s)(a \<mapsto> p')\<rparr>) = pp_refs s"
  using pool_inv_upd [OF assms(1) _ assms(3)] assms by (auto simp: pool_inv_def pp_refs_def fun_eq_iff)

lemmas pp_inv_upd = pool_inv_upd [of 5 4096]
lemmas pp_inv_same_refs = pool_inv_same_refs [of 5 4096]

lemma pool_inv_Init: "pool_inv h c (PacketPool_Init g)"
  using tls_inv_Create [of g] by (simp add: pool_inv_def PacketPool_Init_def)

lemmas pp_inv_Init = pool_inv_Init [of 5 4096]

lemma Pool_Alloc_ok:
  assumes inv: "pool_inv h c s" and kind: "1 \<le> h" "h \<le> c" "h + c < size_lim" and mem: "\<And>a. length (mem a) = h + c"
  obtains s' a where "Pool_Alloc h c t mem s = Inr (s', a)" "pool_inv h c s'" "pp_objs s a = None"
    "pp_objs s' = (pp_objs s)(a \<mapsto> (Packet_Initial h c (mem a))\<lparr>pk_mRefCount := 1\<rparr>)"
proof -
  obtain pool a where r: "TLS_Rent t (pp_pool s) = Inr (pool, a)" "tls_inv pool (insert a (dom (pp_objs s)))"
    "a \<notin> dom (pp_objs s)"
    using inv TLS_Rent_law [of "pp_pool s"] unfolding pool_inv_def by metis
  let ?p = "(Packet_Initial h c (mem a))\<lparr>pk_mRefCount := 1\<rparr>"
  let ?s' = "s\<lparr>pp_pool := pool, pp_objs := (pp_objs s)(a \<mapsto> ?p)\<rparr>"
  have "Pool_Alloc h c t mem s = Inr (?s', a)"
    using r(1) by (simp add: Pool_Alloc_def Packet_AddRef_def) (simp add: Packet_Initial_def)
  moreover have "packet_kind h c ?p" using packet_kind_Initial [OF kind mem] by simp
  then have "pool_inv h c ?s'" using inv r(2) by (auto simp: pool_inv_def)
  ultimately show ?thesis using that [of ?s' a] r(3) by auto
qed

lemma AllocPacket_ok:
  assumes inv: "pp_inv s" and mem: "mem_ok mem"
  obtains s' a where "AllocPacket t mem s = Inr (s', a)" "pp_inv s'" "pp_objs s a = None"
    "pp_objs s' = (pp_objs s)(a \<mapsto> (Packet_Initial 5 4096 (mem a))\<lparr>pk_mRefCount := 1\<rparr>)"
  by (rule Pool_Alloc_ok [OF inv, of mem t])
    (use mem that in \<open>auto simp: AllocPacket_def mem_ok_def NetHeaderSize_def NET_PACKET_BODY_CAPACITY_def size_lim_def\<close>)

lemma TryFreePacket_last:
  assumes inv: "pool_inv h c s" and p: "pp_objs s a = Some p" "pk_mRefCount p = 1"
  shows "\<exists>s'. TryFreePacket s a = Inr (s', True) \<and> pool_inv h c s' \<and> pp_objs s' = (pp_objs s)(a := None)"
proof -
  obtain pool where r: "TLS_Return (pp_pool s) a = Inr (pool, True)" "tls_inv pool (dom (pp_objs s) - {a})"
    using inv TLS_Return_law [of "pp_pool s" "dom (pp_objs s)" a] p(1) unfolding pool_inv_def by blast
  have "dom (pp_objs s) - {a} = dom ((pp_objs s)(a := None))" by auto
  then show ?thesis
    using r p inv by (auto simp: TryFreePacket_def Packet_SubRef_def pool_inv_def)
qed

lemma TryFreePacket_shared:
  assumes inv: "pool_inv h c s" and p: "pp_objs s a = Some p" "1 < pk_mRefCount p"
  shows "\<exists>s'. TryFreePacket s a = Inr (s', False) \<and> pool_inv h c s' \<and>
    pp_objs s' = (pp_objs s)(a \<mapsto> p\<lparr>pk_mRefCount := pk_mRefCount p - 1\<rparr>)"
proof -
  have "insert a (dom (pp_objs s)) = dom (pp_objs s)" using p(1) by auto
  then show ?thesis
    using p inv by (auto simp: TryFreePacket_def Packet_SubRef_def pool_inv_def)
qed

text \<open>
  Releasing a reference that exists: the count goes down by one, other packets are untouched, and the
  object is destroyed and returned to the pool exactly when this was the last reference.
\<close>

lemma TryFreePacket_ok:
  assumes inv: "pool_inv h c s" and a: "0 < pp_refs s a"
  obtains s' ok where "TryFreePacket s a = Inr (s', ok)" "pool_inv h c s'" "ok \<longleftrightarrow> pp_refs s a = 1"
    "pp_refs s' = (pp_refs s)(a := pp_refs s a - 1)" "dom (pp_objs s') \<subseteq> dom (pp_objs s)"
    "a \<in> dom (pp_objs s') \<longleftrightarrow> pp_refs s a \<noteq> 1" "\<And>b. b \<noteq> a \<Longrightarrow> pp_objs s' b = pp_objs s b"
proof -
  obtain p where p: "pp_objs s a = Some p" "0 < pk_mRefCount p"
    using a by (auto simp: pp_refs_def split: option.splits)
  show ?thesis
  proof (cases "pk_mRefCount p = 1")
    case True
    obtain s' where "TryFreePacket s a = Inr (s', True)" "pool_inv h c s'" "pp_objs s' = (pp_objs s)(a := None)"
      using TryFreePacket_last [OF inv p(1) True] by blast
    then show ?thesis using True p by (intro that [of s' True]) (auto simp: pp_refs_def fun_eq_iff split: if_splits)
  next
    case False
    then obtain s' where "TryFreePacket s a = Inr (s', False)" "pool_inv h c s'"
      "pp_objs s' = (pp_objs s)(a \<mapsto> p\<lparr>pk_mRefCount := pk_mRefCount p - 1\<rparr>)"
      using TryFreePacket_shared [OF inv p(1)] p(2) by fastforce
    then show ?thesis using False p by (intro that [of s' False]) (auto simp: pp_refs_def fun_eq_iff split: if_splits)
  qed
qed

lemma AddRefPacket_ok:
  assumes inv: "pool_inv h c s" and a: "0 < pp_refs s a"
  obtains s' where "AddRefPacket s a = Inr s'" "pool_inv h c s'" "pp_refs s' = (pp_refs s)(a := pp_refs s a + 1)"
    "dom (pp_objs s') = dom (pp_objs s)"
proof -
  obtain p where p: "pp_objs s a = Some p" using a by (auto simp: pp_refs_def split: option.splits)
  let ?s' = "s\<lparr>pp_objs := (pp_objs s)(a \<mapsto> p\<lparr>pk_mRefCount := pk_mRefCount p + 1\<rparr>)\<rparr>"
  have d: "dom (pp_objs ?s') = dom (pp_objs s)" using p by auto
  have "AddRefPacket s a = Inr ?s'" using p by (simp add: AddRefPacket_def Packet_AddRef_def)
  moreover have r: "1 \<le> pk_mRefCount p" using inv p by (auto simp: pool_inv_def)
  then have "0 \<le> pk_mRefCount p" by linarith
  then have "pool_inv h c ?s'" using inv p d unfolding pool_inv_def by (auto simp del: dom_fun_upd)
  ultimately show ?thesis using that [of ?s'] p d by (auto simp: pp_refs_def fun_eq_iff)
qed

lemma pp_refs_pos: "pool_inv h c s \<Longrightarrow> 0 < pp_refs s a \<longleftrightarrow> a \<in> dom (pp_objs s)"
  by (force simp: pp_refs_def pool_inv_def split: option.splits)

subsection \<open>Properties\<close>

text \<open>
  C31. The reference count of a packet decides its life: taking a reference counts it, giving one back uncounts it, no
  other packet is touched, and the packet is destroyed and its memory returned to the pool exactly when the last
  reference is given back; a packet that is not alive is never accessed without the model noticing.
\<close>

theorem packet_refcount:
  assumes "pool_inv h c s"
  shows "if pp_refs s a = 0 then TryFreePacket s a = Inl DeadObject \<and> AddRefPacket s a = Inl DeadObject
    else \<exists>s1 s2. TryFreePacket s a = Inr (s1, pp_refs s a = 1) \<and> pool_inv h c s1 \<and> pp_refs s1 = (pp_refs s)(a := pp_refs s a - 1) \<and>
      (a \<in> dom (pp_objs s1) \<longleftrightarrow> pp_refs s a \<noteq> 1) \<and>
      AddRefPacket s a = Inr s2 \<and> pool_inv h c s2 \<and> pp_refs s2 = (pp_refs s)(a := pp_refs s a + 1)"
proof (cases "pp_objs s a")
  case None
  then show ?thesis by (simp add: pp_refs_def TryFreePacket_def AddRefPacket_def)
next
  case (Some p)
  then have a: "0 < pp_refs s a" using assms pp_refs_pos [of h c s a] by blast
  obtain s1 ok where "TryFreePacket s a = Inr (s1, ok)" "pool_inv h c s1" "ok \<longleftrightarrow> pp_refs s a = 1"
    "pp_refs s1 = (pp_refs s)(a := pp_refs s a - 1)" "a \<in> dom (pp_objs s1) \<longleftrightarrow> pp_refs s a \<noteq> 1"
    using TryFreePacket_ok [OF assms a] by metis
  moreover obtain s2 where "AddRefPacket s a = Inr s2" "pool_inv h c s2" "pp_refs s2 = (pp_refs s)(a := pp_refs s a + 1)"
    using AddRefPacket_ok [OF assms a] by metis
  ultimately show ?thesis using a by auto
qed

theorem packet_refcount_witness:
  "\<exists>s a s1. AllocPacket 0 (\<lambda>_. replicate 4101 0) (PacketPool_Init 0) = Inr (s, a) \<and> TryFreePacket s a = Inr (s1, True) \<and>
     a \<notin> dom (pp_objs s1)"
proof -
  have "mem_ok (\<lambda>_. replicate 4101 0)" by (simp add: mem_ok_def NetHeaderSize_def NET_PACKET_BODY_CAPACITY_def)
  then obtain s a where s: "AllocPacket 0 (\<lambda>_. replicate 4101 0) (PacketPool_Init 0) = Inr (s, a)" "pp_inv s"
    "pp_objs s = (pp_objs (PacketPool_Init 0))(a \<mapsto> (Packet_Initial 5 4096 (replicate 4101 0))\<lparr>pk_mRefCount := 1\<rparr>)"
    using AllocPacket_ok [OF pp_inv_Init, of "\<lambda>_. replicate 4101 0" 0 0] by metis
  have "pp_refs s a = 1" using s(3) by (simp add: pp_refs_def)
  with packet_refcount [OF s(2), of a] s(1) show ?thesis by auto
qed

end
