(* ===== verification/Ring_Buffer.thy ===== *)
theory Ring_Buffer
  imports Prelude
begin

text \<open>
  The receive queue of a session: \<^verbatim>\<open>nf/buffer/ringbuffer/RingBuffer\<close>. The object is a record
  of its members (positions are indices into \<open>rb_mBuffer\<close>), every \<^verbatim>\<open>memcpy\<close> is a checked copy
  and every \<^verbatim>\<open>size_t\<close> operation wraps. The interface \<open>byte_queue\<close> states what the operations do to
  the sequence of queued bytes; the class is an interpretation of it.
\<close>

record RingBuffer =
  rb_mBuffer :: "byte list"
  rb_mMaxCapacity :: nat
  rb_mUsedSize :: nat
  rb_mWriteIndex :: nat
  rb_mReadIndex :: nat

subsection \<open>Operations\<close>

definition RingBuffer_Init :: "nat \<Rightarrow> RingBuffer" where
  "RingBuffer_Init maxCapacity =
     \<lparr>rb_mBuffer = replicate (sz_add maxCapacity 1) 0, rb_mMaxCapacity = maxCapacity,
      rb_mUsedSize = 0, rb_mWriteIndex = 0, rb_mReadIndex = 0\<rparr>"

definition RingBuffer_ClearBuffer :: "RingBuffer \<Rightarrow> RingBuffer" where
  "RingBuffer_ClearBuffer rb = rb\<lparr>rb_mUsedSize := 0, rb_mWriteIndex := 0, rb_mReadIndex := 0\<rparr>"

definition GetUsedSize :: "RingBuffer \<Rightarrow> nat" where
  "GetUsedSize rb = rb_mUsedSize rb"

definition GetEnquableSize :: "RingBuffer \<Rightarrow> nat" where
  "GetEnquableSize rb = sz_sub (rb_mMaxCapacity rb) (rb_mUsedSize rb)"

definition RingBuffer_IsEmpty :: "RingBuffer \<Rightarrow> bool" where
  "RingBuffer_IsEmpty rb = (rb_mUsedSize rb = 0)"

definition GetDirectEnqueueSize :: "RingBuffer \<Rightarrow> nat" where
  "GetDirectEnqueueSize rb =
     (if GetEnquableSize rb = 0 then 0
      else if rb_mReadIndex rb \<le> rb_mWriteIndex rb
        then sz_sub (rb_mMaxCapacity rb) (rb_mWriteIndex rb)
        else sz_sub (rb_mReadIndex rb) (rb_mWriteIndex rb))"

definition GetDirectDequeueSize :: "RingBuffer \<Rightarrow> nat" where
  "GetDirectDequeueSize rb =
     (if RingBuffer_IsEmpty rb then 0
      else if rb_mReadIndex rb \<le> rb_mWriteIndex rb
        then sz_sub (rb_mWriteIndex rb) (rb_mReadIndex rb)
        else sz_sub (rb_mMaxCapacity rb) (rb_mReadIndex rb))"

definition RingBuffer_Enqueue :: "RingBuffer \<Rightarrow> byte list \<Rightarrow> nat \<Rightarrow> (RingBuffer \<times> nat) res" where
  "RingBuffer_Enqueue rb bytes sz =
     (if sz = 0 then Inr (rb, 0)
      else let available = min sz (sz_sub (rb_mMaxCapacity rb) (rb_mUsedSize rb)) in
        if available \<le> sz_sub (rb_mMaxCapacity rb) (rb_mWriteIndex rb) then
          rbind (mem_read bytes 0 available) (\<lambda>src.
          rbind (mem_write (rb_mBuffer rb) (rb_mWriteIndex rb) src) (\<lambda>buf.
          let w = sz_add (rb_mWriteIndex rb) available in
          Inr (rb\<lparr>rb_mBuffer := buf,
                  rb_mWriteIndex := (if w = rb_mMaxCapacity rb then 0 else w),
                  rb_mUsedSize := sz_add (rb_mUsedSize rb) available\<rparr>, available)))
        else
          let frst = sz_sub (rb_mMaxCapacity rb) (rb_mWriteIndex rb);
              scnd = sz_sub available frst in
          rbind (mem_read bytes 0 frst) (\<lambda>src1.
          rbind (mem_write (rb_mBuffer rb) (rb_mWriteIndex rb) src1) (\<lambda>buf1.
          rbind (mem_read bytes frst scnd) (\<lambda>src2.
          rbind (mem_write buf1 0 src2) (\<lambda>buf2.
          Inr (rb\<lparr>rb_mBuffer := buf2,
                  rb_mWriteIndex := scnd,
                  rb_mUsedSize := sz_add (rb_mUsedSize rb) available\<rparr>, available))))))"

text \<open>
  \<^verbatim>\<open>Dequeue\<close> and \<^verbatim>\<open>Peek\<close> return the bytes they copy to the caller's memory; the caller's model
  writes them there.
\<close>

definition RingBuffer_Dequeue :: "RingBuffer \<Rightarrow> nat \<Rightarrow> (RingBuffer \<times> byte list \<times> nat) res" where
  "RingBuffer_Dequeue rb sz =
     (if sz = 0 then Inr (rb, [], 0)
      else let available = min sz (rb_mUsedSize rb) in
        if available \<le> sz_sub (rb_mMaxCapacity rb) (rb_mReadIndex rb) then
          rbind (mem_read (rb_mBuffer rb) (rb_mReadIndex rb) available) (\<lambda>out.
          let r = sz_add (rb_mReadIndex rb) available in
          Inr (rb\<lparr>rb_mReadIndex := (if r = rb_mMaxCapacity rb then 0 else r),
                  rb_mUsedSize := sz_sub (rb_mUsedSize rb) available\<rparr>, out, available))
        else
          let frst = sz_sub (rb_mMaxCapacity rb) (rb_mReadIndex rb);
              scnd = sz_sub available frst in
          rbind (mem_read (rb_mBuffer rb) (rb_mReadIndex rb) frst) (\<lambda>out1.
          rbind (mem_read (rb_mBuffer rb) 0 scnd) (\<lambda>out2.
          Inr (rb\<lparr>rb_mReadIndex := scnd,
                  rb_mUsedSize := sz_sub (rb_mUsedSize rb) available\<rparr>, out1 @ out2, available))))"

definition RingBuffer_Peek :: "RingBuffer \<Rightarrow> nat \<Rightarrow> (byte list \<times> nat) res" where
  "RingBuffer_Peek rb sz =
     (if sz = 0 then Inr ([], 0)
      else let available = min sz (rb_mUsedSize rb) in
        if available \<le> sz_sub (rb_mMaxCapacity rb) (rb_mReadIndex rb) then
          rbind (mem_read (rb_mBuffer rb) (rb_mReadIndex rb) available) (\<lambda>out. Inr (out, available))
        else
          let frst = sz_sub (rb_mMaxCapacity rb) (rb_mReadIndex rb);
              scnd = sz_sub available frst in
          rbind (mem_read (rb_mBuffer rb) (rb_mReadIndex rb) frst) (\<lambda>out1.
          rbind (mem_read (rb_mBuffer rb) 0 scnd) (\<lambda>out2. Inr (out1 @ out2, available))))"

definition RingBuffer_MoveWrite :: "RingBuffer \<Rightarrow> nat \<Rightarrow> RingBuffer \<times> nat" where
  "RingBuffer_MoveWrite rb sz =
     (if sz = 0 then (rb, 0)
      else let available = min sz (sz_sub (rb_mMaxCapacity rb) (rb_mUsedSize rb));
               w = (if available \<le> sz_sub (rb_mMaxCapacity rb) (rb_mWriteIndex rb) then
                      (let w1 = sz_add (rb_mWriteIndex rb) available in
                       if w1 = rb_mMaxCapacity rb then 0 else w1)
                    else sz_sub available (sz_sub (rb_mMaxCapacity rb) (rb_mWriteIndex rb))) in
        (rb\<lparr>rb_mWriteIndex := w, rb_mUsedSize := sz_add (rb_mUsedSize rb) available\<rparr>, available))"

definition RingBuffer_MoveRead :: "RingBuffer \<Rightarrow> nat \<Rightarrow> RingBuffer \<times> nat" where
  "RingBuffer_MoveRead rb sz =
     (if sz = 0 then (rb, 0)
      else let available = min sz (rb_mUsedSize rb);
               r = (if available \<le> sz_sub (rb_mMaxCapacity rb) (rb_mReadIndex rb) then
                      (let r1 = sz_add (rb_mReadIndex rb) available in
                       if r1 = rb_mMaxCapacity rb then 0 else r1)
                    else sz_sub available (sz_sub (rb_mMaxCapacity rb) (rb_mReadIndex rb))) in
        (rb\<lparr>rb_mReadIndex := r, rb_mUsedSize := sz_sub (rb_mUsedSize rb) available\<rparr>, available))"

subsection \<open>Invariant and abstraction\<close>

definition wrap :: "nat \<Rightarrow> nat \<Rightarrow> nat" where
  "wrap cap i = (if i < cap then i else i - cap)"

definition rb_inv :: "RingBuffer \<Rightarrow> bool" where
  "rb_inv rb \<longleftrightarrow>
     length (rb_mBuffer rb) = rb_mMaxCapacity rb + 1 \<and> rb_mMaxCapacity rb + 1 < size_lim \<and>
     rb_mUsedSize rb \<le> rb_mMaxCapacity rb \<and>
     (rb_mReadIndex rb < rb_mMaxCapacity rb \<or> rb_mMaxCapacity rb = 0 \<and> rb_mReadIndex rb = 0) \<and>
     rb_mWriteIndex rb = wrap (rb_mMaxCapacity rb) (rb_mReadIndex rb + rb_mUsedSize rb)"

text \<open>The queued bytes, oldest first.\<close>

definition rb_contents :: "RingBuffer \<Rightarrow> byte list" where
  "rb_contents rb =
     map (\<lambda>i. rb_mBuffer rb ! wrap (rb_mMaxCapacity rb) (rb_mReadIndex rb + i)) [0..<rb_mUsedSize rb]"

text \<open>
  The bytes that lie in the free part of the ring, in the order in which \<^verbatim>\<open>MoveWrite\<close> will publish
  them: the space that \<^verbatim>\<open>RecvPost\<close> hands to the kernel.
\<close>

definition rb_free :: "RingBuffer \<Rightarrow> byte list" where
  "rb_free rb =
     map (\<lambda>i. rb_mBuffer rb ! wrap (rb_mMaxCapacity rb) (rb_mWriteIndex rb + i))
       [0..<rb_mMaxCapacity rb - rb_mUsedSize rb]"

subsection \<open>Facts about the invariant\<close>

lemma wrap_less: "i < cap + cap \<Longrightarrow> 0 < cap \<Longrightarrow> wrap cap i < cap"
  by (auto simp: wrap_def)

lemma wrap_inj:
  "wrap cap (r + i) = wrap cap (r + j) \<Longrightarrow> r \<le> cap \<Longrightarrow> i < cap \<Longrightarrow> j < cap \<Longrightarrow> i = j"
  by (auto simp: wrap_def split: if_splits)

lemma wrap_wrap_add:
  "r + u \<le> cap + cap \<Longrightarrow> u + i < cap \<Longrightarrow> r < cap \<Longrightarrow>
   wrap cap (wrap cap (r + u) + i) = wrap cap (r + (u + i))"
  by (auto simp: wrap_def)

lemma rb_inv_sizes:
  assumes "rb_inv rb"
  shows "sz_sub (rb_mMaxCapacity rb) (rb_mUsedSize rb) = rb_mMaxCapacity rb - rb_mUsedSize rb"
    and "sz_sub (rb_mMaxCapacity rb) (rb_mWriteIndex rb) = rb_mMaxCapacity rb - rb_mWriteIndex rb"
    and "sz_sub (rb_mMaxCapacity rb) (rb_mReadIndex rb) = rb_mMaxCapacity rb - rb_mReadIndex rb"
    and "rb_mWriteIndex rb \<le> rb_mMaxCapacity rb" "rb_mReadIndex rb \<le> rb_mMaxCapacity rb"
    and "rb_mUsedSize rb \<le> rb_mMaxCapacity rb" "rb_mMaxCapacity rb + 1 < size_lim"
    and "length (rb_mBuffer rb) = rb_mMaxCapacity rb + 1"
  using assms by (auto simp: rb_inv_def wrap_def size_simps split: if_splits)

lemma GetEnquableSize_eq: "rb_inv rb \<Longrightarrow> GetEnquableSize rb = rb_mMaxCapacity rb - rb_mUsedSize rb"
  by (simp add: GetEnquableSize_def rb_inv_sizes)

lemma length_rb_contents [simp]: "length (rb_contents rb) = rb_mUsedSize rb"
  by (simp add: rb_contents_def)

lemma length_rb_free [simp]: "length (rb_free rb) = rb_mMaxCapacity rb - rb_mUsedSize rb"
  by (simp add: rb_free_def)

lemma rb_inv_Init: "maxCapacity + 1 < size_lim \<Longrightarrow> rb_inv (RingBuffer_Init maxCapacity)"
  by (auto simp: rb_inv_def RingBuffer_Init_def wrap_def size_simps)

lemma rb_contents_Init [simp]: "rb_contents (RingBuffer_Init n) = []"
  by (simp add: rb_contents_def RingBuffer_Init_def)

lemma rb_inv_ClearBuffer: "rb_inv rb \<Longrightarrow> rb_inv (RingBuffer_ClearBuffer rb)"
  by (auto simp: rb_inv_def RingBuffer_ClearBuffer_def wrap_def)

lemma rb_contents_ClearBuffer [simp]: "rb_contents (RingBuffer_ClearBuffer rb) = []"
  by (simp add: rb_contents_def RingBuffer_ClearBuffer_def)

text \<open>Every \<^verbatim>\<open>available\<close>-step of an index lands on the wrapped sum, on both branches.\<close>

lemma advance_index:
  assumes "idx < cap \<or> cap = 0 \<and> idx = 0" and "n \<le> cap" and "cap + 1 < size_lim"
  shows "(if n \<le> sz_sub cap idx
          then (let w1 = sz_add idx n in if w1 = cap then 0 else w1)
          else sz_sub n (sz_sub cap idx)) = wrap cap (idx + n)"
  using assms by (auto simp: wrap_def size_simps Let_def)

lemma rb_write_index_range:
  "rb_inv rb \<Longrightarrow> rb_mWriteIndex rb < rb_mMaxCapacity rb \<or>
     rb_mMaxCapacity rb = 0 \<and> rb_mWriteIndex rb = 0"
  by (auto simp: rb_inv_def wrap_def split: if_splits)

lemma rb_read_index_range:
  "rb_inv rb \<Longrightarrow> rb_mReadIndex rb < rb_mMaxCapacity rb \<or>
     rb_mMaxCapacity rb = 0 \<and> rb_mReadIndex rb = 0"
  by (auto simp: rb_inv_def)

subsection \<open>Producer side\<close>

lemma rb_publish:
  assumes inv: "rb_inv rb" and n: "n \<le> rb_mMaxCapacity rb - rb_mUsedSize rb"
    and buf: "length buf = length (rb_mBuffer rb)"
    and old: "\<And>i. i < rb_mUsedSize rb \<Longrightarrow>
       buf ! wrap (rb_mMaxCapacity rb) (rb_mReadIndex rb + i) =
       rb_mBuffer rb ! wrap (rb_mMaxCapacity rb) (rb_mReadIndex rb + i)"
    and new: "\<And>i. i < n \<Longrightarrow> buf ! wrap (rb_mMaxCapacity rb) (rb_mWriteIndex rb + i) = xs ! i"
    and len: "length xs = n"
  defines "rb' \<equiv> rb\<lparr>rb_mBuffer := buf, rb_mWriteIndex := wrap (rb_mMaxCapacity rb) (rb_mWriteIndex rb + n),
                   rb_mUsedSize := rb_mUsedSize rb + n\<rparr>"
  shows "rb_inv rb'" and "rb_contents rb' = rb_contents rb @ xs"
proof -
  let ?c = "rb_mMaxCapacity rb" let ?r = "rb_mReadIndex rb" let ?u = "rb_mUsedSize rb"
  have w: "rb_mWriteIndex rb = wrap ?c (?r + ?u)" and u: "?u \<le> ?c"
    and r: "?r < ?c \<or> ?c = 0 \<and> ?r = 0"
    using inv by (auto simp: rb_inv_def)
  have w': "wrap ?c (rb_mWriteIndex rb + n) = wrap ?c (?r + (?u + n))"
    using w u r n by (auto simp: wrap_def)
  show "rb_inv rb'"
    using inv n buf w' by (auto simp: rb_inv_def rb'_def)
  show "rb_contents rb' = rb_contents rb @ xs"
  proof (rule nth_equalityI)
    show "length (rb_contents rb') = length (rb_contents rb @ xs)"
      using len by (simp add: rb'_def)
  next
    fix i assume "i < length (rb_contents rb')"
    then have i: "i < ?u + n" by (simp add: rb'_def)
    then have "rb_contents rb' ! i = buf ! wrap ?c (?r + i)"
      by (simp add: rb_contents_def rb'_def del: upt_Suc)
    also have "\<dots> = (rb_contents rb @ xs) ! i"
    proof (cases "i < ?u")
      case True
      then show ?thesis using old by (simp add: nth_append rb_contents_def)
    next
      case False
      have "wrap ?c (?r + i) = wrap ?c (rb_mWriteIndex rb + (i - ?u))"
        using False i n u r w by (auto simp: wrap_def)
      then show ?thesis using False i new [of "i - ?u"] by (simp add: nth_append)
    qed
    finally show "rb_contents rb' ! i = (rb_contents rb @ xs) ! i" .
  qed
qed

lemma MoveWrite_eq:
  assumes "rb_inv rb"
  shows "RingBuffer_MoveWrite rb sz =
    (let n = min sz (rb_mMaxCapacity rb - rb_mUsedSize rb) in
     (rb\<lparr>rb_mWriteIndex := wrap (rb_mMaxCapacity rb) (rb_mWriteIndex rb + n),
         rb_mUsedSize := rb_mUsedSize rb + n\<rparr>, n))"
proof (cases "sz = 0")
  case True
  then show ?thesis
    using rb_write_index_range [OF assms] by (auto simp: RingBuffer_MoveWrite_def wrap_def)
next
  case False
  let ?n = "min sz (rb_mMaxCapacity rb - rb_mUsedSize rb)"
  note s = rb_inv_sizes [OF assms]
  have "sz_add (rb_mUsedSize rb) ?n = rb_mUsedSize rb + ?n"
    using s by (intro sz_add_eq) linarith
  with False s advance_index [OF rb_write_index_range [OF assms], of ?n] show ?thesis
    by (simp add: RingBuffer_MoveWrite_def Let_def)
qed

theorem MoveWrite_spec:
  assumes "rb_inv rb" and "RingBuffer_MoveWrite rb sz = (rb', n)"
  shows "rb_inv rb'" and "n = min sz (rb_mMaxCapacity rb - rb_mUsedSize rb)"
    and "rb_contents rb' = rb_contents rb @ take n (rb_free rb)"
    and "rb_mMaxCapacity rb' = rb_mMaxCapacity rb"
proof -
  let ?n = "min sz (rb_mMaxCapacity rb - rb_mUsedSize rb)"
  have eq: "rb' = rb\<lparr>rb_mBuffer := rb_mBuffer rb,
      rb_mWriteIndex := wrap (rb_mMaxCapacity rb) (rb_mWriteIndex rb + ?n),
      rb_mUsedSize := rb_mUsedSize rb + ?n\<rparr>" and n: "n = ?n"
    using assms by (auto simp: MoveWrite_eq Let_def)
  have pub: "i < ?n \<Longrightarrow> rb_mBuffer rb ! wrap (rb_mMaxCapacity rb) (rb_mWriteIndex rb + i) =
      take ?n (rb_free rb) ! i" for i
    by (simp add: rb_free_def)
  show "rb_inv rb'" unfolding eq
    by (rule rb_publish [OF assms(1) _ _ _ pub]) auto
  show "rb_contents rb' = rb_contents rb @ take n (rb_free rb)" unfolding eq n
    by (rule rb_publish [OF assms(1) _ _ _ pub]) auto
  show "n = ?n" by (rule n)
  show "rb_mMaxCapacity rb' = rb_mMaxCapacity rb" by (simp add: eq)
qed

text \<open>
  Where an enqueue writes: one segment, or the tail of the buffer and then its start. On both
  branches cell \<open>wrap (w + i)\<close> receives byte \<open>i\<close> and every other cell below the capacity is kept.
\<close>

definition ring_fill :: "byte list \<Rightarrow> nat \<Rightarrow> nat \<Rightarrow> byte list \<Rightarrow> byte list" where
  "ring_fill buf cap w xs =
     (if w + length xs \<le> cap then take w buf @ xs @ drop (w + length xs) buf
      else let buf1 = take w buf @ take (cap - w) xs @ drop cap buf
           in drop (cap - w) xs @ drop (length xs - (cap - w)) buf1)"

lemma length_ring_fill:
  "length buf = cap + 1 \<Longrightarrow> w \<le> cap \<Longrightarrow> length xs \<le> cap \<Longrightarrow> length (ring_fill buf cap w xs) = cap + 1"
  by (auto simp: ring_fill_def)

lemma ring_fill_new:
  assumes "length buf = cap + 1" "w < cap" "length xs \<le> cap" "i < length xs"
  shows "ring_fill buf cap w xs ! wrap cap (w + i) = xs ! i"
  using assms by (auto simp: ring_fill_def wrap_def nth_append)

lemma ring_untouched:
  assumes "j < cap" "w < cap" and "\<And>i. i < n \<Longrightarrow> j \<noteq> wrap cap (w + i)"
  shows "n \<le> (if w \<le> j then j - w else j + cap - w)"
proof -
  let ?i = "if w \<le> j then j - w else j + cap - w"
  have "wrap cap (w + ?i) = j" using assms(1,2) by (auto simp: wrap_def)
  then show ?thesis using assms(3) [of ?i] by (metis not_le)
qed

lemma ring_fill_old:
  assumes "length buf = cap + 1" "w < cap" "length xs \<le> cap" "j < cap"
    and "\<And>i. i < length xs \<Longrightarrow> j \<noteq> wrap cap (w + i)"
  shows "ring_fill buf cap w xs ! j = buf ! j"
proof -
  have "length xs \<le> (if w \<le> j then j - w else j + cap - w)"
    by (rule ring_untouched [OF assms(4,2)]) (rule assms(5))
  then show ?thesis
    using assms(1-4) by (auto simp: ring_fill_def nth_append split: if_splits)
qed

lemma Enqueue_eq:
  assumes inv: "rb_inv rb" and src: "sz \<le> length bytes"
    and n: "n = min sz (rb_mMaxCapacity rb - rb_mUsedSize rb)"
  shows "RingBuffer_Enqueue rb bytes sz =
     Inr (rb\<lparr>rb_mBuffer := ring_fill (rb_mBuffer rb) (rb_mMaxCapacity rb) (rb_mWriteIndex rb) (take n bytes),
             rb_mWriteIndex := wrap (rb_mMaxCapacity rb) (rb_mWriteIndex rb + n),
             rb_mUsedSize := rb_mUsedSize rb + n\<rparr>, n)"
proof (cases "sz = 0")
  case True
  then show ?thesis
    using rb_write_index_range [OF inv] n by (auto simp: RingBuffer_Enqueue_def wrap_def ring_fill_def)
next
  case False
  let ?c = "rb_mMaxCapacity rb" let ?w = "rb_mWriteIndex rb" let ?u = "rb_mUsedSize rb"
  note s = rb_inv_sizes [OF inv]
  have n_le: "n \<le> length bytes" "n \<le> ?c" "?u + n \<le> ?c" using src n s(6) by auto
  have add: "sz_add ?u n = ?u + n"
    using s n_le by (intro sz_add_eq) linarith
  show ?thesis
  proof (cases "n \<le> ?c - ?w")
    case True
    have w: "sz_add ?w n = ?w + n" using True s by (intro sz_add_eq) linarith
    have "(if ?w + n = ?c then 0 else ?w + n) = wrap ?c (?w + n)"
      using True s(4) by (auto simp: wrap_def)
    then show ?thesis
      using True False s n_le add w
      by (simp add: RingBuffer_Enqueue_def Let_def res_simps ring_fill_def n [symmetric])
  next
    case False
    have sub: "sz_sub n (?c - ?w) = n - (?c - ?w)" using False s n_le by (intro sz_sub_eq) linarith+
    have wn: "n - (?c - ?w) = wrap ?c (?w + n)" using False s(4) by (auto simp: wrap_def)
    let ?b1 = "take ?w (rb_mBuffer rb) @ take (?c - ?w) bytes @ drop ?c (rb_mBuffer rb)"
    have c1: "mem_read bytes 0 (?c - ?w) = Inr (take (?c - ?w) bytes)"
      "mem_write (rb_mBuffer rb) ?w (take (?c - ?w) bytes) = Inr ?b1"
      "mem_read bytes (?c - ?w) (n - (?c - ?w)) = Inr (drop (?c - ?w) (take n bytes))"
      "mem_write ?b1 0 (drop (?c - ?w) (take n bytes)) =
         Inr (ring_fill (rb_mBuffer rb) ?c ?w (take n bytes))"
      using False n_le s(4,8) by (auto simp: mem_read_def mem_write_def ring_fill_def drop_take min_def)
    show ?thesis
      unfolding RingBuffer_Enqueue_def s(1,2) n [symmetric] Let_def
      using False \<open>sz \<noteq> 0\<close> by (simp add: c1 sub add wn [symmetric] del: diff_diff_right)
  qed
qed

lemma wrap_disjoint:
  "i < u \<Longrightarrow> u + k < c \<Longrightarrow> r < c \<Longrightarrow> wrap c (r + i) \<noteq> wrap c (wrap c (r + u) + k)"
  by (auto simp: wrap_def)

theorem Enqueue_spec:
  assumes inv: "rb_inv rb" and src: "sz \<le> length bytes"
  shows "\<exists>rb' n. RingBuffer_Enqueue rb bytes sz = Inr (rb', n) \<and> rb_inv rb' \<and>
    n = min sz (rb_mMaxCapacity rb - rb_mUsedSize rb) \<and>
    rb_contents rb' = rb_contents rb @ take n bytes \<and> rb_mMaxCapacity rb' = rb_mMaxCapacity rb"
proof -
  let ?c = "rb_mMaxCapacity rb" let ?w = "rb_mWriteIndex rb" let ?u = "rb_mUsedSize rb"
  define n where "n = min sz (?c - ?u)"
  define xs where "xs = take n bytes"
  let ?buf = "ring_fill (rb_mBuffer rb) ?c ?w xs"
  note s = rb_inv_sizes [OF inv]
  have len: "length xs = n" "n \<le> ?c - ?u" "n \<le> ?c" using src by (auto simp: n_def xs_def)
  have lb: "length ?buf = length (rb_mBuffer rb)"
    using s len by (simp add: length_ring_fill)
  have new: "?buf ! wrap ?c (?w + i) = xs ! i" if "i < n" for i
    using that len rb_write_index_range [OF inv] s by (intro ring_fill_new) auto
  have old: "?buf ! wrap ?c (rb_mReadIndex rb + i) = rb_mBuffer rb ! wrap ?c (rb_mReadIndex rb + i)"
    if "i < ?u" for i
  proof (rule ring_fill_old)
    have r: "rb_mReadIndex rb < ?c" and w: "?w = wrap ?c (rb_mReadIndex rb + ?u)"
      using inv that by (auto simp: rb_inv_def)
    show "?w < ?c" using rb_write_index_range [OF inv] that s(6) by linarith
    show "wrap ?c (rb_mReadIndex rb + i) < ?c" using r that s(6) by (intro wrap_less) auto
    show "wrap ?c (rb_mReadIndex rb + i) \<noteq> wrap ?c (?w + k)" if "k < length xs" for k
      unfolding w using that len(1,2) \<open>i < ?u\<close> r by (intro wrap_disjoint) auto
  qed (use s len in auto)
  note pub = rb_publish [OF inv len(2) lb old new len(1)]
  show ?thesis
    using pub Enqueue_eq [OF inv src n_def] by (auto simp: n_def xs_def)
qed

subsection \<open>Consumer side\<close>

lemma rb_consume:
  assumes inv: "rb_inv rb" and n: "n \<le> rb_mUsedSize rb"
  defines "rb' \<equiv> rb\<lparr>rb_mReadIndex := wrap (rb_mMaxCapacity rb) (rb_mReadIndex rb + n),
                   rb_mUsedSize := rb_mUsedSize rb - n\<rparr>"
  shows "rb_inv rb'" and "rb_contents rb' = drop n (rb_contents rb)"
proof -
  let ?c = "rb_mMaxCapacity rb" let ?r = "rb_mReadIndex rb" let ?u = "rb_mUsedSize rb"
  have r: "?r < ?c \<or> ?c = 0 \<and> ?r = 0" and u: "?u \<le> ?c"
    and w: "rb_mWriteIndex rb = wrap ?c (?r + ?u)"
    using inv by (auto simp: rb_inv_def)
  have "wrap ?c (wrap ?c (?r + n) + (?u - n)) = wrap ?c (?r + ?u)"
    using r u n by (auto simp: wrap_def)
  moreover have "wrap ?c (?r + n) < ?c \<or> ?c = 0 \<and> wrap ?c (?r + n) = 0"
    using r u n by (auto simp: wrap_def)
  ultimately show "rb_inv rb'"
    using inv n by (auto simp: rb_inv_def rb'_def)
  show "rb_contents rb' = drop n (rb_contents rb)"
  proof (rule nth_equalityI)
    show "length (rb_contents rb') = length (drop n (rb_contents rb))"
      by (simp add: rb'_def)
  next
    fix i assume "i < length (rb_contents rb')"
    then have i: "i < ?u - n" by (simp add: rb'_def)
    then have "wrap ?c (wrap ?c (?r + n) + i) = wrap ?c (?r + (n + i))"
      using r u n by (auto simp: wrap_def)
    then show "rb_contents rb' ! i = drop n (rb_contents rb) ! i"
      using i by (simp add: rb'_def rb_contents_def less_diff_conv add.commute)
  qed
qed

text \<open>What a read of \<open>n\<close> bytes copies out, on both branches.\<close>

lemma rb_read_out:
  assumes inv: "rb_inv rb" and n: "n \<le> rb_mUsedSize rb"
  shows "n \<le> rb_mMaxCapacity rb - rb_mReadIndex rb \<Longrightarrow>
      take n (drop (rb_mReadIndex rb) (rb_mBuffer rb)) = take n (rb_contents rb)"
    and "\<not> n \<le> rb_mMaxCapacity rb - rb_mReadIndex rb \<Longrightarrow>
      take (rb_mMaxCapacity rb - rb_mReadIndex rb) (drop (rb_mReadIndex rb) (rb_mBuffer rb)) @
      take (n - (rb_mMaxCapacity rb - rb_mReadIndex rb)) (rb_mBuffer rb) = take n (rb_contents rb)"
proof -
  let ?c = "rb_mMaxCapacity rb" let ?r = "rb_mReadIndex rb"
  note s = rb_inv_sizes [OF inv]
  show "take n (drop ?r (rb_mBuffer rb)) = take n (rb_contents rb)" if "n \<le> ?c - ?r"
    using that n s by (intro nth_equalityI) (auto simp: rb_contents_def wrap_def)
  show "take (?c - ?r) (drop ?r (rb_mBuffer rb)) @ take (n - (?c - ?r)) (rb_mBuffer rb) =
      take n (rb_contents rb)" if "\<not> n \<le> ?c - ?r"
    using that n s by (intro nth_equalityI) (auto simp: rb_contents_def wrap_def nth_append add.commute)
qed

lemma Peek_eq:
  assumes inv: "rb_inv rb"
  shows "RingBuffer_Peek rb sz =
    Inr (take sz (rb_contents rb), min sz (rb_mUsedSize rb))"
proof (cases "sz = 0")
  case True
  then show ?thesis by (simp add: RingBuffer_Peek_def)
next
  case False
  define n where "n = min sz (rb_mUsedSize rb)"
  let ?c = "rb_mMaxCapacity rb" let ?r = "rb_mReadIndex rb"
  note s = rb_inv_sizes [OF inv]
  have n: "n \<le> rb_mUsedSize rb" by (simp add: n_def)
  have tk: "take sz (rb_contents rb) = take n (rb_contents rb)" by (simp add: n_def min_def)
  note out = rb_read_out [OF inv n]
  show ?thesis
  proof (cases "n \<le> ?c - ?r")
    case True
    then show ?thesis
      using False s n out(1) tk
      by (simp add: RingBuffer_Peek_def Let_def res_simps n_def [symmetric])
  next
    case split: False
    have sub: "sz_sub n (?c - ?r) = n - (?c - ?r)" using split s n by (intro sz_sub_eq) linarith+
    show ?thesis
      using False split s n out(2) tk sub
      by (simp add: RingBuffer_Peek_def Let_def res_simps n_def [symmetric])
  qed
qed

lemma MoveRead_eq:
  assumes "rb_inv rb" and n: "n = min sz (rb_mUsedSize rb)"
  shows "RingBuffer_MoveRead rb sz =
     (rb\<lparr>rb_mReadIndex := wrap (rb_mMaxCapacity rb) (rb_mReadIndex rb + n),
         rb_mUsedSize := rb_mUsedSize rb - n\<rparr>, n)"
proof (cases "sz = 0")
  case True
  then show ?thesis
    using rb_read_index_range [OF assms(1)] n by (auto simp: RingBuffer_MoveRead_def wrap_def)
next
  case False
  note s = rb_inv_sizes [OF assms(1)]
  have sub: "sz_sub (rb_mUsedSize rb) n = rb_mUsedSize rb - n"
    using s n by (intro sz_sub_eq) linarith+
  have "n \<le> rb_mMaxCapacity rb" using n s(6) by linarith
  with False sub advance_index [OF rb_read_index_range [OF assms(1)], of n] s show ?thesis
    by (simp add: RingBuffer_MoveRead_def Let_def n [symmetric])
qed

text \<open>
  \<^verbatim>\<open>Dequeue\<close> is \<^verbatim>\<open>Peek\<close> followed by \<^verbatim>\<open>MoveRead\<close>: the two code paths agree byte for byte.
\<close>

lemma Dequeue_eq:
  assumes inv: "rb_inv rb"
  shows "RingBuffer_Dequeue rb sz =
    Inr (fst (RingBuffer_MoveRead rb sz), take sz (rb_contents rb), min sz (rb_mUsedSize rb))"
proof (cases "sz = 0")
  case True
  then show ?thesis by (simp add: RingBuffer_Dequeue_def RingBuffer_MoveRead_def)
next
  case False
  define n where "n = min sz (rb_mUsedSize rb)"
  let ?c = "rb_mMaxCapacity rb" let ?r = "rb_mReadIndex rb"
  note s = rb_inv_sizes [OF inv]
  have n: "n \<le> rb_mUsedSize rb" by (simp add: n_def)
  have tk: "take sz (rb_contents rb) = take n (rb_contents rb)" by (simp add: n_def min_def)
  note out = rb_read_out [OF inv n]
  show ?thesis
  proof (cases "n \<le> ?c - ?r")
    case True
    then show ?thesis
      using False s n out(1) tk
      by (simp add: RingBuffer_Dequeue_def RingBuffer_MoveRead_def Let_def res_simps n_def [symmetric])
  next
    case split: False
    have sub: "sz_sub n (?c - ?r) = n - (?c - ?r)" using split s n by (intro sz_sub_eq) linarith+
    show ?thesis
      using False split s n out(2) tk sub
      by (simp add: RingBuffer_Dequeue_def RingBuffer_MoveRead_def Let_def res_simps n_def [symmetric])
  qed
qed

theorem Dequeue_spec:
  assumes inv: "rb_inv rb"
  shows "\<exists>rb'. RingBuffer_Dequeue rb sz =
      Inr (rb', take sz (rb_contents rb), min sz (rb_mUsedSize rb)) \<and> rb_inv rb' \<and>
    rb_contents rb' = drop sz (rb_contents rb) \<and> rb_mMaxCapacity rb' = rb_mMaxCapacity rb"
proof -
  define n where "n = min sz (rb_mUsedSize rb)"
  have "drop sz (rb_contents rb) = drop n (rb_contents rb)" by (simp add: n_def min_def)
  then show ?thesis
    using rb_consume [OF inv, of n] by (simp add: Dequeue_eq [OF inv] MoveRead_eq [OF inv n_def] n_def)
qed

lemma MoveRead_spec:
  assumes inv: "rb_inv rb" and "RingBuffer_MoveRead rb sz = (rb', n)"
  shows "rb_inv rb'" and "n = min sz (rb_mUsedSize rb)"
    and "rb_contents rb' = drop sz (rb_contents rb)" and "rb_mMaxCapacity rb' = rb_mMaxCapacity rb"
  using Dequeue_spec [OF inv, of sz] assms(2)
    MoveRead_eq [OF inv, of "min sz (rb_mUsedSize rb)" sz] by (auto simp: Dequeue_eq [OF inv])

subsection \<open>The interface of a bounded byte queue\<close>

datatype queue_op = Put "byte list" | Get nat | Look nat

datatype queue_out = Accepted nat | Bytes "byte list"

text \<open>A sequence of calls on a concrete queue, and on the list of bytes it stands for.\<close>

fun queue_run ::
  "('q \<Rightarrow> byte list \<Rightarrow> nat \<Rightarrow> ('q \<times> nat) res) \<Rightarrow> ('q \<Rightarrow> nat \<Rightarrow> ('q \<times> byte list \<times> nat) res) \<Rightarrow>
   ('q \<Rightarrow> nat \<Rightarrow> (byte list \<times> nat) res) \<Rightarrow> 'q \<Rightarrow> queue_op list \<Rightarrow> ('q \<times> queue_out list) res" where
  "queue_run enq deq look q [] = Inr (q, [])"
| "queue_run enq deq look q (Put bs # ops) =
     rbind (enq q bs (length bs)) (\<lambda>(q1, n).
     rbind (queue_run enq deq look q1 ops) (\<lambda>(q2, outs). Inr (q2, Accepted n # outs)))"
| "queue_run enq deq look q (Get n # ops) =
     rbind (deq q n) (\<lambda>(q1, bs, m).
     rbind (queue_run enq deq look q1 ops) (\<lambda>(q2, outs). Inr (q2, Bytes bs # outs)))"
| "queue_run enq deq look q (Look n # ops) =
     rbind (look q n) (\<lambda>(bs, m).
     rbind (queue_run enq deq look q ops) (\<lambda>(q2, outs). Inr (q2, Bytes bs # outs)))"

fun fifo_run :: "nat \<Rightarrow> byte list \<Rightarrow> queue_op list \<Rightarrow> byte list \<times> queue_out list" where
  "fifo_run cap xs [] = (xs, [])"
| "fifo_run cap xs (Put bs # ops) =
     (let n = min (length bs) (cap - length xs); (ys, outs) = fifo_run cap (xs @ take n bs) ops
      in (ys, Accepted n # outs))"
| "fifo_run cap xs (Get n # ops) =
     (let (ys, outs) = fifo_run cap (drop n xs) ops in (ys, Bytes (take n xs) # outs))"
| "fifo_run cap xs (Look n # ops) =
     (let (ys, outs) = fifo_run cap xs ops in (ys, Bytes (take n xs) # outs))"

locale byte_queue =
  fixes inv :: "'q \<Rightarrow> bool"
    and contents :: "'q \<Rightarrow> byte list"
    and capacity :: "'q \<Rightarrow> nat"
    and enqueue :: "'q \<Rightarrow> byte list \<Rightarrow> nat \<Rightarrow> ('q \<times> nat) res"
    and dequeue :: "'q \<Rightarrow> nat \<Rightarrow> ('q \<times> byte list \<times> nat) res"
    and peek :: "'q \<Rightarrow> nat \<Rightarrow> (byte list \<times> nat) res"
  assumes bounded: "inv q \<Longrightarrow> length (contents q) \<le> capacity q"
    and enqueue_law: "inv q \<Longrightarrow> sz \<le> length bs \<Longrightarrow>
      \<exists>q' n. enqueue q bs sz = Inr (q', n) \<and> inv q' \<and> n = min sz (capacity q - length (contents q)) \<and>
        contents q' = contents q @ take n bs \<and> capacity q' = capacity q"
    and dequeue_law: "inv q \<Longrightarrow>
      \<exists>q'. dequeue q sz = Inr (q', take sz (contents q), min sz (length (contents q))) \<and> inv q' \<and>
        contents q' = drop sz (contents q) \<and> capacity q' = capacity q"
    and peek_law: "inv q \<Longrightarrow> peek q sz = Inr (take sz (contents q), min sz (length (contents q)))"
begin

lemma run_refines:
  "inv q \<Longrightarrow> \<exists>q'. queue_run enqueue dequeue peek q ops =
       Inr (q', snd (fifo_run (capacity q) (contents q) ops)) \<and> inv q' \<and>
     contents q' = fst (fifo_run (capacity q) (contents q) ops) \<and> capacity q' = capacity q"
proof (induction ops arbitrary: q)
  case Nil
  then show ?case by simp
next
  case (Cons op ops)
  show ?case
  proof (cases op)
    case (Put bs)
    obtain q1 n where q1: "enqueue q bs (length bs) = Inr (q1, n)" "inv q1"
      "n = min (length bs) (capacity q - length (contents q))"
      "contents q1 = contents q @ take n bs" "capacity q1 = capacity q"
      using enqueue_law [OF Cons.prems, of "length bs" bs] by auto
    from Cons.IH [OF q1(2)] show ?thesis
      using q1 Put by (auto simp: Let_def split: prod.splits)
  next
    case (Get n)
    obtain q1 where q1: "dequeue q n = Inr (q1, take n (contents q), min n (length (contents q)))"
      "inv q1" "contents q1 = drop n (contents q)" "capacity q1 = capacity q"
      using dequeue_law [OF Cons.prems, of n] by auto
    from Cons.IH [OF q1(2)] show ?thesis
      using q1 Get by (auto simp: Let_def split: prod.splits)
  next
    case (Look n)
    from Cons.IH [OF Cons.prems] show ?thesis
      using peek_law [OF Cons.prems, of n] Look by (auto simp: Let_def split: prod.splits)
  qed
qed

lemma put_get:
  assumes "inv q" and "contents q = []" and "length bs \<le> capacity q"
  shows "\<exists>q'. queue_run enqueue dequeue peek q [Put bs, Get (length bs)] =
    Inr (q', [Accepted (length bs), Bytes bs]) \<and> contents q' = []"
  using run_refines [OF assms(1), of "[Put bs, Get (length bs)]"] assms(2,3) by (auto simp: Let_def)

end

interpretation rb: byte_queue rb_inv rb_contents rb_mMaxCapacity
  RingBuffer_Enqueue RingBuffer_Dequeue RingBuffer_Peek
proof unfold_locales
  fix rb :: RingBuffer and sz and bs :: "byte list"
  assume inv: "rb_inv rb"
  show "length (rb_contents rb) \<le> rb_mMaxCapacity rb"
    using rb_inv_sizes(6) [OF inv] by simp
  show "RingBuffer_Peek rb sz = Inr (take sz (rb_contents rb), min sz (length (rb_contents rb)))"
    by (simp add: Peek_eq [OF inv])
  show "\<exists>rb'. RingBuffer_Dequeue rb sz =
      Inr (rb', take sz (rb_contents rb), min sz (length (rb_contents rb))) \<and> rb_inv rb' \<and>
      rb_contents rb' = drop sz (rb_contents rb) \<and> rb_mMaxCapacity rb' = rb_mMaxCapacity rb"
    using Dequeue_spec [OF inv] by simp
  assume "sz \<le> length bs"
  then show "\<exists>rb' n. RingBuffer_Enqueue rb bs sz = Inr (rb', n) \<and> rb_inv rb' \<and>
      n = min sz (rb_mMaxCapacity rb - length (rb_contents rb)) \<and>
      rb_contents rb' = rb_contents rb @ take n bs \<and> rb_mMaxCapacity rb' = rb_mMaxCapacity rb"
    using Enqueue_spec [OF inv] by simp
qed

subsection \<open>Properties\<close>

text \<open>
  C27. Whatever sequence of \<^verbatim>\<open>Enqueue\<close>, \<^verbatim>\<open>Dequeue\<close> and \<^verbatim>\<open>Peek\<close> calls is made on a consistent ring buffer, none of them
  touches memory outside the buffer, and the numbers and bytes they return are those of a list of bytes with the
  buffer's capacity, to which bytes are appended at the end and from which they are taken at the front.
\<close>

theorem ring_buffer_is_fifo:
  assumes "rb_inv rb"
  shows "\<exists>rb'. queue_run RingBuffer_Enqueue RingBuffer_Dequeue RingBuffer_Peek rb ops =
      Inr (rb', snd (fifo_run (rb_mMaxCapacity rb) (rb_contents rb) ops)) \<and> rb_inv rb' \<and>
    rb_contents rb' = fst (fifo_run (rb_mMaxCapacity rb) (rb_contents rb) ops) \<and> rb_mMaxCapacity rb' = rb_mMaxCapacity rb"
  by (rule rb.run_refines [OF assms])

theorem ring_buffer_is_fifo_witness:
  "\<exists>rb'. queue_run RingBuffer_Enqueue RingBuffer_Dequeue RingBuffer_Peek (RingBuffer_Init 3)
      [Put [1, 2, 3, 4], Get 2, Put [5, 6, 7], Look 9, Get 9] =
    Inr (rb', [Accepted 3, Bytes [1, 2], Accepted 2, Bytes [3, 5, 6], Bytes [3, 5, 6]])"
proof -
  have "rb_inv (RingBuffer_Init 3)" by (rule rb_inv_Init) (simp add: size_lim_def)
  moreover have "rb_mMaxCapacity (RingBuffer_Init 3) = 3" by (simp add: RingBuffer_Init_def)
  ultimately show ?thesis
    using ring_buffer_is_fifo [of "RingBuffer_Init 3" "[Put [1, 2, 3, 4], Get 2, Put [5, 6, 7], Look 9, Get 9]"] by auto
qed

end
