(* ===== verification/Net_Recv.thy ===== *)
theory Net_Recv
  imports Packet_Pool Ring_Buffer
begin

text \<open>
  The receiving half of \<^verbatim>\<open>NetCore_ThreadNetworkIO.cpp\<close>: the buffers that \<^verbatim>\<open>RecvPost\<close> hands to
  \<^verbatim>\<open>WSARecv\<close>, and \<^verbatim>\<open>NetworkRecvCompleted\<close>, which cuts the byte stream into packets, decodes them
  and gives them to the event handler. The state is what the function works on: the receive
  queue and the close flag of the session, the receive pool, the counter \<^verbatim>\<open>mRecvCountPerSec\<close>,
  and \<open>rc_world\<close> for everything else. The event handler (\<^verbatim>\<open>INetCoreEvent::OnReceived\<close>, supplied by
  the application) is the parameter \<open>h\<close>: it gets the session id, the packet (its address and its contents), the close flag (it may
  call \<^verbatim>\<open>Disconnect\<close>) and the world, and returns or throws.
\<close>

record NetHeader =
  nh_Code :: byte
  nh_Length :: u16
  nh_RandKey :: byte
  nh_CheckSum :: byte

text \<open>\<^verbatim>\<open>Peek\<close> into a packed \<^verbatim>\<open>NetHeader\<close>: the five bytes as fields.\<close>

definition as_NetHeader :: "byte list \<Rightarrow> NetHeader" where
  "as_NetHeader bs = \<lparr>nh_Code = bs ! 0, nh_Length = of_nat (le_nat [bs ! 1, bs ! 2]),
     nh_RandKey = bs ! 3, nh_CheckSum = bs ! 4\<rparr>"

record NetOption =
  no_MaxPacketBodyLength :: u32
  no_PacketCode :: byte
  no_PacketEncodeKey :: byte

datatype handler_exit = Returned | ThrewReader | ThrewOther | Faulted fault

type_synonym 'w on_received = "u64 \<Rightarrow> nat \<Rightarrow> Packet \<Rightarrow> u32 \<Rightarrow> 'w \<Rightarrow> handler_exit \<times> Packet \<times> u32 \<times> 'w"

record 'w recv_env =
  rc_RecvQueue :: RingBuffer
  rc_mIsCloseSocket :: u32
  rc_pool :: PacketPool
  rc_mRecvCountPerSec :: int
  rc_world :: 'w

text \<open>\<^verbatim>\<open>CancelationIO\<close>: the flag is set once; cancelling the pending I/O is the operating system's part.\<close>

definition CancelationIO :: "u32 \<Rightarrow> u32 \<times> bool" where
  "CancelationIO mIsCloseSocket = (if mIsCloseSocket = 0 then (1, True) else (mIsCloseSocket, False))"

definition rc_cancel :: "'w recv_env \<Rightarrow> 'w recv_env" where
  "rc_cancel e = e\<lparr>rc_mIsCloseSocket := fst (CancelationIO (rc_mIsCloseSocket e))\<rparr>"

definition rc_free :: "nat \<Rightarrow> 'w recv_env \<Rightarrow> 'w recv_env res" where
  "rc_free a e = rbind (TryFreePacket (rc_pool e) a) (\<lambda>(pool, _). Inr (e\<lparr>rc_pool := pool\<rparr>))"

text \<open>
  What happens to the packet at address \<open>a\<close> once it is decoded: a forged one is freed and the
  session closed; otherwise the handler runs and the packet is freed.
\<close>

definition handle_packet ::
    "'w on_received \<Rightarrow> u64 \<Rightarrow> nat \<Rightarrow> Packet \<Rightarrow> bool \<Rightarrow> 'w recv_env \<Rightarrow> ('w recv_env \<times> bool) res" where
  "handle_packet h sid a p isDecoded e =
     (if \<not> isDecoded then rbind (rc_free a e) (\<lambda>e. Inr (rc_cancel e, False))
      else
        (case h sid a p (rc_mIsCloseSocket e) (rc_world e) of
           (ex, p, closed, world) \<Rightarrow>
             let e = e\<lparr>rc_mIsCloseSocket := closed, rc_world := world,
                       rc_pool := (rc_pool e)\<lparr>pp_objs := (pp_objs (rc_pool e))(a \<mapsto> p)\<rparr>\<rparr> in
             (case ex of
                ThrewReader \<Rightarrow> rbind (rc_free a e) (\<lambda>e. Inr (rc_cancel e, False))
              | ThrewOther \<Rightarrow> Inl CrashDumped
              | Faulted f \<Rightarrow> Inl f
              | Returned \<Rightarrow> rbind (rc_free a e) (\<lambda>e.
                  Inr (e\<lparr>rc_mRecvCountPerSec := rc_mRecvCountPerSec e + 1\<rparr>, True)))))"

text \<open>
  The part of the loop body that completes and handles one packet: allocation, dequeueing into the
  packet's buffer, moving the write position, decoding. The result says whether the loop goes on.
\<close>

definition recv_packet ::
    "NetOption \<Rightarrow> 'w on_received \<Rightarrow> nat \<Rightarrow> (nat \<Rightarrow> byte list) \<Rightarrow> u64 \<Rightarrow> NetHeader \<Rightarrow>
     'w recv_env \<Rightarrow> ('w recv_env \<times> bool) res" where
  "recv_packet opt h t mem sid header e =
     (let len = unat (nh_Length header); desirePacketSize = NetHeaderSize + len in
      rbind (AllocPacket t mem (rc_pool e)) (\<lambda>(pool, a).
      rbind (RingBuffer_Dequeue (rc_RecvQueue e) desirePacketSize) (\<lambda>(queue, bytes, dequeuedSize).
      case pp_objs pool a of None \<Rightarrow> Inl DeadObject | Some p \<Rightarrow>
      rbind (mem_write (pk_mBuffer p) 0 bytes) (\<lambda>buf.
      if dequeuedSize \<noteq> desirePacketSize then Inl CrashDumped
      else
        let (p, movedWritePos) = MoveBodyWritePos (p\<lparr>pk_mBuffer := buf\<rparr>) len in
        if movedWritePos \<noteq> len then Inl CrashDumped
        else
          rbind (DoDecode p (no_PacketEncodeKey opt) (nh_RandKey header)) (\<lambda>(p, isDecoded).
          handle_packet h sid a p isDecoded
            (e\<lparr>rc_RecvQueue := queue, rc_pool := pool\<lparr>pp_objs := (pp_objs pool)(a \<mapsto> p)\<rparr>\<rparr>))))))"

text \<open>
  The loop. Every round takes at least the header out of the queue, so the number of queued bytes plus
  one bounds the number of rounds.
\<close>

fun recv_loop ::
    "NetOption \<Rightarrow> 'w on_received \<Rightarrow> nat \<Rightarrow> (nat \<Rightarrow> byte list) \<Rightarrow> u64 \<Rightarrow> nat \<Rightarrow>
     'w recv_env \<Rightarrow> ('w recv_env \<times> bool) res" where
  "recv_loop opt h t mem sid 0 e = Inl Spin"
| "recv_loop opt h t mem sid (Suc fuel) e =
     (let usedSize = GetUsedSize (rc_RecvQueue e) in
      if usedSize < NetHeaderSize then Inr (e, True)
      else
        rbind (RingBuffer_Peek (rc_RecvQueue e) NetHeaderSize) (\<lambda>(bytes, _).
        let header = as_NetHeader bytes in
        if nh_Code header \<noteq> no_PacketCode opt then Inr (rc_cancel e, False)
        else if unat (no_MaxPacketBodyLength opt) < unat (nh_Length header) \<or>
                NET_PACKET_BODY_CAPACITY \<le> unat (nh_Length header)
        then Inr (rc_cancel e, False)
        else if usedSize < NetHeaderSize + unat (nh_Length header) then Inr (e, True)
        else
          rbind (recv_packet opt h t mem sid header e) (\<lambda>(e, goOn).
          if goOn then recv_loop opt h t mem sid fuel e else Inr (e, False))))"

definition NetworkRecvCompleted ::
    "NetOption \<Rightarrow> 'w on_received \<Rightarrow> nat \<Rightarrow> (nat \<Rightarrow> byte list) \<Rightarrow> u64 \<Rightarrow> nat \<Rightarrow>
     'w recv_env \<Rightarrow> ('w recv_env \<times> bool) res" where
  "NetworkRecvCompleted opt h t mem sid transferred e =
     (let (queue, movedSize) = RingBuffer_MoveWrite (rc_RecvQueue e) transferred;
          e = e\<lparr>rc_RecvQueue := queue\<rparr>
      in if movedSize \<noteq> transferred then Inr (rc_cancel e, False)
         else recv_loop opt h t mem sid (Suc (rb_mUsedSize queue)) e)"

subsection \<open>Posting a receive\<close>

text \<open>
  The one or two buffers (offset and length in \<^verbatim>\<open>mBuffer\<close>) that \<^verbatim>\<open>RecvPost\<close> passes to \<^verbatim>\<open>WSARecv\<close>;
  none when the queue is full. \<^verbatim>\<open>WSARecv\<close> fills the buffers in order (\<open>scatter\<close>).
\<close>

definition recv_buffers :: "RingBuffer \<Rightarrow> (nat \<times> nat) list" where
  "recv_buffers rb =
     (let enqueableSize = GetEnquableSize rb; directSize = GetDirectEnqueueSize rb in
      if enqueableSize = 0 then []
      else if directSize = enqueableSize then [(rb_mWriteIndex rb, directSize)]
      else [(rb_mWriteIndex rb, directSize), (0, sz_sub enqueableSize directSize)])"

fun scatter :: "(nat \<times> nat) list \<Rightarrow> byte list \<Rightarrow> byte list \<Rightarrow> byte list res" where
  "scatter [] xs buf = Inr buf"
| "scatter ((off, len) # bufs) xs buf =
     rbind (mem_write buf off (take len xs)) (scatter bufs (drop len xs))"

definition kernel_fill :: "RingBuffer \<Rightarrow> byte list \<Rightarrow> RingBuffer res" where
  "kernel_fill rb xs =
     rbind (scatter (recv_buffers rb) xs (rb_mBuffer rb)) (\<lambda>buf. Inr (rb\<lparr>rb_mBuffer := buf\<rparr>))"

text \<open>
  A receive that is posted, filled with the next bytes of the stream (at most \<open>n\<close>, at most
  what the buffers hold) and completed; and the repetition of this for a list of sizes, as long as
  \<^verbatim>\<open>NetworkRecvCompleted\<close> says that receiving goes on. Whether somebody closed the session between two rounds is looked at
  by \<^verbatim>\<open>RecvPost\<close>, in the core.
\<close>

definition recv_round ::
    "NetOption \<Rightarrow> 'w on_received \<Rightarrow> nat \<Rightarrow> (nat \<Rightarrow> byte list) \<Rightarrow> u64 \<Rightarrow> byte list \<Rightarrow>
     'w recv_env \<Rightarrow> ('w recv_env \<times> bool) res" where
  "recv_round opt h t mem sid xs e =
     rbind (kernel_fill (rc_RecvQueue e) xs) (\<lambda>queue.
       NetworkRecvCompleted opt h t mem sid (length xs) (e\<lparr>rc_RecvQueue := queue\<rparr>))"

fun recv_stream ::
    "NetOption \<Rightarrow> 'w on_received \<Rightarrow> nat \<Rightarrow> (nat \<Rightarrow> byte list) \<Rightarrow> u64 \<Rightarrow> nat list \<Rightarrow> byte list \<Rightarrow>
     'w recv_env \<Rightarrow> ('w recv_env \<times> byte list \<times> bool) res" where
  "recv_stream opt h t mem sid [] stream e = Inr (e, stream, True)"
| "recv_stream opt h t mem sid (n # ns) stream e =
     (let m = min n (GetEnquableSize (rc_RecvQueue e)) in
      rbind (recv_round opt h t mem sid (take m stream) e) (\<lambda>(e, isContinueRecv).
        if isContinueRecv then recv_stream opt h t mem sid ns (drop m stream) e
        else Inr (e, drop m stream, False)))"

subsection \<open>The framing protocol, on lists of bytes\<close>

datatype frame_class =
    NeedMore
  | BadHeader
  | Overlong
  | Forged "byte list"
  | Complete "byte list" "byte list"

definition classify :: "NetOption \<Rightarrow> byte list \<Rightarrow> frame_class" where
  "classify opt bs =
     (if length bs < 5 then NeedMore
      else
        let header = as_NetHeader (take 5 bs); len = unat (nh_Length header) in
        if nh_Code header \<noteq> no_PacketCode opt \<or> unat (no_MaxPacketBodyLength opt) < len \<or> 4096 \<le> len
        then BadHeader
        else if length bs < 5 + len then NeedMore
        else if 4091 < len then Overlong
        else
          let plain = PacketDecode (no_PacketEncodeKey opt) (nh_RandKey header) (take (Suc len) (drop 4 bs));
              rest = drop (5 + len) bs
          in if hd plain = CalculateCheckSum (tl plain) then Complete (tl plain) rest else Forged rest)"

datatype verdict = GoOn | CloseIt | CrashIt

lemma classify_Complete_shorter: "classify opt bs = Complete body rest \<Longrightarrow> length rest < length bs"
  by (auto simp: classify_def Let_def split: if_splits)

function frames :: "NetOption \<Rightarrow> byte list \<Rightarrow> byte list list \<times> byte list \<times> verdict" where
  "frames opt bs =
     (case classify opt bs of
        Complete body rest \<Rightarrow> (case frames opt rest of (bodies, left, v) \<Rightarrow> (body # bodies, left, v))
      | NeedMore \<Rightarrow> ([], bs, GoOn)
      | BadHeader \<Rightarrow> ([], bs, CloseIt)
      | Forged rest \<Rightarrow> ([], rest, CloseIt)
      | Overlong \<Rightarrow> ([], bs, CrashIt))"
  by pat_completeness auto

termination frames
  by (relation "measure (length \<circ> snd)") (auto dest: classify_Complete_shorter)

declare frames.simps [simp del]

lemma length_PacketDecode: "length (PacketDecode k r bs) = length bs"
  by (rule codec.length_dec)

subsection \<open>One packet\<close>

text \<open>
  What the proofs need of the handler: on a decoded packet it returns, leaves the packet well formed
  and with the reference that the loop still holds, and changes the world by \<open>upd\<close> of the body.
\<close>

definition handler_ok :: "'w on_received \<Rightarrow> (u64 \<Rightarrow> byte list \<Rightarrow> 'w \<Rightarrow> 'w) \<Rightarrow> bool" where
  "handler_ok h upd \<longleftrightarrow>
     (\<forall>sid a p closed w. net_packet p \<and> pk_unread p = pk_body p \<and> pk_mRefCount p = 1 \<longrightarrow>
        (\<exists>p' closed'. h sid a p closed w = (Returned, p', closed', upd sid (pk_body p) w) \<and>
           net_packet p' \<and> 1 \<le> pk_mRefCount p'))"

definition env_ok :: "'w recv_env \<Rightarrow> bool" where
  "env_ok e \<longleftrightarrow> rb_inv (rc_RecvQueue e) \<and> pp_inv (rc_pool e)"

lemma rc_free_ok:
  assumes "pp_inv (rc_pool e)" "pp_objs (rc_pool e) a = Some p"
  obtains pool where "rc_free a e = Inr (e\<lparr>rc_pool := pool\<rparr>)" "pp_inv pool"
proof -
  have "0 < pp_refs (rc_pool e) a" using assms by (auto simp: pp_refs_pos)
  from TryFreePacket_ok [OF assms(1) this] show ?thesis
    using that by (force simp: rc_free_def)
qed

text \<open>The received bytes in a fresh packet, after the write position was moved.\<close>

lemma packet_filled:
  assumes p: "net_packet p" "pk_mWritePos p = 5" "pk_mReadPos p = 5"
    and bs: "length bs = 5 + len" "len \<le> 4091"
  shows "mem_write (pk_mBuffer p) 0 bs = Inr (bs @ drop (5 + len) (pk_mBuffer p))"
    and "MoveBodyWritePos (p\<lparr>pk_mBuffer := bs @ drop (5 + len) (pk_mBuffer p)\<rparr>) len =
      (p\<lparr>pk_mBuffer := bs @ drop (5 + len) (pk_mBuffer p), pk_mWritePos := 5 + len\<rparr>, len)"
    and "net_packet (p\<lparr>pk_mBuffer := bs @ drop (5 + len) (pk_mBuffer p), pk_mWritePos := 5 + len\<rparr>)"
    and "pk_wire (p\<lparr>pk_mBuffer := bs @ drop (5 + len) (pk_mBuffer p), pk_mWritePos := 5 + len\<rparr>) = bs"
proof -
  have i: "pk_inv p" "pk_tHeaderSize p = 5" "pk_tBodyCapacity p = 4096" "length (pk_mBuffer p) = 4101"
    "pk_mBodyEnd p = 4096"
    using p by (auto simp: net_packet_def pk_inv_def)
  show "mem_write (pk_mBuffer p) 0 bs = Inr (bs @ drop (5 + len) (pk_mBuffer p))"
    using i bs by (simp add: mem_write_def)
  show "MoveBodyWritePos (p\<lparr>pk_mBuffer := bs @ drop (5 + len) (pk_mBuffer p)\<rparr>) len =
      (p\<lparr>pk_mBuffer := bs @ drop (5 + len) (pk_mBuffer p), pk_mWritePos := 5 + len\<rparr>, len)"
    using i bs p by (simp add: MoveBodyWritePos_def size_simps size_lim_def)
  show n: "net_packet (p\<lparr>pk_mBuffer := bs @ drop (5 + len) (pk_mBuffer p), pk_mWritePos := 5 + len\<rparr>)"
    using i bs p by (auto simp: net_packet_def pk_inv_def)
  show "pk_wire (p\<lparr>pk_mBuffer := bs @ drop (5 + len) (pk_mBuffer p), pk_mWritePos := 5 + len\<rparr>) = bs"
    using n pk_inv_sizes(2) [of "p\<lparr>pk_mBuffer := bs @ drop (5 + len) (pk_mBuffer p), pk_mWritePos := 5 + len\<rparr>"]
      bs by (simp add: pk_wire_def net_packet_def)
qed

lemma packet_overlong:
  assumes p: "net_packet p" "pk_mWritePos p = 5"
    and bs: "length bs = 5 + len" "4091 < len" "len < 4096"
  shows "mem_write (pk_mBuffer p) 0 bs = Inr (bs @ drop (5 + len) (pk_mBuffer p))"
    and "snd (MoveBodyWritePos (p\<lparr>pk_mBuffer := bs @ drop (5 + len) (pk_mBuffer p)\<rparr>) len) \<noteq> len"
  using assms by (auto simp: net_packet_def pk_inv_def mem_write_def MoveBodyWritePos_def size_simps size_lim_def)

lemma recv_packet_prefix:
  assumes ok: "env_ok e" and mem: "mem_ok mem"
    and bs: "5 + unat (nh_Length header) \<le> length (rb_contents (rc_RecvQueue e))"
    and len: "unat (nh_Length header) \<le> 4091"
    and plain: "PacketDecode (no_PacketEncodeKey opt) (nh_RandKey header)
      (drop 4 (take (5 + unat (nh_Length header)) (rb_contents (rc_RecvQueue e)))) = cs # body"
  shows "\<exists>queue pool a p. rb_inv queue \<and> rb_mMaxCapacity queue = rb_mMaxCapacity (rc_RecvQueue e) \<and>
    rb_contents queue = drop (5 + unat (nh_Length header)) (rb_contents (rc_RecvQueue e)) \<and>
    pp_inv pool \<and> a \<in> dom (pp_objs pool) \<and> pp_objs (rc_pool e) a = None \<and>
    (pp_objs pool)(a \<mapsto> p) = (pp_objs (rc_pool e))(a \<mapsto> p) \<and>
    net_packet p \<and> pk_unread p = pk_body p \<and> pk_body p = body \<and> pk_mRefCount p = 1 \<and>
    recv_packet opt h t mem sid header e =
      handle_packet h sid a p (cs = CalculateCheckSum body)
        (e\<lparr>rc_RecvQueue := queue, rc_pool := pool\<lparr>pp_objs := (pp_objs pool)(a \<mapsto> p)\<rparr>\<rparr>)"
proof -
  define n where "n = unat (nh_Length header)"
  let ?q = "rc_RecvQueue e" let ?bs = "take (5 + n) (rb_contents ?q)"
  obtain pool a where al: "AllocPacket t mem (rc_pool e) = Inr (pool, a)" "pp_inv pool"
    "pp_objs pool = (pp_objs (rc_pool e))(a \<mapsto> (Packet_Initial 5 4096 (mem a))\<lparr>pk_mRefCount := 1\<rparr>)"
    "pp_objs (rc_pool e) a = None"
    using AllocPacket_ok [OF _ mem] ok unfolding env_ok_def by metis
  have upd: "(pp_objs pool)(a \<mapsto> q) = (pp_objs (rc_pool e))(a \<mapsto> q)" for q using al(3) by simp
  obtain queue where q: "RingBuffer_Dequeue ?q (5 + n) = Inr (queue, ?bs, 5 + n)" "rb_inv queue"
    "rb_contents queue = drop (5 + n) (rb_contents ?q)" "rb_mMaxCapacity queue = rb_mMaxCapacity ?q"
    using Dequeue_spec [of ?q "5 + n"] ok bs by (auto simp: env_ok_def n_def min_absorb1)
  define p where "p = (Packet_Initial 5 4096 (mem a))\<lparr>pk_mRefCount := 1\<rparr>"
  have pa: "pp_objs pool a = Some p" using al(3) by (simp add: p_def)
  then have "net_packet p" using al(2) by (simp add: pp_inv_def)
  with pa have p: "pp_objs pool a = Some p" "net_packet p" "pk_mWritePos p = 5" "pk_mReadPos p = 5" "pk_mRefCount p = 1"
    by (auto simp: p_def Packet_Initial_def)
  have lbs: "length ?bs = 5 + n" using bs by (simp add: n_def)
  note f = packet_filled [OF p(2-4) lbs len [folded n_def]]
  define p1 where "p1 = p\<lparr>pk_mBuffer := ?bs @ drop (5 + n) (pk_mBuffer p), pk_mWritePos := 5 + n\<rparr>"
  note f' = f [folded p1_def]
  obtain p2 where p2: "DoDecode p1 (no_PacketEncodeKey opt) (nh_RandKey header) =
      Inr (p2, cs = CalculateCheckSum body)" "pk_inv p2" "pk_body p2 = body" "p2 = p1\<lparr>pk_mBuffer := pk_mBuffer p2\<rparr>"
    using DoDecode_spec [of p1] f'(3,4) plain [folded n_def] unfolding net_packet_def by (metis f'(4))
  have s: "pk_tHeaderSize p2 = 5" "pk_tBodyCapacity p2 = 4096" "pk_mReadPos p2 = 5" "pk_mRefCount p2 = 1"
    using arg_cong [OF p2(4), of pk_tHeaderSize] arg_cong [OF p2(4), of pk_tBodyCapacity]
      arg_cong [OF p2(4), of pk_mReadPos] arg_cong [OF p2(4), of pk_mRefCount] p f'(3)
    by (auto simp: p1_def net_packet_def)
  have "pk_unread p2 = pk_body p2" by (rule pk_unread_fresh) (simp add: s)
  moreover have "net_packet p2" using p2(2) s by (simp add: net_packet_def)
  moreover have "recv_packet opt h t mem sid header e =
      handle_packet h sid a p2 (cs = CalculateCheckSum body)
        (e\<lparr>rc_RecvQueue := queue, rc_pool := pool\<lparr>pp_objs := (pp_objs pool)(a \<mapsto> p2)\<rparr>\<rparr>)"
    using q(1) al(1) pa f'(1,2) p2(1) by (simp add: recv_packet_def n_def [symmetric] NetHeaderSize_def Let_def)
  ultimately show ?thesis
    using q(2-4) al(2,4) upd pa s(4) p2(3) unfolding n_def [symmetric]
    by (intro exI [of _ queue] exI [of _ pool] exI [of _ a] exI [of _ p2]) auto
qed

lemma PacketDecode_Cons:
  "0 < length bs \<Longrightarrow> PacketDecode k r bs = hd (PacketDecode k r bs) # tl (PacketDecode k r bs)"
  by (metis length_PacketDecode length_greater_0_conv list.collapse)

text \<open>A complete frame with a good checksum reaches the handler and the loop goes on.\<close>

lemma recv_packet_Complete:
  assumes ok: "env_ok e" and mem: "mem_ok mem" and h: "handler_ok h upd"
    and c: "classify opt (rb_contents (rc_RecvQueue e)) = Complete body rest"
  shows "\<exists>e'. recv_packet opt h t mem sid (as_NetHeader (take 5 (rb_contents (rc_RecvQueue e)))) e = Inr (e', True) \<and>
    env_ok e' \<and> rb_contents (rc_RecvQueue e') = rest \<and> rc_world e' = upd sid body (rc_world e) \<and>
    rc_mRecvCountPerSec e' = rc_mRecvCountPerSec e + 1 \<and>
    rb_mMaxCapacity (rc_RecvQueue e') = rb_mMaxCapacity (rc_RecvQueue e)"
proof -
  let ?bs = "rb_contents (rc_RecvQueue e)" let ?hd = "as_NetHeader (take 5 ?bs)"
  define n where "n = unat (nh_Length ?hd)"
  define plain where "plain = PacketDecode (no_PacketEncodeKey opt) (nh_RandKey ?hd) (take (Suc n) (drop 4 ?bs))"
  have bs: "5 + n \<le> length ?bs" "n \<le> 4091" "hd plain = CalculateCheckSum (tl plain)" "body = tl plain"
    "rest = drop (5 + n) ?bs"
    using c by (auto simp: classify_def Let_def n_def [symmetric] plain_def [symmetric] split: if_splits)
  have "drop 4 (take (5 + n) ?bs) = take (Suc n) (drop 4 ?bs)" by (simp add: drop_take)
  moreover have "0 < length (take (Suc n) (drop 4 ?bs))" using bs(1) by simp
  from PacketDecode_Cons [OF this] have "plain = hd plain # tl plain" unfolding plain_def .
  ultimately have "PacketDecode (no_PacketEncodeKey opt) (nh_RandKey ?hd) (drop 4 (take (5 + n) ?bs)) =
      CalculateCheckSum body # body"
    using bs(3,4) by (simp add: plain_def)
  from recv_packet_prefix [OF ok mem bs(1,2) [unfolded n_def] this [unfolded n_def], of h t sid]
  obtain queue pool a p where r: "rb_inv queue" "rb_mMaxCapacity queue = rb_mMaxCapacity (rc_RecvQueue e)"
    "rb_contents queue = rest" "pp_inv pool" "a \<in> dom (pp_objs pool)"
    "net_packet p" "pk_unread p = pk_body p" "pk_body p = body" "pk_mRefCount p = 1"
    "recv_packet opt h t mem sid ?hd e = handle_packet h sid a p True
        (e\<lparr>rc_RecvQueue := queue, rc_pool := pool\<lparr>pp_objs := (pp_objs pool)(a \<mapsto> p)\<rparr>\<rparr>)"
    unfolding n_def [symmetric] bs(5) simp_thms by blast
  obtain p' closed' where hr: "h sid a p (rc_mIsCloseSocket e) (rc_world e) = (Returned, p', closed', upd sid body (rc_world e))"
    "net_packet p'" "1 \<le> pk_mRefCount p'"
    using h r(6-9) unfolding handler_ok_def by metis
  let ?e = "e\<lparr>rc_RecvQueue := queue, rc_mIsCloseSocket := closed', rc_world := upd sid body (rc_world e),
    rc_pool := pool\<lparr>pp_objs := (pp_objs pool)(a \<mapsto> p')\<rparr>\<rparr>"
  have "pp_inv (rc_pool ?e)" using pp_inv_upd [OF r(4,5) hr(2,3)] by simp
  from rc_free_ok [OF this, of a p'] obtain pool' where
    fr: "rc_free a ?e = Inr (?e\<lparr>rc_pool := pool'\<rparr>)" "pp_inv pool'" by auto
  have "recv_packet opt h t mem sid ?hd e =
      Inr (?e\<lparr>rc_pool := pool', rc_mRecvCountPerSec := rc_mRecvCountPerSec e + 1\<rparr>, True)"
    using r(10) hr(1) fr(1) by (simp add: handle_packet_def Let_def)
  then show ?thesis using r fr(2) by (auto simp: env_ok_def)
qed

lemma recv_packet_Forged:
  assumes ok: "env_ok e" and mem: "mem_ok mem"
    and c: "classify opt (rb_contents (rc_RecvQueue e)) = Forged rest"
  shows "\<exists>e'. recv_packet opt h t mem sid (as_NetHeader (take 5 (rb_contents (rc_RecvQueue e)))) e = Inr (e', False) \<and>
    env_ok e' \<and> rb_contents (rc_RecvQueue e') = rest \<and> rc_world e' = rc_world e \<and>
    rc_mRecvCountPerSec e' = rc_mRecvCountPerSec e \<and> rc_mIsCloseSocket e' \<noteq> 0 \<and>
    rb_mMaxCapacity (rc_RecvQueue e') = rb_mMaxCapacity (rc_RecvQueue e)"
proof -
  let ?bs = "rb_contents (rc_RecvQueue e)" let ?hd = "as_NetHeader (take 5 ?bs)"
  define n where "n = unat (nh_Length ?hd)"
  define plain where "plain = PacketDecode (no_PacketEncodeKey opt) (nh_RandKey ?hd) (take (Suc n) (drop 4 ?bs))"
  have bs: "5 + n \<le> length ?bs" "n \<le> 4091" "hd plain \<noteq> CalculateCheckSum (tl plain)" "rest = drop (5 + n) ?bs"
    using c by (auto simp: classify_def Let_def n_def [symmetric] plain_def [symmetric] split: if_splits)
  have "drop 4 (take (5 + n) ?bs) = take (Suc n) (drop 4 ?bs)" by (simp add: drop_take)
  moreover have "0 < length (take (Suc n) (drop 4 ?bs))" using bs(1) by simp
  from PacketDecode_Cons [OF this] have "plain = hd plain # tl plain" unfolding plain_def .
  ultimately have "PacketDecode (no_PacketEncodeKey opt) (nh_RandKey ?hd) (drop 4 (take (5 + n) ?bs)) =
      hd plain # tl plain"
    by (simp add: plain_def)
  from recv_packet_prefix [OF ok mem bs(1,2) [unfolded n_def] this [unfolded n_def], of h t sid]
  obtain queue pool a p where r: "rb_inv queue" "rb_mMaxCapacity queue = rb_mMaxCapacity (rc_RecvQueue e)"
    "rb_contents queue = rest" "pp_inv pool" "a \<in> dom (pp_objs pool)" "net_packet p" "pk_mRefCount p = 1"
    "recv_packet opt h t mem sid ?hd e = handle_packet h sid a p (hd plain = CalculateCheckSum (tl plain))
        (e\<lparr>rc_RecvQueue := queue, rc_pool := pool\<lparr>pp_objs := (pp_objs pool)(a \<mapsto> p)\<rparr>\<rparr>)"
    unfolding n_def [symmetric] bs(4) by blast
  let ?e = "e\<lparr>rc_RecvQueue := queue, rc_pool := pool\<lparr>pp_objs := (pp_objs pool)(a \<mapsto> p)\<rparr>\<rparr>"
  have "pp_inv (rc_pool ?e)" using pp_inv_upd [OF r(4,5,6)] r(7) by simp
  from rc_free_ok [OF this, of a p] obtain pool' where
    fr: "rc_free a ?e = Inr (?e\<lparr>rc_pool := pool'\<rparr>)" "pp_inv pool'" by auto
  then show ?thesis using r bs(3) by (auto simp: handle_packet_def env_ok_def rc_cancel_def CancelationIO_def)
qed

lemma recv_packet_Overlong:
  assumes ok: "env_ok e" and mem: "mem_ok mem"
    and c: "classify opt (rb_contents (rc_RecvQueue e)) = Overlong"
  shows "recv_packet opt h t mem sid (as_NetHeader (take 5 (rb_contents (rc_RecvQueue e)))) e = Inl CrashDumped"
proof -
  let ?q = "rc_RecvQueue e" let ?bs = "rb_contents ?q" let ?hd = "as_NetHeader (take 5 ?bs)"
  define n where "n = unat (nh_Length ?hd)"
  have bs: "5 + n \<le> length ?bs" "4091 < n" "n < 4096"
    using c by (auto simp: classify_def Let_def n_def [symmetric] split: if_splits)
  obtain pool a where al: "AllocPacket t mem (rc_pool e) = Inr (pool, a)" "pp_inv pool"
    "pp_objs pool = (pp_objs (rc_pool e))(a \<mapsto> (Packet_Initial 5 4096 (mem a))\<lparr>pk_mRefCount := 1\<rparr>)"
    using AllocPacket_ok [OF _ mem] ok unfolding env_ok_def by metis
  obtain queue where q: "RingBuffer_Dequeue ?q (5 + n) = Inr (queue, take (5 + n) ?bs, 5 + n)"
    using Dequeue_spec [of ?q "5 + n"] ok bs by (auto simp: env_ok_def n_def min_absorb1)
  define p where "p = (Packet_Initial 5 4096 (mem a))\<lparr>pk_mRefCount := 1\<rparr>"
  have pa: "pp_objs pool a = Some p" using al(3) by (simp add: p_def)
  then have "net_packet p" using al(2) by (simp add: pp_inv_def)
  moreover have "pk_mWritePos p = 5" by (simp add: p_def Packet_Initial_def)
  moreover have "length (take (5 + n) ?bs) = 5 + n" using bs(1) by simp
  ultimately show ?thesis
    using packet_overlong [of p "take (5 + n) ?bs" n] bs al(1) q pa
    by (auto simp: recv_packet_def n_def [symmetric] NetHeaderSize_def Let_def split: prod.splits)
qed

subsection \<open>The loop implements the protocol\<close>

lemma recv_loop_dispatch:
  assumes ok: "env_ok e"
  shows "recv_loop opt h t mem sid (Suc fuel) e =
    (let bs = rb_contents (rc_RecvQueue e) in
     case classify opt bs of
       NeedMore \<Rightarrow> Inr (e, True)
     | BadHeader \<Rightarrow> Inr (rc_cancel e, False)
     | _ \<Rightarrow> rbind (recv_packet opt h t mem sid (as_NetHeader (take 5 bs)) e) (\<lambda>(e, goOn).
              if goOn then recv_loop opt h t mem sid fuel e else Inr (e, False)))"
proof -
  have inv: "rb_inv (rc_RecvQueue e)" using ok by (simp add: env_ok_def)
  show ?thesis
    using Peek_eq [OF inv, of 5]
    by (auto simp: classify_def Let_def GetUsedSize_def NetHeaderSize_def NET_PACKET_BODY_CAPACITY_def)
qed

lemma recv_loop_ok:
  assumes "env_ok e" and mem: "mem_ok mem" and h: "handler_ok h upd"
    and "frames opt (rb_contents (rc_RecvQueue e)) = (bodies, left, v)" "v \<noteq> CrashIt"
    and "rb_mUsedSize (rc_RecvQueue e) < fuel"
  shows "\<exists>e'. recv_loop opt h t mem sid fuel e = Inr (e', v = GoOn) \<and> env_ok e' \<and>
    rb_contents (rc_RecvQueue e') = left \<and> rc_world e' = fold (upd sid) bodies (rc_world e) \<and>
    rc_mRecvCountPerSec e' = rc_mRecvCountPerSec e + int (length bodies) \<and>
    rb_mMaxCapacity (rc_RecvQueue e') = rb_mMaxCapacity (rc_RecvQueue e) \<and>
    (v = CloseIt \<longrightarrow> rc_mIsCloseSocket e' \<noteq> 0)"
  using assms(1,4-6)
proof (induction fuel arbitrary: e bodies)
  case 0
  then show ?case by simp
next
  case (Suc fuel)
  let ?bs = "rb_contents (rc_RecvQueue e)"
  note d = recv_loop_dispatch [OF Suc.prems(1), of opt h t mem sid fuel]
  show ?case
  proof (cases "classify opt ?bs")
    case NeedMore
    then show ?thesis using d Suc.prems by (auto simp: frames.simps [of opt ?bs])
  next
    case BadHeader
    then show ?thesis
      using d Suc.prems
      by (auto simp: frames.simps [of opt ?bs] env_ok_def rc_cancel_def CancelationIO_def)
  next
    case Overlong
    then show ?thesis using Suc.prems by (simp add: frames.simps [of opt ?bs])
  next
    case (Forged rest)
    then show ?thesis
      using d Suc.prems recv_packet_Forged [OF Suc.prems(1) mem Forged, of h t sid]
      by (auto simp: frames.simps [of opt ?bs])
  next
    case (Complete body rest)
    obtain bodies' where b: "frames opt rest = (bodies', left, v)" "bodies = body # bodies'"
      using Suc.prems(2) Complete by (auto simp: frames.simps [of opt ?bs] split: prod.splits)
    obtain e1 where e1: "recv_packet opt h t mem sid (as_NetHeader (take 5 ?bs)) e = Inr (e1, True)"
      "env_ok e1" "rb_contents (rc_RecvQueue e1) = rest" "rc_world e1 = upd sid body (rc_world e)"
      "rc_mRecvCountPerSec e1 = rc_mRecvCountPerSec e + 1"
      "rb_mMaxCapacity (rc_RecvQueue e1) = rb_mMaxCapacity (rc_RecvQueue e)"
      using recv_packet_Complete [OF Suc.prems(1) mem h Complete, of t sid] by blast
    have "length rest < length ?bs" by (rule classify_Complete_shorter [OF Complete])
    then have "rb_mUsedSize (rc_RecvQueue e1) < fuel"
      using Suc.prems(4) e1(3) length_rb_contents [of "rc_RecvQueue e1"] by simp
    from Suc.IH [OF e1(2) _ Suc.prems(3) this, of bodies'] e1 b
    show ?thesis using d Complete by auto
  qed
qed

lemma recv_loop_crash:
  assumes "env_ok e" and mem: "mem_ok mem" and h: "handler_ok h upd"
    and "frames opt (rb_contents (rc_RecvQueue e)) = (bodies, left, CrashIt)"
    and "rb_mUsedSize (rc_RecvQueue e) < fuel"
  shows "recv_loop opt h t mem sid fuel e = Inl CrashDumped"
  using assms(1,4-5)
proof (induction fuel arbitrary: e bodies)
  case 0
  then show ?case by simp
next
  case (Suc fuel)
  let ?bs = "rb_contents (rc_RecvQueue e)"
  note d = recv_loop_dispatch [OF Suc.prems(1), of opt h t mem sid fuel]
  from Suc.prems(2) consider "classify opt ?bs = Overlong" | body rest bodies' where
      "classify opt ?bs = Complete body rest" "frames opt rest = (bodies', left, CrashIt)"
    by (auto simp: frames.simps [of opt ?bs] split: frame_class.splits prod.splits)
  then show ?case
  proof cases
    case 1
    then show ?thesis using d recv_packet_Overlong [OF Suc.prems(1) mem 1, of h t sid] by simp
  next
    case (2 body rest bodies')
    obtain e1 where e1: "recv_packet opt h t mem sid (as_NetHeader (take 5 ?bs)) e = Inr (e1, True)"
      "env_ok e1" "rb_contents (rc_RecvQueue e1) = rest"
      using recv_packet_Complete [OF Suc.prems(1) mem h 2(1), of t sid] by blast
    have "length rest < length ?bs" by (rule classify_Complete_shorter [OF 2(1)])
    then have "rb_mUsedSize (rc_RecvQueue e1) < fuel"
      using Suc.prems(3) e1(3) length_rb_contents [of "rc_RecvQueue e1"] by simp
    from Suc.IH [OF e1(2) _ this, of bodies'] e1 2 show ?thesis using d by auto
  qed
qed

subsection \<open>Splitting the stream\<close>

lemma as_NetHeader_append: "5 \<le> length bs \<Longrightarrow> as_NetHeader (take 5 (bs @ ys)) = as_NetHeader (take 5 bs)"
  by simp

lemma classify_append_Complete:
  assumes "classify opt bs = Complete body rest"
  shows "classify opt (bs @ ys) = Complete body (rest @ ys)"
proof -
  define n where "n = unat (nh_Length (as_NetHeader (take 5 bs)))"
  have n: "5 + n \<le> length bs"
    using assms by (auto simp: classify_def Let_def n_def split: if_splits)
  then have "take (Suc n) (drop 4 (bs @ ys)) = take (Suc n) (drop 4 bs)" "5 \<le> length bs" by auto
  then show ?thesis
    using assms n as_NetHeader_append [of bs ys]
    by (auto simp: classify_def Let_def n_def [symmetric] simp del: take_append drop_append split: if_splits)
      (simp_all add: drop_append)
qed

text \<open>However the stream is cut, the bodies that come out are the same.\<close>

lemma frames_append:
  assumes "frames opt bs = (bodies, left, GoOn)"
  shows "frames opt (bs @ ys) = (case frames opt (left @ ys) of (others, left', v) \<Rightarrow> (bodies @ others, left', v))"
  using assms
proof (induction opt bs arbitrary: bodies rule: frames.induct)
  case (1 opt bs)
  show ?case
  proof (cases "classify opt bs")
    case (Complete body rest)
    obtain bodies' where b: "frames opt rest = (bodies', left, GoOn)" "bodies = body # bodies'"
      using 1(2) Complete by (auto simp: frames.simps [of opt bs] split: prod.splits)
    show ?thesis
      using 1(1) [OF Complete b(1)] classify_append_Complete [OF Complete, of ys] b(2)
      by (auto simp: frames.simps [of opt "bs @ ys"] split: prod.splits)
  qed (use 1(2) in \<open>auto simp: frames.simps [of opt bs] split: prod.splits\<close>)
qed

definition fits :: "NetOption \<Rightarrow> byte list \<Rightarrow> bool" where
  "fits opt body \<longleftrightarrow> length body \<le> 4091 \<and> length body \<le> unat (no_MaxPacketBodyLength opt)"

lemma as_NetHeader_net_frame:
  assumes "length body < 65536"
  shows "as_NetHeader (take 5 (net_frame code key rk body @ ys)) =
    \<lparr>nh_Code = code, nh_Length = of_nat (length body), nh_RandKey = rk,
     nh_CheckSum = net_frame code key rk body ! 4\<rparr>"
proof -
  have "le_nat (le_bytes 2 (length body)) = length body" using assms by (intro le_nat_le_bytes_id) simp
  then have "le_nat [of_nat (length body), of_nat (length body div 256)] = length body" by (simp add: le_bytes_2)
  moreover obtain e es where "PacketEncode key rk (CalculateCheckSum body # body) = e # es"
    using codec.length_enc [of key rk "CalculateCheckSum body # body"]
    by (cases "PacketEncode key rk (CalculateCheckSum body # body)") auto
  ultimately show ?thesis
    by (simp add: as_NetHeader_def net_frame_def le_bytes_2 del: le_nat.simps)
qed

lemma classify_net_frame:
  assumes "fits opt body"
  shows "classify opt (net_frame (no_PacketCode opt) (no_PacketEncodeKey opt) rk body @ ys) = Complete body ys"
proof -
  let ?f = "net_frame (no_PacketCode opt) (no_PacketEncodeKey opt) rk body"
  have l: "length body \<le> 4091" "length body \<le> unat (no_MaxPacketBodyLength opt)"
    using assms by (auto simp: fits_def)
  have u: "unat (of_nat (length body) :: u16) = length body" using l(1) by (simp add: unat_of_nat)
  have hd: "as_NetHeader (take 5 (?f @ ys)) = \<lparr>nh_Code = no_PacketCode opt, nh_Length = of_nat (length body),
      nh_RandKey = rk, nh_CheckSum = ?f ! 4\<rparr>"
    using l by (intro as_NetHeader_net_frame) simp
  have "take (Suc (length body)) (drop 4 (?f @ ys)) =
      PacketEncode (no_PacketEncodeKey opt) rk (CalculateCheckSum body # body)"
    by (simp add: net_frame_def le_bytes_2 codec.length_enc)
  then show ?thesis
    using l unfolding classify_def Let_def hd
    by (simp add: u codec.dec_enc del: take_append drop_append) (simp add: drop_append)
qed

lemma frames_net_frames:
  assumes "\<forall>(rk, body) \<in> set msgs. fits opt body"
  shows "frames opt (concat (map (\<lambda>(rk, body). net_frame (no_PacketCode opt) (no_PacketEncodeKey opt) rk body) msgs) @ ys) =
    (case frames opt ys of (others, left, v) \<Rightarrow> (map snd msgs @ others, left, v))"
  using assms
proof (induction msgs)
  case Nil
  then show ?case by (simp split: prod.splits)
next
  case (Cons m msgs)
  obtain rk body where m: "m = (rk, body)" by force
  have "fits opt body" using Cons.prems m by auto
  from classify_net_frame [OF this, of rk] Cons m show ?case
    by (subst frames.simps) (auto split: prod.splits)
qed

text \<open>What is left over after a call that goes on is less than one packet.\<close>

lemma frames_left:
  assumes "frames opt bs = (bodies, left, GoOn)"
  shows "classify opt left = NeedMore"
  using assms
proof (induction opt bs arbitrary: bodies rule: frames.induct)
  case (1 opt bs)
  show ?case
  proof (cases "classify opt bs")
    case (Complete body rest)
    then show ?thesis using 1(1) [OF Complete] 1(2) by (auto simp: frames.simps [of opt bs] split: prod.splits)
  qed (use 1(2) in \<open>auto simp: frames.simps [of opt bs]\<close>)
qed

lemma classify_NeedMore_length: "classify opt bs = NeedMore \<Longrightarrow> length bs < 4101"
  by (auto simp: classify_def Let_def split: if_splits)

lemma classify_append_bad:
  assumes "classify opt bs = BadHeader \<or> classify opt bs = Overlong \<or> (\<exists>r. classify opt bs = Forged r)"
  shows "classify opt (bs @ ys) = BadHeader \<or> classify opt (bs @ ys) = Overlong \<or>
    (\<exists>r. classify opt (bs @ ys) = Forged r)"
proof -
  define n where "n = unat (nh_Length (as_NetHeader (take 5 bs)))"
  have 5: "5 \<le> length bs" using assms by (auto simp: classify_def Let_def split: if_splits)
  have t: "take (Suc n) (drop 4 (bs @ ys)) = take (Suc n) (drop 4 bs)" if "5 + n \<le> length bs"
    using that by auto
  show ?thesis
    using assms t 5 as_NetHeader_append [OF 5, of ys]
    by (auto simp: classify_def Let_def n_def [symmetric] simp del: take_append drop_append split: if_splits)
qed

text \<open>A stream that is all right has only prefixes that are all right.\<close>

lemma frames_prefix:
  assumes "frames opt (bs @ ys) = (bodies, left, GoOn)"
  shows "\<exists>bodies1 left1. frames opt bs = (bodies1, left1, GoOn)"
  using assms
proof (induction opt bs arbitrary: bodies rule: frames.induct)
  case (1 opt bs)
  have "\<not> (classify opt (bs @ ys) = BadHeader \<or> classify opt (bs @ ys) = Overlong \<or>
      (\<exists>r. classify opt (bs @ ys) = Forged r))"
    using 1(2) by (auto simp: frames.simps [of opt "bs @ ys"])
  then have no: "\<not> (classify opt bs = BadHeader \<or> classify opt bs = Overlong \<or> (\<exists>r. classify opt bs = Forged r))"
    using classify_append_bad by blast
  show ?case
  proof (cases "classify opt bs")
    case (Complete body rest)
    obtain bodies' where "frames opt (rest @ ys) = (bodies', left, GoOn)"
      using 1(2) classify_append_Complete [OF Complete, of ys]
      by (auto simp: frames.simps [of opt "bs @ ys"] split: prod.splits)
    from 1(1) [OF Complete this] show ?thesis using Complete by (auto simp: frames.simps [of opt bs])
  qed (use no in \<open>auto simp: frames.simps [of opt bs]\<close>)
qed

subsection \<open>Posting and completing receives\<close>

lemma scatter_eq:
  assumes inv: "rb_inv rb" and xs: "length xs \<le> rb_mMaxCapacity rb - rb_mUsedSize rb"
  shows "scatter (recv_buffers rb) xs (rb_mBuffer rb) =
    Inr (ring_fill (rb_mBuffer rb) (rb_mMaxCapacity rb) (rb_mWriteIndex rb) xs)"
proof -
  let ?c = "rb_mMaxCapacity rb" let ?w = "rb_mWriteIndex rb" let ?r = "rb_mReadIndex rb" let ?u = "rb_mUsedSize rb"
  note s = rb_inv_sizes [OF inv]
  note e = GetEnquableSize_eq [OF inv]
  have w: "?w = wrap ?c (?r + ?u)" "?r < ?c \<or> ?c = 0" using inv by (auto simp: rb_inv_def)
  have lim: "?c + 1 < size_lim" using inv by (simp add: rb_inv_def)
  have b: "length (rb_mBuffer rb) = ?c + 1" using inv by (simp add: rb_inv_def)
  show ?thesis
  proof (cases "?c - ?u = 0")
    case True
    then show ?thesis using xs s(4,6) b by (simp add: recv_buffers_def e ring_fill_def)
  next
    case False
    define d where "d = GetDirectEnqueueSize rb"
    have d: "d = (if ?r \<le> ?w then ?c - ?w else ?r - ?w)"
      using False s lim by (auto simp: d_def GetDirectEnqueueSize_def e sz_sub_eq)
    show ?thesis
    proof (cases "d = ?c - ?u")
      case True
      have "?w + length xs \<le> ?c" using True xs d w False by (auto simp: wrap_def split: if_splits)
      then show ?thesis
        using True False xs b by (simp add: recv_buffers_def e d_def [symmetric] mem_write_def ring_fill_def Let_def)
    next
      case nd: False
      have d': "d = ?c - ?w" "?w < ?c" "d \<le> ?c - ?u"
        using nd d w s(4,6) False by (auto simp: wrap_def split: if_splits)
      have sub: "sz_sub (?c - ?u) d = ?c - ?u - d" using d' lim by (intro sz_sub_eq) auto
      have bufs: "recv_buffers rb = [(?w, d), (0, ?c - ?u - d)]"
        using nd False by (simp add: recv_buffers_def e d_def [symmetric] sub Let_def)
      show ?thesis
      proof (cases "?w + length xs \<le> ?c")
        case True
        then show ?thesis using d' b unfolding bufs by (simp add: mem_write_def ring_fill_def)
      next
        case False
        have "length xs - (?c - ?w) \<le> ?c - ?u - d" using xs d' by linarith
        then have "take (?c - ?u - d) (drop (?c - ?w) xs) = drop (?c - ?w) xs" by simp
        then show ?thesis
          using False d' b s(4) unfolding bufs d'(1)
          by (simp add: mem_write_def ring_fill_def Let_def)
      qed
    qed
  qed
qed

text \<open>Filling the posted buffers and moving the write index queues exactly the received bytes.\<close>

lemma kernel_fill_inv:
  assumes inv: "rb_inv rb" and xs: "length xs \<le> rb_mMaxCapacity rb - rb_mUsedSize rb"
  shows "\<exists>q. kernel_fill rb xs = Inr q \<and> rb_inv q \<and> rb_mMaxCapacity q = rb_mMaxCapacity rb"
proof -
  have "length (ring_fill (rb_mBuffer rb) (rb_mMaxCapacity rb) (rb_mWriteIndex rb) xs) = rb_mMaxCapacity rb + 1"
    using inv xs rb_inv_sizes(4) [OF inv] by (intro length_ring_fill) (auto simp: rb_inv_def)
  then show ?thesis using inv by (auto simp: kernel_fill_def scatter_eq [OF inv xs] rb_inv_def)
qed

lemma kernel_fill_MoveWrite:
  assumes inv: "rb_inv rb" and xs: "length xs \<le> rb_mMaxCapacity rb - rb_mUsedSize rb"
  obtains rb1 rb2 where "kernel_fill rb xs = Inr rb1" "RingBuffer_MoveWrite rb1 (length xs) = (rb2, length xs)"
    "rb_inv rb2" "rb_contents rb2 = rb_contents rb @ xs" "rb_mMaxCapacity rb2 = rb_mMaxCapacity rb"
proof -
  let ?buf = "ring_fill (rb_mBuffer rb) (rb_mMaxCapacity rb) (rb_mWriteIndex rb) xs"
  let ?rb1 = "rb\<lparr>rb_mBuffer := ?buf\<rparr>"
  let ?rb2 = "?rb1\<lparr>rb_mWriteIndex := wrap (rb_mMaxCapacity rb) (rb_mWriteIndex rb + length xs),
    rb_mUsedSize := rb_mUsedSize rb + length xs\<rparr>"
  note s = rb_inv_sizes [OF inv]
  have "length ?buf = rb_mMaxCapacity rb + 1"
    using inv xs s(4) by (intro length_ring_fill) (auto simp: rb_inv_def)
  then have inv1: "rb_inv ?rb1" using inv by (simp add: rb_inv_def)
  have "RingBuffer_Enqueue rb xs (length xs) = Inr (?rb2, length xs)"
    using Enqueue_eq [OF inv, of "length xs" xs "length xs"] xs by simp
  moreover have "RingBuffer_MoveWrite ?rb1 (length xs) = (?rb2, length xs)"
    using MoveWrite_eq [OF inv1, of "length xs"] xs by (simp add: Let_def min_absorb1)
  moreover have "kernel_fill rb xs = Inr ?rb1" by (simp add: kernel_fill_def scatter_eq [OF inv xs])
  ultimately show ?thesis
    using Enqueue_spec [OF inv, of "length xs" xs] that [of ?rb1 ?rb2] xs by (auto simp: min_absorb1)
qed

lemma recv_round_ok:
  assumes ok: "env_ok e" and mem: "mem_ok mem" and h: "handler_ok h upd"
    and xs: "length xs \<le> rb_mMaxCapacity (rc_RecvQueue e) - rb_mUsedSize (rc_RecvQueue e)"
    and fr: "frames opt (rb_contents (rc_RecvQueue e) @ xs) = (bodies, left, v)" "v \<noteq> CrashIt"
  shows "\<exists>e'. recv_round opt h t mem sid xs e = Inr (e', v = GoOn) \<and> env_ok e' \<and>
    rb_contents (rc_RecvQueue e') = left \<and> rc_world e' = fold (upd sid) bodies (rc_world e) \<and>
    rc_mRecvCountPerSec e' = rc_mRecvCountPerSec e + int (length bodies) \<and>
    rb_mMaxCapacity (rc_RecvQueue e') = rb_mMaxCapacity (rc_RecvQueue e) \<and>
    (v = CloseIt \<longrightarrow> rc_mIsCloseSocket e' \<noteq> 0)"
proof -
  have inv: "rb_inv (rc_RecvQueue e)" "pp_inv (rc_pool e)" using ok by (auto simp: env_ok_def)
  obtain q1 q2 where q: "kernel_fill (rc_RecvQueue e) xs = Inr q1"
    "RingBuffer_MoveWrite q1 (length xs) = (q2, length xs)"
    "rb_inv q2" "rb_contents q2 = rb_contents (rc_RecvQueue e) @ xs"
    "rb_mMaxCapacity q2 = rb_mMaxCapacity (rc_RecvQueue e)"
    using kernel_fill_MoveWrite [OF inv(1) xs] .
  let ?e = "e\<lparr>rc_RecvQueue := q2\<rparr>"
  have "env_ok ?e" using q(3) inv(2) by (simp add: env_ok_def)
  from recv_loop_ok [OF this mem h, of opt bodies left v "Suc (rb_mUsedSize q2)" t sid] fr q(4,5)
  show ?thesis using q(1,2) by (auto simp: recv_round_def NetworkRecvCompleted_def)
qed

lemma recv_round_crash:
  assumes ok: "env_ok e" and mem: "mem_ok mem" and h: "handler_ok h upd"
    and xs: "length xs \<le> rb_mMaxCapacity (rc_RecvQueue e) - rb_mUsedSize (rc_RecvQueue e)"
    and fr: "frames opt (rb_contents (rc_RecvQueue e) @ xs) = (bodies, left, CrashIt)"
  shows "recv_round opt h t mem sid xs e = Inl CrashDumped"
proof -
  have inv: "rb_inv (rc_RecvQueue e)" "pp_inv (rc_pool e)" using ok by (auto simp: env_ok_def)
  obtain q1 q2 where q: "kernel_fill (rc_RecvQueue e) xs = Inr q1"
    "RingBuffer_MoveWrite q1 (length xs) = (q2, length xs)"
    "rb_inv q2" "rb_contents q2 = rb_contents (rc_RecvQueue e) @ xs"
    using kernel_fill_MoveWrite [OF inv(1) xs] by metis
  have "recv_loop opt h t mem sid (Suc (rb_mUsedSize q2)) (e\<lparr>rc_RecvQueue := q2\<rparr>) = Inl CrashDumped"
    by (rule recv_loop_crash [OF _ mem h, where bodies = bodies and left = left]) (use fr q inv in \<open>simp_all add: env_ok_def\<close>)
  then show ?thesis using q(1,2) by (simp add: recv_round_def NetworkRecvCompleted_def)
qed

text \<open>
  A stream of well-formed packets, received in pieces of any sizes: the handler sees the bodies of
  the packets in order, whatever the sizes, and the receive queue never gets full.
\<close>

lemma recv_stream_ok:
  assumes mem: "mem_ok mem" and h: "handler_ok h upd"
    and "env_ok e" "rb_mMaxCapacity (rc_RecvQueue e) = 8192"
    and "classify opt (rb_contents (rc_RecvQueue e)) = NeedMore"
    and "frames opt (rb_contents (rc_RecvQueue e) @ stream) = (bodies, left, GoOn)"
    and "\<forall>n \<in> set ns. 1 \<le> n"
  shows "\<exists>e' rest bodies1 bodies2. recv_stream opt h t mem sid ns stream e = Inr (e', rest, True) \<and> env_ok e' \<and>
    classify opt (rb_contents (rc_RecvQueue e')) = NeedMore \<and>
    rc_world e' = fold (upd sid) bodies1 (rc_world e) \<and>
    frames opt (rb_contents (rc_RecvQueue e') @ rest) = (bodies2, left, GoOn) \<and> bodies = bodies1 @ bodies2 \<and>
    length rest \<le> length stream - length ns"
  using assms(3-)
proof (induction ns arbitrary: e stream bodies)
  case Nil
  then show ?case by (intro exI [of _ e] exI [of _ stream] exI [of _ "[]"] exI [of _ bodies]) auto
next
  case (Cons n ns)
  let ?q = "rc_RecvQueue e"
  define m where "m = min n (GetEnquableSize ?q)"
  define xs where "xs = take m stream"
  have inv: "rb_inv ?q" using Cons.prems(1) by (simp add: env_ok_def)
  have "rb_mUsedSize ?q < 4101" using classify_NeedMore_length [OF Cons.prems(3)] by simp
  then have m: "1 \<le> m" "length xs \<le> rb_mMaxCapacity ?q - rb_mUsedSize ?q"
    using Cons.prems(2,5) by (auto simp: m_def xs_def GetEnquableSize_eq [OF inv])
  have stream: "stream = xs @ drop m stream" by (simp add: xs_def)
  obtain b1 left1 where f1: "frames opt (rb_contents ?q @ xs) = (b1, left1, GoOn)"
    using frames_prefix [of opt "rb_contents ?q @ xs" "drop m stream"] Cons.prems(4) stream
    by (metis append_assoc)
  obtain e1 where e1: "recv_round opt h t mem sid xs e = Inr (e1, True)" "env_ok e1"
    "rb_contents (rc_RecvQueue e1) = left1" "rc_world e1 = fold (upd sid) b1 (rc_world e)"
    "rb_mMaxCapacity (rc_RecvQueue e1) = 8192"
    using recv_round_ok [OF Cons.prems(1) mem h m(2) f1, of t sid] Cons.prems(2) by auto
  obtain b2 where f2: "frames opt (left1 @ drop m stream) = (b2, left, GoOn)" "bodies = b1 @ b2"
    using frames_append [OF f1, of "drop m stream"] Cons.prems(4) stream
    by (auto split: prod.splits)
  obtain e' rest c1 c2 where r: "recv_stream opt h t mem sid ns (drop m stream) e1 = Inr (e', rest, True)"
    "env_ok e'" "classify opt (rb_contents (rc_RecvQueue e')) = NeedMore"
    "rc_world e' = fold (upd sid) c1 (rc_world e1)"
    "frames opt (rb_contents (rc_RecvQueue e') @ rest) = (c2, left, GoOn)" "b2 = c1 @ c2"
    "length rest \<le> length (drop m stream) - length ns"
    using Cons.IH [OF e1(2,5), of "drop m stream" b2] frames_left [OF f1] f2(1) e1(3) Cons.prems(5)
    by auto
  have "length rest \<le> length stream - length (n # ns)" using r(7) m(1) by simp
  moreover have "recv_stream opt h t mem sid (n # ns) stream e = Inr (e', rest, True)"
    using e1(1) r(1) by (simp add: Let_def m_def [symmetric] xs_def)
  ultimately show ?case
    using r(2-6) e1(4) f2(2)
    by (intro exI [of _ e'] exI [of _ rest] exI [of _ "b1 @ c1"] exI [of _ c2]) simp
qed

subsection \<open>Any handler\<close>

text \<open>
  Whatever the handler does with a packet, as long as it leaves the packet well formed and keeps an invariant
  of the rest of the state, also when it throws: the function keeps the invariant, or it stops in the crash
  dump. The invariant \<open>I\<close> may speak of the references to received packets that are not the receiving thread's own:
  what the handler adds to the count of the packet is the application's.
\<close>

definition handler_keeps :: "((nat \<Rightarrow> int) \<Rightarrow> u32 \<Rightarrow> 'w \<Rightarrow> bool) \<Rightarrow> u64 \<Rightarrow> 'w on_received \<Rightarrow> bool" where
  "handler_keeps I sid h \<longleftrightarrow>
     (\<forall>r c w. I r c w \<longrightarrow> I r 1 w) \<and>
     (\<forall>r a p c w. net_packet p \<and> pk_mRefCount p = 1 \<and> r a = 0 \<and> I r c w \<longrightarrow>
        (case h sid a p c w of (ex, p', c', w') \<Rightarrow>
           (\<forall>f. ex = Faulted f \<longrightarrow> f = InvalidArgument \<or> f = CrashDumped) \<and> net_packet p' \<and> 1 \<le> pk_mRefCount p' \<and>
           I (r(a := pk_mRefCount p' - 1)) c' w'))"

definition env_keeps :: "((nat \<Rightarrow> int) \<Rightarrow> u32 \<Rightarrow> 'w \<Rightarrow> bool) \<Rightarrow> nat \<Rightarrow> 'w recv_env \<Rightarrow> bool" where
  "env_keeps I cap e \<longleftrightarrow>
     env_ok e \<and> rb_mMaxCapacity (rc_RecvQueue e) = cap \<and> I (pp_refs (rc_pool e)) (rc_mIsCloseSocket e) (rc_world e)"

text \<open>The same with one reference to \<open>a\<close> held by the receiving thread.\<close>

definition env_own :: "((nat \<Rightarrow> int) \<Rightarrow> u32 \<Rightarrow> 'w \<Rightarrow> bool) \<Rightarrow> nat \<Rightarrow> nat \<Rightarrow> 'w recv_env \<Rightarrow> bool" where
  "env_own I cap a e \<longleftrightarrow>
     env_ok e \<and> rb_mMaxCapacity (rc_RecvQueue e) = cap \<and> a \<in> dom (pp_objs (rc_pool e)) \<and>
     I ((pp_refs (rc_pool e))(a := pp_refs (rc_pool e) a - 1)) (rc_mIsCloseSocket e) (rc_world e)"

lemma env_keeps_cancel: "handler_keeps I sid h \<Longrightarrow> env_keeps I cap e \<Longrightarrow> env_keeps I cap (rc_cancel e)"
  by (auto simp: env_keeps_def handler_keeps_def rc_cancel_def CancelationIO_def env_ok_def)

lemma rc_free_keeps:
  assumes e: "env_own I cap a e"
  shows "\<exists>pool. rc_free a e = Inr (e\<lparr>rc_pool := pool\<rparr>) \<and> env_keeps I cap (e\<lparr>rc_pool := pool\<rparr>)"
proof -
  have "0 < pp_refs (rc_pool e) a" using e by (auto simp: env_own_def env_ok_def pp_refs_pos)
  then obtain pool ok where "TryFreePacket (rc_pool e) a = Inr (pool, ok)" "pp_inv pool"
    "pp_refs pool = (pp_refs (rc_pool e))(a := pp_refs (rc_pool e) a - 1)"
    using TryFreePacket_ok [of 5 4096 "rc_pool e" a] e unfolding env_own_def env_ok_def by metis
  then show ?thesis using e by (auto simp: rc_free_def env_own_def env_keeps_def env_ok_def)
qed

lemma handle_packet_keeps:
  assumes h: "handler_keeps I sid h" and e: "env_own I cap a e"
    and p: "pp_objs (rc_pool e) a = Some p" "pk_mRefCount p = 1"
  shows "rok (\<lambda>(e', b). env_keeps I cap e' \<and> rc_RecvQueue e' = rc_RecvQueue e) (handle_packet h sid a p isDecoded e)"
proof (cases isDecoded)
  case False
  then show ?thesis
    using rc_free_keeps [OF e] env_keeps_cancel [OF h]
    by (fastforce simp: handle_packet_def rc_cancel_def)
next
  case True
  let ?r = "(pp_refs (rc_pool e))(a := 0)"
  have np: "net_packet p" "pp_inv (rc_pool e)" using e p(1) by (auto simp: env_own_def env_ok_def pp_inv_def)
  have i: "I ?r (rc_mIsCloseSocket e) (rc_world e)" using e p by (simp add: env_own_def pp_refs_def)
  obtain ex p' c' w' where r: "h sid a p (rc_mIsCloseSocket e) (rc_world e) = (ex, p', c', w')"
    by (cases "h sid a p (rc_mIsCloseSocket e) (rc_world e)") auto
  have k: "net_packet p'" "1 \<le> pk_mRefCount p'" "I (?r(a := pk_mRefCount p' - 1)) c' w'" "\<And>f. ex = Faulted f \<Longrightarrow> f = InvalidArgument \<or> f = CrashDumped"
    using h [unfolded handler_keeps_def, THEN conjunct2, rule_format, of p ?r a "rc_mIsCloseSocket e" "rc_world e"]
      i np(1) p(2) r by simp_all
  let ?e = "e\<lparr>rc_mIsCloseSocket := c', rc_world := w', rc_pool := (rc_pool e)\<lparr>pp_objs := (pp_objs (rc_pool e))(a \<mapsto> p')\<rparr>\<rparr>"
  have "pp_refs (rc_pool ?e) = (pp_refs (rc_pool e))(a := pk_mRefCount p')" by (auto simp: pp_refs_def)
  then have "env_own I cap a ?e"
    using e k pp_inv_upd [OF np(2) _ k(1,2), of a] p(1) by (auto simp: env_own_def env_ok_def)
  from rc_free_keeps [OF this] obtain pool where
    f: "rc_free a ?e = Inr (?e\<lparr>rc_pool := pool\<rparr>)" "env_keeps I cap (?e\<lparr>rc_pool := pool\<rparr>)" by auto
  have "env_keeps I cap (rc_cancel (?e\<lparr>rc_pool := pool\<rparr>))" by (rule env_keeps_cancel [OF h f(2)])
  then show ?thesis
    using f True r k(4) by (cases ex) (auto simp: handle_packet_def rc_cancel_def env_keeps_def env_ok_def)
qed

lemma recv_packet_keeps:
  assumes h: "handler_keeps I sid h" and e: "env_keeps I cap e" and mem: "mem_ok mem"
    and c: "classify opt (rb_contents (rc_RecvQueue e)) \<noteq> NeedMore" "classify opt (rb_contents (rc_RecvQueue e)) \<noteq> BadHeader"
  shows "rok (\<lambda>(e', b). env_keeps I cap e' \<and> rb_mUsedSize (rc_RecvQueue e') < rb_mUsedSize (rc_RecvQueue e))
    (recv_packet opt h t mem sid (as_NetHeader (take 5 (rb_contents (rc_RecvQueue e)))) e)"
proof (cases "classify opt (rb_contents (rc_RecvQueue e)) = Overlong")
  case True
  then show ?thesis using recv_packet_Overlong [OF _ mem True] e by (simp add: env_keeps_def)
next
  case False
  let ?bs = "rb_contents (rc_RecvQueue e)" let ?hd = "as_NetHeader (take 5 ?bs)"
  define n where "n = unat (nh_Length ?hd)"
  have ok: "env_ok e" using e by (simp add: env_keeps_def)
  have bs: "5 + n \<le> length ?bs" "n \<le> 4091"
    using c False by (auto simp: classify_def Let_def n_def [symmetric] split: if_splits)
  have "0 < length (drop 4 (take (5 + n) ?bs))" using bs(1) by simp
  from PacketDecode_Cons [OF this, of "no_PacketEncodeKey opt" "nh_RandKey ?hd"]
  obtain cs body where "PacketDecode (no_PacketEncodeKey opt) (nh_RandKey ?hd) (drop 4 (take (5 + n) ?bs)) = cs # body" ..
  from recv_packet_prefix [OF ok mem bs(1,2) [unfolded n_def] this [unfolded n_def], of h t sid]
  obtain queue pool a p isDecoded where r: "rb_inv queue" "rb_mMaxCapacity queue = rb_mMaxCapacity (rc_RecvQueue e)"
    "rb_contents queue = drop (5 + n) ?bs" "pp_inv pool" "a \<in> dom (pp_objs pool)" "net_packet p" "pk_mRefCount p = 1"
    "pp_objs (rc_pool e) a = None" "(pp_objs pool)(a \<mapsto> p) = (pp_objs (rc_pool e))(a \<mapsto> p)"
    "recv_packet opt h t mem sid ?hd e = handle_packet h sid a p isDecoded
        (e\<lparr>rc_RecvQueue := queue, rc_pool := pool\<lparr>pp_objs := (pp_objs pool)(a \<mapsto> p)\<rparr>\<rparr>)"
    unfolding n_def [symmetric] by blast
  let ?e = "e\<lparr>rc_RecvQueue := queue, rc_pool := pool\<lparr>pp_objs := (pp_objs pool)(a \<mapsto> p)\<rparr>\<rparr>"
  have "(pp_refs (rc_pool ?e))(a := pp_refs (rc_pool ?e) a - 1) = pp_refs (rc_pool e)"
    using r(7,8) by (auto simp: pp_refs_def r(9))
  then have "env_own I cap a ?e"
    using e r(1-7) pp_inv_upd [OF r(4-6)] by (auto simp: env_own_def env_keeps_def env_ok_def)
  from handle_packet_keeps [OF h this, of p isDecoded] r(7)
  have "rok (\<lambda>(e', b). env_keeps I cap e' \<and> rc_RecvQueue e' = queue) (handle_packet h sid a p isDecoded ?e)" by simp
  moreover have "rb_mUsedSize queue < rb_mUsedSize (rc_RecvQueue e)"
    using arg_cong [OF r(3), of length] bs(1) r(1) ok by (simp add: env_ok_def)
  ultimately show ?thesis unfolding r(10) by (auto elim: rok_mono)
qed

lemma recv_loop_keeps:
  assumes h: "handler_keeps I sid h" and mem: "mem_ok mem" and e: "env_keeps I cap e"
    and f: "rb_mUsedSize (rc_RecvQueue e) < fuel"
  shows "rok (\<lambda>(e', b). env_keeps I cap e') (recv_loop opt h t mem sid fuel e)"
  using e f
proof (induction fuel arbitrary: e)
  case 0
  then show ?case by simp
next
  case (Suc fuel)
  let ?c = "classify opt (rb_contents (rc_RecvQueue e))"
  have ok: "env_ok e" using Suc.prems by (simp add: env_keeps_def)
  note d = recv_loop_dispatch [OF ok, of opt h t mem sid fuel]
  show ?case
  proof (cases "?c = NeedMore \<or> ?c = BadHeader")
    case True
    then show ?thesis using d Suc.prems(1) env_keeps_cancel [OF h Suc.prems(1)] by auto
  next
    case False
    then have d': "recv_loop opt h t mem sid (Suc fuel) e =
        rbind (recv_packet opt h t mem sid (as_NetHeader (take 5 (rb_contents (rc_RecvQueue e)))) e) (\<lambda>(e, goOn).
              if goOn then recv_loop opt h t mem sid fuel e else Inr (e, False))"
      unfolding d Let_def by (auto split: frame_class.splits)
    show ?thesis
      unfolding d'
      by (rule rok_bind [OF recv_packet_keeps [OF h Suc.prems(1) mem]]) (use False Suc.IH Suc.prems(2) in auto)
  qed
qed

lemma NetworkRecvCompleted_keeps:
  assumes h: "handler_keeps I sid h" and mem: "mem_ok mem" and e: "env_keeps I cap e"
  shows "rok (\<lambda>(e', b). env_keeps I cap e') (NetworkRecvCompleted opt h t mem sid n e)"
proof -
  obtain queue m where q: "RingBuffer_MoveWrite (rc_RecvQueue e) n = (queue, m)" by fastforce
  have "rb_inv queue" "rb_mMaxCapacity queue = rb_mMaxCapacity (rc_RecvQueue e)"
    using MoveWrite_spec [OF _ q] e by (auto simp: env_keeps_def env_ok_def)
  then have e': "env_keeps I cap (e\<lparr>rc_RecvQueue := queue\<rparr>)" using e by (simp add: env_keeps_def env_ok_def)
  show ?thesis
    using q env_keeps_cancel [OF h e'] recv_loop_keeps [OF h mem e', of "Suc (rb_mUsedSize queue)" opt t]
    by (auto simp: NetworkRecvCompleted_def Let_def simp del: recv_loop.simps)
qed

subsection \<open>Properties\<close>

text \<open>
  C13. One completed receive, whatever bytes it brings into the buffers that were posted, with a handler that returns and keeps the
  references right: \<^verbatim>\<open>NetworkRecvCompleted\<close> does what the list of bytes says. It is cut into frames; the decoded bodies of the complete
  ones go to the handler in order, what is left stays in the queue, and the connection is given up exactly at a header that is not
  acceptable or a checksum that is wrong. If among the frames is one whose header announces 4092 to 4095 bytes (which the option must
  allow) and which is complete, behind good frames only, the process is stopped by the crash dump.
\<close>

theorem recv_round_refines:
  assumes "env_ok e" "mem_ok mem" "handler_ok h upd"
    and "length xs \<le> rb_mMaxCapacity (rc_RecvQueue e) - rb_mUsedSize (rc_RecvQueue e)"
    and "frames opt (rb_contents (rc_RecvQueue e) @ xs) = (bodies, left, v)"
  shows "if v = CrashIt then recv_round opt h t mem sid xs e = Inl CrashDumped
    else \<exists>e'. recv_round opt h t mem sid xs e = Inr (e', v = GoOn) \<and> env_ok e' \<and>
      rb_contents (rc_RecvQueue e') = left \<and> rc_world e' = fold (upd sid) bodies (rc_world e) \<and>
      rc_mRecvCountPerSec e' = rc_mRecvCountPerSec e + int (length bodies) \<and>
      (v = CloseIt \<longrightarrow> rc_mIsCloseSocket e' \<noteq> 0)"
  using recv_round_ok [OF assms, of t sid] recv_round_crash [OF assms(1-4), of opt bodies left t sid] assms(5) by auto

theorem recv_round_refines_witness:
  "\<exists>e e'. recv_round \<lparr>no_MaxPacketBodyLength = 2048, no_PacketCode = 0x77, no_PacketEncodeKey = 0xa9\<rparr>
      (\<lambda>sid a p closed w. (Returned, p, closed, w @ [pk_body p])) 0 (\<lambda>_. replicate 4101 0) 7 [1, 2, 3, 4, 5, 6] e = Inr (e', False) \<and>
    rc_mIsCloseSocket e' \<noteq> 0 \<and> rc_world e' = []"
proof -
  let ?opt = "\<lparr>no_MaxPacketBodyLength = 2048, no_PacketCode = 0x77, no_PacketEncodeKey = 0xa9\<rparr>"
  let ?h = "\<lambda>sid a p closed w. (Returned, p, closed, w @ [pk_body p])"
  let ?e = "\<lparr>rc_RecvQueue = RingBuffer_Init 8192, rc_mIsCloseSocket = 0, rc_pool = PacketPool_Init 0,
     rc_mRecvCountPerSec = 0, rc_world = []\<rparr>"
  have "env_ok ?e" using rb_inv_Init [of 8192] pp_inv_Init [of 0] by (simp add: env_ok_def size_lim_def)
  moreover have "mem_ok (\<lambda>_. replicate 4101 0)" by (simp add: mem_ok_def NetHeaderSize_def NET_PACKET_BODY_CAPACITY_def)
  moreover have "handler_ok ?h (\<lambda>_ body w. w @ [body])" by (auto simp: handler_ok_def)
  moreover have "frames ?opt (rb_contents (rc_RecvQueue ?e) @ [1, 2, 3, 4, 5, 6]) = ([], [1, 2, 3, 4, 5, 6], CloseIt)"
    by (simp add: frames.simps classify_def as_NetHeader_def)
  moreover have "length [1, 2, 3, 4, 5, 6 :: byte] \<le> rb_mMaxCapacity (rc_RecvQueue ?e) - rb_mUsedSize (rc_RecvQueue ?e)"
    by (simp add: RingBuffer_Init_def)
  ultimately obtain e' where "recv_round ?opt ?h 0 (\<lambda>_. replicate 4101 0) 7 [1, 2, 3, 4, 5, 6] ?e = Inr (e', CloseIt = GoOn)"
    "rc_world e' = fold (\<lambda>body w. w @ [body]) [] (rc_world ?e)" "rc_mIsCloseSocket e' \<noteq> 0"
    using recv_round_refines [of ?e "\<lambda>_. replicate 4101 0" ?h "\<lambda>_ body w. w @ [body]" "[1, 2, 3, 4, 5, 6]" ?opt "[]" "[1, 2, 3, 4, 5, 6]" CloseIt 0 7]
    by force
  then show ?thesis by (intro exI [of _ ?e] exI [of _ e']) simp
qed

text \<open>
  C14. A header that announces 4092 to 4095 bytes passes every check when the option allows bodies of that length, but the
  packet's buffer ends \<^verbatim>\<open>tHeaderSize\<close> bytes early: once the announced bytes have arrived, the server process stops itself. The
  bytes need no valid checksum.
\<close>

theorem overlong_length_crashes:
  assumes "env_ok e" "mem_ok mem" "handler_ok h upd"
    and "length xs \<le> rb_mMaxCapacity (rc_RecvQueue e) - rb_mUsedSize (rc_RecvQueue e)" "rb_contents (rc_RecvQueue e) = []"
    and "xs = no_PacketCode opt # le_bytes 2 n @ k # c # body" "length body = n" "4091 < n" "n < 4096"
    "n \<le> unat (no_MaxPacketBodyLength opt)"
  shows "recv_round opt h t mem sid xs e = Inl CrashDumped"
proof -
  have "le_nat [of_nat n, of_nat (n div 256)] = n"
    using le_nat_le_bytes [of 2 n] assms(9) by (simp only: le_bytes_2) simp
  then have "as_NetHeader (take 5 xs) = \<lparr>nh_Code = no_PacketCode opt, nh_Length = of_nat n, nh_RandKey = k, nh_CheckSum = c\<rparr>"
    unfolding assms(6) le_bytes_2 by (simp add: as_NetHeader_def del: le_nat.simps)
  moreover have "unat (of_nat n :: u16) = n" using assms(9) by (simp add: unat_of_nat)
  ultimately have "classify opt xs = Overlong"
    using assms(6-10) by (simp add: classify_def Let_def)
  then have f: "frames opt (rb_contents (rc_RecvQueue e) @ xs) = ([], xs, CrashIt)"
    using assms(5) by (simp add: frames.simps)
  show ?thesis by (rule recv_round_crash [OF assms(1-4) f])
qed

theorem overlong_length_crashes_witness:
  "\<exists>e. recv_round \<lparr>no_MaxPacketBodyLength = 65535, no_PacketCode = 0x77, no_PacketEncodeKey = 0x32\<rparr>
      (\<lambda>sid a p closed w. (Returned, p, closed, w @ [pk_body p])) 0 (\<lambda>_. replicate 4101 0) 7
      (0x77 # le_bytes 2 4092 @ 0 # 0 # replicate 4092 0) (e :: byte list list recv_env) = Inl CrashDumped"
proof -
  let ?h = "\<lambda>sid a p closed w. (Returned, p, closed, w @ [pk_body p])"
  let ?e = "\<lparr>rc_RecvQueue = RingBuffer_Init 8192, rc_mIsCloseSocket = 0, rc_pool = PacketPool_Init 0,
     rc_mRecvCountPerSec = 0, rc_world = []\<rparr>"
  have "env_ok ?e" using rb_inv_Init [of 8192] pp_inv_Init [of 0] by (simp add: env_ok_def size_lim_def)
  moreover have "mem_ok (\<lambda>_. replicate 4101 0)" by (simp add: mem_ok_def NetHeaderSize_def NET_PACKET_BODY_CAPACITY_def)
  moreover have "handler_ok ?h (\<lambda>_ body w. w @ [body])" by (auto simp: handler_ok_def)
  moreover have "rb_mMaxCapacity (rc_RecvQueue ?e) - rb_mUsedSize (rc_RecvQueue ?e) = 8192" by (simp add: RingBuffer_Init_def)
  ultimately show ?thesis
    by (intro exI [of _ ?e], intro overlong_length_crashes [where n = 4092 and upd = "\<lambda>_ body w. w @ [body]"
        and k = 0 and c = 0 and body = "replicate 4092 0"]) (simp_all only: length_replicate, simp_all)
qed

text \<open>
  C28. The kernel writes received bytes straight into the ring buffer, in the one or two pieces that \<^verbatim>\<open>RecvPost\<close> hands it,
  and \<^verbatim>\<open>MoveWrite\<close> then makes them visible. This is the same as \<^verbatim>\<open>Enqueue\<close> of the bytes.
\<close>

theorem kernel_fill_is_Enqueue:
  assumes "rb_inv rb" "length xs \<le> rb_mMaxCapacity rb - rb_mUsedSize rb"
  shows "rbind (kernel_fill rb xs) (\<lambda>rb. Inr (RingBuffer_MoveWrite rb (length xs))) = RingBuffer_Enqueue rb xs (length xs)"
proof -
  let ?buf = "ring_fill (rb_mBuffer rb) (rb_mMaxCapacity rb) (rb_mWriteIndex rb) xs"
  note s = rb_inv_sizes [OF assms(1)]
  have n: "length xs = min (length xs) (rb_mMaxCapacity rb - rb_mUsedSize rb)" using assms(2) by simp
  have "kernel_fill rb xs = Inr (rb\<lparr>rb_mBuffer := ?buf\<rparr>)" by (simp add: kernel_fill_def scatter_eq [OF assms])
  moreover have "rb_inv (rb\<lparr>rb_mBuffer := ?buf\<rparr>)"
    using assms(1) length_ring_fill [of "rb_mBuffer rb" "rb_mMaxCapacity rb" "rb_mWriteIndex rb" xs] s assms(2)
    by (simp add: rb_inv_def)
  ultimately show ?thesis
    using MoveWrite_eq [of "rb\<lparr>rb_mBuffer := ?buf\<rparr>" "length xs"] Enqueue_eq [OF assms(1) order.refl n] n by (simp add: Let_def)
qed

theorem kernel_fill_is_Enqueue_witness:
  "rbind (kernel_fill (RingBuffer_Init 8) [1, 2, 3]) (\<lambda>rb. Inr (RingBuffer_MoveWrite rb 3)) = RingBuffer_Enqueue (RingBuffer_Init 8) [1, 2, 3] 3"
proof -
  have "rb_inv (RingBuffer_Init 8)" by (rule rb_inv_Init) (simp add: size_lim_def)
  from kernel_fill_is_Enqueue [OF this, of "[1, 2, 3]"] show ?thesis by (simp add: RingBuffer_Init_def numeral_3_eq_3)
qed

end
