(* ===== verification/LockFree_Containers.thy ===== *)
theory LockFree_Containers
  imports Pool_LockFree
begin

text \<open>
  \<^verbatim>\<open>LockFreeStack\<close> and \<^verbatim>\<open>LockFreeQueue\<close> (\<^verbatim>\<open>nf/system/collections/concurrent\<close>) run by one thread: nodes
  rented from an \<^verbatim>\<open>ObjectPoolLockFree\<close>, linked through \<^verbatim>\<open>Next\<close> pointers in an explicit store. A
  retry loop has fuel; a loop that only another thread could end runs out of it, which is
  the fault \<open>Spin\<close>. The contract of both is one locale: a container whose insertion puts
  an element somewhere in a list and whose removal takes its head.
\<close>

record 'a Node =
  nd_Next :: "nat option"
  nd_Data :: 'a

subsection \<open>The contract\<close>

datatype 'a container_op = Insert 'a | Remove
datatype 'a container_out = Inserted bool | Removed "'a option"

fun spec_step :: "('a \<Rightarrow> 'a list \<Rightarrow> 'a list) \<Rightarrow> ('a list \<Rightarrow> bool) \<Rightarrow> 'a container_op \<Rightarrow> 'a list \<Rightarrow>
    'a list \<times> 'a container_out" where
  "spec_step place full (Insert x) xs =
     (if full xs then (xs, Inserted False) else (place x xs, Inserted True))"
| "spec_step place full Remove [] = ([], Removed None)"
| "spec_step place full Remove (y # ys) = (ys, Removed (Some y))"

fun spec_run :: "('a \<Rightarrow> 'a list \<Rightarrow> 'a list) \<Rightarrow> ('a list \<Rightarrow> bool) \<Rightarrow> 'a container_op list \<Rightarrow> 'a list \<Rightarrow>
    'a list \<times> 'a container_out list" where
  "spec_run place full [] xs = (xs, [])"
| "spec_run place full (c # cs) xs =
     (let (xs1, out) = spec_step place full c xs; (xs2, outs) = spec_run place full cs xs1
      in (xs2, out # outs))"

fun container_run :: "('s \<Rightarrow> 'a \<Rightarrow> ('s \<times> bool) res) \<Rightarrow> ('s \<Rightarrow> ('s \<times> 'a option) res) \<Rightarrow>
    'a container_op list \<Rightarrow> 's \<Rightarrow> ('s \<times> 'a container_out list) res" where
  "container_run put get [] s = Inr (s, [])"
| "container_run put get (Insert x # cs) s =
     rbind (put s x) (\<lambda>(s1, ok). rbind (container_run put get cs s1) (\<lambda>(s2, outs).
       Inr (s2, Inserted ok # outs)))"
| "container_run put get (Remove # cs) s =
     rbind (get s) (\<lambda>(s1, r). rbind (container_run put get cs s1) (\<lambda>(s2, outs).
       Inr (s2, Removed r # outs)))"

locale list_container =
  fixes inv :: "'s \<Rightarrow> bool"
    and abs :: "'s \<Rightarrow> 'a list"
    and place :: "'a \<Rightarrow> 'a list \<Rightarrow> 'a list"
    and full :: "'a list \<Rightarrow> bool"
    and put :: "'s \<Rightarrow> 'a \<Rightarrow> ('s \<times> bool) res"
    and get :: "'s \<Rightarrow> ('s \<times> 'a option) res"
  assumes put_full: "inv s \<Longrightarrow> full (abs s) \<Longrightarrow> put s x = Inr (s, False)"
    and put_law: "inv s \<Longrightarrow> \<not> full (abs s) \<Longrightarrow>
      \<exists>s'. put s x = Inr (s', True) \<and> inv s' \<and> abs s' = place x (abs s)"
    and get_Nil: "inv s \<Longrightarrow> abs s = [] \<Longrightarrow> get s = Inr (s, None)"
    and get_Cons: "inv s \<Longrightarrow> abs s = y # ys \<Longrightarrow> \<exists>s'. get s = Inr (s', Some y) \<and> inv s' \<and> abs s' = ys"
begin

lemma run_refines:
  "inv s \<Longrightarrow> spec_run place full cs (abs s) = (xs, outs) \<Longrightarrow>
   \<exists>s'. container_run put get cs s = Inr (s', outs) \<and> inv s' \<and> abs s' = xs"
proof (induction cs arbitrary: s outs)
  case Nil
  then show ?case by auto
next
  case (Cons c cs)
  obtain out xs1 outs1 where st: "spec_step place full c (abs s) = (xs1, out)"
    "spec_run place full cs xs1 = (xs, outs1)" "outs = out # outs1"
    using Cons.prems(2) by (auto simp: Let_def split: prod.splits)
  show ?case
  proof (cases c)
    case (Insert x)
    obtain s1 ok where "put s x = Inr (s1, ok)" "inv s1" "abs s1 = xs1" "out = Inserted ok"
      using st(1) Insert put_full [OF Cons.prems(1)] put_law [OF Cons.prems(1), of x] Cons.prems(1)
      by (cases "full (abs s)") auto
    then show ?thesis using Cons.IH [of s1 outs1] st Insert by auto
  next
    case Remove
    obtain s1 r where "get s = Inr (s1, r)" "inv s1" "abs s1 = xs1" "out = Removed r"
      using st(1) Remove get_Nil [OF Cons.prems(1)] get_Cons [OF Cons.prems(1)] Cons.prems(1)
      by (cases "abs s") auto
    then show ?thesis using Cons.IH [of s1 outs1] st Remove by auto
  qed
qed

end

subsection \<open>LockFreeStack\<close>

record 'a LockFreeStack =
  st_mHead :: Indexer
  st_nodes :: "nat \<rightharpoonup> 'a Node"
  st_mPool :: ObjectPoolLockFree
  st_mUsedSize :: int
  st_mMaxCapacity :: nat

text \<open>\<^verbatim>\<open>node->Next = next; node->Data = data\<close> on memory that the pool keeps.\<close>

definition put_node :: "nat \<Rightarrow> nat option \<Rightarrow> 'a \<Rightarrow> (nat \<rightharpoonup> 'a Node) \<Rightarrow> (nat \<rightharpoonup> 'a Node)" where
  "put_node a nxt x nodes = nodes(a \<mapsto> \<lparr>nd_Next = nxt, nd_Data = x\<rparr>)"

definition get_node :: "(nat \<rightharpoonup> 'a Node) \<Rightarrow> nat option \<Rightarrow> 'a Node res" where
  "get_node nodes p =
     (case p of None \<Rightarrow> Inl NullDeref
      | Some a \<Rightarrow> (case nodes a of None \<Rightarrow> Inl DeadObject | Some n \<Rightarrow> Inr n))"

fun stack_clear_loop :: "nat \<Rightarrow> 'a LockFreeStack \<Rightarrow> 'a LockFreeStack res" where
  "stack_clear_loop 0 s = (if ix_Node (st_mHead s) = None then Inr s else Inl Spin)"
| "stack_clear_loop (Suc fuel) s =
     (if ix_Node (st_mHead s) = None then Inr s
      else rbind (get_node (st_nodes s) (ix_Node (st_mHead s))) (\<lambda>n.
           rbind (LockFree_Return NonePolicy (st_mPool s) (ix_Node (st_mHead s))) (\<lambda>(pool, _).
             stack_clear_loop fuel
               (s\<lparr>st_mHead := (st_mHead s)\<lparr>ix_Node := nd_Next n\<rparr>, st_mPool := pool\<rparr>))))"

definition Stack_Clear :: "'a LockFreeStack \<Rightarrow> 'a LockFreeStack res" where
  "Stack_Clear s =
     rbind (stack_clear_loop (lf_brk (st_mPool s)) s) (\<lambda>s.
     rbind (LockFree_Clear NonePolicy False (st_mPool s)) (\<lambda>pool.
       Inr (s\<lparr>st_mMaxCapacity := 0, st_mPool := pool\<rparr>)))"

definition Stack_Init :: "nat \<Rightarrow> 'a LockFreeStack \<Rightarrow> 'a LockFreeStack res" where
  "Stack_Init maxCapacity s =
     rbind (Stack_Clear s) (\<lambda>s.
     rbind (LockFree_Init NonePolicy maxCapacity (st_mPool s)) (\<lambda>pool.
       Inr (s\<lparr>st_mPool := pool, st_mMaxCapacity := maxCapacity, st_mHead := \<lparr>ix_UID = 0, ix_Node = None\<rparr>\<rparr>)))"

definition Stack_Create :: "u64 \<Rightarrow> 'a LockFreeStack" where
  "Stack_Create garbage = \<lparr>st_mHead = \<lparr>ix_UID = 0, ix_Node = None\<rparr>, st_nodes = Map.empty,
     st_mPool = LockFree_Create garbage, st_mUsedSize = 0, st_mMaxCapacity = 0\<rparr>"

fun push_loop :: "nat \<Rightarrow> nat \<Rightarrow> 'a \<Rightarrow> 'a LockFreeStack \<Rightarrow> Indexer \<Rightarrow> 'a LockFreeStack res" where
  "push_loop 0 a x s snapshotHead = Inl Spin"
| "push_loop (Suc fuel) a x s snapshotHead =
     (let s1 = s\<lparr>st_nodes := put_node a (ix_Node snapshotHead) x (st_nodes s)\<rparr> in
      case CompareExchange128 (st_mHead s) (Some a) (ix_UID snapshotHead + 1) snapshotHead of
        (ok, mHead, snapshotHead') \<Rightarrow>
          if \<not> ok then push_loop fuel a x (s1\<lparr>st_mHead := mHead\<rparr>) snapshotHead'
          else Inr (s1\<lparr>st_mHead := mHead, st_mUsedSize := st_mUsedSize s + 1\<rparr>))"

definition Stack_Push :: "'a LockFreeStack \<Rightarrow> 'a \<Rightarrow> ('a LockFreeStack \<times> bool) res" where
  "Stack_Push s x =
     (if st_mMaxCapacity s < nat (st_mUsedSize s mod 2 ^ 64) then Inr (s, False)
      else rbind (LockFree_Rent NonePolicy (st_mPool s)) (\<lambda>(pool, a).
           rbind (push_loop 1 a x (s\<lparr>st_mPool := pool\<rparr>) (st_mHead s)) (\<lambda>s'. Inr (s', True))))"

fun pop_loop :: "nat \<Rightarrow> 'a LockFreeStack \<Rightarrow> Indexer \<Rightarrow> ('a LockFreeStack \<times> 'a) res" where
  "pop_loop 0 s snapshotHead = Inl Spin"
| "pop_loop (Suc fuel) s snapshotHead =
     rbind (get_node (st_nodes s) (ix_Node snapshotHead)) (\<lambda>n.
       case CompareExchange128 (st_mHead s) (nd_Next n) (ix_UID snapshotHead + 1) snapshotHead of
         (ok, mHead, snapshotHead') \<Rightarrow>
           if \<not> ok then pop_loop fuel (s\<lparr>st_mHead := mHead\<rparr>) snapshotHead'
           else rbind (LockFree_Return NonePolicy (st_mPool s) (ix_Node snapshotHead)) (\<lambda>(pool, _).
                  Inr (s\<lparr>st_mHead := mHead, st_mPool := pool\<rparr>, nd_Data n)))"

definition Stack_TryPop :: "'a LockFreeStack \<Rightarrow> ('a LockFreeStack \<times> 'a option) res" where
  "Stack_TryPop s =
     (if st_mUsedSize s - 1 < 0 then Inr (s, None)
      else rbind (pop_loop 1 (s\<lparr>st_mUsedSize := st_mUsedSize s - 1\<rparr>) (st_mHead s)) (\<lambda>(s', x).
             Inr (s', Some x)))"

subsection \<open>LockFreeQueue\<close>

record 'a LockFreeQueue =
  q_mHead :: Indexer
  q_mTail :: Indexer
  q_nodes :: "nat \<rightharpoonup> 'a Node"
  q_mPool :: ObjectPoolLockFree
  q_mUsedSize :: int
  q_mMaxCapacity :: nat

text \<open>The loop of \<^verbatim>\<open>Clear\<close>: a node is returned first and its \<^verbatim>\<open>Next\<close> is read afterwards.\<close>

fun queue_clear_loop :: "nat \<Rightarrow> nat option \<Rightarrow> 'a LockFreeQueue \<Rightarrow> 'a LockFreeQueue res" where
  "queue_clear_loop fuel None s = Inr s"
| "queue_clear_loop 0 (Some a) s = Inl Spin"
| "queue_clear_loop (Suc fuel) (Some a) s =
     rbind (LockFree_Return NonePolicy (q_mPool s) (Some a)) (\<lambda>(pool, _).
     rbind (get_node (q_nodes s) (Some a)) (\<lambda>n.
       queue_clear_loop fuel (nd_Next n) (s\<lparr>q_mPool := pool\<rparr>)))"

definition Queue_Clear :: "'a \<Rightarrow> 'a LockFreeQueue \<Rightarrow> 'a LockFreeQueue res" where
  "Queue_Clear garbage s =
     rbind
       (if ix_Node (q_mHead s) \<noteq> None
        then rbind (get_node (q_nodes s) (ix_Node (q_mHead s))) (\<lambda>d.
             rbind (queue_clear_loop (lf_brk (q_mPool s)) (nd_Next d) s) (\<lambda>s.
             rbind (LockFree_Return NonePolicy (q_mPool s) (ix_Node (q_mHead s))) (\<lambda>(pool, _).
               Inr (s\<lparr>q_mPool := pool, q_mHead := (q_mHead s)\<lparr>ix_Node := None\<rparr>\<rparr>))))
        else Inr s)
       (\<lambda>s. rbind (LockFree_Rent NonePolicy (q_mPool s)) (\<lambda>(pool, a).
          let d = (case q_nodes s a of None \<Rightarrow> garbage | Some n \<Rightarrow> nd_Data n) in
          Inr (s\<lparr>q_mPool := pool, q_nodes := put_node a None d (q_nodes s),
                 q_mHead := \<lparr>ix_UID = 0, ix_Node = Some a\<rparr>, q_mTail := \<lparr>ix_UID = 0, ix_Node = Some a\<rparr>\<rparr>)))"

definition Queue_Init :: "'a \<Rightarrow> nat \<Rightarrow> 'a LockFreeQueue \<Rightarrow> 'a LockFreeQueue res" where
  "Queue_Init garbage maxCapacity s =
     rbind (LockFree_Init NonePolicy maxCapacity (q_mPool s)) (\<lambda>pool.
     rbind (Queue_Clear garbage (s\<lparr>q_mPool := pool\<rparr>)) (\<lambda>s. Inr (s\<lparr>q_mMaxCapacity := maxCapacity\<rparr>)))"

definition Queue_Create :: "'a \<Rightarrow> u64 \<Rightarrow> nat \<Rightarrow> 'a LockFreeQueue res" where
  "Queue_Create garbage uid maxCapacity =
     Queue_Init garbage maxCapacity
       \<lparr>q_mHead = \<lparr>ix_UID = 0, ix_Node = None\<rparr>, q_mTail = \<lparr>ix_UID = 0, ix_Node = None\<rparr>,
        q_nodes = Map.empty, q_mPool = LockFree_Create uid, q_mUsedSize = 0, q_mMaxCapacity = 0\<rparr>"

fun enqueue_loop :: "nat \<Rightarrow> nat \<Rightarrow> 'a LockFreeQueue \<Rightarrow> 'a LockFreeQueue res" where
  "enqueue_loop 0 a s = Inl Spin"
| "enqueue_loop (Suc fuel) a s =
     (let snapshotTail = q_mTail s in
      rbind (get_node (q_nodes s) (ix_Node snapshotTail)) (\<lambda>t.
        if nd_Next t \<noteq> None
        then enqueue_loop fuel a
               (s\<lparr>q_mTail := fst (snd (CompareExchange128 (q_mTail s) (nd_Next t)
                               (ix_UID snapshotTail + 1) snapshotTail))\<rparr>)
        else rbind (get_node (q_nodes s) (ix_Node (q_mTail s))) (\<lambda>t'.
          if nd_Next t' \<noteq> None then enqueue_loop fuel a s
          else
            let nodes = (q_nodes s)(the (ix_Node (q_mTail s)) \<mapsto> t'\<lparr>nd_Next := Some a\<rparr>);
                tail = fst (snd (CompareExchange128 (q_mTail s) (Some a) (ix_UID snapshotTail + 1) snapshotTail))
            in Inr (s\<lparr>q_nodes := nodes, q_mTail := tail, q_mUsedSize := q_mUsedSize s + 1\<rparr>))))"

definition Queue_Enqueue :: "'a LockFreeQueue \<Rightarrow> 'a \<Rightarrow> ('a LockFreeQueue \<times> bool) res" where
  "Queue_Enqueue s x =
     rbind (LockFree_Rent NonePolicy (q_mPool s)) (\<lambda>(pool, a).
     rbind (enqueue_loop (lf_brk pool) a (s\<lparr>q_mPool := pool, q_nodes := put_node a None x (q_nodes s)\<rparr>)) (\<lambda>s'.
       Inr (s', True)))"

fun dequeue_loop :: "nat \<Rightarrow> 'a LockFreeQueue \<Rightarrow> ('a LockFreeQueue \<times> 'a) res" where
  "dequeue_loop 0 s = Inl Spin"
| "dequeue_loop (Suc fuel) s =
     (let snapshotHead = q_mHead s; snapshotTail = q_mTail s in
      rbind (get_node (q_nodes s) (ix_Node snapshotHead)) (\<lambda>h.
      rbind (get_node (q_nodes s) (ix_Node snapshotTail)) (\<lambda>t.
        if nd_Next h = None then dequeue_loop fuel s
        else
          rbind
            (if nd_Next t \<noteq> None
             then case CompareExchange128 (q_mTail s) (nd_Next t) (ix_UID snapshotTail + 1) snapshotTail of
                    (ok, tail, _) \<Rightarrow>
                      let s1 = s\<lparr>q_mTail := tail\<rparr> in
                      if \<not> ok then Inr (s1, True)
                      else rbind (get_node (q_nodes s1) (ix_Node (q_mTail s1))) (\<lambda>t'.
                             Inr (s1, nd_Next t' \<noteq> None))
             else Inr (s, False))
            (\<lambda>(s1, again).
               if again then dequeue_loop fuel s1
               else rbind (get_node (q_nodes s1) (nd_Next h)) (\<lambda>n.
                 case CompareExchange128 (q_mHead s1) (nd_Next h) (ix_UID snapshotHead + 1) snapshotHead of
                   (ok, mHead, _) \<Rightarrow>
                     if \<not> ok then dequeue_loop fuel (s1\<lparr>q_mHead := mHead\<rparr>)
                     else rbind (LockFree_Return NonePolicy (q_mPool s1) (ix_Node snapshotHead)) (\<lambda>(pool, _).
                            Inr (s1\<lparr>q_mHead := mHead, q_mPool := pool\<rparr>, nd_Data n)))))))"

definition Queue_TryDequeue :: "'a LockFreeQueue \<Rightarrow> ('a LockFreeQueue \<times> 'a option) res" where
  "Queue_TryDequeue s =
     (if q_mUsedSize s - 1 < 0 then Inr (s, None)
      else rbind (dequeue_loop (lf_brk (q_mPool s)) (s\<lparr>q_mUsedSize := q_mUsedSize s - 1\<rparr>)) (\<lambda>(s', x).
             Inr (s', Some x)))"

definition Queue_IsEmpty :: "'a LockFreeQueue \<Rightarrow> bool" where
  "Queue_IsEmpty s \<longleftrightarrow> q_mUsedSize s \<le> 0"

subsection \<open>Linked nodes\<close>

primrec linked :: "(nat \<rightharpoonup> 'a Node) \<Rightarrow> nat option \<Rightarrow> nat list \<Rightarrow> bool" where
  "linked nodes p [] \<longleftrightarrow> p = None"
| "linked nodes p (a # as) \<longleftrightarrow> p = Some a \<and> (\<exists>n. nodes a = Some n \<and> linked nodes (nd_Next n) as)"

definition node_data :: "(nat \<rightharpoonup> 'a Node) \<Rightarrow> nat \<Rightarrow> 'a" where
  "node_data nodes a = nd_Data (the (nodes a))"

fun collect :: "nat \<Rightarrow> (nat \<rightharpoonup> 'a Node) \<Rightarrow> nat option \<Rightarrow> 'a list" where
  "collect fuel nodes None = []"
| "collect 0 nodes (Some a) = []"
| "collect (Suc fuel) nodes (Some a) =
     (case nodes a of None \<Rightarrow> [] | Some n \<Rightarrow> nd_Data n # collect fuel nodes (nd_Next n))"

lemma linked_upd [simp]: "a \<notin> set as \<Longrightarrow> linked (nodes(a := v)) p as = linked nodes p as"
  by (induction as arbitrary: p) auto

lemma linked_None [simp]: "linked nodes None as \<longleftrightarrow> as = []"
  by (cases as) auto

lemma linked_dom: "linked nodes p as \<Longrightarrow> set as \<subseteq> dom nodes"
  by (induction as arbitrary: p) auto

lemma collect_linked: "linked nodes p as \<Longrightarrow> length as \<le> fuel \<Longrightarrow> collect fuel nodes p = map (node_data nodes) as"
proof (induction as arbitrary: p fuel)
  case (Cons a as)
  then show ?case by (cases fuel) (auto simp: node_data_def)
qed simp

lemma node_data_upd: "a \<notin> set as \<Longrightarrow> map (node_data (nodes(a := v))) as = map (node_data nodes) as"
  by (auto simp: node_data_def)

text \<open>Setting the \<^verbatim>\<open>Next\<close> of the last node links a new last node.\<close>

lemma linked_snoc:
  assumes "linked nodes p (as @ [l])" "distinct (as @ [l])" "a \<notin> set (as @ [l])"
    "nodes l = Some n" "nodes a = Some m" "nd_Next m = None"
  shows "linked (nodes(l \<mapsto> n\<lparr>nd_Next := Some a\<rparr>)) p (as @ [l, a])"
  using assms by (induction as arbitrary: p) auto

lemma linked_last: "linked nodes p (as @ [l]) \<Longrightarrow> \<exists>n. nodes l = Some n \<and> nd_Next n = None"
  by (induction as arbitrary: p) auto

lemma lf_live_bound: "lf_inv pol s \<Longrightarrow> lf_live s \<subseteq> {..<lf_brk s}"
  unfolding lf_inv_def lf_live_def heap_ok_def by blast

lemma linked_length:
  assumes "lf_inv pol pool" "distinct as" "set as \<subseteq> lf_live pool"
  shows "length as \<le> lf_brk pool"
proof -
  have "card (set as) \<le> card {..<lf_brk pool}"
    using assms lf_live_bound [OF assms(1)] by (intro card_mono) auto
  then show ?thesis using assms(2) by (simp add: distinct_card)
qed

subsection \<open>The stack is a stack\<close>

definition stack_list :: "'a LockFreeStack \<Rightarrow> 'a list" where
  "stack_list s = collect (lf_brk (st_mPool s)) (st_nodes s) (ix_Node (st_mHead s))"

definition stack_rep :: "'a LockFreeStack \<Rightarrow> nat list \<Rightarrow> bool" where
  "stack_rep s as \<longleftrightarrow>
     linked (st_nodes s) (ix_Node (st_mHead s)) as \<and> distinct as \<and>
     lf_inv NonePolicy (st_mPool s) \<and> lf_live (st_mPool s) = set as \<and>
     st_mUsedSize s = int (length as)"

definition stack_inv :: "nat \<Rightarrow> 'a LockFreeStack \<Rightarrow> bool" where
  "stack_inv cap s \<longleftrightarrow>
     st_mMaxCapacity s = cap \<and> Suc cap < 2 ^ 64 \<and> (\<exists>as. stack_rep s as \<and> length as \<le> Suc cap)"

lemma stack_list_eq: "stack_rep s as \<Longrightarrow> stack_list s = map (node_data (st_nodes s)) as"
  using linked_length [of NonePolicy "st_mPool s" as]
  by (simp add: stack_list_def stack_rep_def collect_linked)

lemma Stack_Push_full:
  assumes "stack_inv cap s" "cap < length (stack_list s)"
  shows "Stack_Push s x = Inr (s, False)"
proof -
  obtain as where as: "stack_rep s as" "length as \<le> Suc cap" "st_mMaxCapacity s = cap" "Suc cap < 2 ^ 64"
    using assms(1) by (auto simp: stack_inv_def)
  then have "cap < length as" using assms(2) by (simp add: stack_list_eq)
  moreover have "st_mUsedSize s mod 2 ^ 64 = int (length as)"
    using as by (simp add: stack_rep_def)
  ultimately show ?thesis using as(3) by (simp add: Stack_Push_def)
qed

lemma Stack_Push_law:
  assumes inv: "stack_inv cap s" and room: "length (stack_list s) \<le> cap"
  shows "\<exists>s'. Stack_Push s x = Inr (s', True) \<and> stack_inv cap s' \<and> stack_list s' = x # stack_list s"
proof -
  obtain as where as: "stack_rep s as" "length as \<le> Suc cap" "st_mMaxCapacity s = cap" "Suc cap < 2 ^ 64"
    using inv by (auto simp: stack_inv_def)
  have len: "length as \<le> cap" using room as(1) by (simp add: stack_list_eq)
  have used: "st_mUsedSize s mod 2 ^ 64 = int (length as)"
    using as by (simp add: stack_rep_def)
  obtain pool a where p: "LockFree_Rent NonePolicy (st_mPool s) = Inr (pool, a)" "lf_inv NonePolicy pool"
    "a \<notin> set as" "lf_live pool = insert a (set as)"
    using lf.rentE [of NonePolicy "st_mPool s"] as(1) unfolding stack_rep_def by metis
  let ?nodes = "put_node a (ix_Node (st_mHead s)) x (st_nodes s)"
  let ?s' = "s\<lparr>st_mPool := pool, st_nodes := ?nodes,
    st_mHead := \<lparr>ix_UID = ix_UID (st_mHead s) + 1, ix_Node = Some a\<rparr>, st_mUsedSize := st_mUsedSize s + 1\<rparr>"
  have "Stack_Push s x = Inr (?s', True)"
    using p(1) used as(3) len by (simp add: Stack_Push_def CompareExchange128_def)
  moreover have rep: "stack_rep ?s' (a # as)"
    using as(1) p(2-4) by (simp add: stack_rep_def put_node_def)
  moreover have "stack_list ?s' = x # stack_list s"
    using stack_list_eq [OF rep] stack_list_eq [OF as(1)] p(3)
    by (simp add: put_node_def node_data_def)
  moreover have "stack_inv cap ?s'" using as(3,4) rep len by (auto simp: stack_inv_def)
  ultimately show ?thesis by blast
qed

lemma Stack_TryPop_law:
  assumes inv: "stack_inv cap s"
  shows "stack_list s = [] \<Longrightarrow> Stack_TryPop s = Inr (s, None)"
    and "stack_list s = y # ys \<Longrightarrow>
      \<exists>s'. Stack_TryPop s = Inr (s', Some y) \<and> stack_inv cap s' \<and> stack_list s' = ys"
proof -
  obtain as where as: "stack_rep s as" "length as \<le> Suc cap" "st_mMaxCapacity s = cap" "Suc cap < 2 ^ 64"
    using inv by (auto simp: stack_inv_def)
  show "Stack_TryPop s = Inr (s, None)" if "stack_list s = []"
    using that as(1) by (simp add: stack_list_eq [OF as(1)] Stack_TryPop_def stack_rep_def)
  assume l: "stack_list s = y # ys"
  obtain a bs where Cons: "as = a # bs" using l stack_list_eq [OF as(1)] by (cases as) auto
  obtain n where n: "ix_Node (st_mHead s) = Some a" "st_nodes s a = Some n"
    "linked (st_nodes s) (nd_Next n) bs" "a \<notin> set bs"
    using as(1) Cons by (auto simp: stack_rep_def)
  obtain pool where p: "LockFree_Return NonePolicy (st_mPool s) (Some a) = Inr (pool, True)"
    "lf_inv NonePolicy pool" "lf_live pool = set as - {a}"
    using lf.retE [of NonePolicy "st_mPool s" a] as(1) Cons unfolding stack_rep_def
    by (metis list.set_intros(1))
  let ?s' = "s\<lparr>st_mUsedSize := st_mUsedSize s - 1, st_mPool := pool,
    st_mHead := \<lparr>ix_UID = ix_UID (st_mHead s) + 1, ix_Node = nd_Next n\<rparr>\<rparr>"
  have rep: "stack_rep ?s' bs"
    using as(1) p(2,3) n Cons by (auto simp: stack_rep_def)
  have "nd_Data n = y" "ys = map (node_data (st_nodes s)) bs"
    using l stack_list_eq [OF as(1)] Cons n(2) by (auto simp: node_data_def)
  moreover have "Stack_TryPop s = Inr (?s', Some (nd_Data n))"
    using as(1) Cons n p(1) by (simp add: Stack_TryPop_def stack_rep_def get_node_def CompareExchange128_def)
  moreover have "stack_inv cap ?s'" using as rep Cons by (auto simp: stack_inv_def)
  ultimately show "\<exists>s'. Stack_TryPop s = Inr (s', Some y) \<and> stack_inv cap s' \<and> stack_list s' = ys"
    using stack_list_eq [OF rep] by auto
qed

interpretation stack: list_container "stack_inv cap" stack_list Cons "\<lambda>xs. cap < length xs" Stack_Push Stack_TryPop
  using Stack_Push_full Stack_Push_law Stack_TryPop_law by unfold_locales (auto simp: not_less)

lemma Stack_Init_fresh:
  assumes "Suc cap < 2 ^ 64"
  shows "\<exists>s. Stack_Init cap (Stack_Create g) = Inr s \<and> stack_inv cap s \<and> stack_list s = []"
proof -
  let ?p = "LockFree_Create g"
  have p: "lf_inv NonePolicy ?p" "lf_live ?p = {}" using lf_inv_Create by auto
  have c: "LockFree_Clear NonePolicy False ?p = Inr ?p"
    by (simp add: LockFree_Clear_def LockFree_Create_def)
  have i: "LockFree_Init NonePolicy cap ?p = Inr ?p"
    using c by (simp add: LockFree_Init_def LockFree_Create_def)
  let ?s = "Stack_Create g\<lparr>st_mMaxCapacity := cap\<rparr> :: 'a LockFreeStack"
  have "Stack_Init cap (Stack_Create g) = Inr ?s"
    using c i by (simp add: Stack_Init_def Stack_Clear_def Stack_Create_def) (simp add: LockFree_Create_def)
  moreover have rep: "stack_rep ?s []" using p by (simp add: stack_rep_def Stack_Create_def)
  ultimately show ?thesis using assms stack_list_eq [OF rep]
    by (auto simp: stack_inv_def Stack_Create_def)
qed

subsection \<open>The queue is a queue\<close>

definition queue_list :: "'a LockFreeQueue \<Rightarrow> 'a list" where
  "queue_list s = tl (collect (lf_brk (q_mPool s)) (q_nodes s) (ix_Node (q_mHead s)))"

text \<open>\<open>d\<close> is the dummy node, \<open>as\<close> the nodes that carry the elements; the tail is the last of them.\<close>

definition queue_rep :: "'a LockFreeQueue \<Rightarrow> nat \<Rightarrow> nat list \<Rightarrow> bool" where
  "queue_rep s d as \<longleftrightarrow>
     linked (q_nodes s) (ix_Node (q_mHead s)) (d # as) \<and> distinct (d # as) \<and>
     ix_Node (q_mTail s) = Some (last (d # as)) \<and>
     lf_inv NonePolicy (q_mPool s) \<and> lf_live (q_mPool s) = set (d # as) \<and>
     q_mUsedSize s = int (length as)"

definition queue_inv :: "'a LockFreeQueue \<Rightarrow> bool" where
  "queue_inv s \<longleftrightarrow> (\<exists>d as. queue_rep s d as)"

lemma queue_list_eq: "queue_rep s d as \<Longrightarrow> queue_list s = map (node_data (q_nodes s)) as"
  using linked_length [of NonePolicy "q_mPool s" "d # as"] collect_linked [of "q_nodes s" _ "d # as"]
  by (simp add: queue_list_def queue_rep_def)

lemma node_data_next: "nodes l = Some n \<Longrightarrow> node_data (nodes(l \<mapsto> n\<lparr>nd_Next := p\<rparr>)) = node_data nodes"
  by (auto simp: node_data_def)

lemma Queue_Enqueue_law:
  assumes inv: "queue_inv s"
  shows "\<exists>s'. Queue_Enqueue s x = Inr (s', True) \<and> queue_inv s' \<and> queue_list s' = queue_list s @ [x]"
proof -
  obtain d as where rep: "queue_rep s d as" using inv by (auto simp: queue_inv_def)
  obtain pool a where p: "LockFree_Rent NonePolicy (q_mPool s) = Inr (pool, a)" "lf_inv NonePolicy pool"
    "a \<notin> set (d # as)" "lf_live pool = insert a (set (d # as))"
    using lf.rentE [of NonePolicy "q_mPool s"] rep unfolding queue_rep_def by metis
  obtain fuel where fuel: "lf_brk pool = Suc fuel"
    using lf_live_bound [OF p(2)] p(4) by (cases "lf_brk pool") auto
  define l where "l = last (d # as)"
  define ls where "ls = butlast (d # as)"
  have ls: "d # as = ls @ [l]" by (simp add: l_def ls_def)
  let ?n1 = "put_node a None x (q_nodes s)"
  have l1: "linked ?n1 (ix_Node (q_mHead s)) (ls @ [l])"
    using rep p(3) unfolding ls by (simp add: queue_rep_def put_node_def ls)
  obtain n where n: "?n1 l = Some n" "nd_Next n = None" using linked_last [OF l1] by blast
  let ?n2 = "?n1(l \<mapsto> n\<lparr>nd_Next := Some a\<rparr>)"
  have "distinct (ls @ [l])" "a \<notin> set (ls @ [l])" using rep p(3) unfolding queue_rep_def ls by auto
  then have "linked ?n2 (ix_Node (q_mHead s)) (ls @ [l, a])"
    using n by (intro linked_snoc [OF l1, where m = "\<lparr>nd_Next = None, nd_Data = x\<rparr>"]) (auto simp: put_node_def)
  moreover have "ls @ [l, a] = d # as @ [a]" using ls by simp
  ultimately have l2: "linked ?n2 (ix_Node (q_mHead s)) (d # as @ [a])" by simp
  let ?s' = "s\<lparr>q_mPool := pool, q_nodes := ?n2, q_mUsedSize := q_mUsedSize s + 1,
    q_mTail := \<lparr>ix_UID = ix_UID (q_mTail s) + 1, ix_Node = Some a\<rparr>\<rparr>"
  have "Queue_Enqueue s x = Inr (?s', True)"
    using p(1) fuel rep n
    by (simp add: Queue_Enqueue_def queue_rep_def get_node_def CompareExchange128_def l_def)
  moreover have rep': "queue_rep ?s' d (as @ [a])"
    using l2 rep p by (auto simp: queue_rep_def)
  moreover have "queue_list ?s' = queue_list s @ [x]"
    using queue_list_eq [OF rep] queue_list_eq [OF rep'] p(3)
    by (simp add: node_data_next [of ?n1 l n, OF n(1)]) (simp add: put_node_def node_data_def)
  ultimately show ?thesis unfolding queue_inv_def by blast
qed

lemma Queue_TryDequeue_law:
  assumes inv: "queue_inv s"
  shows "queue_list s = [] \<Longrightarrow> Queue_TryDequeue s = Inr (s, None)"
    and "queue_list s = y # ys \<Longrightarrow>
      \<exists>s'. Queue_TryDequeue s = Inr (s', Some y) \<and> queue_inv s' \<and> queue_list s' = ys"
proof -
  obtain d as where rep: "queue_rep s d as" using inv by (auto simp: queue_inv_def)
  show "Queue_TryDequeue s = Inr (s, None)" if "queue_list s = []"
    using that rep by (simp add: queue_list_eq [OF rep] Queue_TryDequeue_def queue_rep_def)
  assume l: "queue_list s = y # ys"
  obtain a bs where Cons: "as = a # bs" using l queue_list_eq [OF rep] by (cases as) auto
  obtain h n where n: "ix_Node (q_mHead s) = Some d" "q_nodes s d = Some h" "nd_Next h = Some a"
    "q_nodes s a = Some n" "linked (q_nodes s) (Some a) (a # bs)"
    using rep Cons by (auto simp: queue_rep_def)
  obtain fuel where fuel: "lf_brk (q_mPool s) = Suc fuel"
    using lf_live_bound [of NonePolicy "q_mPool s"] rep by (cases "lf_brk (q_mPool s)") (auto simp: queue_rep_def)
  have tail: "ix_Node (q_mTail s) = Some (last (a # bs))" using rep Cons by (simp add: queue_rep_def)
  obtain t where t: "q_nodes s (last (a # bs)) = Some t" "nd_Next t = None"
    using linked_last [of "q_nodes s" "Some a" "butlast (a # bs)" "last (a # bs)"] n(5)
    by (metis append_butlast_last_id list.distinct(1))
  obtain pool where p: "LockFree_Return NonePolicy (q_mPool s) (Some d) = Inr (pool, True)"
    "lf_inv NonePolicy pool" "lf_live pool = set (d # as) - {d}"
    using lf.retE [of NonePolicy "q_mPool s" d] rep unfolding queue_rep_def
    by (metis list.set_intros(1))
  let ?s' = "s\<lparr>q_mUsedSize := q_mUsedSize s - 1, q_mPool := pool,
    q_mHead := \<lparr>ix_UID = ix_UID (q_mHead s) + 1, ix_Node = Some a\<rparr>\<rparr>"
  have rep': "queue_rep ?s' a bs"
    using rep p(2,3) n Cons by (auto simp: queue_rep_def)
  have "0 < q_mUsedSize s" using rep Cons by (simp add: queue_rep_def)
  then have "Queue_TryDequeue s = Inr (?s', Some (nd_Data n))"
    using fuel n tail t p(1) by (simp add: Queue_TryDequeue_def get_node_def CompareExchange128_def del: last.simps)
  moreover have "nd_Data n = y" "ys = map (node_data (q_nodes s)) bs"
    using l queue_list_eq [OF rep] Cons n(4) by (auto simp: node_data_def)
  ultimately show "\<exists>s'. Queue_TryDequeue s = Inr (s', Some y) \<and> queue_inv s' \<and> queue_list s' = ys"
    using rep' queue_list_eq [OF rep'] unfolding queue_inv_def by auto
qed

interpretation queue: list_container queue_inv queue_list "\<lambda>x xs. xs @ [x]" "\<lambda>_. False" Queue_Enqueue Queue_TryDequeue
  using Queue_Enqueue_law Queue_TryDequeue_law by unfold_locales auto

lemma Queue_Create_ok: "\<exists>s. Queue_Create garbage uid cap = Inr s \<and> queue_inv s \<and> queue_list s = []"
proof -
  let ?p = "LockFree_Create uid"
  have p: "lf_inv NonePolicy ?p" "lf_live ?p = {}" using lf_inv_Create by auto
  have i: "LockFree_Init NonePolicy cap ?p = Inr ?p"
    by (simp add: LockFree_Init_def LockFree_Clear_def LockFree_Create_def)
  obtain pool a where r: "LockFree_Rent NonePolicy ?p = Inr (pool, a)" "lf_inv NonePolicy pool" "lf_live pool = {a}"
    using lf.rentE [OF p(1)] p(2) by metis
  let ?s = "\<lparr>q_mHead = \<lparr>ix_UID = 0, ix_Node = Some a\<rparr>, q_mTail = \<lparr>ix_UID = 0, ix_Node = Some a\<rparr>,
    q_nodes = [a \<mapsto> \<lparr>nd_Next = None, nd_Data = garbage\<rparr>], q_mPool = pool, q_mUsedSize = 0, q_mMaxCapacity = cap\<rparr>"
  have "Queue_Create garbage uid cap = Inr ?s"
    using i r(1) by (simp add: Queue_Create_def Queue_Init_def Queue_Clear_def put_node_def)
  moreover have rep: "queue_rep ?s a []" using r by (simp add: queue_rep_def)
  ultimately show ?thesis using queue_list_eq [OF rep] by (auto simp: queue_inv_def)
qed

lemma queue_clear_loop_ok:
  assumes "linked (q_nodes s) p as" "distinct as" "set as \<subseteq> lf_live (q_mPool s)"
    "lf_inv NonePolicy (q_mPool s)" "length as \<le> fuel"
  shows "\<exists>pool. queue_clear_loop fuel p s = Inr (s\<lparr>q_mPool := pool\<rparr>) \<and> lf_inv NonePolicy pool \<and>
    lf_live pool = lf_live (q_mPool s) - set as"
  using assms
proof (induction as arbitrary: p s fuel)
  case Nil
  then show ?case by (intro exI [of _ "q_mPool s"]) simp
next
  case (Cons a as)
  obtain n k where n: "p = Some a" "q_nodes s a = Some n" "linked (q_nodes s) (nd_Next n) as" "fuel = Suc k"
    using Cons.prems(1,5) by (cases fuel) auto
  obtain pool where p: "LockFree_Return NonePolicy (q_mPool s) (Some a) = Inr (pool, True)"
    "lf_inv NonePolicy pool" "lf_live pool = lf_live (q_mPool s) - {a}"
    using lf.retE [OF Cons.prems(4), of a] Cons.prems(3) by auto
  have "set as \<subseteq> lf_live pool" using p(3) Cons.prems(2,3) by auto
  with Cons.IH [of "s\<lparr>q_mPool := pool\<rparr>" "nd_Next n" k] n p(2) Cons.prems(2,5)
  obtain pool' where "queue_clear_loop k (nd_Next n) (s\<lparr>q_mPool := pool\<rparr>) = Inr (s\<lparr>q_mPool := pool'\<rparr>)"
    "lf_inv NonePolicy pool'" "lf_live pool' = lf_live pool - set as" by auto
  moreover from this(3) have "lf_live pool' = lf_live (q_mPool s) - set (a # as)" using p(3) by auto
  ultimately show ?case using n p(1) by (auto simp: get_node_def)
qed

text \<open>\<^verbatim>\<open>Clear\<close> gives every node back to the pool and starts with one dummy node; the counter stays as it was.\<close>

lemma Queue_Clear_rep:
  assumes rep: "queue_rep s d as"
  obtains s' d' where "Queue_Clear garbage s = Inr s'" "linked (q_nodes s') (ix_Node (q_mHead s')) [d']"
    "ix_Node (q_mTail s') = Some d'" "lf_inv NonePolicy (q_mPool s')" "lf_live (q_mPool s') = {d'}"
    "q_mUsedSize s' = q_mUsedSize s"
proof -
  obtain n where n: "ix_Node (q_mHead s) = Some d" "q_nodes s d = Some n" "linked (q_nodes s) (nd_Next n) as"
    using rep by (auto simp: queue_rep_def)
  have inv: "lf_inv NonePolicy (q_mPool s)" "lf_live (q_mPool s) = insert d (set as)" "distinct as" "d \<notin> set as"
    using rep by (auto simp: queue_rep_def)
  have "length as \<le> lf_brk (q_mPool s)" using linked_length [OF inv(1,3)] inv(2) by auto
  then obtain pool1 where p1: "queue_clear_loop (lf_brk (q_mPool s)) (nd_Next n) s = Inr (s\<lparr>q_mPool := pool1\<rparr>)"
    "lf_inv NonePolicy pool1" "lf_live pool1 = {d}"
    using queue_clear_loop_ok [OF n(3) inv(3) _ inv(1), of "lf_brk (q_mPool s)"] inv(2,4) by auto
  obtain pool2 where p2: "LockFree_Return NonePolicy pool1 (Some d) = Inr (pool2, True)"
    "lf_inv NonePolicy pool2" "lf_live pool2 = {}"
    using lf.retE [OF p1(2), of d] p1(3) by auto
  obtain pool3 a where p3: "LockFree_Rent NonePolicy pool2 = Inr (pool3, a)" "lf_inv NonePolicy pool3" "lf_live pool3 = {a}"
    using lf.rentE [OF p2(2)] p2(3) by metis
  let ?d = "case q_nodes s a of None \<Rightarrow> garbage | Some n \<Rightarrow> nd_Data n"
  show ?thesis
    using n(1,2) p1(1) p2(1) p3
    by (intro that [of "s\<lparr>q_mPool := pool3, q_nodes := put_node a None ?d (q_nodes s),
        q_mHead := \<lparr>ix_UID = 0, ix_Node = Some a\<rparr>, q_mTail := \<lparr>ix_UID = 0, ix_Node = Some a\<rparr>\<rparr>" a])
      (auto simp: Queue_Clear_def get_node_def put_node_def)
qed

lemma Queue_Clear_empty:
  assumes "queue_inv s" "queue_list s = []"
  obtains s' where "Queue_Clear garbage s = Inr s'" "queue_inv s'" "queue_list s' = []"
proof -
  obtain d as where rep: "queue_rep s d as" using assms(1) by (auto simp: queue_inv_def)
  have "as = []" using assms(2) queue_list_eq [OF rep] by simp
  then have u: "q_mUsedSize s = 0" using rep by (simp add: queue_rep_def)
  obtain s' d' where s': "Queue_Clear garbage s = Inr s'" "linked (q_nodes s') (ix_Node (q_mHead s')) [d']"
    "ix_Node (q_mTail s') = Some d'" "lf_inv NonePolicy (q_mPool s')" "lf_live (q_mPool s') = {d'}"
    "q_mUsedSize s' = q_mUsedSize s"
    using Queue_Clear_rep [OF rep] .
  then have rep': "queue_rep s' d' []" using u by (simp add: queue_rep_def)
  show ?thesis using that [OF s'(1)] rep' queue_list_eq [OF rep'] by (auto simp: queue_inv_def)
qed

text \<open>
  \<^verbatim>\<open>Clear\<close> keeps \<^verbatim>\<open>mUsedSize\<close>. With the counter positive and only the dummy node linked, \<^verbatim>\<open>TryDequeue\<close>
  waits for an element that nobody is adding: the loop spins for every amount of fuel.
\<close>

lemma dequeue_loop_spins:
  assumes "ix_Node (q_mHead s) = Some d" "q_nodes s d = Some n" "nd_Next n = None"
    and "get_node (q_nodes s) (ix_Node (q_mTail s)) = Inr t"
  shows "dequeue_loop fuel s = Inl Spin"
  using assms by (induction fuel) (auto simp: get_node_def)

lemma TryDequeue_after_Clear_spins:
  assumes "queue_inv s" "queue_list s \<noteq> []" "Queue_Clear garbage s = Inr s'"
  shows "Queue_TryDequeue s' = Inl Spin"
proof -
  obtain d as where rep: "queue_rep s d as" using assms(1) by (auto simp: queue_inv_def)
  have "as \<noteq> []" using assms(2) queue_list_eq [OF rep] by simp
  then have u: "0 < q_mUsedSize s" using rep by (simp add: queue_rep_def)
  obtain d' where s': "linked (q_nodes s') (ix_Node (q_mHead s')) [d']"
    "ix_Node (q_mTail s') = Some d'" "q_mUsedSize s' = q_mUsedSize s"
    using Queue_Clear_rep [OF rep, of garbage] assms(3) by (metis sum.inject(2))
  then obtain n where "ix_Node (q_mHead s') = Some d'" "q_nodes s' d' = Some n" "nd_Next n = None" by auto
  then have "dequeue_loop fuel (s'\<lparr>q_mUsedSize := u\<rparr>) = Inl Spin" for fuel u
    using s'(2) by (intro dequeue_loop_spins) (auto simp: get_node_def)
  then show ?thesis using u s'(3) by (simp add: Queue_TryDequeue_def)
qed

subsection \<open>Properties\<close>

text \<open>
  A \<^verbatim>\<open>LockFreeStack\<close> used by one thread is a stack: from its creation and \<^verbatim>\<open>Init\<close>, every sequence of \<^verbatim>\<open>Push\<close> and
  \<^verbatim>\<open>TryPop\<close> returns what a list would that is full when it holds more than the capacity.
\<close>

lemma stack_is_lifo:
  assumes "Suc cap < 2 ^ 64"
  shows "\<exists>s0 s. Stack_Init cap (Stack_Create g) = Inr s0 \<and>
    container_run Stack_Push Stack_TryPop cs s0 = Inr (s, snd (spec_run Cons (\<lambda>xs. cap < length xs) cs [])) \<and>
    stack_list s = fst (spec_run Cons (\<lambda>xs. cap < length xs) cs [])"
proof -
  obtain s0 :: "'a LockFreeStack" where s0: "Stack_Init cap (Stack_Create g) = Inr s0" "stack_inv cap s0" "stack_list s0 = []"
    using Stack_Init_fresh [OF assms, of g] by blast
  from stack.run_refines [OF s0(2), of cs "fst (spec_run Cons (\<lambda>xs. cap < length xs) cs [])" "snd (spec_run Cons (\<lambda>xs. cap < length xs) cs [])"]
  show ?thesis using s0 by auto
qed

lemma stack_is_lifo_example:
  "\<exists>s0 s. Stack_Init 1 (Stack_Create 0) = Inr s0 \<and>
    container_run Stack_Push Stack_TryPop [Insert 7, Insert 8, Insert (9 :: nat), Remove, Remove, Remove] s0 =
      Inr (s, [Inserted True, Inserted True, Inserted False, Removed (Some 8), Removed (Some 7), Removed None])"
  using stack_is_lifo [of 1 0 "[Insert 7, Insert 8, Insert (9 :: nat), Remove, Remove, Remove]"] by auto

text \<open>
  C33. A \<^verbatim>\<open>LockFreeQueue\<close> used by one thread is a first-in first-out queue without a bound: from its creation every
  sequence of \<^verbatim>\<open>Enqueue\<close> and \<^verbatim>\<open>TryDequeue\<close> returns what a list would. The capacity it is created with is not
  enforced: no \<^verbatim>\<open>Enqueue\<close> fails.
\<close>

theorem queue_is_fifo:
  "\<exists>s0 s. Queue_Create garbage uid cap = Inr s0 \<and>
    container_run Queue_Enqueue Queue_TryDequeue cs s0 = Inr (s, snd (spec_run (\<lambda>x xs. xs @ [x]) (\<lambda>_. False) cs [])) \<and>
    queue_list s = fst (spec_run (\<lambda>x xs. xs @ [x]) (\<lambda>_. False) cs [])"
proof -
  obtain s0 where s0: "Queue_Create garbage uid cap = Inr s0" "queue_inv s0" "queue_list s0 = []"
    using Queue_Create_ok [of garbage uid cap] by blast
  from queue.run_refines [OF s0(2), of cs "fst (spec_run (\<lambda>x xs. xs @ [x]) (\<lambda>_. False) cs [])" "snd (spec_run (\<lambda>x xs. xs @ [x]) (\<lambda>_. False) cs [])"]
  show ?thesis using s0 by auto
qed

text \<open>
  \<^verbatim>\<open>Clear\<close> of a queue that is not empty keeps \<^verbatim>\<open>mUsedSize\<close>: the next \<^verbatim>\<open>TryDequeue\<close> waits for an element that nobody
  adds and never returns, however many rounds it is given.
\<close>

lemma dequeue_after_clear_spins:
  assumes "queue_inv s" "queue_list s \<noteq> []"
  shows "\<exists>s'. Queue_Clear garbage s = Inr s' \<and> (\<forall>fuel. dequeue_loop fuel s' = Inl Spin) \<and> Queue_TryDequeue s' = Inl Spin"
proof -
  obtain d as where rep: "queue_rep s d as" using assms(1) by (auto simp: queue_inv_def)
  obtain s' d' where s': "Queue_Clear garbage s = Inr s'" "linked (q_nodes s') (ix_Node (q_mHead s')) [d']"
    "ix_Node (q_mTail s') = Some d'"
    using Queue_Clear_rep [OF rep, of garbage] by metis
  then obtain n where "ix_Node (q_mHead s') = Some d'" "q_nodes s' d' = Some n" "nd_Next n = None" by auto
  then have "dequeue_loop fuel s' = Inl Spin" for fuel
    using s'(3) by (intro dequeue_loop_spins) (auto simp: get_node_def)
  then show ?thesis using TryDequeue_after_Clear_spins [OF assms s'(1)] s'(1) by auto
qed

lemma dequeue_after_clear_spins_example:
  "\<exists>s0 s1 s'. Queue_Create (0 :: nat) 0 8 = Inr s0 \<and> Queue_Enqueue s0 5 = Inr (s1, True) \<and> Queue_Clear 0 s1 = Inr s' \<and>
     Queue_TryDequeue s' = Inl Spin"
proof -
  obtain s0 where s0: "Queue_Create (0 :: nat) 0 8 = Inr s0" "queue_inv s0" "queue_list s0 = []"
    using Queue_Create_ok [of "0 :: nat" 0 8] by blast
  obtain s1 where s1: "Queue_Enqueue s0 5 = Inr (s1, True)" "queue_inv s1" "queue_list s1 = [5]"
    using Queue_Enqueue_law [OF s0(2), of 5] s0(3) by auto
  from dequeue_after_clear_spins [OF s1(2), of 0] s0(1) s1 show ?thesis by auto
qed

end
