(* ===== verification/Session_State.thy ===== *)
theory Session_State
  imports Packet_Pool Ring_Buffer LockFree_Containers
begin

unbundle bit_operations_syntax

text \<open>
  What \<^verbatim>\<open>NetSession\<close> and \<^verbatim>\<open>LanSession\<close> have in common: the session id, the members that both classes declare
  (with \<^verbatim>\<open>ReleaseInfo\<close> and \<^verbatim>\<open>SendingInfo\<close>), and the three loops over packets that both contain. The record is extensible:
  \<^verbatim>\<open>NetSession\<close> adds members, \<^verbatim>\<open>LanSession\<close> has none of its own. Packets are addresses in the send pool,
  the send queue is the modelled \<^verbatim>\<open>LockFreeQueue\<close> and the receive queue the modelled \<^verbatim>\<open>RingBuffer\<close>. A socket is a
  number, \<^verbatim>\<open>INVALID_SOCKET\<close> is \<open>None\<close>.
\<close>

subsection \<open>Session identifiers\<close>

definition uid_mask :: u64 where
  "uid_mask = 0x0000FFFFFFFFFFFF"

definition GenSessionID :: "u32 \<Rightarrow> u64 \<Rightarrow> u64" where
  "GenSessionID index uid = (push_bit 48 (ucast index :: u64)) OR (uid AND uid_mask)"

definition SessionIndex :: "u64 \<Rightarrow> u32" where
  "SessionIndex sid = ucast (drop_bit 48 sid)"

definition SessionUID :: "u64 \<Rightarrow> u64" where
  "SessionUID sid = sid AND uid_mask"

lemma uid_mask_mask: "uid_mask = mask 48"
  by (simp add: uid_mask_def mask_eq_exp_minus_1)

lemma bit_uid_mask: "bit uid_mask n \<longleftrightarrow> n < 48"
  by (auto simp: uid_mask_mask bit_mask_iff)

lemma SessionUID_Gen: "SessionUID (GenSessionID i u) = u AND uid_mask"
  by (rule bit_word_eqI)
    (auto simp: SessionUID_def GenSessionID_def bit_simps bit_uid_mask)

lemma SessionIndex_Gen_nat: "unat (SessionIndex (GenSessionID i u)) = unat i mod 65536"
proof -
  have "SessionIndex (GenSessionID i u) = take_bit 16 i"
    by (rule bit_word_eqI)
      (auto simp: SessionIndex_def GenSessionID_def bit_simps bit_uid_mask)
  then show ?thesis by (simp add: take_bit_eq_mod unat_mod_distrib)
qed

lemma SessionIndex_Gen: "unat i < 65536 \<Longrightarrow> SessionIndex (GenSessionID i u) = i"
  using SessionIndex_Gen_nat [of i u] by (simp add: unsigned_word_eqI)

subsection \<open>State\<close>

definition MAX_PACKET_COUNT_PER_SEND :: nat where
  "MAX_PACKET_COUNT_PER_SEND = 300"

record SessionState =
  ns_IsReleasedAtomic :: u32
  ns_IOCountAtomic :: int
  ns_mSocket :: "nat option"
  ns_mSessionID :: u64
  ns_mAddress :: string
  ns_mPort :: u16
  ns_PacketBuffer :: "nat option list"
  ns_PacketCount :: nat
  ns_TotalByteSize :: nat
  ns_IsSendingAtomic :: int
  ns_mRecvQueue :: RingBuffer
  ns_mSendQueue :: "nat LockFreeQueue"
  ns_mIsCloseSocket :: u32

definition IsReleased :: "'z SessionState_scheme \<Rightarrow> bool" where
  "IsReleased s \<longleftrightarrow> ns_IsReleasedAtomic s = 1"

definition IsClosed :: "'z SessionState_scheme \<Rightarrow> bool" where
  "IsClosed s \<longleftrightarrow> ns_mIsCloseSocket s = 1"

subsection \<open>The loops\<close>

text \<open>
  \<^verbatim>\<open>ReadySending\<close> moves packets from the send queue to the sending buffer and collects the buffers (packet and length)
  for \<^verbatim>\<open>WSASend\<close>.
\<close>

fun ready_loop :: "PacketPool \<Rightarrow> nat \<Rightarrow> 'z SessionState_scheme \<Rightarrow> (nat \<times> nat) list \<Rightarrow> ('z SessionState_scheme \<times> (nat \<times> nat) list) res" where
  "ready_loop pool 0 s out = Inr (s, out)"
| "ready_loop pool (Suc n) s out =
     rbind (Queue_TryDequeue (ns_mSendQueue s)) (\<lambda>(queue, r).
       let s = s\<lparr>ns_mSendQueue := queue\<rparr> in
       case r of
         None \<Rightarrow> Inr (s, out)
       | Some a \<Rightarrow>
           (case pp_objs pool a of
              None \<Rightarrow> Inl DeadObject
            | Some p \<Rightarrow>
                if ns_PacketCount s < length (ns_PacketBuffer s)
                then ready_loop pool n
                       (s\<lparr>ns_PacketBuffer := (ns_PacketBuffer s)[ns_PacketCount s := Some a],
                          ns_PacketCount := ns_PacketCount s + 1,
                          ns_TotalByteSize := ns_TotalByteSize s + GetPacketSize p\<rparr>)
                       (out @ [(a, GetPacketSize p)])
                else Inl MemFault))"

text \<open>\<^verbatim>\<open>FinishSending\<close> gives back one reference for every packet of the sending buffer.\<close>

fun finish_loop :: "nat option list \<Rightarrow> PacketPool \<Rightarrow> PacketPool res" where
  "finish_loop [] pool = Inr pool"
| "finish_loop (None # ps) pool = Inl LogicError"
| "finish_loop (Some a # ps) pool = rbind (TryFreePacket pool a) (\<lambda>(pool, _). finish_loop ps pool)"

text \<open>
  \<^verbatim>\<open>Release\<close> empties the send queue. \<^verbatim>\<open>TryDequeue\<close> takes one element per round, so the queue's counter
  bounds the number of rounds.
\<close>

fun drain_loop :: "nat \<Rightarrow> nat LockFreeQueue \<Rightarrow> PacketPool \<Rightarrow> (nat LockFreeQueue \<times> PacketPool) res" where
  "drain_loop fuel queue pool =
     (if Queue_IsEmpty queue then Inr (queue, pool)
      else case fuel of 0 \<Rightarrow> Inl Spin | Suc fuel \<Rightarrow>
        rbind (Queue_TryDequeue queue) (\<lambda>(queue, r).
          case r of
            None \<Rightarrow> drain_loop fuel queue pool
          | Some a \<Rightarrow> rbind (TryFreePacket pool a) (\<lambda>(pool, _). drain_loop fuel queue pool)))"

declare drain_loop.simps [simp del]

subsection \<open>Invariant and reference accounting\<close>

text \<open>
  \<open>sending s\<close> are the packets between \<^verbatim>\<open>ReadySending\<close> and \<^verbatim>\<open>FinishSending\<close>. A session holds one
  reference per occurrence of a packet in its send queue and among these. The parameters are the capacity of the receive
  queue and the value of \<^verbatim>\<open>IsSendingAtomic\<close> while a send is under way.
\<close>

definition sending :: "'z SessionState_scheme \<Rightarrow> nat list" where
  "sending s = map the (take (ns_PacketCount s) (ns_PacketBuffer s))"

definition sess_inv :: "nat \<Rightarrow> int \<Rightarrow> 'z SessionState_scheme \<Rightarrow> bool" where
  "sess_inv cap busy s \<longleftrightarrow>
     queue_inv (ns_mSendQueue s) \<and> rb_inv (ns_mRecvQueue s) \<and> rb_mMaxCapacity (ns_mRecvQueue s) = cap \<and>
     length (ns_PacketBuffer s) = MAX_PACKET_COUNT_PER_SEND \<and> ns_PacketCount s \<le> MAX_PACKET_COUNT_PER_SEND \<and>
     (\<forall>i < ns_PacketCount s. ns_PacketBuffer s ! i \<noteq> None) \<and>
     (ns_IsSendingAtomic s = 0 \<or> ns_IsSendingAtomic s = busy) \<and>
     (ns_IsSendingAtomic s = busy \<longleftrightarrow> 0 < ns_PacketCount s)"

definition session_refs :: "'z SessionState_scheme \<Rightarrow> nat list" where
  "session_refs s = sending s @ queue_list (ns_mSendQueue s)"

text \<open>The references to packet \<open>a\<close> that are not the session's.\<close>

definition others :: "'z SessionState_scheme \<Rightarrow> PacketPool \<Rightarrow> nat \<Rightarrow> int" where
  "others s pool a = pp_refs pool a - int (count_list (session_refs s) a)"

definition refs_in :: "nat \<Rightarrow> nat \<Rightarrow> 'z SessionState_scheme \<Rightarrow> PacketPool \<Rightarrow> bool" where
  "refs_in h c s pool \<longleftrightarrow> pool_inv h c pool \<and> (\<forall>a. 0 \<le> others s pool a)"

lemma take_PacketBuffer: "sess_inv cap busy s \<Longrightarrow> take (ns_PacketCount s) (ns_PacketBuffer s) = map Some (sending s)"
proof (rule nth_equalityI)
  assume inv: "sess_inv cap busy s"
  show "length (take (ns_PacketCount s) (ns_PacketBuffer s)) = length (map Some (sending s))"
    by (simp add: sending_def)
  fix i assume "i < length (take (ns_PacketCount s) (ns_PacketBuffer s))"
  then show "take (ns_PacketCount s) (ns_PacketBuffer s) ! i = map Some (sending s) ! i"
    using inv by (auto simp: sending_def sess_inv_def)
qed

lemma length_sending: "sess_inv cap busy s \<Longrightarrow> length (sending s) = ns_PacketCount s"
  by (simp add: sending_def sess_inv_def)

lemma queue_used: "queue_inv q \<Longrightarrow> q_mUsedSize q = int (length (queue_list q))"
  by (auto simp: queue_inv_def queue_list_eq) (simp add: queue_rep_def)

lemma Queue_IsEmpty_eq: "queue_inv q \<Longrightarrow> Queue_IsEmpty q \<longleftrightarrow> queue_list q = []"
  by (simp add: Queue_IsEmpty_def queue_used)

text \<open>Dropping a list of references that the pool counts.\<close>

lemma finish_loop_ok:
  assumes "pool_inv h c pool" "\<And>a. int (count_list as a) \<le> pp_refs pool a"
  obtains pool' where "finish_loop (map Some as) pool = Inr pool'" "pool_inv h c pool'"
    "pp_refs pool' = (\<lambda>a. pp_refs pool a - int (count_list as a))"
  using assms
proof (induction as arbitrary: pool thesis)
  case Nil
  then show ?case by simp
next
  case (Cons a as)
  have "0 < pp_refs pool a" using Cons.prems(3) [of a] by simp
  then obtain pool1 ok where p1: "TryFreePacket pool a = Inr (pool1, ok)" "pool_inv h c pool1"
    "pp_refs pool1 = (pp_refs pool)(a := pp_refs pool a - 1)"
    using TryFreePacket_ok [OF Cons.prems(2)] by metis
  have "int (count_list as b) \<le> pp_refs pool1 b" for b
    using Cons.prems(3) [of b] p1(3) by (auto split: if_splits)
  from Cons.IH [OF _ p1(2) this] obtain pool' where
    "finish_loop (map Some as) pool1 = Inr pool'" "pool_inv h c pool'"
    "pp_refs pool' = (\<lambda>b. pp_refs pool1 b - int (count_list as b))" by blast
  then show ?case using p1 by (intro Cons.prems(1) [of pool']) (auto simp: fun_eq_iff)
qed

lemma drain_loop_ok:
  assumes "queue_inv q" "pool_inv h c pool" "\<And>a. int (count_list (queue_list q) a) \<le> pp_refs pool a"
    and "length (queue_list q) \<le> fuel"
  obtains q' pool' where "drain_loop fuel q pool = Inr (q', pool')" "queue_inv q'" "queue_list q' = []" "pool_inv h c pool'"
    "pp_refs pool' = (\<lambda>a. pp_refs pool a - int (count_list (queue_list q) a))"
  using assms
proof (induction "queue_list q" arbitrary: q pool fuel thesis)
  case Nil
  then show ?case using Queue_IsEmpty_eq [OF Nil.prems(2)]
    by (intro Nil.prems(1) [of q pool]) (auto simp: drain_loop.simps)
next
  case (Cons a as)
  have ne: "\<not> Queue_IsEmpty q" using Queue_IsEmpty_eq [OF Cons.prems(2)] Cons.hyps(2) by auto
  obtain k where k: "fuel = Suc k" using Cons.prems(5) Cons.hyps(2) [symmetric] by (cases fuel) auto
  obtain q1 where q1: "Queue_TryDequeue q = Inr (q1, Some a)" "queue_inv q1" "queue_list q1 = as"
    using Queue_TryDequeue_law(2) [OF Cons.prems(2) Cons.hyps(2) [symmetric]] by blast
  have le: "int (count_list (a # as) b) \<le> pp_refs pool b" for b using Cons.prems(4) [of b] Cons.hyps(2) by simp
  have "0 < pp_refs pool a" using le [of a] by simp
  then obtain pool1 ok where p1: "TryFreePacket pool a = Inr (pool1, ok)" "pool_inv h c pool1"
    "pp_refs pool1 = (pp_refs pool)(a := pp_refs pool a - 1)"
    using TryFreePacket_ok [OF Cons.prems(3)] by metis
  have "int (count_list (queue_list q1) b) \<le> pp_refs pool1 b" for b
    using le [of b] p1(3) q1(3) by (auto split: if_splits)
  moreover have "length (queue_list q1) \<le> k"
    using Cons.prems(5) Cons.hyps(2) [symmetric] k q1(3) by simp
  ultimately obtain q' pool' where r: "drain_loop k q1 pool1 = Inr (q', pool')" "queue_inv q'" "queue_list q' = []"
    "pool_inv h c pool'" "pp_refs pool' = (\<lambda>b. pp_refs pool1 b - int (count_list as b))"
    using Cons.hyps(1) [OF q1(3) [symmetric] _ q1(2) p1(2)] q1(3) by metis
  then show ?case
    using p1 q1 ne k Cons.hyps(2) [symmetric]
    by (intro Cons.prems(1) [of q' pool']) (auto simp: drain_loop.simps [of "Suc k" q pool] fun_eq_iff)
qed

lemma count_list_append: "count_list (xs @ ys) a = count_list xs a + count_list ys a"
  by (induction xs) auto

lemma session_refs_le:
  assumes "refs_in h c s pool"
  shows "int (count_list (session_refs s) a) \<le> pp_refs pool a"
  using assms by (auto simp: refs_in_def others_def)

lemma session_refs_alive:
  assumes "refs_in h c s pool" "a \<in> set (session_refs s)"
  shows "a \<in> dom (pp_objs pool)"
proof -
  have "0 < count_list (session_refs s) a" using assms(2) count_list_0_iff [of "session_refs s" a] by blast
  then have "0 < pp_refs pool a" using session_refs_le [OF assms(1), of a] by simp
  then show ?thesis using assms(1) pp_refs_pos unfolding refs_in_def by blast
qed

lemma session_ghost_simps [simp]:
  "sess_inv cap busy (s\<lparr>ns_IsReleasedAtomic := r\<rparr>) = sess_inv cap busy s"
  "sess_inv cap busy (s\<lparr>ns_IOCountAtomic := n\<rparr>) = sess_inv cap busy s"
  "sess_inv cap busy (s\<lparr>ns_mIsCloseSocket := c\<rparr>) = sess_inv cap busy s"
  "session_refs (s\<lparr>ns_IsReleasedAtomic := r\<rparr>) = session_refs s" "session_refs (s\<lparr>ns_IOCountAtomic := n\<rparr>) = session_refs s"
  "session_refs (s\<lparr>ns_mIsCloseSocket := c\<rparr>) = session_refs s"
  by (simp_all add: sess_inv_def session_refs_def sending_def)

lemma others_ghost_simps [simp]:
  "others (s\<lparr>ns_IsReleasedAtomic := r\<rparr>) = others s" "others (s\<lparr>ns_IOCountAtomic := n\<rparr>) = others s"
  "others (s\<lparr>ns_mIsCloseSocket := c\<rparr>) = others s"
  by (simp_all add: others_def fun_eq_iff)

lemma refs_in_ghost_simps [simp]:
  "refs_in h c (s\<lparr>ns_IsReleasedAtomic := r\<rparr>) = refs_in h c s" "refs_in h c (s\<lparr>ns_IOCountAtomic := n\<rparr>) = refs_in h c s"
  "refs_in h c (s\<lparr>ns_mIsCloseSocket := b\<rparr>) = refs_in h c s"
  by (simp_all add: refs_in_def fun_eq_iff)

subsection \<open>Sending\<close>

lemma take_append_update:
  "n < length xs \<Longrightarrow> take (Suc n) (xs[n := y]) = take n xs @ [y]"
  by (simp add: take_Suc_conv_app_nth)

lemma ready_loop_ok:
  assumes "queue_inv (ns_mSendQueue s)" "queue_list (ns_mSendQueue s) = as @ bs"
    and "\<forall>a \<in> set as. a \<in> dom (pp_objs pool)"
    and "ns_PacketCount s + length as \<le> length (ns_PacketBuffer s)"
  shows "\<exists>s'. ready_loop pool (length as) s out =
      Inr (s', out @ map (\<lambda>a. (a, GetPacketSize (the (pp_objs pool a)))) as) \<and>
    queue_inv (ns_mSendQueue s') \<and> queue_list (ns_mSendQueue s') = bs \<and>
    take (ns_PacketCount s') (ns_PacketBuffer s') = take (ns_PacketCount s) (ns_PacketBuffer s) @ map Some as \<and>
    ns_PacketCount s' = ns_PacketCount s + length as \<and>
    s' = s\<lparr>ns_mSendQueue := ns_mSendQueue s', ns_PacketBuffer := ns_PacketBuffer s',
           ns_PacketCount := ns_PacketCount s', ns_TotalByteSize := ns_TotalByteSize s'\<rparr> \<and>
    length (ns_PacketBuffer s') = length (ns_PacketBuffer s) \<and>
    ns_TotalByteSize s' = ns_TotalByteSize s + (\<Sum>a\<leftarrow>as. GetPacketSize (the (pp_objs pool a)))"
  using assms
proof (induction as arbitrary: s out)
  case Nil
  then show ?case by simp
next
  case (Cons a as)
  obtain q where q: "Queue_TryDequeue (ns_mSendQueue s) = Inr (q, Some a)" "queue_inv q" "queue_list q = as @ bs"
    using Queue_TryDequeue_law(2) [OF Cons.prems(1) Cons.prems(2) [unfolded append_Cons]] by blast
  obtain p where p: "pp_objs pool a = Some p" using Cons.prems(3) by auto
  let ?n = "ns_PacketCount s"
  let ?s1 = "s\<lparr>ns_mSendQueue := q, ns_PacketBuffer := (ns_PacketBuffer s)[?n := Some a],
    ns_PacketCount := ?n + 1, ns_TotalByteSize := ns_TotalByteSize s + GetPacketSize p\<rparr>"
  have n: "?n < length (ns_PacketBuffer s)" using Cons.prems(4) by simp
  have step: "ready_loop pool (length (a # as)) s out = ready_loop pool (length as) ?s1 (out @ [(a, GetPacketSize p)])"
    using q(1) p n by simp
  have t: "take (ns_PacketCount ?s1) (ns_PacketBuffer ?s1) = take ?n (ns_PacketBuffer s) @ [Some a]"
    using take_append_update [OF n, of "Some a"] by simp
  obtain s' where s': "ready_loop pool (length as) ?s1 (out @ [(a, GetPacketSize p)]) =
      Inr (s', (out @ [(a, GetPacketSize p)]) @ map (\<lambda>a. (a, GetPacketSize (the (pp_objs pool a)))) as)"
    "queue_inv (ns_mSendQueue s')" "queue_list (ns_mSendQueue s') = bs"
    "take (ns_PacketCount s') (ns_PacketBuffer s') = take (ns_PacketCount ?s1) (ns_PacketBuffer ?s1) @ map Some as"
    "ns_PacketCount s' = ns_PacketCount ?s1 + length as"
    "s' = ?s1\<lparr>ns_mSendQueue := ns_mSendQueue s', ns_PacketBuffer := ns_PacketBuffer s',
           ns_PacketCount := ns_PacketCount s', ns_TotalByteSize := ns_TotalByteSize s'\<rparr>"
    "length (ns_PacketBuffer s') = length (ns_PacketBuffer ?s1)"
    "ns_TotalByteSize s' = ns_TotalByteSize ?s1 + (\<Sum>a\<leftarrow>as. GetPacketSize (the (pp_objs pool a)))"
    using Cons.IH [of ?s1 "out @ [(a, GetPacketSize p)]"] q Cons.prems(3,4) by auto
  show ?case
    using s' unfolding step t by (intro exI [of _ s']) (simp add: p)
qed

text \<open>
  The packets that the loop takes move from the queue to the sending buffer, in order, with their references.
\<close>

lemma ready_loop_session:
  assumes inv: "sess_inv cap busy s" and refs: "refs_in h c s pool" and idle: "ns_IsSendingAtomic s = 0"
    and busy: "busy \<noteq> 0" and as: "queue_list (ns_mSendQueue s) = as @ bs" "as \<noteq> []" "length as \<le> 300"
  obtains s' where "ready_loop pool (length as) (s\<lparr>ns_IsSendingAtomic := 1, ns_PacketCount := 0, ns_TotalByteSize := 0\<rparr>) [] =
      Inr (s', map (\<lambda>a. (a, GetPacketSize (the (pp_objs pool a)))) as)"
    "\<And>n. sending (s'\<lparr>ns_IsSendingAtomic := n\<rparr>) = as" "sess_inv cap busy (s'\<lparr>ns_IsSendingAtomic := busy\<rparr>)"
    "queue_list (ns_mSendQueue s') = bs" "ns_PacketCount s' = length as"
    "\<And>n. others (s'\<lparr>ns_IsSendingAtomic := n\<rparr>) pool = others s pool" "\<And>n. refs_in h c (s'\<lparr>ns_IsSendingAtomic := n\<rparr>) pool"
    "ns_TotalByteSize s' = (\<Sum>a\<leftarrow>as. GetPacketSize (the (pp_objs pool a)))"
    "s' = s\<lparr>ns_mSendQueue := ns_mSendQueue s', ns_PacketBuffer := ns_PacketBuffer s',
           ns_PacketCount := ns_PacketCount s', ns_TotalByteSize := ns_TotalByteSize s', ns_IsSendingAtomic := 1\<rparr>"
proof -
  let ?s0 = "s\<lparr>ns_IsSendingAtomic := 1, ns_PacketCount := 0, ns_TotalByteSize := 0\<rparr>"
  have q: "queue_inv (ns_mSendQueue s)" and c0: "ns_PacketCount s = 0" and lb: "length (ns_PacketBuffer s) = 300"
    using inv idle busy by (auto simp: sess_inv_def MAX_PACKET_COUNT_PER_SEND_def)
  have alive: "\<forall>a \<in> set as. a \<in> dom (pp_objs pool)"
    using session_refs_alive [OF refs] as(1) by (auto simp: session_refs_def)
  obtain s1 where s1: "ready_loop pool (length as) ?s0 [] =
      Inr (s1, map (\<lambda>a. (a, GetPacketSize (the (pp_objs pool a)))) as)"
    "queue_inv (ns_mSendQueue s1)" "queue_list (ns_mSendQueue s1) = bs"
    "take (ns_PacketCount s1) (ns_PacketBuffer s1) = map Some as" "ns_PacketCount s1 = length as"
    "s1 = ?s0\<lparr>ns_mSendQueue := ns_mSendQueue s1, ns_PacketBuffer := ns_PacketBuffer s1,
           ns_PacketCount := ns_PacketCount s1, ns_TotalByteSize := ns_TotalByteSize s1\<rparr>"
    "length (ns_PacketBuffer s1) = 300" "ns_TotalByteSize s1 = (\<Sum>a\<leftarrow>as. GetPacketSize (the (pp_objs pool a)))"
    using ready_loop_ok [of ?s0 as bs pool "[]"] q as(1,3) alive lb by auto
  have send: "sending (s1\<lparr>ns_IsSendingAtomic := n\<rparr>) = as" for n using s1(4) by (simp add: sending_def comp_def)
  have nn: "ns_PacketBuffer s1 ! i \<noteq> None" if "i < length as" for i
    using arg_cong [OF s1(4), of "\<lambda>xs. xs ! i"] that s1(5) by simp
  have sel: "ns_mRecvQueue s1 = ns_mRecvQueue s" by (subst s1(6)) simp
  have "sess_inv cap busy (s1\<lparr>ns_IsSendingAtomic := busy\<rparr>)"
    using inv s1(2,5,7) nn as(2,3) sel by (simp add: sess_inv_def MAX_PACKET_COUNT_PER_SEND_def)
  moreover have "session_refs (s1\<lparr>ns_IsSendingAtomic := n\<rparr>) = session_refs s" for n
    using send [of n] s1(3) as(1) c0 by (simp add: session_refs_def) (simp add: sending_def)
  then have "others (s1\<lparr>ns_IsSendingAtomic := n\<rparr>) pool = others s pool" for n by (simp add: others_def fun_eq_iff)
  moreover have "s1 = s\<lparr>ns_mSendQueue := ns_mSendQueue s1, ns_PacketBuffer := ns_PacketBuffer s1,
           ns_PacketCount := ns_PacketCount s1, ns_TotalByteSize := ns_TotalByteSize s1, ns_IsSendingAtomic := 1\<rparr>"
    by (subst s1(6)) simp
  ultimately show ?thesis
    using that [of s1] send s1(1,3,5,8) refs by (simp add: refs_in_def)
qed

text \<open>Giving back the references of the sending buffer.\<close>

lemma finish_loop_session:
  assumes inv: "sess_inv cap busy s" and refs: "refs_in h c s pool" and busy: "busy \<noteq> 0"
  obtains pool' where "finish_loop (take (ns_PacketCount s) (ns_PacketBuffer s)) pool = Inr pool'"
    "sess_inv cap busy (s\<lparr>ns_PacketCount := 0, ns_TotalByteSize := 0, ns_IsSendingAtomic := 0\<rparr>)"
    "\<And>n. others (s\<lparr>ns_PacketCount := 0, ns_TotalByteSize := 0, ns_IsSendingAtomic := n\<rparr>) pool' = others s pool"
    "\<And>n. refs_in h c (s\<lparr>ns_PacketCount := 0, ns_TotalByteSize := 0, ns_IsSendingAtomic := n\<rparr>) pool'"
proof -
  have "int (count_list (sending s) a) \<le> pp_refs pool a" for a
    using session_refs_le [OF refs, of a] by (simp add: session_refs_def count_list_append)
  then obtain pool' where p: "finish_loop (map Some (sending s)) pool = Inr pool'" "pool_inv h c pool'"
    "pp_refs pool' = (\<lambda>a. pp_refs pool a - int (count_list (sending s) a))"
    using finish_loop_ok [of h c pool "sending s"] refs unfolding refs_in_def by metis
  let ?s' = "\<lambda>n. s\<lparr>ns_PacketCount := 0, ns_TotalByteSize := 0, ns_IsSendingAtomic := n\<rparr>"
  have "session_refs (?s' n) = queue_list (ns_mSendQueue s)" for n by (simp add: session_refs_def sending_def)
  then have o: "others (?s' n) pool' = others s pool" for n
    by (simp add: others_def p(3) session_refs_def [of s] count_list_append fun_eq_iff)
  have "sess_inv cap busy (?s' 0)" using inv busy by (simp add: sess_inv_def)
  then show ?thesis
    using that [of pool'] o p(1,2) refs by (simp add: refs_in_def take_PacketBuffer [OF inv])
qed

text \<open>Emptying the send queue.\<close>

lemma drain_loop_session:
  assumes inv: "sess_inv cap busy s" and refs: "refs_in h c s pool"
  obtains q pool' where "drain_loop (nat (q_mUsedSize (ns_mSendQueue s))) (ns_mSendQueue s) pool = Inr (q, pool')"
    "sess_inv cap busy (s\<lparr>ns_mSendQueue := q\<rparr>)" "queue_list q = []" "refs_in h c (s\<lparr>ns_mSendQueue := q\<rparr>) pool'"
    "others (s\<lparr>ns_mSendQueue := q\<rparr>) pool' = others s pool"
proof -
  have q: "queue_inv (ns_mSendQueue s)" using inv by (simp add: sess_inv_def)
  have pinv: "pool_inv h c pool" using refs by (simp add: refs_in_def)
  have le: "int (count_list (queue_list (ns_mSendQueue s)) a) \<le> pp_refs pool a" for a
    using session_refs_le [OF refs, of a] by (simp add: session_refs_def count_list_append)
  obtain q' pool1 where d: "drain_loop (nat (q_mUsedSize (ns_mSendQueue s))) (ns_mSendQueue s) pool = Inr (q', pool1)"
    "queue_inv q'" "queue_list q' = []" "pool_inv h c pool1"
    "pp_refs pool1 = (\<lambda>a. pp_refs pool a - int (count_list (queue_list (ns_mSendQueue s)) a))"
    by (rule drain_loop_ok [OF q pinv, of "nat (q_mUsedSize (ns_mSendQueue s))"])
      (simp_all add: queue_used [OF q] le)
  have snd: "sending (s\<lparr>ns_mSendQueue := q'\<rparr>) = sending s" by (simp add: sending_def)
  have o: "others (s\<lparr>ns_mSendQueue := q'\<rparr>) pool1 = others s pool"
    by (auto simp: others_def session_refs_def d(3,5) snd count_list_append)
  moreover have "sess_inv cap busy (s\<lparr>ns_mSendQueue := q'\<rparr>)" using inv d(2) by (auto simp: sess_inv_def)
  ultimately show ?thesis using that [of q' pool1] d refs by (simp add: refs_in_def)
qed

text \<open>Queueing a packet, with a reference for the session.\<close>

lemma enqueue_session:
  assumes inv: "sess_inv cap busy s" and refs: "refs_in h c s pool" and a: "0 < pp_refs pool a"
  obtains q pool' where "AddRefPacket pool a = Inr pool'" "Queue_Enqueue (ns_mSendQueue s) a = Inr (q, True)"
    "sess_inv cap busy (s\<lparr>ns_mSendQueue := q\<rparr>)" "refs_in h c (s\<lparr>ns_mSendQueue := q\<rparr>) pool'"
    "queue_list q = queue_list (ns_mSendQueue s) @ [a]" "others (s\<lparr>ns_mSendQueue := q\<rparr>) pool' = others s pool"
    "pp_refs pool' = (pp_refs pool)(a := pp_refs pool a + 1)"
proof -
  obtain pool' where p: "AddRefPacket pool a = Inr pool'" "pool_inv h c pool'"
    "pp_refs pool' = (pp_refs pool)(a := pp_refs pool a + 1)"
    using AddRefPacket_ok [of h c pool a] refs a unfolding refs_in_def by metis
  obtain q where q: "Queue_Enqueue (ns_mSendQueue s) a = Inr (q, True)" "queue_inv q"
    "queue_list q = queue_list (ns_mSendQueue s) @ [a]"
    using Queue_Enqueue_law [of "ns_mSendQueue s" a] inv unfolding sess_inv_def by blast
  have "others (s\<lparr>ns_mSendQueue := q\<rparr>) pool' = others s pool"
    using p(3) q(3) by (auto simp: others_def session_refs_def sending_def count_list_append)
  then show ?thesis
    using p q inv refs by (intro that [of pool' q]) (auto simp: sess_inv_def refs_in_def)
qed

end
