(* ===== verification/Core_State.thy ===== *)
theory Core_State
  imports Net_Recv Session_State
begin

text \<open>
  What \<^verbatim>\<open>NetCore\<close> and \<^verbatim>\<open>LanCore\<close> have in common: the options and errors, the state of a server (the sessions, the stack
  of unused sessions, the packet pools, the counters), and the I/O counts that decide when a session is released. A session
  pointer is the index of the session in \<^verbatim>\<open>mSessionPool\<close>. \<open>nc_recvs\<close> and \<open>nc_sends\<close> count, for each session, the \<^verbatim>\<open>WSARecv\<close>
  and \<^verbatim>\<open>WSASend\<close> requests that were accepted and have not completed; \<open>nc_log\<close> is the history of the calls of the
  event handler and of \<^verbatim>\<open>closesocket\<close>; \<open>nc_world\<close> is the state of the application.

  The invariant is stated once for both servers, relative to a class of sessions (\<open>session_class\<close>). The locale \<open>io_sessions\<close>
  holds what follows for every operation that changes one session; it is interpreted on the sessions of both servers.
\<close>

subsection \<open>Options and errors\<close>

record KeepAliveOption =
  ka_IsOn :: bool
  ka_LiveMS :: u32
  ka_IntervalMS :: u32

record ServerComponentOption = NetOption +
  so_Address :: string
  so_Port :: u16
  so_IsEnableNagle :: bool
  so_KeepAliveOption :: KeepAliveOption
  so_NetworkIOThreadCount :: u32
  so_MaxSessionCount :: u32

definition default_option :: ServerComponentOption where
  "default_option = \<lparr>no_MaxPacketBodyLength = 2048, no_PacketCode = 0, no_PacketEncodeKey = 0,
     so_Address = ''127.0.0.1'', so_Port = 9090, so_IsEnableNagle = True,
     so_KeepAliveOption = \<lparr>ka_IsOn = True, ka_LiveMS = 60 * 1000, ka_IntervalMS = 10 * 1000\<rparr>,
     so_NetworkIOThreadCount = 2, so_MaxSessionCount = 150\<rparr>"

datatype eServerComponentError =
    AlreadyRunning | NeedToRegisterEventHandler | InvalidOption
  | Fail_WSAStartup | Fail_CreateIoCompletionPort_IOHandle | Fail_socket_serverSock
  | Fail_bind_serverSock | Fail_listen_serverSock | Fail_setsockopt | Fail_WSAIoctl

definition ValidateOption :: "ServerComponentOption \<Rightarrow> bool" where
  "ValidateOption option = (\<not> 8 < so_NetworkIOThreadCount option)"

subsection \<open>State\<close>

datatype nc_event =
    OnConnectionRequested string u16
  | OnConnected u64
  | OnReceived u64 "byte list"
  | OnSent u64 nat
  | OnDisconnected u64
  | Closesocket "nat option"

record ('v, 'w) core_state =
  nc_mSessionPool :: "'v list"
  nc_mUnusedSession :: "nat LockFreeStack"
  nc_mConnectedSessionCount :: int
  nc_send :: PacketPool
  nc_recv :: PacketPool
  nc_option :: ServerComponentOption
  nc_mRecvCountPerSec :: int
  nc_mSendCountPerSec :: int
  nc_mAcceptTotal :: nat
  nc_mAcceptCountPerSec :: nat
  nc_recvs :: "nat \<Rightarrow> nat"
  nc_sends :: "nat \<Rightarrow> nat"
  nc_log :: "nc_event list"
  nc_world :: 'w

definition ses :: "('v, 'w, 'y) core_state_scheme \<Rightarrow> nat \<Rightarrow> 'v" where
  "ses s i = nc_mSessionPool s ! i"

definition set_ses :: "nat \<Rightarrow> 'v \<Rightarrow> ('v, 'w, 'y) core_state_scheme \<Rightarrow> ('v, 'w, 'y) core_state_scheme" where
  "set_ses i v s = s\<lparr>nc_mSessionPool := (nc_mSessionPool s)[i := v]\<rparr>"

definition put_log :: "nc_event \<Rightarrow> ('v, 'w, 'y) core_state_scheme \<Rightarrow> ('v, 'w, 'y) core_state_scheme" where
  "put_log e s = s\<lparr>nc_log := nc_log s @ [e]\<rparr>"

subsection \<open>I/O counts and requests\<close>

text \<open>\<^verbatim>\<open>IncrementIO\<close> and \<^verbatim>\<open>DecrementIO\<close> of both session managers.\<close>

definition IncrementIO :: "nat \<Rightarrow> ('z SessionState_scheme, 'w, 'y) core_state_scheme \<Rightarrow> ('z SessionState_scheme, 'w, 'y) core_state_scheme \<times> int" where
  "IncrementIO i s =
     (let n = ns_IOCountAtomic (ses s i) + 1 in (set_ses i ((ses s i)\<lparr>ns_IOCountAtomic := n\<rparr>) s, n))"

definition DecrementIO :: "nat \<Rightarrow> ('z SessionState_scheme, 'w, 'y) core_state_scheme \<Rightarrow> (('z SessionState_scheme, 'w, 'y) core_state_scheme \<times> int) res" where
  "DecrementIO i s =
     (let n = ns_IOCountAtomic (ses s i) - 1 in
      if n < 0 then Inl LogicError else Inr (set_ses i ((ses s i)\<lparr>ns_IOCountAtomic := n\<rparr>) s, n))"

datatype wsa_reply = WSA_Done | WSA_Error int

definition WSA_IO_PENDING :: int where
  "WSA_IO_PENDING = 997"

definition wsa_posted :: "wsa_reply \<Rightarrow> bool" where
  "wsa_posted r = (case r of WSA_Done \<Rightarrow> True | WSA_Error e \<Rightarrow> e = WSA_IO_PENDING)"

text \<open>What the socket calls answer, \<open>True\<close> for success, and what an accepted connection brings.\<close>

record sockopt_replies =
  sr_rcvbuf :: bool
  sr_sndbuf :: bool
  sr_linger :: bool
  sr_nodelay :: bool
  sr_keepalive :: bool

record accept_env =
  ae_sock :: nat
  ae_opts :: sockopt_replies
  ae_addr :: "string option"
  ae_port :: u16
  ae_port_created :: bool
  ae_recv :: wsa_reply
  ae_garbage :: nat

datatype overlapped = SendOverlapped | RecvOverlapped | OtherOverlapped

text \<open>What \<^verbatim>\<open>GetQueuedCompletionStatus\<close> reports; session 0 (a null completion key) is \<open>None\<close>.\<close>

record completion =
  cp_isSuccess :: bool
  cp_transferred :: nat
  cp_session :: "nat option"
  cp_overlapped :: "overlapped option"
  cp_lastError :: int
  cp_reply :: wsa_reply

text \<open>A request of session \<open>i\<close> that completes is not outstanding any more.\<close>

definition completed :: "nat \<Rightarrow> overlapped \<Rightarrow> ('v, 'w, 'y) core_state_scheme \<Rightarrow> ('v, 'w, 'y) core_state_scheme" where
  "completed i ov s =
     (case ov of
        RecvOverlapped \<Rightarrow> s\<lparr>nc_recvs := (nc_recvs s)(i := nc_recvs s i - 1)\<rparr>
      | SendOverlapped \<Rightarrow> s\<lparr>nc_sends := (nc_sends s)(i := nc_sends s i - 1)\<rparr>
      | OtherOverlapped \<Rightarrow> s)"

text \<open>What the calls of \<^verbatim>\<open>Start\<close> answer.\<close>

record start_replies =
  st_startup :: bool
  st_iocp :: bool
  st_socket :: bool
  st_rcvbuf :: bool
  st_sndbuf :: bool
  st_bind :: bool
  st_listen :: bool

subsection \<open>The history of one session id\<close>

text \<open>
  \<open>session_log sid log\<close> is \<open>None\<close> when the calls of the handler for \<open>sid\<close> are out of order: \<^verbatim>\<open>OnConnected\<close> comes
  first, then any number of \<^verbatim>\<open>OnReceived\<close> and \<^verbatim>\<open>OnSent\<close>, then \<^verbatim>\<open>OnDisconnected\<close>, once each. Otherwise it says whether
  the id is connected at the end.
\<close>

fun conn_step :: "u64 \<Rightarrow> nc_event \<Rightarrow> bool option \<Rightarrow> bool option" where
  "conn_step sid e None = None"
| "conn_step sid (OnConnected z) (Some c) = (if z = sid then if c then None else Some True else Some c)"
| "conn_step sid (OnDisconnected z) (Some c) = (if z = sid then if c then Some False else None else Some c)"
| "conn_step sid (OnReceived z body) (Some c) = (if z = sid \<and> \<not> c then None else Some c)"
| "conn_step sid (OnSent z n) (Some c) = (if z = sid \<and> \<not> c then None else Some c)"
| "conn_step sid (OnConnectionRequested addr port) (Some c) = Some c"
| "conn_step sid (Closesocket sock) (Some c) = Some c"

definition session_log :: "u64 \<Rightarrow> nc_event list \<Rightarrow> bool option" where
  "session_log sid log = fold (conn_step sid) log (Some False)"

lemma session_log_snoc: "session_log sid (log @ [e]) = conn_step sid e (session_log sid log)"
  by (simp add: session_log_def)

subsection \<open>The invariant\<close>

text \<open>
  A class of sessions: the invariant of the session in slot \<open>i\<close>, and the kind of packets in its pools.
\<close>

record 'v session_class =
  sc_inv :: "nat \<Rightarrow> 'v \<Rightarrow> bool"
  sc_tHeaderSize :: nat
  sc_tBodyCapacity :: nat

definition live :: "('z SessionState_scheme, 'w, 'y) core_state_scheme \<Rightarrow> nat \<Rightarrow> bool" where
  "live s i \<longleftrightarrow> ns_IsReleasedAtomic (ses s i) = 0"

text \<open>
  \<open>x\<close>, \<open>r\<close> and \<open>w\<close> are the I/O counts held by functions under way, by receives and by sends that are outstanding.
\<close>

definition slot_in :: "('z SessionState_scheme) session_class \<Rightarrow> nat \<Rightarrow> nat \<Rightarrow> nat \<Rightarrow> nat \<Rightarrow> 'z SessionState_scheme \<Rightarrow> bool" where
  "slot_in k i x r w v \<longleftrightarrow>
     sc_inv k i v \<and> ns_IOCountAtomic v = int (x + r + w) \<and> r \<le> 1 \<and> w \<le> 1 \<and> (w = 1 \<longrightarrow> ns_IsSendingAtomic v \<noteq> 0) \<and>
     (if ns_IsReleasedAtomic v = 0
      then \<exists>uid. uid \<noteq> 0 \<and> uid AND uid_mask = uid \<and> ns_mSessionID v = GenSessionID (of_nat i) uid
      else ns_IsReleasedAtomic v = 1 \<and> IsClosed v \<and> ns_mSocket v = None \<and> ns_mSessionID v = 0 \<and>
        session_refs v = [] \<and> x + r + w = 0)"

definition held :: "('z SessionState_scheme, 'w, 'y) core_state_scheme \<Rightarrow> nat \<Rightarrow> int" where
  "held s a = (\<Sum>v\<leftarrow>nc_mSessionPool s. int (count_list (session_refs v) a))"

text \<open>
  What the application has at stake: the references to packets of the send pool that are its own (\<open>ap_refs\<close>), and the
  invariant of its state (\<open>ap_ok\<close>).
\<close>

record 'w app =
  ap_refs :: "nat \<Rightarrow> int"
  ap_ok :: "nat \<Rightarrow> 'w \<Rightarrow> bool"

text \<open>
  The invariant of a server. It has two ghost parameters: \<open>x i\<close> is the number of I/O counts of session
  \<open>i\<close> that a function under way holds (an acquired session, or the completion that is being handled), \<open>W\<close>
  the sessions between \<^verbatim>\<open>NewSessionOrNull\<close> and their first \<^verbatim>\<open>RecvPost\<close>, the only live ones that may have an
  I/O count of 0.
\<close>

definition core_base_in :: "('z SessionState_scheme) session_class \<Rightarrow> 'w app \<Rightarrow> (nat \<Rightarrow> nat) \<Rightarrow> nat set \<Rightarrow>
    ('z SessionState_scheme, 'w, 'y) core_state_scheme \<Rightarrow> bool" where
  "core_base_in k K x W s \<longleftrightarrow>
     (let n = length (nc_mSessionPool s) in
      n \<le> 65536 \<and>
      (\<forall>i<n. slot_in k i (x i) (nc_recvs s i) (nc_sends s i) (ses s i)) \<and>
      (\<forall>i<n. live s i \<and> i \<notin> W \<longrightarrow> 0 < x i + nc_recvs s i + nc_sends s i) \<and>
      stack_inv n (nc_mUnusedSession s) \<and> distinct (stack_list (nc_mUnusedSession s)) \<and>
      set (stack_list (nc_mUnusedSession s)) = {i. i < n \<and> \<not> live s i} \<and>
      nc_mConnectedSessionCount s = int (card {i. i < n \<and> live s i}) \<and>
      pool_inv (sc_tHeaderSize k) (sc_tBodyCapacity k) (nc_send s) \<and> (\<forall>a. held s a + ap_refs K a \<le> pp_refs (nc_send s) a) \<and>
      pool_inv (sc_tHeaderSize k) (sc_tBodyCapacity k) (nc_recv s) \<and>
      (\<forall>a. 0 \<le> ap_refs K a) \<and> ap_ok K n (nc_world s))"

definition log_ok :: "('z SessionState_scheme, 'w, 'y) core_state_scheme \<Rightarrow> bool" where
  "log_ok s \<longleftrightarrow>
     (\<forall>sid. session_log sid (nc_log s) =
        Some (\<exists>i < length (nc_mSessionPool s). live s i \<and> ns_mSessionID (ses s i) = sid))"

definition core_inv_in :: "('z SessionState_scheme) session_class \<Rightarrow> 'w app \<Rightarrow> (nat \<Rightarrow> nat) \<Rightarrow> nat set \<Rightarrow>
    ('z SessionState_scheme, 'w, 'y) core_state_scheme \<Rightarrow> bool" where
  "core_inv_in k K x W s \<longleftrightarrow> core_base_in k K x W s \<and> log_ok s"

text \<open>What a callback, or a function called in its place, leaves alone.\<close>

definition core_frame :: "('z SessionState_scheme, 'w, 'y) core_state_scheme \<Rightarrow> ('z SessionState_scheme, 'w, 'y) core_state_scheme \<Rightarrow> bool" where
  "core_frame s s' \<longleftrightarrow>
     length (nc_mSessionPool s') = length (nc_mSessionPool s) \<and> nc_recvs s' = nc_recvs s \<and> nc_option s' = nc_option s \<and>
     nc_recv s' = nc_recv s \<and>
     (\<forall>i < length (nc_mSessionPool s). live s' i \<longrightarrow>
        live s i \<and> ns_mSessionID (ses s' i) = ns_mSessionID (ses s i) \<and> ns_mRecvQueue (ses s' i) = ns_mRecvQueue (ses s i))"

lemma core_frame_refl [simp]: "core_frame s s"
  by (simp add: core_frame_def)

lemma core_frame_trans: "core_frame s s' \<Longrightarrow> core_frame s' s'' \<Longrightarrow> core_frame s s''"
  by (simp add: core_frame_def)

subsection \<open>Changing one session\<close>

lemma ses_set_ses: "ses (set_ses i v s) j = (if j = i \<and> i < length (nc_mSessionPool s) then v else ses s j)"
  by (cases "i < length (nc_mSessionPool s)") (auto simp: ses_def set_ses_def not_less list_update_beyond)

lemma ses_set_same [simp]: "i < length (nc_mSessionPool s) \<Longrightarrow> ses (set_ses i v s) i = v"
  by (simp add: ses_set_ses)

lemma set_ses_sel [simp]:
  "nc_mUnusedSession (set_ses i v s) = nc_mUnusedSession s" "nc_send (set_ses i v s) = nc_send s"
  "nc_recv (set_ses i v s) = nc_recv s" "nc_recvs (set_ses i v s) = nc_recvs s" "nc_sends (set_ses i v s) = nc_sends s"
  "nc_log (set_ses i v s) = nc_log s" "nc_option (set_ses i v s) = nc_option s"
  "nc_mConnectedSessionCount (set_ses i v s) = nc_mConnectedSessionCount s" "nc_world (set_ses i v s) = nc_world s"
  "length (nc_mSessionPool (set_ses i v s)) = length (nc_mSessionPool s)"
  by (simp_all add: set_ses_def)

lemma sum_list_map_update:
  fixes f :: "'a \<Rightarrow> int"
  shows "i < length xs \<Longrightarrow> sum_list (map f (xs[i := v])) = sum_list (map f xs) - f (xs ! i) + f v"
  by (induction xs arbitrary: i) (auto split: nat.split)

lemma held_nonneg_part: "i < length (nc_mSessionPool s) \<Longrightarrow> int (count_list (session_refs (ses s i)) a) \<le> held s a"
  unfolding held_def ses_def by (rule member_le_sum_list) auto

lemma held_update:
  assumes "i < length (nc_mSessionPool s)" "nc_mSessionPool s' = (nc_mSessionPool s)[i := v]"
    and "others v (nc_send s') = others (ses s i) (nc_send s)" "held s a + m \<le> pp_refs (nc_send s) a"
  shows "held s' a + m \<le> pp_refs (nc_send s') a"
  using assms(1,2,4) fun_cong [OF assms(3), of a]
  by (simp add: held_def sum_list_map_update others_def ses_def)

lemma core_frame_update:
  assumes "nc_mSessionPool s' = (nc_mSessionPool s)[i := v]" "i < length (nc_mSessionPool s)"
    "nc_recvs s' = nc_recvs s" "nc_option s' = nc_option s" "nc_recv s' = nc_recv s"
    "ns_IsReleasedAtomic v = 0 \<Longrightarrow>
       live s i \<and> ns_mSessionID v = ns_mSessionID (ses s i) \<and> ns_mRecvQueue v = ns_mRecvQueue (ses s i)"
  shows "core_frame s s'"
  using assms by (auto simp: core_frame_def live_def ses_def nth_list_update split: if_splits)

subsection \<open>The laws of a class of sessions\<close>

text \<open>The invariant of a session does not depend on its I/O count.\<close>

locale io_sessions =
  fixes k :: "('z SessionState_scheme) session_class"
  assumes sc_io: "sc_inv k i (v\<lparr>ns_IOCountAtomic := n\<rparr>) = sc_inv k i v"

context io_sessions
begin

abbreviation pool_ok :: "PacketPool \<Rightarrow> bool" where
  "pool_ok \<equiv> pool_inv (sc_tHeaderSize k) (sc_tBodyCapacity k)"

abbreviation refs_held :: "'z SessionState_scheme \<Rightarrow> PacketPool \<Rightarrow> bool" where
  "refs_held \<equiv> refs_in (sc_tHeaderSize k) (sc_tBodyCapacity k)"

lemma slot_inD:
  assumes "slot_in k i x r w v"
  shows "sc_inv k i v" "ns_IOCountAtomic v = int (x + r + w)" "r \<le> 1" "w \<le> 1"
    "ns_IsReleasedAtomic v = 0 \<or> ns_IsReleasedAtomic v = 1"
    "0 < x + r + w \<Longrightarrow> ns_IsReleasedAtomic v = 0"
    "w = 1 \<Longrightarrow> ns_IsSendingAtomic v \<noteq> 0"
  using assms by (auto simp: slot_in_def split: if_splits)

lemma core_baseD:
  assumes "core_base_in k K x W s" "i < length (nc_mSessionPool s)"
  shows "slot_in k i (x i) (nc_recvs s i) (nc_sends s i) (ses s i)"
    and "pool_ok (nc_send s)" "held s a + ap_refs K a \<le> pp_refs (nc_send s) a" "0 \<le> ap_refs K a" "held s a \<le> pp_refs (nc_send s) a"
    and "stack_inv (length (nc_mSessionPool s)) (nc_mUnusedSession s)" "distinct (stack_list (nc_mUnusedSession s))"
      "set (stack_list (nc_mUnusedSession s)) = {i. i < length (nc_mSessionPool s) \<and> \<not> live s i}"
    and "nc_mConnectedSessionCount s = int (card {i. i < length (nc_mSessionPool s) \<and> live s i})"
  using assms by (auto simp: core_base_in_def Let_def) (metis add_increasing2 order_refl order_trans)

lemma core_invD:
  assumes "core_inv_in k K x W s" "i < length (nc_mSessionPool s)"
  shows "slot_in k i (x i) (nc_recvs s i) (nc_sends s i) (ses s i)"
    and "live s i \<Longrightarrow> i \<notin> W \<Longrightarrow> 0 < x i + nc_recvs s i + nc_sends s i"
    and "pool_ok (nc_send s)" "pool_ok (nc_recv s)" "length (nc_mSessionPool s) \<le> 65536"
    and "session_log sid (nc_log s) = Some (\<exists>i<length (nc_mSessionPool s). live s i \<and> ns_mSessionID (ses s i) = sid)"
  using assms by (auto simp: core_inv_in_def core_base_in_def log_ok_def Let_def)

lemma core_inv_live: "core_inv_in k K x W s \<Longrightarrow> i < length (nc_mSessionPool s) \<Longrightarrow> 0 < x i \<Longrightarrow> live s i"
  using slot_inD(6) [OF core_invD(1), of K x W s i] by (simp add: live_def)

lemma core_base_refs_ok:
  assumes "core_base_in k K x W s" "i < length (nc_mSessionPool s)"
  shows "refs_held (ses s i) (nc_send s)"
  using core_baseD(2,5) [OF assms] held_nonneg_part [OF assms(2)] order_trans
  by (fastforce simp: refs_in_def others_def)

lemma core_inv_refs_ok:
  "core_inv_in k K x W s \<Longrightarrow> i < length (nc_mSessionPool s) \<Longrightarrow> refs_held (ses s i) (nc_send s)"
  unfolding core_inv_in_def by (blast intro: core_base_refs_ok)

text \<open>
  The rule for every operation that changes one session and keeps its release state and its id.
\<close>

lemma core_inv_update:
  assumes inv: "core_inv_in k K x W s" and i: "i < length (nc_mSessionPool s)"
    and s': "nc_mSessionPool s' = (nc_mSessionPool s)[i := v]" "nc_mUnusedSession s' = nc_mUnusedSession s"
      "nc_mConnectedSessionCount s' = nc_mConnectedSessionCount s" "pool_ok (nc_recv s')" "nc_world s' = nc_world s"
      "\<And>sid. session_log sid (nc_log s') = session_log sid (nc_log s)"
    and other: "\<And>j. j \<noteq> i \<Longrightarrow> x' j = x j \<and> nc_recvs s' j = nc_recvs s j \<and> nc_sends s' j = nc_sends s j"
    and slot: "slot_in k i (x' i) (nc_recvs s' i) (nc_sends s' i) v"
    and same: "ns_IsReleasedAtomic v = ns_IsReleasedAtomic (ses s i)" "ns_mSessionID v = ns_mSessionID (ses s i)"
    and busy: "live s i \<Longrightarrow> i \<notin> W \<Longrightarrow> 0 < x' i + nc_recvs s' i + nc_sends s' i"
    and pool: "pool_ok (nc_send s')" "others v (nc_send s') = others (ses s i) (nc_send s)"
  shows "core_inv_in k K x' W s'"
proof -
  have ses: "ses s' j = (if j = i then v else ses s j)" for j
    using s'(1) i by (simp add: ses_def nth_list_update)
  have live: "live s' j = live s j" for j using same(1) by (simp add: live_def ses)
  have id: "ns_mSessionID (ses s' j) = ns_mSessionID (ses s j)" for j using same(2) by (simp add: ses)
  have n: "length (nc_mSessionPool s') = length (nc_mSessionPool s)" using s'(1) by simp
  have "held s' a + ap_refs K a \<le> pp_refs (nc_send s') a" for a
    using held_update [OF i s'(1) pool(2)] inv by (simp add: core_inv_in_def core_base_in_def log_ok_def Let_def)
  moreover have "\<forall>j < length (nc_mSessionPool s). slot_in k j (x' j) (nc_recvs s' j) (nc_sends s' j) (ses s' j)"
    using core_invD(1) [OF inv] slot other by (simp add: ses)
  moreover have "\<forall>j < length (nc_mSessionPool s). live s j \<and> j \<notin> W \<longrightarrow> 0 < x' j + nc_recvs s' j + nc_sends s' j"
    using core_invD(2) [OF inv] busy other by metis
  ultimately show ?thesis
    using inv s'(2-6) pool(1) unfolding core_inv_in_def core_base_in_def log_ok_def Let_def n live id by simp
qed

text \<open>Changes outside the sessions: the history, the receive pool, the counters, the application's state.\<close>

lemma core_inv_sessions:
  assumes inv: "core_inv_in k K x W s"
    and s': "nc_mSessionPool s' = nc_mSessionPool s" "nc_mUnusedSession s' = nc_mUnusedSession s"
      "nc_mConnectedSessionCount s' = nc_mConnectedSessionCount s" "pool_ok (nc_recv s')" "nc_world s' = nc_world s"
      "\<And>sid. session_log sid (nc_log s') = session_log sid (nc_log s)"
      "nc_recvs s' = nc_recvs s" "nc_sends s' = nc_sends s"
    and pool: "pool_ok (nc_send s')" "\<And>a. pp_refs (nc_send s) a \<le> pp_refs (nc_send s') a"
  shows "core_inv_in k K x W s'"
proof -
  have "ses s' = ses s" "live s' = live s" "held s' = held s"
    using s'(1) by (simp_all add: ses_def live_def held_def fun_eq_iff)
  moreover have "held s a + ap_refs K a \<le> pp_refs (nc_send s) a" for a using inv by (simp add: core_inv_in_def core_base_in_def log_ok_def Let_def)
  then have "held s a + ap_refs K a \<le> pp_refs (nc_send s') a" for a using pool(2) [of a] order_trans by blast
  ultimately show ?thesis using inv s' pool(1) by (simp add: core_inv_in_def core_base_in_def log_ok_def Let_def)
qed

lemma IncrementIO_ok:
  assumes inv: "core_inv_in k K x W s" and i: "i < length (nc_mSessionPool s)" "live s i"
  shows "core_inv_in k K (x(i := x i + 1)) W (fst (IncrementIO i s))" "core_frame s (fst (IncrementIO i s))"
    "snd (IncrementIO i s) = int (x i + nc_recvs s i + nc_sends s i) + 1"
proof -
  have d: "slot_in k i (x i) (nc_recvs s i) (nc_sends s i) (ses s i)" by (rule core_invD(1) [OF inv i(1)])
  let ?v = "(ses s i)\<lparr>ns_IOCountAtomic := ns_IOCountAtomic (ses s i) + 1\<rparr>"
  have e: "fst (IncrementIO i s) = set_ses i ?v s" by (simp add: IncrementIO_def Let_def)
  show "core_inv_in k K (x(i := x i + 1)) W (fst (IncrementIO i s))"
    unfolding e
    by (rule core_inv_update [OF inv i(1), where v = ?v])
      (use d i core_invD(3,4) [OF inv i(1)] in \<open>auto simp: set_ses_def slot_in_def live_def sc_io\<close>)
  show "core_frame s (fst (IncrementIO i s))"
    unfolding e by (rule core_frame_update [of _ _ i ?v]) (use i in \<open>auto simp: set_ses_def live_def\<close>)
  show "snd (IncrementIO i s) = int (x i + nc_recvs s i + nc_sends s i) + 1"
    using slot_inD(2) [OF d] by (simp add: IncrementIO_def Let_def)
qed

lemma DecrementIO_eq:
  assumes inv: "core_inv_in k K x W s" and i: "i < length (nc_mSessionPool s)" "0 < x i"
  shows "DecrementIO i s = Inr (set_ses i ((ses s i)\<lparr>ns_IOCountAtomic := int (x i + nc_recvs s i + nc_sends s i) - 1\<rparr>) s,
      int (x i + nc_recvs s i + nc_sends s i) - 1)"
  using slot_inD(2) [OF core_invD(1) [OF inv i(1)]] i(2) by (simp add: DecrementIO_def Let_def)

lemma dec_keeps:
  assumes inv: "core_inv_in k K x W s" and i: "i < length (nc_mSessionPool s)" "0 < x i"
    and more_io: "1 < x i + nc_recvs s i + nc_sends s i \<or> i \<in> W"
  defines "s' \<equiv> set_ses i ((ses s i)\<lparr>ns_IOCountAtomic := int (x i + nc_recvs s i + nc_sends s i) - 1\<rparr>) s"
  shows "core_inv_in k K (x(i := x i - 1)) W s'" "core_frame s s'"
proof -
  have d: "slot_in k i (x i) (nc_recvs s i) (nc_sends s i) (ses s i)" by (rule core_invD(1) [OF inv i(1)])
  have l: "live s i" using core_inv_live [OF inv i] .
  let ?v = "(ses s i)\<lparr>ns_IOCountAtomic := int (x i + nc_recvs s i + nc_sends s i) - 1\<rparr>"
  show "core_inv_in k K (x(i := x i - 1)) W s'"
    unfolding s'_def
    by (rule core_inv_update [OF inv i(1), where v = ?v])
      (use d i l more_io core_invD(3,4) [OF inv i(1)] in \<open>auto simp: set_ses_def slot_in_def live_def sc_io\<close>)
  show "core_frame s s'"
    unfolding s'_def by (rule core_frame_update [of _ _ i ?v]) (use i l in \<open>auto simp: set_ses_def live_def\<close>)
qed

text \<open>The ids of live sessions are different, because each carries the index of its session.\<close>

lemma slot_id:
  assumes "slot_in k i x r w v" "ns_IsReleasedAtomic v = 0" "i < 65536"
  shows "unat (SessionIndex (ns_mSessionID v)) = i" "ns_mSessionID v \<noteq> 0"
proof -
  obtain uid where u: "uid \<noteq> 0" "uid AND uid_mask = uid" "ns_mSessionID v = GenSessionID (of_nat i) uid"
    using assms by (auto simp: slot_in_def)
  show "unat (SessionIndex (ns_mSessionID v)) = i"
    using SessionIndex_Gen_nat [of "of_nat i" uid] assms(3) by (simp add: u(3) unat_of_nat)
  show "ns_mSessionID v \<noteq> 0"
    using SessionUID_Gen [of "of_nat i" uid] u by (auto simp: SessionUID_def)
qed

lemma live_index:
  assumes inv: "core_inv_in k K x W s" and i: "i < length (nc_mSessionPool s)" "live s i"
  shows "unat (SessionIndex (ns_mSessionID (ses s i))) = i"
proof -
  have "i < 65536" using i(1) core_invD(5) [OF inv i(1)] by linarith
  then show ?thesis using slot_id(1) [OF core_invD(1) [OF inv i(1)]] i(2) by (simp add: live_def)
qed

lemma live_id_inj:
  assumes inv: "core_base_in k K x W s" and i: "i < length (nc_mSessionPool s)" "live s i"
    and j: "j < length (nc_mSessionPool s)" "live s j" and eq: "ns_mSessionID (ses s i) = ns_mSessionID (ses s j)"
  shows "i = j"
proof -
  have n: "length (nc_mSessionPool s) \<le> 65536" using inv by (simp add: core_base_in_def Let_def)
  have "unat (SessionIndex (ns_mSessionID (ses s i))) = i"
    by (rule slot_id(1) [OF core_baseD(1) [OF inv i(1)]]) (use i n in \<open>simp_all add: live_def\<close>)
  moreover have "unat (SessionIndex (ns_mSessionID (ses s j))) = j"
    by (rule slot_id(1) [OF core_baseD(1) [OF inv j(1)]]) (use j n in \<open>simp_all add: live_def\<close>)
  ultimately show ?thesis using eq by metis
qed

text \<open>Releasing a session without I/O: \<open>v\<close> is the session afterwards, \<open>u'\<close> the stack of unused sessions.\<close>

lemma core_base_released:
  assumes inv: "core_base_in k K x (insert i W) s" and i: "i < length (nc_mSessionPool s)" "live s i"
    and io: "x i + nc_recvs s i + nc_sends s i = 0"
    and v: "sc_inv k i v" "refs_held v pool" "session_refs v = []" "others v pool = others (ses s i) (nc_send s)"
      "ns_mSessionID v = 0" "ns_mSocket v = None" "IsClosed v" "IsReleased v" "ns_IOCountAtomic v = 0"
  obtains u where "Stack_Push (nc_mUnusedSession s) i = Inr (u, True)"
    "\<And>s'. nc_mSessionPool s' = (nc_mSessionPool s)[i := v] \<Longrightarrow> nc_send s' = pool \<Longrightarrow> nc_mUnusedSession s' = u \<Longrightarrow>
      nc_mConnectedSessionCount s' = nc_mConnectedSessionCount s - 1 \<Longrightarrow> nc_recvs s' = nc_recvs s \<Longrightarrow> nc_sends s' = nc_sends s \<Longrightarrow>
      nc_recv s' = nc_recv s \<Longrightarrow> nc_option s' = nc_option s \<Longrightarrow> nc_world s' = nc_world s \<Longrightarrow>
      core_base_in k K x W s' \<and> core_frame s s' \<and> \<not> live s' i \<and> (\<forall>j. j \<noteq> i \<longrightarrow> ses s' j = ses s j)"
proof -
  let ?n = "length (nc_mSessionPool s)"
  define u where "u = nc_mUnusedSession s"
  note st = core_baseD(6-9) [OF inv i(1), folded u_def]
  have "i \<notin> set (stack_list u)" using st(3) i(2) by simp
  moreover have "set (stack_list u) \<subseteq> {..<?n} - {i}" using st(3) i(2) by auto
  then have "length (stack_list u) \<le> ?n - 1"
    using card_mono [of "{..<?n} - {i}" "set (stack_list u)"] distinct_card [OF st(2)] i(1) by simp
  then have room: "length (stack_list u) \<le> ?n" by simp
  obtain u' where u': "Stack_Push u i = Inr (u', True)" "stack_inv ?n u'" "stack_list u' = i # stack_list u"
    using Stack_Push_law [OF st(1) room, of i] by blast
  have "core_base_in k K x W s' \<and> core_frame s s' \<and> \<not> live s' i \<and> (\<forall>j. j \<noteq> i \<longrightarrow> ses s' j = ses s j)"
    if sel: "nc_mSessionPool s' = (nc_mSessionPool s)[i := v]" "nc_send s' = pool" "nc_mUnusedSession s' = u'"
      "nc_mConnectedSessionCount s' = nc_mConnectedSessionCount s - 1" "nc_recvs s' = nc_recvs s" "nc_sends s' = nc_sends s"
      "nc_recv s' = nc_recv s" "nc_option s' = nc_option s" "nc_world s' = nc_world s" for s'
  proof -
    have ses: "ses s' j = (if j = i then v else ses s j)" for j
      using i(1) by (simp add: sel(1) ses_def nth_list_update)
    have nl: "\<not> live s' i" using v(8) by (simp add: live_def ses IsReleased_def)
    have lv: "live s' j \<longleftrightarrow> live s j \<and> j \<noteq> i" for j using nl by (cases "j = i") (simp_all add: live_def ses)
    have "{j. j < ?n \<and> live s j} = insert i {j. j < ?n \<and> live s' j}" using lv nl i by auto
    then have cnt: "card {j. j < ?n \<and> live s j} = Suc (card {j. j < ?n \<and> live s' j})" using nl by simp
    have "set (stack_list u') = {j. j < ?n \<and> \<not> live s' j}" using u'(3) st(3) lv nl i by auto
    moreover have "held s' a + ap_refs K a \<le> pp_refs pool a" for a
      using held_update [OF i(1) sel(1), of a "ap_refs K a"] v(4) sel(2) core_baseD(3) [OF inv i(1)] by simp
    moreover have "slot_in k i (x i) (nc_recvs s i) (nc_sends s i) v"
      using v core_baseD(1) [OF inv i(1)] io by (auto simp: slot_in_def IsReleased_def)
    ultimately have "core_base_in k K x W s'"
      using inv u' st(2,4) \<open>i \<notin> set (stack_list u)\<close> v(2) cnt lv nl
      unfolding core_base_in_def Let_def sel ses length_list_update refs_in_def by (auto simp: less_Suc_eq)
    moreover have "core_frame s s'"
      by (rule core_frame_update [OF sel(1) i(1) sel(5,8,7)]) (use v(8) in \<open>simp add: IsReleased_def\<close>)
    ultimately show ?thesis using ses nl by auto
  qed
  then show ?thesis using that u'(1) u_def by blast
qed

lemma put_log_sel [simp]:
  "nc_mSessionPool (put_log e s) = nc_mSessionPool s" "nc_log (put_log e s) = nc_log s @ [e]" "ses (put_log e s) = ses s"
  "live (put_log e s) = live s" "core_base_in k K x W (put_log e s) = core_base_in k K x W s" "nc_recvs (put_log e s) = nc_recvs s"
  "nc_sends (put_log e s) = nc_sends s" "nc_option (put_log e s) = nc_option s" "nc_send (put_log e s) = nc_send s"
  "nc_recv (put_log e s) = nc_recv s" "nc_mUnusedSession (put_log e s) = nc_mUnusedSession s"
  "core_frame s' (put_log e s) = core_frame s' s" "core_frame (put_log e s) s' = core_frame s s'"
  "nc_mConnectedSessionCount (put_log e s) = nc_mConnectedSessionCount s"
  by (simp_all add: put_log_def ses_def live_def core_base_in_def core_frame_def held_def fun_eq_iff)

lemma log_ok_gone:
  assumes inv: "core_base_in k K x W s" and log: "log_ok s" and i: "i < length (nc_mSessionPool s)" "live s i"
    and s': "length (nc_mSessionPool s') = length (nc_mSessionPool s)" "\<not> live s' i" "\<forall>j. j \<noteq> i \<longrightarrow> ses s' j = ses s j"
      "\<And>sid. session_log sid (nc_log s') = session_log sid (nc_log s)"
  shows "log_ok (put_log (OnDisconnected (ns_mSessionID (ses s i))) s')"
proof -
  have l: "live s' j \<longleftrightarrow> live s j \<and> j \<noteq> i" for j using s'(2,3) by (cases "j = i") (auto simp: live_def)
  have "session_log sid (nc_log s' @ [OnDisconnected (ns_mSessionID (ses s i))]) =
      Some (\<exists>j < length (nc_mSessionPool s). live s' j \<and> ns_mSessionID (ses s' j) = sid)" for sid
  proof (cases "ns_mSessionID (ses s i) = sid")
    case True
    then have "session_log sid (nc_log s) = Some True" using log i by (auto simp: log_ok_def)
    moreover have "\<not> (\<exists>j < length (nc_mSessionPool s). live s' j \<and> ns_mSessionID (ses s' j) = sid)"
      using live_id_inj [OF inv i] True l s'(3) by metis
    ultimately show ?thesis using True s'(4) [of sid] by (simp add: session_log_snoc)
  next
    case False
    have "(\<exists>j < length (nc_mSessionPool s). live s j \<and> ns_mSessionID (ses s j) = sid) \<longleftrightarrow>
        (\<exists>j < length (nc_mSessionPool s). live s' j \<and> ns_mSessionID (ses s' j) = sid)"
      using False l s'(3) by metis
    then show ?thesis using False log s'(4) [of sid] by (simp add: session_log_snoc log_ok_def)
  qed
  then show ?thesis using s'(1) by (simp add: log_ok_def)
qed

lemma log_ok_disconnect:
  assumes "core_base_in k K x W s" "log_ok s" "i < length (nc_mSessionPool s)" "live s i"
    "length (nc_mSessionPool s') = length (nc_mSessionPool s)" "\<not> live s' i" "\<forall>j. j \<noteq> i \<longrightarrow> ses s' j = ses s j"
    "nc_log s' = nc_log s @ [Closesocket sock]"
  shows "log_ok (put_log (OnDisconnected (ns_mSessionID (ses s i))) s')"
proof (rule log_ok_gone [OF assms(1-7)])
  fix sid
  obtain c where "session_log sid (nc_log s) = Some c" using assms(2) by (simp add: log_ok_def)
  then show "session_log sid (nc_log s') = session_log sid (nc_log s)" by (simp add: assms(8) session_log_snoc)
qed

lemma core_base_mono: "core_base_in k K x W s \<Longrightarrow> W \<subseteq> W' \<Longrightarrow> core_base_in k K x W' s"
  by (auto simp: core_base_in_def Let_def)

lemma core_inv_mono: "core_inv_in k K x W s \<Longrightarrow> W \<subseteq> W' \<Longrightarrow> core_inv_in k K x W' s"
  by (auto simp: core_inv_in_def intro: core_base_mono)

subsection \<open>Requests\<close>

lemma slot_in_live:
  assumes "slot_in k i x r w v" "ns_IsReleasedAtomic v = 0" "sc_inv k i v'" "ns_IsReleasedAtomic v' = 0"
    "ns_mSessionID v' = ns_mSessionID v" "ns_IOCountAtomic v' = int (x' + r' + w')" "r' \<le> 1" "w' \<le> 1"
    "w' = 1 \<Longrightarrow> ns_IsSendingAtomic v' \<noteq> 0"
  shows "slot_in k i x' r' w' v'"
  using assms by (auto simp: slot_in_def)

text \<open>Replacing a pinned session by one that differs only in its queues, its sending state or its close flag.\<close>

lemma core_inv_change:
  assumes inv: "core_inv_in k K x W s" and i: "i < length (nc_mSessionPool s)" "live s i"
    and v: "sc_inv k i v" "ns_IsReleasedAtomic v = 0" "ns_mSessionID v = ns_mSessionID (ses s i)"
      "ns_IOCountAtomic v = ns_IOCountAtomic (ses s i)" "nc_sends s i = 1 \<Longrightarrow> ns_IsSendingAtomic v \<noteq> 0"
    and s': "nc_mSessionPool s' = (nc_mSessionPool s)[i := v]" "nc_mUnusedSession s' = nc_mUnusedSession s"
      "nc_mConnectedSessionCount s' = nc_mConnectedSessionCount s" "pool_ok (nc_recv s')" "nc_world s' = nc_world s"
      "\<And>sid. session_log sid (nc_log s') = session_log sid (nc_log s)" "nc_recvs s' = nc_recvs s" "nc_sends s' = nc_sends s"
      "nc_option s' = nc_option s"
    and pool: "pool_ok (nc_send s')" "others v (nc_send s') = others (ses s i) (nc_send s)"
  shows "core_inv_in k K x W s'" "ns_mRecvQueue v = ns_mRecvQueue (ses s i) \<Longrightarrow> nc_recv s' = nc_recv s \<Longrightarrow> core_frame s s'"
proof -
  have d: "slot_in k i (x i) (nc_recvs s i) (nc_sends s i) (ses s i)" by (rule core_invD(1) [OF inv i(1)])
  have "slot_in k i (x i) (nc_recvs s i) (nc_sends s i) v"
    by (rule slot_in_live [OF d]) (use v slot_inD [OF d] i in \<open>simp_all add: live_def\<close>)
  then show "core_inv_in k K x W s'"
    by (intro core_inv_update [OF inv i(1) s'(1-3)])
      (use s' pool v i core_invD(2,4) [OF inv i(1)] in \<open>simp_all add: live_def\<close>)
  show "core_frame s s'" if "ns_mRecvQueue v = ns_mRecvQueue (ses s i)" "nc_recv s' = nc_recv s"
    by (rule core_frame_update [OF s'(1) i(1) s'(7,9) that(2)]) (use v i that in simp_all)
qed

text \<open>A held count becomes the count of an accepted request, and back.\<close>

lemma core_inv_post:
  assumes inv: "core_inv_in k K x W s" and i: "i < length (nc_mSessionPool s)" "live s i"
    and cnt: "x i + nc_recvs s i + nc_sends s i = x' i + nc_recvs s' i + nc_sends s' i"
      "nc_recvs s' i \<le> 1" "nc_sends s' i \<le> 1" "nc_sends s' i = 1 \<Longrightarrow> ns_IsSendingAtomic (ses s i) \<noteq> 0"
    and other: "\<And>j. j \<noteq> i \<Longrightarrow> x' j = x j \<and> nc_recvs s' j = nc_recvs s j \<and> nc_sends s' j = nc_sends s j"
    and s': "nc_mSessionPool s' = nc_mSessionPool s" "nc_mUnusedSession s' = nc_mUnusedSession s"
      "nc_mConnectedSessionCount s' = nc_mConnectedSessionCount s" "nc_recv s' = nc_recv s" "nc_log s' = nc_log s"
      "nc_send s' = nc_send s" "nc_world s' = nc_world s"
  shows "core_inv_in k K x' W s'"
proof -
  have d: "slot_in k i (x i) (nc_recvs s i) (nc_sends s i) (ses s i)" by (rule core_invD(1) [OF inv i(1)])
  have "slot_in k i (x' i) (nc_recvs s' i) (nc_sends s' i) (ses s i)"
    by (rule slot_in_live [OF d])
      (use slot_inD(1,2) [OF d] i cnt in \<open>simp_all add: live_def del: of_nat_add\<close>)
  then show ?thesis
    by (intro core_inv_update [OF inv i(1), of s' "ses s i" x'])
      (use s' other cnt core_invD(2-4) [OF inv i(1)] in \<open>auto simp: ses_def\<close>)
qed

text \<open>The count of an accepted request passes to the thread that handles its completion.\<close>

lemma completed_ok:
  assumes inv: "core_inv_in k K x W s" and i: "i < length (nc_mSessionPool s)"
    and ov: "ov = RecvOverlapped \<and> 0 < nc_recvs s i \<or> ov = SendOverlapped \<and> 0 < nc_sends s i"
  shows "core_inv_in k K (x(i := x i + 1)) W (completed i ov s)" "i < length (nc_mSessionPool (completed i ov s))"
    "ov = RecvOverlapped \<Longrightarrow> nc_recvs (completed i ov s) i = 0" "ov = SendOverlapped \<Longrightarrow> nc_sends (completed i ov s) i = 0"
proof -
  note d = slot_inD [OF core_invD(1) [OF inv i]]
  have l: "live s i" using d(6) ov by (auto simp: live_def)
  show "core_inv_in k K (x(i := x i + 1)) W (completed i ov s)"
    by (rule core_inv_post [OF inv i l]) (use ov d(3,4,7) in \<open>auto simp: completed_def\<close>)
  show "i < length (nc_mSessionPool (completed i ov s))"
    "ov = RecvOverlapped \<Longrightarrow> nc_recvs (completed i ov s) i = 0" "ov = SendOverlapped \<Longrightarrow> nc_sends (completed i ov s) i = 0"
    using i d(3,4) by (auto simp: completed_def split: overlapped.split)
qed

lemma core_inv_send_pool:
  assumes inv: "core_inv_in k K x W s" and p: "pool_ok pool" "\<And>a. held s a + ap_refs K a \<le> pp_refs pool a"
  shows "core_inv_in k K x W (s\<lparr>nc_send := pool\<rparr>)"
proof -
  have "ses (s\<lparr>nc_send := pool\<rparr>) = ses s" "live (s\<lparr>nc_send := pool\<rparr>) = live s" "held (s\<lparr>nc_send := pool\<rparr>) = held s"
    by (simp_all add: ses_def live_def held_def fun_eq_iff)
  then show ?thesis using inv p by (simp add: core_inv_in_def core_base_in_def log_ok_def Let_def)
qed

lemma core_inv_shrink:
  assumes "core_inv_in k K x (insert i W) s" "live s i \<Longrightarrow> 0 < x i + nc_recvs s i + nc_sends s i"
  shows "core_inv_in k K x W s"
  using assms by (auto simp: core_inv_in_def core_base_in_def Let_def)

subsection \<open>New sessions\<close>

lemma core_base_new:
  assumes inv: "core_inv_in k K x W s" and u: "stack_list (nc_mUnusedSession s) = i # rest"
    and u': "stack_inv (length (nc_mSessionPool s)) u'" "stack_list u' = rest"
    and v: "sc_inv k i v" "session_refs v = []" "uid \<noteq> 0" "uid AND uid_mask = uid"
      "ns_mSessionID v = GenSessionID (of_nat i) uid" "ns_IsReleasedAtomic v = 0" "ns_IOCountAtomic v = 0"
  defines "s' \<equiv> (set_ses i v s)\<lparr>nc_mUnusedSession := u', nc_mConnectedSessionCount := nc_mConnectedSessionCount s + 1\<rparr>"
  shows "i < length (nc_mSessionPool s)" "\<not> live s i" "x i + nc_recvs s i + nc_sends s i = 0"
    "core_base_in k K x (insert i W) s'"
proof -
  let ?n = "length (nc_mSessionPool s)"
  have base: "core_base_in k K x W s" using inv by (simp add: core_inv_in_def)
  have st: "stack_inv ?n (nc_mUnusedSession s)" "distinct (i # rest)" "set (i # rest) = {j. j < ?n \<and> \<not> live s j}"
    "nc_mConnectedSessionCount s = int (card {j. j < ?n \<and> live s j})"
    using base u by (auto simp: core_base_in_def Let_def)
  show i: "i < ?n" "\<not> live s i" using st(3) by auto
  have d: "slot_in k i (x i) (nc_recvs s i) (nc_sends s i) (ses s i)" by (rule core_baseD(1) [OF base i(1)])
  then have z: "x i = 0" "nc_recvs s i = 0" "nc_sends s i = 0" "session_refs (ses s i) = []"
    using i(2) by (auto simp: slot_in_def live_def)
  then show "x i + nc_recvs s i + nc_sends s i = 0" by simp
  have sel: "nc_mSessionPool s' = (nc_mSessionPool s)[i := v]" "nc_send s' = nc_send s" "nc_mUnusedSession s' = u'"
    "nc_recvs s' = nc_recvs s" "nc_sends s' = nc_sends s" "nc_recv s' = nc_recv s" "nc_world s' = nc_world s"
    "nc_mConnectedSessionCount s' = nc_mConnectedSessionCount s + 1"
    by (simp_all add: s'_def set_ses_def)
  have ses: "ses s' j = (if j = i then v else ses s j)" for j
    using i(1) by (simp add: ses_def sel nth_list_update)
  have lv: "live s' j \<longleftrightarrow> live s j \<or> j = i" for j using v(6) by (cases "j = i") (simp_all add: live_def ses)
  have "{j. j < ?n \<and> live s' j} = insert i {j. j < ?n \<and> live s j}" using lv i by auto
  then have cnt: "card {j. j < ?n \<and> live s' j} = Suc (card {j. j < ?n \<and> live s j})" using i by simp
  have "set rest = {j. j < ?n \<and> \<not> live s' j}" using st(2,3) lv i by auto
  moreover have "held s' a + ap_refs K a \<le> pp_refs (nc_send s) a" for a
    using held_update [OF i(1) sel(1), of a "ap_refs K a"] core_baseD(3) [OF base i(1)] z(4) v(2) sel(2) by (simp add: others_def fun_eq_iff)
  moreover have "slot_in k i (x i) (nc_recvs s i) (nc_sends s i) v" using v z by (auto simp: slot_in_def)
  ultimately show "core_base_in k K x (insert i W) s'"
    using base u' st(2,4) cnt lv
    unfolding core_base_in_def Let_def sel ses length_list_update by (auto simp: less_Suc_eq)
qed

lemma log_ok_connect:
  assumes inv: "core_base_in k K x W s'" and log: "log_ok s" and i: "i < length (nc_mSessionPool s)" "\<not> live s i"
    and s': "nc_mSessionPool s' = (nc_mSessionPool s)[i := v]" "ns_IsReleasedAtomic v = 0" "nc_log s' = nc_log s"
  shows "log_ok (put_log (OnConnected (ns_mSessionID v)) s')"
proof -
  let ?n = "length (nc_mSessionPool s)"
  have ses: "ses s' j = (if j = i then v else ses s j)" for j using i(1) by (simp add: ses_def s' nth_list_update)
  have lv: "live s' j \<longleftrightarrow> live s j \<or> j = i" for j using s'(2) by (cases "j = i") (simp_all add: live_def ses)
  have fresh: "\<not> (\<exists>j < ?n. live s j \<and> ns_mSessionID (ses s j) = ns_mSessionID v)"
  proof clarify
    fix j assume j: "j < ?n" "live s j" "ns_mSessionID (ses s j) = ns_mSessionID v"
    then have "i \<noteq> j" using i(2) by blast
    moreover have "i = j"
      by (rule live_id_inj [OF inv]) (use i j lv s'(1) \<open>i \<noteq> j\<close> in \<open>simp_all add: ses\<close>)
    ultimately show False by simp
  qed
  have "session_log sid (nc_log s @ [OnConnected (ns_mSessionID v)]) =
      Some (\<exists>j < ?n. live s' j \<and> ns_mSessionID (ses s' j) = sid)" for sid
  proof (cases "ns_mSessionID v = sid")
    case True
    then have "session_log sid (nc_log s) = Some False" using log fresh by (auto simp: log_ok_def)
    then show ?thesis using True i lv ses by (auto simp: session_log_snoc intro!: exI [of _ i])
  next
    case False
    have "(\<exists>j < ?n. live s j \<and> ns_mSessionID (ses s j) = sid) \<longleftrightarrow>
        (\<exists>j < ?n. live s' j \<and> ns_mSessionID (ses s' j) = sid)"
      using False lv ses i(2) by metis
    then show ?thesis using False log by (simp add: session_log_snoc log_ok_def)
  qed
  then show ?thesis using s' by (simp add: log_ok_def)
qed

lemma core_inv_log:
  assumes "core_inv_in k K x W s" "\<And>sid. conn_step sid e (session_log sid (nc_log s)) = session_log sid (nc_log s)"
  shows "core_inv_in k K x W (put_log e s)"
  using assms by (simp add: core_inv_in_def log_ok_def session_log_snoc)

lemma core_inv_closesocket: "core_inv_in k K x W s \<Longrightarrow> core_inv_in k K x W (put_log (Closesocket sock) s)"
  by (rule core_inv_log) (simp_all add: core_inv_in_def log_ok_def)

lemma core_inv_requested: "core_inv_in k K x W s \<Longrightarrow> core_inv_in k K x W (put_log (OnConnectionRequested a p) s)"
  by (rule core_inv_log) (simp_all add: core_inv_in_def log_ok_def)

lemma log_ok_same:
  assumes "log_ok s" "length (nc_mSessionPool s') = length (nc_mSessionPool s)" "nc_log s' = nc_log s @ [Closesocket sock]"
    "\<not> live s i" "\<not> live s' i" "\<forall>j. j \<noteq> i \<longrightarrow> ses s' j = ses s j"
  shows "log_ok s'"
proof -
  have "live s' j \<longleftrightarrow> live s j" "live s j \<Longrightarrow> ses s' j = ses s j" for j
    using assms(4-6) by (cases "j = i"; simp add: live_def)+
  then have "(live s' j \<and> ns_mSessionID (ses s' j) = sid) = (live s j \<and> ns_mSessionID (ses s j) = sid)" for j sid by metis
  then show ?thesis using assms(1-3) by (simp add: log_ok_def session_log_snoc)
qed

lemma core_inv_live_log:
  assumes inv: "core_inv_in k K x W s" and i: "i < length (nc_mSessionPool s)" "live s i"
  shows "core_inv_in k K x W (put_log (OnSent (ns_mSessionID (ses s i)) n) s)"
    "core_inv_in k K x W (put_log (OnReceived (ns_mSessionID (ses s i)) body) s)"
proof -
  have "session_log sid (nc_log s) = Some c \<Longrightarrow> ns_mSessionID (ses s i) = sid \<Longrightarrow> c" for sid c
    using inv i by (auto simp: core_inv_in_def log_ok_def)
  moreover have "\<exists>c. session_log sid (nc_log s) = Some c" for sid using inv by (simp add: core_inv_in_def log_ok_def)
  ultimately have "conn_step sid (OnSent (ns_mSessionID (ses s i)) n) (session_log sid (nc_log s)) = session_log sid (nc_log s)"
    "conn_step sid (OnReceived (ns_mSessionID (ses s i)) body) (session_log sid (nc_log s)) = session_log sid (nc_log s)" for sid
    by (metis conn_step.simps(4,5))+
  then show "core_inv_in k K x W (put_log (OnSent (ns_mSessionID (ses s i)) n) s)"
    "core_inv_in k K x W (put_log (OnReceived (ns_mSessionID (ses s i)) body) s)"
    using core_inv_log [OF inv] by blast+
qed

end

subsection \<open>The counters\<close>

text \<open>
  \<^verbatim>\<open>MonitorInfo\<close> and what both monitor threads do once a second until the event of \<^verbatim>\<open>Stop\<close> is set: read the counters, start those
  per second again, print. All fields are unsigned.
\<close>

record MonitorInfo =
  mi_ConnectedSessionCount :: u64
  mi_AcceptTPS :: u64
  mi_AcceptTotal :: u64
  mi_RecvPacketTPS :: u64
  mi_SendPacketTPS :: u64
  mi_PacketPoolSendMaxCapacity :: u64
  mi_PacketPoolSendUsedSize :: u64
  mi_PacketPoolRecvMaxCapacity :: u64
  mi_PacketPoolRecvUsedSize :: u64
  mi_SessionCachedIndexes :: u64
  mi_SessionMaxIndexes :: u64

definition read_counters :: "('v, 'w, 'y) core_state_scheme \<Rightarrow> MonitorInfo" where
  "read_counters s =
     \<lparr>mi_ConnectedSessionCount = of_int (nc_mConnectedSessionCount s), mi_AcceptTPS = of_nat (nc_mAcceptCountPerSec s),
      mi_AcceptTotal = of_nat (nc_mAcceptTotal s), mi_RecvPacketTPS = of_int (nc_mRecvCountPerSec s),
      mi_SendPacketTPS = of_int (nc_mSendCountPerSec s),
      mi_PacketPoolSendMaxCapacity = of_nat (TLS_GetMaxCapacity (pp_pool (nc_send s))),
      mi_PacketPoolSendUsedSize = of_int (tp_mTLSAllocatedSize (pp_pool (nc_send s))),
      mi_PacketPoolRecvMaxCapacity = of_nat (TLS_GetMaxCapacity (pp_pool (nc_recv s))),
      mi_PacketPoolRecvUsedSize = of_int (tp_mTLSAllocatedSize (pp_pool (nc_recv s))),
      mi_SessionCachedIndexes = 0, mi_SessionMaxIndexes = 0\<rparr>"

definition reset_counters :: "('v, 'w, 'y) core_state_scheme \<Rightarrow> ('v, 'w, 'y) core_state_scheme" where
  "reset_counters s = s\<lparr>nc_mAcceptCountPerSec := 0, nc_mSendCountPerSec := 0, nc_mRecvCountPerSec := 0\<rparr>"

lemma reset_counters_sel [simp]:
  "nc_mSessionPool (reset_counters s) = nc_mSessionPool s" "nc_mUnusedSession (reset_counters s) = nc_mUnusedSession s"
  "nc_mConnectedSessionCount (reset_counters s) = nc_mConnectedSessionCount s" "nc_send (reset_counters s) = nc_send s"
  "nc_recv (reset_counters s) = nc_recv s" "nc_recvs (reset_counters s) = nc_recvs s" "nc_sends (reset_counters s) = nc_sends s"
  "nc_option (reset_counters s) = nc_option s" "nc_log (reset_counters s) = nc_log s" "nc_world (reset_counters s) = nc_world s"
  "nc_mAcceptTotal (reset_counters s) = nc_mAcceptTotal s"
  by (simp_all add: reset_counters_def)

lemma reset_counters_inv [simp]: "core_inv_in k K x W (reset_counters s) = core_inv_in k K x W s"
proof -
  have "ses (reset_counters s) = ses s" "live (reset_counters s) = live s" "held (reset_counters s) = held s"
    by (simp_all add: ses_def live_def held_def fun_eq_iff)
  then show ?thesis by (simp add: core_inv_in_def core_base_in_def log_ok_def)
qed

lemma counters_read:
  assumes "core_inv_in k K x W s"
  shows "unat (mi_ConnectedSessionCount (read_counters s)) = card {i. i < length (nc_mSessionPool s) \<and> live s i}"
    "mi_PacketPoolSendUsedSize (read_counters s) = of_nat (card (dom (pp_objs (nc_send s))))"
    "mi_PacketPoolRecvUsedSize (read_counters s) = of_nat (card (dom (pp_objs (nc_recv s))))"
proof -
  have b: "nc_mConnectedSessionCount s = int (card {i. i < length (nc_mSessionPool s) \<and> live s i})"
    "pool_inv (sc_tHeaderSize k) (sc_tBodyCapacity k) (nc_send s)" "pool_inv (sc_tHeaderSize k) (sc_tBodyCapacity k) (nc_recv s)"
    "length (nc_mSessionPool s) \<le> 65536"
    using assms by (simp_all add: core_inv_in_def core_base_in_def Let_def)
  have "card {i. i < length (nc_mSessionPool s) \<and> live s i} \<le> card {..<length (nc_mSessionPool s)}" by (intro card_mono) auto
  then have "card {i. i < length (nc_mSessionPool s) \<and> live s i} < 2 ^ LENGTH(64)" using b(4) by simp
  then show "unat (mi_ConnectedSessionCount (read_counters s)) = card {i. i < length (nc_mSessionPool s) \<and> live s i}"
    by (simp add: read_counters_def b(1) unsigned_of_nat take_bit_nat_eq_self)
  show "mi_PacketPoolSendUsedSize (read_counters s) = of_nat (card (dom (pp_objs (nc_send s))))"
    "mi_PacketPoolRecvUsedSize (read_counters s) = of_nat (card (dom (pp_objs (nc_recv s))))"
    using b(2,3) by (simp_all add: read_counters_def pool_inv_def tls_inv_def tls_inv_with_def)
qed

subsection \<open>A start and a connection for the examples\<close>

definition demo_replies :: start_replies where
  "demo_replies = \<lparr>st_startup = True, st_iocp = True, st_socket = True, st_rcvbuf = True, st_sndbuf = True,
     st_bind = True, st_listen = True\<rparr>"

definition demo_accept :: accept_env where
  "demo_accept = \<lparr>ae_sock = 7, ae_opts = \<lparr>sr_rcvbuf = True, sr_sndbuf = True, sr_linger = True, sr_nodelay = True, sr_keepalive = True\<rparr>,
     ae_addr = Some ''10.0.0.1'', ae_port = 4000, ae_port_created = True, ae_recv = WSA_Error 997, ae_garbage = 0\<rparr>"

lemma demo_option_ok: "ValidateOption default_option" "unat (so_MaxSessionCount default_option) = 150"
  "unat (so_NetworkIOThreadCount default_option) = 2"
  by (simp_all add: ValidateOption_def default_option_def)

end
