(* ===== verification/Net_Session.thy ===== *)
theory Net_Session
  imports Session_State
begin

unbundle bit_operations_syntax

text \<open>
  \<^verbatim>\<open>NetSession\<close> (\<^verbatim>\<open>NetSession.hpp\<close>, \<^verbatim>\<open>NetSession.cpp\<close>): the life cycle \<^verbatim>\<open>Init\<close>, \<^verbatim>\<open>Enqueue\<close>, \<^verbatim>\<open>ReadySending\<close>,
  \<^verbatim>\<open>FinishSending\<close>, \<^verbatim>\<open>TryRelease\<close>, each run by one thread at a time.
\<close>

subsection \<open>State\<close>

record NetSession = SessionState +
  ns_mSessionIndex :: u32
  ns_mPrevUID :: u64
  ns_mSessionUIDAcc :: u64

definition NetSession_Create :: "u32 \<Rightarrow> nat \<Rightarrow> u64 \<Rightarrow> NetSession res" where
  "NetSession_Create sessionIndex garbage uid =
     rbind (Queue_Create garbage uid 1024) (\<lambda>queue.
       Inr \<lparr>ns_IsReleasedAtomic = 1, ns_IOCountAtomic = 0, ns_mSocket = None, ns_mSessionID = 0, ns_mAddress = '''', ns_mPort = 0,
            ns_PacketBuffer = replicate MAX_PACKET_COUNT_PER_SEND None, ns_PacketCount = 0, ns_TotalByteSize = 0,
            ns_IsSendingAtomic = 0, ns_mRecvQueue = RingBuffer_Init (8 * 1024), ns_mSendQueue = queue,
            ns_mIsCloseSocket = 1, ns_mSessionIndex = sessionIndex, ns_mPrevUID = 0, ns_mSessionUIDAcc = 0\<rparr>)"

definition IsSendRecvable :: "NetSession \<Rightarrow> bool" where
  "IsSendRecvable s \<longleftrightarrow> \<not> IsClosed s \<or> \<not> IsReleased s"

definition GetSocket :: "NetSession \<Rightarrow> nat option" where
  "GetSocket s = (if IsClosed s then None else ns_mSocket s)"

definition SessionCancelationIO :: "NetSession \<Rightarrow> NetSession \<times> bool" where
  "SessionCancelationIO s =
     (if ns_mIsCloseSocket s = 0 then (s\<lparr>ns_mIsCloseSocket := 1\<rparr>, True) else (s, False))"

subsection \<open>Init\<close>

text \<open>
  The loop looks for a uid that is neither 0 nor the previous one. Three consecutive values of the
  accumulator give three different uids, so three rounds are enough.
\<close>

fun uid_loop :: "nat \<Rightarrow> u64 \<Rightarrow> u64 \<Rightarrow> (u64 \<times> u64) res" where
  "uid_loop 0 oldUID acc = Inl Spin"
| "uid_loop (Suc fuel) oldUID acc =
     (let acc = acc + 1; newUID = acc AND uid_mask in
      if newUID \<noteq> 0 \<and> newUID \<noteq> oldUID then Inr (acc, newUID) else uid_loop fuel oldUID acc)"

definition Session_Init :: "nat \<Rightarrow> string \<Rightarrow> u16 \<Rightarrow> nat \<Rightarrow> NetSession \<Rightarrow> NetSession res" where
  "Session_Init sock address port garbage s =
     (if \<not> IsReleased s then Inl LogicError
      else
        rbind (uid_loop 3 (ns_mPrevUID s) (ns_mSessionUIDAcc s)) (\<lambda>(acc, newUID).
        rbind (Queue_Clear garbage (ns_mSendQueue s)) (\<lambda>queue.
          Inr (s\<lparr>ns_mSessionUIDAcc := acc,
                 ns_mSessionID := GenSessionID (ns_mSessionIndex s) newUID,
                 ns_mSocket := Some sock, ns_mPort := port, ns_mAddress := address,
                 ns_mSendQueue := queue,
                 ns_mRecvQueue := RingBuffer_ClearBuffer (ns_mRecvQueue s),
                 ns_PacketCount := 0, ns_TotalByteSize := 0, ns_IsSendingAtomic := 0,
                 ns_mIsCloseSocket := 0, ns_IsReleasedAtomic := 0\<rparr>))))"

text \<open>
  \<open>new_uid\<close> says what the loop promises of the number of a new session: it is read off the counter, which has moved on by
  one to three, it is not 0 and it is not the number of the session that had the slot before.
\<close>

definition new_uid :: "NetSession \<Rightarrow> NetSession \<Rightarrow> bool" where
  "new_uid v v' \<longleftrightarrow>
     (let uid = SessionUID (ns_mSessionID v') in
      uid = ns_mSessionUIDAcc v' AND uid_mask \<and> uid \<noteq> 0 \<and> uid \<noteq> ns_mPrevUID v \<and>
      ns_mSessionUIDAcc v' \<in> {ns_mSessionUIDAcc v + 1, ns_mSessionUIDAcc v + 2, ns_mSessionUIDAcc v + 3})"

subsection \<open>Sending\<close>

text \<open>The state of the sending operations is the session and the send pool.\<close>

definition Session_Enqueue :: "NetSession \<Rightarrow> PacketPool \<Rightarrow> nat \<Rightarrow> (NetSession \<times> PacketPool \<times> bool) res" where
  "Session_Enqueue s pool a =
     (if \<not> IsSendRecvable s then Inr (s, pool, False)
      else
        rbind (AddRefPacket pool a) (\<lambda>pool.
        rbind (Queue_Enqueue (ns_mSendQueue s) a) (\<lambda>(queue, isEnqueue).
        let s = s\<lparr>ns_mSendQueue := queue\<rparr> in
        if \<not> isEnqueue
        then rbind (TryFreePacket pool a) (\<lambda>(pool, _). Inr (fst (SessionCancelationIO s), pool, False))
        else Inr (s, pool, True))))"

text \<open>The result is the list of buffers (packet and length) for \<^verbatim>\<open>WSASend\<close>, or \<open>None\<close> for \<^verbatim>\<open>false\<close>.\<close>

definition ReadySending :: "NetSession \<Rightarrow> PacketPool \<Rightarrow> (NetSession \<times> (nat \<times> nat) list option) res" where
  "ReadySending s pool =
     (if ns_IsSendingAtomic s \<noteq> 0 then Inr (s, None)
      else
        let s = s\<lparr>ns_IsSendingAtomic := 1\<rparr>; queueSize = nat (q_mUsedSize (ns_mSendQueue s) mod 2 ^ 64) in
        if MAX_PACKET_COUNT_PER_SEND < queueSize then Inl InvalidArgument
        else if queueSize = 0 then Inr (s\<lparr>ns_IsSendingAtomic := 0\<rparr>, None)
        else
          rbind (ready_loop pool queueSize (s\<lparr>ns_PacketCount := 0, ns_TotalByteSize := 0\<rparr>) []) (\<lambda>(s, out).
          if ns_PacketCount s = 0 then Inr (s\<lparr>ns_IsSendingAtomic := 0\<rparr>, None)
          else Inr (s\<lparr>ns_IsSendingAtomic := 2\<rparr>, Some out)))"

definition FinishSending :: "NetSession \<Rightarrow> PacketPool \<Rightarrow> (NetSession \<times> PacketPool \<times> nat) res" where
  "FinishSending s pool =
     rbind (finish_loop (take (ns_PacketCount s) (ns_PacketBuffer s)) pool) (\<lambda>pool.
       Inr (s\<lparr>ns_PacketCount := 0, ns_TotalByteSize := 0,
              ns_IsSendingAtomic := (if ns_IsSendingAtomic s = 2 then 0 else ns_IsSendingAtomic s)\<rparr>,
            pool, ns_PacketCount s))"

subsection \<open>Release\<close>

definition Session_Release :: "NetSession \<Rightarrow> PacketPool \<Rightarrow> (NetSession \<times> PacketPool) res" where
  "Session_Release s pool =
     (let s = s\<lparr>ns_mIsCloseSocket := 1, ns_mSocket := None,
                ns_mPrevUID := SessionUID (ns_mSessionID s), ns_mSessionID := 0\<rparr> in
      rbind (drain_loop (nat (q_mUsedSize (ns_mSendQueue s))) (ns_mSendQueue s) pool) (\<lambda>(queue, pool).
      rbind (FinishSending (s\<lparr>ns_mSendQueue := queue\<rparr>) pool) (\<lambda>(s, pool, _). Inr (s, pool))))"

definition TryRelease :: "NetSession \<Rightarrow> PacketPool \<Rightarrow> (NetSession \<times> PacketPool \<times> bool) res" where
  "TryRelease s pool =
     (if ns_IsReleasedAtomic s = 0 \<and> ns_IOCountAtomic s = 0
      then rbind (Session_Release (s\<lparr>ns_IsReleasedAtomic := 1, ns_IOCountAtomic := 0\<rparr>) pool) (\<lambda>(s, pool).
             Inr (s, pool, True))
      else Inr (s, pool, False))"

subsection \<open>The uid loop\<close>

lemma uid_mask_shift_distinct:
  assumes "0 < unat k" "unat k < 281474976710656"
  shows "(a + k) AND uid_mask \<noteq> (a AND uid_mask :: u64)"
proof
  assume "(a + k) AND uid_mask = a AND uid_mask"
  then have "unat (take_bit 48 (a + k)) = unat (take_bit 48 a)"
    by (simp add: uid_mask_mask take_bit_eq_mask)
  then have "unat (a + k) mod 281474976710656 = unat a mod 281474976710656"
    by (simp add: take_bit_eq_mod unat_mod_distrib)
  moreover have "unat (a + k) mod 281474976710656 = (unat a + unat k) mod 281474976710656"
    by (simp add: unat_word_ariths mod_mod_cancel)
  ultimately have "unat k mod 281474976710656 = 0"
    by (metis add_diff_cancel_left' mod_eq_dvd_iff_nat dvd_imp_mod_0 le_add1)
  then show False using assms by simp
qed

lemma uid_loop_ok:
  obtains acc uid where "uid_loop 3 old a = Inr (acc, uid)" "uid \<noteq> 0" "uid \<noteq> old" "uid AND uid_mask = uid"
proof -
  have d: "(a + 1) AND uid_mask \<noteq> (a + 2) AND uid_mask" "(a + 2) AND uid_mask \<noteq> (a + 3) AND uid_mask"
    "(a + 1) AND uid_mask \<noteq> (a + 3) AND uid_mask"
    using uid_mask_shift_distinct [of 1 "a + 1"] uid_mask_shift_distinct [of 1 "a + 2"]
      uid_mask_shift_distinct [of 2 "a + 1"]
    by (auto simp: add.assoc)
  let ?good = "\<lambda>b. b AND uid_mask \<noteq> 0 \<and> b AND uid_mask \<noteq> old"
  have "?good (a + 1) \<or> ?good (a + 2) \<or> ?good (a + 3)"
    using d by metis
  then have "\<exists>acc. uid_loop 3 old a = Inr (acc, acc AND uid_mask) \<and> ?good acc"
    by (auto simp: numeral_3_eq_3 Let_def add.assoc)
  then show ?thesis using that by (metis and.assoc and.idem)
qed

subsection \<open>Invariant\<close>

abbreviation session_inv :: "NetSession \<Rightarrow> bool" where
  "session_inv \<equiv> sess_inv 8192 2"

abbreviation refs_ok :: "NetSession \<Rightarrow> PacketPool \<Rightarrow> bool" where
  "refs_ok \<equiv> refs_in 5 4096"

lemmas session_inv_def = sess_inv_def [of 8192 2]
lemmas refs_ok_def = refs_in_def [of 5 4096]

lemma Session_Enqueue_ok:
  assumes inv: "session_inv s" and refs: "refs_ok s pool" and a: "0 < pp_refs pool a"
    and sr: "IsSendRecvable s"
  obtains s' pool' where "Session_Enqueue s pool a = Inr (s', pool', True)" "session_inv s'" "refs_ok s' pool'"
    "queue_list (ns_mSendQueue s') = queue_list (ns_mSendQueue s) @ [a]" "others s' pool' = others s pool"
    "s' = s\<lparr>ns_mSendQueue := ns_mSendQueue s'\<rparr>" "pp_refs pool' = (pp_refs pool)(a := pp_refs pool a + 1)"
proof -
  obtain q pool' where e: "AddRefPacket pool a = Inr pool'" "Queue_Enqueue (ns_mSendQueue s) a = Inr (q, True)"
    "session_inv (s\<lparr>ns_mSendQueue := q\<rparr>)" "refs_ok (s\<lparr>ns_mSendQueue := q\<rparr>) pool'"
    "queue_list q = queue_list (ns_mSendQueue s) @ [a]" "others (s\<lparr>ns_mSendQueue := q\<rparr>) pool' = others s pool"
    "pp_refs pool' = (pp_refs pool)(a := pp_refs pool a + 1)"
    by (rule enqueue_session [OF inv refs a])
  then show ?thesis
    using sr by (intro that [of "s\<lparr>ns_mSendQueue := q\<rparr>" pool']) (simp_all add: Session_Enqueue_def)
qed

lemma Session_Enqueue_closed:
  "\<not> IsSendRecvable s \<Longrightarrow> Session_Enqueue s pool a = Inr (s, pool, False)"
  by (simp add: Session_Enqueue_def)

subsection \<open>ReadySending and FinishSending\<close>

text \<open>
  With at most 300 packets queued and no send in progress, \<^verbatim>\<open>ReadySending\<close> hands out all queued
  packets in order, each with its whole length; the queue is empty afterwards and the references
  have moved to the sending buffer.
\<close>

lemma ReadySending_prefix:
  assumes inv: "session_inv s" and refs: "refs_ok s pool" and idle: "ns_IsSendingAtomic s = 0"
    and as: "queue_list (ns_mSendQueue s) = as @ bs" "as \<noteq> []" "length as \<le> 300"
    and k: "length (as @ bs) mod 2 ^ 64 = length as"
  obtains s' where "ReadySending s pool =
      Inr (s', Some (map (\<lambda>a. (a, GetPacketSize (the (pp_objs pool a)))) as))"
    "session_inv s'" "ns_IsSendingAtomic s' = 2" "sending s' = as" "queue_list (ns_mSendQueue s') = bs"
    "others s' pool = others s pool" "refs_ok s' pool"
    "ns_TotalByteSize s' = (\<Sum>a\<leftarrow>as. GetPacketSize (the (pp_objs pool a)))"
    "s' = s\<lparr>ns_mSendQueue := ns_mSendQueue s', ns_PacketBuffer := ns_PacketBuffer s',
           ns_PacketCount := ns_PacketCount s', ns_TotalByteSize := ns_TotalByteSize s', ns_IsSendingAtomic := 2\<rparr>"
proof -
  obtain s1 where s1: "ready_loop pool (length as) (s\<lparr>ns_IsSendingAtomic := 1, ns_PacketCount := 0, ns_TotalByteSize := 0\<rparr>) [] =
      Inr (s1, map (\<lambda>a. (a, GetPacketSize (the (pp_objs pool a)))) as)"
    "\<And>n. sending (s1\<lparr>ns_IsSendingAtomic := n\<rparr>) = as" "session_inv (s1\<lparr>ns_IsSendingAtomic := 2\<rparr>)"
    "queue_list (ns_mSendQueue s1) = bs" "ns_PacketCount s1 = length as"
    "\<And>n. others (s1\<lparr>ns_IsSendingAtomic := n\<rparr>) pool = others s pool" "\<And>n. refs_ok (s1\<lparr>ns_IsSendingAtomic := n\<rparr>) pool"
    "ns_TotalByteSize s1 = (\<Sum>a\<leftarrow>as. GetPacketSize (the (pp_objs pool a)))"
    "s1 = s\<lparr>ns_mSendQueue := ns_mSendQueue s1, ns_PacketBuffer := ns_PacketBuffer s1,
           ns_PacketCount := ns_PacketCount s1, ns_TotalByteSize := ns_TotalByteSize s1, ns_IsSendingAtomic := 1\<rparr>"
    using ready_loop_session [OF inv refs idle numeral_neq_zero as] by blast
  let ?s' = "s1\<lparr>ns_IsSendingAtomic := 2\<rparr>"
  have size: "nat (q_mUsedSize (ns_mSendQueue s) mod 2 ^ 64) = length as"
    using queue_used [of "ns_mSendQueue s"] inv as(1) k unfolding session_inv_def
    by (metis nat_int of_nat_mod of_nat_numeral of_nat_power)
  have eq: "?s' = s\<lparr>ns_mSendQueue := ns_mSendQueue ?s', ns_PacketBuffer := ns_PacketBuffer ?s',
           ns_PacketCount := ns_PacketCount ?s', ns_TotalByteSize := ns_TotalByteSize ?s', ns_IsSendingAtomic := 2\<rparr>"
    by (subst s1(9)) simp
  have "ReadySending s pool = Inr (?s', Some (map (\<lambda>a. (a, GetPacketSize (the (pp_objs pool a)))) as))"
    using idle size as(2,3) s1(1,5) by (simp add: ReadySending_def Let_def MAX_PACKET_COUNT_PER_SEND_def)
  then show ?thesis
    by (rule that [OF _ s1(3) _ s1(2) _ s1(6,7) _ eq]) (use s1(4,8) in simp_all)
qed

lemma ReadySending_ok:
  assumes "session_inv s" "refs_ok s pool" "ns_IsSendingAtomic s = 0"
    and as: "queue_list (ns_mSendQueue s) = as" "as \<noteq> []" "length as \<le> 300"
  obtains s' where "ReadySending s pool =
      Inr (s', Some (map (\<lambda>a. (a, GetPacketSize (the (pp_objs pool a)))) as))"
    "session_inv s'" "ns_IsSendingAtomic s' = 2" "sending s' = as" "queue_list (ns_mSendQueue s') = []"
    "others s' pool = others s pool" "refs_ok s' pool"
    "ns_TotalByteSize s' = (\<Sum>a\<leftarrow>as. GetPacketSize (the (pp_objs pool a)))"
    "s' = s\<lparr>ns_mSendQueue := ns_mSendQueue s', ns_PacketBuffer := ns_PacketBuffer s',
           ns_PacketCount := ns_PacketCount s', ns_TotalByteSize := ns_TotalByteSize s', ns_IsSendingAtomic := 2\<rparr>"
proof (rule ReadySending_prefix [OF assms(1-3), of as "[]"])
  show "length (as @ []) mod 2 ^ 64 = length as" using as(3) by simp
qed (use as that in simp_all)

lemma ReadySending_busy: "ns_IsSendingAtomic s \<noteq> 0 \<Longrightarrow> ReadySending s pool = Inr (s, None)"
  by (simp add: ReadySending_def)

lemma ReadySending_empty:
  assumes "session_inv s" "ns_IsSendingAtomic s = 0" "queue_list (ns_mSendQueue s) = []"
  shows "ReadySending s pool = Inr (s, None)"
proof -
  have "q_mUsedSize (ns_mSendQueue s) = 0"
    using assms queue_used [of "ns_mSendQueue s"] by (simp add: session_inv_def)
  moreover have "s\<lparr>ns_IsSendingAtomic := 0\<rparr> = s" using assms(2) by simp
  ultimately show ?thesis using assms(2) by (simp add: ReadySending_def Let_def)
qed

text \<open>More than 300 queued packets make it throw, and nothing bounds the queue at 300.\<close>

lemma ReadySending_overflow:
  assumes "session_inv s" "ns_IsSendingAtomic s = 0" "300 < length (queue_list (ns_mSendQueue s))"
    "length (queue_list (ns_mSendQueue s)) < 2 ^ 64"
  shows "ReadySending s pool = Inl InvalidArgument"
  using assms queue_used [of "ns_mSendQueue s"]
  by (simp add: ReadySending_def Let_def MAX_PACKET_COUNT_PER_SEND_def session_inv_def)

text \<open>Every outcome of \<^verbatim>\<open>ReadySending\<close>: it throws, or leaves a consistent session behind.\<close>

lemma ReadySending_cases:
  assumes inv: "session_inv s" and refs: "refs_ok s pool"
  shows "ReadySending s pool = Inl InvalidArgument \<and> 300 < length (queue_list (ns_mSendQueue s)) \<or>
    ReadySending s pool = Inr (s, None) \<or>
    (\<exists>s' out. ReadySending s pool = Inr (s', Some out) \<and> session_inv s' \<and> refs_ok s' pool \<and> others s' pool = others s pool \<and>
      ns_IsSendingAtomic s = 0 \<and> ns_IsSendingAtomic s' = 2 \<and>
      s' = s\<lparr>ns_mSendQueue := ns_mSendQueue s', ns_PacketBuffer := ns_PacketBuffer s',
             ns_PacketCount := ns_PacketCount s', ns_TotalByteSize := ns_TotalByteSize s', ns_IsSendingAtomic := 2\<rparr>)"
proof (cases "ns_IsSendingAtomic s = 0")
  case True
  define q where "q = queue_list (ns_mSendQueue s)"
  define k where "k = length q mod 2 ^ 64"
  have used: "nat (q_mUsedSize (ns_mSendQueue s) mod 2 ^ 64) = k"
    using queue_used [of "ns_mSendQueue s"] inv unfolding session_inv_def k_def q_def
    by (metis nat_int of_nat_mod of_nat_numeral of_nat_power)
  have kq: "k \<le> length q" by (simp add: k_def)
  consider "k = 0" | "300 < k" | "0 < k" "k \<le> 300" by linarith
  then show ?thesis
  proof cases
    case 1
    then have "ReadySending s pool = Inr (s\<lparr>ns_IsSendingAtomic := 0\<rparr>, None)"
      using True used by (simp add: ReadySending_def Let_def)
    moreover have "s\<lparr>ns_IsSendingAtomic := 0\<rparr> = s" using True by simp
    ultimately show ?thesis by metis
  next
    case 2
    then show ?thesis using True used kq by (simp add: ReadySending_def Let_def MAX_PACKET_COUNT_PER_SEND_def q_def)
  next
    case 3
    have "queue_list (ns_mSendQueue s) = take k q @ drop k q" by (simp add: q_def)
    moreover have "take k q \<noteq> []" "length (take k q) \<le> 300" "length (take k q @ drop k q) mod 2 ^ 64 = length (take k q)"
      using 3 kq by (auto simp: k_def)
    ultimately show ?thesis
      by (intro disjI2) (rule ReadySending_prefix [OF inv refs True, of "take k q" "drop k q"], use True in auto)
  qed
qed (simp add: ReadySending_busy)

lemma FinishSending_ok:
  assumes inv: "session_inv s" and refs: "refs_ok s pool"
  obtains s' pool' where "FinishSending s pool = Inr (s', pool', length (sending s))" "session_inv s'"
    "refs_ok s' pool'" "sending s' = []" "ns_IsSendingAtomic s' = 0" "others s' pool' = others s pool"
    "s' = s\<lparr>ns_PacketCount := 0, ns_TotalByteSize := 0, ns_IsSendingAtomic := 0\<rparr>"
proof -
  let ?s' = "s\<lparr>ns_PacketCount := 0, ns_TotalByteSize := 0, ns_IsSendingAtomic := 0\<rparr>"
  obtain pool' where p: "finish_loop (take (ns_PacketCount s) (ns_PacketBuffer s)) pool = Inr pool'" "session_inv ?s'"
    "\<And>n. others (s\<lparr>ns_PacketCount := 0, ns_TotalByteSize := 0, ns_IsSendingAtomic := n\<rparr>) pool' = others s pool"
    "\<And>n. refs_ok (s\<lparr>ns_PacketCount := 0, ns_TotalByteSize := 0, ns_IsSendingAtomic := n\<rparr>) pool'"
    using finish_loop_session [OF inv refs numeral_neq_zero] by blast
  have "ns_IsSendingAtomic s = 0 \<or> ns_IsSendingAtomic s = 2" using inv unfolding session_inv_def by blast
  then have "FinishSending s pool = Inr (?s', pool', length (sending s))"
    using p(1) length_sending [OF inv] by (auto simp: FinishSending_def)
  then show ?thesis
    by (rule that [of ?s' pool']) (use p in \<open>simp_all add: sending_def\<close>)
qed

text \<open>
  Release drops every reference the session holds and no other; the session ends closed, without a
  socket or an id, with nothing queued.
\<close>

lemma Session_Release_ok:
  assumes inv: "session_inv s" and refs: "refs_ok s pool"
  obtains s' pool' where "Session_Release s pool = Inr (s', pool')" "session_inv s'" "refs_ok s' pool'"
    "session_refs s' = []" "others s' pool' = others s pool" "ns_mSessionID s' = 0" "ns_mSocket s' = None"
    "IsClosed s'" "ns_mPrevUID s' = SessionUID (ns_mSessionID s)" "ns_IsSendingAtomic s' = 0"
    "ns_IsReleasedAtomic s' = ns_IsReleasedAtomic s" "ns_IOCountAtomic s' = ns_IOCountAtomic s"
    "ns_mSessionIndex s' = ns_mSessionIndex s"
proof -
  let ?s1 = "s\<lparr>ns_mIsCloseSocket := 1, ns_mSocket := None,
    ns_mPrevUID := SessionUID (ns_mSessionID s), ns_mSessionID := 0\<rparr>"
  have o1: "others ?s1 = others s" by (simp add: others_def session_refs_def sending_def fun_eq_iff)
  have inv1: "session_inv ?s1" using inv by (auto simp: session_inv_def)
  have refs1: "refs_ok ?s1 pool" using refs o1 by (simp add: refs_ok_def)
  obtain q pool1 where d: "drain_loop (nat (q_mUsedSize (ns_mSendQueue s))) (ns_mSendQueue s) pool = Inr (q, pool1)"
    "session_inv (?s1\<lparr>ns_mSendQueue := q\<rparr>)" "queue_list q = []" "refs_ok (?s1\<lparr>ns_mSendQueue := q\<rparr>) pool1"
    "others (?s1\<lparr>ns_mSendQueue := q\<rparr>) pool1 = others ?s1 pool"
    using drain_loop_session [OF inv1 refs1] by auto
  let ?s2 = "?s1\<lparr>ns_mSendQueue := q\<rparr>"
  obtain s' pool' where f: "FinishSending ?s2 pool1 = Inr (s', pool', length (sending ?s2))" "session_inv s'"
    "refs_ok s' pool'" "sending s' = []" "ns_IsSendingAtomic s' = 0" "others s' pool' = others ?s2 pool1"
    "s' = ?s2\<lparr>ns_PacketCount := 0, ns_TotalByteSize := 0, ns_IsSendingAtomic := 0\<rparr>"
    using FinishSending_ok [OF d(2,4)] .
  show ?thesis
  proof (rule that [of s' pool'])
    show "Session_Release s pool = Inr (s', pool')"
      using d(1) f(1) by (simp add: Session_Release_def Let_def)
    show "session_refs s' = []" using f(4) d(3) by (simp add: session_refs_def) (simp add: f(7))
  qed (use f d(5) o1 in \<open>simp_all add: IsClosed_def\<close>)
qed

lemma TryRelease_ok:
  assumes inv: "session_inv s" and refs: "refs_ok s pool"
    and live: "ns_IsReleasedAtomic s = 0" "ns_IOCountAtomic s = 0"
  obtains s' pool' where "TryRelease s pool = Inr (s', pool', True)" "session_inv s'" "refs_ok s' pool'"
    "session_refs s' = []" "others s' pool' = others s pool" "ns_mSessionID s' = 0" "ns_mSocket s' = None"
    "IsClosed s'" "IsReleased s'" "ns_IOCountAtomic s' = 0" "ns_IsSendingAtomic s' = 0"
    "ns_mPrevUID s' = SessionUID (ns_mSessionID s)" "ns_mSessionIndex s' = ns_mSessionIndex s"
proof -
  let ?s0 = "s\<lparr>ns_IsReleasedAtomic := 1, ns_IOCountAtomic := 0\<rparr>"
  have "session_inv ?s0" "refs_ok ?s0 pool" using inv refs by simp_all
  then obtain s' pool' where r: "Session_Release ?s0 pool = Inr (s', pool')" "session_inv s'" "refs_ok s' pool'"
    "session_refs s' = []" "others s' pool' = others ?s0 pool" "ns_mSessionID s' = 0" "ns_mSocket s' = None"
    "IsClosed s'" "ns_mPrevUID s' = SessionUID (ns_mSessionID ?s0)" "ns_IsSendingAtomic s' = 0"
    "ns_IsReleasedAtomic s' = ns_IsReleasedAtomic ?s0" "ns_IOCountAtomic s' = ns_IOCountAtomic ?s0"
    "ns_mSessionIndex s' = ns_mSessionIndex ?s0"
    by (rule Session_Release_ok)
  then show ?thesis
    using that [of s' pool'] live by (simp add: TryRelease_def IsReleased_def)
qed

lemma TryRelease_busy:
  "ns_IsReleasedAtomic s \<noteq> 0 \<or> ns_IOCountAtomic s \<noteq> 0 \<Longrightarrow> TryRelease s pool = Inr (s, pool, False)"
  by (auto simp: TryRelease_def)

lemma uid_loop_3:
  "uid_loop 3 old acc = Inr (acc', uid) \<Longrightarrow>
     uid = acc' AND uid_mask \<and> uid \<noteq> 0 \<and> uid \<noteq> old \<and> acc' \<in> {acc + 1, acc + 2, acc + 3}"
  by (auto simp: numeral_3_eq_3 Let_def add.assoc split: if_splits)

lemma Session_Init_new_uid:
  "Session_Init sock address port garbage s = Inr v \<Longrightarrow> new_uid s v"
  by (auto simp: Session_Init_def rbind_eq_Inr new_uid_def Let_def SessionUID_Gen and.assoc split: if_splits dest!: uid_loop_3)

lemma Session_Init_ok:
  assumes inv: "session_inv s" and rel: "IsReleased s" and empty: "session_refs s = []"
  obtains s' uid where "Session_Init sock address port garbage s = Inr s'" "session_inv s'" "session_refs s' = []"
    "uid \<noteq> 0" "uid \<noteq> ns_mPrevUID s" "uid AND uid_mask = uid"
    "ns_mSessionID s' = GenSessionID (ns_mSessionIndex s) uid" "ns_mSessionIndex s' = ns_mSessionIndex s"
    "ns_IsReleasedAtomic s' = 0" "ns_mIsCloseSocket s' = 0" "ns_mSocket s' = Some sock"
    "ns_IOCountAtomic s' = ns_IOCountAtomic s" "ns_IsSendingAtomic s' = 0"
    "rb_contents (ns_mRecvQueue s') = []" "ns_mPrevUID s' = ns_mPrevUID s"
proof -
  obtain acc uid where u: "uid_loop 3 (ns_mPrevUID s) (ns_mSessionUIDAcc s) = Inr (acc, uid)" "uid \<noteq> 0"
    "uid \<noteq> ns_mPrevUID s" "uid AND uid_mask = uid"
    by (rule uid_loop_ok)
  have q: "queue_inv (ns_mSendQueue s)" "queue_list (ns_mSendQueue s) = []"
    using inv empty by (auto simp: session_inv_def session_refs_def)
  obtain q' where q': "Queue_Clear garbage (ns_mSendQueue s) = Inr q'" "queue_inv q'" "queue_list q' = []"
    using Queue_Clear_empty [OF q] by metis
  have rb: "rb_inv (RingBuffer_ClearBuffer (ns_mRecvQueue s))"
    "rb_contents (RingBuffer_ClearBuffer (ns_mRecvQueue s)) = []"
    "rb_mMaxCapacity (RingBuffer_ClearBuffer (ns_mRecvQueue s)) = rb_mMaxCapacity (ns_mRecvQueue s)"
    using inv by (simp_all add: session_inv_def RingBuffer_ClearBuffer_def rb_inv_def rb_contents_def wrap_def)
  let ?s' = "s\<lparr>ns_mSessionUIDAcc := acc, ns_mSessionID := GenSessionID (ns_mSessionIndex s) uid,
    ns_mSocket := Some sock, ns_mPort := port, ns_mAddress := address, ns_mSendQueue := q',
    ns_mRecvQueue := RingBuffer_ClearBuffer (ns_mRecvQueue s), ns_PacketCount := 0, ns_TotalByteSize := 0,
    ns_IsSendingAtomic := 0, ns_mIsCloseSocket := 0, ns_IsReleasedAtomic := 0\<rparr>"
  have "Session_Init sock address port garbage s = Inr ?s'"
    using rel u(1) q'(1) by (simp add: Session_Init_def)
  moreover have "session_inv ?s'" using inv q'(2) rb by (simp add: session_inv_def)
  moreover have "session_refs ?s' = []" using q'(3) by (simp add: session_refs_def sending_def)
  ultimately show ?thesis using that [of ?s' uid] u rb by simp
qed

lemma NetSession_Create_ok:
  "\<exists>s. NetSession_Create index garbage uid = Inr s \<and> session_inv s \<and> session_refs s = [] \<and> IsReleased s \<and> IsClosed s \<and>
     ns_mSessionIndex s = index \<and> ns_IOCountAtomic s = 0 \<and> ns_IsSendingAtomic s = 0 \<and> ns_mSessionID s = 0 \<and> ns_mPrevUID s = 0"
proof -
  obtain q where q: "Queue_Create garbage uid 1024 = Inr q" "queue_inv q" "queue_list q = []"
    using Queue_Create_ok [of garbage uid 1024] by blast
  have rb: "rb_inv (RingBuffer_Init 8192)" using rb_inv_Init [of 8192] by (simp add: size_lim_def)
  show ?thesis
    using q rb by (simp add: NetSession_Create_def session_inv_def session_refs_def sending_def IsReleased_def
        IsClosed_def MAX_PACKET_COUNT_PER_SEND_def) (simp add: RingBuffer_Init_def)
qed

subsection \<open>Sessions with packets\<close>

lemma enqueue_many:
  assumes "session_inv s" "refs_ok s pool" "0 < pp_refs pool a" "IsSendRecvable s"
  shows "\<exists>s' pool'. session_inv s' \<and> refs_ok s' pool' \<and> 0 < pp_refs pool' a \<and> IsSendRecvable s' \<and>
    queue_list (ns_mSendQueue s') = queue_list (ns_mSendQueue s) @ replicate n a \<and>
    ns_IsSendingAtomic s' = ns_IsSendingAtomic s"
  using assms
proof (induction n arbitrary: s pool)
  case 0
  then show ?case by auto
next
  case (Suc n)
  obtain s1 pool1 where e: "Session_Enqueue s pool a = Inr (s1, pool1, True)" "session_inv s1" "refs_ok s1 pool1"
    "queue_list (ns_mSendQueue s1) = queue_list (ns_mSendQueue s) @ [a]" "s1 = s\<lparr>ns_mSendQueue := ns_mSendQueue s1\<rparr>"
    "pp_refs pool1 = (pp_refs pool)(a := pp_refs pool a + 1)"
    using Session_Enqueue_ok [OF Suc.prems] by metis
  have k: "IsSendRecvable s1" "ns_IsSendingAtomic s1 = ns_IsSendingAtomic s"
    using Suc.prems(4) arg_cong [OF e(5), of IsSendRecvable] arg_cong [OF e(5), of ns_IsSendingAtomic]
    by (simp_all add: IsSendRecvable_def IsReleased_def IsClosed_def)
  have "0 < pp_refs pool1 a" using e(6) Suc.prems(3) by simp
  from Suc.IH [OF e(2,3) this k(1)] show ?case using e(4) k(2) by simp
qed

lemma open_session:
  "\<exists>s. session_inv s \<and> session_refs s = [] \<and> IsSendRecvable s \<and> ns_IsSendingAtomic s = 0 \<and> ns_IOCountAtomic s = 0 \<and> ns_IsReleasedAtomic s = 0"
proof -
  obtain s0 where s0: "session_inv s0" "session_refs s0 = []" "IsReleased s0" "ns_IOCountAtomic s0 = 0"
    using NetSession_Create_ok [of 0 0 0] by auto
  obtain s where "session_inv s" "session_refs s = []" "ns_IsReleasedAtomic s = 0" "ns_IOCountAtomic s = ns_IOCountAtomic s0"
    "ns_IsSendingAtomic s = 0"
    using Session_Init_ok [OF s0(1,3,2)] by metis
  then show ?thesis using s0(4) by (intro exI [of _ s]) (simp add: IsSendRecvable_def IsReleased_def)
qed

lemma one_packet: "\<exists>pool a. pp_inv pool \<and> pp_refs pool a = 1"
proof -
  have "mem_ok (\<lambda>_. replicate 4101 0)" by (simp add: mem_ok_def NetHeaderSize_def NET_PACKET_BODY_CAPACITY_def)
  then obtain s a where s: "pp_inv s"
    "pp_objs s = (pp_objs (PacketPool_Init 0))(a \<mapsto> (Packet_Initial 5 4096 (replicate 4101 0))\<lparr>pk_mRefCount := 1\<rparr>)"
    using AllocPacket_ok [OF pp_inv_Init, of "\<lambda>_. replicate 4101 0" 0 0] by metis
  then have "pp_refs s a = 1" by (simp add: pp_refs_def)
  then show ?thesis using s(1) by blast
qed

lemma queued_session:
  "\<exists>s pool a. session_inv s \<and> refs_ok s pool \<and> ns_IsSendingAtomic s = 0 \<and> queue_list (ns_mSendQueue s) = replicate n a"
proof -
  obtain s where s: "session_inv s" "session_refs s = []" "IsSendRecvable s" "ns_IsSendingAtomic s = 0"
    using open_session by blast
  obtain pool a where p: "pp_inv pool" "pp_refs pool a = 1" using one_packet by blast
  have "refs_ok s pool" using s(2) p(1) pp_refs_pos [OF p(1)]
    by (auto simp: refs_ok_def others_def pp_refs_def pp_inv_def split: option.split)
       (metis dual_order.trans zero_le_one)
  from enqueue_many [OF s(1) this _ s(3), of a n] p(2) s(2,4) show ?thesis by (auto simp: session_refs_def)
qed

subsection \<open>Properties\<close>

text \<open>
  A session identifier holds the low 48 bits of the user number and the low 16 bits of the index, and gives both back.
  In particular, two indices that differ by a multiple of 65536 collide.
\<close>

theorem session_id_parts:
  "SessionUID (GenSessionID i u) = u AND uid_mask \<and> unat (SessionIndex (GenSessionID i u)) = unat i mod 65536"
  by (simp add: SessionUID_Gen SessionIndex_Gen_nat)

text \<open>
  The loop that looks for a new user number in \<^verbatim>\<open>NetSession::Init\<close> ends after at most three rounds, with a number that
  is not 0, fits into 48 bits and is not the one the session had before, also when the counter wraps around.
\<close>

theorem new_uid_terminates:
  "\<exists>acc' uid. uid_loop 3 old acc = Inr (acc', uid) \<and> uid \<noteq> 0 \<and> uid \<noteq> old \<and> SessionUID uid = uid"
  using uid_loop_ok [of old acc] by (metis SessionUID_def)

text \<open>
  C34. One round of sending: the packets that are queued are given to the kernel in the order in which they were queued;
  while they are under way no second send starts; when they are sent, the session gives back one reference
  for each of them, and is idle with an empty queue.
\<close>

theorem send_round:
  assumes "session_inv s" "refs_ok s pool" "ns_IsSendingAtomic s = 0"
    and "queue_list (ns_mSendQueue s) = as" "as \<noteq> []" "length as \<le> 300"
  shows "\<exists>s1 s2 pool'. ReadySending s pool = Inr (s1, Some (map (\<lambda>a. (a, GetPacketSize (the (pp_objs pool a)))) as)) \<and>
    ReadySending s1 pool = Inr (s1, None) \<and> FinishSending s1 pool = Inr (s2, pool', length as) \<and>
    pp_refs pool' = (\<lambda>a. pp_refs pool a - int (count_list as a)) \<and>
    ns_IsSendingAtomic s2 = 0 \<and> session_refs s2 = [] \<and> session_inv s2"
proof -
  obtain s1 where r: "ReadySending s pool = Inr (s1, Some (map (\<lambda>a. (a, GetPacketSize (the (pp_objs pool a)))) as))"
    "session_inv s1" "ns_IsSendingAtomic s1 = 2" "sending s1 = as" "queue_list (ns_mSendQueue s1) = []" "refs_ok s1 pool"
    by (rule ReadySending_ok [OF assms]) (rule that)
  obtain s2 pool' where f: "FinishSending s1 pool = Inr (s2, pool', length (sending s1))" "session_inv s2"
    "sending s2 = []" "ns_IsSendingAtomic s2 = 0" "others s2 pool' = others s1 pool"
    "s2 = s1\<lparr>ns_PacketCount := 0, ns_TotalByteSize := 0, ns_IsSendingAtomic := 0\<rparr>"
    using FinishSending_ok [OF r(2,6)] by metis
  have q: "queue_list (ns_mSendQueue s2) = []" using arg_cong [OF f(6), of ns_mSendQueue] r(5) by simp
  then have refs: "session_refs s2 = []" "session_refs s1 = as" using f(3) r(4,5) by (simp_all add: session_refs_def)
  have "pp_refs pool' a = pp_refs pool a - int (count_list as a)" for a
    using fun_cong [OF f(5), of a] refs by (simp add: others_def)
  moreover have "ReadySending s1 pool = Inr (s1, None)" using r(3) by (simp add: ReadySending_busy)
  ultimately show ?thesis using r(1,4) f(1,2,4) refs(1) by (intro exI [of _ s1] exI [of _ s2] exI [of _ pool']) (simp add: fun_eq_iff)
qed

theorem send_round_witness:
  "\<exists>s pool a s1. queue_list (ns_mSendQueue s) = [a, a] \<and>
     ReadySending s pool = Inr (s1, Some (map (\<lambda>a. (a, GetPacketSize (the (pp_objs pool a)))) [a, a])) \<and> ReadySending s1 pool = Inr (s1, None)"
proof -
  obtain s pool a where s: "session_inv s" "refs_ok s pool" "ns_IsSendingAtomic s = 0" "queue_list (ns_mSendQueue s) = [a, a]"
    using queued_session [of 2] by (auto simp: numeral_2_eq_2)
  from send_round [OF s] s(4) show ?thesis by auto
qed

text \<open>
  Nothing bounds the queue of packets to send, but a round of sending takes at most 300: once more are queued,
  \<^verbatim>\<open>ReadySending\<close> throws at every call, and nothing is sent any more.
\<close>

theorem ready_sending_overflow:
  assumes "session_inv s" "ns_IsSendingAtomic s = 0"
    and "300 < length (queue_list (ns_mSendQueue s))" "length (queue_list (ns_mSendQueue s)) < 2 ^ 64"
  shows "ReadySending s pool = Inl InvalidArgument"
  by (rule ReadySending_overflow [OF assms])

theorem ready_sending_overflow_witness:
  "\<exists>s pool a. queue_list (ns_mSendQueue s) = replicate 301 a \<and> ReadySending s pool = Inl InvalidArgument"
proof -
  obtain s and pool :: PacketPool and a where s: "session_inv s" "ns_IsSendingAtomic s = 0" "queue_list (ns_mSendQueue s) = replicate 301 a"
    using queued_session [of 301] by blast
  have "length (queue_list (ns_mSendQueue s)) = 301" by (simp only: s(3) length_replicate)
  then have "ReadySending s pool = Inl InvalidArgument" by (intro ready_sending_overflow [OF s(1,2)]) simp_all
  with s(3) show ?thesis by blast
qed

text \<open>
  \<^verbatim>\<open>TryRelease\<close> does nothing while an I/O is under way or when the session is released already; otherwise it gives back
  every reference the session holds, queued or sent, and leaves the session released, closed and without a socket.
\<close>

lemma release_returns_packets:
  assumes "session_inv s" "refs_ok s pool"
  shows "if ns_IsReleasedAtomic s \<noteq> 0 \<or> ns_IOCountAtomic s \<noteq> 0 then TryRelease s pool = Inr (s, pool, False)
    else \<exists>s' pool'. TryRelease s pool = Inr (s', pool', True) \<and> session_inv s' \<and>
      pp_refs pool' = (\<lambda>a. pp_refs pool a - int (count_list (session_refs s) a)) \<and>
      session_refs s' = [] \<and> IsReleased s' \<and> IsClosed s' \<and> ns_mSocket s' = None \<and> ns_mSessionID s' = 0"
proof (cases "ns_IsReleasedAtomic s \<noteq> 0 \<or> ns_IOCountAtomic s \<noteq> 0")
  case True
  then show ?thesis using TryRelease_busy by auto
next
  case False
  then obtain s' pool' where r: "TryRelease s pool = Inr (s', pool', True)" "session_inv s'" "session_refs s' = []"
    "others s' pool' = others s pool" "ns_mSessionID s' = 0" "ns_mSocket s' = None" "IsClosed s'" "IsReleased s'"
    using TryRelease_ok [OF assms] by metis
  have "pp_refs pool' a = pp_refs pool a - int (count_list (session_refs s) a)" for a
    using fun_cong [OF r(4), of a] r(3) by (simp add: others_def)
  then show ?thesis using r False by auto
qed

lemma release_returns_packets_example:
  "\<exists>s pool s' pool'. session_refs s = [] \<and> TryRelease s pool = Inr (s', pool', True) \<and> pp_refs pool' = pp_refs pool \<and> IsReleased s'"
proof -
  obtain s where s: "session_inv s" "session_refs s = []" "ns_IOCountAtomic s = 0" "ns_IsReleasedAtomic s = 0"
    using open_session by blast
  let ?pool = "PacketPool_Init 0"
  have "refs_ok s ?pool" using s(2) pp_inv_Init [of 0] by (simp add: refs_ok_def others_def pp_refs_def PacketPool_Init_def)
  from release_returns_packets [OF s(1) this] s(3,4) obtain s' pool' where r: "TryRelease s ?pool = Inr (s', pool', True)" "IsReleased s'"
    "pp_refs pool' = (\<lambda>a. pp_refs ?pool a - int (count_list (session_refs s) a))" by auto
  then have "pp_refs pool' = pp_refs ?pool" using s(2) by simp
  then show ?thesis using r(1,2) s(2) by blast
qed

end
