(* ===== verification/Net_Core.thy ===== *)
theory Net_Core
  imports Core_State Net_Session
begin

text \<open>
  \<^verbatim>\<open>NetSessionManager\<close> and \<^verbatim>\<open>NetCore\<close> (\<^verbatim>\<open>NetSessionManager.cpp\<close>, \<^verbatim>\<open>NetCore.cpp\<close>,
  \<^verbatim>\<open>NetCore_ThreadNetworkAccept.cpp\<close>, \<^verbatim>\<open>NetCore_ThreadNetworkIO.cpp\<close>): sessions are taken from and given back to
  the stack of unused sessions, the number of I/Os a session has under way decides when it is released,
  and each completed I/O is dispatched to the code that handles it.

  What the operating system answers is an argument of the operation that asks. The event handler
  (\<^verbatim>\<open>INetCoreEvent\<close>) is a record of functions on the state of the core, so that a callback may send packets and
  disconnect sessions.
\<close>

subsection \<open>Socket options\<close>

text \<open>
  \<^verbatim>\<open>ApplySocketOption\<close> stops at the first that fails; the
  keep-alive request is made only when the option is on.
\<close>

definition ApplySocketOption :: "sockopt_replies \<Rightarrow> ServerComponentOption \<Rightarrow> eServerComponentError option" where
  "ApplySocketOption r option =
     (if \<not> sr_rcvbuf r then Some Fail_setsockopt
      else if \<not> sr_sndbuf r then Some Fail_setsockopt
      else if \<not> sr_linger r then Some Fail_setsockopt
      else if \<not> sr_nodelay r then Some Fail_setsockopt
      else if ka_IsOn (so_KeepAliveOption option) \<and> \<not> sr_keepalive r then Some Fail_WSAIoctl
      else None)"

subsection \<open>State\<close>

type_synonym 'w core = "(NetSession, 'w) core_state"

record 'w INetCoreEvent =
  ev_OnConnectionRequested :: "string \<Rightarrow> u16 \<Rightarrow> 'w core \<Rightarrow> bool"
  ev_OnConnected :: "u64 \<Rightarrow> 'w core \<Rightarrow> 'w core res"
  ev_OnReceived :: "u64 \<Rightarrow> nat \<Rightarrow> Packet \<Rightarrow> 'w core \<Rightarrow> handler_exit \<times> Packet \<times> 'w core"
  ev_OnSent :: "u64 \<Rightarrow> nat \<Rightarrow> 'w core \<Rightarrow> 'w core res"
  ev_OnDisconnected :: "u64 \<Rightarrow> 'w core \<Rightarrow> 'w core res"

subsection \<open>NetSessionManager\<close>

fun init_loop :: "nat \<Rightarrow> u64 \<Rightarrow> nat list \<Rightarrow> NetSession list \<Rightarrow> nat LockFreeStack \<Rightarrow> (NetSession list \<times> nat LockFreeStack) res" where
  "init_loop garbage uid [] sessions unused = Inr (sessions, unused)"
| "init_loop garbage uid (i # is) sessions unused =
     rbind (NetSession_Create (of_nat i) garbage uid) (\<lambda>v.
     rbind (Stack_Push unused i) (\<lambda>(unused, _).
       init_loop garbage uid is (sessions @ [v]) unused))"

text \<open>\<^verbatim>\<open>Cleanup\<close>: deleting a session releases it.\<close>

fun cleanup_loop :: "NetSession list \<Rightarrow> PacketPool \<Rightarrow> PacketPool res" where
  "cleanup_loop [] pool = Inr pool"
| "cleanup_loop (v # vs) pool = rbind (Session_Release v pool) (\<lambda>(_, pool). cleanup_loop vs pool)"

definition Manager_Cleanup :: "'w core \<Rightarrow> 'w core res" where
  "Manager_Cleanup s =
     rbind (cleanup_loop (nc_mSessionPool s) (nc_send s)) (\<lambda>pool.
     rbind (Stack_Clear (nc_mUnusedSession s)) (\<lambda>unused.
       Inr (s\<lparr>nc_mSessionPool := [], nc_send := pool, nc_mUnusedSession := unused,
              nc_log := nc_log s @ map (\<lambda>v. Closesocket (ns_mSocket v)) (nc_mSessionPool s)\<rparr>)))"

definition Manager_Init :: "nat \<Rightarrow> u64 \<Rightarrow> u32 \<Rightarrow> 'w core \<Rightarrow> 'w core res" where
  "Manager_Init garbage uid n s =
     rbind (Manager_Cleanup s) (\<lambda>s.
     rbind (Stack_Init (unat n) (nc_mUnusedSession s)) (\<lambda>unused.
     rbind (init_loop garbage uid [0..<unat n] [] unused) (\<lambda>(sessions, unused).
       Inr (s\<lparr>nc_mSessionPool := sessions, nc_mUnusedSession := unused\<rparr>))))"

definition FindSessionOrNull :: "u64 \<Rightarrow> 'w core \<Rightarrow> nat option res" where
  "FindSessionOrNull sid s =
     (let index = unat (SessionIndex sid) in
      if length (nc_mSessionPool s) \<le> index then Inl MemFault
      else
        let session = ses s index in
        if ns_mSessionID session \<noteq> sid then Inr None
        else if IsClosed session then Inr None
        else if IsReleased session then Inr None
        else Inr (Some index))"

definition NewSessionOrNull :: "nat \<Rightarrow> string \<Rightarrow> u16 \<Rightarrow> nat \<Rightarrow> 'w core \<Rightarrow> ('w core \<times> nat option) res" where
  "NewSessionOrNull sock address port garbage s =
     rbind (Stack_TryPop (nc_mUnusedSession s)) (\<lambda>(unused, r).
       case r of
         None \<Rightarrow> Inr (s\<lparr>nc_mUnusedSession := unused\<rparr>, None)
       | Some i \<Rightarrow>
           rbind (Session_Init sock address port garbage (ses s i)) (\<lambda>v.
             Inr ((set_ses i v s)\<lparr>nc_mUnusedSession := unused,
                    nc_mConnectedSessionCount := nc_mConnectedSessionCount s + 1\<rparr>, Some i)))"

definition Manager_TryReleaseSession :: "nat \<Rightarrow> 'w core \<Rightarrow> ('w core \<times> bool) res" where
  "Manager_TryReleaseSession i s =
     (if IsReleased (ses s i) then Inr (s, False)
      else
        rbind (TryRelease (ses s i) (nc_send s)) (\<lambda>(v, pool, ok).
        if \<not> ok then Inr ((set_ses i v s)\<lparr>nc_send := pool\<rparr>, False)
        else
          rbind (Stack_Push (nc_mUnusedSession s) i) (\<lambda>(unused, isPush).
          if \<not> isPush then Inl LogicError
          else Inr (put_log (Closesocket (ns_mSocket (ses s i)))
                 ((set_ses i v s)\<lparr>nc_send := pool, nc_mUnusedSession := unused,
                    nc_mConnectedSessionCount := nc_mConnectedSessionCount s - 1\<rparr>), True))))"

subsection \<open>Releasing, acquiring\<close>

definition TryReleaseSession :: "'w INetCoreEvent \<Rightarrow> nat \<Rightarrow> 'w core \<Rightarrow> ('w core \<times> bool) res" where
  "TryReleaseSession ev i s =
     rbind (DecrementIO i s) (\<lambda>(s, ioDecremented).
     if ioDecremented < 0 then Inl LogicError
     else if ioDecremented \<noteq> 0 then Inr (s, False)
     else
       let sessionID = ns_mSessionID (ses s i) in
       rbind (Manager_TryReleaseSession i s) (\<lambda>(s, ok).
       if \<not> ok then Inr (s, False)
       else rbind (ev_OnDisconnected ev sessionID (put_log (OnDisconnected sessionID) s)) (\<lambda>s. Inr (s, True))))"

definition AcquireSessionOrNull :: "'w INetCoreEvent \<Rightarrow> u64 \<Rightarrow> 'w core \<Rightarrow> ('w core \<times> nat option) res" where
  "AcquireSessionOrNull ev sid s =
     rbind (FindSessionOrNull sid s) (\<lambda>r.
       case r of
         None \<Rightarrow> Inr (s, None)
       | Some i \<Rightarrow>
           let (s, n) = IncrementIO i s in
           if n = 1 then rbind (TryReleaseSession ev i s) (\<lambda>(s, _). Inr (s, None))
           else if ns_mSessionID (ses s i) \<noteq> sid
           then rbind (TryReleaseSession ev i s) (\<lambda>(s, _). Inr (s, None))
           else if IsReleased (ses s i) then rbind (TryReleaseSession ev i s) (\<lambda>(s, _). Inr (s, None))
           else Inr (s, Some i))"

subsection \<open>Posting I/O\<close>

text \<open>
  The error codes after which the connection is given up: \<^verbatim>\<open>WSAEINTR\<close>, \<^verbatim>\<open>WSAECONNABORTED\<close>, \<^verbatim>\<open>WSAEINVAL\<close>,
  \<^verbatim>\<open>WSAESHUTDOWN\<close>, \<^verbatim>\<open>WSAECONNRESET\<close>, \<^verbatim>\<open>WSAENOTSOCK\<close>, \<^verbatim>\<open>WSANOTINITIALISED\<close> for \<^verbatim>\<open>WSASend\<close>, without \<^verbatim>\<open>WSAEINVAL\<close> and
  \<^verbatim>\<open>WSANOTINITIALISED\<close> for \<^verbatim>\<open>WSARecv\<close>. Every other code is answered with the crash dump.
\<close>

definition send_errors :: "int list" where
  "send_errors = [10004, 10053, 10022, 10058, 10054, 10038, 10093]"

definition recv_errors :: "int list" where
  "recv_errors = [10053, 10058, 10004, 10054, 10038]"

fun wsa_crash :: "int list \<Rightarrow> wsa_reply \<Rightarrow> bool" where
  "wsa_crash errs WSA_Done = False"
| "wsa_crash errs (WSA_Error e) = (e \<notin> set errs)"

definition SendPost :: "'w INetCoreEvent \<Rightarrow> wsa_reply \<Rightarrow> nat \<Rightarrow> 'w core \<Rightarrow> ('w core \<times> bool) res" where
  "SendPost ev reply i s =
     rbind (ReadySending (ses s i) (nc_send s)) (\<lambda>(v, buffers).
       let s = set_ses i v s in
       case buffers of
         None \<Rightarrow> Inr (s, False)
       | Some bufs \<Rightarrow>
           let s = fst (IncrementIO i s) in
           if GetSocket (ses s i) = None then rbind (TryReleaseSession ev i s) (\<lambda>(s, _). Inr (s, False))
           else if wsa_posted reply then Inr (s\<lparr>nc_sends := (nc_sends s)(i := nc_sends s i + 1)\<rparr>, True)
           else if wsa_crash send_errors reply then Inl CrashDumped
           else rbind (TryReleaseSession ev i s) (\<lambda>(s, _). Inr (s, False)))"

definition cancel_ses :: "nat \<Rightarrow> 'w core \<Rightarrow> 'w core" where
  "cancel_ses i s = set_ses i (fst (SessionCancelationIO (ses s i))) s"

definition RecvPost :: "'w INetCoreEvent \<Rightarrow> wsa_reply \<Rightarrow> nat \<Rightarrow> 'w core \<Rightarrow> 'w core res" where
  "RecvPost ev reply i s =
     (if recv_buffers (ns_mRecvQueue (ses s i)) = [] then Inr (cancel_ses i s)
      else
        let s = fst (IncrementIO i s) in
        if GetSocket (ses s i) = None then rbind (TryReleaseSession ev i s) (\<lambda>(s, _). Inr s)
        else if wsa_posted reply then Inr (s\<lparr>nc_recvs := (nc_recvs s)(i := nc_recvs s i + 1)\<rparr>)
        else if wsa_crash recv_errors reply then Inl CrashDumped
        else rbind (TryReleaseSession ev i s) (\<lambda>(s, _). Inr s))"

subsection \<open>The interface of the application\<close>

definition encode_packet :: "nat \<Rightarrow> nat \<Rightarrow> 'w core \<Rightarrow> 'w core res" where
  "encode_packet rnd a s =
     (case pp_objs (nc_send s) a of
        None \<Rightarrow> Inl DeadObject
      | Some p \<Rightarrow>
          rbind (EncodeOnce p (no_PacketCode (nc_option s)) (no_PacketEncodeKey (nc_option s)) rnd) (\<lambda>(p, _).
            Inr (s\<lparr>nc_send := (nc_send s)\<lparr>pp_objs := (pp_objs (nc_send s))(a \<mapsto> p)\<rparr>\<rparr>)))"

definition SendPacket :: "'w INetCoreEvent \<Rightarrow> nat \<Rightarrow> wsa_reply \<Rightarrow> u64 \<Rightarrow> nat \<Rightarrow> 'w core \<Rightarrow> ('w core \<times> bool) res" where
  "SendPacket ev rnd reply sid a s =
     rbind (AcquireSessionOrNull ev sid s) (\<lambda>(s, r).
       case r of
         None \<Rightarrow> Inr (s, False)
       | Some i \<Rightarrow>
           rbind (encode_packet rnd a s) (\<lambda>s.
           rbind (Session_Enqueue (ses s i) (nc_send s) a) (\<lambda>(v, pool, isEnqueue).
           let s = (set_ses i v s)\<lparr>nc_send := pool\<rparr> in
           rbind (if isEnqueue then SendPost ev reply i s else Inr (s, False)) (\<lambda>(s, isSent).
           rbind (TryReleaseSession ev i s) (\<lambda>(s, _). Inr (s, isSent))))))"

definition Disconnect :: "'w INetCoreEvent \<Rightarrow> u64 \<Rightarrow> 'w core \<Rightarrow> ('w core \<times> bool) res" where
  "Disconnect ev sid s =
     rbind (AcquireSessionOrNull ev sid s) (\<lambda>(s, r).
       case r of
         None \<Rightarrow> Inr (s, False)
       | Some i \<Rightarrow> rbind (TryReleaseSession ev i (cancel_ses i s)) (\<lambda>(s, _). Inr (s, True)))"

subsection \<open>Accepting\<close>

definition CreateSessionOrNull :: "'w INetCoreEvent \<Rightarrow> accept_env \<Rightarrow> 'w core \<Rightarrow> ('w core \<times> nat option) res" where
  "CreateSessionOrNull ev a s =
     (if ApplySocketOption (ae_opts a) (nc_option s) \<noteq> None
      then Inr (put_log (Closesocket (Some (ae_sock a))) s, None)
      else case ae_addr a of
        None \<Rightarrow> Inr (put_log (Closesocket (Some (ae_sock a))) s, None)
      | Some ipAddr \<Rightarrow>
          let s = put_log (OnConnectionRequested ipAddr (ae_port a)) s in
          if \<not> ev_OnConnectionRequested ev ipAddr (ae_port a) s
          then Inr (put_log (Closesocket (Some (ae_sock a))) s, None)
          else
            rbind (NewSessionOrNull (ae_sock a) ipAddr (ae_port a) (ae_garbage a) s) (\<lambda>(s, r).
              case r of
                None \<Rightarrow> Inr (put_log (Closesocket (Some (ae_sock a))) s, None)
              | Some i \<Rightarrow>
                  if \<not> ae_port_created a
                  then rbind (Manager_TryReleaseSession i s) (\<lambda>(s, _). Inr (s, None))
                  else
                    let sid = ns_mSessionID (ses s i) in
                    rbind (ev_OnConnected ev sid (put_log (OnConnected sid) s)) (\<lambda>s. Inr (s, Some i))))"

text \<open>One round of the accept loop; \<open>None\<close> when \<^verbatim>\<open>accept\<close> failed, which ends the thread.\<close>

definition NetworkAcceptThread_step :: "'w INetCoreEvent \<Rightarrow> accept_env option \<Rightarrow> 'w core \<Rightarrow> ('w core \<times> bool) res" where
  "NetworkAcceptThread_step ev accepted s =
     (case accepted of
        None \<Rightarrow> Inr (s, False)
      | Some a \<Rightarrow>
          rbind (CreateSessionOrNull ev a (s\<lparr>nc_mAcceptTotal := nc_mAcceptTotal s + 1,
              nc_mAcceptCountPerSec := nc_mAcceptCountPerSec s + 1\<rparr>)) (\<lambda>(s, r).
            case r of
              None \<Rightarrow> Inr (s, True)
            | Some i \<Rightarrow> rbind (RecvPost ev (ae_recv a) i s) (\<lambda>s. Inr (s, True))))"

subsection \<open>Completions\<close>

text \<open>
  \<^verbatim>\<open>OnReceived\<close> as \<open>NetworkRecvCompleted\<close> calls it: the close flag lives in the session, where the
  handler's calls of \<^verbatim>\<open>Disconnect\<close> find it.
\<close>

definition core_on_received :: "'w INetCoreEvent \<Rightarrow> nat \<Rightarrow> 'w core on_received" where
  "core_on_received ev i sid a p closed s =
     (let s = put_log (OnReceived sid (pk_body p)) (set_ses i ((ses s i)\<lparr>ns_mIsCloseSocket := closed\<rparr>) s);
          (ex, p, s) = ev_OnReceived ev sid a p s
      in (ex, p, ns_mIsCloseSocket (ses s i), s))"

definition Session_RecvCompleted ::
    "'w INetCoreEvent \<Rightarrow> nat \<Rightarrow> (nat \<Rightarrow> byte list) \<Rightarrow> nat \<Rightarrow> nat \<Rightarrow> 'w core \<Rightarrow> ('w core \<times> bool) res" where
  "Session_RecvCompleted ev t mem i transferred s =
     rbind (NetworkRecvCompleted (NetOption.truncate (nc_option s)) (core_on_received ev i) t mem (ns_mSessionID (ses s i))
         transferred
         \<lparr>rc_RecvQueue = ns_mRecvQueue (ses s i), rc_mIsCloseSocket = ns_mIsCloseSocket (ses s i), rc_pool = nc_recv s,
          rc_mRecvCountPerSec = nc_mRecvCountPerSec s, rc_world = s\<rparr>) (\<lambda>(e, isContinueRecv).
       let s = rc_world e in
       Inr ((set_ses i ((ses s i)\<lparr>ns_mRecvQueue := rc_RecvQueue e, ns_mIsCloseSocket := rc_mIsCloseSocket e\<rparr>) s)
              \<lparr>nc_recv := rc_pool e, nc_mRecvCountPerSec := rc_mRecvCountPerSec e\<rparr>, isContinueRecv))"

text \<open>
  The failed completions that only end the connection: \<^verbatim>\<open>ERROR_NETNAME_DELETED\<close>, \<^verbatim>\<open>ERROR_OPERATION_ABORTED\<close>,
  \<^verbatim>\<open>ERROR_CONNECTION_ABORTED\<close>, \<^verbatim>\<open>WSAECONNABORTED\<close>, \<^verbatim>\<open>ERROR_SEM_TIMEOUT\<close>.
\<close>

definition completion_errors :: "int list" where
  "completion_errors = [64, 995, 1236, 10053, 121]"

definition ERROR_SEM_TIMEOUT :: int where
  "ERROR_SEM_TIMEOUT = 121"

definition ERROR_ABANDONED_WAIT_0 :: int where
  "ERROR_ABANDONED_WAIT_0 = 735"

definition ERROR_INVALID_HANDLE :: int where
  "ERROR_INVALID_HANDLE = 6"

definition io_failed :: "'w INetCoreEvent \<Rightarrow> completion \<Rightarrow> 'w core \<Rightarrow> ('w core \<times> bool) res" where
  "io_failed ev c s =
     (if cp_overlapped c = None then
        if cp_lastError c = ERROR_ABANDONED_WAIT_0 \<or> cp_lastError c = ERROR_INVALID_HANDLE then Inr (s, False)
        else Inl CrashDumped
      else case cp_session c of
        None \<Rightarrow> Inl CrashDumped
      | Some i \<Rightarrow>
          if IsReleased (ses s i) then rbind (TryReleaseSession ev i s) (\<lambda>(s, _). Inr (s, True))
          else if cp_lastError c \<notin> set completion_errors then Inl CrashDumped
          else
            rbind (TryReleaseSession ev i (if cp_lastError c = ERROR_SEM_TIMEOUT then cancel_ses i s else s))
              (\<lambda>(s, _). Inr (s, True)))"

definition io_sent :: "'w INetCoreEvent \<Rightarrow> completion \<Rightarrow> nat \<Rightarrow> 'w core \<Rightarrow> ('w core \<times> bool) res" where
  "io_sent ev c i s =
     rbind (FinishSending (ses s i) (nc_send s)) (\<lambda>(v, pool, sendCount).
     let s = (set_ses i v s)\<lparr>nc_send := pool, nc_mSendCountPerSec := nc_mSendCountPerSec s + int sendCount\<rparr>;
         sid = ns_mSessionID (ses s i)
     in rbind (ev_OnSent ev sid (cp_transferred c) (put_log (OnSent sid (cp_transferred c)) s)) (\<lambda>s.
        rbind (SendPost ev (cp_reply c) i s) (\<lambda>(s, _).
        rbind (TryReleaseSession ev i s) (\<lambda>(s, _). Inr (s, True)))))"

definition io_received ::
    "'w INetCoreEvent \<Rightarrow> nat \<Rightarrow> (nat \<Rightarrow> byte list) \<Rightarrow> completion \<Rightarrow> nat \<Rightarrow> 'w core \<Rightarrow> ('w core \<times> bool) res" where
  "io_received ev t mem c i s =
     rbind (Session_RecvCompleted ev t mem i (cp_transferred c) s) (\<lambda>(s, isContinueRecv).
     rbind (if isContinueRecv then RecvPost ev (cp_reply c) i s else Inr s) (\<lambda>s.
     rbind (TryReleaseSession ev i s) (\<lambda>(s, _). Inr (s, True))))"

text \<open>One round of the I/O thread's loop; the result says whether the thread goes on.\<close>

definition NetworkIOThread_step ::
    "'w INetCoreEvent \<Rightarrow> nat \<Rightarrow> (nat \<Rightarrow> byte list) \<Rightarrow> completion \<Rightarrow> 'w core \<Rightarrow> ('w core \<times> bool) res" where
  "NetworkIOThread_step ev t mem c s =
     (if \<not> cp_isSuccess c then io_failed ev c s
      else case cp_session c of
        None \<Rightarrow> Inl CrashDumped
      | Some i \<Rightarrow>
          if IsReleased (ses s i) then Inr (s, True)
          else if cp_transferred c = 0 then rbind (TryReleaseSession ev i s) (\<lambda>(s, _). Inr (s, True))
          else if IsClosed (ses s i) then rbind (TryReleaseSession ev i s) (\<lambda>(s, _). Inr (s, True))
          else if cp_overlapped c = Some SendOverlapped then io_sent ev c i s
          else if cp_overlapped c = Some RecvOverlapped then io_received ev t mem c i s
          else Inl CrashDumped)"

subsection \<open>Start\<close>

text \<open>
  The pools and the sessions are set up before the first call that can fail, so a failed start leaves them
  behind. The result is the error, or \<open>None\<close> and the number of I/O threads that were started.
\<close>

definition Start ::
    "bool \<Rightarrow> start_replies \<Rightarrow> nat \<Rightarrow> u64 \<Rightarrow> ServerComponentOption \<Rightarrow> 'w core \<Rightarrow>
     ('w core \<times> eServerComponentError option \<times> nat) res" where
  "Start hasEventHandler r garbage uid option s =
     (if \<not> ValidateOption option then Inr (s, Some InvalidOption, 0)
      else if \<not> hasEventHandler then Inr (s, Some NeedToRegisterEventHandler, 0)
      else
        rbind (Manager_Init garbage uid (so_MaxSessionCount option) (s\<lparr>nc_option := option\<rparr>)) (\<lambda>s.
        Inr (s,
          (if \<not> st_startup r then Some Fail_WSAStartup
           else if \<not> st_iocp r then Some Fail_CreateIoCompletionPort_IOHandle
           else if \<not> st_socket r then Some Fail_socket_serverSock
           else if \<not> st_rcvbuf r then Some Fail_setsockopt
           else if \<not> st_sndbuf r then Some Fail_setsockopt
           else if \<not> st_bind r then Some Fail_bind_serverSock
           else if \<not> st_listen r then Some Fail_listen_serverSock
           else None),
          if st_startup r \<and> st_iocp r \<and> st_socket r \<and> st_rcvbuf r \<and> st_sndbuf r \<and> st_bind r \<and> st_listen r
          then unat (so_NetworkIOThreadCount option) else 0)))"

text \<open>One round of the monitor thread.\<close>

definition NetCore_MonitorRefreshThread_step :: "'w core \<Rightarrow> 'w core \<times> MonitorInfo" where
  "NetCore_MonitorRefreshThread_step s = (reset_counters s, (read_counters s)\<lparr>mi_SessionCachedIndexes := of_int (st_mUsedSize (nc_mUnusedSession s)),
        mi_SessionMaxIndexes := of_nat (st_mMaxCapacity (nc_mUnusedSession s))\<rparr>)"

text \<open>The core before \<^verbatim>\<open>Start\<close>; the packet pools are the process-wide ones.\<close>

definition core_create :: "u64 \<Rightarrow> PacketPool \<Rightarrow> PacketPool \<Rightarrow> 'w \<Rightarrow> 'w core" where
  "core_create uid send recv world =
     \<lparr>nc_mSessionPool = [], nc_mUnusedSession = Stack_Create uid, nc_mConnectedSessionCount = 0,
      nc_send = send, nc_recv = recv, nc_option = default_option, nc_mRecvCountPerSec = 0, nc_mSendCountPerSec = 0,
      nc_mAcceptTotal = 0, nc_mAcceptCountPerSec = 0, nc_recvs = (\<lambda>_. 0), nc_sends = (\<lambda>_. 0), nc_log = [],
      nc_world = world\<rparr>"

end
