(* ===== verification/Net_Core_Inv.thy ===== *)
theory Net_Core_Inv
  imports Net_Core
begin

text \<open>
  The invariant of \<^verbatim>\<open>NetCore\<close>: the sessions of the server are of the class \<open>net_class\<close>, whose laws the interpretation
  discharges; every operation of the core keeps the invariant, whatever the operating system answers.
\<close>

subsection \<open>The class of sessions\<close>

definition net_class :: "NetSession session_class" where
  "net_class = \<lparr>sc_inv = \<lambda>i v. session_inv v \<and> ns_mSessionIndex v = of_nat i \<and> (ns_IsReleasedAtomic v = 0 \<longrightarrow> ns_mSocket v \<noteq> None),
     sc_tHeaderSize = 5, sc_tBodyCapacity = 4096\<rparr>"

lemma net_class_simps [simp]:
  "sc_inv net_class i v \<longleftrightarrow> session_inv v \<and> ns_mSessionIndex v = of_nat i \<and> (ns_IsReleasedAtomic v = 0 \<longrightarrow> ns_mSocket v \<noteq> None)"
  "sc_tHeaderSize net_class = 5" "sc_tBodyCapacity net_class = 4096"
  by (simp_all add: net_class_def)

interpretation net: io_sessions net_class
  by unfold_locales simp

abbreviation slot_ok :: "nat \<Rightarrow> nat \<Rightarrow> nat \<Rightarrow> nat \<Rightarrow> NetSession \<Rightarrow> bool" where
  "slot_ok \<equiv> slot_in net_class"

abbreviation core_base :: "'w app \<Rightarrow> (nat \<Rightarrow> nat) \<Rightarrow> nat set \<Rightarrow> 'w core \<Rightarrow> bool" where
  "core_base \<equiv> core_base_in net_class"

abbreviation core_inv :: "'w app \<Rightarrow> (nat \<Rightarrow> nat) \<Rightarrow> nat set \<Rightarrow> 'w core \<Rightarrow> bool" where
  "core_inv \<equiv> core_inv_in net_class"

lemmas core_inv_def = core_inv_in_def [of net_class]
lemmas core_base_def = core_base_in_def [of net_class, unfolded net_class_simps]
lemmas slot_ok_def = slot_in_def [of net_class, unfolded net_class_simps]

lemmas core_base_mono = net.core_base_mono
lemmas core_baseD = net.core_baseD [unfolded net_class_simps]
lemmas core_invD = net.core_invD [unfolded net_class_simps]
lemmas core_inv_live = net.core_inv_live
lemmas core_inv_mono = net.core_inv_mono
lemmas core_inv_shrink = net.core_inv_shrink
lemmas core_inv_sessions = net.core_inv_sessions [unfolded net_class_simps]
lemmas core_inv_post = net.core_inv_post
lemmas completed_ok = net.completed_ok
lemmas core_inv_send_pool = net.core_inv_send_pool [unfolded net_class_simps]
lemmas core_inv_log = net.core_inv_log
lemmas core_inv_closesocket = net.core_inv_closesocket
lemmas core_inv_requested = net.core_inv_requested
lemmas core_inv_live_log = net.core_inv_live_log
lemmas core_base_refs_ok = net.core_base_refs_ok [unfolded net_class_simps]
lemmas core_inv_refs_ok = net.core_inv_refs_ok [unfolded net_class_simps]
lemmas core_base_released = net.core_base_released [unfolded net_class_simps]
lemmas core_base_new = net.core_base_new [unfolded net_class_simps]
lemmas IncrementIO_ok = net.IncrementIO_ok
lemmas DecrementIO_eq = net.DecrementIO_eq
lemmas dec_keeps = net.dec_keeps
lemmas live_index = net.live_index
lemmas live_id_inj = net.live_id_inj
lemmas log_ok_connect = net.log_ok_connect
lemmas log_ok_disconnect = net.log_ok_disconnect
lemmas log_ok_same = net.log_ok_same

lemma slot_okD:
  assumes "slot_ok i x r w v"
  shows "session_inv v" "ns_IOCountAtomic v = int (x + r + w)" "r \<le> 1" "w \<le> 1"
    "ns_IsReleasedAtomic v = 0 \<or> ns_IsReleasedAtomic v = 1"
    "0 < x + r + w \<Longrightarrow> ns_IsReleasedAtomic v = 0"
    "w = 1 \<Longrightarrow> ns_IsSendingAtomic v = 2"
  using net.slot_inD [OF assms] by (auto simp: session_inv_def)

lemma core_inv_session:
  assumes inv: "core_inv K x W s" and i: "i < length (nc_mSessionPool s)" "live s i"
    and v: "session_inv v" "ns_mSessionIndex v = ns_mSessionIndex (ses s i)" "ns_IsReleasedAtomic v = 0"
      "ns_mSocket v = ns_mSocket (ses s i)" "ns_mSessionID v = ns_mSessionID (ses s i)"
      "ns_IOCountAtomic v = ns_IOCountAtomic (ses s i)" "nc_sends s i = 1 \<Longrightarrow> ns_IsSendingAtomic v = 2"
    and s': "nc_mSessionPool s' = (nc_mSessionPool s)[i := v]" "nc_mUnusedSession s' = nc_mUnusedSession s"
      "nc_mConnectedSessionCount s' = nc_mConnectedSessionCount s" "pp_inv (nc_recv s')" "nc_world s' = nc_world s"
      "nc_log s' = nc_log s" "nc_recvs s' = nc_recvs s" "nc_sends s' = nc_sends s" "nc_option s' = nc_option s"
    and pool: "pp_inv (nc_send s')" "others v (nc_send s') = others (ses s i) (nc_send s)"
  shows "core_inv K x W s'" "ns_mRecvQueue v = ns_mRecvQueue (ses s i) \<Longrightarrow> nc_recv s' = nc_recv s \<Longrightarrow> core_frame s s'"
proof -
  have d: "ns_mSessionIndex (ses s i) = of_nat i" "ns_mSocket (ses s i) \<noteq> None"
    using core_invD(1) [OF inv i(1)] i(2) by (simp_all add: slot_ok_def live_def)
  then have sv: "sc_inv net_class i v" using v by simp
  note k = net.core_inv_change [OF inv i sv v(3,5,6) _ s'(1-3) _ s'(5) _ s'(7-9)]
  show "core_inv K x W s'" by (rule k(1)) (use v(7) s'(4,6) pool in simp_all)
  show "core_frame s s'" if "ns_mRecvQueue v = ns_mRecvQueue (ses s i)" "nc_recv s' = nc_recv s"
    by (rule k(2)) (use v(7) s'(4,6) pool that in simp_all)
qed

subsection \<open>The event handler\<close>

definition handlers_ok :: "'w app \<Rightarrow> 'w INetCoreEvent \<Rightarrow> bool" where
  "handlers_ok K ev \<longleftrightarrow>
     (\<forall>x W s sid. core_inv K x W s \<and> unat (SessionIndex sid) < length (nc_mSessionPool s) \<longrightarrow>
        rok (\<lambda>s'. core_inv K x W s' \<and> core_frame s s') (ev_OnConnected ev sid s) \<and>
        rok (\<lambda>s'. core_inv K x W s' \<and> core_frame s s') (ev_OnDisconnected ev sid s) \<and>
        (\<forall>n. rok (\<lambda>s'. core_inv K x W s' \<and> core_frame s s') (ev_OnSent ev sid n s)))"

lemma handlers_okD:
  assumes "handlers_ok K ev" "core_inv K x W s" "unat (SessionIndex sid) < length (nc_mSessionPool s)"
  shows "rok (\<lambda>s'. core_inv K x W s' \<and> core_frame s s') (ev_OnConnected ev sid s)"
    and "rok (\<lambda>s'. core_inv K x W s' \<and> core_frame s s') (ev_OnDisconnected ev sid s)"
    and "rok (\<lambda>s'. core_inv K x W s' \<and> core_frame s s') (ev_OnSent ev sid n s)"
  using assms unfolding handlers_ok_def by blast+

text \<open>
  An application as a whole: \<open>I r n\<close> is the invariant of its state when \<open>r\<close> are the references to received packets that it
  has taken and \<open>n\<close> is the number of sessions of the pool. The callbacks keep it; \<^verbatim>\<open>OnReceived\<close> may take references to the packet it is given, and may throw.
\<close>

abbreviation the_app :: "(nat \<Rightarrow> int) \<Rightarrow> ((nat \<Rightarrow> int) \<Rightarrow> nat \<Rightarrow> 'w \<Rightarrow> bool) \<Rightarrow> (nat \<Rightarrow> int) \<Rightarrow> 'w app" where
  "the_app m I r \<equiv> \<lparr>ap_refs = m, ap_ok = I r\<rparr>"

definition app_ok :: "((nat \<Rightarrow> int) \<Rightarrow> nat \<Rightarrow> 'w \<Rightarrow> bool) \<Rightarrow> 'w INetCoreEvent \<Rightarrow> bool" where
  "app_ok I ev \<longleftrightarrow>
     (\<forall>m r. handlers_ok (the_app m I r) ev) \<and>
     (\<forall>m r x W s sid a p. core_inv (the_app m I r) x W s \<and> unat (SessionIndex sid) < length (nc_mSessionPool s) \<and> net_packet p \<and> pk_mRefCount p = 1 \<and> r a = 0 \<longrightarrow>
        (case ev_OnReceived ev sid a p s of (ex, p', s') \<Rightarrow>
           (\<forall>f. ex = Faulted f \<longrightarrow> f = InvalidArgument \<or> f = CrashDumped) \<and> net_packet p' \<and> 1 \<le> pk_mRefCount p' \<and>
           core_inv (the_app m I (r(a := pk_mRefCount p' - 1))) x W s' \<and> core_frame s s'))"

lemma app_okD: "app_ok I ev \<Longrightarrow> handlers_ok (the_app m I r) ev"
  by (simp add: app_ok_def)

lemma app_okD_received:
  assumes "app_ok I ev" "core_inv (the_app m I r) x W s" "unat (SessionIndex sid) < length (nc_mSessionPool s)" "net_packet p" "pk_mRefCount p = 1" "r a = 0"
    "ev_OnReceived ev sid a p s = (ex, p', s')"
  shows "core_inv (the_app m I (r(a := pk_mRefCount p' - 1))) x W s'" "core_frame s s'" "net_packet p'" "1 \<le> pk_mRefCount p'"
    "ex = Faulted f \<Longrightarrow> f = InvalidArgument \<or> f = CrashDumped"
  using assms(1) [unfolded app_ok_def, THEN conjunct2, rule_format, of m r x W s sid p a] assms(2-7) by simp_all

subsection \<open>Giving up an I/O count\<close>

text \<open>Releasing a session without I/O.\<close>

lemma Manager_TryReleaseSession_ok:
  assumes inv: "core_base K x (insert i W) s" and i: "i < length (nc_mSessionPool s)" "live s i"
    and io: "x i + nc_recvs s i + nc_sends s i = 0"
  shows "\<exists>s'. Manager_TryReleaseSession i s = Inr (s', True) \<and> core_base K x W s' \<and> core_frame s s' \<and> \<not> live s' i \<and>
    (\<forall>j. j \<noteq> i \<longrightarrow> ses s' j = ses s j) \<and> nc_log s' = nc_log s @ [Closesocket (ns_mSocket (ses s i))]"
proof -
  note d = slot_okD [OF core_baseD(1) [OF inv i(1)]]
  have l: "ns_IsReleasedAtomic (ses s i) = 0" "ns_IOCountAtomic (ses s i) = 0" using i d(2) io by (simp_all add: live_def)
  obtain v pool where t: "TryRelease (ses s i) (nc_send s) = Inr (v, pool, True)" "session_inv v" "refs_ok v pool"
    "session_refs v = []" "others v pool = others (ses s i) (nc_send s)" "ns_mSessionID v = 0" "ns_mSocket v = None"
    "IsClosed v" "IsReleased v" "ns_IOCountAtomic v = 0" "ns_mSessionIndex v = ns_mSessionIndex (ses s i)"
    using TryRelease_ok [OF d(1) core_base_refs_ok [OF inv i(1)] l] by blast
  have v: "session_inv v \<and> ns_mSessionIndex v = of_nat i \<and> (ns_IsReleasedAtomic v = 0 \<longrightarrow> ns_mSocket v \<noteq> None)"
    using t(2,9,11) core_baseD(1) [OF inv i(1)] by (simp add: slot_ok_def IsReleased_def)
  obtain u where u: "Stack_Push (nc_mUnusedSession s) i = Inr (u, True)"
    "\<And>s'. nc_mSessionPool s' = (nc_mSessionPool s)[i := v] \<Longrightarrow> nc_send s' = pool \<Longrightarrow> nc_mUnusedSession s' = u \<Longrightarrow>
      nc_mConnectedSessionCount s' = nc_mConnectedSessionCount s - 1 \<Longrightarrow> nc_recvs s' = nc_recvs s \<Longrightarrow> nc_sends s' = nc_sends s \<Longrightarrow>
      nc_recv s' = nc_recv s \<Longrightarrow> nc_option s' = nc_option s \<Longrightarrow> nc_world s' = nc_world s \<Longrightarrow>
      core_base K x W s' \<and> core_frame s s' \<and> \<not> live s' i \<and> (\<forall>j. j \<noteq> i \<longrightarrow> ses s' j = ses s j)"
    using core_base_released [OF inv i io v t(3-10)] by blast
  define s' where "s' = put_log (Closesocket (ns_mSocket (ses s i)))
    ((set_ses i v s)\<lparr>nc_send := pool, nc_mUnusedSession := u, nc_mConnectedSessionCount := nc_mConnectedSessionCount s - 1\<rparr>)"
  have "core_base K x W s' \<and> core_frame s s' \<and> \<not> live s' i \<and> (\<forall>j. j \<noteq> i \<longrightarrow> ses s' j = ses s j)"
    by (rule u(2)) (simp_all add: s'_def put_log_def set_ses_def)
  moreover have "Manager_TryReleaseSession i s = Inr (s', True)"
    using l(1) t(1) u(1) by (simp add: Manager_TryReleaseSession_def IsReleased_def s'_def)
  moreover have "nc_log s' = nc_log s @ [Closesocket (ns_mSocket (ses s i))]" by (simp add: s'_def put_log_def set_ses_def)
  ultimately show ?thesis by blast
qed

text \<open>
  Giving up one count. The session is released exactly when it was the last one, and then the handler is told.
\<close>

lemma TryReleaseSession_ok:
  assumes ev: "handlers_ok K ev" and inv: "core_inv K x W s" and i: "i < length (nc_mSessionPool s)" "0 < x i"
  shows "rok (\<lambda>(s', released). core_inv K (x(i := x i - 1)) W s' \<and> core_frame s s' \<and>
      (released \<longleftrightarrow> x i + nc_recvs s i + nc_sends s i = 1) \<and> (released \<longrightarrow> \<not> live s' i))
    (TryReleaseSession ev i s)"
proof -
  let ?io = "x i + nc_recvs s i + nc_sends s i"
  let ?s1 = "set_ses i ((ses s i)\<lparr>ns_IOCountAtomic := int ?io - 1\<rparr>) s"
  note dec = DecrementIO_eq [OF inv i]
  have l: "live s i" using core_inv_live [OF inv i] .
  show ?thesis
  proof (cases "?io = 1")
    case False
    then have "1 < ?io" using i(2) by linarith
    then show ?thesis
      using dec dec_keeps [OF inv i] by (simp add: TryReleaseSession_def)
  next
    case True
    have k: "core_inv K (x(i := x i - 1)) (insert i W) ?s1" "core_frame s ?s1"
      using dec_keeps [OF core_inv_mono [OF inv, of "insert i W"] i] by auto
    have l1: "live ?s1 i" "(x(i := x i - 1)) i + nc_recvs ?s1 i + nc_sends ?s1 i = 0" "i < length (nc_mSessionPool ?s1)"
      using l True i by (auto simp: live_def)
    obtain s2 where s2: "Manager_TryReleaseSession i ?s1 = Inr (s2, True)" "core_base K (x(i := x i - 1)) W s2"
      "core_frame ?s1 s2" "\<not> live s2 i" "\<forall>j. j \<noteq> i \<longrightarrow> ses s2 j = ses ?s1 j"
      "nc_log s2 = nc_log ?s1 @ [Closesocket (ns_mSocket (ses ?s1 i))]"
      using Manager_TryReleaseSession_ok [OF k(1) [unfolded core_inv_def, THEN conjunct1] l1(3,1,2)] by blast
    let ?sid = "ns_mSessionID (ses ?s1 i)"
    have "log_ok (put_log (OnDisconnected ?sid) s2)"
      using log_ok_disconnect [OF _ _ l1(3,1) _ s2(4-6), of K "x(i := x i - 1)" "insert i W"] k(1) s2(3)
      by (simp add: core_inv_def core_frame_def)
    then have k2: "core_inv K (x(i := x i - 1)) W (put_log (OnDisconnected ?sid) s2)" using s2(2) by (simp add: core_inv_def)
    have fr: "core_frame s (put_log (OnDisconnected ?sid) s2)"
      using core_frame_trans [OF k(2) s2(3)] by simp
    have n: "unat (SessionIndex ?sid) < length (nc_mSessionPool (put_log (OnDisconnected ?sid) s2))"
      using live_index [OF k(1) l1(3,1)] l1(3) s2(3) by (simp add: core_frame_def)
    have eq: "TryReleaseSession ev i s =
        rbind (ev_OnDisconnected ev ?sid (put_log (OnDisconnected ?sid) s2)) (\<lambda>s. Inr (s, True))"
      using dec True s2(1) by (simp add: TryReleaseSession_def Let_def)
    have dead: "\<not> live s3 i" if "core_frame (put_log (OnDisconnected ?sid) s2) s3" for s3
      using that s2(3,4) i(1) by (auto simp: core_frame_def)
    show ?thesis
      unfolding eq
      by (rule rok_bind [OF handlers_okD(2) [OF ev k2 n]]) (use True core_frame_trans [OF fr] dead in auto)
  qed
qed

subsection \<open>Posting I/O\<close>

lemma SendPost_ok:
  assumes ev: "handlers_ok K ev" and inv: "core_inv K x W s" and i: "i < length (nc_mSessionPool s)" "0 < x i"
  shows "rok (\<lambda>(s', _). core_inv K x W s' \<and> core_frame s s') (SendPost ev reply i s)"
proof -
  have d: "slot_ok i (x i) (nc_recvs s i) (nc_sends s i) (ses s i)" by (rule core_invD(1) [OF inv i(1)])
  have l: "live s i" by (rule core_inv_live [OF inv i])
  have p: "pp_inv (nc_send s)" "pp_inv (nc_recv s)" by (rule core_invD(3,4) [OF inv i(1)])+
  consider "ReadySending (ses s i) (nc_send s) = Inl InvalidArgument"
    | "ReadySending (ses s i) (nc_send s) = Inr (ses s i, None)"
    | v out where "ReadySending (ses s i) (nc_send s) = Inr (v, Some out)" "session_inv v"
      "others v (nc_send s) = others (ses s i) (nc_send s)" "ns_IsSendingAtomic (ses s i) = 0" "ns_IsSendingAtomic v = 2"
      "v = (ses s i)\<lparr>ns_mSendQueue := ns_mSendQueue v, ns_PacketBuffer := ns_PacketBuffer v,
             ns_PacketCount := ns_PacketCount v, ns_TotalByteSize := ns_TotalByteSize v, ns_IsSendingAtomic := 2\<rparr>"
    using ReadySending_cases [OF slot_okD(1) [OF d] core_inv_refs_ok [OF inv i(1)]] by blast
  then show ?thesis
  proof cases
    case 1
    then show ?thesis by (simp add: SendPost_def)
  next
    case 2
    have "set_ses i (ses s i) s = s" by (simp add: set_ses_def ses_def)
    then show ?thesis using 2 inv by (simp add: SendPost_def)
  next
    case 3
    let ?s1 = "set_ses i v s" let ?s2 = "fst (IncrementIO i ?s1)"
    have v: "ns_mSessionIndex v = ns_mSessionIndex (ses s i)" "ns_IsReleasedAtomic v = 0" "ns_mSocket v = ns_mSocket (ses s i)"
      "ns_mSessionID v = ns_mSessionID (ses s i)" "ns_IOCountAtomic v = ns_IOCountAtomic (ses s i)"
      "ns_mRecvQueue v = ns_mRecvQueue (ses s i)"
      using l unfolding live_def by (subst 3(6), simp)+
    have k1: "core_inv K x W ?s1" "core_frame s ?s1"
      by (rule core_inv_session [OF inv i(1) l 3(2) v(1-5)]; use 3(3,5) v(6) p in \<open>simp add: set_ses_def\<close>)+
    have l1: "i < length (nc_mSessionPool ?s1)" "live ?s1 i" using i v(2) by (simp_all add: live_def)
    note k2 = IncrementIO_ok [OF k1(1) l1]
    have fr: "core_frame s ?s2" by (rule core_frame_trans [OF k1(2) k2(2)])
    have sel: "i < length (nc_mSessionPool ?s2)" "nc_sends ?s2 = nc_sends s" "nc_recvs ?s2 = nc_recvs s" "live ?s2 i"
      "ns_IsSendingAtomic (ses ?s2 i) = 2"
      using i l1(2) 3(5) by (simp_all add: IncrementIO_def Let_def live_def)
    have w0: "nc_sends s i = 0" using slot_okD(4,7) [OF d] 3(4) by (cases "nc_sends s i") auto
    have rel: "rok (\<lambda>(s', _). core_inv K x W s' \<and> core_frame s s')
        (rbind (TryReleaseSession ev i ?s2) (\<lambda>(s, _). Inr (s, b)))" for b :: bool
      by (rule rok_bind [OF TryReleaseSession_ok [OF ev k2(1) sel(1)]]) (use core_frame_trans [OF fr] in auto)
    have post: "core_inv K x W (?s2\<lparr>nc_sends := (nc_sends ?s2)(i := nc_sends ?s2 i + 1)\<rparr>)"
      by (rule core_inv_post [OF k2(1) sel(1,4)]) (use sel w0 slot_okD(3) [OF d] in auto)
    have "core_frame s (?s2\<lparr>nc_sends := (nc_sends ?s2)(i := nc_sends ?s2 i + 1)\<rparr>)"
      using fr by (simp add: core_frame_def live_def ses_def)
    then show ?thesis using 3(1) rel post by (simp add: SendPost_def Let_def)
  qed
qed

lemma cancel_ses_ok:
  assumes inv: "core_inv K x W s" and i: "i < length (nc_mSessionPool s)" "live s i"
  shows "core_inv K x W (cancel_ses i s)" "core_frame s (cancel_ses i s)" "nc_sends (cancel_ses i s) = nc_sends s"
    "live (cancel_ses i s) i"
proof -
  have d: "slot_ok i (x i) (nc_recvs s i) (nc_sends s i) (ses s i)" by (rule core_invD(1) [OF inv i(1)])
  let ?v = "fst (SessionCancelationIO (ses s i))"
  have v: "session_inv ?v" "ns_mSessionIndex ?v = ns_mSessionIndex (ses s i)" "ns_IsReleasedAtomic ?v = 0"
    "ns_mSocket ?v = ns_mSocket (ses s i)" "ns_mSessionID ?v = ns_mSessionID (ses s i)"
    "ns_IOCountAtomic ?v = ns_IOCountAtomic (ses s i)" "ns_IsSendingAtomic ?v = ns_IsSendingAtomic (ses s i)"
    "ns_mRecvQueue ?v = ns_mRecvQueue (ses s i)" "others ?v = others (ses s i)"
    using slot_okD(1) [OF d] i(2) by (simp_all add: SessionCancelationIO_def live_def)
  show "core_inv K x W (cancel_ses i s)" "core_frame s (cancel_ses i s)"
    by (rule core_inv_session [OF inv i v(1-6)];
        use v slot_okD(7) [OF d] core_invD(3,4) [OF inv i(1)] in \<open>simp add: cancel_ses_def set_ses_def\<close>)+
  show "nc_sends (cancel_ses i s) = nc_sends s" "live (cancel_ses i s) i"
    using v i by (simp_all add: cancel_ses_def live_def)
qed

lemma RecvPost_ok:
  assumes ev: "handlers_ok K ev" and inv: "core_inv K x (insert i W) s" and i: "i < length (nc_mSessionPool s)" "live s i"
    and r0: "nc_recvs s i = 0" and pin: "0 < x i \<or> recv_buffers (ns_mRecvQueue (ses s i)) \<noteq> []"
  shows "rok (\<lambda>s'. core_inv K x W s' \<and> length (nc_mSessionPool s') = length (nc_mSessionPool s) \<and> nc_recv s' = nc_recv s) (RecvPost ev reply i s)"
proof (cases "recv_buffers (ns_mRecvQueue (ses s i)) = []")
  case True
  have "core_inv K x W (cancel_ses i s)"
    by (rule core_inv_shrink [OF cancel_ses_ok(1) [OF inv i]]) (use pin True in simp)
  then show ?thesis using True by (simp add: RecvPost_def cancel_ses_def)
next
  case False
  let ?s1 = "fst (IncrementIO i s)"
  note k = IncrementIO_ok [OF inv i]
  have k1: "core_inv K (x(i := x i + 1)) W ?s1" by (rule core_inv_shrink [OF k(1)]) simp
  have sel: "i < length (nc_mSessionPool ?s1)" "nc_sends ?s1 = nc_sends s" "nc_recvs ?s1 = nc_recvs s" "live ?s1 i"
    "length (nc_mSessionPool ?s1) = length (nc_mSessionPool s)" "ns_IsSendingAtomic (ses ?s1 i) = ns_IsSendingAtomic (ses s i)"
    "nc_recv ?s1 = nc_recv s" "nc_world ?s1 = nc_world s"
    using i by (simp_all add: IncrementIO_def Let_def live_def)
  have rel: "rok (\<lambda>s'. core_inv K x W s' \<and> length (nc_mSessionPool s') = length (nc_mSessionPool s) \<and> nc_recv s' = nc_recv s)
      (rbind (TryReleaseSession ev i ?s1) (\<lambda>(s, _). Inr s))"
    by (rule rok_bind [OF TryReleaseSession_ok [OF ev k1 sel(1)]]) (use sel in \<open>auto simp: core_frame_def\<close>)
  note d = slot_okD [OF core_invD(1) [OF inv i(1)]]
  have "core_inv K x W (?s1\<lparr>nc_recvs := (nc_recvs ?s1)(i := nc_recvs ?s1 i + 1)\<rparr>)"
    by (rule core_inv_post [OF k1 sel(1,4)]) (use sel r0 d(4,7) in auto)
  then show ?thesis using False rel sel(5,7) by (simp add: RecvPost_def Let_def)
qed

lemma RecvPost_released:
  assumes inv: "core_inv K x W s" and i: "i < length (nc_mSessionPool s)" "\<not> live s i"
  shows "RecvPost ev reply i s = Inr s"
proof -
  have d: "ns_IsReleasedAtomic (ses s i) = 1" "IsClosed (ses s i)" "ns_IOCountAtomic (ses s i) = 0"
    using core_invD(1) [OF inv i(1)] i(2) by (auto simp: slot_ok_def live_def)
  have same: "set_ses i ((ses s i)\<lparr>ns_IOCountAtomic := 0\<rparr>) s = s"
  proof -
    have "(ses s i)\<lparr>ns_IOCountAtomic := 0\<rparr> = ses s i" using d(3) by simp
    then show ?thesis by (simp add: set_ses_def ses_def)
  qed
  have twice: "set_ses i v (set_ses i w s) = set_ses i v s" for v w by (simp add: set_ses_def)
  have "cancel_ses i s = s"
    using d(2) by (simp add: cancel_ses_def SessionCancelationIO_def IsClosed_def set_ses_def ses_def)
  then show ?thesis
    using d i same
    by (simp add: RecvPost_def Let_def IncrementIO_def GetSocket_def IsClosed_def TryReleaseSession_def DecrementIO_def
        Manager_TryReleaseSession_def IsReleased_def twice)
qed

subsection \<open>SendPacket and Disconnect\<close>

lemma FindSessionOrNull_cases:
  assumes inv: "core_inv K x W s" and n: "unat (SessionIndex sid) < length (nc_mSessionPool s)"
  shows "FindSessionOrNull sid s = Inr None \<or>
    (FindSessionOrNull sid s = Inr (Some (unat (SessionIndex sid))) \<and> live s (unat (SessionIndex sid)) \<and>
     ns_mSessionID (ses s (unat (SessionIndex sid))) = sid)"
proof -
  have "IsReleased (ses s (unat (SessionIndex sid))) \<or> live s (unat (SessionIndex sid))"
    using slot_okD(5) [OF core_invD(1) [OF inv n]] by (auto simp: live_def IsReleased_def)
  then show ?thesis using n by (auto simp: FindSessionOrNull_def Let_def)
qed

lemma AcquireSessionOrNull_ok:
  assumes ev: "handlers_ok K ev" and inv: "core_inv K x W s" and n: "unat (SessionIndex sid) < length (nc_mSessionPool s)"
  shows "rok (\<lambda>(s', r). core_frame s s' \<and>
      (case r of None \<Rightarrow> core_inv K x W s'
       | Some i \<Rightarrow> i < length (nc_mSessionPool s') \<and> core_inv K (x(i := x i + 1)) W s' \<and> nc_send s' = nc_send s))
    (AcquireSessionOrNull ev sid s)"
proof -
  let ?i = "unat (SessionIndex sid)"
  from FindSessionOrNull_cases [OF inv n] show ?thesis
  proof (elim disjE conjE)
    assume "FindSessionOrNull sid s = Inr None"
    then show ?thesis using inv by (simp add: AcquireSessionOrNull_def)
  next
    assume f: "FindSessionOrNull sid s = Inr (Some ?i)" "live s ?i" "ns_mSessionID (ses s ?i) = sid"
    note k = IncrementIO_ok [OF inv n f(2)]
    obtain s1 c where s1: "IncrementIO ?i s = (s1, c)" by fastforce
    note k1 = k [unfolded s1 fst_conv snd_conv]
    have sel: "?i < length (nc_mSessionPool s1)" "ns_mSessionID (ses s1 ?i) = sid" "\<not> IsReleased (ses s1 ?i)" "nc_send s1 = nc_send s"
      using s1 n f(2,3) by (auto simp: IncrementIO_def Let_def IsReleased_def live_def)
    have "rok (\<lambda>(s', r). core_frame s s' \<and>
      (case r of None \<Rightarrow> core_inv K x W s'
       | Some i \<Rightarrow> i < length (nc_mSessionPool s') \<and> core_inv K (x(i := x i + 1)) W s' \<and> nc_send s' = nc_send s))
       (rbind (TryReleaseSession ev ?i s1) (\<lambda>(s, _). Inr (s, None)))"
      by (rule rok_bind [OF TryReleaseSession_ok [OF ev k1(1) sel(1)]]) (use core_frame_trans [OF k1(2)] in auto)
    then show ?thesis
      using f(1) s1 sel k1(1,2) by (simp add: AcquireSessionOrNull_def)
  qed
qed

lemma EncodeOnce_net:
  assumes "net_packet p"
  shows "\<exists>p' b. EncodeOnce p c k rnd = Inr (p', b) \<and> net_packet p' \<and> pk_mRefCount p' = pk_mRefCount p"
proof (cases "pk_mIsEncoded p = 0")
  case True
  obtain p' where p': "EncodeOnce p c k rnd = Inr (p', True)" "pk_inv p'" "p' = p\<lparr>pk_mIsEncoded := 1, pk_mBuffer := pk_mBuffer p'\<rparr>"
    using EncodeOnce_spec [of p c k rnd] True assms by (auto simp: net_packet_def)
  moreover have "pk_tHeaderSize p' = pk_tHeaderSize p" "pk_tBodyCapacity p' = pk_tBodyCapacity p" "pk_mRefCount p' = pk_mRefCount p"
    by (subst p'(3), simp)+
  ultimately show ?thesis using assms by (auto simp: net_packet_def)
next
  case False
  then show ?thesis using EncodeOnce_again [of p] assms by (auto simp: net_packet_def pk_inv_def)
qed

lemma encode_packet_ok:
  assumes inv: "core_inv K x W s" and a: "0 < pp_refs (nc_send s) a"
  shows "\<exists>s'. encode_packet rnd a s = Inr s' \<and> core_inv K x W s' \<and> core_frame s s' \<and> pp_refs (nc_send s') = pp_refs (nc_send s) \<and>
    ses s' = ses s"
proof -
  have pi: "pp_inv (nc_send s)" "pp_inv (nc_recv s)" using inv by (auto simp: core_inv_def core_base_def Let_def)
  obtain p where p: "pp_objs (nc_send s) a = Some p" using a by (auto simp: pp_refs_def split: option.splits)
  then have "net_packet p" using pi(1) by (simp add: pp_inv_def)
  from EncodeOnce_net [OF this] obtain p' b where
    e: "EncodeOnce p (no_PacketCode (nc_option s)) (no_PacketEncodeKey (nc_option s)) rnd = Inr (p', b)" "net_packet p'"
      "pk_mRefCount p' = pk_mRefCount p" by blast
  let ?s' = "s\<lparr>nc_send := (nc_send s)\<lparr>pp_objs := (pp_objs (nc_send s))(a \<mapsto> p')\<rparr>\<rparr>"
  note q = pp_inv_same_refs [OF pi(1) p e(2,3)]
  have "core_inv K x W ?s'" by (rule core_inv_sessions [OF inv]) (use q pi in simp_all)
  then show ?thesis
    using p e(1) q by (auto simp: encode_packet_def core_frame_def live_def ses_def fun_eq_iff intro!: exI [of _ ?s'])
qed

lemma SendPacket_ok:
  assumes ev: "handlers_ok K ev" and inv: "core_inv K x W s" and n: "unat (SessionIndex sid) < length (nc_mSessionPool s)"
    and a: "0 < pp_refs (nc_send s) a"
  shows "rok (\<lambda>(s', _). core_inv K x W s' \<and> core_frame s s') (SendPacket ev rnd reply sid a s)"
  unfolding SendPacket_def
proof (rule rok_bind [OF AcquireSessionOrNull_ok [OF ev inv n]], clarify)
  fix s1 r
  assume f1: "core_frame s s1" and r: "case r of None \<Rightarrow> core_inv K x W s1
      | Some i \<Rightarrow> i < length (nc_mSessionPool s1) \<and> core_inv K (x(i := x i + 1)) W s1 \<and> nc_send s1 = nc_send s"
  show "rok (\<lambda>(s', _). core_inv K x W s' \<and> core_frame s s')
     (case r of None \<Rightarrow> Inr (s1, False) | Some i \<Rightarrow>
        rbind (encode_packet rnd a s1) (\<lambda>s.
           rbind (Session_Enqueue (ses s i) (nc_send s) a) (\<lambda>(v, pool, isEnqueue).
           let s = (set_ses i v s)\<lparr>nc_send := pool\<rparr> in
           rbind (if isEnqueue then SendPost ev reply i s else Inr (s, False)) (\<lambda>(s, isSent).
           rbind (TryReleaseSession ev i s) (\<lambda>(s, _). Inr (s, isSent))))))"
  proof (cases r)
    case None
    then show ?thesis using r f1 by simp
  next
    case (Some i)
    let ?x = "x(i := x i + 1)"
    have i: "i < length (nc_mSessionPool s1)" "core_inv K ?x W s1" "nc_send s1 = nc_send s" using r Some by auto
    obtain s2 where s2: "encode_packet rnd a s1 = Inr s2" "core_inv K ?x W s2" "core_frame s1 s2"
      "pp_refs (nc_send s2) = pp_refs (nc_send s)"
      using encode_packet_ok [OF i(2), of a rnd] a i(3) by auto
    have i2: "i < length (nc_mSessionPool s2)" using i(1) s2(3) by (simp add: core_frame_def)
    have l2: "live s2 i" by (rule core_inv_live [OF s2(2) i2]) simp
    note d2 = core_invD(1) [OF s2(2) i2]
    obtain v pool where e: "Session_Enqueue (ses s2 i) (nc_send s2) a = Inr (v, pool, True)" "session_inv v" "refs_ok v pool"
      "others v pool = others (ses s2 i) (nc_send s2)" "v = (ses s2 i)\<lparr>ns_mSendQueue := ns_mSendQueue v\<rparr>"
      using Session_Enqueue_ok [OF slot_okD(1) [OF d2] core_inv_refs_ok [OF s2(2) i2], of a] a s2(4) l2
      by (metis IsSendRecvable_def IsReleased_def live_def zero_neq_one)
    have v: "ns_mSessionIndex v = ns_mSessionIndex (ses s2 i)" "ns_IsReleasedAtomic v = 0" "ns_mSocket v = ns_mSocket (ses s2 i)"
      "ns_mSessionID v = ns_mSessionID (ses s2 i)" "ns_IOCountAtomic v = ns_IOCountAtomic (ses s2 i)"
      "ns_IsSendingAtomic v = ns_IsSendingAtomic (ses s2 i)" "ns_mRecvQueue v = ns_mRecvQueue (ses s2 i)"
      using l2 unfolding live_def by (subst e(5), simp)+
    let ?s3 = "(set_ses i v s2)\<lparr>nc_send := pool\<rparr>"
    have k3: "core_inv K ?x W ?s3" "core_frame s2 ?s3"
      by (rule core_inv_session [OF s2(2) i2 l2 e(2) v(1-5)];
          use v(6,7) e(3,4) slot_okD(7) [OF d2] core_invD(4) [OF s2(2) i2] in \<open>simp add: set_ses_def refs_ok_def\<close>)+
    have i3: "i < length (nc_mSessionPool ?s3)" using i2 by simp
    have f3: "core_frame s ?s3" by (rule core_frame_trans [OF core_frame_trans [OF f1 s2(3)] k3(2)])
    have "rok (\<lambda>(s', _). core_inv K x W s' \<and> core_frame s s')
      (rbind (SendPost ev reply i ?s3) (\<lambda>(s, isSent). rbind (TryReleaseSession ev i s) (\<lambda>(s, _). Inr (s, isSent))))"
    proof (rule rok_bind [OF SendPost_ok [OF ev k3(1) i3]], simp, clarify)
      fix s4 isSent
      assume k4: "core_inv K ?x W s4" "core_frame ?s3 s4"
      have i4: "i < length (nc_mSessionPool s4)" using i3 k4(2) by (simp add: core_frame_def)
      show "rok (\<lambda>(s', _). core_inv K x W s' \<and> core_frame s s')
          (rbind (TryReleaseSession ev i s4) (\<lambda>(s, _). Inr (s, isSent)))"
        by (rule rok_bind [OF TryReleaseSession_ok [OF ev k4(1) i4]])
          (use core_frame_trans [OF core_frame_trans [OF f3 k4(2)]] in auto)
    qed
    then show ?thesis using Some s2(1) e(1) by (simp add: Let_def)
  qed
qed

lemma Disconnect_ok:
  assumes ev: "handlers_ok K ev" and inv: "core_inv K x W s" and n: "unat (SessionIndex sid) < length (nc_mSessionPool s)"
  shows "rok (\<lambda>(s', _). core_inv K x W s' \<and> core_frame s s') (Disconnect ev sid s)"
  unfolding Disconnect_def
proof (rule rok_bind [OF AcquireSessionOrNull_ok [OF ev inv n]], clarify)
  fix s1 r
  assume f1: "core_frame s s1" and r: "case r of None \<Rightarrow> core_inv K x W s1
      | Some i \<Rightarrow> i < length (nc_mSessionPool s1) \<and> core_inv K (x(i := x i + 1)) W s1 \<and> nc_send s1 = nc_send s"
  show "rok (\<lambda>(s', _). core_inv K x W s' \<and> core_frame s s')
     (case r of None \<Rightarrow> Inr (s1, False)
      | Some i \<Rightarrow> rbind (TryReleaseSession ev i (cancel_ses i s1)) (\<lambda>(s, _). Inr (s, True)))"
  proof (cases r)
    case None
    then show ?thesis using r f1 by simp
  next
    case (Some i)
    have i: "i < length (nc_mSessionPool s1)" "core_inv K (x(i := x i + 1)) W s1" using r Some by auto
    have l: "live s1 i" by (rule core_inv_live [OF i(2,1)]) simp
    note c = cancel_ses_ok [OF i(2,1) l]
    have i2: "i < length (nc_mSessionPool (cancel_ses i s1))" using i(1) by (simp add: cancel_ses_def)
    show ?thesis
      unfolding Some option.case
      by (rule rok_bind [OF TryReleaseSession_ok [OF ev c(1) i2]])
        (use core_frame_trans [OF core_frame_trans [OF f1 c(2)]] in auto)
  qed
qed

subsection \<open>Accepting\<close>

lemma recv_buffers_empty_queue:
  assumes "rb_inv rb" "rb_mMaxCapacity rb = 8192" "rb_contents rb = []"
  shows "recv_buffers rb \<noteq> []"
proof -
  have "rb_mUsedSize rb = 0" using assms length_rb_contents [of rb] by simp
  then show ?thesis using assms(2) by (simp add: recv_buffers_def Let_def GetEnquableSize_def sz_sub_def size_lim_def)
qed

lemma NewSessionOrNull_ok:
  assumes inv: "core_inv K x W s"
  shows "stack_list (nc_mUnusedSession s) = [] \<and> NewSessionOrNull sock address port garbage s = Inr (s, None) \<or>
    (\<exists>i s'. NewSessionOrNull sock address port garbage s = Inr (s', Some i) \<and> i < length (nc_mSessionPool s') \<and>
       length (nc_mSessionPool s') = length (nc_mSessionPool s) \<and> nc_recv s' = nc_recv s \<and> \<not> live s i \<and> live s' i \<and>
       core_base K x (insert i W) s' \<and> log_ok (put_log (OnConnected (ns_mSessionID (ses s' i))) s') \<and>
       x i + nc_recvs s' i + nc_sends s' i = 0 \<and> recv_buffers (ns_mRecvQueue (ses s' i)) \<noteq> [] \<and>
       (\<forall>j. j \<noteq> i \<longrightarrow> ses s' j = ses s j) \<and> nc_log s' = nc_log s \<and> ns_mSocket (ses s' i) = Some sock \<and>
       ns_mIsCloseSocket (ses s' i) = 0 \<and> ns_IsSendingAtomic (ses s' i) = 0 \<and> session_refs (ses s' i) = [])"
proof (cases "stack_list (nc_mUnusedSession s)")
  case Nil
  have "stack_inv (length (nc_mSessionPool s)) (nc_mUnusedSession s)" using inv by (simp add: core_inv_def core_base_def Let_def)
  from Stack_TryPop_law(1) [OF this Nil] show ?thesis using Nil by (simp add: NewSessionOrNull_def)
next
  case (Cons i rest)
  have st: "stack_inv (length (nc_mSessionPool s)) (nc_mUnusedSession s)"
    "i < length (nc_mSessionPool s)" "\<not> live s i"
    using inv Cons by (auto simp: core_inv_def core_base_def Let_def)
  obtain u' where u': "Stack_TryPop (nc_mUnusedSession s) = Inr (u', Some i)"
    "stack_inv (length (nc_mSessionPool s)) u'" "stack_list u' = rest"
    using Stack_TryPop_law(2) [OF st(1) Cons] by blast
  have d: "slot_ok i (x i) (nc_recvs s i) (nc_sends s i) (ses s i)" by (rule core_invD(1) [OF inv st(2)])
  then have r: "session_inv (ses s i)" "IsReleased (ses s i)" "session_refs (ses s i) = []"
    using st(3) by (auto simp: slot_ok_def live_def IsReleased_def)
  obtain v uid where v: "Session_Init sock address port garbage (ses s i) = Inr v" "session_inv v" "session_refs v = []"
    "uid \<noteq> 0" "uid \<noteq> ns_mPrevUID (ses s i)" "uid AND uid_mask = uid"
    "ns_mSessionID v = GenSessionID (ns_mSessionIndex (ses s i)) uid" "ns_mSessionIndex v = ns_mSessionIndex (ses s i)"
    "ns_IsReleasedAtomic v = 0" "ns_mIsCloseSocket v = 0" "ns_mSocket v = Some sock"
    "ns_IOCountAtomic v = ns_IOCountAtomic (ses s i)" "rb_contents (ns_mRecvQueue v) = []" "ns_IsSendingAtomic v = 0"
    using Session_Init_ok [OF r] by metis
  let ?s' = "(set_ses i v s)\<lparr>nc_mUnusedSession := u', nc_mConnectedSessionCount := nc_mConnectedSessionCount s + 1\<rparr>"
  have ix: "ns_mSessionIndex (ses s i) = of_nat i" "ns_IOCountAtomic (ses s i) = 0"
    using d st(3) by (auto simp: slot_ok_def live_def)
  have scv: "session_inv v \<and> ns_mSessionIndex v = of_nat i \<and> (ns_IsReleasedAtomic v = 0 \<longrightarrow> ns_mSocket v \<noteq> None)"
    using v(2,8,11) ix by simp
  note b = core_base_new [OF inv Cons u'(2,3) scv v(3,4,6) v(7) [unfolded ix(1)] v(9) v(12) [unfolded ix(2)]]
  have sv: "ses ?s' i = v" using st(2) by (simp add: ses_def set_ses_def)
  have "log_ok (put_log (OnConnected (ns_mSessionID v)) ?s')"
    by (rule log_ok_connect [OF b(4) _ st(2,3)]) (use inv v(9) in \<open>simp_all add: core_inv_def set_ses_def\<close>)
  moreover have "recv_buffers (ns_mRecvQueue v) \<noteq> []"
    using v(2,13) by (intro recv_buffers_empty_queue) (simp_all add: session_inv_def)
  moreover have "NewSessionOrNull sock address port garbage s = Inr (?s', Some i)"
    using u'(1) v(1) by (simp add: NewSessionOrNull_def)
  moreover have "live ?s' i" using v(9) sv by (simp add: live_def)
  moreover have "\<forall>j. j \<noteq> i \<longrightarrow> ses ?s' j = ses s j" by (simp add: ses_def set_ses_def)
  moreover have "nc_log ?s' = nc_log s" "nc_recvs ?s' = nc_recvs s" "nc_sends ?s' = nc_sends s" by (simp_all add: set_ses_def)
  ultimately show ?thesis
    using st b(3,4) v(3,10,11,14) by (intro disjI2 exI [of _ i] exI [of _ ?s']) (simp add: sv)
qed

lemma NewSessionOrNull_new_uid:
  assumes "NewSessionOrNull sock address port garbage s = Inr (s', Some i)" "i < length (nc_mSessionPool s)"
  shows "new_uid (ses s i) (ses s' i)"
proof -
  obtain u v where v: "Stack_TryPop (nc_mUnusedSession s) = Inr (u, Some i)"
    "Session_Init sock address port garbage (ses s i) = Inr v"
    "s' = (set_ses i v s)\<lparr>nc_mUnusedSession := u, nc_mConnectedSessionCount := nc_mConnectedSessionCount s + 1\<rparr>"
    using assms(1) by (auto simp: NewSessionOrNull_def rbind_eq_Inr split: option.splits)
  then have "ses s' i = v" using assms(2) by (simp add: ses_def set_ses_def)
  then show ?thesis using Session_Init_new_uid [OF v(2)] by simp
qed

lemma CreateSessionOrNull_ok:
  fixes ev :: "'w INetCoreEvent"
  assumes ev: "handlers_ok K ev" and inv: "core_inv K x W s"
  shows "rok (\<lambda>(s', r). length (nc_mSessionPool s') = length (nc_mSessionPool s) \<and> nc_recv s' = nc_recv s \<and>
      (case r of None \<Rightarrow> core_inv K x W s'
       | Some i \<Rightarrow> i < length (nc_mSessionPool s') \<and> core_inv K x (insert i W) s' \<and>
           (live s' i \<longrightarrow> nc_recvs s' i = 0 \<and> recv_buffers (ns_mRecvQueue (ses s' i)) \<noteq> [])))
    (CreateSessionOrNull ev a s)"
proof -
  define P where "P = (\<lambda>(s' :: 'w core, r). length (nc_mSessionPool s') = length (nc_mSessionPool s) \<and> nc_recv s' = nc_recv s \<and>
      (case r of None \<Rightarrow> core_inv K x W s'
       | Some i \<Rightarrow> i < length (nc_mSessionPool s') \<and> core_inv K x (insert i W) s' \<and>
           (live s' i \<longrightarrow> nc_recvs s' i = 0 \<and> recv_buffers (ns_mRecvQueue (ses s' i)) \<noteq> [])))"
  have close: "P (put_log (Closesocket sock) s', None)"
    if "core_inv K x W s'" "length (nc_mSessionPool s') = length (nc_mSessionPool s)" "nc_recv s' = nc_recv s" for s' sock
    using that core_inv_closesocket by (simp add: P_def)
  have "rok P (rbind (NewSessionOrNull (ae_sock a) ip (ae_port a) (ae_garbage a) s1) (\<lambda>(s, r).
              case r of
                None \<Rightarrow> Inr (put_log (Closesocket (Some (ae_sock a))) s, None)
              | Some i \<Rightarrow>
                  if \<not> ae_port_created a
                  then rbind (Manager_TryReleaseSession i s) (\<lambda>(s, _). Inr (s, None))
                  else
                    let sid = ns_mSessionID (ses s i) in
                    rbind (ev_OnConnected ev sid (put_log (OnConnected sid) s)) (\<lambda>s. Inr (s, Some i))))"
    (is "rok P ?r") if s1: "core_inv K x W s1" "length (nc_mSessionPool s1) = length (nc_mSessionPool s)" "nc_recv s1 = nc_recv s" for s1 ip
    using NewSessionOrNull_ok [OF s1(1), of "ae_sock a" ip "ae_port a" "ae_garbage a"]
  proof (elim disjE exE conjE)
    assume "NewSessionOrNull (ae_sock a) ip (ae_port a) (ae_garbage a) s1 = Inr (s1, None)"
    then show ?thesis using close [OF s1] by simp
  next
    fix i s2
    assume n: "NewSessionOrNull (ae_sock a) ip (ae_port a) (ae_garbage a) s1 = Inr (s2, Some i)"
      "i < length (nc_mSessionPool s2)" "length (nc_mSessionPool s2) = length (nc_mSessionPool s1)" "nc_recv s2 = nc_recv s1" "\<not> live s1 i" "live s2 i"
      "core_base K x (insert i W) s2" "log_ok (put_log (OnConnected (ns_mSessionID (ses s2 i))) s2)"
      "x i + nc_recvs s2 i + nc_sends s2 i = 0" "recv_buffers (ns_mRecvQueue (ses s2 i)) \<noteq> []"
      "\<forall>j. j \<noteq> i \<longrightarrow> ses s2 j = ses s1 j" "nc_log s2 = nc_log s1"
    let ?sid = "ns_mSessionID (ses s2 i)" let ?s3 = "put_log (OnConnected ?sid) s2"
    show ?thesis
    proof (cases "ae_port_created a")
      case True
      have k: "core_inv K x (insert i W) ?s3" using n(7,8) by (simp add: core_inv_def)
      have idx: "unat (SessionIndex ?sid) < length (nc_mSessionPool ?s3)" using live_index [OF k, of i] n(2,6) by simp
      have "rok P (rbind (ev_OnConnected ev ?sid ?s3) (\<lambda>s. Inr (s, Some i)))"
        by (rule rok_bind [OF handlers_okD(1) [OF ev k idx]])
          (use n s1(2,3) in \<open>auto simp: P_def core_frame_def\<close>)
      then show ?thesis using True n(1) by (simp add: Let_def)
    next
      case False
      obtain s3 where s3: "Manager_TryReleaseSession i s2 = Inr (s3, True)" "core_base K x W s3" "core_frame s2 s3" "\<not> live s3 i"
        "\<forall>j. j \<noteq> i \<longrightarrow> ses s3 j = ses s2 j" "nc_log s3 = nc_log s2 @ [Closesocket (ns_mSocket (ses s2 i))]"
        using Manager_TryReleaseSession_ok [OF n(7,2,6,9)] by blast
      have "log_ok s3"
        by (rule log_ok_same [of s1 s3 _ i]) (use s1(1) n(3,5,11,12) s3 in \<open>simp_all add: core_inv_def core_frame_def\<close>)
      then show ?thesis using False n(1,3,4) s3 s1(2,3) by (simp add: P_def core_inv_def core_frame_def)
    qed
  qed
  then have "rok P (CreateSessionOrNull ev a s)"
    using close [OF inv] close [OF core_inv_requested [OF inv]] core_inv_requested [OF inv]
    by (simp add: CreateSessionOrNull_def Let_def split: option.split)
  then show ?thesis unfolding P_def .
qed

lemma NetworkAcceptThread_step_ok:
  fixes ev :: "'w INetCoreEvent"
  assumes ev: "handlers_ok K ev" and inv: "core_inv K x W s"
  shows "rok (\<lambda>(s', _). core_inv K x W s' \<and> length (nc_mSessionPool s') = length (nc_mSessionPool s) \<and> nc_recv s' = nc_recv s)
    (NetworkAcceptThread_step ev accepted s)"
proof (cases accepted)
  case None
  then show ?thesis using inv by (simp add: NetworkAcceptThread_step_def)
next
  case (Some a)
  let ?s1 = "s\<lparr>nc_mAcceptTotal := nc_mAcceptTotal s + 1, nc_mAcceptCountPerSec := nc_mAcceptCountPerSec s + 1\<rparr>"
  have inv1: "core_inv K x W ?s1"
    by (rule core_inv_sessions [OF inv]) (use inv in \<open>simp_all add: core_inv_def core_base_def Let_def\<close>)
  show ?thesis
    unfolding NetworkAcceptThread_step_def Some option.case
  proof (rule rok_bind [OF CreateSessionOrNull_ok [OF ev inv1]], clarify)
    fix s' :: "'w core" and r
    assume len: "length (nc_mSessionPool s') = length (nc_mSessionPool ?s1)" "nc_recv s' = nc_recv ?s1"
      and r: "case r of None \<Rightarrow> core_inv K x W s'
       | Some i \<Rightarrow> i < length (nc_mSessionPool s') \<and> core_inv K x (insert i W) s' \<and>
           (live s' i \<longrightarrow> nc_recvs s' i = 0 \<and> recv_buffers (ns_mRecvQueue (ses s' i)) \<noteq> [])"
    show "rok (\<lambda>(s', _). core_inv K x W s' \<and> length (nc_mSessionPool s') = length (nc_mSessionPool s) \<and> nc_recv s' = nc_recv s)
      (case r of None \<Rightarrow> Inr (s', True) | Some i \<Rightarrow> rbind (RecvPost ev (ae_recv a) i s') (\<lambda>s. Inr (s, True)))"
    proof (cases r)
      case None
      then show ?thesis using r len by simp
    next
      case (Some i)
      then have i: "i < length (nc_mSessionPool s')" "core_inv K x (insert i W) s'" using r by auto
      show ?thesis
      proof (cases "live s' i")
        case True
        then show ?thesis
          using Some r len by (auto intro!: rok_bind [OF RecvPost_ok [OF ev i(2,1) True]])
      next
        case False
        then show ?thesis
          using Some len RecvPost_released [OF i(2,1) False, of ev "ae_recv a"] core_inv_shrink [OF i(2)] by simp
      qed
    qed
  qed
qed

subsection \<open>Completions\<close>

text \<open>Replacing the receive queue and the close flag of a session.\<close>

lemma core_inv_queue:
  assumes inv: "core_inv K x W s" and i: "i < length (nc_mSessionPool s)" "live s i"
    and q: "rb_inv q" "rb_mMaxCapacity q = 8192" and p: "pp_inv pool"
  shows "core_inv K x W ((set_ses i ((ses s i)\<lparr>ns_mRecvQueue := q, ns_mIsCloseSocket := c\<rparr>) s)
      \<lparr>nc_recv := pool, nc_mRecvCountPerSec := n\<rparr>)"
proof -
  have d: "slot_ok i (x i) (nc_recvs s i) (nc_sends s i) (ses s i)" by (rule core_invD(1) [OF inv i(1)])
  let ?v = "(ses s i)\<lparr>ns_mRecvQueue := q, ns_mIsCloseSocket := c\<rparr>"
  have v: "session_inv ?v" "ns_mSessionIndex ?v = ns_mSessionIndex (ses s i)" "ns_IsReleasedAtomic ?v = 0"
    "ns_mSocket ?v = ns_mSocket (ses s i)" "ns_mSessionID ?v = ns_mSessionID (ses s i)"
    "ns_IOCountAtomic ?v = ns_IOCountAtomic (ses s i)" "ns_IsSendingAtomic ?v = ns_IsSendingAtomic (ses s i)"
    "others ?v (nc_send s) = others (ses s i) (nc_send s)"
    using slot_okD(1) [OF d] i(2) q
    by (auto simp: live_def session_inv_def others_def session_refs_def sending_def)
  show ?thesis
    by (rule core_inv_session(1) [OF inv i v(1-6)])
      (use v p slot_okD(7) [OF d] core_invD(3) [OF inv i(1)] in \<open>simp_all add: set_ses_def\<close>)
qed

lemma core_on_received_keeps:
  assumes ev: "app_ok I ev" and i: "i < length (nc_mSessionPool s)" "0 < x i" and sid: "ns_mSessionID (ses s i) = sid"
  shows "handler_keeps (\<lambda>r c w. core_inv (the_app m I r) x W w \<and> core_frame s w) sid (core_on_received ev i)"
  unfolding handler_keeps_def
proof (rule conjI, simp, intro allI impI)
  fix r pa p c w
  assume a: "net_packet p \<and> pk_mRefCount p = 1 \<and> r pa = 0 \<and> core_inv (the_app m I r) x W w \<and> core_frame s w"
  let ?K = "the_app m I r"
  have inv: "core_inv ?K x W w" using a by blast
  have iw: "i < length (nc_mSessionPool w)" using a i by (simp add: core_frame_def)
  have lw: "live w i" by (rule core_inv_live [OF inv iw i(2)])
  let ?w1 = "set_ses i ((ses w i)\<lparr>ns_mIsCloseSocket := c\<rparr>) w"
  have d: "slot_ok i (x i) (nc_recvs w i) (nc_sends w i) (ses w i)" by (rule core_invD(1) [OF inv iw])
  have w1: "core_inv ?K x W ?w1" "core_frame w ?w1"
    by (rule core_inv_session [OF inv iw lw, of "(ses w i)\<lparr>ns_mIsCloseSocket := c\<rparr>"];
        use lw slot_okD(1,7) [OF d] core_invD(3,4) [OF inv iw] in \<open>auto simp: set_ses_def live_def\<close>)+
  have sel: "i < length (nc_mSessionPool ?w1)" "live ?w1 i" "ns_mSessionID (ses ?w1 i) = sid"
    using iw lw a sid by (auto simp: live_def core_frame_def)
  let ?w2 = "put_log (OnReceived sid (pk_body p)) ?w1"
  have w2: "core_inv ?K x W ?w2" using core_inv_live_log(2) [OF w1(1) sel(1,2)] sel(3) by simp
  have idx: "unat (SessionIndex sid) < length (nc_mSessionPool ?w2)" using live_index [OF w1(1) sel(1,2)] sel(1,3) by simp
  obtain ex p' w3 where r: "ev_OnReceived ev sid pa p ?w2 = (ex, p', w3)" by (cases "ev_OnReceived ev sid pa p ?w2") auto
  have o: "core_inv (the_app m I (r(pa := pk_mRefCount p' - 1))) x W w3" "core_frame ?w2 w3" "net_packet p'" "1 \<le> pk_mRefCount p'"
    "\<And>f. ex = Faulted f \<Longrightarrow> f = InvalidArgument \<or> f = CrashDumped"
    using app_okD_received [OF ev w2 idx _ _ _ r] a by blast+
  have "core_frame s w3"
    using core_frame_trans [OF core_frame_trans [OF _ w1(2)]] a o(2) by simp
  with o show "case core_on_received ev i sid pa p c w of (ex, p', c', w') \<Rightarrow>
      (\<forall>f. ex = Faulted f \<longrightarrow> f = InvalidArgument \<or> f = CrashDumped) \<and> net_packet p' \<and> 1 \<le> pk_mRefCount p' \<and>
      core_inv (the_app m I (r(pa := pk_mRefCount p' - 1))) x W w' \<and> core_frame s w'"
    using r by (simp add: core_on_received_def Let_def)
qed

lemma Session_RecvCompleted_ok:
  assumes ev: "app_ok I ev" and mem: "mem_ok mem" and inv: "core_inv (the_app m I (pp_refs (nc_recv s))) x W s"
    and i: "i < length (nc_mSessionPool s)" "0 < x i"
  shows "rok (\<lambda>(s', _). core_inv (the_app m I (pp_refs (nc_recv s'))) x W s' \<and>
      length (nc_mSessionPool s') = length (nc_mSessionPool s) \<and> nc_recvs s' = nc_recvs s)
    (Session_RecvCompleted ev t mem i n s)"
proof -
  have l: "live s i" by (rule core_inv_live [OF inv i])
  note d = slot_okD [OF core_invD(1) [OF inv i(1)]]
  let ?e = "\<lparr>rc_RecvQueue = ns_mRecvQueue (ses s i), rc_mIsCloseSocket = ns_mIsCloseSocket (ses s i), rc_pool = nc_recv s,
          rc_mRecvCountPerSec = nc_mRecvCountPerSec s, rc_world = s\<rparr>"
  let ?I = "\<lambda>r c w. core_inv (the_app m I r) x W w \<and> core_frame s w"
  have "env_keeps ?I 8192 ?e"
    using d(1) inv core_invD(4) [OF inv i(1)] by (simp add: env_keeps_def env_ok_def session_inv_def)
  have k: "rok (\<lambda>(e', b). env_keeps ?I 8192 e')
    (NetworkRecvCompleted (NetOption.truncate (nc_option s)) (core_on_received ev i) t mem (ns_mSessionID (ses s i)) n ?e)"
    by (rule NetworkRecvCompleted_keeps [OF core_on_received_keeps [of I ev i s x, OF ev i refl] mem]) (rule \<open>env_keeps ?I 8192 ?e\<close>)
  show ?thesis
    unfolding Session_RecvCompleted_def Let_def
  proof (rule rok_bind [OF k], clarify)
    fix e' b
    assume k: "env_keeps ?I 8192 e'"
    let ?w = "rc_world e'"
    have w: "core_inv (the_app m I (pp_refs (rc_pool e'))) x W ?w" "core_frame s ?w" "rb_inv (rc_RecvQueue e')"
      "rb_mMaxCapacity (rc_RecvQueue e') = 8192" "pp_inv (rc_pool e')"
      using k by (auto simp: env_keeps_def env_ok_def)
    have iw: "i < length (nc_mSessionPool ?w)" using i w(2) by (simp add: core_frame_def)
    show "rok (\<lambda>(s', _). core_inv (the_app m I (pp_refs (nc_recv s'))) x W s' \<and>
        length (nc_mSessionPool s') = length (nc_mSessionPool s) \<and> nc_recvs s' = nc_recvs s)
      (Inr (set_ses i ((ses ?w i)\<lparr>ns_mRecvQueue := rc_RecvQueue e', ns_mIsCloseSocket := rc_mIsCloseSocket e'\<rparr>)
          ?w\<lparr>nc_recv := rc_pool e', nc_mRecvCountPerSec := rc_mRecvCountPerSec e'\<rparr>, b))"
      using core_inv_queue [OF w(1) iw core_inv_live [OF w(1) iw i(2)] w(3-5)] w(2)
      by (simp add: core_frame_def)
  qed
qed

lemma io_received_ok:
  assumes ev: "app_ok I ev" and mem: "mem_ok mem" and inv: "core_inv (the_app m I (pp_refs (nc_recv s))) x W s"
    and i: "i < length (nc_mSessionPool s)" "0 < x i" and r0: "nc_recvs s i = 0"
  shows "rok (\<lambda>(s', _). core_inv (the_app m I (pp_refs (nc_recv s'))) (x(i := x i - 1)) W s' \<and>
      length (nc_mSessionPool s') = length (nc_mSessionPool s))
    (io_received ev t mem c i s)"
  unfolding io_received_def
proof (rule rok_bind [OF Session_RecvCompleted_ok [OF ev mem inv i]], clarify)
  fix s1 :: "'a core" and b
  let ?K = "the_app m I (pp_refs (nc_recv s1))"
  let ?P = "\<lambda>s'. core_inv (the_app m I (pp_refs (nc_recv s'))) (x(i := x i - 1)) W s' \<and>
      length (nc_mSessionPool s') = length (nc_mSessionPool s)"
  assume s1: "core_inv ?K x W s1" "length (nc_mSessionPool s1) = length (nc_mSessionPool s)" "nc_recvs s1 = nc_recvs s"
  note ev1 = app_okD [OF ev, of m "pp_refs (nc_recv s1)"]
  have i1: "i < length (nc_mSessionPool s1)" using i s1(2) by simp
  have l1: "live s1 i" by (rule core_inv_live [OF s1(1) i1 i(2)])
  have "rok (\<lambda>s'. core_inv ?K x W s' \<and> length (nc_mSessionPool s') = length (nc_mSessionPool s) \<and> nc_recv s' = nc_recv s1)
    (if b then RecvPost ev (cp_reply c) i s1 else Inr s1)"
    using RecvPost_ok [OF ev1 core_inv_mono [OF s1(1) subset_insertI] i1 l1, of "cp_reply c"] i(2) r0 s1 by auto
  then show "rok (\<lambda>(s', _). ?P s')
    (rbind (if b then RecvPost ev (cp_reply c) i s1 else Inr s1) (\<lambda>s.
     rbind (TryReleaseSession ev i s) (\<lambda>(s, _). Inr (s, True))))"
  proof (rule rok_bind, clarify)
    fix s2 :: "'a core"
    assume s2: "core_inv ?K x W s2" "length (nc_mSessionPool s2) = length (nc_mSessionPool s)" "nc_recv s2 = nc_recv s1"
    then have i2: "i < length (nc_mSessionPool s2)" using i by simp
    show "rok (\<lambda>(s', _). ?P s') (rbind (TryReleaseSession ev i s2) (\<lambda>(s, _). Inr (s, True)))"
      by (rule rok_bind [OF TryReleaseSession_ok [OF ev1 s2(1) i2 i(2)]]) (use s2(2,3) in \<open>auto simp: core_frame_def\<close>)
  qed
qed

lemma io_sent_ok:
  assumes ev: "handlers_ok K ev" and inv: "core_inv K x W s" and i: "i < length (nc_mSessionPool s)" "0 < x i"
    and w0: "nc_sends s i = 0"
  shows "rok (\<lambda>(s', _). core_inv K (x(i := x i - 1)) W s' \<and> core_frame s s') (io_sent ev c i s)"
proof -
  have l: "live s i" by (rule core_inv_live [OF inv i])
  note d = slot_okD [OF core_invD(1) [OF inv i(1)]]
  obtain v pool where f: "FinishSending (ses s i) (nc_send s) = Inr (v, pool, length (sending (ses s i)))" "session_inv v"
    "refs_ok v pool" "others v pool = others (ses s i) (nc_send s)"
    "v = (ses s i)\<lparr>ns_PacketCount := 0, ns_TotalByteSize := 0, ns_IsSendingAtomic := 0\<rparr>"
    using FinishSending_ok [OF d(1) core_inv_refs_ok [OF inv i(1)]] by metis
  let ?s1 = "(set_ses i v s)\<lparr>nc_send := pool, nc_mSendCountPerSec := nc_mSendCountPerSec s + int (length (sending (ses s i)))\<rparr>"
  have k1: "core_inv K x W ?s1" "core_frame s ?s1"
    by (rule core_inv_session [OF inv i(1) l f(2)];
        use f(3-5) l w0 core_invD(4) [OF inv i(1)] in \<open>simp add: set_ses_def refs_ok_def live_def\<close>)+
  have i1: "i < length (nc_mSessionPool ?s1)" "ses ?s1 i = v" using i(1) by (simp_all add: ses_def set_ses_def)
  let ?sid = "ns_mSessionID v"
  let ?s2 = "put_log (OnSent ?sid (cp_transferred c)) ?s1"
  have k2: "core_inv K x W ?s2" "core_frame s ?s2"
    using core_inv_live_log(1) [OF k1(1) i1(1) core_inv_live [OF k1(1) i1(1) i(2)], of "cp_transferred c"] i1(2) k1(2) by simp_all
  have idx: "unat (SessionIndex ?sid) < length (nc_mSessionPool ?s2)"
    using live_index [OF k1(1) i1(1) core_inv_live [OF k1(1) i1(1) i(2)]] i1 by simp
  have "rok (\<lambda>(s', _). core_inv K (x(i := x i - 1)) W s' \<and> core_frame s s')
    (rbind (ev_OnSent ev ?sid (cp_transferred c) ?s2) (\<lambda>s.
        rbind (SendPost ev (cp_reply c) i s) (\<lambda>(s, _).
        rbind (TryReleaseSession ev i s) (\<lambda>(s, _). Inr (s, True)))))"
  proof (rule rok_bind [OF handlers_okD(3) [OF ev k2(1) idx]], clarify)
    fix s3
    assume s3: "core_inv K x W s3" "core_frame ?s2 s3"
    have i3: "i < length (nc_mSessionPool s3)" using s3(2) i by (simp add: core_frame_def)
    show "rok (\<lambda>(s', _). core_inv K (x(i := x i - 1)) W s' \<and> core_frame s s')
      (rbind (SendPost ev (cp_reply c) i s3) (\<lambda>(s, _). rbind (TryReleaseSession ev i s) (\<lambda>(s, _). Inr (s, True))))"
    proof (rule rok_bind [OF SendPost_ok [OF ev s3(1) i3 i(2)]], clarify)
      fix s4 b
      assume s4: "core_inv K x W s4" "core_frame s3 s4"
      have i4: "i < length (nc_mSessionPool s4)" using s4(2) i3 by (simp add: core_frame_def)
      show "rok (\<lambda>(s', _). core_inv K (x(i := x i - 1)) W s' \<and> core_frame s s')
        (rbind (TryReleaseSession ev i s4) (\<lambda>(s, _). Inr (s, True)))"
        by (rule rok_bind [OF TryReleaseSession_ok [OF ev s4(1) i4 i(2)]])
          (use core_frame_trans [OF core_frame_trans [OF core_frame_trans [OF k2(2) s3(2)] s4(2)]] in auto)
    qed
  qed
  then show ?thesis using f(1) i1(2) by (simp add: io_sent_def Let_def)
qed

text \<open>
  One completion of session \<open>i\<close>, whatever its kind and its outcome. The count that the request held is given
  up.
\<close>

lemma NetworkIOThread_step_ok:
  assumes ev: "app_ok I ev" and mem: "mem_ok mem" and inv: "core_inv (the_app m I (pp_refs (nc_recv s))) x W s"
    and i: "i < length (nc_mSessionPool s)" "0 < x i" and c: "cp_session c = Some i" "cp_overlapped c \<noteq> None"
    and none: "cp_overlapped c = Some RecvOverlapped \<Longrightarrow> nc_recvs s i = 0" "cp_overlapped c = Some SendOverlapped \<Longrightarrow> nc_sends s i = 0"
  shows "rok (\<lambda>(s', _). core_inv (the_app m I (pp_refs (nc_recv s'))) (x(i := x i - 1)) W s' \<and> length (nc_mSessionPool s') = length (nc_mSessionPool s))
    (NetworkIOThread_step ev t mem c s)"
    (is "rok ?P _")
proof -
  let ?K = "the_app m I (pp_refs (nc_recv s))"
  note ev' = app_okD [OF ev, of m "pp_refs (nc_recv s)"]
  have l: "live s i" by (rule core_inv_live [OF inv i])
  then have nr: "\<not> IsReleased (ses s i)" by (simp add: live_def IsReleased_def)
  have i': "i < length (nc_mSessionPool (cancel_ses i s))" using i by (simp add: cancel_ses_def)
  have rel: "rok ?P (rbind (TryReleaseSession ev i s1) (\<lambda>(s, _). Inr (s, b)))"
    if "core_inv ?K x W s1" "nc_recv s1 = nc_recv s" "length (nc_mSessionPool s1) = length (nc_mSessionPool s)" for s1 b
    by (rule rok_bind [OF TryReleaseSession_ok [OF ev' that(1)]]) (use that i in \<open>auto simp: core_frame_def\<close>)
  note rels = rel [OF inv refl refl] rel [OF cancel_ses_ok(1) [OF inv i(1) l]]
  have sent: "cp_overlapped c = Some SendOverlapped \<Longrightarrow> rok ?P (io_sent ev c i s)"
    by (rule rok_mono [OF io_sent_ok [OF ev' inv i none(2)]]) (auto simp: core_frame_def)
  show ?thesis
  proof (cases "cp_isSuccess c")
    case True
    then show ?thesis
      using nr rels(1) sent io_received_ok [OF ev mem inv i none(1), of t c] c(1) by (simp add: NetworkIOThread_step_def)
  next
    case False
    obtain ov where "cp_overlapped c = Some ov" using c(2) by blast
    then show ?thesis
      using False nr rels c(1) by (simp add: NetworkIOThread_step_def io_failed_def cancel_ses_def)
  qed
qed

subsection \<open>Start\<close>

text \<open>The invariant between two steps: nothing is pinned, and the application has no reference to a send packet.\<close>

abbreviation app_inv :: "((nat \<Rightarrow> int) \<Rightarrow> nat \<Rightarrow> 'w \<Rightarrow> bool) \<Rightarrow> 'w core \<Rightarrow> bool" where
  "app_inv I s \<equiv> core_inv (the_app (\<lambda>_. 0) I (pp_refs (nc_recv s))) (\<lambda>_. 0) {} s"

lemma init_loop_ok:
  assumes "stack_inv cap u" "length (stack_list u) + length is \<le> cap"
  shows "\<exists>vs u'. init_loop garbage uid is sessions u = Inr (sessions @ vs, u') \<and> stack_inv cap u' \<and>
    stack_list u' = rev is @ stack_list u \<and> length vs = length is \<and>
    (\<forall>k < length is. slot_ok (is ! k) 0 0 0 (vs ! k) \<and> IsReleased (vs ! k) \<and> session_refs (vs ! k) = [])"
  using assms
proof (induction "is" arbitrary: sessions u)
  case Nil
  then show ?case by simp
next
  case (Cons i "is")
  obtain v where v: "NetSession_Create (of_nat i) garbage uid = Inr v" "session_inv v" "session_refs v = []" "IsReleased v" "IsClosed v"
    "ns_mSessionIndex v = of_nat i" "ns_IOCountAtomic v = 0" "ns_mSessionID v = 0"
    using NetSession_Create_ok [of "of_nat i" garbage uid] by blast
  have sock: "ns_mSocket v = None" using v(1) by (auto simp: NetSession_Create_def rbind_eq_Inr)
  obtain u1 where u1: "Stack_Push u i = Inr (u1, True)" "stack_inv cap u1" "stack_list u1 = i # stack_list u"
    using Stack_Push_law [OF Cons.prems(1), of i] Cons.prems(2) by auto
  obtain vs u' where r: "init_loop garbage uid is (sessions @ [v]) u1 = Inr ((sessions @ [v]) @ vs, u')" "stack_inv cap u'"
    "stack_list u' = rev is @ stack_list u1" "length vs = length is"
    "\<forall>k < length is. slot_ok (is ! k) 0 0 0 (vs ! k) \<and> IsReleased (vs ! k) \<and> session_refs (vs ! k) = []"
    using Cons.IH [OF u1(2), of "sessions @ [v]"] u1(3) Cons.prems(2) by auto
  have "slot_ok i 0 0 0 v" using v sock by (simp add: slot_ok_def IsReleased_def)
  then show ?case
    using v u1 r by (intro exI [of _ "v # vs"] exI [of _ u']) (auto simp: nth_Cons split: nat.split)
qed

lemma Manager_Init_ok:
  assumes n: "unat n \<le> 65536" and p: "pp_inv (nc_send s)" "pp_inv (nc_recv s)" and w: "I (pp_refs (nc_recv s)) (unat n) (nc_world s)"
    and s: "nc_mSessionPool s = []" "nc_mUnusedSession s = Stack_Create g" "nc_mConnectedSessionCount s = 0"
      "nc_recvs s = (\<lambda>_. 0)" "nc_sends s = (\<lambda>_. 0)" "nc_log s = []"
  shows "\<exists>s'. Manager_Init garbage uid n s = Inr s' \<and> app_inv I s' \<and> length (nc_mSessionPool s') = unat n \<and>
    stack_list (nc_mUnusedSession s') = rev [0..<unat n] \<and> nc_log s' = [] \<and> nc_option s' = nc_option s"
proof -
  let ?n = "unat n"
  have c: "Stack_Clear (Stack_Create g :: nat LockFreeStack) = Inr (Stack_Create g)"
    by (simp add: Stack_Clear_def Stack_Create_def) (simp add: LockFree_Create_def LockFree_Clear_def)
  have clean: "Manager_Cleanup s = Inr s" using c s by (simp add: Manager_Cleanup_def)
  obtain u where u: "Stack_Init ?n (nc_mUnusedSession s) = Inr u" "stack_inv ?n u" "stack_list u = []"
    using Stack_Init_fresh [of ?n g] n s(2) by auto
  obtain vs u' where r: "init_loop garbage uid [0..<?n] [] u = Inr (vs, u')" "stack_inv ?n u'" "stack_list u' = rev [0..<?n]"
    "length vs = ?n" "\<forall>k < ?n. slot_ok k 0 0 0 (vs ! k) \<and> IsReleased (vs ! k) \<and> session_refs (vs ! k) = []"
    using init_loop_ok [OF u(2), of "[0..<?n]" garbage uid "[]"] u(3) by auto
  let ?s' = "s\<lparr>nc_mSessionPool := vs, nc_mUnusedSession := u'\<rparr>"
  have nl: "\<not> live ?s' i" if "i < ?n" for i
    using r(5) that by (simp add: live_def ses_def IsReleased_def)
  have "{i. i < ?n \<and> live ?s' i} = {}" "{i. i < ?n \<and> \<not> live ?s' i} = {..<?n}" using nl by auto
  moreover have "held ?s' a = 0" for a
  proof -
    have "map (\<lambda>v. int (count_list (session_refs v) a)) vs = map (\<lambda>_. 0) vs"
      using r(4,5) by (auto simp: in_set_conv_nth)
    then have "(\<Sum>v\<leftarrow>vs. int (count_list (session_refs v) a)) = 0" by (simp only: sum_list_0)
    then show ?thesis by (simp add: held_def)
  qed
  moreover have "0 \<le> pp_refs (nc_send s) a" for a
    using p(1) by (force simp: pp_refs_def pp_inv_def split: option.splits)
  ultimately have "core_base (the_app (\<lambda>_. 0) I (pp_refs (nc_recv s))) (\<lambda>_. 0) {} ?s'"
    using r n p nl s w by (auto simp: core_base_def Let_def ses_def)
  moreover have "log_ok ?s'" using s(6) nl r(4) by (auto simp: log_ok_def session_log_def)
  moreover have "Manager_Init garbage uid n s = Inr ?s'" using clean u(1) r(1) by (simp add: Manager_Init_def)
  ultimately show ?thesis using r(3,4) s(6) by (intro exI [of _ ?s']) (simp add: core_inv_def)
qed

subsection \<open>Histories of the core\<close>

text \<open>
  The events that drive the core: a connection is accepted, the kernel completes a request it had accepted (a
  receive with the bytes it wrote into the posted buffers, a send, or either with an error), the application sends
  a packet or disconnects a session, and takes or drops a reference to a send packet of its own, and the monitor thread starts its counters again.
  \<open>core_enabled\<close> says which of them can happen: the kernel completes only what is outstanding and receives at most
  what the buffers hold, the application uses ids of the pool's range and packets it has a reference to.
\<close>

datatype core_op =
    OpAccept "accept_env option"
  | OpRecvDone nat "byte list" wsa_reply
  | OpSendDone nat nat wsa_reply
  | OpFailed nat overlapped int
  | OpSend u64 nat nat wsa_reply
  | OpDisconnect u64
  | OpAlloc
  | OpFree nat
  | OpMonitor

fun core_step :: "'w INetCoreEvent \<Rightarrow> nat \<Rightarrow> (nat \<Rightarrow> byte list) \<Rightarrow> core_op \<Rightarrow> 'w core \<Rightarrow> 'w core res" where
  "core_step ev t mem (OpAccept a) s = rbind (NetworkAcceptThread_step ev a s) (\<lambda>(s, _). Inr s)"
| "core_step ev t mem (OpRecvDone i xs reply) s =
     rbind (kernel_fill (ns_mRecvQueue (ses s i)) xs) (\<lambda>q.
     rbind (NetworkIOThread_step ev t mem
         \<lparr>cp_isSuccess = True, cp_transferred = length xs, cp_session = Some i, cp_overlapped = Some RecvOverlapped,
          cp_lastError = 0, cp_reply = reply\<rparr>
         (completed i RecvOverlapped (set_ses i ((ses s i)\<lparr>ns_mRecvQueue := q\<rparr>) s))) (\<lambda>(s, _). Inr s))"
| "core_step ev t mem (OpSendDone i n reply) s =
     rbind (NetworkIOThread_step ev t mem
         \<lparr>cp_isSuccess = True, cp_transferred = n, cp_session = Some i, cp_overlapped = Some SendOverlapped,
          cp_lastError = 0, cp_reply = reply\<rparr>
         (completed i SendOverlapped s)) (\<lambda>(s, _). Inr s)"
| "core_step ev t mem (OpFailed i ov err) s =
     rbind (NetworkIOThread_step ev t mem
         \<lparr>cp_isSuccess = False, cp_transferred = 0, cp_session = Some i, cp_overlapped = Some ov,
          cp_lastError = err, cp_reply = WSA_Done\<rparr>
         (completed i ov s)) (\<lambda>(s, _). Inr s)"
| "core_step ev t mem (OpSend sid a rnd reply) s = rbind (SendPacket ev rnd reply sid a s) (\<lambda>(s, _). Inr s)"
| "core_step ev t mem (OpDisconnect sid) s = rbind (Disconnect ev sid s) (\<lambda>(s, _). Inr s)"
| "core_step ev t mem OpAlloc s = rbind (AllocPacket t mem (nc_send s)) (\<lambda>(pool, _). Inr (s\<lparr>nc_send := pool\<rparr>))"
| "core_step ev t mem (OpFree a) s = rbind (TryFreePacket (nc_send s) a) (\<lambda>(pool, _). Inr (s\<lparr>nc_send := pool\<rparr>))"
| "core_step ev t mem OpMonitor s = Inr (fst (NetCore_MonitorRefreshThread_step s))"

fun core_enabled :: "core_op \<Rightarrow> 'w core \<Rightarrow> bool" where
  "core_enabled (OpAccept a) s = True"
| "core_enabled (OpRecvDone i xs reply) s =
     (i < length (nc_mSessionPool s) \<and> 0 < nc_recvs s i \<and>
      length xs \<le> rb_mMaxCapacity (ns_mRecvQueue (ses s i)) - rb_mUsedSize (ns_mRecvQueue (ses s i)))"
| "core_enabled (OpSendDone i n reply) s = (i < length (nc_mSessionPool s) \<and> 0 < nc_sends s i)"
| "core_enabled (OpFailed i ov err) s =
     (i < length (nc_mSessionPool s) \<and>
      (ov = RecvOverlapped \<and> 0 < nc_recvs s i \<or> ov = SendOverlapped \<and> 0 < nc_sends s i))"
| "core_enabled (OpSend sid a rnd reply) s =
     (unat (SessionIndex sid) < length (nc_mSessionPool s) \<and> 0 < pp_refs (nc_send s) a)"
| "core_enabled (OpDisconnect sid) s = (unat (SessionIndex sid) < length (nc_mSessionPool s))"
| "core_enabled OpAlloc s = True"
| "core_enabled (OpFree a) s = (held s a < pp_refs (nc_send s) a)"
| "core_enabled OpMonitor s = True"

inductive core_reaches :: "'w INetCoreEvent \<Rightarrow> 'w core \<Rightarrow> 'w core \<Rightarrow> bool" for ev s0 where
  start: "core_reaches ev s0 s0"
| step: "core_reaches ev s0 s \<Longrightarrow> core_enabled op s \<Longrightarrow> mem_ok mem \<Longrightarrow> core_step ev t mem op s = Inr s' \<Longrightarrow>
    core_reaches ev s0 s'"

lemma completion_step_ok:
  assumes ev: "app_ok I ev" and mem: "mem_ok mem" and inv: "core_inv (the_app m I (pp_refs (nc_recv s))) x W s" and i: "i < length (nc_mSessionPool s)"
    and ov: "ov = RecvOverlapped \<and> 0 < nc_recvs s i \<or> ov = SendOverlapped \<and> 0 < nc_sends s i"
    and c: "cp_session c = Some i" "cp_overlapped c = Some ov"
  shows "rok (\<lambda>s'. core_inv (the_app m I (pp_refs (nc_recv s'))) x W s') (rbind (NetworkIOThread_step ev t mem c (completed i ov s)) (\<lambda>(s, _). Inr s))"
proof -
  note k = completed_ok [OF inv i ov]
  have r: "nc_recv (completed i ov s) = nc_recv s" by (cases ov) (simp_all add: completed_def)
  have "rok (\<lambda>(s', _). core_inv (the_app m I (pp_refs (nc_recv s'))) ((x(i := x i + 1))(i := (x(i := x i + 1)) i - 1)) W s' \<and>
      length (nc_mSessionPool s') = length (nc_mSessionPool (completed i ov s))) (NetworkIOThread_step ev t mem c (completed i ov s))"
    by (rule NetworkIOThread_step_ok [OF ev mem k(1) [folded r] k(2)]) (use c k(3,4) in auto)
  then show ?thesis by (rule rok_bind) auto
qed

text \<open>
  Every step that is enabled keeps the invariant or stops on purpose; no memory fault, no use of a dead packet, no
  counter below zero, no endless loop.
\<close>

lemma core_step_recv:
  assumes ev: "app_ok I ev" and mem: "mem_ok mem" and inv: "app_inv I s" and en: "core_enabled (OpRecvDone i xs reply) s"
  shows "rok (app_inv I) (core_step ev t mem (OpRecvDone i xs reply) s)"
proof -
  have i: "i < length (nc_mSessionPool s)" "0 < nc_recvs s i"
    "length xs \<le> rb_mMaxCapacity (ns_mRecvQueue (ses s i)) - rb_mUsedSize (ns_mRecvQueue (ses s i))"
    using en by auto
  note d = slot_okD [OF core_invD(1) [OF inv i(1)]]
  have l: "live s i" using d(6) i(2) by (simp add: live_def)
  have rq: "rb_inv (ns_mRecvQueue (ses s i))" "rb_mMaxCapacity (ns_mRecvQueue (ses s i)) = 8192"
    using d(1) by (auto simp: session_inv_def)
  obtain q where q: "kernel_fill (ns_mRecvQueue (ses s i)) xs = Inr q" "rb_inv q" "rb_mMaxCapacity q = 8192"
    using kernel_fill_inv [OF rq(1) i(3)] rq(2) by auto
  let ?s1 = "set_ses i ((ses s i)\<lparr>ns_mRecvQueue := q\<rparr>) s"
  have "(set_ses i ((ses s i)\<lparr>ns_mRecvQueue := q, ns_mIsCloseSocket := ns_mIsCloseSocket (ses s i)\<rparr>) s)
      \<lparr>nc_recv := nc_recv s, nc_mRecvCountPerSec := nc_mRecvCountPerSec s\<rparr> = ?s1"
    by (simp add: set_ses_def)
  then have k: "app_inv I ?s1"
    using core_inv_queue [OF inv i(1) l q(2,3) core_invD(4) [OF inv i(1)],
        where c = "ns_mIsCloseSocket (ses s i)" and n = "nc_mRecvCountPerSec s"] by simp
  have i1: "i < length (nc_mSessionPool ?s1)" "RecvOverlapped = RecvOverlapped \<and> 0 < nc_recvs ?s1 i \<or>
      RecvOverlapped = SendOverlapped \<and> 0 < nc_sends ?s1 i" using i by simp_all
  show ?thesis using q(1) completion_step_ok [OF ev mem k i1] by simp
qed

lemma core_step_ok:
  assumes ev: "app_ok I ev" and mem: "mem_ok mem" and inv: "app_inv I s" and en: "core_enabled op s"
  shows "rok (app_inv I) (core_step ev t mem op s)"
proof (cases op)
  case (OpAccept a)
  then show ?thesis by (auto intro: rok_bind [OF NetworkAcceptThread_step_ok [OF app_okD [OF ev] inv]])
next
  case (OpRecvDone i xs reply)
  then show ?thesis using core_step_recv [OF ev mem inv] en by blast
next
  case (OpSendDone i n reply)
  then show ?thesis using completion_step_ok [OF ev mem inv, of i SendOverlapped] en by simp
next
  case (OpFailed i ov err)
  then show ?thesis using completion_step_ok [OF ev mem inv, of i ov] en by simp
next
  case (OpSend sid a rnd reply)
  then show ?thesis using en by (auto simp: core_frame_def intro!: rok_bind [OF SendPacket_ok [OF app_okD [OF ev] inv]])
next
  case (OpDisconnect sid)
  then show ?thesis using en by (auto simp: core_frame_def intro!: rok_bind [OF Disconnect_ok [OF app_okD [OF ev] inv]])
next
  case OpAlloc
  have p: "pp_inv (nc_send s)" "held s a + 0 \<le> pp_refs (nc_send s) a" for a using inv by (auto simp: core_inv_def core_base_def Let_def)
  obtain pool a where r: "AllocPacket t mem (nc_send s) = Inr (pool, a)" "pp_inv pool" "pp_objs (nc_send s) a = None"
    "pp_objs pool = (pp_objs (nc_send s))(a \<mapsto> (Packet_Initial 5 4096 (mem a))\<lparr>pk_mRefCount := 1\<rparr>)"
    using AllocPacket_ok [OF p(1) mem] by metis
  have "pp_refs (nc_send s) b \<le> pp_refs pool b" for b using r(3,4) by (simp add: pp_refs_def)
  then have le: "held s b \<le> pp_refs pool b" for b using p(2) [of b] order_trans by fastforce
  have "app_inv I (s\<lparr>nc_send := pool\<rparr>)" using core_inv_send_pool [OF inv r(2)] le by simp
  then show ?thesis using OpAlloc r(1) by simp
next
  case (OpFree a)
  have p: "pp_inv (nc_send s)" "held s b \<le> pp_refs (nc_send s) b" for b using inv by (auto simp: core_inv_def core_base_def Let_def)
  have "0 \<le> held s a" unfolding held_def by (rule sum_list_nonneg) auto
  then have "0 < pp_refs (nc_send s) a" using en OpFree by simp
  from TryFreePacket_ok [OF p(1) this] obtain pool ok where
    r: "TryFreePacket (nc_send s) a = Inr (pool, ok)" "pp_inv pool" "pp_refs pool = (pp_refs (nc_send s))(a := pp_refs (nc_send s) a - 1)" by metis
  have "app_inv I (s\<lparr>nc_send := pool\<rparr>)"
    using core_inv_send_pool [OF inv r(2)] r(3) p(2) en OpFree by auto
  then show ?thesis using OpFree r(1) by simp
next
  case OpMonitor
  then show ?thesis using inv by (simp add: NetCore_MonitorRefreshThread_step_def)
qed

lemma core_reaches_inv:
  assumes "core_reaches ev s0 s" "app_ok I ev" "app_inv I s0"
  shows "app_inv I s"
  using assms(1)
proof induction
  case start
  then show ?case by (rule assms(3))
next
  case (step s op mem t s')
  then show ?case using core_step_ok [OF assms(2) step.hyps(3) step.IH step.hyps(2), of t] by simp
qed

text \<open>A core that was started and has run for a while.\<close>

definition core_running :: "((nat \<Rightarrow> int) \<Rightarrow> nat \<Rightarrow> 'w \<Rightarrow> bool) \<Rightarrow> 'w INetCoreEvent \<Rightarrow> 'w core \<Rightarrow> bool" where
  "core_running I ev s \<longleftrightarrow>
     (\<exists>replies garbage uid option uid' send recv world s0 threads.
        Start True replies garbage uid option (core_create uid' send recv world) = Inr (s0, None, threads) \<and>
        unat (so_MaxSessionCount option) \<le> 65536 \<and> pp_inv send \<and> pp_inv recv \<and> I (pp_refs recv) (unat (so_MaxSessionCount option)) world \<and>
        core_reaches ev s0 s)"

lemma Start_replies:
  assumes "Start True r garbage uid option s = Inr (s', y)" "ValidateOption option"
    "st_startup r" "st_iocp r" "st_socket r" "st_rcvbuf r" "st_sndbuf r" "st_bind r" "st_listen r"
  shows "y = (None, unat (so_NetworkIOThreadCount option))"
  using assms by (cases "Manager_Init garbage uid (so_MaxSessionCount option) (s\<lparr>nc_option := option\<rparr>)") (simp_all add: Start_def)

lemma Start_ok:
  assumes "ValidateOption option" "unat (so_MaxSessionCount option) \<le> 65536" "pp_inv send" "pp_inv recv" "I (pp_refs recv) (unat (so_MaxSessionCount option)) world"
  shows "\<exists>s. (\<forall>r. \<exists>y. Start True r garbage uid option (core_create uid' send recv world) = Inr (s, y)) \<and>
    app_inv I s \<and> length (nc_mSessionPool s) = unat (so_MaxSessionCount option) \<and>
    stack_list (nc_mUnusedSession s) = rev [0..<unat (so_MaxSessionCount option)] \<and> nc_log s = [] \<and> nc_option s = option"
proof -
  let ?s = "(core_create uid' send recv world)\<lparr>nc_option := option\<rparr>"
  obtain s' where "Manager_Init garbage uid (so_MaxSessionCount option) ?s = Inr s'" "app_inv I s'"
    "length (nc_mSessionPool s') = unat (so_MaxSessionCount option)"
    "stack_list (nc_mUnusedSession s') = rev [0..<unat (so_MaxSessionCount option)]" "nc_log s' = []" "nc_option s' = option"
    using Manager_Init_ok [OF assms(2), of ?s I uid' garbage uid] assms(3-5) by (auto simp: core_create_def)
  then show ?thesis using assms(1) by (intro exI [of _ s']) (simp add: Start_def)
qed

lemma Start_inv:
  assumes "Start True r garbage uid option (core_create uid' send recv world) = Inr (s, None, k)"
    "unat (so_MaxSessionCount option) \<le> 65536" "pp_inv send" "pp_inv recv" "I (pp_refs recv) (unat (so_MaxSessionCount option)) world"
  shows "app_inv I s"
proof -
  have "ValidateOption option" using assms(1) by (auto simp: Start_def split: if_splits)
  then show ?thesis
    using Start_ok [where I = I and world = world, OF _ assms(2-5), of garbage uid uid'] assms(1) by (metis Pair_inject sum.inject(2))
qed

lemma core_running_inv: "app_ok I ev \<Longrightarrow> core_running I ev s \<Longrightarrow> app_inv I s"
  unfolding core_running_def by (elim exE conjE) (blast intro: Start_inv core_reaches_inv)

lemma core_running_step:
  "core_running I ev s \<Longrightarrow> core_enabled op s \<Longrightarrow> mem_ok mem \<Longrightarrow> core_step ev t mem op s = Inr s' \<Longrightarrow> core_running I ev s'"
  unfolding core_running_def using core_reaches.step by blast

subsection \<open>What an accepted connection becomes\<close>

lemma same_world [simp]: "\<exists>w. s = (s :: 'w core)\<lparr>nc_world := w\<rparr>"
  by (rule exI [of _ "nc_world s"]) simp

lemma accept_connects:
  assumes inv: "core_inv K x W s" and ev: "\<And>sid s. \<exists>w. ev_OnConnected ev sid s = Inr (s\<lparr>nc_world := w\<rparr>)"
    and req: "\<And>s. ev_OnConnectionRequested ev ip (ae_port a) s"
    and a: "ApplySocketOption (ae_opts a) (nc_option s) = None" "ae_addr a = Some ip" "ae_port_created a" "wsa_posted (ae_recv a)"
    and free: "stack_list (nc_mUnusedSession s) \<noteq> []"
  shows "\<exists>i s'. NetworkAcceptThread_step ev (Some a) s = Inr (s', True) \<and> i < length (nc_mSessionPool s) \<and>
    length (nc_mSessionPool s') = length (nc_mSessionPool s) \<and>
    \<not> live s i \<and> live s' i \<and> ns_mSocket (ses s' i) = Some (ae_sock a) \<and> nc_recvs s' i = 1 \<and>
    ns_mIsCloseSocket (ses s' i) = 0 \<and> ns_IsSendingAtomic (ses s' i) = 0 \<and> session_refs (ses s' i) = [] \<and>
    new_uid (ses s i) (ses s' i) \<and>
    nc_log s' = nc_log s @ [OnConnectionRequested ip (ae_port a), OnConnected (ns_mSessionID (ses s' i))]"
proof -
  let ?s1 = "put_log (OnConnectionRequested ip (ae_port a))
    (s\<lparr>nc_mAcceptTotal := nc_mAcceptTotal s + 1, nc_mAcceptCountPerSec := nc_mAcceptCountPerSec s + 1\<rparr>)"
  have "core_inv K x W (s\<lparr>nc_mAcceptTotal := nc_mAcceptTotal s + 1, nc_mAcceptCountPerSec := nc_mAcceptCountPerSec s + 1\<rparr>)"
    by (rule core_inv_sessions [OF inv]) (use inv in \<open>simp_all add: core_inv_def core_base_def Let_def\<close>)
  then have inv1: "core_inv K x W ?s1" by (rule core_inv_requested)
  have sel: "nc_mUnusedSession ?s1 = nc_mUnusedSession s" "ses ?s1 = ses s" "live ?s1 = live s"
    "length (nc_mSessionPool ?s1) = length (nc_mSessionPool s)" "nc_log ?s1 = nc_log s @ [OnConnectionRequested ip (ae_port a)]"
    by (simp_all add: ses_def live_def put_log_def fun_eq_iff)
  obtain i s2 where n: "NewSessionOrNull (ae_sock a) ip (ae_port a) (ae_garbage a) ?s1 = Inr (s2, Some i)"
    "i < length (nc_mSessionPool s2)" "length (nc_mSessionPool s2) = length (nc_mSessionPool ?s1)" "\<not> live ?s1 i" "live s2 i"
    "x i + nc_recvs s2 i + nc_sends s2 i = 0" "recv_buffers (ns_mRecvQueue (ses s2 i)) \<noteq> []"
    "nc_log s2 = nc_log ?s1" "ns_mSocket (ses s2 i) = Some (ae_sock a)" "ns_mIsCloseSocket (ses s2 i) = 0"
    "ns_IsSendingAtomic (ses s2 i) = 0" "session_refs (ses s2 i) = []"
    using NewSessionOrNull_ok [OF inv1, of "ae_sock a" ip "ae_port a" "ae_garbage a"] free sel(1) by auto
  let ?sid = "ns_mSessionID (ses s2 i)"
  obtain w where w: "ev_OnConnected ev ?sid (put_log (OnConnected ?sid) s2) = Inr ((put_log (OnConnected ?sid) s2)\<lparr>nc_world := w\<rparr>)"
    using ev by blast
  let ?s3 = "(put_log (OnConnected ?sid) s2)\<lparr>nc_world := w\<rparr>"
  have s3: "ses ?s3 = ses s2" by (simp add: ses_def fun_eq_iff)
  let ?s4 = "fst (IncrementIO i ?s3)"
  let ?s5 = "?s4\<lparr>nc_recvs := (nc_recvs ?s4)(i := nc_recvs ?s4 i + 1)\<rparr>"
  have "CreateSessionOrNull ev a (s\<lparr>nc_mAcceptTotal := nc_mAcceptTotal s + 1, nc_mAcceptCountPerSec := nc_mAcceptCountPerSec s + 1\<rparr>) =
      Inr (?s3, Some i)"
    using a req n(1) w by (simp add: CreateSessionOrNull_def Let_def)
  moreover have v: "ses ?s4 i = (ses s2 i)\<lparr>ns_IOCountAtomic := ns_IOCountAtomic (ses s2 i) + 1\<rparr>"
    using n(2) s3 by (simp add: IncrementIO_def Let_def)
  then have "RecvPost ev (ae_recv a) i ?s3 = Inr ?s5"
    using n(7,9,10) a(4) s3 by (simp add: RecvPost_def Let_def GetSocket_def IsClosed_def)
  ultimately have "NetworkAcceptThread_step ev (Some a) s = Inr (?s5, True)"
    by (simp add: NetworkAcceptThread_step_def)
  moreover have s5: "ses ?s5 i = ses ?s4 i" "nc_log ?s5 = nc_log s2 @ [OnConnected ?sid]" "nc_recvs ?s5 i = 1"
    "length (nc_mSessionPool ?s5) = length (nc_mSessionPool s2)"
    using n(6) by (simp_all add: ses_def IncrementIO_def Let_def)
  moreover have "new_uid (ses s i) (ses s2 i)"
    using NewSessionOrNull_new_uid [OF n(1)] n(2,3) sel(2) by simp
  then have "new_uid (ses s i) (ses ?s4 i)" by (simp add: v new_uid_def)
  ultimately show ?thesis
    using n(2-5,8-12) sel v by (intro exI [of _ i] exI [of _ ?s5]) (simp add: live_def)
qed

subsection \<open>Acquiring\<close>

lemma Acquire_found:
  assumes inv: "core_inv K x W s" and i: "unat (SessionIndex sid) = i" "i < length (nc_mSessionPool s)" "live s i"
    and sid: "ns_mSessionID (ses s i) = sid" "ns_mIsCloseSocket (ses s i) = 0"
    and io: "0 < x i + nc_recvs s i + nc_sends s i"
  shows "AcquireSessionOrNull ev sid s = Inr (fst (IncrementIO i s), Some i)"
proof -
  have c: "ns_IOCountAtomic (ses s i) \<noteq> 0"
    using slot_okD(2) [OF core_invD(1) [OF inv i(2)]] io by linarith
  have "FindSessionOrNull sid s = Inr (Some i)"
    using i sid by (simp add: FindSessionOrNull_def Let_def IsClosed_def IsReleased_def live_def)
  then show ?thesis
    using c i sid by (simp add: AcquireSessionOrNull_def IncrementIO_def Let_def IsReleased_def live_def)
qed

text \<open>Between \<^verbatim>\<open>NewSessionOrNull\<close> and \<^verbatim>\<open>RecvPost\<close> the count is 0, and acquiring the session releases it.\<close>

lemma Acquire_fresh:
  assumes ev: "handlers_ok K ev" and inv: "core_inv K x W s" and i: "unat (SessionIndex sid) = i" "i < length (nc_mSessionPool s)" "live s i"
    and sid: "ns_mSessionID (ses s i) = sid" "ns_mIsCloseSocket (ses s i) = 0"
    and io: "x i + nc_recvs s i + nc_sends s i = 0"
  shows "rok (\<lambda>(s', r). r = None \<and> \<not> live s' i \<and> core_inv K x W s') (AcquireSessionOrNull ev sid s)"
proof -
  have c: "ns_IOCountAtomic (ses s i) = 0"
    using slot_okD(2) [OF core_invD(1) [OF inv i(2)]] io by simp
  have f: "FindSessionOrNull sid s = Inr (Some i)"
    using i sid by (simp add: FindSessionOrNull_def Let_def IsClosed_def IsReleased_def live_def)
  let ?s1 = "fst (IncrementIO i s)"
  note k = IncrementIO_ok [OF inv i(2,3)]
  have i1: "i < length (nc_mSessionPool ?s1)" "nc_recvs ?s1 = nc_recvs s" "nc_sends ?s1 = nc_sends s"
    using i(2) by (simp_all add: IncrementIO_def Let_def)
  have "rok (\<lambda>(s', r). r = None \<and> \<not> live s' i \<and> core_inv K x W s')
      (rbind (TryReleaseSession ev i ?s1) (\<lambda>(s, _). Inr (s, None)))"
    by (rule rok_bind [OF TryReleaseSession_ok [OF ev k(1) i1(1)]]) (use i1 io in auto)
  moreover have "AcquireSessionOrNull ev sid s = rbind (TryReleaseSession ev i ?s1) (\<lambda>(s, _). Inr (s, None))"
    using f c by (simp add: AcquireSessionOrNull_def IncrementIO_def Let_def)
  ultimately show ?thesis by simp
qed

text \<open>
  Sending to an open, idle session: the packet is encoded, queued, and given to the kernel at once. No handler is
  called.
\<close>

lemma SendPacket_posts:
  assumes inv: "core_inv K x W s" and i: "unat (SessionIndex sid) = i" "i < length (nc_mSessionPool s)" "live s i"
    and sid: "ns_mSessionID (ses s i) = sid" "ns_mIsCloseSocket (ses s i) = 0"
    and io: "0 < x i + nc_recvs s i + nc_sends s i"
    and idle: "ns_IsSendingAtomic (ses s i) = 0" "queue_list (ns_mSendQueue (ses s i)) = []"
    and a: "0 < pp_refs (nc_send s) a" and reply: "wsa_posted reply"
  shows "\<exists>s'. SendPacket ev rnd reply sid a s = Inr (s', True) \<and> nc_sends s' i = nc_sends s i + 1 \<and>
    sending (ses s' i) = [a] \<and> queue_list (ns_mSendQueue (ses s' i)) = [] \<and> pp_refs (nc_send s') a = pp_refs (nc_send s) a + 1 \<and>
    length (nc_mSessionPool s') = length (nc_mSessionPool s) \<and> nc_log s' = nc_log s"
proof -
  let ?x = "x(i := x i + 1)"
  let ?s1 = "fst (IncrementIO i s)"
  note acq = Acquire_found [OF inv i sid io, of ev]
  note k1 = IncrementIO_ok [OF inv i(2,3)]
  have c: "0 < ns_IOCountAtomic (ses s i)" using slot_okD(2) [OF core_invD(1) [OF inv i(2)]] io by linarith
  have v1: "ses ?s1 i = (ses s i)\<lparr>ns_IOCountAtomic := ns_IOCountAtomic (ses s i) + 1\<rparr>" "nc_send ?s1 = nc_send s"
    "nc_sends ?s1 = nc_sends s" "nc_log ?s1 = nc_log s" "length (nc_mSessionPool ?s1) = length (nc_mSessionPool s)"
    using i(2) by (simp_all add: IncrementIO_def Let_def)
  obtain s2 where s2: "encode_packet rnd a ?s1 = Inr s2" "core_inv K ?x W s2" "core_frame ?s1 s2"
    "pp_refs (nc_send s2) = pp_refs (nc_send s)" "ses s2 = ses ?s1"
    using encode_packet_ok [OF k1(1), of a rnd] a v1(2) by auto
  have s2': "nc_sends s2 = nc_sends s" "nc_log s2 = nc_log s" "length (nc_mSessionPool s2) = length (nc_mSessionPool s)"
    using s2(1) v1 by (auto simp: encode_packet_def rbind_eq_Inr split: option.splits)
  have i2: "i < length (nc_mSessionPool s2)" using i(2) s2'(3) by simp
  define v2 where "v2 = ses s2 i"
  have v2: "ns_IOCountAtomic v2 = ns_IOCountAtomic (ses s i) + 1" "ns_IsSendingAtomic v2 = 0" "queue_list (ns_mSendQueue v2) = []"
    "ns_mIsCloseSocket v2 = 0" "ns_mSocket v2 = ns_mSocket (ses s i)" "ns_IsReleasedAtomic v2 = 0"
    using s2(5) v1(1) idle sid i(3) by (simp_all add: v2_def live_def)
  have sock: "ns_mSocket v2 \<noteq> None" using core_invD(1) [OF inv i(2)] i(3) v2(5) by (simp add: slot_ok_def live_def)
  note d2 = slot_okD(1) [OF core_invD(1) [OF s2(2) i2], folded v2_def] core_inv_refs_ok [OF s2(2) i2, folded v2_def]
  have ar: "0 < pp_refs (nc_send s2) a" "IsSendRecvable v2" using a s2(4) v2(6) by (simp_all add: IsSendRecvable_def IsReleased_def)
  obtain v3 pool where e: "Session_Enqueue v2 (nc_send s2) a = Inr (v3, pool, True)" "session_inv v3" "refs_ok v3 pool"
    "queue_list (ns_mSendQueue v3) = queue_list (ns_mSendQueue v2) @ [a]" "v3 = v2\<lparr>ns_mSendQueue := ns_mSendQueue v3\<rparr>"
    "pp_refs pool = (pp_refs (nc_send s2))(a := pp_refs (nc_send s2) a + 1)"
    using Session_Enqueue_ok [OF d2 ar] by metis
  have v3: "ns_IsSendingAtomic v3 = 0" "ns_IOCountAtomic v3 = ns_IOCountAtomic (ses s i) + 1" "ns_mIsCloseSocket v3 = 0"
    "ns_mSocket v3 = ns_mSocket v2"
    using arg_cong [OF e(5), of ns_IsSendingAtomic] arg_cong [OF e(5), of ns_IOCountAtomic]
      arg_cong [OF e(5), of ns_mIsCloseSocket] arg_cong [OF e(5), of ns_mSocket] v2(1,2,4)
    by simp_all
  have q: "queue_list (ns_mSendQueue v3) = [a]" using e(4) v2(3) by simp
  obtain v4 where r: "ReadySending v3 pool = Inr (v4, Some (map (\<lambda>a. (a, GetPacketSize (the (pp_objs pool a)))) [a]))"
    "sending v4 = [a]" "queue_list (ns_mSendQueue v4) = []"
    "v4 = v3\<lparr>ns_mSendQueue := ns_mSendQueue v4, ns_PacketBuffer := ns_PacketBuffer v4,
           ns_PacketCount := ns_PacketCount v4, ns_TotalByteSize := ns_TotalByteSize v4, ns_IsSendingAtomic := 2\<rparr>"
    by (rule ReadySending_ok [OF e(2,3) v3(1) q], simp, simp, rule that, assumption+)
  have v4: "ns_IOCountAtomic v4 = ns_IOCountAtomic (ses s i) + 1" "ns_mIsCloseSocket v4 = 0" "ns_mSocket v4 = ns_mSocket v2"
    using arg_cong [OF r(4), of ns_IOCountAtomic] arg_cong [OF r(4), of ns_mIsCloseSocket] arg_cong [OF r(4), of ns_mSocket] v3
    by simp_all
  let ?s3 = "(set_ses i v3 s2)\<lparr>nc_send := pool\<rparr>"
  let ?v5 = "v4\<lparr>ns_IOCountAtomic := ns_IOCountAtomic (ses s i) + 2\<rparr>"
  let ?s5 = "(set_ses i ?v5 ?s3)\<lparr>nc_sends := (nc_sends s)(i := nc_sends s i + 1)\<rparr>"
  have ses3: "ses ?s3 i = v3" using i2 by (simp add: ses_def set_ses_def)
  have "SendPost ev reply i ?s3 = Inr (?s5, True)"
    using r(1) v4 sock reply i2 s2'(1)
    by (simp add: SendPost_def ses3 Let_def IncrementIO_def ses_set_ses GetSocket_def IsClosed_def) (auto simp: set_ses_def add.commute)
  moreover let ?s6 = "(set_ses i (v4\<lparr>ns_IOCountAtomic := ns_IOCountAtomic (ses s i) + 1\<rparr>) ?s3)\<lparr>nc_sends := (nc_sends s)(i := nc_sends s i + 1)\<rparr>"
  have "TryReleaseSession ev i ?s5 = Inr (?s6, False)"
    using c i2 by (simp add: TryReleaseSession_def DecrementIO_def Let_def set_ses_def ses_def) (simp add: add.commute)
  ultimately have "SendPacket ev rnd reply sid a s = Inr (?s6, True)"
    using acq s2(1) e(1) by (simp add: SendPacket_def v2_def [symmetric] Let_def)
  moreover have "ses ?s6 i = v4\<lparr>ns_IOCountAtomic := ns_IOCountAtomic (ses s i) + 1\<rparr>" using i2 by (simp add: ses_def set_ses_def)
  moreover have "sending (v4\<lparr>ns_IOCountAtomic := n\<rparr>) = [a]" for n using r(2) by (simp add: sending_def)
  ultimately show ?thesis
    using r(3) e(6) s2(4) s2'(2,3) by (intro exI [of _ ?s6]) (simp add: set_ses_def)
qed

end
