(* ===== verification/Pool_Concurrent.thy ===== *)
theory Pool_Concurrent
  imports Prelude
begin

text \<open>
  \<^verbatim>\<open>ObjectPoolLockFree::Rent\<close> and \<^verbatim>\<open>::Return\<close> (\<^verbatim>\<open>ObjectPoolLockFree.hpp\<close>) executed by any number of
  threads. Each shared-memory access is one step: the two halves of the
  head are read separately, as the code does, and only the compare-and-swap is atomic on both. A
  schedule is a list of thread numbers with what an idle thread does next; all interleavings
  are the schedules. Nodes are never freed while the pool runs. The version counter \<^verbatim>\<open>UID\<close> is the
  64-bit word of the code and goes round. The code relies on its not going once round while a thread
  is between its read of \<^verbatim>\<open>UID\<close> and its exchange: the properties are about schedules of fewer than
  \<open>2\<^sup>64\<close> steps, from any first value of \<^verbatim>\<open>UID\<close>, which the constructor leaves uninitialised. The counters
  of the pool change by at most one in a step; they are integers here.
\<close>

datatype pc =
    Idle
  | RNeg                        \<comment> \<open>decremented below 0, about to increment back\<close>
  | RAlloc
  | RMax nat
  | RNode                       \<comment> \<open>reserved a node, about to read \<open>mHead.Node\<close>\<close>
  | RUid nat
  | RNext nat u64
  | RCas nat u64 "nat option"
  | RGot nat
  | TNode nat
  | TUid nat "nat option"
  | TNext nat "nat option" u64
  | TCas nat "nat option" u64
  | TInc nat
  | TUsed
  | Crashed

record cpool =
  c_next :: "nat \<Rightarrow> nat option"
  c_alloc :: nat
  c_uid :: u64
  c_node :: "nat option"
  c_cached :: int
  c_max :: int
  c_used :: int
  c_held :: "nat set"
  c_pc :: "nat \<Rightarrow> pc"

datatype request = CallRent | CallReturn nat

definition set_pc :: "nat \<Rightarrow> pc \<Rightarrow> cpool \<Rightarrow> cpool" where
  "set_pc t p s = s\<lparr>c_pc := (c_pc s)(t := p)\<rparr>"

text \<open>One step of thread \<open>t\<close> in \<^verbatim>\<open>Rent\<close>.\<close>

definition rent_step :: "nat \<Rightarrow> cpool \<Rightarrow> cpool" where
  "rent_step t s =
     (case c_pc s t of
        RNeg \<Rightarrow> set_pc t RAlloc (s\<lparr>c_cached := c_cached s + 1\<rparr>)
      | RAlloc \<Rightarrow> set_pc t (RMax (c_alloc s))
          (s\<lparr>c_alloc := Suc (c_alloc s), c_next := (c_next s)(c_alloc s := None)\<rparr>)
      | RMax a \<Rightarrow> set_pc t (RGot a) (s\<lparr>c_max := c_max s + 1\<rparr>)
      | RNode \<Rightarrow> (case c_node s of None \<Rightarrow> set_pc t Crashed s | Some n \<Rightarrow> set_pc t (RUid n) s)
      | RUid n \<Rightarrow> set_pc t (RNext n (c_uid s)) s
      | RNext n u \<Rightarrow> set_pc t (RCas n u (c_next s n)) s
      | RCas n u nx \<Rightarrow>
          (if c_node s = Some n \<and> c_uid s = u
           then set_pc t (RGot n) (s\<lparr>c_node := nx, c_uid := u + 1\<rparr>)
           else case c_node s of None \<Rightarrow> set_pc t Crashed s
                | Some n' \<Rightarrow> set_pc t (RNext n' (c_uid s)) s)
      | RGot a \<Rightarrow> set_pc t Idle (s\<lparr>c_used := c_used s + 1, c_held := insert a (c_held s)\<rparr>)
      | _ \<Rightarrow> s)"

text \<open>One step of thread \<open>t\<close> in \<^verbatim>\<open>Return\<close>.\<close>

definition return_step :: "nat \<Rightarrow> cpool \<Rightarrow> cpool" where
  "return_step t s =
     (case c_pc s t of
        TNode a \<Rightarrow> set_pc t (TUid a (c_node s)) s
      | TUid a n \<Rightarrow> set_pc t (TNext a n (c_uid s)) s
      | TNext a n u \<Rightarrow> set_pc t (TCas a n u) (s\<lparr>c_next := (c_next s)(a := n)\<rparr>)
      | TCas a n u \<Rightarrow>
          (if c_node s = n \<and> c_uid s = u
           then set_pc t (TInc a) (s\<lparr>c_node := Some a, c_uid := u + 1\<rparr>)
           else set_pc t (TNext a (c_node s) (c_uid s)) s)
      | TInc a \<Rightarrow> set_pc t TUsed (s\<lparr>c_cached := c_cached s + 1\<rparr>)
      | TUsed \<Rightarrow> set_pc t Idle (s\<lparr>c_used := c_used s - 1\<rparr>)
      | _ \<Rightarrow> s)"

text \<open>An idle thread calls \<^verbatim>\<open>Rent\<close>, or \<^verbatim>\<open>Return\<close> on an object that is rented.\<close>

definition call_step :: "nat \<Rightarrow> request \<Rightarrow> cpool \<Rightarrow> cpool" where
  "call_step t r s =
     (case r of
        CallRent \<Rightarrow>
          (let c = c_cached s - 1 in
           set_pc t (if c < 0 then RNeg else RNode) (s\<lparr>c_cached := c\<rparr>))
      | CallReturn a \<Rightarrow>
          (if a \<in> c_held s then set_pc t (TNode a) (s\<lparr>c_held := c_held s - {a}\<rparr>) else s))"

fun in_rent :: "pc \<Rightarrow> bool" where
  "in_rent RNeg = True"
| "in_rent RAlloc = True"
| "in_rent (RMax _) = True"
| "in_rent RNode = True"
| "in_rent (RUid _) = True"
| "in_rent (RNext _ _) = True"
| "in_rent (RCas _ _ _) = True"
| "in_rent (RGot _) = True"
| "in_rent _ = False"

definition thread_step :: "nat \<Rightarrow> nat \<times> request \<Rightarrow> cpool \<Rightarrow> cpool" where
  "thread_step N = (\<lambda>(t, r) s.
     if t < N then
       (if c_pc s t = Idle then call_step t r s
        else if in_rent (c_pc s t) then rent_step t s else return_step t s)
     else s)"

definition cpool_run :: "nat \<Rightarrow> (nat \<times> request) list \<Rightarrow> cpool \<Rightarrow> cpool" where
  "cpool_run N sched s = fold (thread_step N) sched s"

definition cpool_init :: "u64 \<Rightarrow> cpool" where
  "cpool_init uid = \<lparr>c_next = (\<lambda>_. None), c_alloc = 0, c_uid = uid, c_node = None, c_cached = 0,
     c_max = 0, c_used = 0, c_held = {}, c_pc = (\<lambda>_. Idle)\<rparr>"

subsection \<open>The invariant\<close>

primrec nchain :: "(nat \<Rightarrow> nat option) \<Rightarrow> nat option \<Rightarrow> nat list \<Rightarrow> bool" where
  "nchain nx p [] \<longleftrightarrow> p = None"
| "nchain nx p (x # xs) \<longleftrightarrow> p = Some x \<and> nchain nx (nx x) xs"

lemma nchain_upd [simp]: "a \<notin> set xs \<Longrightarrow> nchain (nx(a := v)) p xs = nchain nx p xs"
  by (induction xs arbitrary: p) auto

fun owner :: "pc \<Rightarrow> nat option" where
  "owner (RMax a) = Some a"
| "owner (RGot a) = Some a"
| "owner (TNode a) = Some a"
| "owner (TUid a _) = Some a"
| "owner (TNext a _ _) = Some a"
| "owner (TCas a _ _) = Some a"
| "owner _ = None"

text \<open>How many threads are: holding a reservation, between push and count, below zero, in \<^verbatim>\<open>Return\<close>, before the capacity update.\<close>

fun reserving :: "pc \<Rightarrow> int" where
  "reserving RNode = 1"
| "reserving (RUid _) = 1"
| "reserving (RNext _ _) = 1"
| "reserving (RCas _ _ _) = 1"
| "reserving _ = 0"

fun uncounted :: "pc \<Rightarrow> int" where
  "uncounted (TInc _) = 1"
| "uncounted _ = 0"

fun below_zero :: "pc \<Rightarrow> int" where
  "below_zero RNeg = 1"
| "below_zero _ = 0"

fun returning :: "pc \<Rightarrow> int" where
  "returning (TNode _) = 1"
| "returning (TUid _ _) = 1"
| "returning (TNext _ _ _) = 1"
| "returning (TCas _ _ _) = 1"
| "returning (TInc _) = 1"
| "returning TUsed = 1"
| "returning _ = 0"

fun growing :: "pc \<Rightarrow> int" where
  "growing (RMax _) = 1"
| "growing _ = 0"

definition cnt :: "nat \<Rightarrow> (pc \<Rightarrow> int) \<Rightarrow> (nat \<Rightarrow> pc) \<Rightarrow> int" where
  "cnt N w f = (\<Sum>i<N. w (f i))"

lemma cnt_upd: "t < N \<Longrightarrow> cnt N w (f(t := p)) = cnt N w f - w (f t) + w p"
  unfolding cnt_def by (rule sum_upd)

lemma weight_nonneg: "0 \<le> reserving p" "0 \<le> uncounted p" "0 \<le> below_zero p" "0 \<le> returning p"
  by (cases p; simp)+

lemma cnt_nonneg: "0 \<le> cnt N reserving f" "0 \<le> cnt N uncounted f" "0 \<le> cnt N below_zero f" "0 \<le> cnt N returning f"
  unfolding cnt_def by (simp_all add: sum_nonneg weight_nonneg)

lemma cnt_ge_one:
  assumes "t < N" "reserving (f t) = 1"
  shows "1 \<le> cnt N reserving f"
  using assms member_le_sum [of t "{..<N}" "\<lambda>i. reserving (f i)"] weight_nonneg(1) by (simp add: cnt_def)

definition counts_ok :: "nat \<Rightarrow> cpool \<Rightarrow> nat list \<Rightarrow> bool" where
  "counts_ok N s xs \<longleftrightarrow>
     c_cached s = int (length xs) - cnt N reserving (c_pc s) - cnt N uncounted (c_pc s)
       - cnt N below_zero (c_pc s) \<and>
     cnt N reserving (c_pc s) + cnt N uncounted (c_pc s) \<le> int (length xs) \<and>
     c_used s = int (card (c_held s)) + cnt N returning (c_pc s) \<and>
     c_max s = int (c_alloc s) - cnt N growing (c_pc s)"

definition owners_ok :: "cpool \<Rightarrow> nat list \<Rightarrow> bool" where
  "owners_ok s xs \<longleftrightarrow>
     distinct xs \<and> set xs \<inter> c_held s = {} \<and>
     set xs \<union> c_held s \<union> {a. \<exists>t. owner (c_pc s t) = Some a} = {..<c_alloc s} \<and>
     (\<forall>t a. owner (c_pc s t) = Some a \<longrightarrow> a \<notin> set xs \<and> a \<notin> c_held s) \<and>
     (\<forall>t t' a. owner (c_pc s t) = Some a \<longrightarrow> owner (c_pc s t') = Some a \<longrightarrow> t = t')"

text \<open>The values that \<^verbatim>\<open>UID\<close> has had after \<open>k\<close> exchanges, from \<open>u\<close> on. The next one is new until \<open>2\<^sup>64\<close> are through.\<close>

definition uids :: "u64 \<Rightarrow> nat \<Rightarrow> u64 set" where
  "uids u k = (\<lambda>j. u + of_nat j) ` {..k}"

lemma uids_now [simp]: "u + of_nat k \<in> uids u k"
  by (simp add: uids_def)

lemma uids_mono: "k \<le> k' \<Longrightarrow> uids u k \<subseteq> uids u k'"
  by (auto simp: uids_def)

lemma uids_fresh: "k + 1 < 2 ^ 64 \<Longrightarrow> u + of_nat k + 1 \<notin> uids u k"
proof
  assume k: "k + 1 < 2 ^ 64" and "u + of_nat k + 1 \<in> uids u k"
  then obtain j where j: "j \<le> k" "u + of_nat (k + 1) = u + of_nat j" by (auto simp: uids_def algebra_simps)
  then have "unat (of_nat (k + 1) :: u64) = unat (of_nat j :: u64)" by simp
  then show False using k j(1) by (simp add: unsigned_of_nat take_bit_nat_eq_self del: of_nat_add of_nat_Suc)
qed

fun pc_ok :: "u64 set \<Rightarrow> cpool \<Rightarrow> pc \<Rightarrow> bool" where
  "pc_ok U s (RUid n) \<longleftrightarrow> n < c_alloc s"
| "pc_ok U s (RNext n u) \<longleftrightarrow> n < c_alloc s \<and> u \<in> U"
| "pc_ok U s (RCas n u nx) \<longleftrightarrow> n < c_alloc s \<and> u \<in> U \<and>
     (c_node s = Some n \<and> c_uid s = u \<longrightarrow> c_next s n = nx)"
| "pc_ok U s (TCas a n u) \<longleftrightarrow> c_next s a = n"
| "pc_ok U s Crashed \<longleftrightarrow> False"
| "pc_ok U s _ \<longleftrightarrow> True"

definition cinv :: "u64 \<Rightarrow> nat \<Rightarrow> nat \<Rightarrow> cpool \<Rightarrow> nat list \<Rightarrow> bool" where
  "cinv u k N s xs \<longleftrightarrow>
     c_uid s = u + of_nat k \<and> nchain (c_next s) (c_node s) xs \<and> owners_ok s xs \<and> counts_ok N s xs \<and>
     (\<forall>t. pc_ok (uids u k) s (c_pc s t)) \<and> (\<forall>t\<ge>N. c_pc s t = Idle)"

lemmas cinv_defs = cinv_def owners_ok_def counts_ok_def

lemma cinvD:
  assumes "cinv w k N s xs"
  shows "nchain (c_next s) (c_node s) xs" "owners_ok s xs" "counts_ok N s xs" "pc_ok (uids w k) s (c_pc s i)"
    "N \<le> i \<Longrightarrow> c_pc s i = Idle" "c_uid s = w + of_nat k"
  using assms by (simp_all add: cinv_def)

lemma set_pc_sel [simp]:
  "c_pc (set_pc t p s) = (c_pc s)(t := p)" "c_next (set_pc t p s) = c_next s"
  "c_alloc (set_pc t p s) = c_alloc s" "c_uid (set_pc t p s) = c_uid s" "c_node (set_pc t p s) = c_node s"
  "c_cached (set_pc t p s) = c_cached s" "c_max (set_pc t p s) = c_max s" "c_used (set_pc t p s) = c_used s"
  "c_held (set_pc t p s) = c_held s"
  by (simp_all add: set_pc_def)

lemma pc_ok_cong:
  assumes "U \<subseteq> U'" "c_alloc s \<le> c_alloc s'"
    and "\<And>n u nx. p = RCas n u nx \<Longrightarrow> c_node s' = Some n \<Longrightarrow> c_uid s' = u \<Longrightarrow>
           n < c_alloc s \<Longrightarrow> u \<in> U \<Longrightarrow> c_node s = Some n \<and> c_uid s = u \<and> c_next s' n = c_next s n"
    and "\<And>a n u. p = TCas a n u \<Longrightarrow> c_next s' a = c_next s a"
    and "pc_ok U s p"
  shows "pc_ok U' s' p"
  using assms by (cases p) auto

text \<open>What a step of thread \<open>t\<close> has to establish.\<close>

lemma cinv_move:
  assumes "cinv w k N s xs" "t < N" and pc: "c_pc s' = (c_pc s)(t := p)" and u: "c_uid s' = w + of_nat k'"
    and "nchain (c_next s') (c_node s') xs'" "owners_ok s' xs'" "counts_ok N s' xs'"
    and p: "pc_ok (uids w k') s' p" and others: "\<And>i. i \<noteq> t \<Longrightarrow> pc_ok (uids w k') s' (c_pc s i)"
  shows "cinv w k' N s' xs'"
proof -
  have "pc_ok (uids w k') s' (c_pc s' i)" for i using p others [of i] unfolding pc by simp
  then show ?thesis using assms by (simp add: cinv_def)
qed

lemma owners_same:
  assumes "owners_ok s xs" "\<And>i. owner (c_pc s' i) = owner (c_pc s i)" "c_alloc s' = c_alloc s" "c_held s' = c_held s"
  shows "owners_ok s' xs"
  using assms by (simp add: owners_ok_def)

text \<open>A step that moves a thread between places with the same owner and changes counters at most.\<close>

definition same_memory :: "cpool \<Rightarrow> cpool \<Rightarrow> bool" where
  "same_memory s s' \<longleftrightarrow> c_next s' = c_next s \<and> c_alloc s' = c_alloc s \<and> c_uid s' = c_uid s \<and>
     c_node s' = c_node s \<and> c_held s' = c_held s \<and> c_pc s' = c_pc s"

lemma cinv_local:
  assumes inv: "cinv w k N s xs" and t: "t < N" and p: "pc_ok (uids w k) s p" and own: "owner p = owner (c_pc s t)"
    and mem: "same_memory s s'" and cnt: "counts_ok N (set_pc t p s') xs"
  shows "cinv w k N (set_pc t p s') xs"
proof -
  have "owners_ok (set_pc t p s') xs"
    using own mem by (intro owners_same [OF cinvD(2) [OF inv]]) (auto simp: same_memory_def)
  moreover have "pc_ok (uids w k) (set_pc t p s') q" if "pc_ok (uids w k) s q" for q
    by (rule pc_ok_cong [of "uids w k" _ s]) (use that mem in \<open>auto simp: same_memory_def\<close>)
  ultimately show ?thesis
    using mem cnt p cinvD(1,4,6) [OF inv] by (intro cinv_move [OF inv t]) (auto simp: same_memory_def)
qed

lemma same_memory_simps [simp]: "same_memory s s" "same_memory s (s\<lparr>c_cached := c\<rparr>)"
  "same_memory s (s\<lparr>c_max := m\<rparr>)" "same_memory s (s\<lparr>c_used := u\<rparr>)"
  by (simp_all add: same_memory_def)

lemma counts_plain:
  assumes "cinv w k N s xs" "t < N" "reserving p = reserving (c_pc s t)"
      "uncounted p = uncounted (c_pc s t)" "below_zero p = below_zero (c_pc s t)"
      "returning p = returning (c_pc s t)" "growing p = growing (c_pc s t)"
  shows "counts_ok N (set_pc t p s) xs"
  using assms by (simp add: cinv_def counts_ok_def cnt_upd)

lemma head_not_null:
  assumes inv: "cinv w k N s xs" and t: "t < N" "reserving (c_pc s t) = 1"
  obtains n ys where "c_node s = Some n" "xs = n # ys" "n < c_alloc s" "nchain (c_next s) (c_next s n) ys"
proof -
  have "1 \<le> length xs"
    using inv cnt_ge_one [of t N "c_pc s"] t cnt_nonneg(2) [of N "c_pc s"] by (simp add: cinv_defs)
  then obtain n ys where "xs = n # ys" by (cases xs) auto
  moreover from this have "n < c_alloc s" using inv by (auto simp: cinv_defs)
  ultimately show ?thesis using inv that by (simp add: cinv_def)
qed

subsection \<open>Steps of Rent\<close>

lemma cinv_rent_local:
  assumes inv: "cinv w k N s xs" and t: "t < N"
    and p: "c_pc s t = RNeg \<or> c_pc s t = RNode \<or> (\<exists>a. c_pc s t = RMax a) \<or> (\<exists>n. c_pc s t = RUid n) \<or>
      (\<exists>n u. c_pc s t = RNext n u)"
  shows "cinv w k N (rent_step t s) xs"
proof -
  have ok: "pc_ok (uids w k) s (c_pc s t)" using inv by (simp add: cinv_def)
  have here: "c_uid s \<in> uids w k" using cinvD(6) [OF inv] by simp
  from p consider "c_pc s t = RNeg" | "c_pc s t = RNode" | a where "c_pc s t = RMax a"
    | n where "c_pc s t = RUid n" | n u where "c_pc s t = RNext n u" by auto
  then show ?thesis
  proof cases
    case 1
    then have "counts_ok N (set_pc t RAlloc (s\<lparr>c_cached := c_cached s + 1\<rparr>)) xs"
      using cinvD(3) [OF inv] t by (simp add: counts_ok_def cnt_upd)
    then show ?thesis using 1 by (auto simp: rent_step_def intro!: cinv_local [OF inv t])
  next
    case 2
    obtain n ys where "c_node s = Some n" "n < c_alloc s" using head_not_null [OF inv t] 2 by auto
    then show ?thesis using 2 by (auto simp: rent_step_def intro!: cinv_local [OF inv t] counts_plain [OF inv t])
  next
    case 3
    then have "counts_ok N (set_pc t (RGot a) (s\<lparr>c_max := c_max s + 1\<rparr>)) xs"
      using cinvD(3) [OF inv] t by (simp add: counts_ok_def cnt_upd)
    then show ?thesis using 3 by (auto simp: rent_step_def intro!: cinv_local [OF inv t])
  next
    case 4
    then show ?thesis using ok here by (auto simp: rent_step_def intro!: cinv_local [OF inv t] counts_plain [OF inv t])
  next
    case 5
    then show ?thesis using ok by (auto simp: rent_step_def intro!: cinv_local [OF inv t] counts_plain [OF inv t])
  qed
qed

lemma cinv_RAlloc:
  assumes inv: "cinv w k N s xs" and t: "t < N" and p: "c_pc s t = RAlloc"
  shows "cinv w k N (rent_step t s) xs"
proof -
  let ?a = "c_alloc s"
  let ?s' = "set_pc t (RMax ?a) (s\<lparr>c_alloc := Suc ?a, c_next := (c_next s)(?a := None)\<rparr>)"
  have own: "set xs \<union> c_held s \<union> {a. \<exists>t. owner (c_pc s t) = Some a} = {..<?a}"
    using inv by (simp add: cinv_defs)
  then have lt: "\<And>a. a \<in> set xs \<Longrightarrow> a < ?a" "\<And>a. a \<in> c_held s \<Longrightarrow> a < ?a"
    "\<And>i a. owner (c_pc s i) = Some a \<Longrightarrow> a < ?a" by blast+
  have upd: "owner (c_pc ?s' i) = (if i = t then Some ?a else owner (c_pc s i))" for i by simp
  have "{a. \<exists>i. owner (c_pc ?s' i) = Some a} = insert ?a {a. \<exists>i. owner (c_pc s i) = Some a}"
    unfolding upd using p by (auto split: if_splits) (metis option.distinct(1) owner.simps(9))
  then have "set xs \<union> c_held s \<union> {a. \<exists>i. owner (c_pc ?s' i) = Some a} = {..<Suc ?a}"
    using own by (auto simp: lessThan_Suc)
  then have "owners_ok ?s' xs"
    using cinvD(2) [OF inv] lt unfolding owners_ok_def upd by (auto split: if_splits)
  moreover have "pc_ok (uids w k) ?s' (c_pc s i)" for i
    by (rule pc_ok_cong [of "uids w k" _ s]) (use cinvD(4) [OF inv, of i] lt(3) [of i] in auto)
  moreover have "nchain (c_next ?s') (c_node ?s') xs"
    using cinvD(1,6) [OF inv] lt(1) by (simp, subst nchain_upd) auto
  moreover have "counts_ok N ?s' xs"
    using cinvD(3) [OF inv] t p by (simp add: counts_ok_def cnt_upd)
  ultimately have "cinv w k N ?s' xs"
    using cinvD(6) [OF inv] by (intro cinv_move [OF inv t, of _ "RMax ?a"]) auto
  then show ?thesis using p by (simp add: rent_step_def)
qed

text \<open>Ownership moving between a thread, the free list and the clients.\<close>

lemma owned_take:
  assumes "owner (f t) = None" "owner p = Some a"
  shows "{b. \<exists>i. owner ((f(t := p)) i) = Some b} = insert a {b. \<exists>i. owner (f i) = Some b}"
  using assms by (auto split: if_splits) (metis option.distinct(1))

lemma owned_give:
  assumes "owner (f t) = Some a" "owner p = None"
    and "\<And>i j b. owner (f i) = Some b \<Longrightarrow> owner (f j) = Some b \<Longrightarrow> i = j"
  shows "{b. \<exists>i. owner ((f(t := p)) i) = Some b} = {b. \<exists>i. owner (f i) = Some b} - {a}"
  using assms by (auto split: if_splits) (metis option.inject)

lemma owners_okD: "owners_ok s xs \<Longrightarrow> distinct xs" "owners_ok s xs \<Longrightarrow> set xs \<inter> c_held s = {}"
  by (simp_all add: owners_ok_def)

lemma owners_take:
  assumes ok: "owners_ok s xs" and n: "owner (c_pc s t) = None" and p: "owner p = Some a"
    and pc: "c_pc s' = (c_pc s)(t := p)" "c_alloc s' = c_alloc s"
    and a: "a \<in> set xs \<union> c_held s" "a \<notin> set xs'" "a \<notin> c_held s'" "distinct xs'"
      "set xs' \<subseteq> set xs" "c_held s' \<subseteq> c_held s" "set xs \<union> c_held s \<subseteq> insert a (set xs' \<union> c_held s')"
  shows "owners_ok s' xs'"
proof -
  have na: "owner (c_pc s i) \<noteq> Some a" for i using ok a(1) by (auto simp: owners_ok_def)
  have "set xs' \<union> c_held s' \<union> {b. \<exists>i. owner (c_pc s' i) = Some b} = {..<c_alloc s'}"
    unfolding pc owned_take [where f = "c_pc s", OF n p] using ok a unfolding owners_ok_def by blast
  moreover have "\<forall>i b. owner (c_pc s' i) = Some b \<longrightarrow> b \<notin> set xs' \<and> b \<notin> c_held s'"
    using ok a p unfolding pc owners_ok_def by (auto split: if_splits)
  moreover have "\<forall>i j b. owner (c_pc s' i) = Some b \<longrightarrow> owner (c_pc s' j) = Some b \<longrightarrow> i = j"
    using ok na p unfolding pc owners_ok_def by auto
  ultimately show ?thesis using ok a unfolding owners_ok_def by blast
qed

lemma owners_give:
  assumes ok: "owners_ok s xs" and n: "owner (c_pc s t) = Some a" and p: "owner p = None"
    and pc: "c_pc s' = (c_pc s)(t := p)" "c_alloc s' = c_alloc s"
    and a: "set xs' \<union> c_held s' = insert a (set xs \<union> c_held s)" "distinct xs'" "set xs' \<inter> c_held s' = {}"
  shows "owners_ok s' xs'"
proof -
  have u: "\<And>i j b. owner (c_pc s i) = Some b \<Longrightarrow> owner (c_pc s j) = Some b \<Longrightarrow> i = j"
    using ok unfolding owners_ok_def by blast
  define own where "own = {b. \<exists>i. owner (c_pc s i) = Some b}"
  have "set xs \<union> c_held s \<union> own = {..<c_alloc s}" "a \<in> own"
    using ok n by (auto simp: owners_ok_def own_def)
  moreover have o: "{b. \<exists>i. owner (c_pc s' i) = Some b} = own - {a}"
    unfolding pc own_def using n p u by (rule owned_give [of "c_pc s" t a p])
  ultimately have "set xs' \<union> c_held s' \<union> {b. \<exists>i. owner (c_pc s' i) = Some b} = {..<c_alloc s'}"
    unfolding o a pc(2) by blast
  moreover have "\<forall>i b. owner (c_pc s' i) = Some b \<longrightarrow> b \<notin> set xs' \<union> c_held s'"
    unfolding a using ok p u n unfolding pc owners_ok_def by (auto split: if_splits)
  moreover have "\<forall>i j b. owner (c_pc s' i) = Some b \<longrightarrow> owner (c_pc s' j) = Some b \<longrightarrow> i = j"
    using u p unfolding pc by (auto split: if_splits)
  ultimately show ?thesis using a unfolding owners_ok_def by blast
qed

lemma cinv_RCas:
  assumes inv: "cinv w k N s xs" and t: "t < N" and p: "c_pc s t = RCas n u nx"
    and few: "k + 1 < 2 ^ 64"
  shows "\<exists>k' xs'. k' \<le> k + 1 \<and> cinv w k' N (rent_step t s) xs'"
proof -
  obtain m ys where h: "c_node s = Some m" "xs = m # ys" "m < c_alloc s" "nchain (c_next s) (c_next s m) ys"
    using head_not_null [OF inv t] p by auto
  have ok: "pc_ok (uids w k) s (RCas n u nx)" using cinvD(4) [OF inv, of t] p by simp
  have new: "c_uid s + 1 \<notin> uids w k" using uids_fresh [OF few] cinvD(6) [OF inv] by simp
  show ?thesis
  proof (cases "c_node s = Some n \<and> c_uid s = u")
    case True
    let ?s' = "set_pc t (RGot n) (s\<lparr>c_node := nx, c_uid := u + 1\<rparr>)"
    have m: "m = n" "nx = c_next s n" using True h ok by auto
    have "owners_ok ?s' ys"
      using owners_okD [OF cinvD(2) [OF inv]] p h(2) m
      by (intro owners_take [OF cinvD(2) [OF inv], of t "RGot n" n]) auto
    moreover have "counts_ok N ?s' ys"
      using cinvD(3) [OF inv] t p h(2) by (simp add: counts_ok_def cnt_upd)
    moreover have "pc_ok (uids w (k + 1)) ?s' (c_pc s i)" for i
      by (rule pc_ok_cong [of "uids w k" _ s]) (use cinvD(4) [OF inv, of i] True new uids_mono [of k "k + 1"] in auto)
    ultimately have "cinv w (k + 1) N ?s' ys"
      using h m True cinvD(6) [OF inv] by (intro cinv_move [OF inv t, of _ "RGot n"]) auto
    then show ?thesis using p True by (intro exI [of _ "k + 1"] exI [of _ ys]) (simp add: rent_step_def)
  next
    case False
    have "cinv w k N (set_pc t (RNext m (c_uid s)) s) xs"
      using h(3) p cinvD(6) [OF inv] by (auto intro!: cinv_local [OF inv t] counts_plain [OF inv t])
    then show ?thesis using p False h by (intro exI [of _ k] exI [of _ xs]) (auto simp: rent_step_def)
  qed
qed

lemma held_finite: "owners_ok s xs \<Longrightarrow> finite (c_held s)"
  by (rule finite_subset [of _ "{..<c_alloc s}"]) (auto simp: owners_ok_def)

lemma cinv_RGot:
  assumes inv: "cinv w k N s xs" and t: "t < N" and p: "c_pc s t = RGot a"
  shows "cinv w k N (rent_step t s) xs"
proof -
  let ?s' = "set_pc t Idle (s\<lparr>c_used := c_used s + 1, c_held := insert a (c_held s)\<rparr>)"
  note ok = cinvD(2) [OF inv]
  have a: "a \<notin> set xs" "a \<notin> c_held s" using ok p unfolding owners_ok_def by (metis owner.simps(2))+
  have "owners_ok ?s' xs"
    using owners_okD [OF ok] p a by (intro owners_give [OF ok, of t a Idle]) auto
  moreover have "counts_ok N ?s' xs"
    using cinvD(3) [OF inv] t p a held_finite [OF ok] by (simp add: counts_ok_def cnt_upd)
  moreover have "pc_ok (uids w k) ?s' (c_pc s i)" for i
    by (rule pc_ok_cong [of "uids w k" _ s]) (use cinvD(4) [OF inv, of i] in auto)
  ultimately have "cinv w k N ?s' xs"
    using cinvD(1,6) [OF inv] by (intro cinv_move [OF inv t, of _ Idle]) auto
  then show ?thesis using p by (simp add: rent_step_def)
qed

subsection \<open>Steps of Return and calls\<close>

lemma cinv_return_local:
  assumes inv: "cinv w k N s xs" and t: "t < N"
    and p: "c_pc s t = TUsed \<or> (\<exists>a. c_pc s t = TInc a) \<or> (\<exists>a. c_pc s t = TNode a) \<or> (\<exists>a n. c_pc s t = TUid a n)"
  shows "cinv w k N (return_step t s) xs"
proof -
  from p consider "c_pc s t = TUsed" | a where "c_pc s t = TInc a" | a where "c_pc s t = TNode a"
    | a n where "c_pc s t = TUid a n" by auto
  then show ?thesis
  proof cases
    case 1
    then have "counts_ok N (set_pc t Idle (s\<lparr>c_used := c_used s - 1\<rparr>)) xs"
      using cinvD(3) [OF inv] t by (simp add: counts_ok_def cnt_upd)
    then show ?thesis using 1 by (auto simp: return_step_def intro!: cinv_local [OF inv t])
  next
    case 2
    then have "counts_ok N (set_pc t TUsed (s\<lparr>c_cached := c_cached s + 1\<rparr>)) xs"
      using cinvD(3) [OF inv] t by (simp add: counts_ok_def cnt_upd)
    then show ?thesis using 2 by (auto simp: return_step_def intro!: cinv_local [OF inv t])
  next
    case 3
    then show ?thesis by (auto simp: return_step_def intro!: cinv_local [OF inv t] counts_plain [OF inv t])
  next
    case 4
    then show ?thesis by (auto simp: return_step_def intro!: cinv_local [OF inv t] counts_plain [OF inv t])
  qed
qed

lemma cinv_TNext:
  assumes inv: "cinv w k N s xs" and t: "t < N" and p: "c_pc s t = TNext a n u"
  shows "cinv w k N (return_step t s) xs"
proof -
  let ?s' = "set_pc t (TCas a n u) (s\<lparr>c_next := (c_next s)(a := n)\<rparr>)"
  note ok = cinvD(2) [OF inv]
  have a: "a \<notin> set xs" using ok p unfolding owners_ok_def by (metis owner.simps(5))
  have uniq: "i = t" if "owner (c_pc s i) = Some a" for i
    using ok p that unfolding owners_ok_def by (metis owner.simps(5))
  have "owners_ok ?s' xs" using p by (intro owners_same [OF ok]) auto
  moreover have "counts_ok N ?s' xs"
    using cinvD(3) [OF inv] t p by (simp add: counts_ok_def cnt_upd)
  moreover have "pc_ok (uids w k) ?s' (c_pc s i)" if "i \<noteq> t" for i
  proof (rule pc_ok_cong [of "uids w k" _ s])
    fix m v nx
    assume "c_node ?s' = Some m"
    then have "m \<in> set xs" using cinvD(1,6) [OF inv] by (cases xs) auto
    then have "c_next ?s' m = c_next s m" using a by auto
    then show "c_uid ?s' = v \<Longrightarrow> c_node s = Some m \<and> c_uid s = v \<and> c_next ?s' m = c_next s m"
      using \<open>c_node ?s' = Some m\<close> by simp
  qed (use cinvD(4) [OF inv, of i] uniq [of i] that in auto)
  ultimately have "cinv w k N ?s' xs"
    using cinvD(1,6) [OF inv] a by (intro cinv_move [OF inv t, of _ "TCas a n u"]) auto
  then show ?thesis using p by (simp add: return_step_def)
qed

lemma cinv_TCas:
  assumes inv: "cinv w k N s xs" and t: "t < N" and p: "c_pc s t = TCas a n u" and few: "k + 1 < 2 ^ 64"
  shows "\<exists>k' xs'. k' \<le> k + 1 \<and> cinv w k' N (return_step t s) xs'"
proof (cases "c_node s = n \<and> c_uid s = u")
  case True
  let ?s' = "set_pc t (TInc a) (s\<lparr>c_node := Some a, c_uid := u + 1\<rparr>)"
  note ok = cinvD(2) [OF inv]
  have a: "a \<notin> set xs" "a \<notin> c_held s" using ok p unfolding owners_ok_def by (metis owner.simps(6))+
  have new: "c_uid s + 1 \<notin> uids w k" using uids_fresh [OF few] cinvD(6) [OF inv] by simp
  have nx: "c_next s a = n" using cinvD(4) [OF inv, of t] p by simp
  have "owners_ok ?s' (a # xs)"
    using owners_okD [OF ok] p a by (intro owners_give [OF ok, of t a "TInc a"]) auto
  moreover have "counts_ok N ?s' (a # xs)"
    using cinvD(3) [OF inv] t p by (simp add: counts_ok_def cnt_upd)
  moreover have "pc_ok (uids w (k + 1)) ?s' (c_pc s i)" for i
    by (rule pc_ok_cong [of "uids w k" _ s]) (use cinvD(4) [OF inv, of i] True new uids_mono [of k "k + 1"] in auto)
  ultimately have "cinv w (k + 1) N ?s' (a # xs)"
    using cinvD(1,6) [OF inv] nx True by (intro cinv_move [OF inv t, of _ "TInc a"]) auto
  then show ?thesis using p True by (intro exI [of _ "k + 1"] exI [of _ "a # xs"]) (simp add: return_step_def)
next
  case False
  have "cinv w k N (set_pc t (TNext a (c_node s) (c_uid s)) s) xs"
    using p by (auto intro!: cinv_local [OF inv t] counts_plain [OF inv t])
  then show ?thesis using p False by (intro exI [of _ k] exI [of _ xs]) (auto simp: return_step_def)
qed

lemma cinv_call:
  assumes inv: "cinv w k N s xs" and t: "t < N" and p: "c_pc s t = Idle"
  shows "cinv w k N (call_step t r s) xs"
proof (cases r)
  case CallRent
  let ?q = "if c_cached s - 1 < 0 then RNeg else RNode"
  have "counts_ok N (set_pc t ?q (s\<lparr>c_cached := c_cached s - 1\<rparr>)) xs"
    using cinvD(3) [OF inv] t p cnt_nonneg(3) [of N "c_pc s"] by (simp add: counts_ok_def cnt_upd)
  then have "cinv w k N (set_pc t ?q (s\<lparr>c_cached := c_cached s - 1\<rparr>)) xs"
    using p by (intro cinv_local [OF inv t]) auto
  then show ?thesis using CallRent by (simp add: call_step_def Let_def)
next
  case (CallReturn a)
  show ?thesis
  proof (cases "a \<in> c_held s")
    case True
    let ?s' = "set_pc t (TNode a) (s\<lparr>c_held := c_held s - {a}\<rparr>)"
    note ok = cinvD(2) [OF inv]
    have "owners_ok ?s' xs"
      using owners_okD [OF ok] p True by (intro owners_take [OF ok, of t "TNode a" a]) auto
    moreover have "card (c_held s) = Suc (card (c_held s - {a}))"
      using held_finite [OF ok] True by (metis card_Suc_Diff1)
    then have "counts_ok N ?s' xs"
      using cinvD(3) [OF inv] t p by (simp add: counts_ok_def cnt_upd)
    moreover have "pc_ok (uids w k) ?s' (c_pc s i)" for i
      by (rule pc_ok_cong [of "uids w k" _ s]) (use cinvD(4) [OF inv, of i] in auto)
    ultimately have "cinv w k N ?s' xs"
      using cinvD(1,6) [OF inv] by (intro cinv_move [OF inv t, of _ "TNode a"]) auto
    then show ?thesis using CallReturn True by (simp add: call_step_def)
  qed (use inv CallReturn in \<open>simp add: call_step_def\<close>)
qed

subsection \<open>All interleavings\<close>

lemma cinv_thread_step:
  assumes inv: "cinv w k N s xs" and few: "k + 1 < 2 ^ 64"
  shows "\<exists>k' xs'. k' \<le> k + 1 \<and> cinv w k' N (thread_step N e s) xs'"
proof -
  obtain t r where e: "e = (t, r)" by force
  have same: "\<exists>k' xs'. k' \<le> k + 1 \<and> cinv w k' N s' xs'" if "cinv w k N s' xs" for s'
    using that by (intro exI [of _ k] exI [of _ xs]) simp
  show ?thesis
  proof (cases "t < N")
    case t: True
    note local = cinv_rent_local [OF inv t, THEN same] cinv_RAlloc [OF inv t, THEN same] cinv_RCas [OF inv t _ few]
      cinv_RGot [OF inv t, THEN same] cinv_return_local [OF inv t, THEN same] cinv_TNext [OF inv t, THEN same]
      cinv_TCas [OF inv t _ few] cinv_call [OF inv t, of r, THEN same]
    show ?thesis
      using local cinvD(4) [OF inv, of t] t
      by (cases "c_pc s t") (simp_all add: thread_step_def e)
  next
    case False
    then show ?thesis using same [OF inv] by (simp add: thread_step_def e)
  qed
qed

lemma cinv_init: "cinv u 0 N (cpool_init u) []"
  by (simp add: cinv_defs cpool_init_def cnt_def)

lemma cinv_fold:
  assumes "cinv w k N s xs" "k + length sched < 2 ^ 64"
  shows "\<exists>k' xs'. cinv w k' N (fold (thread_step N) sched s) xs'"
  using assms
proof (induction sched arbitrary: s k xs)
  case (Cons e sched)
  obtain k' xs' where "k' \<le> k + 1" "cinv w k' N (thread_step N e s) xs'"
    using cinv_thread_step [OF Cons.prems(1)] Cons.prems(2) by fastforce
  then show ?case using Cons.IH [of k'] Cons.prems(2) by simp
qed auto

lemma cinv_run: "length sched < 2 ^ 64 \<Longrightarrow> \<exists>k xs. cinv u k N (cpool_run N sched (cpool_init u)) xs"
  unfolding cpool_run_def by (rule cinv_fold [OF cinv_init]) simp

text \<open>A step changes no counter by more than one, so that none leaves its 64 bits in fewer than \<open>2\<^sup>63\<close> steps.\<close>

definition counter_gap :: "cpool \<Rightarrow> cpool \<Rightarrow> int" where
  "counter_gap s s' = max \<bar>c_cached s' - c_cached s\<bar> (max \<bar>c_used s' - c_used s\<bar> \<bar>c_max s' - c_max s\<bar>)"

lemma counter_gap_step: "counter_gap s (thread_step N e s) \<le> 1"
proof -
  have "counter_gap s (call_step t r s) \<le> 1" for t r by (simp add: counter_gap_def call_step_def Let_def split: request.split)
  moreover have "counter_gap s (rent_step t s) \<le> 1" for t
    by (simp add: counter_gap_def rent_step_def split: pc.split option.split)
  moreover have "counter_gap s (return_step t s) \<le> 1" for t by (simp add: counter_gap_def return_step_def split: pc.split)
  moreover have "counter_gap s s \<le> 1" by (simp add: counter_gap_def)
  ultimately show ?thesis by (simp add: thread_step_def split: prod.split)
qed

lemma counter_gap_run: "counter_gap s (fold (thread_step N) sched s) \<le> int (length sched)"
proof (induction sched arbitrary: s)
  case (Cons e sched)
  let ?s = "thread_step N e s"
  have tri: "\<bar>c - a\<bar> \<le> 1 + n" if "\<bar>b - a\<bar> \<le> 1" "\<bar>c - b\<bar> \<le> n" for a b c n :: int using that by arith
  show ?case
    using Cons.IH [of ?s] counter_gap_step [of s N e] by (auto simp: counter_gap_def intro: tri [of "_ ?s"])
qed (simp add: counter_gap_def)

subsection \<open>Properties\<close>

text \<open>
  C26. Under every schedule of any number of threads that call \<^verbatim>\<open>Rent\<close> and \<^verbatim>\<open>Return\<close> on the lock-free pool, of fewer than \<open>2\<^sup>63\<close> steps
  and from any first value of \<^verbatim>\<open>UID\<close>, which may go round: no thread reads through a null head; the free list is a list of distinct nodes;
  every node that was allocated is in exactly one place, on the free list, with a client, or in the hands of one thread; so no object is
  given to two clients and none is lost; and no counter leaves its 64 bits.
\<close>

theorem concurrent_pool_safe:
  assumes "length sched < 2 ^ 63"
  shows "\<exists>xs. let s = cpool_run N sched (cpool_init u); inside = {a. \<exists>t. owner (c_pc s t) = Some a} in
     (\<forall>t. c_pc s t \<noteq> Crashed) \<and> nchain (c_next s) (c_node s) xs \<and> distinct xs \<and>
     set xs \<union> c_held s \<union> inside = {..<c_alloc s} \<and>
     set xs \<inter> c_held s = {} \<and> inside \<inter> (set xs \<union> c_held s) = {} \<and>
     card inside = card {t. owner (c_pc s t) \<noteq> None} \<and>
     \<bar>c_cached s\<bar> < 2 ^ 63 \<and> \<bar>c_used s\<bar> < 2 ^ 63 \<and> \<bar>c_max s\<bar> < 2 ^ 63"
proof -
  let ?s = "cpool_run N sched (cpool_init u)"
  obtain k xs where inv: "cinv u k N ?s xs" using cinv_run [of sched u N] assms by auto
  have crash: "c_pc ?s t \<noteq> Crashed" for t using cinvD(4) [OF inv, of t] by auto
  have "{a. \<exists>t. owner (c_pc ?s t) = Some a} = (\<lambda>t. the (owner (c_pc ?s t))) ` {t. owner (c_pc ?s t) \<noteq> None}" by force
  moreover have "inj_on (\<lambda>t. the (owner (c_pc ?s t))) {t. owner (c_pc ?s t) \<noteq> None}"
    using cinvD(2) [OF inv] unfolding owners_ok_def inj_on_def by force
  ultimately have "card {a. \<exists>t. owner (c_pc ?s t) = Some a} = card {t. owner (c_pc ?s t) \<noteq> None}" by (simp add: card_image)
  moreover have len: "int (length sched) < 2 ^ 63" using assms by (metis of_nat_less_iff of_nat_numeral of_nat_power)
  have "max \<bar>c_cached ?s\<bar> (max \<bar>c_used ?s\<bar> \<bar>c_max ?s\<bar>) < 2 ^ 63"
    using le_less_trans [OF counter_gap_run len, of "cpool_init u" N] by (simp only: counter_gap_def cpool_run_def) (simp add: cpool_init_def)
  then have "\<bar>c_cached ?s\<bar> < 2 ^ 63" "\<bar>c_used ?s\<bar> < 2 ^ 63" "\<bar>c_max ?s\<bar> < 2 ^ 63" by (simp_all only: max_less_iff_conj)
  ultimately show ?thesis
    using crash inv unfolding Let_def cinv_def owners_ok_def by (intro exI [of _ xs]) auto
qed

text \<open>The witness: \<^verbatim>\<open>UID\<close> goes round while an object is rented, returned and rented again.\<close>

theorem concurrent_pool_safe_witness:
  "let s = cpool_run 2 (replicate 5 (0, CallRent) @ replicate 7 (0, CallReturn 0) @ replicate 6 (1, CallRent)) (cpool_init (- 1)) in
     c_uid s = 1 \<and> c_held s = {0} \<and> c_alloc s = 1 \<and> (\<exists>xs. nchain (c_next s) (c_node s) xs \<and> distinct xs \<and> 0 \<notin> set xs)"
proof -
  let ?sched = "replicate 5 (0, CallRent) @ replicate 7 (0, CallReturn 0) @ replicate 6 (1, CallRent)"
  let ?s = "cpool_run 2 ?sched (cpool_init (- 1))"
  let ?s1 = "cpool_run 2 (replicate 5 (0, CallRent)) (cpool_init (- 1))"
  let ?s2 = "cpool_run 2 (replicate 7 (0, CallReturn 0)) ?s1"
  have s1: "?s1 = (cpool_init (- 1))\<lparr>c_alloc := 1, c_max := 1, c_used := 1, c_held := {0}\<rparr>"
    by (simp add: cpool_run_def cpool_init_def thread_step_def call_step_def rent_step_def set_pc_def fun_eq_iff eval_nat_numeral)
  have s2: "?s2 = (cpool_init 0)\<lparr>c_alloc := 1, c_node := Some 0, c_max := 1, c_cached := 1\<rparr>"
    unfolding s1
    by (simp add: cpool_run_def cpool_init_def thread_step_def call_step_def return_step_def set_pc_def fun_eq_iff eval_nat_numeral)
  have s3: "cpool_run 2 (replicate 6 (1, CallRent)) ?s2 = (cpool_init 1)\<lparr>c_alloc := 1, c_max := 1, c_used := 1, c_held := {0}\<rparr>"
    unfolding s2
    by (simp add: cpool_run_def cpool_init_def thread_step_def call_step_def rent_step_def set_pc_def fun_eq_iff eval_nat_numeral)
  have "?s = cpool_run 2 (replicate 6 (1, CallRent)) ?s2" by (simp only: cpool_run_def fold_append comp_apply)
  note s = this [unfolded s3]
  have "length ?sched < 2 ^ 63" by simp
  from concurrent_pool_safe [OF this, of 2 "- 1"]
  have "\<exists>xs. nchain (c_next ?s) (c_node ?s) xs \<and> distinct xs \<and> set xs \<inter> c_held ?s = {}" unfolding Let_def by blast
  then show ?thesis unfolding s Let_def by (simp add: cpool_init_def)
qed

text \<open>
  When no thread is inside the pool, whatever happened before, the counters are exact: \<^verbatim>\<open>mUsedSize\<close> is the number
  of objects with clients, \<^verbatim>\<open>mCachedSize\<close> the length of the free list, \<^verbatim>\<open>mMaxCapacity\<close> the number of nodes.
\<close>

theorem concurrent_pool_counters:
  assumes "length sched < 2 ^ 63" "\<forall>t<N. c_pc (cpool_run N sched (cpool_init u)) t = Idle"
  shows "\<exists>xs. let s = cpool_run N sched (cpool_init u) in
     nchain (c_next s) (c_node s) xs \<and> c_cached s = int (length xs) \<and> c_used s = int (card (c_held s)) \<and>
     c_max s = int (c_alloc s) \<and> c_max s = c_cached s + c_used s"
proof -
  let ?s = "cpool_run N sched (cpool_init u)"
  obtain k xs where inv: "cinv u k N ?s xs" using cinv_run [of sched u N] assms(1) by auto
  have idle: "c_pc ?s t = Idle" for t using assms(2) cinvD(5) [OF inv, of t] by (cases "t < N") auto
  then have z: "cnt N reserving (c_pc ?s) = 0" "cnt N uncounted (c_pc ?s) = 0" "cnt N below_zero (c_pc ?s) = 0"
    "cnt N returning (c_pc ?s) = 0" "cnt N growing (c_pc ?s) = 0" by (simp_all add: cnt_def)
  have "owner (c_pc ?s t) = None" for t using idle by simp
  then have o: "distinct xs" "set xs \<inter> c_held ?s = {}" "set xs \<union> c_held ?s = {..<c_alloc ?s}"
    using cinvD(2) [OF inv] by (auto simp: owners_ok_def)
  have "card (set xs) + card (c_held ?s) = c_alloc ?s"
    using card_Un_disjoint [of "set xs" "c_held ?s"] o(2,3) held_finite [OF cinvD(2) [OF inv]] by simp
  then show ?thesis
    using inv z o(1) unfolding Let_def cinv_def counts_ok_def by (intro exI [of _ xs]) (auto simp: distinct_card)
qed

theorem concurrent_pool_counters_witness:
  "\<exists>xs. let s = cpool_run 2 (replicate 5 (1, CallRent)) (cpool_init 0) in
     nchain (c_next s) (c_node s) xs \<and> c_cached s = int (length xs) \<and> c_used s = int (card (c_held s)) \<and>
     c_max s = int (c_alloc s) \<and> c_max s = c_cached s + c_used s"
proof (rule concurrent_pool_counters)
  show "length (replicate 5 (1 :: nat, CallRent)) < 2 ^ 63" by simp
  show "\<forall>t<2. c_pc (cpool_run 2 (replicate 5 (1, CallRent)) (cpool_init 0)) t = Idle"
    by (simp add: cpool_run_def cpool_init_def thread_step_def call_step_def rent_step_def set_pc_def eval_nat_numeral less_Suc_eq)
qed

end
