(* ===== verification/Sector.thy ===== *)
theory Sector
  imports Prelude
begin

text \<open>
  The grid of sectors: \<^verbatim>\<open>int2\<close> (\<^verbatim>\<open>int2.cpp\<close>), \<^verbatim>\<open>SectorAround\<close> and
  \<^verbatim>\<open>nf::network::server::net::manager::sector::SectorManager\<close> (\<^verbatim>\<open>SectorManager.cpp\<close>). A user is an address;
  \<open>ss_users\<close> holds what the code keeps in the user through \<^verbatim>\<open>ISectorUser\<close>. A sector's \<^verbatim>\<open>std::list\<close> is a list of
  addresses. The index of a sector is computed as the code does it and checked against the array. Coordinates are
  \<open>int\<close>: the code computes in \<^verbatim>\<open>int32_t\<close>, and the grids and positions are far below its range.
\<close>

subsection \<open>int2\<close>

record int2 =
  i2_X :: int
  i2_Y :: int

definition mk_int2 :: "int \<Rightarrow> int \<Rightarrow> int2" where
  "mk_int2 x y = \<lparr>i2_X = x, i2_Y = y\<rparr>"

definition int2_eq :: "int2 \<Rightarrow> int2 \<Rightarrow> bool" where
  "int2_eq a b = (if i2_X a \<noteq> i2_X b then False else if i2_Y a \<noteq> i2_Y b then False else True)"

definition int2_neq :: "int2 \<Rightarrow> int2 \<Rightarrow> bool" where
  "int2_neq a b = (\<not> int2_eq a b)"

definition int2_add :: "int2 \<Rightarrow> int2 \<Rightarrow> int2" where
  "int2_add a b = mk_int2 (i2_X a + i2_X b) (i2_Y a + i2_Y b)"

definition int2_sub :: "int2 \<Rightarrow> int2 \<Rightarrow> int2" where
  "int2_sub a b = mk_int2 (i2_X a - i2_X b) (i2_Y a - i2_Y b)"

definition int2_mul :: "int2 \<Rightarrow> int2 \<Rightarrow> int2" where
  "int2_mul a b = mk_int2 (i2_X a * i2_X b) (i2_Y a * i2_Y b)"

text \<open>The hash combines what \<^verbatim>\<open>std::hash<int32_t>\<close> gives for the coordinates, which is an argument.\<close>

definition int2_hash :: "(int \<Rightarrow> u64) \<Rightarrow> int2 \<Rightarrow> u64" where
  "int2_hash h k = (let r = 17 * 31 + h (i2_X k) in r * 31 + h (i2_Y k))"

lemma int2_eq_iff [simp]: "int2_eq a b \<longleftrightarrow> a = b"
  by (cases a; cases b) (auto simp: int2_eq_def)

lemma int2_neq_iff [simp]: "int2_neq a b \<longleftrightarrow> a \<noteq> b"
  by (simp add: int2_neq_def)

lemma mk_int2_sel [simp]: "i2_X (mk_int2 x y) = x" "i2_Y (mk_int2 x y) = y" "mk_int2 x y = mk_int2 x' y' \<longleftrightarrow> x = x' \<and> y = y'"
  by (simp_all add: mk_int2_def)

subsection \<open>Neighbourhoods\<close>

text \<open>
  \<^verbatim>\<open>GetSectorAround\<close>: two nested loops over the rows and the columns around a position append to an array of nine
  elements.
\<close>

definition put_around :: "int2 \<Rightarrow> int2 list \<Rightarrow> int2 list res" where
  "put_around p acc = (if length acc < 9 then Inr (acc @ [p]) else Inl MemFault)"

fun around_cols :: "int \<Rightarrow> int \<Rightarrow> int list \<Rightarrow> int2 list \<Rightarrow> int2 list res" where
  "around_cols mWidth y [] acc = Inr acc"
| "around_cols mWidth y (x # xs) acc =
     rbind (if 0 \<le> x \<and> x < mWidth then put_around (mk_int2 x y) acc else Inr acc) (around_cols mWidth y xs)"

fun around_rows :: "int \<Rightarrow> int \<Rightarrow> int \<Rightarrow> int list \<Rightarrow> int2 list \<Rightarrow> int2 list res" where
  "around_rows mWidth mHeight sectorX [] acc = Inr acc"
| "around_rows mWidth mHeight sectorX (y # ys) acc =
     rbind (if 0 \<le> y \<and> y < mHeight then around_cols mWidth y [sectorX - 1..sectorX + 1] acc else Inr acc)
       (around_rows mWidth mHeight sectorX ys)"

definition GetSectorAround :: "int \<Rightarrow> int \<Rightarrow> int \<Rightarrow> int \<Rightarrow> int2 list \<Rightarrow> int2 list res" where
  "GetSectorAround mWidth mHeight sectorX sectorY sectorAround =
     around_rows mWidth mHeight sectorX [sectorY - 1..sectorY + 1] sectorAround"

definition in_grid :: "int \<Rightarrow> int \<Rightarrow> int2 \<Rightarrow> bool" where
  "in_grid w h p \<longleftrightarrow> 0 \<le> i2_X p \<and> i2_X p < w \<and> 0 \<le> i2_Y p \<and> i2_Y p < h"

definition near :: "int2 \<Rightarrow> int2 \<Rightarrow> bool" where
  "near p q \<longleftrightarrow> \<bar>i2_X p - i2_X q\<bar> \<le> 1 \<and> \<bar>i2_Y p - i2_Y q\<bar> \<le> 1"

definition around :: "int \<Rightarrow> int \<Rightarrow> int2 \<Rightarrow> int2 list" where
  "around w h p =
     concat (map (\<lambda>y. map (\<lambda>x. mk_int2 x y) (filter (\<lambda>x. 0 \<le> x \<and> x < w) [i2_X p - 1..i2_X p + 1]))
       (filter (\<lambda>y. 0 \<le> y \<and> y < h) [i2_Y p - 1..i2_Y p + 1]))"

lemma upto3: "[a - 1..a + 1] = [a - 1, a, a + 1 :: int]"
  by (simp add: upto_rec1)

lemma around_cols_eq:
  "length acc + length xs \<le> 9 \<Longrightarrow>
   around_cols w y xs acc = Inr (acc @ map (\<lambda>x. mk_int2 x y) (filter (\<lambda>x. 0 \<le> x \<and> x < w) xs))"
  by (induction xs arbitrary: acc) (auto simp: put_around_def)

lemma around_rows_eq:
  "length acc + 3 * length ys \<le> 9 \<Longrightarrow>
   around_rows w h x ys acc = Inr (acc @ concat (map (\<lambda>y. map (\<lambda>x. mk_int2 x y) (filter (\<lambda>x. 0 \<le> x \<and> x < w) [x - 1..x + 1]))
     (filter (\<lambda>y. 0 \<le> y \<and> y < h) ys)))"
proof (induction ys arbitrary: acc)
  case Nil
  then show ?case by simp
next
  case (Cons y ys)
  let ?row = "map (\<lambda>x. mk_int2 x y) (filter (\<lambda>x. 0 \<le> x \<and> x < w) [x - 1..x + 1])"
  have "length ?row \<le> 3" by (simp add: upto3 del: upto.simps)
  moreover have "around_cols w y [x - 1..x + 1] acc = Inr (acc @ ?row)"
    using Cons.prems by (intro around_cols_eq) simp
  ultimately show ?case using Cons.prems Cons.IH [of "acc @ ?row"] Cons.IH [of acc] by simp
qed

lemma GetSectorAround_eq: "GetSectorAround w h (i2_X p) (i2_Y p) [] = Inr (around w h p)"
  unfolding GetSectorAround_def around_def by (subst around_rows_eq) simp_all

lemma set_around: "set (around w h p) = {q. in_grid w h q \<and> near p q}"
proof -
  have "q \<in> set (around w h p) \<longleftrightarrow> in_grid w h q \<and> near p q" for q
    by (cases q) (auto simp: around_def in_grid_def near_def mk_int2_def image_iff abs_le_iff)
  then show ?thesis by blast
qed

lemma distinct_concat_rows:
  assumes "distinct ys" "distinct xs"
  shows "distinct (concat (map (\<lambda>y. map (\<lambda>x. mk_int2 x y) xs) ys))"
  using assms by (induction ys) (auto simp: distinct_map inj_on_def)

lemma distinct_around: "distinct (around w h p)"
  unfolding around_def by (rule distinct_concat_rows) simp_all

lemma around_corner: "0 < w \<Longrightarrow> 0 < h \<Longrightarrow> around w h (mk_int2 (- 1) (- 1)) = [mk_int2 0 0]"
  by (simp add: around_def upto3 upto_rec1)

subsection \<open>SectorManager\<close>

record SectorUser =
  su_X :: int
  su_Y :: int
  su_OldSectorPos :: int2
  su_CurSectorPos :: int2

record SectorManager =
  ss_mWidth :: int
  ss_mHeight :: int
  ss_mSector :: "nat list list"
  ss_users :: "nat \<Rightarrow> SectorUser"

definition SectorManager_Create :: "int \<Rightarrow> int \<Rightarrow> (nat \<Rightarrow> SectorUser) \<Rightarrow> SectorManager" where
  "SectorManager_Create width height users =
     \<lparr>ss_mWidth = width, ss_mHeight = height, ss_mSector = replicate (nat width * nat height) [], ss_users = users\<rparr>"

text \<open>The index of a sector's list; \<^verbatim>\<open>static_cast<size_t>\<close> makes a negative index huge.\<close>

definition sector_at :: "int \<Rightarrow> nat list list \<Rightarrow> int2 \<Rightarrow> nat res" where
  "sector_at mWidth mSector pos =
     (let k = i2_Y pos * mWidth + i2_X pos in
      if 0 \<le> k \<and> nat k < length mSector then Inr (nat k) else Inl MemFault)"

definition GetSectorUsersInSector :: "int2 \<Rightarrow> SectorManager \<Rightarrow> nat list res" where
  "GetSectorUsersInSector pos s = rbind (sector_at (ss_mWidth s) (ss_mSector s) pos) (\<lambda>k. Inr (ss_mSector s ! k))"

text \<open>Division truncates towards zero; a width or height of 0 is excluded by the invariant below.\<close>

definition cdiv :: "int \<Rightarrow> int \<Rightarrow> int" where
  "cdiv a b = sgn a * sgn b * (\<bar>a\<bar> div \<bar>b\<bar>)"

definition GetNowSectorPosFromSectorUser :: "nat \<Rightarrow> SectorManager \<Rightarrow> int2" where
  "GetNowSectorPosFromSectorUser user s =
     mk_int2 (cdiv (su_X (ss_users s user)) (ss_mWidth s)) (cdiv (su_Y (ss_users s user)) (ss_mHeight s))"

definition AddSectorUser :: "nat \<Rightarrow> SectorManager \<Rightarrow> SectorManager res" where
  "AddSectorUser user s =
     (let nowSectorPos = GetNowSectorPosFromSectorUser user s in
      rbind (sector_at (ss_mWidth s) (ss_mSector s) nowSectorPos) (\<lambda>k.
        Inr (s\<lparr>ss_mSector := (ss_mSector s)[k := ss_mSector s ! k @ [user]],
               ss_users := (ss_users s)(user := (ss_users s user)\<lparr>su_CurSectorPos := nowSectorPos\<rparr>)\<rparr>)))"

text \<open>Erasing what \<^verbatim>\<open>std::find\<close> did not find is undefined.\<close>

definition DelSectorUser :: "nat \<Rightarrow> SectorManager \<Rightarrow> SectorManager res" where
  "DelSectorUser user s =
     (let curSectorPos = su_CurSectorPos (ss_users s user) in
      rbind (sector_at (ss_mWidth s) (ss_mSector s) curSectorPos) (\<lambda>k.
        if user \<notin> set (ss_mSector s ! k) then Inl MemFault
        else Inr (s\<lparr>ss_mSector := (ss_mSector s)[k := remove1 user (ss_mSector s ! k)],
               ss_users := (ss_users s)(user := (ss_users s user)\<lparr>su_OldSectorPos := curSectorPos\<rparr>)\<rparr>)))"

definition UpdateSectorUser :: "nat \<Rightarrow> SectorManager \<Rightarrow> (SectorManager \<times> bool) res" where
  "UpdateSectorUser user s =
     (let nowSectorPos = GetNowSectorPosFromSectorUser user s; curSectorPos = su_CurSectorPos (ss_users s user) in
      if int2_eq nowSectorPos curSectorPos then Inr (s, False)
      else rbind (DelSectorUser user s) (\<lambda>s. rbind (AddSectorUser user s) (\<lambda>s. Inr (s, True))))"

text \<open>The sectors that come into and go out of view, each compared with all of the other list.\<close>

fun is_found :: "int2 \<Rightarrow> int2 list \<Rightarrow> bool" where
  "is_found p [] = False"
| "is_found p (q # qs) = (if int2_eq p q then True else is_found p qs)"

fun not_found :: "int2 list \<Rightarrow> int2 list \<Rightarrow> int2 list \<Rightarrow> int2 list res" where
  "not_found [] others acc = Inr acc"
| "not_found (p # ps) others acc =
     rbind (if is_found p others then Inr acc else put_around p acc) (not_found ps others)"

definition GetUpdateSectorAround :: "nat \<Rightarrow> SectorManager \<Rightarrow> (int2 list \<times> int2 list) res" where
  "GetUpdateSectorAround user s =
     (let old = su_OldSectorPos (ss_users s user); cur = su_CurSectorPos (ss_users s user) in
      rbind (GetSectorAround (ss_mWidth s) (ss_mHeight s) (i2_X old) (i2_Y old) []) (\<lambda>oldSectorAround.
      rbind (GetSectorAround (ss_mWidth s) (ss_mHeight s) (i2_X cur) (i2_Y cur) []) (\<lambda>curSectorAround.
      rbind (not_found oldSectorAround curSectorAround []) (\<lambda>willRemoveSector.
      rbind (not_found curSectorAround oldSectorAround []) (\<lambda>willAddSector.
        Inr (willRemoveSector, willAddSector))))))"

fun users_in :: "int2 list \<Rightarrow> SectorManager \<Rightarrow> nat list res" where
  "users_in [] s = Inr []"
| "users_in (p # ps) s =
     rbind (GetSectorUsersInSector p s) (\<lambda>us. rbind (users_in ps s) (\<lambda>vs. Inr (us @ vs)))"

definition GetAroundSectorUsers :: "nat \<Rightarrow> SectorManager \<Rightarrow> nat set res" where
  "GetAroundSectorUsers user s =
     (let cur = su_CurSectorPos (ss_users s user) in
      rbind (GetSectorAround (ss_mWidth s) (ss_mHeight s) (i2_X cur) (i2_Y cur) []) (\<lambda>sectorAround.
      rbind (users_in sectorAround s) (\<lambda>us. Inr (set us - {user}))))"

text \<open>
  The two sending functions: the users that are sent the packet, in order, and the references that were added to it
  before.
\<close>

definition SendAroundExcept :: "nat \<Rightarrow> SectorManager \<Rightarrow> (nat list \<times> nat) res" where
  "SendAroundExcept user s =
     (let cur = su_CurSectorPos (ss_users s user) in
      rbind (GetSectorAround (ss_mWidth s) (ss_mHeight s) (i2_X cur) (i2_Y cur) []) (\<lambda>sectorAround.
      rbind (users_in sectorAround s) (\<lambda>us.
        let rs = filter (\<lambda>u. u \<noteq> user) us in Inr (rs, length rs))))"

definition SendAround :: "int2 \<Rightarrow> SectorManager \<Rightarrow> (nat list \<times> nat) res" where
  "SendAround sectorPos s =
     rbind (GetSectorAround (ss_mWidth s) (ss_mHeight s) (i2_X sectorPos) (i2_Y sectorPos) []) (\<lambda>sectorAround.
     rbind (users_in sectorAround s) (\<lambda>us. Inr (us, length us)))"

subsection \<open>The interface\<close>

text \<open>
  What a manager of sectors promises: a user can be put at a place of the grid and taken away, and a message that
  is sent around a position reaches exactly the users at distance at most one, each once. The abstract state
  is the map from the users that are present to their positions.
\<close>

locale sector_grid =
  fixes inv :: "'s \<Rightarrow> (nat \<rightharpoonup> int2) \<Rightarrow> bool"
    and grid :: "'s \<Rightarrow> int2 \<Rightarrow> bool"
    and dest :: "'p \<Rightarrow> nat \<Rightarrow> 's \<Rightarrow> int2"
    and enter :: "'p \<Rightarrow> nat \<Rightarrow> 's \<Rightarrow> 's res"
    and leave :: "nat \<Rightarrow> 's \<Rightarrow> 's res"
    and reach :: "int2 \<Rightarrow> 's \<Rightarrow> nat list res"
  assumes enter: "inv s m \<Longrightarrow> m u = None \<Longrightarrow> grid s (dest p u s) \<Longrightarrow>
      \<exists>s'. enter p u s = Inr s' \<and> inv s' (m(u \<mapsto> dest p u s)) \<and> grid s' = grid s \<and> (\<forall>r v. dest r v s' = dest r v s)"
    and leave: "inv s m \<Longrightarrow> m u \<noteq> None \<Longrightarrow>
      \<exists>s'. leave u s = Inr s' \<and> inv s' (m(u := None)) \<and> grid s' = grid s \<and> (\<forall>r v. dest r v s' = dest r v s)"
    and reach: "inv s m \<Longrightarrow>
      \<exists>us. reach c s = Inr us \<and> distinct us \<and> set us = {u. \<exists>q. m u = Some q \<and> near c q}"
begin

text \<open>Moving is leaving and entering; afterwards messages reach the user at the new place only.\<close>

lemma move:
  assumes "inv s m" "m u \<noteq> None" "grid s (dest p u s)"
  shows "\<exists>s'. rbind (leave u s) (enter p u) = Inr s' \<and> inv s' (m(u \<mapsto> dest p u s)) \<and> grid s' = grid s"
proof -
  obtain s1 where s1: "leave u s = Inr s1" "inv s1 (m(u := None))" "grid s1 = grid s" "\<forall>r v. dest r v s1 = dest r v s"
    using leave [OF assms(1,2)] by blast
  then obtain s2 where "enter p u s1 = Inr s2" "inv s2 ((m(u := None))(u \<mapsto> dest p u s))" "grid s2 = grid s1"
    using enter [OF s1(2), of u p] assms(3) by auto
  then show ?thesis using s1 by simp
qed

lemma reach_moved:
  assumes "inv s m" "m u \<noteq> None" "grid s (dest p u s)" "rbind (leave u s) (enter p u) = Inr s'"
  shows "\<exists>us. reach q s' = Inr us \<and> (u \<in> set us \<longleftrightarrow> near q (dest p u s))"
  using move [OF assms(1-3)] assms(4) reach [of s' "m(u \<mapsto> dest p u s)" q] by auto

end

subsection \<open>Grids of lists\<close>

text \<open>Both managers keep the grid as an array of lists.\<close>

definition cell :: "int \<Rightarrow> int2 \<Rightarrow> nat" where
  "cell w p = nat (i2_Y p * w + i2_X p)"

definition grid_inv :: "int \<Rightarrow> int \<Rightarrow> nat list list \<Rightarrow> (nat \<rightharpoonup> int2) \<Rightarrow> bool" where
  "grid_inv w h sec m \<longleftrightarrow>
     0 < w \<and> 0 < h \<and> length sec = nat w * nat h \<and> (\<forall>u p. m u = Some p \<longrightarrow> in_grid w h p) \<and>
     (\<forall>k < length sec. distinct (sec ! k) \<and> set (sec ! k) = {u. \<exists>p. m u = Some p \<and> cell w p = k})"

lemma cell_bound:
  assumes "in_grid w h p"
  shows "cell w p < nat w * nat h" "0 \<le> i2_Y p * w + i2_X p"
proof -
  have p: "0 \<le> i2_X p" "i2_X p < w" "0 \<le> i2_Y p" "i2_Y p \<le> h - 1" using assms by (auto simp: in_grid_def)
  then show n: "0 \<le> i2_Y p * w + i2_X p" by simp
  have "i2_Y p * w \<le> (h - 1) * w" using p by (intro mult_right_mono) auto
  then have "i2_Y p * w + i2_X p < h * w" using p by (simp add: left_diff_distrib)
  then show "cell w p < nat w * nat h"
    using n p unfolding cell_def by (simp add: nat_mult_distrib [symmetric] mult.commute)
qed

lemma cell_inj:
  assumes "in_grid w h p" "in_grid w h q" "cell w p = cell w q"
  shows "p = q"
proof -
  have eq: "i2_Y p * w + i2_X p = i2_Y q * w + i2_X q"
    using assms cell_bound(2) [OF assms(1)] cell_bound(2) [OF assms(2)] by (simp add: cell_def)
  have "i2_X p = (i2_Y p * w + i2_X p) mod w" "i2_X q = (i2_Y q * w + i2_X q) mod w"
    using assms by (auto simp: in_grid_def)
  then have x: "i2_X p = i2_X q" using eq by simp
  then have "i2_Y p * w = i2_Y q * w" using eq by simp
  moreover have "w \<noteq> 0" using assms by (auto simp: in_grid_def)
  ultimately show ?thesis using x by (cases p; cases q) simp
qed

lemma sector_at_ok: "grid_inv w h sec m \<Longrightarrow> in_grid w h p \<Longrightarrow> sector_at w sec p = Inr (cell w p)"
  using cell_bound [of w h p] by (simp add: sector_at_def cell_def grid_inv_def)

lemma grid_inv_enter:
  assumes inv: "grid_inv w h sec m" and u: "m u = None" and p: "in_grid w h p"
  shows "grid_inv w h (sec[cell w p := sec ! cell w p @ [u]]) (m(u \<mapsto> p))"
proof -
  have b: "cell w p < length sec" using inv cell_bound(1) [OF p] by (simp add: grid_inv_def)
  have "u \<notin> set (sec ! cell w p)" using inv u b by (auto simp: grid_inv_def)
  then show ?thesis
    using inv p u b unfolding grid_inv_def by (auto simp: nth_list_update split: if_splits)
qed

lemma grid_inv_leave:
  assumes inv: "grid_inv w h sec m" and u: "m u = Some p"
  shows "u \<in> set (sec ! cell w p)" "in_grid w h p" "grid_inv w h (sec[cell w p := remove1 u (sec ! cell w p)]) (m(u := None))"
proof -
  show p: "in_grid w h p" using inv u by (auto simp: grid_inv_def)
  have b: "cell w p < length sec" using inv cell_bound(1) [OF p] by (simp add: grid_inv_def)
  then show "u \<in> set (sec ! cell w p)" using inv u by (auto simp: grid_inv_def)
  have "distinct (sec ! k) \<and> set (sec ! k) = {u. \<exists>p. m u = Some p \<and> cell w p = k}" if "k < length sec" for k
    using inv that by (auto simp: grid_inv_def)
  then show "grid_inv w h (sec[cell w p := remove1 u (sec ! cell w p)]) (m(u := None))"
    using inv u b unfolding grid_inv_def by (auto simp: nth_list_update split: if_splits)
qed

fun cells :: "int \<Rightarrow> nat list list \<Rightarrow> int2 list \<Rightarrow> nat list res" where
  "cells w sec [] = Inr []"
| "cells w sec (p # ps) =
     rbind (sector_at w sec p) (\<lambda>k. rbind (cells w sec ps) (\<lambda>us. Inr (sec ! k @ us)))"

lemma cells_ok:
  assumes inv: "grid_inv w h sec m" and "\<forall>p \<in> set ps. in_grid w h p" "distinct ps"
  shows "\<exists>us. cells w sec ps = Inr us \<and> distinct us \<and> set us = {u. \<exists>q. m u = Some q \<and> q \<in> set ps}"
  using assms(2,3)
proof (induction ps)
  case Nil
  then show ?case by simp
next
  case (Cons p ps)
  then obtain us where us: "cells w sec ps = Inr us" "distinct us" "set us = {u. \<exists>q. m u = Some q \<and> q \<in> set ps}" by auto
  have p: "in_grid w h p" "cell w p < length sec" "sector_at w sec p = Inr (cell w p)"
    using Cons.prems cell_bound(1) [of w h p] inv sector_at_ok [OF inv] by (auto simp: grid_inv_def)
  have d: "distinct (sec ! cell w p)" and "set (sec ! cell w p) = {u. \<exists>q. m u = Some q \<and> cell w q = cell w p}"
    using inv p(2) by (auto simp: grid_inv_def)
  moreover have "m u = Some q \<Longrightarrow> cell w q = cell w p \<longleftrightarrow> q = p" for u q
    using cell_inj [of w h q p] p(1) inv by (auto simp: grid_inv_def)
  ultimately have s: "set (sec ! cell w p) = {u. m u = Some p}" by auto
  have "set (sec ! cell w p) \<inter> set us = {}" using s us(3) Cons.prems(2) by auto
  then show ?case using us p(3) d s by auto
qed

lemma reach_ok:
  assumes inv: "grid_inv w h sec m"
  shows "\<exists>us. cells w sec (around w h p) = Inr us \<and> distinct us \<and> set us = {u. \<exists>q. m u = Some q \<and> near p q}"
proof -
  have "\<exists>us. cells w sec (around w h p) = Inr us \<and> distinct us \<and> set us = {u. \<exists>q. m u = Some q \<and> q \<in> set (around w h p)}"
    by (rule cells_ok [OF inv]) (simp_all add: set_around distinct_around)
  moreover have "m u = Some q \<Longrightarrow> in_grid w h q" for u q using inv by (auto simp: grid_inv_def)
  ultimately show ?thesis by (auto simp: set_around)
qed

subsection \<open>SectorManager keeps the grid\<close>

definition sm_inv :: "SectorManager \<Rightarrow> (nat \<rightharpoonup> int2) \<Rightarrow> bool" where
  "sm_inv s m \<longleftrightarrow> grid_inv (ss_mWidth s) (ss_mHeight s) (ss_mSector s) m \<and>
     (\<forall>u p. m u = Some p \<longrightarrow> su_CurSectorPos (ss_users s u) = p)"

definition sm_grid :: "SectorManager \<Rightarrow> int2 \<Rightarrow> bool" where
  "sm_grid s = in_grid (ss_mWidth s) (ss_mHeight s)"

definition sm_reach :: "int2 \<Rightarrow> SectorManager \<Rightarrow> nat list res" where
  "sm_reach p s = rbind (SendAround p s) (\<lambda>(us, _). Inr us)"

lemma users_in_eq: "users_in ps s = cells (ss_mWidth s) (ss_mSector s) ps"
  by (induction ps) (auto simp: GetSectorUsersInSector_def rbind_assoc)

lemma AddSectorUser_ok:
  assumes "sm_inv s m" "m u = None" "sm_grid s (GetNowSectorPosFromSectorUser u s)"
  shows "\<exists>s'. AddSectorUser u s = Inr s' \<and> sm_inv s' (m(u \<mapsto> GetNowSectorPosFromSectorUser u s)) \<and> sm_grid s' = sm_grid s \<and>
    (\<forall>v. GetNowSectorPosFromSectorUser v s' = GetNowSectorPosFromSectorUser v s)"
  using assms sector_at_ok [of "ss_mWidth s" "ss_mHeight s" "ss_mSector s" m] grid_inv_enter [of "ss_mWidth s" "ss_mHeight s" "ss_mSector s" m u]
  by (auto simp: sm_inv_def sm_grid_def AddSectorUser_def Let_def GetNowSectorPosFromSectorUser_def)

lemma DelSectorUser_ok:
  assumes inv: "sm_inv s m" and u: "m u = Some p"
  shows "\<exists>s'. DelSectorUser u s = Inr s' \<and> sm_inv s' (m(u := None)) \<and> sm_grid s' = sm_grid s \<and>
    (\<forall>v. GetNowSectorPosFromSectorUser v s' = GetNowSectorPosFromSectorUser v s) \<and>
    su_OldSectorPos (ss_users s' u) = p"
proof -
  have g: "grid_inv (ss_mWidth s) (ss_mHeight s) (ss_mSector s) m" and c: "su_CurSectorPos (ss_users s u) = p"
    using inv u by (auto simp: sm_inv_def)
  note l = grid_inv_leave [OF g u]
  show ?thesis
    using l sector_at_ok [OF g l(2)] c inv
    by (auto simp: sm_inv_def sm_grid_def DelSectorUser_def Let_def GetNowSectorPosFromSectorUser_def)
qed

interpretation sm: sector_grid sm_inv sm_grid "\<lambda>(_ :: unit) u s. GetNowSectorPosFromSectorUser u s" "\<lambda>_. AddSectorUser" DelSectorUser sm_reach
proof
  show "\<exists>s'. AddSectorUser u s = Inr s' \<and> sm_inv s' (m(u \<mapsto> GetNowSectorPosFromSectorUser u s)) \<and> sm_grid s' = sm_grid s \<and>
      (\<forall>(_ :: unit) v. GetNowSectorPosFromSectorUser v s' = GetNowSectorPosFromSectorUser v s)"
    if "sm_inv s m" "m u = None" "sm_grid s (GetNowSectorPosFromSectorUser u s)" for s m u
    using AddSectorUser_ok [OF that] by auto
  show "\<exists>s'. DelSectorUser u s = Inr s' \<and> sm_inv s' (m(u := None)) \<and> sm_grid s' = sm_grid s \<and>
      (\<forall>(_ :: unit) v. GetNowSectorPosFromSectorUser v s' = GetNowSectorPosFromSectorUser v s)"
    if "sm_inv s m" "m u \<noteq> None" for s m u
    using that DelSectorUser_ok [of s m u] by fastforce
  show "\<exists>us. sm_reach c s = Inr us \<and> distinct us \<and> set us = {u. \<exists>q. m u = Some q \<and> near c q}"
    if "sm_inv s m" for s m c
    using that reach_ok [of "ss_mWidth s" "ss_mHeight s" "ss_mSector s" m c]
    by (auto simp: sm_inv_def sm_reach_def SendAround_def GetSectorAround_eq users_in_eq)
qed

lemma UpdateSectorUser_ok:
  assumes inv: "sm_inv s m" and u: "m u = Some p" and g: "sm_grid s (GetNowSectorPosFromSectorUser u s)"
  shows "\<exists>s'. UpdateSectorUser u s = Inr (s', GetNowSectorPosFromSectorUser u s \<noteq> p) \<and>
    sm_inv s' (m(u \<mapsto> GetNowSectorPosFromSectorUser u s))"
proof (cases "GetNowSectorPosFromSectorUser u s = p")
  case True
  then have "m(u \<mapsto> p) = m" using u by auto
  then show ?thesis using True inv u by (auto simp: UpdateSectorUser_def Let_def sm_inv_def)
next
  case False
  obtain s' where s': "rbind (DelSectorUser u s) (AddSectorUser u) = Inr s'" "sm_inv s' (m(u \<mapsto> GetNowSectorPosFromSectorUser u s))"
    using sm.move [OF inv, of u] u g by auto
  moreover have "su_CurSectorPos (ss_users s u) = p" using inv u by (auto simp: sm_inv_def)
  ultimately show ?thesis using False by (auto simp: UpdateSectorUser_def Let_def rbind_assoc [symmetric])
qed

text \<open>The difference of the two neighbourhoods.\<close>

lemma is_found_iff: "is_found p qs \<longleftrightarrow> p \<in> set qs"
  by (induction qs) auto

lemma not_found_eq: "length acc + length ps \<le> 9 \<Longrightarrow> not_found ps qs acc = Inr (acc @ filter (\<lambda>p. p \<notin> set qs) ps)"
  by (induction ps arbitrary: acc) (auto simp: is_found_iff put_around_def)

lemma length_around: "length (around w h p) \<le> 9"
proof -
  have "set (around w h p) \<subseteq> (\<lambda>(x, y). mk_int2 x y) ` ({i2_X p - 1..i2_X p + 1} \<times> {i2_Y p - 1..i2_Y p + 1})"
    by (auto simp: around_def)
  then have "card (set (around w h p)) \<le> card ({i2_X p - 1..i2_X p + 1} \<times> {i2_Y p - 1..i2_Y p + 1})"
    by (rule surj_card_le [rotated]) simp
  then show ?thesis by (simp add: distinct_card [OF distinct_around])
qed

lemma GetUpdateSectorAround_eq:
  "GetUpdateSectorAround u s = Inr
     (filter (\<lambda>p. p \<notin> set (around (ss_mWidth s) (ss_mHeight s) (su_CurSectorPos (ss_users s u))))
        (around (ss_mWidth s) (ss_mHeight s) (su_OldSectorPos (ss_users s u))),
      filter (\<lambda>p. p \<notin> set (around (ss_mWidth s) (ss_mHeight s) (su_OldSectorPos (ss_users s u))))
        (around (ss_mWidth s) (ss_mHeight s) (su_CurSectorPos (ss_users s u))))"
  using length_around by (simp add: GetUpdateSectorAround_def Let_def GetSectorAround_eq not_found_eq)

subsection \<open>Properties\<close>

text \<open>
  C39. Moving a user between sectors and sending around: the user leaves the sector it is in and enters the one its
  position says; and \<^verbatim>\<open>SendAround\<close> of a sector then reaches exactly the users at distance at most one, each once, and
  adds as many references as it sends.
\<close>

theorem update_and_send_around:
  assumes "sm_inv s m" "m u = Some p" "sm_grid s (GetNowSectorPosFromSectorUser u s)"
  shows "\<exists>s' us. UpdateSectorUser u s = Inr (s', GetNowSectorPosFromSectorUser u s \<noteq> p) \<and>
    sm_inv s' (m(u \<mapsto> GetNowSectorPosFromSectorUser u s)) \<and> SendAround q s' = Inr (us, length us) \<and> distinct us \<and>
    set us = {v. \<exists>r. (m(u \<mapsto> GetNowSectorPosFromSectorUser u s)) v = Some r \<and> near q r}"
proof -
  obtain s' where s': "UpdateSectorUser u s = Inr (s', GetNowSectorPosFromSectorUser u s \<noteq> p)"
    "sm_inv s' (m(u \<mapsto> GetNowSectorPosFromSectorUser u s))" using UpdateSectorUser_ok [OF assms] by blast
  obtain us where us: "sm_reach q s' = Inr us" "distinct us" "set us = {v. \<exists>r. (m(u \<mapsto> GetNowSectorPosFromSectorUser u s)) v = Some r \<and> near q r}"
    using sm.reach [OF s'(2), of q] by blast
  have "SendAround q s' = Inr (us, length us)"
    using us(1) by (auto simp: sm_reach_def SendAround_def rbind_eq_Inr)
  then show ?thesis using s' us by blast
qed

theorem update_and_send_around_witness:
  "\<exists>s s' us. UpdateSectorUser 1 s = Inr (s', True) \<and> SendAround (mk_int2 2 2) s' = Inr (us, length us) \<and> set us = {1}"
proof -
  let ?s0 = "SectorManager_Create 3 3 (\<lambda>_. \<lparr>su_X = 0, su_Y = 0, su_OldSectorPos = mk_int2 0 0, su_CurSectorPos = mk_int2 0 0\<rparr>)"
  have "sm_inv ?s0 Map.empty" by (auto simp: sm_inv_def SectorManager_Create_def grid_inv_def)
  moreover have p: "GetNowSectorPosFromSectorUser 1 ?s0 = mk_int2 0 0"
    by (simp add: GetNowSectorPosFromSectorUser_def SectorManager_Create_def cdiv_def)
  moreover have "sm_grid ?s0 (mk_int2 0 0)" by (simp add: sm_grid_def SectorManager_Create_def in_grid_def)
  ultimately obtain s1 where s1: "AddSectorUser 1 ?s0 = Inr s1" "sm_inv s1 [1 \<mapsto> mk_int2 0 0]" "sm_grid s1 = sm_grid ?s0"
    using AddSectorUser_ok [of ?s0 Map.empty 1] by auto
  let ?s = "s1\<lparr>ss_users := (ss_users s1)(1 := (ss_users s1 1)\<lparr>su_X := 7, su_Y := 5\<rparr>)\<rparr>"
  have w: "ss_mWidth s1 = 3" "ss_mHeight s1 = 3"
    using s1(1) by (auto simp: AddSectorUser_def Let_def rbind_eq_Inr SectorManager_Create_def)
  have "sm_inv ?s [1 \<mapsto> mk_int2 0 0]" using s1(2) by (simp add: sm_inv_def)
  moreover have g: "GetNowSectorPosFromSectorUser 1 ?s = mk_int2 2 1" using w by (simp add: GetNowSectorPosFromSectorUser_def cdiv_def)
  moreover have "sm_grid ?s (mk_int2 2 1)" using w by (simp add: sm_grid_def in_grid_def)
  ultimately obtain s' us where "UpdateSectorUser 1 ?s = Inr (s', True)" "SendAround (mk_int2 2 2) s' = Inr (us, length us)"
    "set us = {v. \<exists>r. ([1 \<mapsto> mk_int2 2 1] v) = Some r \<and> near (mk_int2 2 2) r}"
    using update_and_send_around [of ?s "[1 \<mapsto> mk_int2 0 0]" 1 "mk_int2 0 0" "mk_int2 2 2"] by auto
  moreover have "{v. \<exists>r. ([1 \<mapsto> mk_int2 2 1] v) = Some r \<and> near (mk_int2 2 2) r} = {1 :: nat}" by (auto simp: near_def split: if_splits)
  ultimately show ?thesis by blast
qed

text \<open>
  \<^verbatim>\<open>GetUpdateSectorAround\<close> never writes outside its arrays of nine, and gives exactly the sectors that come into and
  go out of the neighbourhood of the user by its last move, each once.
\<close>

theorem update_sector_around:
  "\<exists>gone come. GetUpdateSectorAround u s = Inr (gone, come) \<and> distinct gone \<and> distinct come \<and>
     set gone = {q. in_grid (ss_mWidth s) (ss_mHeight s) q \<and> near (su_OldSectorPos (ss_users s u)) q \<and> \<not> near (su_CurSectorPos (ss_users s u)) q} \<and>
     set come = {q. in_grid (ss_mWidth s) (ss_mHeight s) q \<and> near (su_CurSectorPos (ss_users s u)) q \<and> \<not> near (su_OldSectorPos (ss_users s u)) q}"
  by (auto simp: GetUpdateSectorAround_eq distinct_around set_around)

end
