(* ===== verification/Chat.thy ===== *)
theory Chat
  imports Net_Core_Inv Sector
begin

text \<open>
  The chat server of \<^verbatim>\<open>playground_net/chat\<close>, an application on top of the core. \<open>Job.hpp\<close>, \<open>eJobType.hpp\<close> and
  \<open>packet/Packet.hpp\<close> are the records and constants; \<open>ChatUser.hpp\<close>, \<open>ChatUserManager.hpp\<close> and \<open>SectorManager.hpp\<close>
  are operations on the application's state \<open>chat\<close>, and \<open>EventHandler.hpp\<close> the callbacks, which put jobs into a queue,
  and the job thread, which takes them out. Everything runs on \<open>chat core\<close>, the state of the core with the
  application's state in it, because jobs send packets and disconnect sessions. One job is one step. A user, a job and a
  packet is an address. The events that wake the threads and the logger are left out; \<^verbatim>\<open>assert\<close> is off, as in a release build.
\<close>

subsection \<open>Actions that may throw\<close>

text \<open>
  A job runs until it returns or throws; \<^verbatim>\<open>ThreadProcessJob\<close> catches what is thrown and goes on with the state as it is
  then. \<open>Inl\<close> carries how an action ended early. An operation that throws does so before it changes anything
  (\<open>act\<close>). The exception out of a call of the core (\<open>act_net\<close>) is reported as a fault, because the state it leaves
  behind is not modelled.
\<close>

type_synonym ('s, 'a) action = "'s \<Rightarrow> (handler_exit + 'a) \<times> 's"

definition act_bind :: "('s, 'a) action \<Rightarrow> ('a \<Rightarrow> ('s, 'b) action) \<Rightarrow> ('s, 'b) action" where
  "act_bind m f s = (case m s of (Inl e, s') \<Rightarrow> (Inl e, s') | (Inr x, s') \<Rightarrow> f x s')"

definition act_return :: "'a \<Rightarrow> ('s, 'a) action" where
  "act_return x s = (Inr x, s)"

definition act_throw :: "handler_exit \<Rightarrow> ('s, 'a) action" where
  "act_throw e s = (Inl e, s)"

fun exit_of :: "fault \<Rightarrow> handler_exit" where
  "exit_of ReaderException = ThrewReader"
| "exit_of LogicError = ThrewOther"
| "exit_of f = Faulted f"

definition act :: "('s \<Rightarrow> ('s \<times> 'a) res) \<Rightarrow> ('s, 'a) action" where
  "act f s = (case f s of Inl e \<Rightarrow> (Inl (exit_of e), s) | Inr (s', x) \<Rightarrow> (Inr x, s'))"

definition act_net :: "('s \<Rightarrow> ('s \<times> 'a) res) \<Rightarrow> ('s, 'a) action" where
  "act_net f s = (case f s of Inl e \<Rightarrow> (Inl (Faulted e), s) | Inr (s', x) \<Rightarrow> (Inr x, s'))"

subsection \<open>Jobs and messages\<close>

datatype eJobType =
    UserLogin | UserSectorMove | UserMessage | UserHeartBeat
  | SystemDisconnectUser | SystemHeartBeat | INVALID_JobType

record Job =
  jb_JobType :: eJobType
  jb_SessionID :: u64
  jb_RecvPacket :: "nat option"

definition CS_CHAT_RES_LOGIN :: nat where "CS_CHAT_RES_LOGIN = 2"
definition CS_CHAT_RES_SECTOR_MOVE :: nat where "CS_CHAT_RES_SECTOR_MOVE = 4"
definition CS_CHAT_RES_MESSAGE :: nat where "CS_CHAT_RES_MESSAGE = 6"

definition GetJobTypeFromPacketType :: "nat \<Rightarrow> eJobType" where
  "GetJobTypeFromPacketType packetType =
     (if packetType = 1 then UserLogin
      else if packetType = 3 then UserSectorMove
      else if packetType = 5 then UserMessage
      else if packetType = 7 then UserHeartBeat
      else INVALID_JobType)"

text \<open>Characters are 16 bits wide and lie little-endian in a packet.\<close>

fun wchars :: "byte list \<Rightarrow> u16 list" where
  "wchars (a # b # bs) = of_nat (le_nat [a, b]) # wchars bs"
| "wchars _ = []"

definition wbytes :: "u16 list \<Rightarrow> byte list" where
  "wbytes cs = concat (map (\<lambda>c. le_bytes 2 (unat c)) cs)"

record login_request =
  lq_Type :: nat
  lq_AccountNo :: nat
  lq_ID :: "u16 list"
  lq_Nickname :: "u16 list"
  lq_SessionKey :: "byte list"

subsection \<open>ChatUser\<close>

text \<open>
  \<^verbatim>\<open>wcsncpy_s\<close> into an array of known size: the characters before the null, at most \<open>n\<close>, and a null; when
  they leave no room for the null, the invalid-parameter handler is called. What is behind the null stays as the
  memory was. \<^verbatim>\<open>strncpy\<close> fills up with nulls, and adds none when there is no room.
\<close>

definition wcsncpy_s :: "u16 list \<Rightarrow> u16 list \<Rightarrow> nat \<Rightarrow> u16 list res" where
  "wcsncpy_s dst src n =
     (let cs = takeWhile (\<lambda>c. c \<noteq> 0) (take n src) in
      if length cs < length dst then Inr (cs @ 0 # drop (Suc (length cs)) dst) else Inl InvalidParameter)"

definition strncpy :: "byte list \<Rightarrow> byte list \<Rightarrow> nat \<Rightarrow> byte list res" where
  "strncpy dst src n =
     (let cs = takeWhile (\<lambda>c. c \<noteq> 0) (take n src) in
      mem_write dst 0 (cs @ replicate (n - length cs) 0))"

record ChatUser =
  cu_AccountNo :: nat
  cu_ID :: "u16 list"
  cu_Nickname :: "u16 list"
  cu_SessionKey :: "byte list"
  cu_mSessionID :: u64
  cu_mCurSectorPos :: int2

definition mInvalidSectorPos :: int2 where
  "mInvalidSectorPos = mk_int2 (- 1) (- 1)"

text \<open>\<open>g\<close> is what the memory of the new object holds: 20 characters each for \<^verbatim>\<open>ID\<close> and \<^verbatim>\<open>Nickname\<close>, 64 bytes for the key.\<close>

definition ChatUser_Create :: "u16 list \<times> u16 list \<times> byte list \<Rightarrow> u64 \<Rightarrow> login_request \<Rightarrow> ChatUser res" where
  "ChatUser_Create g sessionID q =
     rbind (wcsncpy_s (fst g) (lq_ID q) 20) (\<lambda>ID.
     rbind (wcsncpy_s (fst (snd g)) (lq_Nickname q) 20) (\<lambda>Nickname.
     rbind (strncpy (snd (snd g)) (lq_SessionKey q) 64) (\<lambda>SessionKey.
       Inr \<lparr>cu_AccountNo = lq_AccountNo q, cu_ID = ID, cu_Nickname = Nickname, cu_SessionKey = SessionKey,
            cu_mSessionID = sessionID, cu_mCurSectorPos = mInvalidSectorPos\<rparr>)))"

definition IsHeartBeating :: "ChatUser \<Rightarrow> bool" where
  "IsHeartBeating u = True"

definition UpdateHeartBeat :: "ChatUser \<Rightarrow> ChatUser" where
  "UpdateHeartBeat u = u"

subsection \<open>State\<close>

record ChatUserManager =
  um_mSessionUserMap :: "u64 \<rightharpoonup> nat"
  um_mAccountUserMap :: "nat \<rightharpoonup> nat"
  um_mUserPool :: ObjectPool
  um_users :: "nat \<rightharpoonup> ChatUser"

record ChatSectors =
  cs_mWidth :: int
  cs_mHeight :: int
  cs_mSector :: "nat list list"

record chat =
  ch_mMessageBuffer :: "byte list"
  ch_mIsQuit :: bool
  ch_mJobQueue :: "nat LockFreeQueue"
  ch_mJobPool :: ObjectPoolLockFree
  ch_jobs :: "nat \<rightharpoonup> Job"
  ch_mJobTPS :: u64
  ch_mUserManager :: ChatUserManager
  ch_mSectorManager :: ChatSectors

text \<open>The construction of the event handler, with its queue and pools; \<open>g\<close> is what their unset counters hold.\<close>

definition chat_Create :: "u64 \<Rightarrow> chat res" where
  "chat_Create g =
     rbind (Queue_Create 0 g 1000) (\<lambda>queue.
       Inr \<lparr>ch_mMessageBuffer = replicate 2048 0, ch_mIsQuit = False, ch_mJobQueue = queue, ch_mJobPool = LockFree_Create g,
            ch_jobs = Map.empty, ch_mJobTPS = 0,
            ch_mUserManager = \<lparr>um_mSessionUserMap = Map.empty, um_mAccountUserMap = Map.empty,
              um_mUserPool = ObjectPool_Create CallConstructorDestructor 1024, um_users = Map.empty\<rparr>,
            ch_mSectorManager = \<lparr>cs_mWidth = 50, cs_mHeight = 50, cs_mSector = replicate (50 * 50) []\<rparr>\<rparr>)"

subsection \<open>ChatUserManager\<close>

text \<open>The result of \<^verbatim>\<open>AddUser\<close> is the pair of \<^verbatim>\<open>isSuccess\<close> and \<^verbatim>\<open>user\<close>; \<open>mem\<close> is the memory the pool hands out.\<close>

definition AddUser :: "(nat \<Rightarrow> u16 list \<times> u16 list \<times> byte list) \<Rightarrow> u64 \<Rightarrow> login_request \<Rightarrow> ChatUserManager \<Rightarrow>
    (ChatUserManager \<times> nat option) res" where
  "AddUser mem sessionID q s =
     (if um_mSessionUserMap s sessionID \<noteq> None then Inr (s, None)
      else if um_mAccountUserMap s (lq_AccountNo q) \<noteq> None then Inr (s, None)
      else
        rbind (ObjectPool_Rent CallConstructorDestructor (um_mUserPool s)) (\<lambda>(pool, a).
        rbind (ChatUser_Create (mem a) sessionID q) (\<lambda>user.
          Inr (s\<lparr>um_mUserPool := pool, um_users := (um_users s)(a \<mapsto> user),
                 um_mAccountUserMap := (um_mAccountUserMap s)(cu_AccountNo user \<mapsto> a),
                 um_mSessionUserMap := (um_mSessionUserMap s)(sessionID \<mapsto> a)\<rparr>, Some a))))"

definition RemoveUser :: "u64 \<Rightarrow> ChatUserManager \<Rightarrow> ChatUserManager res" where
  "RemoveUser sessionID s =
     (case um_mSessionUserMap s sessionID of
        None \<Rightarrow> Inl LogicError
      | Some a \<Rightarrow>
          (case um_users s a of
             None \<Rightarrow> Inl DeadObject
           | Some user \<Rightarrow>
               (case um_mAccountUserMap s (cu_AccountNo user) of
                  None \<Rightarrow> Inl LogicError
                | Some _ \<Rightarrow>
                    rbind (ObjectPool_Return CallConstructorDestructor (um_mUserPool s) a) (\<lambda>(pool, _).
                      Inr (s\<lparr>um_mSessionUserMap := (um_mSessionUserMap s)(sessionID := None),
                             um_mAccountUserMap := (um_mAccountUserMap s)(cu_AccountNo user := None),
                             um_mUserPool := pool, um_users := (um_users s)(a := None)\<rparr>)))))"

definition FindUserOrNull :: "u64 \<Rightarrow> ChatUserManager \<Rightarrow> nat option" where
  "FindUserOrNull sessionID s = um_mSessionUserMap s sessionID"

definition the_user :: "nat \<Rightarrow> chat \<Rightarrow> ChatUser res" where
  "the_user a w = (case um_users (ch_mUserManager w) a of None \<Rightarrow> Inl DeadObject | Some u \<Rightarrow> Inr u)"

subsection \<open>SectorManager\<close>

definition set_pos :: "nat \<Rightarrow> ChatUser \<Rightarrow> int2 \<Rightarrow> chat \<Rightarrow> chat" where
  "set_pos a u pos w =
     w\<lparr>ch_mUserManager := (ch_mUserManager w)\<lparr>um_users := (um_users (ch_mUserManager w))(a \<mapsto> u\<lparr>cu_mCurSectorPos := pos\<rparr>)\<rparr>\<rparr>"

definition set_sector :: "nat \<Rightarrow> nat list \<Rightarrow> chat \<Rightarrow> chat" where
  "set_sector k us w =
     w\<lparr>ch_mSectorManager := (ch_mSectorManager w)\<lparr>cs_mSector := (cs_mSector (ch_mSectorManager w))[k := us]\<rparr>\<rparr>"

text \<open>The list of a sector, with its index; a position outside the grid is not refused.\<close>

definition chat_sector :: "int2 \<Rightarrow> chat \<Rightarrow> (nat \<times> nat list) res" where
  "chat_sector pos w =
     rbind (sector_at (cs_mWidth (ch_mSectorManager w)) (cs_mSector (ch_mSectorManager w)) pos) (\<lambda>k.
       Inr (k, cs_mSector (ch_mSectorManager w) ! k))"

definition InsertSectorUser :: "nat \<Rightarrow> int2 \<Rightarrow> chat \<Rightarrow> chat res" where
  "InsertSectorUser user nowSectorPos w =
     rbind (chat_sector nowSectorPos w) (\<lambda>(k, users).
     rbind (the_user user w) (\<lambda>u.
       Inr (set_pos user u nowSectorPos (set_sector k (users @ [user]) w))))"

definition RemoveSectorUser :: "nat \<Rightarrow> chat \<Rightarrow> chat res" where
  "RemoveSectorUser user w =
     rbind (the_user user w) (\<lambda>u.
       let curSectorPos = cu_mCurSectorPos u in
       if int2_eq curSectorPos mInvalidSectorPos then Inr w
       else rbind (chat_sector curSectorPos w) (\<lambda>(k, users).
         if user \<notin> set users then Inl MemFault else Inr (set_sector k (remove1 user users) w)))"

definition TryMove :: "nat \<Rightarrow> int2 \<Rightarrow> chat \<Rightarrow> (chat \<times> bool) res" where
  "TryMove user destSectorPos w =
     rbind (the_user user w) (\<lambda>u.
       let curSectorPos = cu_mCurSectorPos u in
       if int2_eq curSectorPos destSectorPos then Inr (w, False)
       else
         rbind (if int2_neq curSectorPos mInvalidSectorPos then RemoveSectorUser user w else Inr w) (\<lambda>w.
         rbind (InsertSectorUser user destSectorPos w) (\<lambda>w. Inr (w, True))))"

subsection \<open>Packets of a job\<close>

text \<open>Reading from the packet that came with the job, and building and giving up a packet to send.\<close>

definition recv_get :: "nat option \<Rightarrow> nat \<Rightarrow> byte list \<Rightarrow> 'w core \<Rightarrow> ('w core \<times> byte list) res" where
  "recv_get recvPacket n data s =
     (case recvPacket of
        None \<Rightarrow> Inl NullDeref
      | Some a \<Rightarrow>
          (case pp_objs (nc_recv s) a of
             None \<Rightarrow> Inl DeadObject
           | Some p \<Rightarrow>
               rbind (GetBody p data n) (\<lambda>(p, data, _).
                 Inr (s\<lparr>nc_recv := (nc_recv s)\<lparr>pp_objs := (pp_objs (nc_recv s))(a \<mapsto> p)\<rparr>\<rparr>, data))))"

definition recv_read :: "nat option \<Rightarrow> nat \<Rightarrow> 'w core \<Rightarrow> ('w core \<times> nat) res" where
  "recv_read recvPacket n s = rbind (recv_get recvPacket n (replicate n 0) s) (\<lambda>(s, data). Inr (s, le_nat data))"

definition alloc_send :: "nat \<Rightarrow> (nat \<Rightarrow> byte list) \<Rightarrow> 'w core \<Rightarrow> ('w core \<times> nat) res" where
  "alloc_send t mem s = rbind (AllocPacket t mem (nc_send s)) (\<lambda>(pool, a). Inr (s\<lparr>nc_send := pool\<rparr>, a))"

definition send_put :: "nat \<Rightarrow> byte list \<Rightarrow> nat \<Rightarrow> 'w core \<Rightarrow> ('w core \<times> unit) res" where
  "send_put a data n s =
     (case pp_objs (nc_send s) a of
        None \<Rightarrow> Inl DeadObject
      | Some p \<Rightarrow>
          rbind (PutBody p data n) (\<lambda>(p, _).
            Inr (s\<lparr>nc_send := (nc_send s)\<lparr>pp_objs := (pp_objs (nc_send s))(a \<mapsto> p)\<rparr>\<rparr>, ())))"

definition send_write :: "nat \<Rightarrow> nat \<Rightarrow> nat \<Rightarrow> 'w core \<Rightarrow> ('w core \<times> unit) res" where
  "send_write a n v s = send_put a (le_bytes n v) n s"

definition free_send :: "nat \<Rightarrow> 'w core \<Rightarrow> ('w core \<times> unit) res" where
  "free_send a s = rbind (TryFreePacket (nc_send s) a) (\<lambda>(pool, _). Inr (s\<lparr>nc_send := pool\<rparr>, ()))"

definition free_recv :: "nat option \<Rightarrow> 'w core \<Rightarrow> ('w core \<times> unit) res" where
  "free_recv recvPacket s =
     (case recvPacket of
        None \<Rightarrow> Inr (s, ())
      | Some a \<Rightarrow> rbind (TryFreePacket (nc_recv s) a) (\<lambda>(pool, _). Inr (s\<lparr>nc_recv := pool\<rparr>, ())))"

definition on_world :: "('w \<Rightarrow> ('w \<times> 'a) res) \<Rightarrow> 'w core \<Rightarrow> ('w core \<times> 'a) res" where
  "on_world f s = rbind (f (nc_world s)) (\<lambda>(w, x). Inr (s\<lparr>nc_world := w\<rparr>, x))"

subsection \<open>The callbacks\<close>

text \<open>\<^verbatim>\<open>mJobQueue.Enqueue(mJobPool.Rent(jobType, sessionID, recvPacket))\<close>; the heartbeat thread does it every minute.\<close>

definition enqueue_job :: "eJobType \<Rightarrow> u64 \<Rightarrow> nat option \<Rightarrow> chat \<Rightarrow> chat res" where
  "enqueue_job jobType sessionID recvPacket w =
     rbind (LockFree_Rent CallConstructorDestructor (ch_mJobPool w)) (\<lambda>(pool, a).
     rbind (Queue_Enqueue (ch_mJobQueue w) a) (\<lambda>(queue, _).
       Inr (w\<lparr>ch_mJobPool := pool, ch_mJobQueue := queue,
              ch_jobs := (ch_jobs w)(a \<mapsto> \<lparr>jb_JobType = jobType, jb_SessionID = sessionID, jb_RecvPacket = recvPacket\<rparr>)\<rparr>)))"

definition chat_OnDisconnected :: "u64 \<Rightarrow> chat core \<Rightarrow> chat core res" where
  "chat_OnDisconnected sessionID s =
     rbind (enqueue_job SystemDisconnectUser sessionID None (nc_world s)) (\<lambda>w. Inr (s\<lparr>nc_world := w\<rparr>))"

definition ThreadHeatbeatThread_step :: "chat core \<Rightarrow> chat core res" where
  "ThreadHeatbeatThread_step s =
     rbind (enqueue_job SystemHeartBeat 0 None (nc_world s)) (\<lambda>w. Inr (s\<lparr>nc_world := w\<rparr>))"

text \<open>
  \<^verbatim>\<open>Disconnect\<close>, called from \<^verbatim>\<open>OnReceived\<close>, calls back \<^verbatim>\<open>OnDisconnected\<close> and nothing else, so the record without
  \<^verbatim>\<open>OnReceived\<close> stands for the handler there. When \<^verbatim>\<open>TryFreeRecv\<close> of the error branch takes the last
  reference, the packet dies under the receive loop.
\<close>

definition chat_callbacks :: "chat INetCoreEvent" where
  "chat_callbacks = \<lparr>ev_OnConnectionRequested = (\<lambda>_ _ _. True), ev_OnConnected = (\<lambda>_. Inr),
     ev_OnReceived = (\<lambda>_ _ p s. (Returned, p, s)), ev_OnSent = (\<lambda>_ _. Inr), ev_OnDisconnected = chat_OnDisconnected\<rparr>"

definition chat_OnReceived :: "u64 \<Rightarrow> nat \<Rightarrow> Packet \<Rightarrow> chat core \<Rightarrow> handler_exit \<times> Packet \<times> chat core" where
  "chat_OnReceived sessionID a p s =
     (if ch_mIsQuit (nc_world s) then (Returned, p, s)
      else
        case PeekBody p (replicate 2 0) 2 of
          Inl e \<Rightarrow> (Faulted e, p, s)
        | Inr (data, peekSize) \<Rightarrow>
            let jobType = GetJobTypeFromPacketType (le_nat data) in
            if peekSize \<noteq> 2 \<or> jobType = INVALID_JobType
            then (case Disconnect chat_callbacks sessionID s of Inl e \<Rightarrow> (Faulted e, p, s) | Inr (s, _) \<Rightarrow> (Returned, p, s))
            else
              let (p, refCount) = Packet_AddRef p in
              if refCount \<noteq> 2
              then let (p, refCount) = Packet_SubRef p in
                   (if refCount = 0 then Faulted DeadObject else ThrewOther, p, s)
              else (case enqueue_job jobType sessionID (Some a) (nc_world s) of
                      Inl e \<Rightarrow> (Faulted e, p, s) | Inr w \<Rightarrow> (Returned, p, s\<lparr>nc_world := w\<rparr>)))"

definition chat_events :: "chat INetCoreEvent" where
  "chat_events = chat_callbacks\<lparr>ev_OnReceived := chat_OnReceived\<rparr>"

subsection \<open>Jobs\<close>

text \<open>
  What a job is given from outside: the thread and the memory for the packet it allocates, the memory for a new user,
  the random key and the answers of \<^verbatim>\<open>WSASend\<close> (one per receiver), and the order in which the map of sessions is walked.
\<close>

record job_env =
  je_t :: nat
  je_mem :: "nat \<Rightarrow> byte list"
  je_user :: "nat \<Rightarrow> u16 list \<times> u16 list \<times> byte list"
  je_rnd :: nat
  je_reply :: "u64 \<Rightarrow> wsa_reply"
  je_order :: "u64 list"

definition je_Send :: "job_env \<Rightarrow> u64 \<Rightarrow> nat \<Rightarrow> chat core \<Rightarrow> (chat core \<times> bool) res" where
  "je_Send e sid a s = SendPacket chat_events (je_rnd e) (je_reply e sid) sid a s"

text \<open>\<^verbatim>\<open>SendAround\<close>: the users of each sector around the position, each through \<^verbatim>\<open>ChatUser::Send\<close>.\<close>

fun send_users :: "job_env \<Rightarrow> nat list \<Rightarrow> nat \<Rightarrow> chat core \<Rightarrow> chat core res" where
  "send_users e [] a s = Inr s"
| "send_users e (u # us) a s =
     rbind (the_user u (nc_world s)) (\<lambda>user.
     rbind (je_Send e (cu_mSessionID user) a s) (\<lambda>(s, _). send_users e us a s))"

fun send_sectors :: "job_env \<Rightarrow> int2 list \<Rightarrow> nat \<Rightarrow> chat core \<Rightarrow> chat core res" where
  "send_sectors e [] a s = Inr s"
| "send_sectors e (pos # ps) a s =
     rbind (chat_sector pos (nc_world s)) (\<lambda>(_, us). rbind (send_users e us a s) (send_sectors e ps a))"

definition chat_SendAround :: "job_env \<Rightarrow> int2 \<Rightarrow> nat \<Rightarrow> chat core \<Rightarrow> (chat core \<times> unit) res" where
  "chat_SendAround e sectorPos a s =
     (let m = ch_mSectorManager (nc_world s) in
      rbind (GetSectorAround (cs_mWidth m) (cs_mHeight m) (i2_X sectorPos) (i2_Y sectorPos) []) (\<lambda>around.
      rbind (send_sectors e around a s) (\<lambda>s. Inr (s, ()))))"

definition JobUserLogin :: "job_env \<Rightarrow> Job \<Rightarrow> (chat core, unit) action" where
  "JobUserLogin e job =
     act_bind (act (recv_read (jb_RecvPacket job) 2)) (\<lambda>type.
     act_bind (act (recv_read (jb_RecvPacket job) 8)) (\<lambda>AccountNo.
     act_bind (act (recv_get (jb_RecvPacket job) 40 (replicate 40 0))) (\<lambda>ID.
     act_bind (act (recv_get (jb_RecvPacket job) 40 (replicate 40 0))) (\<lambda>Nickname.
     act_bind (act (recv_get (jb_RecvPacket job) 64 (replicate 64 0))) (\<lambda>SessionKey.
     let q = \<lparr>lq_Type = type, lq_AccountNo = AccountNo, lq_ID = wchars ID, lq_Nickname = wchars Nickname,
              lq_SessionKey = SessionKey\<rparr> in
     act_bind (act (on_world (\<lambda>w. rbind (AddUser (je_user e) (jb_SessionID job) q (ch_mUserManager w)) (\<lambda>(m, user).
                 Inr (w\<lparr>ch_mUserManager := m\<rparr>, user))))) (\<lambda>user.
     act_bind (act (alloc_send (je_t e) (je_mem e))) (\<lambda>a.
     act_bind (act (send_write a 2 CS_CHAT_RES_LOGIN)) (\<lambda>_.
     act_bind
       (case user of
          Some u \<Rightarrow>
            act_bind (act (send_write a 1 1)) (\<lambda>_.
            act_bind (act (on_world (\<lambda>w. rbind (the_user u w) (\<lambda>u. Inr (w, cu_AccountNo u))))) (\<lambda>no.
            act (send_write a 8 no)))
        | None \<Rightarrow>
            act_bind (act (send_write a 1 0)) (\<lambda>_. act (send_write a 8 AccountNo))) (\<lambda>_.
     act_bind (act_net (je_Send e (jb_SessionID job) a)) (\<lambda>_.
     act (free_send a)))))))))))"

definition JobUserSectorMove :: "job_env \<Rightarrow> Job \<Rightarrow> (chat core, unit) action" where
  "JobUserSectorMove e job =
     act_bind (act (recv_read (jb_RecvPacket job) 2)) (\<lambda>type.
     act_bind (act (recv_read (jb_RecvPacket job) 8)) (\<lambda>AccountNo.
     act_bind (act (recv_read (jb_RecvPacket job) 2)) (\<lambda>SectorX.
     act_bind (act (recv_read (jb_RecvPacket job) 2)) (\<lambda>SectorY.
     act_bind (act (on_world (\<lambda>w. Inr (w, FindUserOrNull (jb_SessionID job) (ch_mUserManager w))))) (\<lambda>found.
     case found of
       None \<Rightarrow> act_return ()
     | Some user \<Rightarrow>
         act_bind (act (on_world (\<lambda>w. rbind (the_user user w) (\<lambda>u. Inr (w, cu_AccountNo u))))) (\<lambda>no.
         if no \<noteq> AccountNo
         then act_bind (act_net (Disconnect chat_events (jb_SessionID job))) (\<lambda>_. act_return ())
         else
           act_bind (act (alloc_send (je_t e) (je_mem e))) (\<lambda>a.
           act_bind (act (send_write a 2 CS_CHAT_RES_SECTOR_MOVE)) (\<lambda>_.
           act_bind (act (send_write a 8 no)) (\<lambda>_.
           act_bind (act (send_write a 2 SectorX)) (\<lambda>_.
           act_bind (act (send_write a 2 SectorY)) (\<lambda>_.
           act_bind (act (on_world (TryMove user (mk_int2 (int SectorX) (int SectorY))))) (\<lambda>_.
           act_bind (act_net (je_Send e (jb_SessionID job) a)) (\<lambda>_.
           act (free_send a))))))))))))))"

definition JobUserMessage :: "job_env \<Rightarrow> Job \<Rightarrow> (chat core, unit) action" where
  "JobUserMessage e job =
     act_bind (act (recv_read (jb_RecvPacket job) 2)) (\<lambda>type.
     act_bind (act (recv_read (jb_RecvPacket job) 8)) (\<lambda>AccountNo.
     act_bind (act (recv_read (jb_RecvPacket job) 2)) (\<lambda>MessageLen.
     act_bind (act (\<lambda>s. rbind (recv_get (jb_RecvPacket job) MessageLen (ch_mMessageBuffer (nc_world s)) s) (\<lambda>(s, data).
                 Inr (s\<lparr>nc_world := (nc_world s)\<lparr>ch_mMessageBuffer := data\<rparr>\<rparr>, ())))) (\<lambda>_.
     act_bind (act (on_world (\<lambda>w. Inr (w, FindUserOrNull (jb_SessionID job) (ch_mUserManager w))))) (\<lambda>found.
     case found of
       None \<Rightarrow> act_bind (act_net (Disconnect chat_events (jb_SessionID job))) (\<lambda>_. act_return ())
     | Some user \<Rightarrow>
         act_bind (act (on_world (\<lambda>w. rbind (the_user user w) (\<lambda>u. Inr (w, u))))) (\<lambda>u.
         if cu_AccountNo u \<noteq> AccountNo
         then act_bind (act_net (Disconnect chat_events (jb_SessionID job))) (\<lambda>_. act_return ())
         else
           act_bind (act (alloc_send (je_t e) (je_mem e))) (\<lambda>a.
           act_bind (act (send_write a 2 CS_CHAT_RES_MESSAGE)) (\<lambda>_.
           act_bind (act (send_write a 8 AccountNo)) (\<lambda>_.
           act_bind (act (send_put a (wbytes (cu_ID u)) 40)) (\<lambda>_.
           act_bind (act (send_put a (wbytes (cu_Nickname u)) 40)) (\<lambda>_.
           act_bind (act (send_write a 2 MessageLen)) (\<lambda>_.
           act_bind (act (\<lambda>s. send_put a (ch_mMessageBuffer (nc_world s)) MessageLen s)) (\<lambda>_.
           act_bind (act_net (chat_SendAround e (cu_mCurSectorPos u) a)) (\<lambda>_.
           act (free_send a)))))))))))))))"

definition JobUserHeartBeat :: "Job \<Rightarrow> (chat core, unit) action" where
  "JobUserHeartBeat job =
     act (on_world (\<lambda>w.
       case FindUserOrNull (jb_SessionID job) (ch_mUserManager w) of
         None \<Rightarrow> Inr (w, ())
       | Some user \<Rightarrow>
           rbind (the_user user w) (\<lambda>u.
             let m = ch_mUserManager w in
             Inr (w\<lparr>ch_mUserManager := m\<lparr>um_users := (um_users m)(user \<mapsto> UpdateHeartBeat u)\<rparr>\<rparr>, ()))))"

definition JobSystemDisconnectUser :: "Job \<Rightarrow> (chat core, unit) action" where
  "JobSystemDisconnectUser job =
     act_bind (act (on_world (\<lambda>w. Inr (w, FindUserOrNull (jb_SessionID job) (ch_mUserManager w))))) (\<lambda>found.
     case found of
       None \<Rightarrow> act_return ()
     | Some user \<Rightarrow>
         act_bind (act (on_world (\<lambda>w. rbind (RemoveSectorUser user w) (\<lambda>w. Inr (w, ()))))) (\<lambda>_.
         act (on_world (\<lambda>w. rbind (RemoveUser (jb_SessionID job) (ch_mUserManager w)) (\<lambda>m.
           Inr (w\<lparr>ch_mUserManager := m\<rparr>, ()))))))"

fun heartbeat_loop :: "u64 list \<Rightarrow> chat core \<Rightarrow> (chat core \<times> unit) res" where
  "heartbeat_loop [] s = Inr (s, ())"
| "heartbeat_loop (sid # sids) s =
     (case FindUserOrNull sid (ch_mUserManager (nc_world s)) of
        None \<Rightarrow> heartbeat_loop sids s
      | Some user \<Rightarrow>
          rbind (the_user user (nc_world s)) (\<lambda>u.
          rbind (if \<not> IsHeartBeating u then Disconnect chat_events sid s else Inr (s, True)) (\<lambda>(s, _).
            heartbeat_loop sids s)))"

definition JobSystemHeartBeat :: "job_env \<Rightarrow> Job \<Rightarrow> (chat core, unit) action" where
  "JobSystemHeartBeat e job = act_net (heartbeat_loop (je_order e))"

definition HandleJob :: "job_env \<Rightarrow> Job \<Rightarrow> (chat core, bool) action" where
  "HandleJob e job =
     act_bind
       (case jb_JobType job of
          UserLogin \<Rightarrow> JobUserLogin e job
        | UserSectorMove \<Rightarrow> JobUserSectorMove e job
        | UserMessage \<Rightarrow> JobUserMessage e job
        | UserHeartBeat \<Rightarrow> JobUserHeartBeat job
        | SystemDisconnectUser \<Rightarrow> JobSystemDisconnectUser job
        | SystemHeartBeat \<Rightarrow> JobSystemHeartBeat e job
        | INVALID_JobType \<Rightarrow> act_throw ThrewOther)
       (\<lambda>_. act_return True)"

text \<open>Giving up a job: its packet and itself.\<close>

definition finish_job :: "nat \<Rightarrow> Job \<Rightarrow> chat core \<Rightarrow> chat core res" where
  "finish_job j job s =
     rbind (free_recv (jb_RecvPacket job) s) (\<lambda>(s, _).
     rbind (LockFree_Return CallConstructorDestructor (ch_mJobPool (nc_world s)) (Some j)) (\<lambda>(pool, _).
       Inr (s\<lparr>nc_world := (nc_world s)\<lparr>ch_mJobPool := pool, ch_jobs := (ch_jobs (nc_world s))(j := None)\<rparr>\<rparr>)))"

definition take_job :: "chat core \<Rightarrow> (chat core \<times> (nat \<times> Job) option) res" where
  "take_job s =
     rbind (Queue_TryDequeue (ch_mJobQueue (nc_world s))) (\<lambda>(queue, r).
       let s = s\<lparr>nc_world := (nc_world s)\<lparr>ch_mJobQueue := queue\<rparr>\<rparr> in
       case r of
         None \<Rightarrow> Inr (s, None)
       | Some j \<Rightarrow> (case ch_jobs (nc_world s) j of None \<Rightarrow> Inl DeadObject | Some job \<Rightarrow> Inr (s, Some (j, job))))"

text \<open>
  One round of the inner loop of \<^verbatim>\<open>ThreadProcessJob\<close>; the second component is \<^verbatim>\<open>false\<close> when the queue was empty. The
  exception for a failed dequeue is outside the \<^verbatim>\<open>try\<close> block and ends the process.
\<close>

definition ThreadProcessJob_step :: "job_env \<Rightarrow> chat core \<Rightarrow> (chat core \<times> bool) res" where
  "ThreadProcessJob_step e s =
     (if Queue_IsEmpty (ch_mJobQueue (nc_world s)) then Inr (s, False)
      else
        rbind (take_job s) (\<lambda>(s, taken).
        case taken of
          None \<Rightarrow> Inl LogicError
        | Some (j, job) \<Rightarrow>
            rbind
              (case HandleJob e job s of
                 (Inl (Faulted f), s) \<Rightarrow> Inl f
               | (Inl _, s) \<Rightarrow> Inr (s, False)
               | (Inr isHandled, s) \<Rightarrow> Inr (s, isHandled)) (\<lambda>(s, isHandled).
            rbind (if \<not> isHandled then Disconnect chat_events (jb_SessionID job) s else Inr (s, True)) (\<lambda>(s, _).
            rbind (finish_job j job s) (\<lambda>s.
              Inr (s\<lparr>nc_world := (nc_world s)\<lparr>ch_mJobTPS := ch_mJobTPS (nc_world s) + 1\<rparr>\<rparr>, True))))))"

text \<open>
  \<^verbatim>\<open>OnQuit\<close>, after the threads are joined: what is still queued is given up, and disconnected users are removed. Each
  round takes one job out, so the number of jobs is enough fuel.
\<close>

fun quit_loop :: "nat \<Rightarrow> chat core \<Rightarrow> chat core res" where
  "quit_loop fuel s =
     (if Queue_IsEmpty (ch_mJobQueue (nc_world s)) then Inr s
      else case fuel of
        0 \<Rightarrow> Inl Spin
      | Suc fuel \<Rightarrow>
          rbind (take_job s) (\<lambda>(s, taken).
          case taken of
            None \<Rightarrow> quit_loop fuel s
          | Some (j, job) \<Rightarrow>
              rbind
                (if jb_JobType job = SystemDisconnectUser
                 then case JobSystemDisconnectUser job s of
                        (Inl (Faulted f), s) \<Rightarrow> Inl f | (Inl _, s) \<Rightarrow> Inl LogicError | (Inr _, s) \<Rightarrow> Inr s
                 else Inr s) (\<lambda>s.
              rbind (finish_job j job s) (quit_loop fuel))))"

definition OnQuit :: "nat \<Rightarrow> chat core \<Rightarrow> chat core res" where
  "OnQuit fuel s = quit_loop fuel (s\<lparr>nc_world := (nc_world s)\<lparr>ch_mIsQuit := True\<rparr>\<rparr>)"

end
