(* ===== verification/Chat_Inv.thy ===== *)
theory Chat_Inv
  imports Chat
begin

text \<open>
  The invariant of the chat server, and what its callbacks and jobs do. First rules for actions and for an application that
  uses the packets and the sessions of the core; then the user manager, the grid of users, the queue of jobs; then the
  callbacks, which keep the invariant of the server (\<open>app_ok\<close>), and the jobs.
\<close>

subsection \<open>Rules for actions\<close>

text \<open>\<open>P\<close> holds of the result, \<open>E\<close> of the state when an exception was thrown; a fault is one of the deliberate stops.\<close>

definition aok :: "('a \<Rightarrow> 's \<Rightarrow> bool) \<Rightarrow> ('s \<Rightarrow> bool) \<Rightarrow> (handler_exit + 'a) \<times> 's \<Rightarrow> bool" where
  "aok P E r = (case r of
       (Inr x, s) \<Rightarrow> P x s
     | (Inl e, s) \<Rightarrow> (case e of Faulted f \<Rightarrow> f = InvalidArgument \<or> f = CrashDumped | Returned \<Rightarrow> False | _ \<Rightarrow> E s))"

lemma aok_simps [simp]:
  "aok P E (Inr x, s) = P x s" "aok P E (Inl (Faulted f), s) = (f = InvalidArgument \<or> f = CrashDumped)"
  "aok P E (Inl ThrewReader, s) = E s" "aok P E (Inl ThrewOther, s) = E s" "aok P E (Inl Returned, s) = False"
  by (simp_all add: aok_def)

lemma aok_bind:
  assumes "aok Q E (m s)" "\<And>x s'. Q x s' \<Longrightarrow> aok P E (f x s')"
  shows "aok P E (act_bind m f s)"
proof -
  obtain r s' where m: "m s = (r, s')" by (cases "m s") blast
  show ?thesis
  proof (cases r)
    case (Inl e)
    then show ?thesis using assms(1) m by (cases e) (simp_all add: act_bind_def)
  next
    case (Inr x)
    then show ?thesis using assms m by (simp add: act_bind_def)
  qed
qed

lemma aok_mono: "aok Q E r \<Longrightarrow> (\<And>x s. Q x s \<Longrightarrow> P x s) \<Longrightarrow> (\<And>s. E s \<Longrightarrow> E' s) \<Longrightarrow> aok P E' r"
  by (auto simp: aok_def split: sum.splits handler_exit.splits prod.splits)

lemma aok_return: "P x s \<Longrightarrow> aok P E (act_return x s)"
  by (simp add: act_return_def)

lemma aok_act: "f s = Inr (s', x) \<Longrightarrow> P x s' \<Longrightarrow> aok P E (act f s)"
  by (simp add: act_def)

lemma aok_throw: "f s = Inl e \<Longrightarrow> e = ReaderException \<or> e = LogicError \<Longrightarrow> E s \<Longrightarrow> aok P E (act f s)"
  by (auto simp: act_def)

lemma aok_net: "rok (\<lambda>(s', x). P x s') (f s) \<Longrightarrow> aok P E (act_net f s)"
  by (cases "f s") (auto simp: act_net_def)

lemma act_bind_Inr: "m s = (Inr x, s') \<Longrightarrow> act_bind m f s = f x s'"
  by (simp add: act_bind_def)

lemma act_Inr: "f s = Inr (s', x) \<Longrightarrow> act f s = (Inr x, s')"
  by (simp add: act_def)

subsection \<open>An application between two calls of the core\<close>

text \<open>\<open>m\<close> counts the references to send packets that the application has.\<close>

definition ready :: "((nat \<Rightarrow> int) \<Rightarrow> nat \<Rightarrow> 'w \<Rightarrow> bool) \<Rightarrow> (nat \<Rightarrow> int) \<Rightarrow> 'w core \<Rightarrow> bool" where
  "ready I m s \<longleftrightarrow> core_inv (the_app m I (pp_refs (nc_recv s))) (\<lambda>_. 0) {} s"

lemma readyD:
  assumes "ready I m s"
  shows "pp_inv (nc_send s)" "pp_inv (nc_recv s)" "I (pp_refs (nc_recv s)) (length (nc_mSessionPool s)) (nc_world s)"
    "held s a + m a \<le> pp_refs (nc_send s) a" "0 \<le> m a" "0 \<le> held s a"
proof -
  show "pp_inv (nc_send s)" "pp_inv (nc_recv s)" "I (pp_refs (nc_recv s)) (length (nc_mSessionPool s)) (nc_world s)"
    "held s a + m a \<le> pp_refs (nc_send s) a" "0 \<le> m a"
    using assms by (auto simp: ready_def core_inv_def core_base_def Let_def)
  show "0 \<le> held s a" unfolding held_def by (rule sum_list_nonneg) auto
qed

lemma ready_held: "ready I m s \<Longrightarrow> m a \<le> pp_refs (nc_send s) a"
  using readyD(4,6) [of I m s a] by linarith

text \<open>The rule for everything that leaves the sessions alone.\<close>

lemma ready_update:
  assumes r: "ready I m s"
    and s': "nc_mSessionPool s' = nc_mSessionPool s" "nc_mUnusedSession s' = nc_mUnusedSession s"
      "nc_mConnectedSessionCount s' = nc_mConnectedSessionCount s" "nc_log s' = nc_log s" "nc_recvs s' = nc_recvs s"
      "nc_sends s' = nc_sends s"
    and p: "pp_inv (nc_send s')" "pp_inv (nc_recv s')" "\<And>a. 0 \<le> m' a"
      "\<And>a. pp_refs (nc_send s) a - m a \<le> pp_refs (nc_send s') a - m' a"
    and w: "I' (pp_refs (nc_recv s')) (length (nc_mSessionPool s)) (nc_world s')"
  shows "ready I' m' s'"
proof -
  have e: "ses s' = ses s" "live s' = live s" "held s' = held s" using s'(1) by (simp_all add: ses_def live_def held_def fun_eq_iff)
  have "held s a + m' a \<le> pp_refs (nc_send s') a" for a using readyD(4) [OF r, of a] p(4) [of a] by linarith
  then show ?thesis
    using r s' p w unfolding ready_def core_inv_def core_base_def log_ok_def Let_def e by simp
qed

lemma ready_world: "ready I m s \<Longrightarrow> I' (pp_refs (nc_recv s)) (length (nc_mSessionPool s)) w \<Longrightarrow> ready I' m (s\<lparr>nc_world := w\<rparr>)"
  by (rule ready_update [of I m s]) (simp_all add: readyD(1,2,5))

text \<open>What the packets and the sessions do when nothing but them is touched.\<close>

definition same_app :: "'w core \<Rightarrow> 'w core \<Rightarrow> bool" where
  "same_app s s' \<longleftrightarrow> nc_world s' = nc_world s \<and> pp_refs (nc_recv s') = pp_refs (nc_recv s) \<and>
     length (nc_mSessionPool s') = length (nc_mSessionPool s)"

lemma pp_refs_obj: "pp_objs s a = Some p \<Longrightarrow> pk_mRefCount p' = pk_mRefCount p \<Longrightarrow>
    pp_refs (s\<lparr>pp_objs := (pp_objs s)(a \<mapsto> p')\<rparr>) = pp_refs s"
  by (auto simp: pp_refs_def)

lemma recv_get_ok:
  assumes r: "ready I m s" and p: "pp_objs (nc_recv s) a = Some p" and n: "n \<le> length data"
  shows "if n \<le> length (pk_unread p)
    then \<exists>s' p'. recv_get (Some a) n data s = Inr (s', take n (pk_unread p) @ drop n data) \<and> ready I m s' \<and>
        nc_world s' = nc_world s \<and> nc_send s' = nc_send s \<and> pp_refs (nc_recv s') = pp_refs (nc_recv s) \<and>
        nc_mSessionPool s' = nc_mSessionPool s \<and> pp_objs (nc_recv s') a = Some p' \<and> pk_unread p' = drop n (pk_unread p)
    else recv_get (Some a) n data s = Inl ReaderException"
proof -
  have inv: "pp_inv (nc_recv s)" by (rule readyD(2) [OF r])
  then have np: "net_packet p" using p by (simp add: pp_inv_def)
  then have pi: "pk_inv p" by (simp add: net_packet_def)
  note g = GetBody_eq [OF pi n]
  show ?thesis
  proof (cases "n \<le> length (pk_unread p)")
    case True
    let ?p = "p\<lparr>pk_mReadPos := pk_mReadPos p + n\<rparr>"
    let ?s = "s\<lparr>nc_recv := (nc_recv s)\<lparr>pp_objs := (pp_objs (nc_recv s))(a \<mapsto> ?p)\<rparr>\<rparr>"
    have np': "net_packet ?p" using np pk_inv_read [OF pi True] by (simp add: net_packet_def)
    have refs: "pp_refs (nc_recv ?s) = pp_refs (nc_recv s)" using pp_refs_obj [OF p, of ?p] by simp
    have "pp_inv (nc_recv ?s)" using pp_inv_same_refs(1) [OF inv p np'] by simp
    then have "ready I m ?s" using readyD [OF r] refs by (intro ready_update [OF r]) (simp_all del: fun_upd_apply)
    moreover have "recv_get (Some a) n data s = Inr (?s, take n (pk_unread p) @ drop n data)"
      using p g True by (simp add: recv_get_def)
    ultimately show ?thesis using True refs by (auto simp: pk_unread_read intro!: exI [of _ ?s] exI [of _ ?p])
  next
    case False
    then show ?thesis using p g by (simp add: recv_get_def)
  qed
qed

lemma alloc_send_ok:
  assumes r: "ready I m s" and mem: "mem_ok mem"
  shows "\<exists>s' a. alloc_send t mem s = Inr (s', a) \<and> ready I (m(a := m a + 1)) s' \<and> nc_world s' = nc_world s \<and>
    nc_recv s' = nc_recv s \<and> nc_mSessionPool s' = nc_mSessionPool s \<and>
    pp_objs (nc_send s') a = Some ((Packet_Initial 5 4096 (mem a))\<lparr>pk_mRefCount := 1\<rparr>)"
proof -
  obtain pool a where p: "AllocPacket t mem (nc_send s) = Inr (pool, a)" "pp_inv pool" "pp_objs (nc_send s) a = None"
    "pp_objs pool = (pp_objs (nc_send s))(a \<mapsto> (Packet_Initial 5 4096 (mem a))\<lparr>pk_mRefCount := 1\<rparr>)"
    using AllocPacket_ok [OF readyD(1) [OF r] mem] by metis
  have refs: "pp_refs pool = (pp_refs (nc_send s))(a := 1)" using p(3,4) by (auto simp: pp_refs_def)
  have z: "pp_refs (nc_send s) a = 0" using p(3) by (simp add: pp_refs_def)
  have "ready I (m(a := m a + 1)) (s\<lparr>nc_send := pool\<rparr>)"
    using readyD [OF r] p(2) refs z ready_held [OF r, of a] by (intro ready_update [OF r]) auto
  then show ?thesis using p(1,4) by (intro exI [of _ "s\<lparr>nc_send := pool\<rparr>"] exI [of _ a]) (simp add: alloc_send_def)
qed

lemma send_put_ok:
  assumes r: "ready I m s" and a: "pp_objs (nc_send s) a = Some p" and n: "n \<le> length data"
  shows "\<exists>s' p'. send_put a data n s = Inr (s', ()) \<and> ready I m s' \<and> nc_world s' = nc_world s \<and>
    nc_recv s' = nc_recv s \<and> nc_mSessionPool s' = nc_mSessionPool s \<and> pp_objs (nc_send s') a = Some p' \<and>
    pk_body p' = pk_body p @ take (min n (4096 - pk_mWritePos p)) data \<and>
    pk_mWritePos p' = pk_mWritePos p + min n (4096 - pk_mWritePos p)"
proof -
  have inv: "pp_inv (nc_send s)" by (rule readyD(1) [OF r])
  then have np: "net_packet p" using a by (simp add: pp_inv_def)
  then have pi: "pk_inv p" "pk_tBodyCapacity p = 4096" by (simp_all add: net_packet_def)
  obtain p' where p': "PutBody p data n = Inr (p', min n (4096 - pk_mWritePos p))" "pk_inv p'"
    "pk_body p' = pk_body p @ take (min n (4096 - pk_mWritePos p)) data"
    "p' = p\<lparr>pk_mBuffer := pk_mBuffer p', pk_mWritePos := pk_mWritePos p + min n (4096 - pk_mWritePos p)\<rparr>"
    using PutBody_spec [OF pi(1) n] pi(2) by auto
  have sel: "pk_mRefCount p' = pk_mRefCount p" "pk_tHeaderSize p' = pk_tHeaderSize p" "pk_tBodyCapacity p' = pk_tBodyCapacity p"
    "pk_mWritePos p' = pk_mWritePos p + min n (4096 - pk_mWritePos p)"
    by (subst p'(4), simp)+
  have np': "net_packet p'" using np p'(2) sel by (simp add: net_packet_def)
  let ?s = "s\<lparr>nc_send := (nc_send s)\<lparr>pp_objs := (pp_objs (nc_send s))(a \<mapsto> p')\<rparr>\<rparr>"
  have refs: "pp_refs (nc_send ?s) = pp_refs (nc_send s)" using pp_refs_obj [OF a sel(1)] by simp
  have "pp_inv (nc_send ?s)" using pp_inv_same_refs(1) [OF inv a np' sel(1)] by simp
  then have "ready I m ?s" using readyD [OF r] refs by (intro ready_update [OF r]) (simp_all del: fun_upd_apply)
  then show ?thesis using a p'(1,3) sel(4) by (intro exI [of _ ?s] exI [of _ p']) (simp add: send_put_def)
qed

lemma free_send_ok:
  assumes r: "ready I m s" and a: "0 < m a"
  shows "\<exists>s'. free_send a s = Inr (s', ()) \<and> ready I (m(a := m a - 1)) s' \<and> nc_world s' = nc_world s \<and>
    nc_recv s' = nc_recv s \<and> nc_mSessionPool s' = nc_mSessionPool s"
proof -
  have "0 < pp_refs (nc_send s) a" using ready_held [OF r, of a] a by linarith
  then obtain pool ok where p: "TryFreePacket (nc_send s) a = Inr (pool, ok)" "pp_inv pool"
    "pp_refs pool = (pp_refs (nc_send s))(a := pp_refs (nc_send s) a - 1)"
    using TryFreePacket_ok [OF readyD(1) [OF r]] by metis
  have "ready I (m(a := m a - 1)) (s\<lparr>nc_send := pool\<rparr>)"
    using readyD [OF r] p(2,3) a by (intro ready_update [OF r]) auto
  then show ?thesis using p(1) by (intro exI [of _ "s\<lparr>nc_send := pool\<rparr>"]) (simp add: free_send_def)
qed

lemma ready_frame:
  "core_inv (the_app m I (pp_refs (nc_recv s))) (\<lambda>_. 0) {} s' \<Longrightarrow> core_frame s s' \<Longrightarrow>
   ready I m s' \<and> length (nc_mSessionPool s') = length (nc_mSessionPool s) \<and> nc_recv s' = nc_recv s"
  by (simp add: ready_def core_frame_def)

lemma ready_SendPacket:
  assumes ev: "app_ok I ev" and r: "ready I m s" and a: "0 < m a" and n: "unat (SessionIndex sid) < length (nc_mSessionPool s)"
  shows "rok (\<lambda>(s', _). ready I m s' \<and> length (nc_mSessionPool s') = length (nc_mSessionPool s) \<and> nc_recv s' = nc_recv s)
    (SendPacket ev rnd reply sid a s)"
  by (rule rok_mono [OF SendPacket_ok [OF app_okD [OF ev] r [unfolded ready_def] n]])
    (use ready_held [OF r, of a] a in \<open>auto dest: ready_frame\<close>)

lemma ready_Disconnect:
  assumes ev: "app_ok I ev" and r: "ready I m s" and n: "unat (SessionIndex sid) < length (nc_mSessionPool s)"
  shows "rok (\<lambda>(s', _). ready I m s' \<and> length (nc_mSessionPool s') = length (nc_mSessionPool s) \<and> nc_recv s' = nc_recv s)
    (Disconnect ev sid s)"
  by (rule rok_mono [OF Disconnect_ok [OF app_okD [OF ev] r [unfolded ready_def] n]]) (auto dest: ready_frame)

subsection \<open>The users\<close>

text \<open>
  The two maps are the inverses of \<^verbatim>\<open>GetSessionID\<close> and \<^verbatim>\<open>AccountNo\<close> on the constructed users, so a session has at most
  one user and an account at most one session; the constructed users are the ones the pool has handed out.
\<close>

definition um_inv :: "nat \<Rightarrow> ChatUserManager \<Rightarrow> bool" where
  "um_inv n s \<longleftrightarrow>
     op_inv CallConstructorDestructor (um_mUserPool s) \<and> op_live (um_mUserPool s) = dom (um_users s) \<and>
     (\<forall>sid a. um_mSessionUserMap s sid = Some a \<longleftrightarrow> (\<exists>u. um_users s a = Some u \<and> cu_mSessionID u = sid)) \<and>
     (\<forall>no a. um_mAccountUserMap s no = Some a \<longleftrightarrow> (\<exists>u. um_users s a = Some u \<and> cu_AccountNo u = no)) \<and>
     (\<forall>a u. um_users s a = Some u \<longrightarrow> length (cu_ID u) = 20 \<and> length (cu_Nickname u) = 20 \<and>
        unat (SessionIndex (cu_mSessionID u)) < n)"

definition pos_map :: "ChatUserManager \<Rightarrow> nat \<rightharpoonup> int2" where
  "pos_map s a = (case um_users s a of
     None \<Rightarrow> None | Some u \<Rightarrow> if cu_mCurSectorPos u = mInvalidSectorPos then None else Some (cu_mCurSectorPos u))"

text \<open>The memory that the pool hands out for a user.\<close>

definition user_mem_ok :: "(nat \<Rightarrow> u16 list \<times> u16 list \<times> byte list) \<Rightarrow> bool" where
  "user_mem_ok mem \<longleftrightarrow> (\<forall>a. case mem a of (x, y, z) \<Rightarrow> length x = 20 \<and> length y = 20 \<and> length z = 64)"

lemma user_mem_okE:
  assumes "user_mem_ok mem"
  obtains x y z where "mem a = (x, y, z)" "length x = 20" "length y = 20" "length z = 64"
proof -
  have "case mem a of (x, y, z) \<Rightarrow> length x = 20 \<and> length y = 20 \<and> length z = 64"
    using assms by (simp add: user_mem_ok_def)
  then show ?thesis using that by (cases "mem a") simp
qed

text \<open>A name that \<^verbatim>\<open>wcsncpy_s\<close> accepts: there is a null among its 20 characters.\<close>

definition terminated :: "u16 list \<Rightarrow> bool" where
  "terminated cs \<longleftrightarrow> 0 \<in> set (take 20 cs)"

lemma takeWhile_shorter: "x \<in> set xs \<Longrightarrow> \<not> P x \<Longrightarrow> length (takeWhile P xs) < length xs"
  by (induction xs) auto

lemma wcsncpy_s_ok:
  assumes "length dst = 20" "length src = 20"
  shows "terminated src \<Longrightarrow> \<exists>y. wcsncpy_s dst src 20 = Inr y \<and> length y = 20 \<and>
      takeWhile (\<lambda>c. c \<noteq> 0) y = takeWhile (\<lambda>c. c \<noteq> 0) src"
    and "\<not> terminated src \<Longrightarrow> wcsncpy_s dst src 20 = Inl InvalidParameter"
proof -
  let ?cs = "takeWhile (\<lambda>c. c \<noteq> 0) src"
  show "\<exists>y. wcsncpy_s dst src 20 = Inr y \<and> length y = 20 \<and> takeWhile (\<lambda>c. c \<noteq> 0) y = ?cs" if "terminated src"
  proof -
    have l: "length ?cs < 20" using takeWhile_shorter [of 0 src "\<lambda>c. c \<noteq> 0"] that assms(2) by (simp add: terminated_def)
    have "takeWhile (\<lambda>c. c \<noteq> 0) (?cs @ 0 # ys) = ?cs" for ys by (induction src) auto
    then show ?thesis using l assms by (intro exI [of _ "?cs @ 0 # drop (Suc (length ?cs)) dst"]) (simp add: wcsncpy_s_def Let_def)
  qed
  show "wcsncpy_s dst src 20 = Inl InvalidParameter" if "\<not> terminated src"
  proof -
    have "\<forall>c \<in> set src. c \<noteq> 0" using that assms(2) by (metis terminated_def take_all order_refl)
    then have "?cs = src" by (simp add: takeWhile_eq_all_conv)
    then have "length ?cs = 20" by (simp only: assms(2))
    then show ?thesis using assms by (simp add: wcsncpy_s_def Let_def)
  qed
qed

lemma strncpy_ok:
  assumes "length dst = 64" "length src = 64"
  shows "\<exists>y. strncpy dst src 64 = Inr y \<and> length y = 64"
proof -
  let ?cs = "takeWhile (\<lambda>c. c \<noteq> 0) src"
  have "length ?cs \<le> 64" using length_takeWhile_le [of "\<lambda>c. c \<noteq> 0" src] assms(2) by simp
  then show ?thesis using assms by (simp add: strncpy_def mem_write_def Let_def)
qed

definition names_ok :: "login_request \<Rightarrow> bool" where
  "names_ok q \<longleftrightarrow> length (lq_ID q) = 20 \<and> length (lq_Nickname q) = 20 \<and> length (lq_SessionKey q) = 64"

lemma ChatUser_Create_ok:
  assumes "user_mem_ok mem" "names_ok q" "terminated (lq_ID q)" "terminated (lq_Nickname q)"
  obtains u where "ChatUser_Create (mem a) sid q = Inr u" "cu_AccountNo u = lq_AccountNo q" "cu_mSessionID u = sid"
    "cu_mCurSectorPos u = mInvalidSectorPos" "length (cu_ID u) = 20" "length (cu_Nickname u) = 20"
    "takeWhile (\<lambda>c. c \<noteq> 0) (cu_ID u) = takeWhile (\<lambda>c. c \<noteq> 0) (lq_ID q)"
    "takeWhile (\<lambda>c. c \<noteq> 0) (cu_Nickname u) = takeWhile (\<lambda>c. c \<noteq> 0) (lq_Nickname q)"
proof -
  obtain x y z where g: "mem a = (x, y, z)" "length x = 20" "length y = 20" "length z = 64"
    by (rule user_mem_okE [OF assms(1)])
  obtain i where i: "wcsncpy_s x (lq_ID q) 20 = Inr i" "length i = 20" "takeWhile (\<lambda>c. c \<noteq> 0) i = takeWhile (\<lambda>c. c \<noteq> 0) (lq_ID q)"
    using wcsncpy_s_ok(1) [OF g(2)] assms(2,3) by (auto simp: names_ok_def)
  obtain n where n: "wcsncpy_s y (lq_Nickname q) 20 = Inr n" "length n = 20"
    "takeWhile (\<lambda>c. c \<noteq> 0) n = takeWhile (\<lambda>c. c \<noteq> 0) (lq_Nickname q)"
    using wcsncpy_s_ok(1) [OF g(3)] assms(2,4) by (auto simp: names_ok_def)
  obtain k where k: "strncpy z (lq_SessionKey q) 64 = Inr k" using strncpy_ok [OF g(4)] assms(2) by (auto simp: names_ok_def)
  show ?thesis
    by (rule that [of "\<lparr>cu_AccountNo = lq_AccountNo q, cu_ID = i, cu_Nickname = n, cu_SessionKey = k, cu_mSessionID = sid,
        cu_mCurSectorPos = mInvalidSectorPos\<rparr>"]) (use g(1) i n k in \<open>simp_all add: ChatUser_Create_def\<close>)
qed

lemma um_inv_maps:
  assumes "um_inv n s"
  shows "um_mSessionUserMap s sid = Some a \<longleftrightarrow> (\<exists>u. um_users s a = Some u \<and> cu_mSessionID u = sid)"
    and "um_mAccountUserMap s no = Some a \<longleftrightarrow> (\<exists>u. um_users s a = Some u \<and> cu_AccountNo u = no)"
    and "um_users s a = Some u \<Longrightarrow> length (cu_ID u) = 20 \<and> length (cu_Nickname u) = 20 \<and> unat (SessionIndex (cu_mSessionID u)) < n"
  using assms by (auto simp: um_inv_def)

lemma AddUser_cases:
  assumes inv: "um_inv n s" and mem: "user_mem_ok mem" and q: "names_ok q" and idx: "unat (SessionIndex sid) < n"
  shows "um_mSessionUserMap s sid \<noteq> None \<or> um_mAccountUserMap s (lq_AccountNo q) \<noteq> None \<Longrightarrow> AddUser mem sid q s = Inr (s, None)"
    and "um_mSessionUserMap s sid = None \<Longrightarrow> um_mAccountUserMap s (lq_AccountNo q) = None \<Longrightarrow>
      terminated (lq_ID q) \<Longrightarrow> terminated (lq_Nickname q) \<Longrightarrow>
      \<exists>s' a u. AddUser mem sid q s = Inr (s', Some a) \<and> um_inv n s' \<and> um_users s a = None \<and>
        um_users s' = (um_users s)(a \<mapsto> u) \<and> cu_AccountNo u = lq_AccountNo q \<and> cu_mSessionID u = sid \<and>
        cu_mCurSectorPos u = mInvalidSectorPos \<and>
        takeWhile (\<lambda>c. c \<noteq> 0) (cu_ID u) = takeWhile (\<lambda>c. c \<noteq> 0) (lq_ID q) \<and>
        takeWhile (\<lambda>c. c \<noteq> 0) (cu_Nickname u) = takeWhile (\<lambda>c. c \<noteq> 0) (lq_Nickname q)"
proof -
  show "AddUser mem sid q s = Inr (s, None)" if "um_mSessionUserMap s sid \<noteq> None \<or> um_mAccountUserMap s (lq_AccountNo q) \<noteq> None"
    using that by (auto simp: AddUser_def)
  assume free: "um_mSessionUserMap s sid = None" "um_mAccountUserMap s (lq_AccountNo q) = None"
    and t: "terminated (lq_ID q)" "terminated (lq_Nickname q)"
  obtain pool a where p: "ObjectPool_Rent CallConstructorDestructor (um_mUserPool s) = Inr (pool, a)"
    "op_inv CallConstructorDestructor pool" "a \<notin> op_live (um_mUserPool s)" "op_live pool = insert a (op_live (um_mUserPool s))"
    using op.rentE [of CallConstructorDestructor "um_mUserPool s"] inv unfolding um_inv_def by metis
  obtain u where u: "ChatUser_Create (mem a) sid q = Inr u" "cu_AccountNo u = lq_AccountNo q" "cu_mSessionID u = sid"
    "cu_mCurSectorPos u = mInvalidSectorPos" "length (cu_ID u) = 20" "length (cu_Nickname u) = 20"
    "takeWhile (\<lambda>c. c \<noteq> 0) (cu_ID u) = takeWhile (\<lambda>c. c \<noteq> 0) (lq_ID q)"
    "takeWhile (\<lambda>c. c \<noteq> 0) (cu_Nickname u) = takeWhile (\<lambda>c. c \<noteq> 0) (lq_Nickname q)"
    using ChatUser_Create_ok [OF mem q t] by metis
  let ?s' = "s\<lparr>um_mUserPool := pool, um_users := (um_users s)(a \<mapsto> u),
    um_mAccountUserMap := (um_mAccountUserMap s)(cu_AccountNo u \<mapsto> a), um_mSessionUserMap := (um_mSessionUserMap s)(sid \<mapsto> a)\<rparr>"
  have na: "um_users s a = None" using p(3) inv by (auto simp: um_inv_def)
  note m = um_inv_maps [OF inv]
  have "um_mSessionUserMap ?s' sid' = Some b \<longleftrightarrow> (\<exists>v. um_users ?s' b = Some v \<and> cu_mSessionID v = sid')" for sid' b
    using m(1) [of sid' b] m(1) [of sid b] free(1) na u(3) by auto
  moreover have "um_mAccountUserMap ?s' no = Some b \<longleftrightarrow> (\<exists>v. um_users ?s' b = Some v \<and> cu_AccountNo v = no)" for no b
    using m(2) [of no b] m(2) [of "lq_AccountNo q" b] free(2) na u(2) by auto
  moreover have "length (cu_ID v) = 20 \<and> length (cu_Nickname v) = 20 \<and> unat (SessionIndex (cu_mSessionID v)) < n"
    if "um_users ?s' b = Some v" for b v
    using that m(3) [of b v] u(3,5,6) idx by (auto split: if_splits)
  ultimately have "um_inv n ?s'"
    using p inv unfolding um_inv_def by simp
  moreover have "AddUser mem sid q s = Inr (?s', Some a)" using free p(1) u(1) by (simp add: AddUser_def)
  ultimately show "\<exists>s' a u. AddUser mem sid q s = Inr (s', Some a) \<and> um_inv n s' \<and> um_users s a = None \<and>
        um_users s' = (um_users s)(a \<mapsto> u) \<and> cu_AccountNo u = lq_AccountNo q \<and> cu_mSessionID u = sid \<and>
        cu_mCurSectorPos u = mInvalidSectorPos \<and>
        takeWhile (\<lambda>c. c \<noteq> 0) (cu_ID u) = takeWhile (\<lambda>c. c \<noteq> 0) (lq_ID q) \<and>
        takeWhile (\<lambda>c. c \<noteq> 0) (cu_Nickname u) = takeWhile (\<lambda>c. c \<noteq> 0) (lq_Nickname q)"
    using na u by (intro exI [of _ ?s'] exI [of _ a] exI [of _ u]) simp
qed

lemma AddUser_unterminated:
  assumes inv: "um_inv n s" and mem: "user_mem_ok mem" and q: "names_ok q"
    and free: "um_mSessionUserMap s sid = None" "um_mAccountUserMap s (lq_AccountNo q) = None" and t: "\<not> terminated (lq_ID q)"
  shows "AddUser mem sid q s = Inl InvalidParameter"
proof -
  obtain pool a where p: "ObjectPool_Rent CallConstructorDestructor (um_mUserPool s) = Inr (pool, a)"
    using op.rentE [of CallConstructorDestructor "um_mUserPool s"] inv unfolding um_inv_def by metis
  obtain x y z where g: "mem a = (x, y, z)" "length x = 20" by (rule user_mem_okE [OF mem])
  show ?thesis
    using free p g wcsncpy_s_ok(2) [OF g(2) _ t] q by (simp add: AddUser_def ChatUser_Create_def names_ok_def)
qed

lemma RemoveUser_ok:
  assumes inv: "um_inv n s" and a: "um_mSessionUserMap s sid = Some a"
  shows "\<exists>s'. RemoveUser sid s = Inr s' \<and> um_inv n s' \<and> um_users s' = (um_users s)(a := None)"
proof -
  note m = um_inv_maps [OF inv]
  obtain u where u: "um_users s a = Some u" "cu_mSessionID u = sid" using m(1) a by blast
  have no: "um_mAccountUserMap s (cu_AccountNo u) = Some a" using m(2) u(1) by blast
  have "a \<in> op_live (um_mUserPool s)" using inv u(1) by (auto simp: um_inv_def)
  then obtain pool where p: "ObjectPool_Return CallConstructorDestructor (um_mUserPool s) a = Inr (pool, True)"
    "op_inv CallConstructorDestructor pool" "op_live pool = op_live (um_mUserPool s) - {a}"
    using op.retE [of CallConstructorDestructor "um_mUserPool s" a] inv unfolding um_inv_def by metis
  let ?s' = "s\<lparr>um_mSessionUserMap := (um_mSessionUserMap s)(sid := None),
    um_mAccountUserMap := (um_mAccountUserMap s)(cu_AccountNo u := None), um_mUserPool := pool, um_users := (um_users s)(a := None)\<rparr>"
  have "um_mSessionUserMap ?s' sid' = Some b \<longleftrightarrow> (\<exists>v. um_users ?s' b = Some v \<and> cu_mSessionID v = sid')" for sid' b
    using m(1) [of sid' b] m(1) [of sid b] a u by auto
  moreover have "um_mAccountUserMap ?s' no' = Some b \<longleftrightarrow> (\<exists>v. um_users ?s' b = Some v \<and> cu_AccountNo v = no')" for no' b
    using m(2) [of no' b] m(2) [of "cu_AccountNo u" b] no u by auto
  moreover have "op_live pool = dom (um_users ?s')" using p(3) inv by (auto simp: um_inv_def)
  ultimately have "um_inv n ?s'" using p(2) m(3) unfolding um_inv_def by (auto split: if_splits)
  then show ?thesis using a u(1) no p(1) by (intro exI [of _ ?s']) (simp add: RemoveUser_def)
qed

subsection \<open>The grid of users\<close>

text \<open>
  The manager keeps the contract of a grid of sectors. The destination is the position that is asked for; a user
  that does not exist has no place in the grid.
\<close>

abbreviation ch_users :: "chat \<Rightarrow> nat \<rightharpoonup> ChatUser" where
  "ch_users w \<equiv> um_users (ch_mUserManager w)"

definition cs_grid :: "ChatSectors \<Rightarrow> (nat \<rightharpoonup> int2) \<Rightarrow> bool" where
  "cs_grid S m \<longleftrightarrow> grid_inv (cs_mWidth S) (cs_mHeight S) (cs_mSector S) m"

definition cs_inv :: "chat \<Rightarrow> (nat \<rightharpoonup> int2) \<Rightarrow> bool" where
  "cs_inv w m \<longleftrightarrow> cs_grid (ch_mSectorManager w) m \<and>
     (\<forall>u p. m u = Some p \<longrightarrow> (\<exists>c. ch_users w u = Some c \<and> cu_mCurSectorPos c = p))"

definition cs_in :: "chat \<Rightarrow> int2 \<Rightarrow> bool" where
  "cs_in w = in_grid (cs_mWidth (ch_mSectorManager w)) (cs_mHeight (ch_mSectorManager w))"

definition cs_dest :: "int2 \<Rightarrow> nat \<Rightarrow> chat \<Rightarrow> int2" where
  "cs_dest p u w = (if ch_users w u = None then mInvalidSectorPos else p)"

definition cs_reach :: "int2 \<Rightarrow> chat \<Rightarrow> nat list res" where
  "cs_reach p w =
     (let S = ch_mSectorManager w in
      rbind (GetSectorAround (cs_mWidth S) (cs_mHeight S) (i2_X p) (i2_Y p) []) (cells (cs_mWidth S) (cs_mSector S)))"

lemma not_in_grid_invalid [simp]: "\<not> in_grid w h mInvalidSectorPos"
  by (simp add: in_grid_def mInvalidSectorPos_def)

lemma InsertSectorUser_ok:
  assumes inv: "cs_inv w m" and u: "m u = None" "ch_users w u = Some c" and p: "cs_in w p"
  shows "\<exists>w'. InsertSectorUser u p w = Inr w' \<and> cs_inv w' (m(u \<mapsto> p)) \<and> cs_in w' = cs_in w \<and>
    w' = w\<lparr>ch_mUserManager := (ch_mUserManager w)\<lparr>um_users := (ch_users w)(u \<mapsto> c\<lparr>cu_mCurSectorPos := p\<rparr>)\<rparr>,
           ch_mSectorManager := ch_mSectorManager w'\<rparr> \<and> cs_mWidth (ch_mSectorManager w') = cs_mWidth (ch_mSectorManager w) \<and>
    cs_mHeight (ch_mSectorManager w') = cs_mHeight (ch_mSectorManager w)"
proof -
  let ?S = "ch_mSectorManager w" let ?k = "cell (cs_mWidth ?S) p"
  have g: "grid_inv (cs_mWidth ?S) (cs_mHeight ?S) (cs_mSector ?S) m" using inv by (simp add: cs_inv_def cs_grid_def)
  have "sector_at (cs_mWidth ?S) (cs_mSector ?S) p = Inr ?k" by (rule sector_at_ok [OF g]) (use p in \<open>simp add: cs_in_def\<close>)
  then have "InsertSectorUser u p w = Inr (set_pos u c p (set_sector ?k (cs_mSector ?S ! ?k @ [u]) w))"
    using u(2) by (simp add: InsertSectorUser_def chat_sector_def the_user_def)
  moreover have "cs_inv (set_pos u c p (set_sector ?k (cs_mSector ?S ! ?k @ [u]) w)) (m(u \<mapsto> p))"
    using grid_inv_enter [OF g u(1), of p] p inv by (auto simp: cs_inv_def cs_grid_def cs_in_def set_pos_def set_sector_def)
  ultimately show ?thesis by (auto simp: set_pos_def set_sector_def cs_in_def fun_eq_iff)
qed

lemma RemoveSectorUser_ok:
  assumes inv: "cs_inv w m" and u: "m u = Some p"
  shows "\<exists>w'. RemoveSectorUser u w = Inr w' \<and> cs_inv w' (m(u := None)) \<and> cs_in w' = cs_in w \<and>
    w' = w\<lparr>ch_mSectorManager := ch_mSectorManager w'\<rparr> \<and> cs_mWidth (ch_mSectorManager w') = cs_mWidth (ch_mSectorManager w) \<and>
    cs_mHeight (ch_mSectorManager w') = cs_mHeight (ch_mSectorManager w)"
proof -
  let ?S = "ch_mSectorManager w" let ?k = "cell (cs_mWidth ?S) p"
  have g: "grid_inv (cs_mWidth ?S) (cs_mHeight ?S) (cs_mSector ?S) m" using inv by (simp add: cs_inv_def cs_grid_def)
  note l = grid_inv_leave [OF g u]
  obtain c where c: "ch_users w u = Some c" "cu_mCurSectorPos c = p" using inv u by (auto simp: cs_inv_def)
  have "p \<noteq> mInvalidSectorPos" using l(2) by auto
  then have "RemoveSectorUser u w = Inr (set_sector ?k (remove1 u (cs_mSector ?S ! ?k)) w)"
    using c l(1) sector_at_ok [OF g l(2)] by (simp add: RemoveSectorUser_def the_user_def chat_sector_def)
  moreover have "cs_inv (set_sector ?k (remove1 u (cs_mSector ?S ! ?k)) w) (m(u := None))"
    using l(3) inv by (auto simp: cs_inv_def cs_grid_def set_sector_def)
  ultimately show ?thesis by (auto simp: set_sector_def cs_in_def fun_eq_iff)
qed

interpretation cs: sector_grid cs_inv cs_in cs_dest "\<lambda>p u. InsertSectorUser u p" RemoveSectorUser cs_reach
proof
  show "\<exists>w'. InsertSectorUser u p w = Inr w' \<and> cs_inv w' (m(u \<mapsto> cs_dest p u w)) \<and> cs_in w' = cs_in w \<and>
      (\<forall>r v. cs_dest r v w' = cs_dest r v w)"
    if inv: "cs_inv w m" and u: "m u = None" "cs_in w (cs_dest p u w)" for w m p u
  proof -
    obtain c where c: "ch_users w u = Some c" and p: "cs_in w p" "cs_dest p u w = p"
      using u(2) by (auto simp: cs_dest_def cs_in_def split: if_splits)
    obtain w' where w: "InsertSectorUser u p w = Inr w'" "cs_inv w' (m(u \<mapsto> p))" "cs_in w' = cs_in w"
      "w' = w\<lparr>ch_mUserManager := (ch_mUserManager w)\<lparr>um_users := (ch_users w)(u \<mapsto> c\<lparr>cu_mCurSectorPos := p\<rparr>)\<rparr>,
           ch_mSectorManager := ch_mSectorManager w'\<rparr>"
      using InsertSectorUser_ok [OF inv u(1) c p(1)] by blast
    have "ch_users w' v = None \<longleftrightarrow> ch_users w v = None" for v using c by (subst w(4)) simp
    then show ?thesis using w(1-3) p(2) by (intro exI [of _ w']) (simp add: cs_dest_def)
  qed
  show "\<exists>w'. RemoveSectorUser u w = Inr w' \<and> cs_inv w' (m(u := None)) \<and> cs_in w' = cs_in w \<and>
      (\<forall>r v. cs_dest r v w' = cs_dest r v w)"
    if inv: "cs_inv w m" and some: "m u \<noteq> None" for w m u
  proof -
    obtain p where u: "m u = Some p" using some by blast
    obtain w' where w: "RemoveSectorUser u w = Inr w'" "cs_inv w' (m(u := None))" "cs_in w' = cs_in w"
      "w' = w\<lparr>ch_mSectorManager := ch_mSectorManager w'\<rparr>"
      using RemoveSectorUser_ok [OF inv u] by blast
    have "ch_users w' = ch_users w" by (subst w(4)) simp
    then show ?thesis using w(1-3) by (intro exI [of _ w']) (simp add: cs_dest_def)
  qed
  show "\<exists>us. cs_reach c w = Inr us \<and> distinct us \<and> set us = {u. \<exists>q. m u = Some q \<and> near c q}"
    if "cs_inv w m" for w m c
    using that reach_ok [of "cs_mWidth (ch_mSectorManager w)" "cs_mHeight (ch_mSectorManager w)" "cs_mSector (ch_mSectorManager w)" m c]
    by (auto simp: cs_inv_def cs_grid_def cs_reach_def GetSectorAround_eq Let_def)
qed

lemma pos_map_Some: "pos_map s a = Some p \<longleftrightarrow> (\<exists>u. um_users s a = Some u \<and> cu_mCurSectorPos u = p \<and> p \<noteq> mInvalidSectorPos)"
  by (auto simp: pos_map_def split: option.splits)

lemma cs_inv_pos_map: "cs_inv w (pos_map (ch_mUserManager w)) \<longleftrightarrow> cs_grid (ch_mSectorManager w) (pos_map (ch_mUserManager w))"
  by (auto simp: cs_inv_def pos_map_Some)

text \<open>Moving a user into the grid or inside it.\<close>

lemma TryMove_ok:
  assumes g: "cs_grid (ch_mSectorManager w) (pos_map (ch_mUserManager w))" and u: "ch_users w a = Some u" and p: "cs_in w p"
  shows "\<exists>w'. TryMove a p w = Inr (w', cu_mCurSectorPos u \<noteq> p) \<and>
    ch_mUserManager w' = (ch_mUserManager w)\<lparr>um_users := (ch_users w)(a \<mapsto> u\<lparr>cu_mCurSectorPos := p\<rparr>)\<rparr> \<and>
    cs_grid (ch_mSectorManager w') (pos_map (ch_mUserManager w')) \<and>
    pos_map (ch_mUserManager w') = (pos_map (ch_mUserManager w))(a \<mapsto> p) \<and>
    w' = w\<lparr>ch_mUserManager := ch_mUserManager w', ch_mSectorManager := ch_mSectorManager w'\<rparr> \<and>
    cs_mWidth (ch_mSectorManager w') = cs_mWidth (ch_mSectorManager w) \<and>
    cs_mHeight (ch_mSectorManager w') = cs_mHeight (ch_mSectorManager w)"
proof -
  let ?m = "pos_map (ch_mUserManager w)"
  have pi: "p \<noteq> mInvalidSectorPos" using p by (auto simp: cs_in_def)
  have inv: "cs_inv w ?m" using g by (simp add: cs_inv_pos_map)
  have enter: "\<exists>w'. InsertSectorUser a p v = Inr w' \<and>
      ch_mUserManager w' = (ch_mUserManager w)\<lparr>um_users := (ch_users w)(a \<mapsto> u\<lparr>cu_mCurSectorPos := p\<rparr>)\<rparr> \<and>
      cs_grid (ch_mSectorManager w') (?m(a \<mapsto> p)) \<and>
      w' = v\<lparr>ch_mUserManager := ch_mUserManager w', ch_mSectorManager := ch_mSectorManager w'\<rparr> \<and>
      cs_mWidth (ch_mSectorManager w') = cs_mWidth (ch_mSectorManager v) \<and>
      cs_mHeight (ch_mSectorManager w') = cs_mHeight (ch_mSectorManager v)"
    if v: "cs_inv v (?m(a := None))" "cs_in v = cs_in w" "ch_mUserManager v = ch_mUserManager w" for v
  proof -
    have c: "ch_users v a = Some u" "cs_in v p" using u p v by simp_all
    obtain w' where w: "InsertSectorUser a p v = Inr w'" "cs_inv w' ((?m(a := None))(a \<mapsto> p))"
      "w' = v\<lparr>ch_mUserManager := (ch_mUserManager v)\<lparr>um_users := (ch_users v)(a \<mapsto> u\<lparr>cu_mCurSectorPos := p\<rparr>)\<rparr>,
           ch_mSectorManager := ch_mSectorManager w'\<rparr>"
      "cs_mWidth (ch_mSectorManager w') = cs_mWidth (ch_mSectorManager v)"
      "cs_mHeight (ch_mSectorManager w') = cs_mHeight (ch_mSectorManager v)"
      using InsertSectorUser_ok [OF v(1) _ c] by auto
    have um: "ch_mUserManager w' = (ch_mUserManager w)\<lparr>um_users := (ch_users w)(a \<mapsto> u\<lparr>cu_mCurSectorPos := p\<rparr>)\<rparr>"
      using arg_cong [OF w(3), of ch_mUserManager] v(3) by simp
    have "w' = v\<lparr>ch_mUserManager := ch_mUserManager w', ch_mSectorManager := ch_mSectorManager w'\<rparr>"
      using w(3) um v(3) by simp
    then show ?thesis using w(1,2,4,5) um by (auto simp: cs_inv_def)
  qed
  have pm: "pos_map ((ch_mUserManager w)\<lparr>um_users := (ch_users w)(a \<mapsto> u\<lparr>cu_mCurSectorPos := p\<rparr>)\<rparr>) = ?m(a \<mapsto> p)"
    using pi by (auto simp: pos_map_def fun_eq_iff)
  show ?thesis
  proof (cases "cu_mCurSectorPos u = p")
    case True
    have "u\<lparr>cu_mCurSectorPos := p\<rparr> = u" using True by simp
    then have "(ch_users w)(a \<mapsto> u\<lparr>cu_mCurSectorPos := p\<rparr>) = ch_users w" using u by auto
    moreover have "?m(a \<mapsto> p) = ?m" using u True pi by (auto simp: pos_map_def fun_eq_iff)
    ultimately show ?thesis using True u g by (intro exI [of _ w]) (simp add: TryMove_def the_user_def)
  next
    case False
    show ?thesis
    proof (cases "cu_mCurSectorPos u = mInvalidSectorPos")
      case True
      have "?m a = None" using u True by (simp add: pos_map_def)
      then have "?m(a := None) = ?m" by auto
      then obtain w' where "InsertSectorUser a p w = Inr w'"
        "ch_mUserManager w' = (ch_mUserManager w)\<lparr>um_users := (ch_users w)(a \<mapsto> u\<lparr>cu_mCurSectorPos := p\<rparr>)\<rparr>"
        "cs_grid (ch_mSectorManager w') (?m(a \<mapsto> p))"
        "w' = w\<lparr>ch_mUserManager := ch_mUserManager w', ch_mSectorManager := ch_mSectorManager w'\<rparr>"
        "cs_mWidth (ch_mSectorManager w') = cs_mWidth (ch_mSectorManager w)"
        "cs_mHeight (ch_mSectorManager w') = cs_mHeight (ch_mSectorManager w)"
        using enter [of w] inv by auto
      then show ?thesis
        using True False u pm by (intro exI [of _ w']) (simp add: TryMove_def the_user_def)
    next
      case nz: False
      have a: "?m a = Some (cu_mCurSectorPos u)" using u nz by (simp add: pos_map_def)
      obtain v where v: "RemoveSectorUser a w = Inr v" "cs_inv v (?m(a := None))" "cs_in v = cs_in w"
        "v = w\<lparr>ch_mSectorManager := ch_mSectorManager v\<rparr>" "cs_mWidth (ch_mSectorManager v) = cs_mWidth (ch_mSectorManager w)"
        "cs_mHeight (ch_mSectorManager v) = cs_mHeight (ch_mSectorManager w)"
        using RemoveSectorUser_ok [OF inv a] by blast
      have vu: "ch_mUserManager v = ch_mUserManager w" by (subst v(4)) simp
      obtain w' where w: "InsertSectorUser a p v = Inr w'"
        "ch_mUserManager w' = (ch_mUserManager w)\<lparr>um_users := (ch_users w)(a \<mapsto> u\<lparr>cu_mCurSectorPos := p\<rparr>)\<rparr>"
        "cs_grid (ch_mSectorManager w') (?m(a \<mapsto> p))"
        "w' = v\<lparr>ch_mUserManager := ch_mUserManager w', ch_mSectorManager := ch_mSectorManager w'\<rparr>"
        "cs_mWidth (ch_mSectorManager w') = cs_mWidth (ch_mSectorManager v)"
        "cs_mHeight (ch_mSectorManager w') = cs_mHeight (ch_mSectorManager v)"
        using enter [OF v(2,3) vu] by blast
      have "w' = w\<lparr>ch_mUserManager := ch_mUserManager w', ch_mSectorManager := ch_mSectorManager w'\<rparr>"
        by (subst w(4), subst v(4)) simp
      then show ?thesis
        using nz False u w(1-3,5,6) v(1,5,6) pm by (intro exI [of _ w']) (simp add: TryMove_def the_user_def)
    qed
  qed
qed

text \<open>Taking a user out of the grid and of the maps.\<close>

lemma RemoveSectorUser_any:
  assumes g: "cs_grid (ch_mSectorManager w) (pos_map (ch_mUserManager w))" and u: "ch_users w a = Some u"
  shows "\<exists>w'. RemoveSectorUser a w = Inr w' \<and> cs_grid (ch_mSectorManager w') ((pos_map (ch_mUserManager w))(a := None)) \<and>
    w' = w\<lparr>ch_mSectorManager := ch_mSectorManager w'\<rparr> \<and> cs_mWidth (ch_mSectorManager w') = cs_mWidth (ch_mSectorManager w) \<and>
    cs_mHeight (ch_mSectorManager w') = cs_mHeight (ch_mSectorManager w)"
proof (cases "cu_mCurSectorPos u = mInvalidSectorPos")
  case True
  then have "(pos_map (ch_mUserManager w))(a := None) = pos_map (ch_mUserManager w)" using u by (auto simp: pos_map_def fun_eq_iff)
  then show ?thesis using True u g by (intro exI [of _ w]) (simp add: RemoveSectorUser_def the_user_def)
next
  case False
  have a: "pos_map (ch_mUserManager w) a = Some (cu_mCurSectorPos u)" using u False by (simp add: pos_map_def)
  have inv: "cs_inv w (pos_map (ch_mUserManager w))" using g by (simp add: cs_inv_pos_map)
  show ?thesis using RemoveSectorUser_ok [OF inv a] by (auto simp: cs_inv_def)
qed

subsection \<open>The invariant\<close>

text \<open>
  \<open>C\<close> are the jobs that were taken out of the queue and are not given up yet, \<open>r\<close> the references to received packets that
  belong to the application: one for each job with a packet. \<open>J\<close> is what is known besides about the users, the
  sectors and the message buffer, which no callback touches.
\<close>

definition job_ok :: "nat \<Rightarrow> Job \<Rightarrow> bool" where
  "job_ok n job \<longleftrightarrow> jb_JobType job \<noteq> INVALID_JobType \<and>
     (jb_JobType job \<noteq> SystemHeartBeat \<longrightarrow> unat (SessionIndex (jb_SessionID job)) < n) \<and>
     (jb_RecvPacket job = None \<longrightarrow> jb_JobType job = SystemDisconnectUser \<or> jb_JobType job = SystemHeartBeat)"

definition job_refs :: "(nat \<rightharpoonup> Job) \<Rightarrow> nat \<Rightarrow> int" where
  "job_refs jobs a = int (card {j. \<exists>job. jobs j = Some job \<and> jb_RecvPacket job = Some a})"

definition jobs_inv :: "(nat \<rightharpoonup> Job) \<Rightarrow> (nat \<Rightarrow> int) \<Rightarrow> nat \<Rightarrow> chat \<Rightarrow> bool" where
  "jobs_inv C r n w \<longleftrightarrow>
     queue_inv (ch_mJobQueue w) \<and> lf_inv CallConstructorDestructor (ch_mJobPool w) \<and>
     lf_live (ch_mJobPool w) = dom (ch_jobs w) \<and> distinct (queue_list (ch_mJobQueue w)) \<and>
     set (queue_list (ch_mJobQueue w)) \<inter> dom C = {} \<and> dom (ch_jobs w) = set (queue_list (ch_mJobQueue w)) \<union> dom C \<and>
     C \<subseteq>\<^sub>m ch_jobs w \<and> (\<forall>j job. ch_jobs w j = Some job \<longrightarrow> job_ok n job) \<and> (\<forall>a. r a = job_refs (ch_jobs w) a)"

definition chat_inv :: "(nat \<rightharpoonup> Job) \<Rightarrow> (ChatUserManager \<Rightarrow> ChatSectors \<Rightarrow> byte list \<Rightarrow> bool) \<Rightarrow> (nat \<Rightarrow> int) \<Rightarrow> nat \<Rightarrow> chat \<Rightarrow> bool" where
  "chat_inv C J r n w \<longleftrightarrow> jobs_inv C r n w \<and> um_inv n (ch_mUserManager w) \<and>
     cs_grid (ch_mSectorManager w) (pos_map (ch_mUserManager w)) \<and> cs_mWidth (ch_mSectorManager w) = 50 \<and>
     cs_mHeight (ch_mSectorManager w) = 50 \<and> length (ch_mMessageBuffer w) = 2048 \<and>
     J (ch_mUserManager w) (ch_mSectorManager w) (ch_mMessageBuffer w)"

abbreviation anything :: "ChatUserManager \<Rightarrow> ChatSectors \<Rightarrow> byte list \<Rightarrow> bool" where
  "anything \<equiv> \<lambda>_ _ _. True"

lemma jobs_inv_finite: "jobs_inv C r n w \<Longrightarrow> finite (dom (ch_jobs w))"
  using lf_inv_live_finite [of CallConstructorDestructor "ch_mJobPool w"] by (simp add: jobs_inv_def)

lemma job_refs_add:
  assumes "finite (dom jobs)" "jobs j = None"
  shows "job_refs (jobs(j \<mapsto> job)) a = job_refs jobs a + (if jb_RecvPacket job = Some a then 1 else 0)"
proof -
  let ?A = "{j. \<exists>job. jobs j = Some job \<and> jb_RecvPacket job = Some a}"
  have "finite ?A" by (rule finite_subset [OF _ assms(1)]) auto
  moreover have "j \<notin> ?A" using assms(2) by simp
  moreover have "{k. \<exists>v. (jobs(j \<mapsto> job)) k = Some v \<and> jb_RecvPacket v = Some a} = (if jb_RecvPacket job = Some a then insert j ?A else ?A)"
    using assms(2) by auto
  ultimately show ?thesis by (simp add: job_refs_def)
qed

lemma job_refs_remove:
  assumes "finite (dom jobs)" "jobs j = Some job"
  shows "job_refs (jobs(j := None)) a = job_refs jobs a - (if jb_RecvPacket job = Some a then 1 else 0)"
proof -
  have "(jobs(j := None))(j \<mapsto> job) = jobs" using assms(2) by auto
  then show ?thesis using job_refs_add [of "jobs(j := None)" j job a] assms(1) by simp
qed

lemma enqueue_job_ok:
  assumes inv: "jobs_inv C r n w" and job: "job_ok n \<lparr>jb_JobType = ty, jb_SessionID = sid, jb_RecvPacket = pkt\<rparr>"
  shows "\<exists>w'. enqueue_job ty sid pkt w = Inr w' \<and> jobs_inv C (\<lambda>a. r a + (if pkt = Some a then 1 else 0)) n w' \<and>
    w' = w\<lparr>ch_mJobPool := ch_mJobPool w', ch_mJobQueue := ch_mJobQueue w', ch_jobs := ch_jobs w'\<rparr> \<and>
    (\<exists>j. ch_jobs w j = None \<and> queue_list (ch_mJobQueue w') = queue_list (ch_mJobQueue w) @ [j] \<and>
      ch_jobs w' = (ch_jobs w)(j \<mapsto> \<lparr>jb_JobType = ty, jb_SessionID = sid, jb_RecvPacket = pkt\<rparr>))"
proof -
  let ?job = "\<lparr>jb_JobType = ty, jb_SessionID = sid, jb_RecvPacket = pkt\<rparr>"
  obtain pool j where p: "LockFree_Rent CallConstructorDestructor (ch_mJobPool w) = Inr (pool, j)"
    "lf_inv CallConstructorDestructor pool" "j \<notin> dom (ch_jobs w)" "lf_live pool = insert j (dom (ch_jobs w))"
    using lf.rentE [of CallConstructorDestructor "ch_mJobPool w"] inv unfolding jobs_inv_def by metis
  obtain q where q: "Queue_Enqueue (ch_mJobQueue w) j = Inr (q, True)" "queue_inv q"
    "queue_list q = queue_list (ch_mJobQueue w) @ [j]"
    using Queue_Enqueue_law [of "ch_mJobQueue w" j] inv unfolding jobs_inv_def by blast
  let ?w = "w\<lparr>ch_mJobPool := pool, ch_mJobQueue := q, ch_jobs := (ch_jobs w)(j \<mapsto> ?job)\<rparr>"
  have nj: "ch_jobs w j = None" "j \<notin> set (queue_list (ch_mJobQueue w))" "j \<notin> dom C"
    using p(3) inv by (auto simp: jobs_inv_def)
  have c: "C \<subseteq>\<^sub>m (ch_jobs w)(j \<mapsto> ?job)" using inv nj(3) by (auto simp: jobs_inv_def map_le_def)
  have "jobs_inv C (\<lambda>a. r a + (if pkt = Some a then 1 else 0)) n ?w"
    using inv p q(2,3) nj c job job_refs_add [OF jobs_inv_finite [OF inv] nj(1), of ?job] unfolding jobs_inv_def by auto
  moreover have "enqueue_job ty sid pkt w = Inr ?w" using p(1) q(1) by (simp add: enqueue_job_def)
  ultimately show ?thesis using q(3) nj(1) by (intro exI [of _ ?w]) auto
qed

lemma enqueue_job_inv:
  assumes inv: "chat_inv C J r n w" and job: "job_ok n \<lparr>jb_JobType = ty, jb_SessionID = sid, jb_RecvPacket = pkt\<rparr>"
  shows "\<exists>w'. enqueue_job ty sid pkt w = Inr w' \<and> chat_inv C J (\<lambda>a. r a + (if pkt = Some a then 1 else 0)) n w' \<and>
    ch_mUserManager w' = ch_mUserManager w \<and> ch_mSectorManager w' = ch_mSectorManager w \<and>
    ch_mMessageBuffer w' = ch_mMessageBuffer w \<and> ch_mIsQuit w' = ch_mIsQuit w"
proof -
  have ji: "jobs_inv C r n w" using inv by (simp add: chat_inv_def)
  obtain w' where w: "enqueue_job ty sid pkt w = Inr w'" "jobs_inv C (\<lambda>a. r a + (if pkt = Some a then 1 else 0)) n w'"
    "w' = w\<lparr>ch_mJobPool := ch_mJobPool w', ch_mJobQueue := ch_mJobQueue w', ch_jobs := ch_jobs w'\<rparr>"
    using enqueue_job_ok [OF ji job] by blast
  have "ch_mUserManager w' = ch_mUserManager w" "ch_mSectorManager w' = ch_mSectorManager w"
    "ch_mMessageBuffer w' = ch_mMessageBuffer w" "ch_mIsQuit w' = ch_mIsQuit w"
    by (subst w(3), simp)+
  then show ?thesis using w(1,2) inv by (auto simp: chat_inv_def)
qed

subsection \<open>The callbacks keep the invariant\<close>

lemma core_inv_world:
  assumes "core_inv (the_app m I r) x W s" "I' r' (length (nc_mSessionPool s)) w"
  shows "core_inv (the_app m I' r') x W (s\<lparr>nc_world := w\<rparr>)"
proof -
  have "ses (s\<lparr>nc_world := w\<rparr>) = ses s" "live (s\<lparr>nc_world := w\<rparr>) = live s" "held (s\<lparr>nc_world := w\<rparr>) = held s"
    by (simp_all add: ses_def live_def held_def fun_eq_iff)
  then show ?thesis using assms by (simp add: core_inv_def core_base_def log_ok_def Let_def)
qed

lemma core_inv_app: "core_inv (the_app m I r) x W s \<Longrightarrow> I r (length (nc_mSessionPool s)) (nc_world s)"
  by (simp add: core_inv_def core_base_def Let_def)

lemma core_frame_world: "core_frame s (s\<lparr>nc_world := w\<rparr>)"
  by (simp add: core_frame_def live_def ses_def)

lemma chat_OnDisconnected_ok:
  assumes inv: "core_inv (the_app m (chat_inv C J) r) x W s" and n: "unat (SessionIndex sid) < length (nc_mSessionPool s)"
  shows "\<exists>s'. chat_OnDisconnected sid s = Inr s' \<and> core_inv (the_app m (chat_inv C J) r) x W s' \<and> core_frame s s'"
proof -
  have "job_ok (length (nc_mSessionPool s)) \<lparr>jb_JobType = SystemDisconnectUser, jb_SessionID = sid, jb_RecvPacket = None\<rparr>"
    using n by (simp add: job_ok_def)
  from enqueue_job_inv [OF core_inv_app [where I = "chat_inv C J", OF inv] this] obtain w' where
    w: "enqueue_job SystemDisconnectUser sid None (nc_world s) = Inr w'" "chat_inv C J r (length (nc_mSessionPool s)) w'" by auto
  then show ?thesis
    using core_inv_world [where I = "chat_inv C J" and I' = "chat_inv C J", OF inv, of r w'] core_frame_world [of s w'] by (simp add: chat_OnDisconnected_def)
qed

lemma chat_handlers_ok:
  assumes "\<And>sid. ev_OnConnected ev sid = Inr" "\<And>sid n. ev_OnSent ev sid n = Inr" "ev_OnDisconnected ev = chat_OnDisconnected"
  shows "handlers_ok (the_app m (chat_inv C J) r) ev"
  unfolding handlers_ok_def using assms chat_OnDisconnected_ok by fastforce

lemma chat_OnReceived_ok:
  assumes inv: "core_inv (the_app m (chat_inv C J) r) x W s" and n: "unat (SessionIndex sid) < length (nc_mSessionPool s)"
    and p: "net_packet p" "pk_mRefCount p = 1" and a: "r a = 0"
    and ret: "chat_OnReceived sid a p s = (ex, p', s')"
  shows "(\<forall>f. ex = Faulted f \<longrightarrow> f = InvalidArgument \<or> f = CrashDumped) \<and> net_packet p' \<and> 1 \<le> pk_mRefCount p' \<and>
    core_inv (the_app m (chat_inv C J) (r(a := pk_mRefCount p' - 1))) x W s' \<and> core_frame s s'"
proof -
  have same: "r(a := 0) = r" using a by auto
  have pi: "pk_inv p" using p(1) by (simp add: net_packet_def)
  obtain data k where peek: "PeekBody p (replicate 2 0) 2 = Inr (data, k)"
    using PeekBody_eq [OF pi, of 2 "replicate 2 0"] by (auto simp: Let_def)
  let ?ty = "GetJobTypeFromPacketType (le_nat data)"
  consider "ch_mIsQuit (nc_world s)" | "\<not> ch_mIsQuit (nc_world s)" "k \<noteq> 2 \<or> ?ty = INVALID_JobType"
    | "\<not> ch_mIsQuit (nc_world s)" "k = 2" "?ty \<noteq> INVALID_JobType" by blast
  then show ?thesis
  proof cases
    case 1
    then show ?thesis using ret inv p same by (auto simp: chat_OnReceived_def)
  next
    case 2
    have ev: "handlers_ok (the_app m (chat_inv C J) r) chat_callbacks"
      by (rule chat_handlers_ok) (simp_all add: chat_callbacks_def)
    from Disconnect_ok [OF ev inv n] 2 ret inv p same peek show ?thesis
      by (auto simp: chat_OnReceived_def Let_def split: sum.splits)
  next
    case 3
    have "job_ok (length (nc_mSessionPool s)) \<lparr>jb_JobType = ?ty, jb_SessionID = sid, jb_RecvPacket = Some a\<rparr>"
      using n 3(3) by (simp add: job_ok_def)
    from enqueue_job_inv [OF core_inv_app [where I = "chat_inv C J", OF inv] this] obtain w' where
      w: "enqueue_job ?ty sid (Some a) (nc_world s) = Inr w'"
        "chat_inv C J (\<lambda>b. r b + (if Some a = Some b then 1 else 0)) (length (nc_mSessionPool s)) w'" by blast
    have "(\<lambda>b. r b + (if Some a = Some b then 1 else 0)) = r(a := 1)" using a by (auto simp: fun_eq_iff)
    then have "core_inv (the_app m (chat_inv C J) (r(a := 1))) x W (s\<lparr>nc_world := w'\<rparr>)"
      using core_inv_world [where I = "chat_inv C J" and I' = "chat_inv C J", OF inv, of  "r(a := 1)" w'] w(2) by simp
    moreover have "ex = Returned \<and> p' = p\<lparr>pk_mRefCount := 2\<rparr> \<and> s' = s\<lparr>nc_world := w'\<rparr>"
      using ret 3 peek w(1) p(2) by (simp add: chat_OnReceived_def Let_def Packet_AddRef_def)
    ultimately show ?thesis using p core_frame_world [of s w'] by simp
  qed
qed

lemma chat_app_ok: "app_ok (chat_inv C J) chat_events"
proof -
  have h: "handlers_ok (the_app m (chat_inv C J) r) chat_events" for m r
    by (rule chat_handlers_ok) (simp_all add: chat_events_def chat_callbacks_def)
  have rcv: "case ev_OnReceived chat_events sid a p s of (ex, p', s') \<Rightarrow>
      (\<forall>f. ex = Faulted f \<longrightarrow> f = InvalidArgument \<or> f = CrashDumped) \<and> net_packet p' \<and> 1 \<le> pk_mRefCount p' \<and>
      core_inv (the_app m (chat_inv C J) (r(a := pk_mRefCount p' - 1))) x W s' \<and> core_frame s s'"
    if "core_inv (the_app m (chat_inv C J) r) x W s" "unat (SessionIndex sid) < length (nc_mSessionPool s)"
      "net_packet p" "pk_mRefCount p = 1" "r a = 0" for m r x W s sid a p
    using chat_OnReceived_ok [OF that] by (cases "chat_OnReceived sid a p s") (simp add: chat_events_def)
  show ?thesis
    unfolding app_ok_def by (intro conjI allI impI; (elim conjE)?; (rule h | rule rcv); assumption)
qed

subsection \<open>Reading and writing in a job\<close>

definition reading :: "((nat \<Rightarrow> int) \<Rightarrow> nat \<Rightarrow> 'w \<Rightarrow> bool) \<Rightarrow> (nat \<Rightarrow> int) \<Rightarrow> nat \<Rightarrow> byte list \<Rightarrow> 'w \<Rightarrow> 'w core \<Rightarrow> bool" where
  "reading I m a bs w s \<longleftrightarrow> ready I m s \<and> nc_world s = w \<and> (\<exists>p. pp_objs (nc_recv s) a = Some p \<and> pk_unread p = bs)"

definition writing :: "((nat \<Rightarrow> int) \<Rightarrow> nat \<Rightarrow> 'w \<Rightarrow> bool) \<Rightarrow> (nat \<Rightarrow> int) \<Rightarrow> nat \<Rightarrow> byte list \<Rightarrow> 'w \<Rightarrow> 'w core \<Rightarrow> bool" where
  "writing I m a bs w s \<longleftrightarrow> ready I m s \<and> nc_world s = w \<and>
     (\<exists>p. pp_objs (nc_send s) a = Some p \<and> pk_body p = bs \<and> pk_mWritePos p = 5 + length bs)"

lemma readingD: "reading I m a bs w s \<Longrightarrow> ready I m s \<and> nc_world s = w"
  by (simp add: reading_def)

lemma writingD: "writing I m a bs w s \<Longrightarrow> ready I m s \<and> nc_world s = w"
  by (simp add: writing_def)

lemma get_step:
  assumes "reading I m a bs w s" "n \<le> length data"
  shows "n \<le> length bs \<Longrightarrow> \<exists>s'. recv_get (Some a) n data s = Inr (s', take n bs @ drop n data) \<and> reading I m a (drop n bs) w s'"
    and "length bs < n \<Longrightarrow> recv_get (Some a) n data s = Inl ReaderException"
proof -
  obtain p where p: "ready I m s" "nc_world s = w" "pp_objs (nc_recv s) a = Some p" "pk_unread p = bs"
    using assms(1) by (auto simp: reading_def)
  note r = recv_get_ok [OF p(1,3) assms(2)]
  show "\<exists>s'. recv_get (Some a) n data s = Inr (s', take n bs @ drop n data) \<and> reading I m a (drop n bs) w s'" if "n \<le> length bs"
    using r that p(2,4) unfolding reading_def by (auto split: if_splits)
  show "recv_get (Some a) n data s = Inl ReaderException" if "length bs < n" using r that p(4) by simp
qed

lemma get_small:
  assumes "reading I m a bs w s"
  shows "length bs < n \<Longrightarrow> recv_get (Some a) n data s = Inl ReaderException"
    and "n \<le> length bs \<Longrightarrow> length data < n \<Longrightarrow> recv_get (Some a) n data s = Inl MemFault"
proof -
  obtain p where p: "ready I m s" "pp_objs (nc_recv s) a = Some p" "pk_unread p = bs" using assms by (auto simp: reading_def)
  have "pk_inv p" using readyD(2) [OF p(1)] p(2) by (auto simp: pp_inv_def net_packet_def)
  note g = GetBody_small [OF this]
  show "recv_get (Some a) n data s = Inl ReaderException" if "length bs < n" using g(1) that p(2,3) by (simp add: recv_get_def)
  show "recv_get (Some a) n data s = Inl MemFault" if "n \<le> length bs" "length data < n"
    using g(2) that p(2,3) by (simp add: recv_get_def)
qed

lemma read_step:
  assumes "reading I m a bs w s"
  shows "n \<le> length bs \<Longrightarrow> \<exists>s'. recv_read (Some a) n s = Inr (s', le_nat (take n bs)) \<and> reading I m a (drop n bs) w s'"
    and "length bs < n \<Longrightarrow> recv_read (Some a) n s = Inl ReaderException"
  using get_step [OF assms, of n "replicate n 0"] by (auto simp: recv_read_def)

lemma aok_read:
  assumes "reading I m a bs w s" "E s"
    and "\<And>s'. n \<le> length bs \<Longrightarrow> reading I m a (drop n bs) w s' \<Longrightarrow> aok P E (f (le_nat (take n bs)) s')"
  shows "aok P E (act_bind (act (recv_read (Some a) n)) f s)"
  using read_step [OF assms(1), of n] assms(2,3)
  by (cases "n \<le> length bs") (auto simp: act_bind_def act_def not_le)

lemma aok_get:
  assumes "reading I m a bs w s" "E s"
    and "\<And>s'. n \<le> length bs \<Longrightarrow> reading I m a (drop n bs) w s' \<Longrightarrow> aok P E (f (take n bs) s')"
  shows "aok P E (act_bind (act (recv_get (Some a) n (replicate n 0))) f s)"
  using get_step [OF assms(1), of n "replicate n 0"] assms(2,3)
  by (cases "n \<le> length bs") (auto simp: act_bind_def act_def not_le)

lemma alloc_step:
  assumes r: "ready I m s" and mem: "mem_ok mem"
  obtains s' a where "alloc_send t mem s = Inr (s', a)" "writing I (m(a := m a + 1)) a [] (nc_world s) s'"
    "pp_refs (nc_recv s') = pp_refs (nc_recv s)" "length (nc_mSessionPool s') = length (nc_mSessionPool s)"
proof -
  obtain s' a where s': "alloc_send t mem s = Inr (s', a)" "ready I (m(a := m a + 1)) s'" "nc_world s' = nc_world s"
    "nc_recv s' = nc_recv s" "nc_mSessionPool s' = nc_mSessionPool s"
    "pp_objs (nc_send s') a = Some ((Packet_Initial 5 4096 (mem a))\<lparr>pk_mRefCount := 1\<rparr>)"
    using alloc_send_ok [OF r mem] by metis
  then have "writing I (m(a := m a + 1)) a [] (nc_world s) s'" by (simp add: writing_def pk_body_def Packet_Initial_def)
  then show ?thesis using that s' by metis
qed

lemma put_step:
  assumes w: "writing I m a bs w s" and n: "n \<le> length data" "5 + length bs + n \<le> 4096"
  obtains s' where "send_put a data n s = Inr (s', ())" "writing I m a (bs @ take n data) w s'"
    "nc_recv s' = nc_recv s" "nc_mSessionPool s' = nc_mSessionPool s"
proof -
  obtain p where p: "ready I m s" "nc_world s = w" "pp_objs (nc_send s) a = Some p" "pk_body p = bs" "pk_mWritePos p = 5 + length bs"
    using w by (auto simp: writing_def)
  obtain s' p' where s': "send_put a data n s = Inr (s', ())" "ready I m s'" "nc_world s' = nc_world s"
    "nc_recv s' = nc_recv s" "nc_mSessionPool s' = nc_mSessionPool s" "pp_objs (nc_send s') a = Some p'"
    "pk_body p' = pk_body p @ take (min n (4096 - pk_mWritePos p)) data"
    "pk_mWritePos p' = pk_mWritePos p + min n (4096 - pk_mWritePos p)"
    using send_put_ok [OF p(1,3) n(1)] by metis
  have "min n (4096 - pk_mWritePos p) = n" using p(5) n(2) by simp
  then have "writing I m a (bs @ take n data) w s'" using s' p n(1) by (simp add: writing_def)
  then show ?thesis using that s' by metis
qed

lemma write_step:
  assumes w: "writing I m a bs w s" and n: "5 + length bs + n \<le> 4096"
  obtains s' where "send_write a n v s = Inr (s', ())" "writing I m a (bs @ le_bytes n v) w s'"
    "nc_recv s' = nc_recv s" "nc_mSessionPool s' = nc_mSessionPool s"
  using put_step [OF w, of n "le_bytes n v"] n by (auto simp: send_write_def)

lemma aok_write:
  assumes w: "writing I m a bs w s" and n: "5 + length bs + n \<le> 4096"
    and "\<And>s'. writing I m a (bs @ le_bytes n v) w s' \<Longrightarrow> aok P E (f () s')"
  shows "aok P E (act_bind (act (send_write a n v)) f s)"
  by (rule write_step [OF w n, of v]) (use assms(3) in \<open>simp add: act_bind_def act_def\<close>)

lemma aok_put:
  assumes w: "writing I m a bs w s" and n: "n \<le> length data" "5 + length bs + n \<le> 4096"
    and "\<And>s'. writing I m a (bs @ take n data) w s' \<Longrightarrow> aok P E (f () s')"
  shows "aok P E (act_bind (act (send_put a data n)) f s)"
  by (rule put_step [OF w n]) (use assms(4) in \<open>simp add: act_bind_def act_def\<close>)

lemma aok_alloc:
  assumes r: "ready I m s" and mem: "mem_ok mem"
    and "\<And>s' a. writing I (m(a := m a + 1)) a [] (nc_world s) s' \<Longrightarrow> aok P E (f a s')"
  shows "aok P E (act_bind (act (alloc_send t mem)) f s)"
  by (rule alloc_step [where t = t, OF r mem]) (use assms(3) in \<open>simp add: act_bind_def act_def\<close>)

lemma aok_free:
  assumes r: "ready I m s" and a: "0 < m a" and p: "\<And>s'. ready I (m(a := m a - 1)) s' \<Longrightarrow> nc_world s' = nc_world s \<Longrightarrow> P () s'"
  shows "aok P E (act (free_send a) s)"
  using free_send_ok [OF r a] p by (auto simp: act_def)

text \<open>Looking at the state of the application, and changing it.\<close>

lemma aok_look:
  assumes "g (nc_world s) = Inr (nc_world s, x)" "aok P E (f x s)"
  shows "aok P E (act_bind (act (on_world g)) f s)"
  using assms by (simp add: act_bind_def act_def on_world_def)

lemma aok_world:
  assumes r: "ready I m s" and g: "g (nc_world s) = Inr (w, x)"
    and I': "I' (pp_refs (nc_recv s)) (length (nc_mSessionPool s)) w"
    and f: "ready I' m (s\<lparr>nc_world := w\<rparr>) \<Longrightarrow> aok P E (f x (s\<lparr>nc_world := w\<rparr>))"
  shows "aok P E (act_bind (act (on_world g)) f s)"
  using f [OF ready_world [OF r, where I' = I' and w = w, OF I']] g by (simp add: act_bind_def act_def on_world_def)

subsection \<open>The invariant in a job\<close>

lemma jobs_inv_world [simp]:
  "jobs_inv C r n (w\<lparr>ch_mUserManager := U\<rparr>) = jobs_inv C r n w"
  "jobs_inv C r n (w\<lparr>ch_mSectorManager := S\<rparr>) = jobs_inv C r n w"
  "jobs_inv C r n (w\<lparr>ch_mMessageBuffer := B\<rparr>) = jobs_inv C r n w"
  "jobs_inv C r n (w\<lparr>ch_mJobTPS := k\<rparr>) = jobs_inv C r n w"
  "jobs_inv C r n (w\<lparr>ch_mIsQuit := b\<rparr>) = jobs_inv C r n w"
  by (simp_all add: jobs_inv_def)

lemma ready_J:
  assumes "ready (chat_inv C J) m s" "J' (ch_mUserManager (nc_world s)) (ch_mSectorManager (nc_world s)) (ch_mMessageBuffer (nc_world s))"
  shows "ready (chat_inv C J') m s"
proof -
  have "chat_inv C J' (pp_refs (nc_recv s)) (length (nc_mSessionPool s)) (nc_world s)"
    using readyD(3) [OF assms(1)] assms(2) by (simp add: chat_inv_def)
  from ready_world [OF assms(1), where I' = "chat_inv C J'", OF this] show ?thesis by simp
qed

lemma ready_anything: "ready (chat_inv C J) m s \<Longrightarrow> ready (chat_inv C anything) m s"
  by (erule ready_J) simp

text \<open>The packet of a job that was taken is alive.\<close>

lemma job_packet:
  assumes r: "ready (chat_inv C J) m s" and j: "C j = Some job" "jb_RecvPacket job = Some a"
  obtains p where "pp_objs (nc_recv s) a = Some p"
proof -
  have inv: "jobs_inv C (pp_refs (nc_recv s)) (length (nc_mSessionPool s)) (nc_world s)"
    using readyD(3) [OF r] by (simp add: chat_inv_def)
  then have "ch_jobs (nc_world s) j = Some job" using j(1) by (auto simp: jobs_inv_def map_le_def dom_def)
  then have "j \<in> {j. \<exists>job. ch_jobs (nc_world s) j = Some job \<and> jb_RecvPacket job = Some a}" using j(2) by blast
  moreover have "finite {j. \<exists>job. ch_jobs (nc_world s) j = Some job \<and> jb_RecvPacket job = Some a}"
    by (rule finite_subset [OF _ jobs_inv_finite [OF inv]]) auto
  ultimately have "0 < card {j. \<exists>job. ch_jobs (nc_world s) j = Some job \<and> jb_RecvPacket job = Some a}"
    using card_gt_0_iff by blast
  then have "0 < job_refs (ch_jobs (nc_world s)) a" by (simp add: job_refs_def)
  then have "pp_refs (nc_recv s) a \<noteq> 0" using inv by (simp add: jobs_inv_def)
  then show ?thesis using that by (auto simp: pp_refs_def split: option.splits)
qed

lemma taken_job:
  assumes r: "ready (chat_inv C J) m s" and j: "C j = Some job"
  shows "job_ok (length (nc_mSessionPool s)) job"
proof -
  have "ch_jobs (nc_world s) j = Some job"
    using readyD(3) [OF r] j by (auto simp: chat_inv_def jobs_inv_def map_le_def dom_def)
  then show ?thesis using readyD(3) [OF r] by (auto simp: chat_inv_def jobs_inv_def)
qed

lemma ready_users: "ready (chat_inv C J) m s \<Longrightarrow> um_inv (length (nc_mSessionPool s)) (ch_mUserManager (nc_world s))"
  using readyD(3) [of "chat_inv C J" m s] by (simp add: chat_inv_def)

lemma ready_grid:
  assumes "ready (chat_inv C J) m s"
  shows "cs_grid (ch_mSectorManager (nc_world s)) (pos_map (ch_mUserManager (nc_world s)))"
    "cs_mWidth (ch_mSectorManager (nc_world s)) = 50" "cs_mHeight (ch_mSectorManager (nc_world s)) = 50"
    "length (ch_mMessageBuffer (nc_world s)) = 2048"
    "J (ch_mUserManager (nc_world s)) (ch_mSectorManager (nc_world s)) (ch_mMessageBuffer (nc_world s))"
  using readyD(3) [OF assms] by (auto simp: chat_inv_def)

end
