(* ===== verification/Chat_Jobs.thy ===== *)
theory Chat_Jobs
  imports Chat_Inv
begin

text \<open>
  What the jobs of the chat server do, and what the job thread keeps. A well-behaved packet names a sector of the grid, has a
  message that fits the buffer and names that end; with such packets every job returns or throws with the invariant
  kept. What the other packets do is shown with the properties: they make the server access memory it does not own, or
  end it.
\<close>

definition exactly :: "chat \<Rightarrow> ChatUserManager \<Rightarrow> ChatSectors \<Rightarrow> byte list \<Rightarrow> bool" where
  "exactly w U S B \<longleftrightarrow> U = ch_mUserManager w \<and> S = ch_mSectorManager w \<and> B = ch_mMessageBuffer w"

lemma exactly_refl [simp]: "exactly w (ch_mUserManager w) (ch_mSectorManager w) (ch_mMessageBuffer w)"
  by (simp add: exactly_def)

definition field :: "nat \<Rightarrow> nat \<Rightarrow> byte list \<Rightarrow> nat" where
  "field i n bs = le_nat (take n (drop i bs))"

definition well_behaved :: "Job \<Rightarrow> byte list \<Rightarrow> bool" where
  "well_behaved job bs =
     (case jb_JobType job of
        UserLogin \<Rightarrow> 154 \<le> length bs \<longrightarrow> terminated (wchars (take 40 (drop 10 bs))) \<and> terminated (wchars (take 40 (drop 50 bs)))
      | UserSectorMove \<Rightarrow> 14 \<le> length bs \<longrightarrow> field 10 2 bs < 50 \<and> field 12 2 bs < 50
      | UserMessage \<Rightarrow> 12 + field 10 2 bs \<le> length bs \<longrightarrow> field 10 2 bs \<le> 2048
      | _ \<Rightarrow> True)"

text \<open>The unread bytes of the packet of a job.\<close>

definition job_bytes :: "Job \<Rightarrow> 'w core \<Rightarrow> byte list" where
  "job_bytes job s =
     (case jb_RecvPacket job of None \<Rightarrow> [] | Some a \<Rightarrow> (case pp_objs (nc_recv s) a of None \<Rightarrow> [] | Some p \<Rightarrow> pk_unread p))"

lemma job_reading:
  assumes r: "ready (chat_inv C J) m s" and j: "C j = Some job" "jb_RecvPacket job = Some a"
  shows "reading (chat_inv C (exactly (nc_world s))) m a (job_bytes job s) (nc_world s) s"
proof -
  obtain p where p: "pp_objs (nc_recv s) a = Some p" using job_packet [OF r j] .
  have "ready (chat_inv C (exactly (nc_world s))) m s" by (rule ready_J [OF r]) simp
  then show ?thesis using p j(2) by (simp add: reading_def job_bytes_def)
qed

subsection \<open>Sending in a job\<close>

lemma je_Send_ok:
  assumes "ready (chat_inv C J) m s" "0 < m a" "unat (SessionIndex sid) < length (nc_mSessionPool s)"
  shows "rok (\<lambda>(s', _). ready (chat_inv C J) m s' \<and> length (nc_mSessionPool s') = length (nc_mSessionPool s) \<and> nc_recv s' = nc_recv s)
    (je_Send e sid a s)"
  unfolding je_Send_def by (rule ready_SendPacket [OF chat_app_ok assms])

definition send_sids :: "job_env \<Rightarrow> u64 list \<Rightarrow> nat \<Rightarrow> chat core \<Rightarrow> chat core res" where
  "send_sids e sids a = rfold (\<lambda>sid s. rbind (je_Send e sid a s) (\<lambda>(s, _). Inr s)) sids"

lemma send_sids_simps [simp]:
  "send_sids e [] a s = Inr s"
  "send_sids e (sid # sids) a s = rbind (je_Send e sid a s) (\<lambda>(s, _). send_sids e sids a s)"
  by (simp add: send_sids_def) (cases "je_Send e sid a s"; auto simp: send_sids_def)

lemma send_sids_append: "send_sids e (xs @ ys) a s = rbind (send_sids e xs a s) (send_sids e ys a)"
  by (simp add: send_sids_def rfold_append)

definition sid_of :: "chat \<Rightarrow> nat \<Rightarrow> u64" where
  "sid_of w u = cu_mSessionID (the (ch_users w u))"

lemma send_sids_ok:
  assumes r: "ready (chat_inv C J) m s" and a: "0 < m a"
    and sids: "\<forall>sid \<in> set sids. unat (SessionIndex sid) < length (nc_mSessionPool s)"
  shows "rok (\<lambda>s'. ready (chat_inv C J) m s' \<and> length (nc_mSessionPool s') = length (nc_mSessionPool s)) (send_sids e sids a s)"
  using r sids
proof (induction sids arbitrary: s)
  case Nil
  then show ?case by simp
next
  case (Cons sid sids)
  have "unat (SessionIndex sid) < length (nc_mSessionPool s)" using Cons.prems(2) by simp
  from je_Send_ok [OF Cons.prems(1) a this, of e] show ?case
    unfolding send_sids_simps
  proof (rule rok_bind, clarify)
    fix s1 assume s1: "ready (chat_inv C J) m s1" "length (nc_mSessionPool s1) = length (nc_mSessionPool s)"
    show "rok (\<lambda>s'. ready (chat_inv C J) m s' \<and> length (nc_mSessionPool s') = length (nc_mSessionPool s)) (send_sids e sids a s1)"
      using Cons.IH [OF s1(1)] Cons.prems(2) s1(2) by simp
  qed
qed

lemma rbind_cong_rok: "rok Q r \<Longrightarrow> (\<And>y. Q y \<Longrightarrow> f y = g y) \<Longrightarrow> rbind r f = rbind r g"
  by (cases r) auto

lemma ready_exactly:
  assumes "ready (chat_inv C (exactly w)) m s"
  shows "ch_mUserManager (nc_world s) = ch_mUserManager w" "ch_mSectorManager (nc_world s) = ch_mSectorManager w"
    "ch_mMessageBuffer (nc_world s) = ch_mMessageBuffer w"
  using ready_grid(5) [OF assms] by (auto simp: exactly_def)

lemma user_idx:
  assumes "ready (chat_inv C (exactly w)) m s" "ch_users w u \<noteq> None"
  shows "unat (SessionIndex (sid_of w u)) < length (nc_mSessionPool s)"
  using ready_users [OF assms(1)] ready_exactly(1) [OF assms(1)] assms(2) um_inv_maps(3) by (auto simp: sid_of_def)

lemma send_users_eq:
  assumes r: "ready (chat_inv C (exactly w)) m s" and a: "0 < m a" and us: "\<forall>u \<in> set us. ch_users w u \<noteq> None"
  shows "send_users e us a s = send_sids e (map (sid_of w) us) a s"
  using r us
proof (induction us arbitrary: s)
  case Nil
  then show ?case by simp
next
  case (Cons u us)
  obtain c where c: "ch_users w u = Some c" using Cons.prems(2) by auto
  have "unat (SessionIndex (sid_of w u)) < length (nc_mSessionPool s)" using user_idx [OF Cons.prems(1)] c by simp
  note k = je_Send_ok [OF Cons.prems(1) a this, of e]
  have "send_users e (u # us) a s = rbind (je_Send e (sid_of w u) a s) (\<lambda>(s, _). send_users e us a s)"
    using c ready_exactly(1) [OF Cons.prems(1)] by (simp add: the_user_def sid_of_def)
  also have "\<dots> = rbind (je_Send e (sid_of w u) a s) (\<lambda>(s, _). send_sids e (map (sid_of w) us) a s)"
    by (rule rbind_cong_rok [OF k]) (use Cons.IH Cons.prems(2) in auto)
  finally show ?case by simp
qed

lemma send_sectors_eq:
  assumes r: "ready (chat_inv C (exactly w)) m s" and a: "0 < m a"
    and us: "cells (cs_mWidth (ch_mSectorManager w)) (cs_mSector (ch_mSectorManager w)) ps = Inr us"
      "\<forall>u \<in> set us. ch_users w u \<noteq> None"
  shows "send_sectors e ps a s = send_sids e (map (sid_of w) us) a s"
  using r us
proof (induction ps arbitrary: s us)
  case Nil
  then show ?case by simp
next
  case (Cons p ps)
  let ?S = "ch_mSectorManager w"
  obtain k vs where k: "sector_at (cs_mWidth ?S) (cs_mSector ?S) p = Inr k" "cells (cs_mWidth ?S) (cs_mSector ?S) ps = Inr vs"
    "us = cs_mSector ?S ! k @ vs"
    using Cons.prems(2) by (auto simp: rbind_eq_Inr)
  let ?xs = "cs_mSector ?S ! k"
  have alive: "\<forall>u \<in> set ?xs. ch_users w u \<noteq> None" "\<forall>u \<in> set vs. ch_users w u \<noteq> None" using Cons.prems(3) k(3) by auto
  have idx: "\<forall>sid \<in> set (map (sid_of w) ?xs). unat (SessionIndex sid) < length (nc_mSessionPool s)"
    using user_idx [OF Cons.prems(1)] alive(1) by simp
  have "send_sectors e (p # ps) a s = rbind (send_users e ?xs a s) (send_sectors e ps a)"
    using k(1) ready_exactly(2) [OF Cons.prems(1)] by (simp add: chat_sector_def)
  also have "\<dots> = rbind (send_sids e (map (sid_of w) ?xs) a s) (send_sectors e ps a)"
    using send_users_eq [where us = ?xs, OF Cons.prems(1) a alive(1)] by simp
  also have "\<dots> = rbind (send_sids e (map (sid_of w) ?xs) a s) (send_sids e (map (sid_of w) vs) a)"
    by (rule rbind_cong_rok [OF send_sids_ok [OF Cons.prems(1) a idx]]) (use Cons.IH k(2) alive(2) in blast)
  finally show ?case by (simp add: k(3) send_sids_append)
qed

text \<open>
  \<^verbatim>\<open>SendAround\<close> sends to the sessions of exactly the users who are near, each once.
\<close>

lemma SendAround_eq:
  assumes r: "ready (chat_inv C (exactly w)) m s" and a: "0 < m a"
  shows "\<exists>us. distinct us \<and> set us = {u. \<exists>q. pos_map (ch_mUserManager w) u = Some q \<and> near pos q} \<and>
    chat_SendAround e pos a s = rbind (send_sids e (map (sid_of w) us) a s) (\<lambda>s. Inr (s, ())) \<and>
    (\<forall>u \<in> set us. ch_users w u \<noteq> None)"
proof -
  let ?S = "ch_mSectorManager w"
  have S: "ch_mSectorManager (nc_world s) = ?S" "ch_mUserManager (nc_world s) = ch_mUserManager w" using ready_exactly [OF r] by simp_all
  have "cs_inv w (pos_map (ch_mUserManager w))" using ready_grid(1) [OF r] S by (simp add: cs_inv_pos_map)
  from cs.reach [OF this, of pos] obtain us where us: "cs_reach pos w = Inr us" "distinct us"
    "set us = {u. \<exists>q. pos_map (ch_mUserManager w) u = Some q \<and> near pos q}" by blast
  have alive: "\<forall>u \<in> set us. ch_users w u \<noteq> None" using us(3) by (auto simp: pos_map_Some)
  obtain ps where ps: "GetSectorAround (cs_mWidth ?S) (cs_mHeight ?S) (i2_X pos) (i2_Y pos) [] = Inr ps"
    "cells (cs_mWidth ?S) (cs_mSector ?S) ps = Inr us"
    using us(1) by (auto simp: cs_reach_def Let_def rbind_eq_Inr)
  have "chat_SendAround e pos a s = rbind (send_sids e (map (sid_of w) us) a s) (\<lambda>s. Inr (s, ()))"
    using ps(1) S(1) send_sectors_eq [OF r a ps(2) alive] by (simp add: chat_SendAround_def Let_def)
  then show ?thesis using us alive by blast
qed

lemma SendAround_ok:
  assumes r: "ready (chat_inv C (exactly w)) m s" and a: "0 < m a"
  shows "rok (\<lambda>(s', _). ready (chat_inv C (exactly w)) m s') (chat_SendAround e pos a s)"
proof -
  obtain us where us: "chat_SendAround e pos a s = rbind (send_sids e (map (sid_of w) us) a s) (\<lambda>s. Inr (s, ()))"
    "\<forall>u \<in> set us. ch_users w u \<noteq> None"
    using SendAround_eq [OF r a] by blast
  have "\<forall>sid \<in> set (map (sid_of w) us). unat (SessionIndex sid) < length (nc_mSessionPool s)" using user_idx [OF r] us(2) by simp
  note k = send_sids_ok [OF r a this, of e]
  show ?thesis unfolding us(1) by (rule rok_bind [OF k]) simp
qed

subsection \<open>Each job\<close>

text \<open>What a job has to leave behind, whether it returns or throws.\<close>

abbreviation kept :: "(nat \<rightharpoonup> Job) \<Rightarrow> chat core \<Rightarrow> bool" where
  "kept C s \<equiv> ready (chat_inv C anything) (\<lambda>_. 0) s"

definition env_good :: "job_env \<Rightarrow> bool" where
  "env_good e \<longleftrightarrow> mem_ok (je_mem e) \<and> user_mem_ok (je_user e)"

lemma reading_kept: "reading (chat_inv C J) (\<lambda>_. 0) a bs w s \<Longrightarrow> kept C s"
  by (auto simp: reading_def intro: ready_anything)

lemma the_user_look: "ch_users w u = Some c \<Longrightarrow> the_user u w = Inr c"
  by (simp add: the_user_def)

lemma aok_bind_net:
  assumes "rok (\<lambda>(s', _). Q s') (g s)" "\<And>x s'. Q s' \<Longrightarrow> aok P E (f x s')"
  shows "aok P E (act_bind (act_net g) f s)"
  using assms by (cases "g s") (auto simp: act_net_def act_bind_def)

lemma upd_zero [simp]: "(\<lambda>_. 0 :: int)(a := 0) = (\<lambda>_. 0)"
  by auto

text \<open>The end of most jobs: send the packet and give it up.\<close>

lemma send_and_free:
  assumes w: "writing (chat_inv C J) ((\<lambda>_. 0)(a := (0 :: int) + 1)) a bs v s"
    and idx: "unat (SessionIndex sid) < length (nc_mSessionPool s)"
  shows "aok (\<lambda>_. kept C) (kept C) (act_bind (act_net (je_Send e sid a)) (\<lambda>_. act (free_send a)) s)"
proof -
  have r: "ready (chat_inv C J) ((\<lambda>_. 0)(a := 0 + 1)) s" using w by (simp add: writing_def)
  show ?thesis
  proof (rule aok_bind_net, rule je_Send_ok [OF r _ idx])
    show "0 < ((\<lambda>_. 0)(a := (0 :: int) + 1)) a" by simp
    fix s' assume "ready (chat_inv C J) ((\<lambda>_. 0)(a := 0 + 1)) s' \<and> length (nc_mSessionPool s') = length (nc_mSessionPool s) \<and> nc_recv s' = nc_recv s"
    then show "aok (\<lambda>_. kept C) (kept C) (act (free_send a) s')"
      by (intro aok_free [where m = "(\<lambda>_. 0)(a := (0 :: int) + 1)"]) (auto intro: ready_anything)
  qed
qed

lemma Disconnect_then:
  assumes r: "ready (chat_inv C J) (\<lambda>_. 0) s" and idx: "unat (SessionIndex sid) < length (nc_mSessionPool s)"
  shows "aok (\<lambda>_. kept C) (kept C) (act_bind (act_net (Disconnect chat_events sid)) (\<lambda>_. act_return ()) s)"
  by (rule aok_bind_net, rule ready_Disconnect [OF chat_app_ok r idx]) (auto simp: act_return_def intro: ready_anything)

lemma HeartBeat_keeps:
  assumes r: "kept C s"
  shows "aok (\<lambda>_. kept C) (kept C) (JobUserHeartBeat job s)"
proof (cases "FindUserOrNull (jb_SessionID job) (ch_mUserManager (nc_world s))")
  case None
  then show ?thesis using r by (simp add: JobUserHeartBeat_def act_def on_world_def)
next
  case (Some u)
  then obtain c where c: "ch_users (nc_world s) u = Some c"
    using um_inv_maps(1) [OF ready_users [OF r]] by (auto simp: FindUserOrNull_def)
  then have "(ch_users (nc_world s))(u \<mapsto> c) = ch_users (nc_world s)" by auto
  then show ?thesis using Some r the_user_look [OF c] by (simp add: JobUserHeartBeat_def act_def on_world_def Let_def UpdateHeartBeat_def)
qed

lemma pos_map_remove: "pos_map (U\<lparr>um_users := (um_users U)(a := None)\<rparr>) = (pos_map U)(a := None)"
  by (auto simp: pos_map_def fun_eq_iff)

lemma pos_map_cong: "um_users U = um_users V \<Longrightarrow> pos_map U = pos_map V"
  by (simp add: pos_map_def fun_eq_iff)

text \<open>Removing a user takes it out of its sector and out of both maps.\<close>

lemma DisconnectUser_eq:
  assumes r: "kept C s"
  shows "um_mSessionUserMap (ch_mUserManager (nc_world s)) (jb_SessionID job) = None \<Longrightarrow> JobSystemDisconnectUser job s = (Inr (), s)"
    and "um_mSessionUserMap (ch_mUserManager (nc_world s)) (jb_SessionID job) = Some u \<Longrightarrow>
      \<exists>w. JobSystemDisconnectUser job s = (Inr (), s\<lparr>nc_world := w\<rparr>) \<and> kept C (s\<lparr>nc_world := w\<rparr>) \<and>
        ch_users w = (ch_users (nc_world s))(u := None) \<and> pos_map (ch_mUserManager w) = (pos_map (ch_mUserManager (nc_world s)))(u := None) \<and>
        w = (nc_world s)\<lparr>ch_mUserManager := ch_mUserManager w, ch_mSectorManager := ch_mSectorManager w\<rparr>"
proof -
  let ?w = "nc_world s"
  show "JobSystemDisconnectUser job s = (Inr (), s)" if "um_mSessionUserMap (ch_mUserManager ?w) (jb_SessionID job) = None"
    using that by (simp add: JobSystemDisconnectUser_def FindUserOrNull_def act_bind_def act_def on_world_def act_return_def)
  assume u: "um_mSessionUserMap (ch_mUserManager ?w) (jb_SessionID job) = Some u"
  note um = ready_users [OF r]
  obtain c where c: "ch_users ?w u = Some c" using um_inv_maps(1) [OF um] u by blast
  obtain w1 where w1: "RemoveSectorUser u ?w = Inr w1" "cs_grid (ch_mSectorManager w1) ((pos_map (ch_mUserManager ?w))(u := None))"
    "w1 = ?w\<lparr>ch_mSectorManager := ch_mSectorManager w1\<rparr>" "cs_mWidth (ch_mSectorManager w1) = cs_mWidth (ch_mSectorManager ?w)"
    "cs_mHeight (ch_mSectorManager w1) = cs_mHeight (ch_mSectorManager ?w)"
    using RemoveSectorUser_any [OF ready_grid(1) [OF r] c] by blast
  have U1: "ch_mUserManager w1 = ch_mUserManager ?w" by (subst w1(3)) simp
  obtain U where U: "RemoveUser (jb_SessionID job) (ch_mUserManager ?w) = Inr U" "um_inv (length (nc_mSessionPool s)) U"
    "um_users U = (ch_users ?w)(u := None)"
    using RemoveUser_ok [OF um u] by blast
  have pm: "pos_map U = (pos_map (ch_mUserManager ?w))(u := None)"
    using pos_map_remove [of "ch_mUserManager ?w" u] pos_map_cong [of U "(ch_mUserManager ?w)\<lparr>um_users := (ch_users ?w)(u := None)\<rparr>"] U(3) by simp
  let ?w2 = "w1\<lparr>ch_mUserManager := U\<rparr>"
  have eq: "?w2 = ?w\<lparr>ch_mUserManager := U, ch_mSectorManager := ch_mSectorManager w1\<rparr>" by (subst w1(3)) simp
  have "chat_inv C anything (pp_refs (nc_recv s)) (length (nc_mSessionPool s)) ?w2"
    using readyD(3) [OF r] U(2) w1(2,4,5) pm unfolding eq by (simp add: chat_inv_def)
  from ready_world [OF r, where I' = "chat_inv C anything", OF this] have k: "kept C (s\<lparr>nc_world := ?w2\<rparr>)" .
  moreover have "JobSystemDisconnectUser job s = (Inr (), s\<lparr>nc_world := ?w2\<rparr>)"
    using u w1(1) U(1) U1 by (simp add: JobSystemDisconnectUser_def FindUserOrNull_def act_bind_def act_def on_world_def)
  ultimately show "\<exists>w. JobSystemDisconnectUser job s = (Inr (), s\<lparr>nc_world := w\<rparr>) \<and> kept C (s\<lparr>nc_world := w\<rparr>) \<and>
        ch_users w = (ch_users ?w)(u := None) \<and> pos_map (ch_mUserManager w) = (pos_map (ch_mUserManager ?w))(u := None) \<and>
        w = ?w\<lparr>ch_mUserManager := ch_mUserManager w, ch_mSectorManager := ch_mSectorManager w\<rparr>"
    using pm U(3) eq by (intro exI [of _ ?w2]) simp
qed

lemma DisconnectUser_keeps:
  assumes r: "kept C s"
  shows "aok (\<lambda>_. kept C) (kept C) (JobSystemDisconnectUser job s)"
proof (cases "um_mSessionUserMap (ch_mUserManager (nc_world s)) (jb_SessionID job)")
  case None
  then show ?thesis using DisconnectUser_eq(1) [OF r] r by simp
next
  case (Some u)
  then show ?thesis using DisconnectUser_eq(2) [OF r] by fastforce
qed

lemma heartbeat_loop_eq:
  assumes "um_inv n (ch_mUserManager (nc_world s))"
  shows "heartbeat_loop sids s = Inr (s, ())"
proof (induction sids)
  case Nil
  then show ?case by simp
next
  case (Cons sid sids)
  then show ?case
    using um_inv_maps(1) [OF assms, of sid]
    by (auto simp: FindUserOrNull_def IsHeartBeating_def the_user_def split: option.split)
qed

lemma length_wchars: "length (wchars bs) = length bs div 2"
  by (induction bs rule: wchars.induct) auto

lemma pos_map_new:
  assumes "um_users U a = None" "um_users U' = (um_users U)(a \<mapsto> u)" "cu_mCurSectorPos u = mInvalidSectorPos"
  shows "pos_map U' = pos_map U"
  using assms by (auto simp: pos_map_def fun_eq_iff)

lemma act_bind_act: "f s = Inr (s', x) \<Longrightarrow> act_bind (act f) g s = g x s'"
  by (simp add: act_bind_def act_def)

text \<open>The request that a packet of at least 154 bytes carries.\<close>

definition login_of :: "byte list \<Rightarrow> login_request" where
  "login_of bs = \<lparr>lq_Type = field 0 2 bs, lq_AccountNo = field 2 8 bs, lq_ID = wchars (take 40 (drop 10 bs)),
     lq_Nickname = wchars (take 40 (drop 50 bs)), lq_SessionKey = take 64 (drop 90 bs)\<rparr>"

lemma login_of_ok: "90 \<le> length bs \<Longrightarrow> 154 \<le> length bs \<Longrightarrow> names_ok (login_of bs)"
  by (simp add: names_ok_def login_of_def length_wchars)

text \<open>A login after the request is read, and after the user was looked for.\<close>

definition login_reply :: "job_env \<Rightarrow> Job \<Rightarrow> nat \<Rightarrow> nat option \<Rightarrow> (chat core, unit) action" where
  "login_reply e job AccountNo user =
     act_bind (act (alloc_send (je_t e) (je_mem e))) (\<lambda>a.
     act_bind (act (send_write a 2 CS_CHAT_RES_LOGIN)) (\<lambda>_.
     act_bind
       (case user of
          Some u \<Rightarrow>
            act_bind (act (send_write a 1 1)) (\<lambda>_.
            act_bind (act (on_world (\<lambda>w. rbind (the_user u w) (\<lambda>u. Inr (w, cu_AccountNo u))))) (\<lambda>no.
            act (send_write a 8 no)))
        | None \<Rightarrow>
            act_bind (act (send_write a 1 0)) (\<lambda>_. act (send_write a 8 AccountNo))) (\<lambda>_.
     act_bind (act_net (je_Send e (jb_SessionID job) a)) (\<lambda>_.
     act (free_send a)))))"

definition login_rest :: "job_env \<Rightarrow> Job \<Rightarrow> login_request \<Rightarrow> (chat core, unit) action" where
  "login_rest e job q =
     act_bind (act (on_world (\<lambda>w. rbind (AddUser (je_user e) (jb_SessionID job) q (ch_mUserManager w)) (\<lambda>(m, user).
                 Inr (w\<lparr>ch_mUserManager := m\<rparr>, user))))) (login_reply e job (lq_AccountNo q))"

lemma login_read:
  assumes r: "kept C s" and j: "C j = Some job" "jb_RecvPacket job = Some a" and bs: "job_bytes job s = bs"
  shows "length bs < 154 \<Longrightarrow> aok P (kept C) (JobUserLogin e job s)"
    and "154 \<le> length bs \<Longrightarrow> \<exists>s1. reading (chat_inv C (exactly (nc_world s))) (\<lambda>_. 0) a (drop 154 bs) (nc_world s) s1 \<and>
      JobUserLogin e job s = login_rest e job (login_of bs) s1"
proof -
  let ?w = "nc_world s" let ?z = "\<lambda>_. 0 :: int" let ?R = "reading (chat_inv C (exactly ?w)) ?z a"
  note rd = job_reading [OF r j, unfolded bs]
  have E: "kept C s'" if "?R bs ?w s'" for bs s' using reading_kept [OF that] .
  have job: "JobUserLogin e job =
     act_bind (act (recv_read (Some a) 2)) (\<lambda>type.
     act_bind (act (recv_read (Some a) 8)) (\<lambda>AccountNo.
     act_bind (act (recv_get (Some a) 40 (replicate 40 0))) (\<lambda>ID.
     act_bind (act (recv_get (Some a) 40 (replicate 40 0))) (\<lambda>Nickname.
     act_bind (act (recv_get (Some a) 64 (replicate 64 0))) (\<lambda>SessionKey.
       login_rest e job \<lparr>lq_Type = type, lq_AccountNo = AccountNo, lq_ID = wchars ID, lq_Nickname = wchars Nickname,
              lq_SessionKey = SessionKey\<rparr>)))))"
    using j(2) by (simp add: JobUserLogin_def login_rest_def login_reply_def [abs_def] Let_def)
  show "aok P (kept C) (JobUserLogin e job s)" if "length bs < 154"
    unfolding job
    by (rule aok_read, rule rd, rule E [OF rd], rule aok_read, assumption, erule E, rule aok_get, assumption, erule E,
      rule aok_get, assumption, erule E, rule aok_get, assumption, erule E) (use that in simp)
  assume "154 \<le> length bs"
  then have l: "2 \<le> length bs" "8 \<le> length (drop 2 bs)" "40 \<le> length (drop 8 (drop 2 bs))" "40 \<le> length (drop 40 (drop 8 (drop 2 bs)))"
    "64 \<le> length (drop 40 (drop 40 (drop 8 (drop 2 bs))))" by simp_all
  obtain s1 where s1: "recv_read (Some a) 2 s = Inr (s1, le_nat (take 2 bs))" "?R (drop 2 bs) ?w s1"
    using read_step(1) [OF rd l(1)] by blast
  obtain s2 where s2: "recv_read (Some a) 8 s1 = Inr (s2, le_nat (take 8 (drop 2 bs)))" "?R (drop 8 (drop 2 bs)) ?w s2"
    using read_step(1) [OF s1(2) l(2)] by blast
  obtain s3 where s3: "recv_get (Some a) 40 (replicate 40 0) s2 = Inr (s3, take 40 (drop 8 (drop 2 bs)))" "?R (drop 40 (drop 8 (drop 2 bs))) ?w s3"
    using get_step(1) [OF s2(2) _ l(3), of "replicate 40 0"] by auto
  obtain s4 where s4: "recv_get (Some a) 40 (replicate 40 0) s3 = Inr (s4, take 40 (drop 40 (drop 8 (drop 2 bs))))"
    "?R (drop 40 (drop 40 (drop 8 (drop 2 bs)))) ?w s4"
    using get_step(1) [OF s3(2) _ l(4), of "replicate 40 0"] by auto
  obtain s5 where s5: "recv_get (Some a) 64 (replicate 64 0) s4 = Inr (s5, take 64 (drop 40 (drop 40 (drop 8 (drop 2 bs)))))"
    "?R (drop 64 (drop 40 (drop 40 (drop 8 (drop 2 bs))))) ?w s5"
    using get_step(1) [OF s4(2) _ l(5), of "replicate 64 0"] by auto
  show "\<exists>s1. ?R (drop 154 bs) ?w s1 \<and> JobUserLogin e job s = login_rest e job (login_of bs) s1"
    unfolding job act_bind_act [of "recv_read (Some a) 2", OF s1(1)] act_bind_act [of "recv_read (Some a) 8", OF s2(1)]
      act_bind_act [of "recv_get (Some a) 40 (replicate 40 0)", OF s3(1)] act_bind_act [of "recv_get (Some a) 40 (replicate 40 0)", OF s4(1)]
      act_bind_act [of "recv_get (Some a) 64 (replicate 64 0)", OF s5(1)]
    using s5(2) by (intro exI [of _ s5]) (simp add: field_def login_of_def)
qed

text \<open>The answer: the status and the number of the account.\<close>

lemma login_answer:
  assumes r: "ready (chat_inv C (exactly w)) (\<lambda>_. 0) s" and w: "nc_world s = w" and mem: "mem_ok (je_mem e)"
    and user: "\<And>u. user = Some u \<Longrightarrow> \<exists>c. ch_users w u = Some c \<and> cu_AccountNo c = no"
  shows "\<exists>s1 b. writing (chat_inv C (exactly w)) ((\<lambda>_. 0)(b := (0 :: int) + 1)) b
        (le_bytes 2 CS_CHAT_RES_LOGIN @ le_bytes 1 (if user = None then 0 else 1) @ le_bytes 8 no) w s1 \<and>
      login_reply e job no user s = act_bind (act_net (je_Send e (jb_SessionID job) b)) (\<lambda>_. act (free_send b)) s1"
proof -
  let ?W = "\<lambda>b. writing (chat_inv C (exactly w)) ((\<lambda>_. 0)(b := (0 :: int) + 1)) b"
  let ?st = "if user = None then 0 else 1"
  obtain s1 a where s1: "alloc_send (je_t e) (je_mem e) s = Inr (s1, a)" "?W a [] w s1"
    using alloc_step [where t = "je_t e", OF r mem] w by metis
  obtain s2 where s2: "send_write a 2 CS_CHAT_RES_LOGIN s1 = Inr (s2, ())" "?W a ([] @ le_bytes 2 CS_CHAT_RES_LOGIN) w s2"
    by (rule write_step [where v = CS_CHAT_RES_LOGIN and n = 2, OF s1(2)]) simp_all
  obtain s3 where s3: "send_write a 1 ?st s2 = Inr (s3, ())" "?W a (([] @ le_bytes 2 CS_CHAT_RES_LOGIN) @ le_bytes 1 ?st) w s3"
    by (rule write_step [where v = ?st and n = 1, OF s2(2)]) simp_all
  obtain s4 where s4: "send_write a 8 no s3 = Inr (s4, ())"
    "?W a ((([] @ le_bytes 2 CS_CHAT_RES_LOGIN) @ le_bytes 1 ?st) @ le_bytes 8 no) w s4"
    by (rule write_step [where v = no and n = 8, OF s3(2)]) simp_all
  have w3: "nc_world s3 = w" using writingD [OF s3(2)] by simp
  let ?M = "case user of
          Some u \<Rightarrow>
            act_bind (act (send_write a 1 1)) (\<lambda>_.
            act_bind (act (on_world (\<lambda>w. rbind (the_user u w) (\<lambda>u. Inr (w, cu_AccountNo u))))) (\<lambda>no.
            act (send_write a 8 no)))
        | None \<Rightarrow>
            act_bind (act (send_write a 1 0)) (\<lambda>_. act (send_write a 8 no))"
  have M: "?M s2 = (Inr (), s4)"
  proof (cases user)
    case None
    then show ?thesis using s3(1) s4(1) by (simp add: act_bind_def act_def)
  next
    case (Some u)
    then obtain c where c: "ch_users w u = Some c" "cu_AccountNo c = no" using user by blast
    then have "on_world (\<lambda>w. rbind (the_user u w) (\<lambda>u. Inr (w, cu_AccountNo u))) s3 = Inr (s3, no)"
      using w3 by (simp add: on_world_def the_user_def)
    then show ?thesis using Some s3(1) s4(1) by (simp add: act_bind_def act_def)
  qed
  have "login_reply e job no user s = act_bind (act_net (je_Send e (jb_SessionID job) a)) (\<lambda>_. act (free_send a)) s4"
    unfolding login_reply_def act_bind_act [of "alloc_send (je_t e) (je_mem e)", OF s1(1)]
      act_bind_act [of "send_write a 2 CS_CHAT_RES_LOGIN", OF s2(1)] act_bind_Inr [of ?M, OF M] ..
  then show ?thesis using s4(2) by (intro exI [of _ s4] exI [of _ a]) simp
qed

text \<open>
  The outcome: the first login of a session with an account that is not logged in makes a user, at no sector; every other login
  changes nothing. In both cases the answer is what is sent.
\<close>

definition logged_in :: "u64 \<Rightarrow> nat \<Rightarrow> ChatUserManager \<Rightarrow> ChatUserManager \<Rightarrow> bool" where
  "logged_in sid no U U' \<longleftrightarrow>
     (\<exists>u c. um_users U u = None \<and> um_users U' = (um_users U)(u \<mapsto> c) \<and> cu_AccountNo c = no \<and> cu_mSessionID c = sid \<and>
        cu_mCurSectorPos c = mInvalidSectorPos)"

definition is_taken :: "u64 \<Rightarrow> nat \<Rightarrow> ChatUserManager \<Rightarrow> bool" where
  "is_taken sid no U \<longleftrightarrow> um_mSessionUserMap U sid \<noteq> None \<or> um_mAccountUserMap U no \<noteq> None"

lemma login_added:
  assumes inv: "um_inv n U" and mem: "user_mem_ok mem" and q: "names_ok q" and idx: "unat (SessionIndex sid) < n"
    and t: "is_taken sid (lq_AccountNo q) U \<or> terminated (lq_ID q) \<and> terminated (lq_Nickname q)"
  shows "\<exists>U' user. AddUser mem sid q U = Inr (U', user) \<and> um_inv n U' \<and> pos_map U' = pos_map U \<and>
    (user = None \<longleftrightarrow> is_taken sid (lq_AccountNo q) U) \<and>
    (if is_taken sid (lq_AccountNo q) U then U' = U else logged_in sid (lq_AccountNo q) U U') \<and>
    (\<forall>u. user = Some u \<longrightarrow> (\<exists>c. um_users U' u = Some c \<and> cu_AccountNo c = lq_AccountNo q))"
proof (cases "is_taken sid (lq_AccountNo q) U")
  case True
  then show ?thesis using AddUser_cases(1) [OF inv mem q idx] inv by (auto simp: is_taken_def)
next
  case False
  then obtain U' u c where U: "AddUser mem sid q U = Inr (U', Some u)" "um_inv n U'" "um_users U u = None" "um_users U' = (um_users U)(u \<mapsto> c)"
    "cu_AccountNo c = lq_AccountNo q" "cu_mSessionID c = sid" "cu_mCurSectorPos c = mInvalidSectorPos"
    using AddUser_cases(2) [OF inv mem q idx] t unfolding is_taken_def by blast
  then have "logged_in sid (lq_AccountNo q) U U'" unfolding logged_in_def by blast
  then show ?thesis using U False pos_map_new [OF U(3,4,7)] by (intro exI [of _ U'] exI [of _ "Some u"]) simp
qed

lemma login_answered:
  assumes r: "kept C s" and j: "C j = Some job" "jb_RecvPacket job = Some a" and ty: "jb_JobType job = UserLogin" and e: "env_good e"
    and len: "154 \<le> length (job_bytes job s)" and q: "q = login_of (job_bytes job s)"
    and t: "is_taken (jb_SessionID job) (lq_AccountNo q) (ch_mUserManager (nc_world s)) \<or> terminated (lq_ID q) \<and> terminated (lq_Nickname q)"
  shows "\<exists>s1 b U. let U0 = ch_mUserManager (nc_world s); w = (nc_world s)\<lparr>ch_mUserManager := U\<rparr>;
        taken = is_taken (jb_SessionID job) (lq_AccountNo q) U0 in
      writing (chat_inv C (exactly w)) ((\<lambda>_. 0)(b := (0 :: int) + 1)) b
        (le_bytes 2 CS_CHAT_RES_LOGIN @ le_bytes 1 (if taken then 0 else 1) @ le_bytes 8 (lq_AccountNo q)) w s1 \<and>
      (if taken then U = U0 else logged_in (jb_SessionID job) (lq_AccountNo q) U0 U) \<and>
      JobUserLogin e job s = act_bind (act_net (je_Send e (jb_SessionID job) b)) (\<lambda>_. act (free_send b)) s1"
proof -
  let ?w = "nc_world s" let ?z = "\<lambda>_. 0 :: int" let ?sid = "jb_SessionID job" let ?no = "lq_AccountNo q"
  obtain s1 where s1: "reading (chat_inv C (exactly ?w)) ?z a (drop 154 (job_bytes job s)) ?w s1"
    "JobUserLogin e job s = login_rest e job q s1"
    using login_read(2) [OF r j refl len] unfolding q by blast
  have r1: "ready (chat_inv C (exactly ?w)) ?z s1" "nc_world s1 = ?w" using readingD [OF s1(1)] by simp_all
  have idx: "unat (SessionIndex ?sid) < length (nc_mSessionPool s1)" using taken_job [OF r1(1) j(1)] ty by (simp add: job_ok_def)
  have um: "um_inv (length (nc_mSessionPool s1)) (ch_mUserManager ?w)" using ready_users [OF r1(1)] r1(2) by simp
  have ue: "user_mem_ok (je_user e)" "mem_ok (je_mem e)" using e by (simp_all add: env_good_def)
  have names: "names_ok q" using login_of_ok len unfolding q by simp
  obtain U user where U: "AddUser (je_user e) ?sid q (ch_mUserManager ?w) = Inr (U, user)" "um_inv (length (nc_mSessionPool s1)) U"
    "pos_map U = pos_map (ch_mUserManager ?w)" "user = None \<longleftrightarrow> is_taken ?sid ?no (ch_mUserManager ?w)"
    "if is_taken ?sid ?no (ch_mUserManager ?w) then U = ch_mUserManager ?w else logged_in ?sid ?no (ch_mUserManager ?w) U"
    "\<forall>u. user = Some u \<longrightarrow> (\<exists>c. um_users U u = Some c \<and> cu_AccountNo c = ?no)"
    using login_added [OF um ue(1) names idx t] by blast
  let ?w1 = "?w\<lparr>ch_mUserManager := U\<rparr>"
  have "chat_inv C (exactly ?w1) (pp_refs (nc_recv s1)) (length (nc_mSessionPool s1)) ?w1"
    using readyD(3) [OF r1(1)] r1(2) U(2,3) by (simp add: chat_inv_def exactly_def)
  from ready_world [OF r1(1), where I' = "chat_inv C (exactly ?w1)", OF this]
  have r2: "ready (chat_inv C (exactly ?w1)) ?z (s1\<lparr>nc_world := ?w1\<rparr>)" .
  let ?f = "on_world (\<lambda>w. rbind (AddUser (je_user e) ?sid q (ch_mUserManager w)) (\<lambda>(m, user). Inr (w\<lparr>ch_mUserManager := m\<rparr>, user)))"
  have f: "?f s1 = Inr (s1\<lparr>nc_world := ?w1\<rparr>, user)" using U(1) r1(2) by (simp add: on_world_def)
  have us: "\<exists>c. ch_users ?w1 u = Some c \<and> cu_AccountNo c = ?no" if "user = Some u" for u using U(6) that by simp
  have "nc_world (s1\<lparr>nc_world := ?w1\<rparr>) = ?w1" by simp
  from login_answer [where user = user and no = ?no and job = job, OF r2 this ue(2) us] obtain s2 b where s2: "writing (chat_inv C (exactly ?w1)) ((\<lambda>_. 0)(b := (0 :: int) + 1)) b
      (le_bytes 2 CS_CHAT_RES_LOGIN @ le_bytes 1 (if user = None then 0 else 1) @ le_bytes 8 ?no) ?w1 s2"
    "login_reply e job ?no user (s1\<lparr>nc_world := ?w1\<rparr>) = act_bind (act_net (je_Send e ?sid b)) (\<lambda>_. act (free_send b)) s2" by blast
  have "JobUserLogin e job s = act_bind (act_net (je_Send e ?sid b)) (\<lambda>_. act (free_send b)) s2"
    unfolding s1(2) login_rest_def act_bind_act [of ?f, OF f] by (rule s2(2))
  then show ?thesis using s2(1) U(4,5) unfolding Let_def by (intro exI [of _ s2] exI [of _ b] exI [of _ U]) simp
qed

lemma login_keeps:
  assumes r: "kept C s" and j: "C j = Some job" and ty: "jb_JobType job = UserLogin" and e: "env_good e"
    and wb: "well_behaved job (job_bytes job s)"
  shows "aok (\<lambda>_. kept C) (kept C) (JobUserLogin e job s)"
proof (cases "length (job_bytes job s) < 154")
  case True
  obtain a where a: "jb_RecvPacket job = Some a" using taken_job [OF r j] ty by (auto simp: job_ok_def)
  show ?thesis by (rule login_read(1) [OF r j a refl True])
next
  case False
  obtain a where a: "jb_RecvPacket job = Some a" using taken_job [OF r j] ty by (auto simp: job_ok_def)
  have "terminated (lq_ID (login_of (job_bytes job s))) \<and> terminated (lq_Nickname (login_of (job_bytes job s)))"
    using wb ty False by (simp add: well_behaved_def login_of_def)
  then obtain s1 b U where s1: "writing (chat_inv C (exactly ((nc_world s)\<lparr>ch_mUserManager := U\<rparr>))) ((\<lambda>_. 0)(b := (0 :: int) + 1)) b
      (le_bytes 2 CS_CHAT_RES_LOGIN @ le_bytes 1 (if is_taken (jb_SessionID job) (lq_AccountNo (login_of (job_bytes job s))) (ch_mUserManager (nc_world s)) then 0 else 1) @
       le_bytes 8 (lq_AccountNo (login_of (job_bytes job s)))) ((nc_world s)\<lparr>ch_mUserManager := U\<rparr>) s1"
    "JobUserLogin e job s = act_bind (act_net (je_Send e (jb_SessionID job) b)) (\<lambda>_. act (free_send b)) s1"
    using login_answered [OF r j a ty e _ refl] False unfolding Let_def by (meson not_le)
  have r1: "ready (chat_inv C (exactly ((nc_world s)\<lparr>ch_mUserManager := U\<rparr>))) ((\<lambda>_. 0)(b := (0 :: int) + 1)) s1" using writingD [OF s1(1)] by simp
  have "unat (SessionIndex (jb_SessionID job)) < length (nc_mSessionPool s1)" using taken_job [OF r1 j] ty by (simp add: job_ok_def)
  from send_and_free [OF s1(1) this] show ?thesis unfolding s1(2) .
qed

text \<open>The job up to the look for the user, and what it does when the user and its account are right.\<close>

definition move_rest :: "job_env \<Rightarrow> Job \<Rightarrow> nat \<Rightarrow> nat \<Rightarrow> nat \<Rightarrow> (chat core, unit) action" where
  "move_rest e job AccountNo SectorX SectorY =
     act_bind (act (on_world (\<lambda>w. Inr (w, FindUserOrNull (jb_SessionID job) (ch_mUserManager w))))) (\<lambda>found.
     case found of
       None \<Rightarrow> act_return ()
     | Some user \<Rightarrow>
         act_bind (act (on_world (\<lambda>w. rbind (the_user user w) (\<lambda>u. Inr (w, cu_AccountNo u))))) (\<lambda>no.
         if no \<noteq> AccountNo
         then act_bind (act_net (Disconnect chat_events (jb_SessionID job))) (\<lambda>_. act_return ())
         else
           act_bind (act (alloc_send (je_t e) (je_mem e))) (\<lambda>a.
           act_bind (act (send_write a 2 CS_CHAT_RES_SECTOR_MOVE)) (\<lambda>_.
           act_bind (act (send_write a 8 no)) (\<lambda>_.
           act_bind (act (send_write a 2 SectorX)) (\<lambda>_.
           act_bind (act (send_write a 2 SectorY)) (\<lambda>_.
           act_bind (act (on_world (TryMove user (mk_int2 (int SectorX) (int SectorY))))) (\<lambda>_.
           act_bind (act_net (je_Send e (jb_SessionID job) a)) (\<lambda>_.
           act (free_send a))))))))))"

lemma move_read:
  assumes r: "kept C s" and j: "C j = Some job" "jb_RecvPacket job = Some a" and bs: "job_bytes job s = bs"
  shows "length bs < 14 \<Longrightarrow> aok P (kept C) (JobUserSectorMove e job s)"
    and "14 \<le> length bs \<Longrightarrow> \<exists>s1. reading (chat_inv C (exactly (nc_world s))) (\<lambda>_. 0) a (drop 14 bs) (nc_world s) s1 \<and>
      JobUserSectorMove e job s = move_rest e job (field 2 8 bs) (field 10 2 bs) (field 12 2 bs) s1"
proof -
  let ?w = "nc_world s" let ?z = "\<lambda>_. 0 :: int" let ?I = "chat_inv C (exactly ?w)"
  note rd = job_reading [OF r j, unfolded bs]
  have E: "kept C s'" if "reading ?I ?z a bs ?w s'" for bs s' using reading_kept [OF that] .
  have job: "JobUserSectorMove e job =
      act_bind (act (recv_read (Some a) 2)) (\<lambda>type.
      act_bind (act (recv_read (Some a) 8)) (\<lambda>AccountNo.
      act_bind (act (recv_read (Some a) 2)) (\<lambda>SectorX.
      act_bind (act (recv_read (Some a) 2)) (\<lambda>SectorY. move_rest e job AccountNo SectorX SectorY))))"
    using j(2) by (simp add: JobUserSectorMove_def move_rest_def fun_eq_iff)
  show "aok P (kept C) (JobUserSectorMove e job s)" if "length bs < 14"
    unfolding job
    by (rule aok_read, rule rd, rule E [OF rd], rule aok_read, assumption, erule E, rule aok_read, assumption, erule E,
      rule aok_read, assumption, erule E) (use that in simp)
  assume len: "14 \<le> length bs"
  then have l: "2 \<le> length bs" "8 \<le> length (drop 2 bs)" "2 \<le> length (drop 8 (drop 2 bs))" "2 \<le> length (drop 2 (drop 8 (drop 2 bs)))"
    by simp_all
  obtain s1 where s1: "recv_read (Some a) 2 s = Inr (s1, le_nat (take 2 bs))" "reading ?I ?z a (drop 2 bs) ?w s1"
    using read_step(1) [OF rd l(1)] by blast
  obtain s2 where s2: "recv_read (Some a) 8 s1 = Inr (s2, le_nat (take 8 (drop 2 bs)))" "reading ?I ?z a (drop 8 (drop 2 bs)) ?w s2"
    using read_step(1) [OF s1(2) l(2)] by blast
  obtain s3 where s3: "recv_read (Some a) 2 s2 = Inr (s3, le_nat (take 2 (drop 8 (drop 2 bs))))" "reading ?I ?z a (drop 2 (drop 8 (drop 2 bs))) ?w s3"
    using read_step(1) [OF s2(2) l(3)] by blast
  obtain s4 where s4: "recv_read (Some a) 2 s3 = Inr (s4, le_nat (take 2 (drop 2 (drop 8 (drop 2 bs)))))"
    "reading ?I ?z a (drop 2 (drop 2 (drop 8 (drop 2 bs)))) ?w s4"
    using read_step(1) [OF s3(2) l(4)] by blast
  show "\<exists>s1. reading ?I ?z a (drop 14 bs) ?w s1 \<and>
      JobUserSectorMove e job s = move_rest e job (field 2 8 bs) (field 10 2 bs) (field 12 2 bs) s1"
    unfolding job act_bind_act [of "recv_read (Some a) 2", OF s1(1)] act_bind_act [of "recv_read (Some a) 8", OF s2(1)]
      act_bind_act [of "recv_read (Some a) 2", OF s3(1)] act_bind_act [of "recv_read (Some a) 2", OF s4(1)]
    using s4(2) by (intro exI [of _ s4]) (simp add: field_def)
qed

lemma move_reply:
  assumes r: "ready (chat_inv C (exactly w)) (\<lambda>_. 0) s" and w: "nc_world s = w" and mem: "mem_ok (je_mem e)"
    and u: "FindUserOrNull (jb_SessionID job) (ch_mUserManager w) = Some u" "ch_users w u = Some c" "cu_AccountNo c = no"
  shows "\<exists>s1 b. writing (chat_inv C (exactly w)) ((\<lambda>_. 0)(b := (0 :: int) + 1)) b
        (le_bytes 2 CS_CHAT_RES_SECTOR_MOVE @ le_bytes 8 no @ le_bytes 2 X @ le_bytes 2 Y) w s1 \<and>
      move_rest e job no X Y s =
        act_bind (act (on_world (TryMove u (mk_int2 (int X) (int Y))))) (\<lambda>_.
        act_bind (act_net (je_Send e (jb_SessionID job) b)) (\<lambda>_. act (free_send b))) s1"
proof -
  let ?W = "\<lambda>b. writing (chat_inv C (exactly w)) ((\<lambda>_. 0)(b := (0 :: int) + 1)) b"
  let ?look = "on_world (\<lambda>w. Inr (w, FindUserOrNull (jb_SessionID job) (ch_mUserManager w)))"
  let ?deref = "on_world (\<lambda>w. rbind (the_user u w) (\<lambda>u. Inr (w, cu_AccountNo u)))"
  have l1: "?look s = Inr (s, Some u)" using u(1) w by (simp add: on_world_def)
  have l2: "?deref s = Inr (s, cu_AccountNo c)" using u(2) w by (simp add: on_world_def the_user_def)
  obtain s1 b where s1: "alloc_send (je_t e) (je_mem e) s = Inr (s1, b)" "?W b [] w s1"
    using alloc_step [where t = "je_t e", OF r mem] w by metis
  obtain s2 where s2: "send_write b 2 CS_CHAT_RES_SECTOR_MOVE s1 = Inr (s2, ())" "?W b ([] @ le_bytes 2 CS_CHAT_RES_SECTOR_MOVE) w s2"
    by (rule write_step [where v = CS_CHAT_RES_SECTOR_MOVE and n = 2, OF s1(2)]) simp_all
  obtain s3 where s3: "send_write b 8 (cu_AccountNo c) s2 = Inr (s3, ())"
    "?W b (([] @ le_bytes 2 CS_CHAT_RES_SECTOR_MOVE) @ le_bytes 8 (cu_AccountNo c)) w s3"
    by (rule write_step [where v = "cu_AccountNo c" and n = 8, OF s2(2)]) simp_all
  obtain s4 where s4: "send_write b 2 X s3 = Inr (s4, ())"
    "?W b ((([] @ le_bytes 2 CS_CHAT_RES_SECTOR_MOVE) @ le_bytes 8 (cu_AccountNo c)) @ le_bytes 2 X) w s4"
    by (rule write_step [where v = X and n = 2, OF s3(2)]) simp_all
  obtain s5 where s5: "send_write b 2 Y s4 = Inr (s5, ())"
    "?W b (((([] @ le_bytes 2 CS_CHAT_RES_SECTOR_MOVE) @ le_bytes 8 (cu_AccountNo c)) @ le_bytes 2 X) @ le_bytes 2 Y) w s5"
    by (rule write_step [where v = Y and n = 2, OF s4(2)]) simp_all
  have same: "\<not> cu_AccountNo c \<noteq> no" using u(3) by simp
  have "move_rest e job no X Y s = act_bind (act (on_world (TryMove u (mk_int2 (int X) (int Y))))) (\<lambda>_.
        act_bind (act_net (je_Send e (jb_SessionID job) b)) (\<lambda>_. act (free_send b))) s5"
    unfolding move_rest_def act_bind_act [of ?look, OF l1] option.case act_bind_act [of ?deref, OF l2] if_not_P [OF same]
      act_bind_act [of "alloc_send (je_t e) (je_mem e)", OF s1(1)] act_bind_act [of "send_write b 2 CS_CHAT_RES_SECTOR_MOVE", OF s2(1)]
      act_bind_act [of "send_write b 8 (cu_AccountNo c)", OF s3(1)] act_bind_act [of "send_write b 2 X", OF s4(1)]
      act_bind_act [of "send_write b 2 Y", OF s5(1)] ..
  then show ?thesis using s5(2) u(3) by (intro exI [of _ s5] exI [of _ b]) simp
qed

text \<open>The user is moved.\<close>

lemma move_on_grid:
  assumes w: "writing (chat_inv C (exactly w)) m b bs w s" and u: "ch_users w u = Some c" and xy: "X < 50" "Y < 50"
  shows "\<exists>w' mv. on_world (TryMove u (mk_int2 (int X) (int Y))) s = Inr (s\<lparr>nc_world := w'\<rparr>, mv) \<and>
    writing (chat_inv C anything) m b bs w' (s\<lparr>nc_world := w'\<rparr>) \<and>
    ch_mUserManager w' = (ch_mUserManager w)\<lparr>um_users := (ch_users w)(u \<mapsto> c\<lparr>cu_mCurSectorPos := mk_int2 (int X) (int Y)\<rparr>)\<rparr>"
proof -
  have r: "ready (chat_inv C (exactly w)) m s" "nc_world s = w" using writingD [OF w] by simp_all
  have p: "cs_in w (mk_int2 (int X) (int Y))" using xy ready_grid(2,3) [OF r(1)] r(2) by (simp add: cs_in_def in_grid_def)
  have g: "cs_grid (ch_mSectorManager w) (pos_map (ch_mUserManager w))" using ready_grid(1) [OF r(1)] r(2) by simp
  obtain w' mv where w': "TryMove u (mk_int2 (int X) (int Y)) w = Inr (w', mv)"
    "ch_mUserManager w' = (ch_mUserManager w)\<lparr>um_users := (ch_users w)(u \<mapsto> c\<lparr>cu_mCurSectorPos := mk_int2 (int X) (int Y)\<rparr>)\<rparr>"
    "cs_grid (ch_mSectorManager w') (pos_map (ch_mUserManager w'))"
    "w' = w\<lparr>ch_mUserManager := ch_mUserManager w', ch_mSectorManager := ch_mSectorManager w'\<rparr>"
    "cs_mWidth (ch_mSectorManager w') = cs_mWidth (ch_mSectorManager w)"
    "cs_mHeight (ch_mSectorManager w') = cs_mHeight (ch_mSectorManager w)"
    using TryMove_ok [OF g u p] by blast
  have "um_inv n (ch_mUserManager w) \<Longrightarrow> um_inv n (ch_mUserManager w')" for n using u unfolding w'(2) um_inv_def by auto
  then have "chat_inv C anything (pp_refs (nc_recv s)) (length (nc_mSessionPool s)) w'"
    using readyD(3) [OF r(1)] r(2) w'(3,5,6) by (subst w'(4)) (simp add: chat_inv_def)
  from ready_world [OF r(1), where I' = "chat_inv C anything", OF this]
  have "writing (chat_inv C anything) m b bs w' (s\<lparr>nc_world := w'\<rparr>)" using w by (auto simp: writing_def)
  then show ?thesis using w'(1,2) r(2) by (intro exI [of _ w'] exI [of _ mv]) (simp add: on_world_def)
qed

lemma move_keeps:
  assumes r: "kept C s" and j: "C j = Some job" and ty: "jb_JobType job = UserSectorMove" and e: "env_good e"
    and wb: "well_behaved job (job_bytes job s)"
  shows "aok (\<lambda>_. kept C) (kept C) (JobUserSectorMove e job s)"
proof (cases "length (job_bytes job s) < 14")
  case True
  obtain a where a: "jb_RecvPacket job = Some a" using taken_job [OF r j] ty by (auto simp: job_ok_def)
  show ?thesis by (rule move_read(1) [OF r j a refl True])
next
  case False
  let ?w = "nc_world s" let ?bs = "job_bytes job s" let ?no = "field 2 8 ?bs" let ?X = "field 10 2 ?bs" let ?Y = "field 12 2 ?bs"
  obtain a where a: "jb_RecvPacket job = Some a" using taken_job [OF r j] ty by (auto simp: job_ok_def)
  obtain s1 where s1: "reading (chat_inv C (exactly ?w)) (\<lambda>_. 0) a (drop 14 ?bs) ?w s1"
    "JobUserSectorMove e job s = move_rest e job ?no ?X ?Y s1"
    using move_read(2) [OF r j a refl] False by (meson not_le)
  have r1: "ready (chat_inv C (exactly ?w)) (\<lambda>_. 0) s1" "nc_world s1 = ?w" using readingD [OF s1(1)] by simp_all
  have idx: "unat (SessionIndex (jb_SessionID job)) < length (nc_mSessionPool s1)"
    using taken_job [OF r1(1) j] ty by (simp add: job_ok_def)
  show ?thesis
  proof (cases "FindUserOrNull (jb_SessionID job) (ch_mUserManager ?w)")
    case None
    show ?thesis unfolding s1(2) move_rest_def
      by (rule aok_look [where x = None]) (use None reading_kept [OF s1(1)] r1(2) in \<open>simp_all add: act_return_def\<close>)
  next
    case (Some u)
    then obtain c where c: "ch_users ?w u = Some c"
      using um_inv_maps(1) [OF ready_users [OF r1(1)]] r1(2) by (auto simp: FindUserOrNull_def)
    show ?thesis
    proof (cases "cu_AccountNo c = ?no")
      case False
      then show ?thesis unfolding s1(2) move_rest_def
        by (intro aok_look [where x = "Some u"], use Some r1(2) in simp, unfold option.case,
            intro aok_look [where x = "cu_AccountNo c"]) (use c r1(2) Disconnect_then [OF r1(1) idx] in \<open>simp_all add: the_user_def\<close>)
    next
      case True
      have mem: "mem_ok (je_mem e)" using e by (simp add: env_good_def)
      obtain s2 b where s2: "writing (chat_inv C (exactly ?w)) ((\<lambda>_. 0)(b := (0 :: int) + 1)) b
          (le_bytes 2 CS_CHAT_RES_SECTOR_MOVE @ le_bytes 8 ?no @ le_bytes 2 ?X @ le_bytes 2 ?Y) ?w s2"
        "move_rest e job ?no ?X ?Y s1 = act_bind (act (on_world (TryMove u (mk_int2 (int ?X) (int ?Y))))) (\<lambda>_.
          act_bind (act_net (je_Send e (jb_SessionID job) b)) (\<lambda>_. act (free_send b))) s2"
        using move_reply [OF r1(1,2) mem Some c True] by blast
      have xy: "?X < 50" "?Y < 50" using wb ty False by (auto simp: well_behaved_def)
      obtain w' mv where w': "on_world (TryMove u (mk_int2 (int ?X) (int ?Y))) s2 = Inr (s2\<lparr>nc_world := w'\<rparr>, mv)"
        "writing (chat_inv C anything) ((\<lambda>_. 0)(b := (0 :: int) + 1)) b
          (le_bytes 2 CS_CHAT_RES_SECTOR_MOVE @ le_bytes 8 ?no @ le_bytes 2 ?X @ le_bytes 2 ?Y) w' (s2\<lparr>nc_world := w'\<rparr>)"
        using move_on_grid [OF s2(1) c xy] by blast
      have r2: "ready (chat_inv C (exactly ?w)) ((\<lambda>_. 0)(b := (0 :: int) + 1)) s2" using writingD [OF s2(1)] by simp
      have "unat (SessionIndex (jb_SessionID job)) < length (nc_mSessionPool (s2\<lparr>nc_world := w'\<rparr>))"
        using taken_job [OF r2 j] ty by (simp add: job_ok_def)
      from send_and_free [OF w'(2) this] show ?thesis
        unfolding s1(2) s2(2) act_bind_act [of "on_world (TryMove u (mk_int2 (int ?X) (int ?Y)))", OF w'(1)] .
    qed
  qed
qed

text \<open>
  The message job up to the answer: the message is in the buffer, and the rest depends on the user of the session.
\<close>

definition message_rest :: "job_env \<Rightarrow> Job \<Rightarrow> nat \<Rightarrow> nat \<Rightarrow> (chat core, unit) action" where
  "message_rest e job AccountNo MessageLen =
     act_bind (act (on_world (\<lambda>w. Inr (w, FindUserOrNull (jb_SessionID job) (ch_mUserManager w))))) (\<lambda>found.
     case found of
       None \<Rightarrow> act_bind (act_net (Disconnect chat_events (jb_SessionID job))) (\<lambda>_. act_return ())
     | Some user \<Rightarrow>
         act_bind (act (on_world (\<lambda>w. rbind (the_user user w) (\<lambda>u. Inr (w, u))))) (\<lambda>u.
         if cu_AccountNo u \<noteq> AccountNo
         then act_bind (act_net (Disconnect chat_events (jb_SessionID job))) (\<lambda>_. act_return ())
         else
           act_bind (act (alloc_send (je_t e) (je_mem e))) (\<lambda>a.
           act_bind (act (send_write a 2 CS_CHAT_RES_MESSAGE)) (\<lambda>_.
           act_bind (act (send_write a 8 AccountNo)) (\<lambda>_.
           act_bind (act (send_put a (wbytes (cu_ID u)) 40)) (\<lambda>_.
           act_bind (act (send_put a (wbytes (cu_Nickname u)) 40)) (\<lambda>_.
           act_bind (act (send_write a 2 MessageLen)) (\<lambda>_.
           act_bind (act (\<lambda>s. send_put a (ch_mMessageBuffer (nc_world s)) MessageLen s)) (\<lambda>_.
           act_bind (act_net (chat_SendAround e (cu_mCurSectorPos u) a)) (\<lambda>_.
           act (free_send a)))))))))))"

definition buffered :: "byte list \<Rightarrow> chat \<Rightarrow> chat" where
  "buffered xs w = w\<lparr>ch_mMessageBuffer := xs @ drop (length xs) (ch_mMessageBuffer w)\<rparr>"

lemma buffered_sel [simp]:
  "ch_mUserManager (buffered xs w) = ch_mUserManager w" "ch_mSectorManager (buffered xs w) = ch_mSectorManager w"
  "ch_mMessageBuffer (buffered xs w) = xs @ drop (length xs) (ch_mMessageBuffer w)"
  "sid_of (buffered xs w) = sid_of w"
  by (simp_all add: buffered_def sid_of_def fun_eq_iff)

lemma message_read:
  assumes r: "kept C s" and j: "C j = Some job" "jb_RecvPacket job = Some a" and bs: "job_bytes job s = bs"
  shows "length bs < 12 \<Longrightarrow> aok P (kept C) (JobUserMessage e job s)"
    and "12 + field 10 2 bs \<le> length bs \<Longrightarrow> field 10 2 bs \<le> 2048 \<Longrightarrow>
      \<exists>s1. ready (chat_inv C (exactly (nc_world s1))) (\<lambda>_. 0) s1 \<and> nc_world s1 = buffered (take (field 10 2 bs) (drop 12 bs)) (nc_world s) \<and>
        JobUserMessage e job s = message_rest e job (field 2 8 bs) (field 10 2 bs) s1"
    and "12 \<le> length bs \<Longrightarrow> length bs < 12 + field 10 2 bs \<Longrightarrow> aok P (kept C) (JobUserMessage e job s)"
    and "12 + field 10 2 bs \<le> length bs \<Longrightarrow> 2048 < field 10 2 bs \<Longrightarrow> \<exists>s1. JobUserMessage e job s = (Inl (Faulted MemFault), s1)"
proof -
  let ?w = "nc_world s" let ?z = "\<lambda>_. 0 :: int" let ?I = "chat_inv C (exactly ?w)"
  note rd = job_reading [OF r j, unfolded bs]
  have E: "kept C s'" if "reading ?I ?z a bs ?w s'" for bs s' using reading_kept [OF that] .
  let ?k = "\<lambda>type. act_bind (act (recv_read (Some a) 8)) (\<lambda>AccountNo.
     act_bind (act (recv_read (Some a) 2)) (\<lambda>MessageLen.
     act_bind (act (\<lambda>s. rbind (recv_get (Some a) MessageLen (ch_mMessageBuffer (nc_world s)) s) (\<lambda>(s, data).
                 Inr (s\<lparr>nc_world := (nc_world s)\<lparr>ch_mMessageBuffer := data\<rparr>\<rparr>, ())))) (\<lambda>_.
       message_rest e job AccountNo MessageLen)))"
  have job: "JobUserMessage e job = act_bind (act (recv_read (Some a) 2)) ?k"
    using j(2) by (simp add: JobUserMessage_def message_rest_def fun_eq_iff)
  show "aok P (kept C) (JobUserMessage e job s)" if "length bs < 12"
    unfolding job
    by (rule aok_read, rule rd, rule E [OF rd], rule aok_read, assumption, erule E, rule aok_read, assumption, erule E)
      (use that in simp)
  have chain: "\<exists>s3. reading ?I ?z a (drop 12 bs) ?w s3 \<and> JobUserMessage e job s =
      act_bind (act (\<lambda>s. rbind (recv_get (Some a) (field 10 2 bs) (ch_mMessageBuffer (nc_world s)) s) (\<lambda>(s, data).
                 Inr (s\<lparr>nc_world := (nc_world s)\<lparr>ch_mMessageBuffer := data\<rparr>\<rparr>, ())))) (\<lambda>_.
       message_rest e job (field 2 8 bs) (field 10 2 bs)) s3" if len: "12 \<le> length bs"
  proof -
    have l: "2 \<le> length bs" "8 \<le> length (drop 2 bs)" "2 \<le> length (drop 8 (drop 2 bs))" using len by simp_all
    obtain s1 where s1: "recv_read (Some a) 2 s = Inr (s1, le_nat (take 2 bs))" "reading ?I ?z a (drop 2 bs) ?w s1"
      using read_step(1) [OF rd l(1)] by blast
    obtain s2 where s2: "recv_read (Some a) 8 s1 = Inr (s2, le_nat (take 8 (drop 2 bs)))" "reading ?I ?z a (drop 8 (drop 2 bs)) ?w s2"
      using read_step(1) [OF s1(2) l(2)] by blast
    obtain s3 where s3: "recv_read (Some a) 2 s2 = Inr (s3, le_nat (take 2 (drop 8 (drop 2 bs))))" "reading ?I ?z a (drop 2 (drop 8 (drop 2 bs))) ?w s3"
      using read_step(1) [OF s2(2) l(3)] by blast
    show ?thesis
      unfolding job act_bind_act [of "recv_read (Some a) 2", OF s1(1)] act_bind_act [of "recv_read (Some a) 8", OF s2(1)]
        act_bind_act [of "recv_read (Some a) 2", OF s3(1)]
      using s3(2) by (intro exI [of _ s3]) (simp add: field_def)
  qed
  let ?n = "field 10 2 bs" let ?buf = "ch_mMessageBuffer ?w"
  have buf: "length ?buf = 2048" using ready_grid(4) [OF r] .
  let ?f = "\<lambda>s. rbind (recv_get (Some a) ?n (ch_mMessageBuffer (nc_world s)) s) (\<lambda>(s, data).
                 Inr (s\<lparr>nc_world := (nc_world s)\<lparr>ch_mMessageBuffer := data\<rparr>\<rparr>, ()))"
  show "\<exists>s1. ready (chat_inv C (exactly (nc_world s1))) (\<lambda>_. 0) s1 \<and> nc_world s1 = buffered (take ?n (drop 12 bs)) ?w \<and>
        JobUserMessage e job s = message_rest e job (field 2 8 bs) ?n s1" if len: "12 + ?n \<le> length bs" "?n \<le> 2048"
  proof -
    obtain s3 where s3: "reading ?I ?z a (drop 12 bs) ?w s3"
      "JobUserMessage e job s = act_bind (act ?f) (\<lambda>_. message_rest e job (field 2 8 bs) ?n) s3"
      using chain len(1) by auto
    have w3: "nc_world s3 = ?w" using readingD [OF s3(1)] by simp
    have l: "?n \<le> length ?buf" "?n \<le> length (drop 12 bs)" using len buf by simp_all
    obtain s4 where s4: "recv_get (Some a) ?n ?buf s3 = Inr (s4, take ?n (drop 12 bs) @ drop ?n ?buf)"
      "reading ?I ?z a (drop ?n (drop 12 bs)) ?w s4"
      using get_step(1) [OF s3(1) l] by blast
    let ?s4 = "s4\<lparr>nc_world := buffered (take ?n (drop 12 bs)) ?w\<rparr>"
    have r4: "ready ?I ?z s4" "nc_world s4 = ?w" using readingD [OF s4(2)] by simp_all
    have "?f s3 = Inr (?s4, ())" using s4(1) r4(2) w3 len(1) by (simp add: buffered_def)
    then have "JobUserMessage e job s = message_rest e job (field 2 8 bs) ?n ?s4"
      unfolding s3(2) by (rule act_bind_act)
    moreover have "chat_inv C (exactly (nc_world ?s4)) (pp_refs (nc_recv s4)) (length (nc_mSessionPool s4)) (nc_world ?s4)"
      using readyD(3) [OF r4(1)] r4(2) len buf by (simp add: chat_inv_def exactly_def buffered_def)
    from ready_world [OF r4(1), where I' = "chat_inv C (exactly (nc_world ?s4))", OF this]
    have "ready (chat_inv C (exactly (nc_world ?s4))) ?z ?s4" by simp
    ultimately show ?thesis by (intro exI [of _ ?s4]) simp
  qed
  show "aok P (kept C) (JobUserMessage e job s)" if len: "12 \<le> length bs" "length bs < 12 + ?n"
  proof -
    obtain s3 where s3: "reading ?I ?z a (drop 12 bs) ?w s3"
      "JobUserMessage e job s = act_bind (act ?f) (\<lambda>_. message_rest e job (field 2 8 bs) ?n) s3"
      using chain len(1) by auto
    have w3: "nc_world s3 = ?w" using readingD [OF s3(1)] by simp
    have "?f s3 = Inl ReaderException" using get_small(1) [OF s3(1), of ?n ?buf] len w3 by simp
    then have "JobUserMessage e job s = (Inl ThrewReader, s3)" unfolding s3(2) by (simp add: act_bind_def act_def)
    then show ?thesis using E [OF s3(1)] by simp
  qed
  show "\<exists>s1. JobUserMessage e job s = (Inl (Faulted MemFault), s1)" if len: "12 + ?n \<le> length bs" "2048 < ?n"
  proof -
    obtain s3 where s3: "reading ?I ?z a (drop 12 bs) ?w s3"
      "JobUserMessage e job s = act_bind (act ?f) (\<lambda>_. message_rest e job (field 2 8 bs) ?n) s3"
      using chain len(1) by auto
    have w3: "nc_world s3 = ?w" using readingD [OF s3(1)] by simp
    have "?f s3 = Inl MemFault" using get_small(2) [OF s3(1), of ?n ?buf] len buf w3 by simp
    then show ?thesis unfolding s3(2) by (simp add: act_bind_def act_def)
  qed
qed

lemma length_wbytes [simp]: "length (wbytes cs) = 2 * length cs"
  by (induction cs) (simp_all add: wbytes_def)

text \<open>The answer, once it is known who speaks.\<close>

lemma message_sent:
  assumes r: "ready (chat_inv C (exactly w)) (\<lambda>_. 0) s" and w: "nc_world s = w" and mem: "mem_ok (je_mem e)"
    and u: "FindUserOrNull (jb_SessionID job) (ch_mUserManager w) = Some u" "ch_users w u = Some c" "cu_AccountNo c = no"
    and n: "n \<le> 2048"
  shows "\<exists>s1 b us. distinct us \<and> set us = {v. \<exists>q. pos_map (ch_mUserManager w) v = Some q \<and> near (cu_mCurSectorPos c) q} \<and>
      writing (chat_inv C (exactly w)) ((\<lambda>_. 0)(b := (0 :: int) + 1)) b
        (le_bytes 2 CS_CHAT_RES_MESSAGE @ le_bytes 8 no @ wbytes (cu_ID c) @ wbytes (cu_Nickname c) @ le_bytes 2 n @
         take n (ch_mMessageBuffer w)) w s1 \<and> (\<forall>v \<in> set us. ch_users w v \<noteq> None) \<and>
      message_rest e job no n s =
        act_bind (act_net (\<lambda>s. rbind (send_sids e (map (sid_of w) us) b s) (\<lambda>s. Inr (s, ())))) (\<lambda>_. act (free_send b)) s1"
proof -
  let ?I = "chat_inv C (exactly w)"
  let ?W = "\<lambda>b. writing ?I ((\<lambda>_. 0)(b := (0 :: int) + 1)) b"
  have len: "length (cu_ID c) = 20" "length (cu_Nickname c) = 20"
    using um_inv_maps(3) [OF ready_users [OF r]] u(2) w by auto
  have buf: "length (ch_mMessageBuffer w) = 2048" using ready_grid(4) [OF r] w by simp
  let ?look = "on_world (\<lambda>w. Inr (w, FindUserOrNull (jb_SessionID job) (ch_mUserManager w)))"
  let ?deref = "on_world (\<lambda>w. rbind (the_user u w) (\<lambda>u. Inr (w, u)))"
  have l1: "?look s = Inr (s, Some u)" using u(1) w by (simp add: on_world_def)
  have l2: "?deref s = Inr (s, c)" using u(2) w by (simp add: on_world_def the_user_def)
  obtain s1 b where s1: "alloc_send (je_t e) (je_mem e) s = Inr (s1, b)" "?W b [] w s1"
    using alloc_step [where t = "je_t e", OF r mem] w by metis
  obtain s2 where s2: "send_write b 2 CS_CHAT_RES_MESSAGE s1 = Inr (s2, ())" "?W b ([] @ le_bytes 2 CS_CHAT_RES_MESSAGE) w s2"
    by (rule write_step [where v = CS_CHAT_RES_MESSAGE and n = 2, OF s1(2)]) simp_all
  obtain s3 where s3: "send_write b 8 no s2 = Inr (s3, ())" "?W b (([] @ le_bytes 2 CS_CHAT_RES_MESSAGE) @ le_bytes 8 no) w s3"
    by (rule write_step [where v = no and n = 8, OF s2(2)]) simp_all
  obtain s4 where s4: "send_put b (wbytes (cu_ID c)) 40 s3 = Inr (s4, ())"
    "?W b ((([] @ le_bytes 2 CS_CHAT_RES_MESSAGE) @ le_bytes 8 no) @ take 40 (wbytes (cu_ID c))) w s4"
    by (rule put_step [where data = "wbytes (cu_ID c)" and n = 40, OF s3(2)]) (use len in simp_all)
  obtain s5 where s5: "send_put b (wbytes (cu_Nickname c)) 40 s4 = Inr (s5, ())"
    "?W b (((([] @ le_bytes 2 CS_CHAT_RES_MESSAGE) @ le_bytes 8 no) @ take 40 (wbytes (cu_ID c))) @ take 40 (wbytes (cu_Nickname c))) w s5"
    by (rule put_step [where data = "wbytes (cu_Nickname c)" and n = 40, OF s4(2)]) (use len in simp_all)
  obtain s6 where s6: "send_write b 2 n s5 = Inr (s6, ())"
    "?W b ((((([] @ le_bytes 2 CS_CHAT_RES_MESSAGE) @ le_bytes 8 no) @ take 40 (wbytes (cu_ID c))) @ take 40 (wbytes (cu_Nickname c))) @
      le_bytes 2 n) w s6"
    by (rule write_step [where v = n and n = 2, OF s5(2)]) (use len in simp_all)
  obtain s7 where s7: "send_put b (ch_mMessageBuffer w) n s6 = Inr (s7, ())"
    "?W b (((((([] @ le_bytes 2 CS_CHAT_RES_MESSAGE) @ le_bytes 8 no) @ take 40 (wbytes (cu_ID c))) @ take 40 (wbytes (cu_Nickname c))) @
      le_bytes 2 n) @ take n (ch_mMessageBuffer w)) w s7"
    by (rule put_step [where data = "ch_mMessageBuffer w" and n = n, OF s6(2)]) (use len buf n in simp_all)
  have l7: "(\<lambda>s. send_put b (ch_mMessageBuffer (nc_world s)) n s) s6 = Inr (s7, ())" using s7(1) writingD [OF s6(2)] by simp
  have body: "((((([] @ le_bytes 2 CS_CHAT_RES_MESSAGE) @ le_bytes 8 no) @ take 40 (wbytes (cu_ID c))) @ take 40 (wbytes (cu_Nickname c))) @
      le_bytes 2 n) @ take n (ch_mMessageBuffer w) =
      le_bytes 2 CS_CHAT_RES_MESSAGE @ le_bytes 8 no @ wbytes (cu_ID c) @ wbytes (cu_Nickname c) @ le_bytes 2 n @ take n (ch_mMessageBuffer w)"
    using len by simp
  have r7: "ready ?I ((\<lambda>_. 0)(b := 0 + 1)) s7" using writingD [OF s7(2)] by simp
  obtain us where us: "distinct us" "set us = {v. \<exists>q. pos_map (ch_mUserManager w) v = Some q \<and> near (cu_mCurSectorPos c) q}"
    "chat_SendAround e (cu_mCurSectorPos c) b s7 = rbind (send_sids e (map (sid_of w) us) b s7) (\<lambda>s. Inr (s, ()))"
    "\<forall>v \<in> set us. ch_users w v \<noteq> None"
    using SendAround_eq [OF r7, of b "cu_mCurSectorPos c" e] by auto
  have last: "act_bind (act_net (chat_SendAround e (cu_mCurSectorPos c) b)) (\<lambda>_. act (free_send b)) s7 =
      act_bind (act_net (\<lambda>s. rbind (send_sids e (map (sid_of w) us) b s) (\<lambda>s. Inr (s, ())))) (\<lambda>_. act (free_send b)) s7"
    using us(3) by (simp add: act_bind_def act_net_def)
  have same: "\<not> cu_AccountNo c \<noteq> no" using u(3) by simp
  have "message_rest e job no n s = act_bind (act_net (chat_SendAround e (cu_mCurSectorPos c) b)) (\<lambda>_. act (free_send b)) s7"
    unfolding message_rest_def act_bind_act [of ?look, OF l1] option.case act_bind_act [of ?deref, OF l2] if_not_P [OF same]
      act_bind_act [of "alloc_send (je_t e) (je_mem e)", OF s1(1)] act_bind_act [of "send_write b 2 CS_CHAT_RES_MESSAGE", OF s2(1)]
      act_bind_act [of "send_write b 8 no", OF s3(1)] act_bind_act [of "send_put b (wbytes (cu_ID c)) 40", OF s4(1)]
      act_bind_act [of "send_put b (wbytes (cu_Nickname c)) 40", OF s5(1)] act_bind_act [of "send_write b 2 n", OF s6(1)]
      act_bind_act [of "\<lambda>s. send_put b (ch_mMessageBuffer (nc_world s)) n s", OF l7] ..
  then show ?thesis using us s7(2) unfolding body last by blast
qed

lemma message_keeps:
  assumes r: "kept C s" and j: "C j = Some job" and ty: "jb_JobType job = UserMessage" and e: "env_good e"
    and wb: "well_behaved job (job_bytes job s)"
  shows "aok (\<lambda>_. kept C) (kept C) (JobUserMessage e job s)"
proof -
  let ?bs = "job_bytes job s" let ?n = "field 10 2 ?bs"
  have ok: "job_ok (length (nc_mSessionPool s)) job" by (rule taken_job [OF r j])
  obtain a where a: "jb_RecvPacket job = Some a" using ok ty by (auto simp: job_ok_def)
  note rd = message_read [OF r j a refl, where e = e]
  consider "length ?bs < 12" | "12 \<le> length ?bs" "length ?bs < 12 + ?n" | "12 + ?n \<le> length ?bs" by linarith
  then show ?thesis
  proof cases
    case 1
    then show ?thesis by (rule rd(1))
  next
    case 2
    then show ?thesis using rd(3) wb ty by (simp add: well_behaved_def)
  next
    case 3
    then have n: "?n \<le> 2048" using wb ty by (simp add: well_behaved_def)
    let ?no = "field 2 8 ?bs"
    obtain s1 where s1: "ready (chat_inv C (exactly (nc_world s1))) (\<lambda>_. 0) s1" "JobUserMessage e job s = message_rest e job ?no ?n s1"
      using rd(2) [OF 3 n] by blast
    let ?w = "nc_world s1"
    have idx: "unat (SessionIndex (jb_SessionID job)) < length (nc_mSessionPool s1)"
      using taken_job [OF s1(1) j] ty by (simp add: job_ok_def)
    let ?look = "on_world (\<lambda>w. Inr (w, FindUserOrNull (jb_SessionID job) (ch_mUserManager w)))"
    have look: "?look s1 = Inr (s1, FindUserOrNull (jb_SessionID job) (ch_mUserManager ?w))" by (simp add: on_world_def)
    note step = act_bind_act [of ?look, OF look]
    show ?thesis
    proof (cases "FindUserOrNull (jb_SessionID job) (ch_mUserManager ?w)")
      case None
      show ?thesis
        unfolding s1(2) message_rest_def step None option.case by (rule Disconnect_then [OF s1(1) idx])
    next
      case (Some u)
      then obtain c where c: "ch_users ?w u = Some c"
        using um_inv_maps(1) [OF ready_users [OF s1(1)]] by (auto simp: FindUserOrNull_def)
      show ?thesis
      proof (cases "cu_AccountNo c = ?no")
        case False
        let ?deref = "on_world (\<lambda>w. rbind (the_user u w) (\<lambda>u. Inr (w, u)))"
        have l2: "?deref s1 = Inr (s1, c)" using c by (simp add: on_world_def the_user_def)
        show ?thesis
          unfolding s1(2) message_rest_def step Some option.case act_bind_act [of ?deref, OF l2] if_P [OF False]
          by (rule Disconnect_then [OF s1(1) idx])
      next
        case True
        have mem: "mem_ok (je_mem e)" using e by (simp add: env_good_def)
        obtain s2 b us where s2: "writing (chat_inv C (exactly ?w)) ((\<lambda>_. 0)(b := (0 :: int) + 1)) b
            (le_bytes 2 CS_CHAT_RES_MESSAGE @ le_bytes 8 ?no @ wbytes (cu_ID c) @ wbytes (cu_Nickname c) @ le_bytes 2 ?n @
             take ?n (ch_mMessageBuffer ?w)) ?w s2" "\<forall>v \<in> set us. ch_users ?w v \<noteq> None"
          "message_rest e job ?no ?n s1 =
            act_bind (act_net (\<lambda>s. rbind (send_sids e (map (sid_of ?w) us) b s) (\<lambda>s. Inr (s, ())))) (\<lambda>_. act (free_send b)) s2"
          using message_sent [OF s1(1) refl mem Some c True n] by blast
        have r2: "ready (chat_inv C (exactly ?w)) ((\<lambda>_. 0)(b := (0 :: int) + 1)) s2" using writingD [OF s2(1)] by simp
        have idx2: "\<forall>sid \<in> set (map (sid_of ?w) us). unat (SessionIndex sid) < length (nc_mSessionPool s2)"
          using user_idx [OF r2] s2(2) by simp
        have pos: "0 < ((\<lambda>_. 0)(b := (0 :: int) + 1)) b" by simp
        have send: "rok (\<lambda>(s', _). ready (chat_inv C (exactly ?w)) ((\<lambda>_. 0)(b := (0 :: int) + 1)) s')
            (rbind (send_sids e (map (sid_of ?w) us) b s2) (\<lambda>s. Inr (s, ())))"
          by (rule rok_bind [OF send_sids_ok [OF r2 pos idx2]]) (simp only: prod.case rok_simps)
        show ?thesis
          unfolding s1(2) s2(3)
        proof (rule aok_bind_net, rule send)
          fix s3 assume "ready (chat_inv C (exactly ?w)) ((\<lambda>_. 0)(b := (0 :: int) + 1)) s3"
          then show "aok (\<lambda>_. kept C) (kept C) (act (free_send b) s3)"
            by (intro aok_free [where m = "(\<lambda>_. 0)(b := (0 :: int) + 1)"]) (auto intro: ready_anything)
        qed
      qed
    qed
  qed
qed

lemma HandleJob_keeps:
  assumes r: "kept C s" and j: "C j = Some job" and e: "env_good e" and wb: "well_behaved job (job_bytes job s)"
  shows "aok (\<lambda>_. kept C) (kept C) (HandleJob e job s)"
  unfolding HandleJob_def
proof (rule aok_bind)
  have "jb_JobType job \<noteq> INVALID_JobType" using taken_job [OF r j] by (simp add: job_ok_def)
  moreover have "aok (\<lambda>_. kept C) (kept C) (JobSystemHeartBeat e job s)"
    using heartbeat_loop_eq [OF ready_users [OF r]] r by (simp add: JobSystemHeartBeat_def act_net_def)
  ultimately show "aok (\<lambda>_. kept C) (kept C)
      ((case jb_JobType job of
          UserLogin \<Rightarrow> JobUserLogin e job
        | UserSectorMove \<Rightarrow> JobUserSectorMove e job
        | UserMessage \<Rightarrow> JobUserMessage e job
        | UserHeartBeat \<Rightarrow> JobUserHeartBeat job
        | SystemDisconnectUser \<Rightarrow> JobSystemDisconnectUser job
        | SystemHeartBeat \<Rightarrow> JobSystemHeartBeat e job
        | INVALID_JobType \<Rightarrow> act_throw ThrewOther) s)"
    using login_keeps [OF r j _ e wb] move_keeps [OF r j _ e wb] message_keeps [OF r j _ e wb] HeartBeat_keeps [OF r]
      DisconnectUser_keeps [OF r]
    by (cases "jb_JobType job") simp_all
qed (simp add: act_return_def)

text \<open>
  A job whose type is one of the system's never throws, so the identifier 0 of a heartbeat is never disconnected.
\<close>

lemma HandleJob_heartbeat:
  assumes "kept C s" "jb_JobType job = SystemHeartBeat"
  shows "HandleJob e job s = (Inr True, s)"
  using heartbeat_loop_eq [OF ready_users [OF assms(1)]] assms(2)
  by (simp add: HandleJob_def JobSystemHeartBeat_def act_net_def act_bind_def act_return_def)

subsection \<open>The queue of jobs\<close>

lemma take_job_ok:
  assumes r: "kept Map.empty s"
  shows "queue_list (ch_mJobQueue (nc_world s)) = [] \<Longrightarrow> Queue_IsEmpty (ch_mJobQueue (nc_world s))"
    and "queue_list (ch_mJobQueue (nc_world s)) = j # js \<Longrightarrow>
      \<not> Queue_IsEmpty (ch_mJobQueue (nc_world s)) \<and>
      (\<exists>s1 job. take_job s = Inr (s1, Some (j, job)) \<and> ch_jobs (nc_world s) j = Some job \<and> kept [j \<mapsto> job] s1 \<and>
        queue_list (ch_mJobQueue (nc_world s1)) = js \<and> job_bytes job s1 = job_bytes job s \<and>
        s1 = s\<lparr>nc_world := (nc_world s)\<lparr>ch_mJobQueue := ch_mJobQueue (nc_world s1)\<rparr>\<rparr>)"
proof -
  let ?w = "nc_world s" let ?q = "ch_mJobQueue ?w"
  have inv: "chat_inv Map.empty anything (pp_refs (nc_recv s)) (length (nc_mSessionPool s)) ?w" by (rule readyD(3) [OF r])
  then have qi: "queue_inv ?q" by (simp add: chat_inv_def jobs_inv_def)
  obtain d as where rep: "queue_rep ?q d as" using qi by (auto simp: queue_inv_def)
  have used: "Queue_IsEmpty ?q \<longleftrightarrow> queue_list ?q = []"
    using queue_list_eq [OF rep] rep by (simp add: Queue_IsEmpty_def queue_rep_def)
  then show "Queue_IsEmpty ?q" if "queue_list ?q = []" using that by simp
  assume l: "queue_list ?q = j # js"
  obtain q' where q': "Queue_TryDequeue ?q = Inr (q', Some j)" "queue_inv q'" "queue_list q' = js"
    using Queue_TryDequeue_law(2) [OF qi l] by blast
  have dom: "dom (ch_jobs ?w) = set (j # js)" "distinct (j # js)"
    using inv l by (auto simp: chat_inv_def jobs_inv_def)
  then obtain job where job: "ch_jobs ?w j = Some job" by auto
  let ?w1 = "?w\<lparr>ch_mJobQueue := q'\<rparr>" let ?s1 = "s\<lparr>nc_world := ?w1\<rparr>"
  have "jobs_inv [j \<mapsto> job] (pp_refs (nc_recv s)) (length (nc_mSessionPool s)) ?w1"
    using inv dom q'(2,3) job unfolding chat_inv_def jobs_inv_def by (auto simp: map_le_def)
  then have "chat_inv [j \<mapsto> job] anything (pp_refs (nc_recv s)) (length (nc_mSessionPool s)) ?w1"
    using inv by (simp add: chat_inv_def)
  from ready_world [OF r, where I' = "chat_inv [j \<mapsto> job] anything", OF this] have k: "kept [j \<mapsto> job] ?s1" .
  have t: "take_job s = Inr (?s1, Some (j, job))" using q'(1) job by (simp add: take_job_def)
  have bytes: "job_bytes job ?s1 = job_bytes job s" by (cases "jb_RecvPacket job") (simp_all add: job_bytes_def)
  then show "\<not> Queue_IsEmpty ?q \<and>
      (\<exists>s1 job. take_job s = Inr (s1, Some (j, job)) \<and> ch_jobs ?w j = Some job \<and> kept [j \<mapsto> job] s1 \<and>
        queue_list (ch_mJobQueue (nc_world s1)) = js \<and> job_bytes job s1 = job_bytes job s \<and>
        s1 = s\<lparr>nc_world := ?w\<lparr>ch_mJobQueue := ch_mJobQueue (nc_world s1)\<rparr>\<rparr>)"
    using used l k job q'(3) t bytes by (intro conjI exI [of _ ?s1] exI [of _ job]) simp_all
qed

lemma finish_job_ok:
  assumes r: "kept [j \<mapsto> job] s"
  shows "\<exists>s'. finish_job j job s = Inr s' \<and> kept Map.empty s' \<and> ch_mJobQueue (nc_world s') = ch_mJobQueue (nc_world s) \<and>
    ch_mUserManager (nc_world s') = ch_mUserManager (nc_world s) \<and> ch_jobs (nc_world s') = (ch_jobs (nc_world s))(j := None) \<and>
    pp_refs (nc_recv s') = (\<lambda>a. pp_refs (nc_recv s) a - (if jb_RecvPacket job = Some a then 1 else 0))"
proof -
  let ?w = "nc_world s" let ?n = "length (nc_mSessionPool s)"
  have inv: "chat_inv [j \<mapsto> job] anything (pp_refs (nc_recv s)) ?n ?w" by (rule readyD(3) [OF r])
  then have ji: "jobs_inv [j \<mapsto> job] (pp_refs (nc_recv s)) ?n ?w" by (simp add: chat_inv_def)
  have job: "ch_jobs ?w j = Some job" using ji by (simp add: jobs_inv_def map_le_def)
  obtain s1 where s1: "free_recv (jb_RecvPacket job) s = Inr (s1, ())" "pp_inv (nc_recv s1)"
    "pp_refs (nc_recv s1) = (\<lambda>a. pp_refs (nc_recv s) a - (if jb_RecvPacket job = Some a then 1 else 0))"
    "s1 = s\<lparr>nc_recv := nc_recv s1\<rparr>"
  proof (cases "jb_RecvPacket job")
    case None
    then show ?thesis using that [of s] readyD(2) [OF r] by (simp add: free_recv_def)
  next
    case (Some a)
    obtain p where p: "pp_objs (nc_recv s) a = Some p" by (rule job_packet [OF r _ Some, of j]) simp
    then have "0 < pp_refs (nc_recv s) a" using pp_refs_pos [OF readyD(2) [OF r]] by blast
    then obtain pool ok where f: "TryFreePacket (nc_recv s) a = Inr (pool, ok)" "pp_inv pool"
      "pp_refs pool = (pp_refs (nc_recv s))(a := pp_refs (nc_recv s) a - 1)"
      using TryFreePacket_ok [OF readyD(2) [OF r]] by metis
    show ?thesis using that [of "s\<lparr>nc_recv := pool\<rparr>"] f Some by (auto simp: free_recv_def fun_eq_iff)
  qed
  have w1: "nc_world s1 = ?w" "nc_mSessionPool s1 = nc_mSessionPool s" by (subst s1(4), simp)+
  have live: "j \<in> lf_live (ch_mJobPool ?w)" "lf_inv CallConstructorDestructor (ch_mJobPool ?w)" using ji job by (auto simp: jobs_inv_def)
  then obtain pool where pool: "LockFree_Return CallConstructorDestructor (ch_mJobPool ?w) (Some j) = Inr (pool, True)"
    "lf_inv CallConstructorDestructor pool" "lf_live pool = lf_live (ch_mJobPool ?w) - {j}"
    using LockFree_Return_law by blast
  let ?w2 = "?w\<lparr>ch_mJobPool := pool, ch_jobs := (ch_jobs ?w)(j := None)\<rparr>"
  have "jobs_inv Map.empty (pp_refs (nc_recv s1)) ?n ?w2"
    using ji pool job job_refs_remove [OF jobs_inv_finite [OF ji] job] s1(3) unfolding jobs_inv_def by (auto split: if_splits)
  then have c: "chat_inv Map.empty anything (pp_refs (nc_recv s1)) ?n ?w2" using inv by (simp add: chat_inv_def)
  let ?s2 = "s1\<lparr>nc_world := ?w2\<rparr>"
  have "kept Map.empty ?s2"
    by (rule ready_update [OF r]; (subst s1(4))?; use c s1(2,3) readyD(1) [OF r] in simp)
  moreover have "finish_job j job s = Inr ?s2" using s1(1) pool(1) w1 by (simp add: finish_job_def)
  ultimately show ?thesis using s1(3) w1 by (intro exI [of _ ?s2]) simp
qed

end
