(* ===== verification/Chat_Server.thy ===== *)
theory Chat_Server
  imports Chat_Jobs
begin

text \<open>
  The whole chat server: the construction of the event handler, the rounds of the job thread, \<^verbatim>\<open>OnQuit\<close>, and the
  histories that interleave events of the core, the heartbeat thread and jobs. Then what happens with packets that are
  not well behaved.
\<close>

subsection \<open>Construction\<close>

lemma pos_map_empty: "um_users U = Map.empty \<Longrightarrow> pos_map U = Map.empty"
  by (simp add: pos_map_def fun_eq_iff)

lemma chat_Create_ok:
  "\<exists>w. chat_Create g = Inr w \<and> chat_inv Map.empty anything (\<lambda>_. 0) n w \<and> queue_list (ch_mJobQueue w) = [] \<and>
     ch_users w = Map.empty \<and> \<not> ch_mIsQuit w"
proof -
  obtain q :: "nat LockFreeQueue" where q: "Queue_Create 0 g 1000 = Inr q" "queue_inv q" "queue_list q = []"
    using Queue_Create_ok [of 0 g 1000] by blast
  note pool = op_inv_Create [of CallConstructorDestructor 1024] and jobs = lf_inv_Create [of CallConstructorDestructor g]
  have grid: "grid_inv 50 50 (replicate (50 * 50) []) Map.empty" by (simp add: grid_inv_def)
  show ?thesis
    using q(2,3) pool jobs grid
    by (auto simp: chat_Create_def q(1) chat_inv_def jobs_inv_def um_inv_def cs_grid_def job_refs_def pos_map_empty)
qed

subsection \<open>Rounds of the job thread\<close>

text \<open>The job that comes next is well behaved.\<close>

definition next_well_behaved :: "chat core \<Rightarrow> bool" where
  "next_well_behaved s \<longleftrightarrow>
     (case queue_list (ch_mJobQueue (nc_world s)) of
        [] \<Rightarrow> True
      | j # _ \<Rightarrow> (case ch_jobs (nc_world s) j of None \<Rightarrow> True | Some job \<Rightarrow> well_behaved job (job_bytes job s)))"

lemma kept_mJobTPS: "kept C s \<Longrightarrow> kept C (s\<lparr>nc_world := (nc_world s)\<lparr>ch_mJobTPS := x\<rparr>\<rparr>)"
  using readyD(3) [of "chat_inv C anything" "\<lambda>_. 0" s] by (intro ready_world [where I = "chat_inv C anything"]) (simp_all add: chat_inv_def jobs_inv_def)

lemma kept_mIsQuit: "kept C s \<Longrightarrow> kept C (s\<lparr>nc_world := (nc_world s)\<lparr>ch_mIsQuit := x\<rparr>\<rparr>)"
  using readyD(3) [of "chat_inv C anything" "\<lambda>_. 0" s] by (intro ready_world [where I = "chat_inv C anything"]) (simp_all add: chat_inv_def jobs_inv_def)

text \<open>A job is handled; when it threw, its session is disconnected.\<close>

lemma handled_or_disconnected:
  assumes r: "kept C s" and j: "C j = Some job" and e: "env_good e" and wb: "well_behaved job (job_bytes job s)"
  shows "rok (kept C)
    (rbind
      (case HandleJob e job s of
         (Inl (Faulted f), s) \<Rightarrow> Inl f | (Inl _, s) \<Rightarrow> Inr (s, False) | (Inr isHandled, s) \<Rightarrow> Inr (s, isHandled)) (\<lambda>(s, isHandled).
     rbind (if \<not> isHandled then Disconnect chat_events (jb_SessionID job) s else Inr (s, True)) (\<lambda>(s, _). Inr s)))"
proof -
  obtain x s1 where h: "HandleJob e job s = (x, s1)" by (cases "HandleJob e job s")
  have ok: "aok (\<lambda>_. kept C) (kept C) (x, s1)" using HandleJob_keeps [OF r j e wb] h by simp
  have disc: "rok (kept C) (rbind (Disconnect chat_events (jb_SessionID job) s1) (\<lambda>(s, _). Inr s))"
    if k: "kept C s1" and ty: "jb_JobType job \<noteq> SystemHeartBeat"
  proof -
    have "unat (SessionIndex (jb_SessionID job)) < length (nc_mSessionPool s1)" using taken_job [OF k j] ty by (simp add: job_ok_def)
    from ready_Disconnect [OF chat_app_ok k this] show ?thesis by (rule rok_bind) auto
  qed
  have ty: "jb_JobType job \<noteq> SystemHeartBeat" if "x \<noteq> Inr True" using HandleJob_heartbeat [OF r, of job e] h that by auto
  show ?thesis
  proof (cases x)
    case (Inl ex)
    then show ?thesis using ok disc ty h by (cases ex) auto
  next
    case (Inr b)
    then show ?thesis using ok disc ty h by (cases b) auto
  qed
qed

lemma ThreadProcessJob_step_ok:
  assumes r: "kept Map.empty s" and e: "env_good e" and wb: "next_well_behaved s"
  shows "rok (\<lambda>(s', more). kept Map.empty s' \<and> (more \<longleftrightarrow> queue_list (ch_mJobQueue (nc_world s)) \<noteq> [])) (ThreadProcessJob_step e s)"
proof (cases "queue_list (ch_mJobQueue (nc_world s))")
  case Nil
  then show ?thesis using take_job_ok(1) [OF r] r by (simp add: ThreadProcessJob_step_def)
next
  case (Cons j js)
  obtain s1 job where t: "\<not> Queue_IsEmpty (ch_mJobQueue (nc_world s))" "take_job s = Inr (s1, Some (j, job))"
    "ch_jobs (nc_world s) j = Some job" "kept [j \<mapsto> job] s1" "job_bytes job s1 = job_bytes job s"
    using take_job_ok(2) [OF r Cons] by blast
  have "well_behaved job (job_bytes job s1)" using wb Cons t(3,5) by (simp add: next_well_behaved_def)
  note k = handled_or_disconnected [OF t(4) _ e this]
  let ?h = "case HandleJob e job s1 of
         (Inl (Faulted f), s) \<Rightarrow> Inl f | (Inl _, s) \<Rightarrow> Inr (s, False) | (Inr isHandled, s) \<Rightarrow> Inr (s, isHandled)"
  have "ThreadProcessJob_step e s =
      rbind (rbind ?h (\<lambda>(s, isHandled). rbind (if \<not> isHandled then Disconnect chat_events (jb_SessionID job) s else Inr (s, True)) (\<lambda>(s, _). Inr s)))
       (\<lambda>s. rbind (finish_job j job s) (\<lambda>s. Inr (s\<lparr>nc_world := (nc_world s)\<lparr>ch_mJobTPS := ch_mJobTPS (nc_world s) + 1\<rparr>\<rparr>, True)))"
    using t(1,2) by (cases "HandleJob e job s1")
      (auto simp: ThreadProcessJob_step_def rbind_assoc case_prod_unfold split: sum.split handler_exit.split)
  moreover have "rok (\<lambda>(s', more). kept Map.empty s' \<and> (more \<longleftrightarrow> queue_list (ch_mJobQueue (nc_world s)) \<noteq> [])) \<dots>"
  proof (rule rok_bind [OF k [of j]], simp)
    fix s2 assume "kept [j \<mapsto> job] s2"
    from finish_job_ok [OF this] obtain s3 where s3: "finish_job j job s2 = Inr s3" "kept Map.empty s3" by blast
    show "rok (\<lambda>(s', more). kept Map.empty s' \<and> (more \<longleftrightarrow> queue_list (ch_mJobQueue (nc_world s)) \<noteq> []))
        (rbind (finish_job j job s2) (\<lambda>s. Inr (s\<lparr>nc_world := (nc_world s)\<lparr>ch_mJobTPS := ch_mJobTPS (nc_world s) + 1\<rparr>\<rparr>, True)))"
      using s3 Cons kept_mJobTPS [OF s3(2)] by simp
  qed
  ultimately show ?thesis by simp
qed

subsection \<open>OnQuit\<close>

text \<open>The sessions whose end is still in the queue, and the users that are left when their jobs are done.\<close>

definition ended_sessions :: "chat \<Rightarrow> u64 set" where
  "ended_sessions w =
     {jb_SessionID job |job. \<exists>j \<in> set (queue_list (ch_mJobQueue w)). ch_jobs w j = Some job \<and> jb_JobType job = SystemDisconnectUser}"

definition users_without :: "u64 set \<Rightarrow> (nat \<rightharpoonup> ChatUser) \<Rightarrow> (nat \<rightharpoonup> ChatUser)" where
  "users_without sids us u = (case us u of None \<Rightarrow> None | Some c \<Rightarrow> if cu_mSessionID c \<in> sids then None else Some c)"

lemma users_without_simps [simp]:
  "users_without {} us = us" "users_without A (users_without B us) = users_without (A \<union> B) us"
  by (auto simp: users_without_def fun_eq_iff split: option.split)

lemma users_without_one:
  assumes "\<And>a. m = Some a \<longleftrightarrow> (\<exists>c. us a = Some c \<and> cu_mSessionID c = sid)"
  shows "users_without {sid} us = (case m of None \<Rightarrow> us | Some u \<Rightarrow> us(u := None))"
proof
  fix a
  show "users_without {sid} us a = (case m of None \<Rightarrow> us | Some u \<Rightarrow> us(u := None)) a"
    using assms [of a] by (cases "us a"; cases m) (auto simp: users_without_def)
qed

text \<open>What the rest of \<^verbatim>\<open>OnQuit\<close> does with a job that was taken: only the end of a session is still handled.\<close>

lemma quit_job:
  assumes r: "kept C s" and job: "C j = Some job"
  shows "\<exists>w. (if jb_JobType job = SystemDisconnectUser
         then case JobSystemDisconnectUser job s of (Inl (Faulted f), s) \<Rightarrow> Inl f | (Inl _, s) \<Rightarrow> Inl LogicError | (Inr _, s) \<Rightarrow> Inr s
         else Inr s) = Inr (s\<lparr>nc_world := w\<rparr>) \<and> kept C (s\<lparr>nc_world := w\<rparr>) \<and>
      ch_users w = users_without (if jb_JobType job = SystemDisconnectUser then {jb_SessionID job} else {}) (ch_users (nc_world s)) \<and>
      ch_mJobQueue w = ch_mJobQueue (nc_world s) \<and> ch_jobs w = ch_jobs (nc_world s)"
proof (cases "jb_JobType job = SystemDisconnectUser")
  case False
  then show ?thesis using r by (intro exI [of _ "nc_world s"]) simp
next
  case True
  let ?U = "ch_mUserManager (nc_world s)"
  note maps = um_inv_maps [OF ready_users [OF r]]
  show ?thesis
  proof (cases "um_mSessionUserMap ?U (jb_SessionID job)")
    case None
    then have "users_without {jb_SessionID job} (ch_users (nc_world s)) = ch_users (nc_world s)"
      using users_without_one [OF maps(1), of "jb_SessionID job"] by simp
    then show ?thesis using DisconnectUser_eq(1) [OF r None] r True by (intro exI [of _ "nc_world s"]) simp
  next
    case (Some u)
    from DisconnectUser_eq(2) [OF r Some] obtain w where w: "JobSystemDisconnectUser job s = (Inr (), s\<lparr>nc_world := w\<rparr>)"
      "kept C (s\<lparr>nc_world := w\<rparr>)" "ch_users w = (ch_users (nc_world s))(u := None)"
      "w = (nc_world s)\<lparr>ch_mUserManager := ch_mUserManager w, ch_mSectorManager := ch_mSectorManager w\<rparr>" by blast
    have "users_without {jb_SessionID job} (ch_users (nc_world s)) = (ch_users (nc_world s))(u := None)"
      using users_without_one [OF maps(1), of "jb_SessionID job"] Some by simp
    moreover have "ch_mJobQueue w = ch_mJobQueue (nc_world s)" "ch_jobs w = ch_jobs (nc_world s)" by (subst w(4), simp)+
    ultimately show ?thesis using w(1-3) True by (intro exI [of _ w]) simp
  qed
qed

lemma quit_loop_ok:
  assumes "kept Map.empty s" "length (queue_list (ch_mJobQueue (nc_world s))) \<le> fuel"
  shows "\<exists>s'. quit_loop fuel s = Inr s' \<and> kept Map.empty s' \<and> queue_list (ch_mJobQueue (nc_world s')) = [] \<and>
    ch_users (nc_world s') = users_without (ended_sessions (nc_world s)) (ch_users (nc_world s))"
  using assms
proof (induction fuel arbitrary: s)
  case 0
  then have "queue_list (ch_mJobQueue (nc_world s)) = []" by simp
  then show ?case using take_job_ok(1) [OF 0(1)] 0(1) by (simp add: ended_sessions_def)
next
  case (Suc fuel)
  show ?case
  proof (cases "queue_list (ch_mJobQueue (nc_world s))")
    case Nil
    then show ?thesis using take_job_ok(1) [OF Suc.prems(1)] Suc.prems(1) by (simp add: ended_sessions_def)
  next
    case (Cons j js)
    obtain s1 job where t: "\<not> Queue_IsEmpty (ch_mJobQueue (nc_world s))" "take_job s = Inr (s1, Some (j, job))"
      "ch_jobs (nc_world s) j = Some job" "kept [j \<mapsto> job] s1" "queue_list (ch_mJobQueue (nc_world s1)) = js"
      "s1 = s\<lparr>nc_world := (nc_world s)\<lparr>ch_mJobQueue := ch_mJobQueue (nc_world s1)\<rparr>\<rparr>"
      using take_job_ok(2) [OF Suc.prems(1) Cons] by blast
    have s1: "ch_users (nc_world s1) = ch_users (nc_world s)" "ch_jobs (nc_world s1) = ch_jobs (nc_world s)" by (subst t(6), simp)+
    have "[j \<mapsto> job] j = Some job" by simp
    from quit_job [OF t(4) this] obtain w where w: "(if jb_JobType job = SystemDisconnectUser
         then case JobSystemDisconnectUser job s1 of (Inl (Faulted f), s) \<Rightarrow> Inl f | (Inl _, s) \<Rightarrow> Inl LogicError | (Inr _, s) \<Rightarrow> Inr s
         else Inr s1) = Inr (s1\<lparr>nc_world := w\<rparr>)" "kept [j \<mapsto> job] (s1\<lparr>nc_world := w\<rparr>)"
      "ch_users w = users_without (if jb_JobType job = SystemDisconnectUser then {jb_SessionID job} else {}) (ch_users (nc_world s1))"
      "ch_mJobQueue w = ch_mJobQueue (nc_world s1)" "ch_jobs w = ch_jobs (nc_world s1)" by blast
    from finish_job_ok [OF w(2)] obtain s3 where s3: "finish_job j job (s1\<lparr>nc_world := w\<rparr>) = Inr s3" "kept Map.empty s3"
      "ch_mJobQueue (nc_world s3) = ch_mJobQueue w" "ch_mUserManager (nc_world s3) = ch_mUserManager w"
      "ch_jobs (nc_world s3) = (ch_jobs w)(j := None)" by auto
    have js: "queue_list (ch_mJobQueue (nc_world s3)) = js" using s3(3) w(4) t(5) by simp
    have "length (queue_list (ch_mJobQueue (nc_world s3))) \<le> fuel" using Suc.prems(2) Cons js by simp
    from Suc.IH [OF s3(2) this] obtain s4 where s4: "quit_loop fuel s3 = Inr s4" "kept Map.empty s4"
      "queue_list (ch_mJobQueue (nc_world s4)) = []"
      "ch_users (nc_world s4) = users_without (ended_sessions (nc_world s3)) (ch_users (nc_world s3))" by blast
    have d: "j \<notin> set js" using readyD(3) [OF Suc.prems(1)] Cons by (simp add: chat_inv_def jobs_inv_def)
    have "ended_sessions (nc_world s) = ended_sessions (nc_world s3) \<union> (if jb_JobType job = SystemDisconnectUser then {jb_SessionID job} else {})"
      using Cons js d t(3) s3(5) w(5) s1(2) by (auto simp: ended_sessions_def)
    then have "ch_users (nc_world s4) = users_without (ended_sessions (nc_world s)) (ch_users (nc_world s))"
      using s4(4) s3(4) w(3) s1(1) by simp
    moreover have "quit_loop (Suc fuel) s = Inr s4" using t(1,2) w(1) s3(1) s4(1) by simp
    ultimately show ?thesis using s4(2,3) by blast
  qed
qed

lemma no_jobs:
  assumes "kept Map.empty s" "queue_list (ch_mJobQueue (nc_world s)) = []"
  shows "ch_jobs (nc_world s) = Map.empty" "pp_refs (nc_recv s) = (\<lambda>_. 0)"
  using readyD(3) [OF assms(1)] assms(2) by (auto simp: chat_inv_def jobs_inv_def job_refs_def fun_eq_iff)

lemma OnQuit_ok:
  assumes r: "kept Map.empty s" and fuel: "length (queue_list (ch_mJobQueue (nc_world s))) \<le> fuel"
  shows "\<exists>s'. OnQuit fuel s = Inr s' \<and> kept Map.empty s' \<and> ch_jobs (nc_world s') = Map.empty \<and> pp_refs (nc_recv s') = (\<lambda>_. 0) \<and>
    ch_users (nc_world s') = users_without (ended_sessions (nc_world s)) (ch_users (nc_world s))"
proof -
  let ?s = "s\<lparr>nc_world := (nc_world s)\<lparr>ch_mIsQuit := True\<rparr>\<rparr>"
  have "ended_sessions (nc_world ?s) = ended_sessions (nc_world s)" by (simp add: ended_sessions_def)
  then show ?thesis
    using quit_loop_ok [OF kept_mIsQuit [OF r], of True fuel] fuel no_jobs by (fastforce simp: OnQuit_def)
qed

subsection \<open>Histories of the server\<close>

text \<open>
  What happens to a running chat server: an event of the core, with the thread and the memory for new packets; a round of the
  heartbeat thread; a round of the job thread. The answers of the system and the memory are as a real machine gives them,
  and the jobs are well behaved.
\<close>

datatype chat_op = ChatCore core_op nat "nat \<Rightarrow> byte list" | ChatHeartbeat | ChatJob job_env

fun chat_step :: "chat_op \<Rightarrow> chat core \<Rightarrow> chat core res" where
  "chat_step (ChatCore op t mem) s = core_step chat_events t mem op s"
| "chat_step ChatHeartbeat s = ThreadHeatbeatThread_step s"
| "chat_step (ChatJob e) s = rbind (ThreadProcessJob_step e s) (\<lambda>(s, _). Inr s)"

fun chat_enabled :: "chat_op \<Rightarrow> chat core \<Rightarrow> bool" where
  "chat_enabled (ChatCore op t mem) s \<longleftrightarrow> core_enabled op s \<and> mem_ok mem"
| "chat_enabled ChatHeartbeat s \<longleftrightarrow> True"
| "chat_enabled (ChatJob e) s \<longleftrightarrow> env_good e \<and> next_well_behaved s"

inductive chat_reaches :: "chat core \<Rightarrow> chat core \<Rightarrow> bool" for s0 where
  start: "chat_reaches s0 s0"
| step: "chat_reaches s0 s \<Longrightarrow> chat_enabled op s \<Longrightarrow> chat_step op s = Inr s' \<Longrightarrow> chat_reaches s0 s'"

text \<open>A chat server that was started with any option for at most 65536 sessions, and has run for a while.\<close>

definition chat_running :: "chat core \<Rightarrow> bool" where
  "chat_running s \<longleftrightarrow>
     (\<exists>replies garbage uid option uid' send recv g w s0 threads.
        Start True replies garbage uid option (core_create uid' send recv w) = Inr (s0, None, threads) \<and>
        unat (so_MaxSessionCount option) \<le> 65536 \<and> pp_inv send \<and> pp_inv recv \<and> pp_refs recv = (\<lambda>_. 0) \<and>
        chat_Create g = Inr w \<and> chat_reaches s0 s)"

lemma kept_app_inv: "kept C s \<longleftrightarrow> app_inv (chat_inv C anything) s"
  by (simp add: ready_def)

lemma heartbeat_step_ok:
  assumes "kept Map.empty s"
  shows "\<exists>s'. ThreadHeatbeatThread_step s = Inr s' \<and> kept Map.empty s'"
proof -
  have "job_ok (length (nc_mSessionPool s)) \<lparr>jb_JobType = SystemHeartBeat, jb_SessionID = 0, jb_RecvPacket = None\<rparr>"
    by (simp add: job_ok_def)
  from enqueue_job_inv [OF readyD(3) [OF assms] this] obtain w where
    "enqueue_job SystemHeartBeat 0 None (nc_world s) = Inr w" "chat_inv Map.empty anything (pp_refs (nc_recv s)) (length (nc_mSessionPool s)) w"
    by auto
  then show ?thesis
    using ready_world [OF assms, where I' = "chat_inv Map.empty anything"] by (simp add: ThreadHeatbeatThread_step_def)
qed

lemma chat_step_ok:
  assumes "kept Map.empty s" "chat_enabled op s"
  shows "rok (kept Map.empty) (chat_step op s)"
proof (cases op)
  case (ChatCore op t mem)
  then show ?thesis
    using core_step_ok [OF chat_app_ok, of mem Map.empty anything s op t] assms by (simp add: kept_app_inv)
next
  case ChatHeartbeat
  then show ?thesis using heartbeat_step_ok [OF assms(1)] by auto
next
  case (ChatJob e)
  then have "env_good e" "next_well_behaved s" using assms(2) by simp_all
  note k = ThreadProcessJob_step_ok [OF assms(1) this]
  show ?thesis unfolding ChatJob chat_step.simps by (rule rok_bind [OF k]) auto
qed

lemma chat_running_kept: "chat_running s \<Longrightarrow> kept Map.empty s"
proof -
  assume "chat_running s"
  then obtain replies garbage uid option uid' send recv g w s0 threads where
    st: "Start True replies garbage uid option (core_create uid' send recv w) = Inr (s0, None, threads)"
      "unat (so_MaxSessionCount option) \<le> 65536" "pp_inv send" "pp_inv recv" "pp_refs recv = (\<lambda>_. 0)" "chat_Create g = Inr w"
    and re: "chat_reaches s0 s"
    unfolding chat_running_def by blast
  have "chat_inv Map.empty anything (pp_refs recv) (unat (so_MaxSessionCount option)) w"
    using chat_Create_ok [of g "unat (so_MaxSessionCount option)"] st(5,6) by simp
  from Start_inv [where I = "chat_inv Map.empty anything", OF st(1-4) this] have s0: "kept Map.empty s0" by (simp add: kept_app_inv)
  from re show ?thesis
  proof (induction rule: chat_reaches.induct)
    case start
    then show ?case by (rule s0)
  next
    case (step s op s')
    then show ?case using chat_step_ok [OF step.IH step.hyps(2)] by simp
  qed
qed

lemma chat_running_step: "chat_running s \<Longrightarrow> chat_enabled op s \<Longrightarrow> chat_step op s = Inr s' \<Longrightarrow> chat_running s'"
  unfolding chat_running_def using chat_reaches.step by blast

subsection \<open>Packets that are not well behaved\<close>

text \<open>A sector that no list belongs to.\<close>

lemma TryMove_off_grid:
  assumes g: "cs_grid (ch_mSectorManager w) (pos_map (ch_mUserManager w))" and u: "ch_users w u = Some c"
    and wh: "cs_mWidth (ch_mSectorManager w) = 50" "cs_mHeight (ch_mSectorManager w) = 50" and k: "2500 \<le> 50 * Y + X"
  shows "TryMove u (mk_int2 (int X) (int Y)) w = Inl MemFault"
proof -
  let ?p = "mk_int2 (int X) (int Y)"
  have off: "InsertSectorUser u ?p v = Inl MemFault"
    if "cs_grid (ch_mSectorManager v) m" "cs_mWidth (ch_mSectorManager v) = 50" "cs_mHeight (ch_mSectorManager v) = 50" for v m
  proof -
    have "\<not> nat (int Y * 50 + int X) < 2500" using k by arith
    then show ?thesis using that by (simp add: InsertSectorUser_def chat_sector_def sector_at_def cs_grid_def grid_inv_def Let_def)
  qed
  have "\<not> in_grid 50 50 ?p" using k by (auto simp: in_grid_def)
  moreover have "in_grid 50 50 (cu_mCurSectorPos c)" if "cu_mCurSectorPos c \<noteq> mInvalidSectorPos"
  proof -
    have "pos_map (ch_mUserManager w) u = Some (cu_mCurSectorPos c)" using u that by (simp add: pos_map_def)
    then show ?thesis using g wh unfolding cs_grid_def grid_inv_def by auto
  qed
  moreover have "?p \<noteq> mInvalidSectorPos" by (simp add: mInvalidSectorPos_def)
  ultimately have ne: "cu_mCurSectorPos c \<noteq> ?p" by auto
  obtain v where v: "RemoveSectorUser u w = Inr v" "cs_grid (ch_mSectorManager v) ((pos_map (ch_mUserManager w))(u := None))"
    "cs_mWidth (ch_mSectorManager v) = 50" "cs_mHeight (ch_mSectorManager v) = 50"
    using RemoveSectorUser_any [OF g u] wh by metis
  show ?thesis using off [OF v(2-4)] off [OF g wh] u ne v(1) by (simp add: TryMove_def the_user_def)
qed

lemma move_off_grid:
  assumes r: "kept C s" and j: "C j = Some job" "jb_RecvPacket job = Some a" and e: "env_good e"
    and bs: "job_bytes job s = bs" and len: "14 \<le> length bs"
    and u: "um_mSessionUserMap (ch_mUserManager (nc_world s)) (jb_SessionID job) = Some u"
      "um_mAccountUserMap (ch_mUserManager (nc_world s)) (field 2 8 bs) = Some u"
    and k: "2500 \<le> 50 * field 12 2 bs + field 10 2 bs"
  shows "\<exists>s'. JobUserSectorMove e job s = (Inl (Faulted MemFault), s')"
proof -
  let ?w = "nc_world s" let ?X = "field 10 2 bs" let ?Y = "field 12 2 bs"
  obtain s1 where s1: "reading (chat_inv C (exactly ?w)) (\<lambda>_. 0) a (drop 14 bs) ?w s1"
    "JobUserSectorMove e job s = move_rest e job (field 2 8 bs) ?X ?Y s1"
    using move_read(2) [OF r j bs len] by blast
  have r1: "ready (chat_inv C (exactly ?w)) (\<lambda>_. 0) s1" "nc_world s1 = ?w" using readingD [OF s1(1)] by simp_all
  obtain c where c: "ch_users ?w u = Some c" "cu_AccountNo c = field 2 8 bs"
    using um_inv_maps(2) [OF ready_users [OF r]] u(2) by blast
  have f: "FindUserOrNull (jb_SessionID job) (ch_mUserManager ?w) = Some u" using u(1) by (simp add: FindUserOrNull_def)
  have mem: "mem_ok (je_mem e)" using e by (simp add: env_good_def)
  obtain s2 b bs' where s2: "writing (chat_inv C (exactly ?w)) ((\<lambda>_. 0)(b := (0 :: int) + 1)) b bs' ?w s2"
    "move_rest e job (field 2 8 bs) ?X ?Y s1 = act_bind (act (on_world (TryMove u (mk_int2 (int ?X) (int ?Y))))) (\<lambda>_.
       act_bind (act_net (je_Send e (jb_SessionID job) b)) (\<lambda>_. act (free_send b))) s2"
    using move_reply [OF r1(1,2) mem f c] by blast
  have "nc_world s2 = ?w" using writingD [OF s2(1)] by simp
  then have "on_world (TryMove u (mk_int2 (int ?X) (int ?Y))) s2 = Inl MemFault"
    using TryMove_off_grid [OF ready_grid(1) [OF r] c(1) ready_grid(2,3) [OF r] k] by (simp add: on_world_def)
  then show ?thesis unfolding s1(2) s2(2) by (simp add: act_bind_def act_def)
qed

lemma login_unterminated:
  assumes r: "kept C s" and j: "C j = Some job" "jb_RecvPacket job = Some a" and e: "env_good e"
    and bs: "job_bytes job s = bs" and len: "154 \<le> length bs"
    and free: "\<not> is_taken (jb_SessionID job) (field 2 8 bs) (ch_mUserManager (nc_world s))"
    and t: "\<not> terminated (wchars (take 40 (drop 10 bs)))"
  shows "\<exists>s'. JobUserLogin e job s = (Inl (Faulted InvalidParameter), s')"
proof -
  let ?w = "nc_world s" let ?q = "login_of bs"
  obtain s1 where s1: "reading (chat_inv C (exactly ?w)) (\<lambda>_. 0) a (drop 154 bs) ?w s1"
    "JobUserLogin e job s = login_rest e job ?q s1"
    using login_read(2) [OF r j bs len] by blast
  have w1: "nc_world s1 = ?w" using readingD [OF s1(1)] by simp
  have q: "lq_AccountNo ?q = field 2 8 bs" "lq_ID ?q = wchars (take 40 (drop 10 bs))" "names_ok ?q"
    using login_of_ok len by (simp_all add: login_of_def)
  have um: "user_mem_ok (je_user e)" using e by (simp add: env_good_def)
  have "AddUser (je_user e) (jb_SessionID job) ?q (ch_mUserManager ?w) = Inl InvalidParameter"
    by (rule AddUser_unterminated [OF ready_users [OF r] um q(3)]) (use free t q(1,2) in \<open>simp_all add: is_taken_def\<close>)
  then show ?thesis unfolding s1(2) login_rest_def by (simp add: act_bind_def act_def on_world_def w1)
qed

lemma job_faults:
  assumes "kept Map.empty s" "queue_list (ch_mJobQueue (nc_world s)) = j # js" "ch_jobs (nc_world s) j = Some job"
    and "\<And>s1. kept [j \<mapsto> job] s1 \<Longrightarrow> job_bytes job s1 = job_bytes job s \<Longrightarrow> ch_mUserManager (nc_world s1) = ch_mUserManager (nc_world s) \<Longrightarrow>
      \<exists>s2. HandleJob e job s1 = (Inl (Faulted f), s2)"
  shows "ThreadProcessJob_step e s = Inl f"
proof -
  obtain s1 where t: "\<not> Queue_IsEmpty (ch_mJobQueue (nc_world s))" "take_job s = Inr (s1, Some (j, job))"
    "kept [j \<mapsto> job] s1" "job_bytes job s1 = job_bytes job s"
    "s1 = s\<lparr>nc_world := (nc_world s)\<lparr>ch_mJobQueue := ch_mJobQueue (nc_world s1)\<rparr>\<rparr>"
    using take_job_ok(2) [OF assms(1,2)] assms(3) by auto
  have "ch_mUserManager (nc_world s1) = ch_mUserManager (nc_world s)" by (subst t(5)) simp
  then obtain s2 where "HandleJob e job s1 = (Inl (Faulted f), s2)" using assms(4) [OF t(3,4)] by blast
  then show ?thesis using t(1,2) by (simp add: ThreadProcessJob_step_def)
qed

end
