(* ===== verification/Chat_Properties.thy ===== *)
theory Chat_Properties
  imports Chat_Server
begin

text \<open>
  What the chat server does, as properties of its steps and jobs, with the states they are shown at: a server that was just
  started, and a server with one job in its queue.
\<close>

subsection \<open>Concrete states\<close>

definition chat_demo_env :: job_env where
  "chat_demo_env = \<lparr>je_t = 0, je_mem = (\<lambda>_. replicate 4101 0), je_user = (\<lambda>_. (replicate 20 0, replicate 20 0, replicate 64 0)),
     je_rnd = 0, je_reply = (\<lambda>_. WSA_Done), je_order = []\<rparr>"

lemma chat_demo_env_good: "env_good chat_demo_env"
  by (simp add: env_good_def chat_demo_env_def mem_ok_def user_mem_ok_def NetHeaderSize_def NET_PACKET_BODY_CAPACITY_def)

lemma chat_demo_started: "\<exists>s. chat_running s \<and> length (nc_mSessionPool s) = 150"
proof -
  obtain w where w: "chat_Create 0 = Inr w" "chat_inv Map.empty anything (\<lambda>_. 0) 150 w" using chat_Create_ok by blast
  have refs: "pp_refs (PacketPool_Init 0) = (\<lambda>_. 0)" by (simp add: pp_refs_def PacketPool_Init_def fun_eq_iff)
  have inv: "chat_inv Map.empty anything (pp_refs (PacketPool_Init 0)) (unat (so_MaxSessionCount default_option)) w"
    using w(2) by (simp add: demo_option_ok refs)
  obtain s y where s: "Start True demo_replies 0 0 default_option (core_create 0 (PacketPool_Init 0) (PacketPool_Init 0) w) = Inr (s, y)"
    "length (nc_mSessionPool s) = 150"
    using Start_ok [where I = "chat_inv Map.empty anything", OF demo_option_ok(1) _ pp_inv_Init pp_inv_Init inv, of 0 0 0]
    unfolding demo_option_ok(2) by fastforce
  have "y = (None, unat (so_NetworkIOThreadCount default_option))"
    by (rule Start_replies [OF s(1) demo_option_ok(1)]) (simp_all add: demo_replies_def)
  then have "chat_running s"
    unfolding chat_running_def using s(1) demo_option_ok(1,2) w(1) refs pp_inv_Init chat_reaches.start by fastforce
  then show ?thesis using s(2) by blast
qed

text \<open>A received packet with a given body, that one owner holds.\<close>

lemma chat_demo_packet:
  assumes "length bs \<le> 4091"
  shows "\<exists>pool a p. pp_inv pool \<and> pp_objs pool = [a \<mapsto> p] \<and> pk_unread p = bs \<and> pk_mRefCount p = 1"
proof -
  let ?p = "(Packet_Initial 5 4096 (replicate 4101 0))\<lparr>pk_mRefCount := 1\<rparr>"
  have mem: "mem_ok (\<lambda>_. replicate 4101 0)" by (simp add: mem_ok_def NetHeaderSize_def NET_PACKET_BODY_CAPACITY_def)
  obtain pool a where p: "pp_inv pool" "pp_objs pool = (pp_objs (PacketPool_Init 0))(a \<mapsto> ?p)"
    using AllocPacket_ok [OF pp_inv_Init mem] by metis
  have o: "pp_objs pool = [a \<mapsto> ?p]" using p(2) by (simp add: PacketPool_Init_def)
  have np: "net_packet ?p" using packet_kind_Initial [of 5 4096 "replicate 4101 0"] by (simp add: size_lim_def)
  have init: "pk_unread ?p = []" "pk_mWritePos ?p = 5" "pk_tBodyCapacity ?p = 4096"
    by (simp_all add: Packet_Initial_def pk_unread_def)
  have pi: "pk_inv ?p" using np by (simp add: net_packet_def)
  obtain p' where p': "pk_inv p'" "pk_unread p' = bs" "p' = ?p\<lparr>pk_mBuffer := pk_mBuffer p', pk_mWritePos := pk_mWritePos ?p + length bs\<rparr>"
    using PutBody_spec [OF pi, of "length bs" bs] init assms by (auto simp: min_def)
  have sel: "pk_mRefCount p' = pk_mRefCount ?p" "pk_tHeaderSize p' = 5" "pk_tBodyCapacity p' = 4096"
    using init(3) by (subst p'(3), simp add: Packet_Initial_def)+
  have oa: "pp_objs pool a = Some ?p" using o by simp
  have "net_packet p'" using p'(1) sel by (simp add: net_packet_def)
  from pp_inv_same_refs(1) [OF p(1) oa this sel(1)] o have "pp_inv (pool\<lparr>pp_objs := [a \<mapsto> p']\<rparr>)" by simp
  then show ?thesis using p'(2) sel(1) by (intro exI [of _ "pool\<lparr>pp_objs := [a \<mapsto> p']\<rparr>"] exI [of _ a] exI [of _ p']) simp
qed

text \<open>A server with given users and one job in the queue, whose packet has given bytes.\<close>

lemma chat_demo_job:
  assumes w: "chat_inv Map.empty anything (\<lambda>_. 0) 150 w" "queue_list (ch_mJobQueue w) = []"
    and bs: "length bs \<le> 4091" and ty: "ty \<noteq> INVALID_JobType"
  shows "\<exists>s j a. let job = \<lparr>jb_JobType = ty, jb_SessionID = 0, jb_RecvPacket = Some a\<rparr> in
    kept Map.empty s \<and> queue_list (ch_mJobQueue (nc_world s)) = [j] \<and> ch_jobs (nc_world s) j = Some job \<and>
    job_bytes job s = bs \<and> ch_mUserManager (nc_world s) = ch_mUserManager w"
proof -
  obtain s0 where s0: "kept Map.empty s0" "length (nc_mSessionPool s0) = 150" using chat_demo_started chat_running_kept by blast
  obtain pool a p where p: "pp_inv pool" "pp_objs pool = [a \<mapsto> p]" "pk_unread p = bs" "pk_mRefCount p = 1" using chat_demo_packet [OF bs] by blast
  let ?job = "\<lparr>jb_JobType = ty, jb_SessionID = 0 :: u64, jb_RecvPacket = Some a\<rparr>"
  have idx: "unat (SessionIndex 0) = 0" by (simp add: SessionIndex_def)
  have ok: "job_ok 150 ?job" using ty by (simp add: job_ok_def idx)
  have ji: "jobs_inv Map.empty (\<lambda>_. 0) 150 w" using w(1) by (simp add: chat_inv_def)
  obtain w1 j where w1: "jobs_inv Map.empty (\<lambda>x. 0 + (if Some a = Some x then 1 else 0)) 150 w1"
    "w1 = w\<lparr>ch_mJobPool := ch_mJobPool w1, ch_mJobQueue := ch_mJobQueue w1, ch_jobs := ch_jobs w1\<rparr>"
    "queue_list (ch_mJobQueue w1) = [j]" "ch_jobs w1 j = Some ?job"
    using enqueue_job_ok [OF ji ok] w(2) by auto
  have sel: "ch_mUserManager w1 = ch_mUserManager w" "ch_mSectorManager w1 = ch_mSectorManager w" "ch_mMessageBuffer w1 = ch_mMessageBuffer w"
    by (subst w1(2), simp)+
  have refs: "pp_refs pool = (\<lambda>x. 0 + (if Some a = Some x then 1 else 0))" using p(2,4) by (auto simp: pp_refs_def fun_eq_iff)
  have inv: "chat_inv Map.empty anything (pp_refs pool) 150 w1" using w(1) w1(1) sel refs by (simp add: chat_inv_def)
  let ?s = "s0\<lparr>nc_recv := pool, nc_world := w1\<rparr>"
  have "kept Map.empty ?s"
    by (rule ready_update [OF s0(1)]) (use readyD(1) [OF s0(1)] p(1) inv s0(2) in simp_all)
  moreover have "job_bytes ?job ?s = bs" using p(2,3) by (simp add: job_bytes_def)
  ultimately show ?thesis using w1(3,4) sel(1) unfolding Let_def by (intro exI [of _ ?s] exI [of _ j] exI [of _ a]) simp
qed

text \<open>The same with the job taken out of the queue.\<close>

lemma chat_demo_taken:
  assumes w: "chat_inv Map.empty anything (\<lambda>_. 0) 150 w" "queue_list (ch_mJobQueue w) = []"
    and bs: "length bs \<le> 4091" and ty: "ty \<noteq> INVALID_JobType"
  shows "\<exists>s j a. let job = \<lparr>jb_JobType = ty, jb_SessionID = 0, jb_RecvPacket = Some a\<rparr> in
    kept [j \<mapsto> job] s \<and> job_bytes job s = bs \<and> ch_mUserManager (nc_world s) = ch_mUserManager w"
proof -
  obtain s j a where s: "kept Map.empty s" "queue_list (ch_mJobQueue (nc_world s)) = [j]"
    "ch_jobs (nc_world s) j = Some \<lparr>jb_JobType = ty, jb_SessionID = 0, jb_RecvPacket = Some a\<rparr>"
    "job_bytes \<lparr>jb_JobType = ty, jb_SessionID = 0, jb_RecvPacket = Some a\<rparr> s = bs" "ch_mUserManager (nc_world s) = ch_mUserManager w"
    using chat_demo_job [OF w bs ty] unfolding Let_def by blast
  obtain s1 where s1: "kept [j \<mapsto> \<lparr>jb_JobType = ty, jb_SessionID = 0, jb_RecvPacket = Some a\<rparr>] s1"
    "job_bytes \<lparr>jb_JobType = ty, jb_SessionID = 0, jb_RecvPacket = Some a\<rparr> s1 = bs"
    "s1 = s\<lparr>nc_world := (nc_world s)\<lparr>ch_mJobQueue := ch_mJobQueue (nc_world s1)\<rparr>\<rparr>"
    using take_job_ok(2) [OF s(1,2)] s(3,4) by auto
  have "ch_mUserManager (nc_world s1) = ch_mUserManager w" using s(5) by (subst s1(3)) simp
  then show ?thesis using s1(1,2) unfolding Let_def by blast
qed

text \<open>A world with one user, account 7 in session 0, in the sector (3, 3).\<close>

lemma chat_demo_user:
  "\<exists>w u c. chat_inv Map.empty anything (\<lambda>_. 0) 150 w \<and> queue_list (ch_mJobQueue w) = [] \<and> ch_users w = [u \<mapsto> c] \<and>
     cu_AccountNo c = 7 \<and> cu_mSessionID c = 0 \<and> cu_mCurSectorPos c = mk_int2 3 3"
proof -
  obtain w where w: "chat_inv Map.empty anything (\<lambda>_. 0) 150 w" "queue_list (ch_mJobQueue w) = []" "ch_users w = Map.empty"
    using chat_Create_ok by blast
  let ?q = "login_of (le_bytes 2 1 @ le_bytes 8 7 @ replicate 144 0)"
  have um: "um_inv 150 (ch_mUserManager w)" using w(1) by (simp add: chat_inv_def)
  have idx: "unat (SessionIndex 0) < 150" by (simp add: SessionIndex_def)
  have names: "names_ok ?q" by (rule login_of_ok) simp_all
  have no: "lq_AccountNo ?q = 7" by (simp add: login_of_def field_def)
  have free: "\<not> is_taken 0 7 (ch_mUserManager w)"
    using um_inv_maps(1,2) [OF um] w(3) unfolding is_taken_def by (metis option.distinct(1) option.exhaust)
  have t: "terminated (lq_ID ?q) \<and> terminated (lq_Nickname ?q)"
    by (simp add: login_of_def) code_simp
  have mem: "user_mem_ok (je_user chat_demo_env)" using chat_demo_env_good by (simp add: env_good_def)
  obtain U where U: "um_inv 150 U" "pos_map U = pos_map (ch_mUserManager w)" "logged_in 0 7 (ch_mUserManager w) U"
    using login_added [OF um mem names idx, unfolded no] free t by auto
  then obtain u c where u: "um_users U = [u \<mapsto> c]" "cu_AccountNo c = 7" "cu_mSessionID c = 0"
    using w(3) unfolding logged_in_def by auto
  let ?w1 = "w\<lparr>ch_mUserManager := U\<rparr>"
  have inv: "chat_inv Map.empty anything (\<lambda>_. 0) 150 ?w1" using w(1) U by (simp add: chat_inv_def)
  have g: "cs_grid (ch_mSectorManager ?w1) (pos_map (ch_mUserManager ?w1))" and i: "cs_in ?w1 (mk_int2 3 3)" and cu: "ch_users ?w1 u = Some c"
    using inv u(1) by (simp_all add: chat_inv_def cs_in_def in_grid_def)
  obtain w2 where w2: "ch_mUserManager w2 = U\<lparr>um_users := [u \<mapsto> c\<lparr>cu_mCurSectorPos := mk_int2 3 3\<rparr>]\<rparr>"
    "cs_grid (ch_mSectorManager w2) (pos_map (ch_mUserManager w2))"
    "w2 = ?w1\<lparr>ch_mUserManager := ch_mUserManager w2, ch_mSectorManager := ch_mSectorManager w2\<rparr>"
    "cs_mWidth (ch_mSectorManager w2) = cs_mWidth (ch_mSectorManager w)" "cs_mHeight (ch_mSectorManager w2) = cs_mHeight (ch_mSectorManager w)"
    using TryMove_ok [OF g cu i] u(1) by auto
  have "um_inv 150 (ch_mUserManager w2)" using U(1) u idx unfolding w2(1) um_inv_def by auto
  then have "chat_inv Map.empty anything (\<lambda>_. 0) 150 w2" using inv w2(2,4,5) by (subst w2(3)) (simp add: chat_inv_def)
  moreover have "queue_list (ch_mJobQueue w2) = []" using w(2) by (subst w2(3)) simp
  moreover have "ch_users w2 = [u \<mapsto> c\<lparr>cu_mCurSectorPos := mk_int2 3 3\<rparr>]" using w2(1) by simp
  ultimately show ?thesis using u(2,3) by (intro exI [of _ w2] exI [of _ u] exI [of _ "c\<lparr>cu_mCurSectorPos := mk_int2 3 3\<rparr>"]) simp
qed

subsection \<open>Properties\<close>

text \<open>
  C5. The chat server is safe: after any history of connections, completions, sends, heartbeats and jobs whose packets are well
  behaved, the next event ends in a state that keeps the invariant, or in one of the two deliberate stops of the core. No
  user, job or packet is used after its end, and no pointer is null, whatever the clients and the system do otherwise.
\<close>

theorem chat_server_safe:
  assumes "chat_running s" "chat_enabled op s"
  shows "case chat_step op s of
      Inl e \<Rightarrow> e = InvalidArgument \<or> e = CrashDumped
    | Inr s' \<Rightarrow> chat_running s' \<and> kept Map.empty s'"
proof (cases "chat_step op s")
  case (Inl e)
  then show ?thesis using chat_step_ok [OF chat_running_kept [OF assms(1)] assms(2)] by simp
next
  case (Inr s')
  then have "chat_running s'" using chat_running_step [OF assms] by blast
  then show ?thesis using Inr chat_running_kept by simp
qed

theorem chat_server_safe_witness:
  "\<exists>s. chat_running s \<and> (case chat_step ChatHeartbeat s of
      Inl e \<Rightarrow> e = InvalidArgument \<or> e = CrashDumped | Inr s' \<Rightarrow> chat_running s' \<and> kept Map.empty s')"
proof -
  obtain s where s: "chat_running s" using chat_demo_started by blast
  have "chat_enabled ChatHeartbeat s" by simp
  from chat_server_safe [OF s this] s show ?thesis by blast
qed

text \<open>
  C6. Who is logged in and where: in every state of a running server the two maps of users are the inverses of the session and
  the account of a user, so a session has at most one user and an account is in use at most once; each list of a sector
  holds exactly the users whose position it is, once each; and a user is on the grid or nowhere.
\<close>

theorem chat_users_consistent:
  assumes "chat_running s"
  shows "let U = ch_mUserManager (nc_world s); S = ch_mSectorManager (nc_world s) in
    (\<forall>sid u. um_mSessionUserMap U sid = Some u \<longleftrightarrow> (\<exists>c. um_users U u = Some c \<and> cu_mSessionID c = sid)) \<and>
    (\<forall>no u. um_mAccountUserMap U no = Some u \<longleftrightarrow> (\<exists>c. um_users U u = Some c \<and> cu_AccountNo c = no)) \<and>
    (\<forall>u c. um_users U u = Some c \<longrightarrow> cu_mCurSectorPos c = mInvalidSectorPos \<or> in_grid 50 50 (cu_mCurSectorPos c)) \<and>
    length (cs_mSector S) = 2500 \<and>
    (\<forall>k < 2500. distinct (cs_mSector S ! k) \<and>
       set (cs_mSector S ! k) = {u. \<exists>c. um_users U u = Some c \<and> cu_mCurSectorPos c \<noteq> mInvalidSectorPos \<and> cell 50 (cu_mCurSectorPos c) = k})"
proof -
  define U S where US: "U = ch_mUserManager (nc_world s)" "S = ch_mSectorManager (nc_world s)"
  have k: "kept Map.empty s" by (rule chat_running_kept [OF assms(1)])
  have g: "grid_inv 50 50 (cs_mSector S) (pos_map U)" using ready_grid(1-3) [OF k] by (simp add: US cs_grid_def)
  have "\<forall>u c. um_users U u = Some c \<longrightarrow> cu_mCurSectorPos c = mInvalidSectorPos \<or> in_grid 50 50 (cu_mCurSectorPos c)"
    using g unfolding grid_inv_def by (auto simp: pos_map_Some)
  moreover have "{u. \<exists>p. pos_map U u = Some p \<and> cell 50 p = k} =
      {u. \<exists>c. um_users U u = Some c \<and> cu_mCurSectorPos c \<noteq> mInvalidSectorPos \<and> cell 50 (cu_mCurSectorPos c) = k}" for k
    by (auto simp: pos_map_Some)
  ultimately show ?thesis
    using g um_inv_maps(1,2) [OF ready_users [OF k], folded US] unfolding grid_inv_def Let_def US [symmetric] by simp
qed

theorem chat_users_consistent_witness:
  "\<exists>s. chat_running s \<and> length (cs_mSector (ch_mSectorManager (nc_world s))) = 2500 \<and>
     (\<forall>sid u. um_mSessionUserMap (ch_mUserManager (nc_world s)) sid = Some u \<longrightarrow> um_users (ch_mUserManager (nc_world s)) u \<noteq> None)"
proof -
  obtain s where "chat_running s" using chat_demo_started by blast
  with chat_users_consistent [OF this] show ?thesis by (intro exI [of _ s]) (auto simp: Let_def)
qed

text \<open>
  C7. A message: when the packet has all its bytes and its sender is the user of the session, the answer carries the
  account, the identifier and the nickname of the sender and the message as it was received, and it is sent, in some order, to the
  session of every user at distance at most one from the sender, once each, and to nobody else.
\<close>

theorem message_reaches_near_users:
  assumes s: "kept C s" and job: "C j = Some job" "jb_RecvPacket job = Some a" and e: "env_good e"
    and bs: "bs = job_bytes job s" and n: "n = field 10 2 bs" "12 + n \<le> length bs" "n \<le> 2048"
    and u: "um_mSessionUserMap (ch_mUserManager (nc_world s)) (jb_SessionID job) = Some u" "ch_users (nc_world s) u = Some c"
      "cu_AccountNo c = field 2 8 bs"
  shows "\<exists>us b p s1. JobUserMessage e job s =
        act_bind (act_net (\<lambda>s. rbind (send_sids e (map (sid_of (nc_world s1)) us) b s) (\<lambda>s. Inr (s, ())))) (\<lambda>_. act (free_send b)) s1 \<and>
      distinct us \<and> set us = {v. \<exists>d. ch_users (nc_world s) v = Some d \<and> cu_mCurSectorPos d \<noteq> mInvalidSectorPos \<and>
        near (cu_mCurSectorPos c) (cu_mCurSectorPos d)} \<and>
      ch_mUserManager (nc_world s1) = ch_mUserManager (nc_world s) \<and>
      pp_objs (nc_send s1) b = Some p \<and> 0 < pp_refs (nc_send s1) b \<and>
      pk_body p = le_bytes 2 CS_CHAT_RES_MESSAGE @ le_bytes 8 (cu_AccountNo c) @ wbytes (cu_ID c) @ wbytes (cu_Nickname c) @
        le_bytes 2 n @ take n (drop 12 bs)"
proof -
  note rd = message_read(2) [OF s job refl, of e]
  obtain s0 where s0: "ready (chat_inv C (exactly (nc_world s0))) (\<lambda>_. 0) s0" "nc_world s0 = buffered (take n (drop 12 bs)) (nc_world s)"
    "JobUserMessage e job s = message_rest e job (field 2 8 bs) n s0"
    using rd n unfolding bs by blast
  let ?w = "nc_world s0"
  have f: "FindUserOrNull (jb_SessionID job) (ch_mUserManager ?w) = Some u" "ch_users ?w u = Some c"
    using u s0(2) by (simp_all add: FindUserOrNull_def)
  have mem: "mem_ok (je_mem e)" using e by (simp add: env_good_def)
  obtain s1 b us where s1: "distinct us" "set us = {v. \<exists>q. pos_map (ch_mUserManager ?w) v = Some q \<and> near (cu_mCurSectorPos c) q}"
    "writing (chat_inv C (exactly ?w)) ((\<lambda>_. 0)(b := (0 :: int) + 1)) b
      (le_bytes 2 CS_CHAT_RES_MESSAGE @ le_bytes 8 (field 2 8 bs) @ wbytes (cu_ID c) @ wbytes (cu_Nickname c) @ le_bytes 2 n @
       take n (ch_mMessageBuffer ?w)) ?w s1"
    "message_rest e job (field 2 8 bs) n s0 =
      act_bind (act_net (\<lambda>s. rbind (send_sids e (map (sid_of ?w) us) b s) (\<lambda>s. Inr (s, ())))) (\<lambda>_. act (free_send b)) s1"
    using message_sent [OF s0(1) refl mem f u(3) n(3)] by blast
  obtain p where p: "pp_objs (nc_send s1) b = Some p"
    "pk_body p = le_bytes 2 CS_CHAT_RES_MESSAGE @ le_bytes 8 (field 2 8 bs) @ wbytes (cu_ID c) @ wbytes (cu_Nickname c) @ le_bytes 2 n @
       take n (ch_mMessageBuffer ?w)" "nc_world s1 = ?w" "ready (chat_inv C (exactly ?w)) ((\<lambda>_. 0)(b := (0 :: int) + 1)) s1"
    using s1(3) by (auto simp: writing_def)
  have msg: "take n (ch_mMessageBuffer ?w) = take n (drop 12 bs)" using n(2) s0(2) by simp
  have "0 < pp_refs (nc_send s1) b" using ready_held [OF p(4), of b] by simp
  moreover have "{v. \<exists>q. pos_map (ch_mUserManager ?w) v = Some q \<and> near (cu_mCurSectorPos c) q} =
      {v. \<exists>d. ch_users (nc_world s) v = Some d \<and> cu_mCurSectorPos d \<noteq> mInvalidSectorPos \<and> near (cu_mCurSectorPos c) (cu_mCurSectorPos d)}"
    using s0(2) by (auto simp: pos_map_Some)
  ultimately show ?thesis
    using s1 p s0(2,3) msg u(3) by (intro exI [of _ us] exI [of _ b] exI [of _ p] exI [of _ s1]) simp
qed

theorem message_reaches_near_users_witness:
  "\<exists>job e s us b p s1 u. JobUserMessage e job s =
        act_bind (act_net (\<lambda>s. rbind (send_sids e (map (sid_of (nc_world s1)) us) b s) (\<lambda>s. Inr (s, ())))) (\<lambda>_. act (free_send b)) s1 \<and>
      us = [u] \<and> pp_objs (nc_send s1) b = Some p \<and> drop 90 (pk_body p) = le_bytes 2 4 @ [104, 0, 105, 0]"
proof -
  obtain w u c where w: "chat_inv Map.empty anything (\<lambda>_. 0) 150 w" "queue_list (ch_mJobQueue w) = []" "ch_users w = [u \<mapsto> c]"
    "cu_AccountNo c = 7" "cu_mSessionID c = 0" "cu_mCurSectorPos c = mk_int2 3 3"
    using chat_demo_user by blast
  let ?bs = "le_bytes 2 5 @ le_bytes 8 7 @ le_bytes 2 4 @ [104, 0, 105, 0 :: byte]"
  obtain s j a where s: "kept [j \<mapsto> \<lparr>jb_JobType = UserMessage, jb_SessionID = 0, jb_RecvPacket = Some a\<rparr>] s"
    "job_bytes \<lparr>jb_JobType = UserMessage, jb_SessionID = 0, jb_RecvPacket = Some a\<rparr> s = ?bs" "ch_mUserManager (nc_world s) = ch_mUserManager w"
    using chat_demo_taken [OF w(1,2), of ?bs UserMessage] unfolding Let_def by auto
  have um: "um_inv 150 (ch_mUserManager w)" using w(1) by (simp add: chat_inv_def)
  have fields: "field 10 2 ?bs = 4" "field 2 8 ?bs = 7" by (simp_all add: field_def)
  have sid: "um_mSessionUserMap (ch_mUserManager (nc_world s)) 0 = Some u" using um_inv_maps(1) [OF um] w(3,5) s(3) by auto
  have len: "length (cu_ID c) = 20" "length (cu_Nickname c) = 20" using um_inv_maps(3) [OF um] w(3) by auto
  let ?C = "[j \<mapsto> \<lparr>jb_JobType = UserMessage, jb_SessionID = 0, jb_RecvPacket = Some a\<rparr>]"
  let ?job = "\<lparr>jb_JobType = UserMessage, jb_SessionID = 0, jb_RecvPacket = Some a\<rparr>"
  obtain us b p s1 where r: "JobUserMessage chat_demo_env ?job s =
        act_bind (act_net (\<lambda>s. rbind (send_sids chat_demo_env (map (sid_of (nc_world s1)) us) b s) (\<lambda>s. Inr (s, ())))) (\<lambda>_. act (free_send b)) s1"
    "distinct us" "set us = {v. \<exists>d. ch_users (nc_world s) v = Some d \<and> cu_mCurSectorPos d \<noteq> mInvalidSectorPos \<and>
        near (cu_mCurSectorPos c) (cu_mCurSectorPos d)}" "pp_objs (nc_send s1) b = Some p"
    "pk_body p = le_bytes 2 CS_CHAT_RES_MESSAGE @ le_bytes 8 (cu_AccountNo c) @ wbytes (cu_ID c) @ wbytes (cu_Nickname c) @
        le_bytes 2 4 @ take 4 (drop 12 ?bs)"
    using message_reaches_near_users [OF s(1), of j ?job a chat_demo_env ?bs 4 u c] s(2,3) fields sid w(3,4) chat_demo_env_good by auto
  have "set us = {u}" using r(3) s(3) w(3,6) by (auto simp: near_def mInvalidSectorPos_def)
  then have "us = [u]" using r(2) by (metis distinct.simps(2) distinct_singleton list.set_cases set_empty singletonD set_ConsD list.set_intros(1) insert_iff list.exhaust list.simps(15))
  moreover have "drop 90 (pk_body p) = le_bytes 2 4 @ [104, 0, 105, 0]" using r(5) len by simp
  ultimately show ?thesis using r(1,4) by blast
qed

text \<open>
  C8. A login: when the session has no user and the account is not logged in, there is one user more, with that session and account, at
  no sector, and the answer carries the status 1; otherwise the users stay as they are and the status is 0. The answer has 11 bytes and
  goes to the session that asked.
\<close>

theorem login_outcome:
  assumes s: "kept C s" and job: "C j = Some job" "jb_RecvPacket job = Some a" "jb_JobType job = UserLogin" and e: "env_good e"
    and q: "q = login_of (job_bytes job s)" "154 \<le> length (job_bytes job s)"
    and taken: "taken \<longleftrightarrow> is_taken (jb_SessionID job) (lq_AccountNo q) (ch_mUserManager (nc_world s))"
    and names: "taken \<or> terminated (lq_ID q) \<and> terminated (lq_Nickname q)"
  shows "\<exists>b p s1. JobUserLogin e job s = act_bind (act_net (je_Send e (jb_SessionID job) b)) (\<lambda>_. act (free_send b)) s1 \<and>
      pp_objs (nc_send s1) b = Some p \<and>
      pk_body p = le_bytes 2 CS_CHAT_RES_LOGIN @ le_bytes 1 (if taken then 0 else 1) @ le_bytes 8 (lq_AccountNo q) \<and>
      (if taken then ch_mUserManager (nc_world s1) = ch_mUserManager (nc_world s)
       else logged_in (jb_SessionID job) (lq_AccountNo q) (ch_mUserManager (nc_world s)) (ch_mUserManager (nc_world s1)))"
proof -
  let ?sid = "jb_SessionID job" let ?no = "lq_AccountNo q" let ?U = "ch_mUserManager (nc_world s)"
  obtain s1 b U where s1: "writing (chat_inv C (exactly ((nc_world s)\<lparr>ch_mUserManager := U\<rparr>))) ((\<lambda>_. 0)(b := (0 :: int) + 1)) b
        (le_bytes 2 CS_CHAT_RES_LOGIN @ le_bytes 1 (if is_taken ?sid ?no ?U then 0 else 1) @ le_bytes 8 ?no) ((nc_world s)\<lparr>ch_mUserManager := U\<rparr>) s1"
    "if is_taken ?sid ?no ?U then U = ?U else logged_in ?sid ?no ?U U"
    "JobUserLogin e job s = act_bind (act_net (je_Send e ?sid b)) (\<lambda>_. act (free_send b)) s1"
    using login_answered [OF s job e q(2,1)] names taken unfolding Let_def by blast
  have w: "ch_mUserManager (nc_world s1) = U" using writingD [OF s1(1)] by simp
  obtain p where p: "pp_objs (nc_send s1) b = Some p"
    "pk_body p = le_bytes 2 CS_CHAT_RES_LOGIN @ le_bytes 1 (if is_taken ?sid ?no ?U then 0 else 1) @ le_bytes 8 ?no"
    using s1(1) by (auto simp: writing_def)
  show ?thesis
    using s1(2,3) p w unfolding taken [symmetric] by (intro exI [of _ b] exI [of _ p] exI [of _ s1]) simp
qed

theorem login_outcome_witness:
  "\<exists>s job b p s1. JobUserLogin chat_demo_env job s = act_bind (act_net (je_Send chat_demo_env 0 b)) (\<lambda>_. act (free_send b)) s1 \<and>
     pp_objs (nc_send s1) b = Some p \<and> pk_body p = [2, 0, 0, 7, 0, 0, 0, 0, 0, 0, 0] \<and> dom (ch_users (nc_world s1)) \<noteq> {}"
proof -
  obtain w u c where w: "chat_inv Map.empty anything (\<lambda>_. 0) 150 w" "queue_list (ch_mJobQueue w) = []" "ch_users w = [u \<mapsto> c]"
    "cu_AccountNo c = 7" "cu_mSessionID c = 0"
    using chat_demo_user by blast
  let ?bs = "le_bytes 2 1 @ le_bytes 8 7 @ replicate 144 (0 :: byte)"
  obtain s j a where s: "kept [j \<mapsto> \<lparr>jb_JobType = UserLogin, jb_SessionID = 0, jb_RecvPacket = Some a\<rparr>] s"
    "job_bytes \<lparr>jb_JobType = UserLogin, jb_SessionID = 0, jb_RecvPacket = Some a\<rparr> s = ?bs" "ch_mUserManager (nc_world s) = ch_mUserManager w"
    using chat_demo_taken [OF w(1,2), of ?bs UserLogin] unfolding Let_def by auto
  let ?job = "\<lparr>jb_JobType = UserLogin, jb_SessionID = 0, jb_RecvPacket = Some a\<rparr>"
  have um: "um_inv 150 (ch_mUserManager w)" using w(1) by (simp add: chat_inv_def)
  have "um_mAccountUserMap (ch_mUserManager w) 7 = Some u" using um_inv_maps(2) [OF um] w(3,4) by auto
  then have taken: "is_taken 0 7 (ch_mUserManager (nc_world s))" using s(3) by (simp add: is_taken_def)
  have no: "lq_AccountNo (login_of ?bs) = 7" by (simp add: login_of_def field_def)
  obtain b p s1 where r: "JobUserLogin chat_demo_env ?job s = act_bind (act_net (je_Send chat_demo_env 0 b)) (\<lambda>_. act (free_send b)) s1"
    "pp_objs (nc_send s1) b = Some p" "pk_body p = le_bytes 2 CS_CHAT_RES_LOGIN @ le_bytes 1 0 @ le_bytes 8 7"
    "ch_mUserManager (nc_world s1) = ch_mUserManager (nc_world s)"
    using login_outcome [OF s(1), of j ?job a chat_demo_env "login_of ?bs" True] s(2) no taken chat_demo_env_good by auto
  have "le_bytes 2 CS_CHAT_RES_LOGIN @ le_bytes 1 0 @ le_bytes 8 7 = [2, 0, 0, 7, 0, 0, 0, 0, 0, 0, 0]" by code_simp
  then show ?thesis using r s(3) w(3) by (intro exI [of _ s] exI [of _ ?job] exI [of _ b] exI [of _ p] exI [of _ s1]) auto
qed

text \<open>
  C9. Shutting down: \<^verbatim>\<open>OnQuit\<close> empties the queue in as many rounds as there are jobs, whatever the jobs are; afterwards no job is
  left, every received packet that a job held is given back, the users of the sessions that had ended are gone and the others stay.
\<close>

theorem quit_drains:
  assumes "chat_running s" "length (queue_list (ch_mJobQueue (nc_world s))) \<le> fuel"
  shows "\<exists>s'. OnQuit fuel s = Inr s' \<and> kept Map.empty s' \<and> ch_jobs (nc_world s') = Map.empty \<and> pp_refs (nc_recv s') = (\<lambda>_. 0) \<and>
    ch_users (nc_world s') = users_without (ended_sessions (nc_world s)) (ch_users (nc_world s))"
  by (rule OnQuit_ok [OF chat_running_kept [OF assms(1)] assms(2)])

theorem quit_drains_witness:
  "\<exists>s s1 s'. chat_running s \<and> chat_step ChatHeartbeat s = Inr s1 \<and> queue_list (ch_mJobQueue (nc_world s1)) \<noteq> [] \<and>
     OnQuit (length (queue_list (ch_mJobQueue (nc_world s1)))) s1 = Inr s' \<and> ch_jobs (nc_world s') = Map.empty"
proof -
  obtain s where s: "chat_running s" using chat_demo_started by blast
  note k = chat_running_kept [OF s]
  have ji: "jobs_inv Map.empty (pp_refs (nc_recv s)) (length (nc_mSessionPool s)) (nc_world s)" using readyD(3) [OF k] by (simp add: chat_inv_def)
  obtain w where w: "enqueue_job SystemHeartBeat 0 None (nc_world s) = Inr w" "queue_list (ch_mJobQueue w) \<noteq> []"
    using enqueue_job_ok [OF ji, of SystemHeartBeat 0 None] by (auto simp: job_ok_def)
  let ?s1 = "s\<lparr>nc_world := w\<rparr>"
  have st: "chat_step ChatHeartbeat s = Inr ?s1" using w(1) by (simp add: ThreadHeatbeatThread_step_def)
  have "chat_running ?s1" by (rule chat_running_step [OF s _ st]) simp
  from quit_drains [OF this order_refl] obtain s' where
    "OnQuit (length (queue_list (ch_mJobQueue (nc_world ?s1)))) ?s1 = Inr s'" "ch_jobs (nc_world s') = Map.empty" by blast
  then show ?thesis using s st w(2) by (intro exI [of _ s] exI [of _ ?s1] exI [of _ s']) simp
qed

text \<open>
  C10. Three packets that end or corrupt the server, from clients that passed the framing: a message longer than the buffer of 2048 bytes,
  a move to a sector behind the last one, and a first login whose identifier has no null in its 20 characters. The first two access memory
  outside of an array in the round of the job thread; the third calls the invalid-parameter handler.
\<close>

theorem bad_packets_end_the_server:
  assumes s: "kept Map.empty s" "queue_list (ch_mJobQueue (nc_world s)) = j # js" "ch_jobs (nc_world s) j = Some job"
    "jb_RecvPacket job = Some a" and e: "env_good e" and bs: "bs = job_bytes job s" and U: "U = ch_mUserManager (nc_world s)"
    and bad: "jb_JobType job = UserMessage \<and> 12 + field 10 2 bs \<le> length bs \<and> 2048 < field 10 2 bs \<or>
      jb_JobType job = UserSectorMove \<and> 14 \<le> length bs \<and> um_mSessionUserMap U (jb_SessionID job) = Some u \<and>
        um_mAccountUserMap U (field 2 8 bs) = Some u \<and> 2500 \<le> 50 * field 12 2 bs + field 10 2 bs \<or>
      jb_JobType job = UserLogin \<and> 154 \<le> length bs \<and> \<not> is_taken (jb_SessionID job) (field 2 8 bs) U \<and>
        \<not> terminated (wchars (take 40 (drop 10 bs)))"
  shows "ThreadProcessJob_step e s = Inl (if jb_JobType job = UserLogin then InvalidParameter else MemFault)"
proof (rule job_faults [OF s(1-3)])
  fix s1 assume s1: "kept [j \<mapsto> job] s1" "job_bytes job s1 = job_bytes job s" "ch_mUserManager (nc_world s1) = ch_mUserManager (nc_world s)"
  have J: "[j \<mapsto> job] j = Some job" by simp
  have eq: "job_bytes job s1 = bs" "ch_mUserManager (nc_world s1) = U" using s1(2,3) bs U by simp_all
  from bad show "\<exists>s2. HandleJob e job s1 = (Inl (Faulted (if jb_JobType job = UserLogin then InvalidParameter else MemFault)), s2)"
  proof (elim disjE conjE)
    assume h: "jb_JobType job = UserMessage" "12 + field 10 2 bs \<le> length bs" "2048 < field 10 2 bs"
    from message_read(4) [OF s1(1) J s(4) eq(1) h(2,3), of e] show ?thesis using h(1) by (auto simp: HandleJob_def act_bind_def)
  next
    assume h: "jb_JobType job = UserSectorMove" "14 \<le> length bs" "um_mSessionUserMap U (jb_SessionID job) = Some u"
      "um_mAccountUserMap U (field 2 8 bs) = Some u" "2500 \<le> 50 * field 12 2 bs + field 10 2 bs"
    from move_off_grid [OF s1(1) J s(4) e eq(1) h(2) _ _ h(5), of u] show ?thesis using h(1,3,4) eq(2) by (auto simp: HandleJob_def act_bind_def)
  next
    assume h: "jb_JobType job = UserLogin" "154 \<le> length bs" "\<not> is_taken (jb_SessionID job) (field 2 8 bs) U"
      "\<not> terminated (wchars (take 40 (drop 10 bs)))"
    from login_unterminated [OF s1(1) J s(4) e eq(1) h(2) _ h(4)] show ?thesis using h(1,3) eq(2) by (auto simp: HandleJob_def act_bind_def)
  qed
qed

theorem bad_packets_end_the_server_witness:
  "\<exists>s job. kept Map.empty s \<and> length (job_bytes job s) = 2061 \<and> ThreadProcessJob_step chat_demo_env s = Inl MemFault"
proof -
  obtain w where w: "chat_inv Map.empty anything (\<lambda>_. 0) 150 w" "queue_list (ch_mJobQueue w) = []" using chat_Create_ok by blast
  let ?bs = "le_bytes 2 5 @ le_bytes 8 7 @ le_bytes 2 2049 @ replicate 2049 (65 :: byte)"
  obtain s j a where s: "kept Map.empty s" "queue_list (ch_mJobQueue (nc_world s)) = [j]"
    "ch_jobs (nc_world s) j = Some \<lparr>jb_JobType = UserMessage, jb_SessionID = 0, jb_RecvPacket = Some a\<rparr>"
    "job_bytes \<lparr>jb_JobType = UserMessage, jb_SessionID = 0, jb_RecvPacket = Some a\<rparr> s = ?bs"
    using chat_demo_job [OF w, of ?bs UserMessage] unfolding Let_def by auto
  have f: "field 10 2 ?bs = 2049" by (simp add: field_def)
  have "ThreadProcessJob_step chat_demo_env s = Inl MemFault"
    using bad_packets_end_the_server [OF s(1-3) _ chat_demo_env_good s(4) [symmetric] refl] f by simp
  moreover have "length ?bs = 2061" by simp
  ultimately show ?thesis using s(1,4) by metis
qed

end
