(* ===== verification/Lan_Session.thy ===== *)
theory Lan_Session
  imports Session_State
begin

text \<open>
  \<^verbatim>\<open>LanSession\<close> (\<^verbatim>\<open>LanSession.hpp\<close>, \<^verbatim>\<open>LanSession.cpp\<close>): the members are those of \<open>SessionState\<close>. In contrast to
  \<^verbatim>\<open>NetSession\<close>, \<^verbatim>\<open>CancelationIO\<close> closes the socket at once, the identifier comes from the session manager, and
  \<^verbatim>\<open>IsSendingAtomic\<close> counts: \<^verbatim>\<open>FinishSending\<close> subtracts one whatever the value is. The operations that close sockets return
  the list of the sockets they close.
\<close>

type_synonym LanSession = SessionState

definition LanHeaderSize :: nat where
  "LanHeaderSize = 2"

definition LAN_PACKET_BODY_CAPACITY :: nat where
  "LAN_PACKET_BODY_CAPACITY = 2000"

definition LAN_SESSION_RECVQUEUE_SIZE :: nat where
  "LAN_SESSION_RECVQUEUE_SIZE = 4086"

definition LAN_SESSION_SENDQUEUE_SIZE :: nat where
  "LAN_SESSION_SENDQUEUE_SIZE = 1024"

definition LanSession_Create :: "nat \<Rightarrow> u64 \<Rightarrow> LanSession res" where
  "LanSession_Create garbage uid =
     rbind (Queue_Create garbage uid LAN_SESSION_SENDQUEUE_SIZE) (\<lambda>queue.
       Inr \<lparr>ns_IsReleasedAtomic = 1, ns_IOCountAtomic = 0, ns_mSocket = None, ns_mSessionID = 0, ns_mAddress = '''', ns_mPort = 0,
            ns_PacketBuffer = replicate MAX_PACKET_COUNT_PER_SEND None, ns_PacketCount = 0, ns_TotalByteSize = 0,
            ns_IsSendingAtomic = 0, ns_mRecvQueue = RingBuffer_Init LAN_SESSION_RECVQUEUE_SIZE, ns_mSendQueue = queue,
            ns_mIsCloseSocket = 1\<rparr>)"

definition LanSession_CancelationIO :: "LanSession \<Rightarrow> LanSession \<times> nat option list" where
  "LanSession_CancelationIO s =
     (if ns_mIsCloseSocket s = 0 then (s\<lparr>ns_mIsCloseSocket := 1, ns_mSocket := None\<rparr>, [ns_mSocket s]) else (s, []))"

definition LanSession_Init :: "u64 \<Rightarrow> nat \<Rightarrow> string \<Rightarrow> u16 \<Rightarrow> nat \<Rightarrow> LanSession \<Rightarrow> LanSession res" where
  "LanSession_Init sessionID sock address port garbage s =
     rbind (Queue_Clear garbage (ns_mSendQueue s)) (\<lambda>queue.
       Inr (s\<lparr>ns_mSessionID := sessionID, ns_mSocket := Some sock, ns_mPort := port, ns_mAddress := address,
              ns_mSendQueue := queue, ns_mRecvQueue := RingBuffer_ClearBuffer (ns_mRecvQueue s),
              ns_IOCountAtomic := 0, ns_IsReleasedAtomic := 0, ns_IsSendingAtomic := 0, ns_mIsCloseSocket := 0\<rparr>))"

subsection \<open>Sending\<close>

definition LanSession_Enqueue :: "LanSession \<Rightarrow> PacketPool \<Rightarrow> nat \<Rightarrow> (LanSession \<times> PacketPool \<times> bool) res" where
  "LanSession_Enqueue s pool a =
     (if IsReleased s then Inr (s, pool, False)
      else
        rbind (AddRefPacket pool a) (\<lambda>pool.
        rbind (Queue_Enqueue (ns_mSendQueue s) a) (\<lambda>(queue, isEnqueue).
        let s = s\<lparr>ns_mSendQueue := queue\<rparr> in
        if \<not> isEnqueue then rbind (TryFreePacket pool a) (\<lambda>(pool, _). Inr (s, pool, False))
        else Inr (s, pool, True))))"

text \<open>
  The result is the list of buffers for \<^verbatim>\<open>WSASend\<close>, or \<open>None\<close> for \<^verbatim>\<open>false\<close>. \<^verbatim>\<open>BufferSize\<close> is the number of packets that were
  queued; were fewer taken out, \<^verbatim>\<open>WSASend\<close> would read buffers that nobody set.
\<close>

definition LanSession_ReadySending :: "LanSession \<Rightarrow> PacketPool \<Rightarrow> (LanSession \<times> (nat \<times> nat) list option) res" where
  "LanSession_ReadySending s pool =
     (if ns_IsSendingAtomic s \<noteq> 0 then Inr (s, None)
      else
        let s = s\<lparr>ns_IsSendingAtomic := 1\<rparr>; queueSize = nat (q_mUsedSize (ns_mSendQueue s) mod 2 ^ 64) in
        if MAX_PACKET_COUNT_PER_SEND < queueSize then Inl InvalidArgument
        else if queueSize = 0 then Inr (s\<lparr>ns_IsSendingAtomic := 0\<rparr>, None)
        else
          rbind (ready_loop pool queueSize (s\<lparr>ns_PacketCount := 0, ns_TotalByteSize := 0\<rparr>) []) (\<lambda>(s, out).
          if length out \<noteq> queueSize then Inl MemFault else Inr (s, Some out)))"

definition LanSession_FinishSending :: "LanSession \<Rightarrow> PacketPool \<Rightarrow> (LanSession \<times> PacketPool) res" where
  "LanSession_FinishSending s pool =
     rbind (finish_loop (take (ns_PacketCount s) (ns_PacketBuffer s)) pool) (\<lambda>pool.
       Inr (s\<lparr>ns_PacketCount := 0, ns_TotalByteSize := 0, ns_IsSendingAtomic := ns_IsSendingAtomic s - 1\<rparr>, pool))"

subsection \<open>Release\<close>

definition LanSession_Release :: "LanSession \<Rightarrow> PacketPool \<Rightarrow> (LanSession \<times> PacketPool \<times> nat option list) res" where
  "LanSession_Release s pool =
     (let (s, closed) = LanSession_CancelationIO s in
      rbind (LanSession_FinishSending s pool) (\<lambda>(s, pool).
      rbind (drain_loop (nat (q_mUsedSize (ns_mSendQueue s))) (ns_mSendQueue s) pool) (\<lambda>(queue, pool).
        Inr (s\<lparr>ns_mSendQueue := queue, ns_mSessionID := 0, ns_PacketCount := 0\<rparr>, pool, closed))))"

definition LanSession_TryRelease :: "LanSession \<Rightarrow> PacketPool \<Rightarrow> (LanSession \<times> PacketPool \<times> nat option list \<times> bool) res" where
  "LanSession_TryRelease s pool =
     (if ns_IsReleasedAtomic s = 0 \<and> ns_IOCountAtomic s = 0
      then rbind (LanSession_Release (s\<lparr>ns_IsReleasedAtomic := 1, ns_IOCountAtomic := 0\<rparr>) pool) (\<lambda>(s, pool, closed).
             Inr (s, pool, closed, True))
      else Inr (s, pool, [], False))"

subsection \<open>Invariant\<close>

text \<open>
  A released session has been through one \<^verbatim>\<open>FinishSending\<close> too many: its \<^verbatim>\<open>IsSendingAtomic\<close> may be -1, until \<^verbatim>\<open>Init\<close>.
\<close>

abbreviation lan_sess_inv :: "LanSession \<Rightarrow> bool" where
  "lan_sess_inv \<equiv> sess_inv 4086 1"

abbreviation lan_refs_ok :: "LanSession \<Rightarrow> PacketPool \<Rightarrow> bool" where
  "lan_refs_ok \<equiv> refs_in 2 2000"

abbreviation lan_packet :: "Packet \<Rightarrow> bool" where
  "lan_packet \<equiv> packet_kind 2 2000"

abbreviation lan_pool :: "PacketPool \<Rightarrow> bool" where
  "lan_pool \<equiv> pool_inv 2 2000"

lemma LanSession_Create_ok:
  "\<exists>s. LanSession_Create garbage uid = Inr s \<and> lan_sess_inv s \<and> session_refs s = [] \<and> IsReleased s \<and> IsClosed s \<and>
     ns_mSocket s = None \<and> ns_IOCountAtomic s = 0 \<and> ns_mSessionID s = 0 \<and> ns_IsSendingAtomic s = 0"
proof -
  obtain q where q: "Queue_Create garbage uid 1024 = Inr q" "queue_inv q" "queue_list q = []"
    using Queue_Create_ok [of garbage uid 1024] by blast
  have rb: "rb_inv (RingBuffer_Init 4086)" using rb_inv_Init [of 4086] by (simp add: size_lim_def)
  show ?thesis
    using q rb by (simp add: LanSession_Create_def LAN_SESSION_SENDQUEUE_SIZE_def LAN_SESSION_RECVQUEUE_SIZE_def sess_inv_def
        session_refs_def sending_def IsReleased_def IsClosed_def MAX_PACKET_COUNT_PER_SEND_def) (simp add: RingBuffer_Init_def)
qed

lemma LanSession_Init_ok:
  assumes inv: "lan_sess_inv (s\<lparr>ns_IsSendingAtomic := 0\<rparr>)" and empty: "session_refs s = []"
  obtains s' where "LanSession_Init sid sock address port garbage s = Inr s'" "lan_sess_inv s'" "session_refs s' = []"
    "ns_mSessionID s' = sid" "ns_IsReleasedAtomic s' = 0" "ns_mIsCloseSocket s' = 0" "ns_mSocket s' = Some sock"
    "ns_IOCountAtomic s' = 0" "ns_IsSendingAtomic s' = 0" "rb_contents (ns_mRecvQueue s') = []"
proof -
  have q: "queue_inv (ns_mSendQueue s)" "queue_list (ns_mSendQueue s) = []"
    using inv empty by (auto simp: sess_inv_def session_refs_def)
  obtain q' where q': "Queue_Clear garbage (ns_mSendQueue s) = Inr q'" "queue_inv q'" "queue_list q' = []"
    using Queue_Clear_empty [OF q] by metis
  have rb: "rb_inv (RingBuffer_ClearBuffer (ns_mRecvQueue s))"
    "rb_contents (RingBuffer_ClearBuffer (ns_mRecvQueue s)) = []"
    "rb_mMaxCapacity (RingBuffer_ClearBuffer (ns_mRecvQueue s)) = rb_mMaxCapacity (ns_mRecvQueue s)"
    using inv by (simp_all add: sess_inv_def RingBuffer_ClearBuffer_def rb_inv_def rb_contents_def wrap_def)
  let ?s' = "s\<lparr>ns_mSessionID := sid, ns_mSocket := Some sock, ns_mPort := port, ns_mAddress := address,
    ns_mSendQueue := q', ns_mRecvQueue := RingBuffer_ClearBuffer (ns_mRecvQueue s),
    ns_IOCountAtomic := 0, ns_IsReleasedAtomic := 0, ns_IsSendingAtomic := 0, ns_mIsCloseSocket := 0\<rparr>"
  have "LanSession_Init sid sock address port garbage s = Inr ?s'" using q'(1) by (simp add: LanSession_Init_def)
  moreover have "lan_sess_inv ?s'" using inv q'(2) rb by (simp add: sess_inv_def)
  moreover have "session_refs ?s' = []" using q'(3) empty by (simp add: session_refs_def sending_def)
  ultimately show ?thesis using that [of ?s'] rb by simp
qed

lemma LanSession_Enqueue_ok:
  assumes inv: "lan_sess_inv s" and refs: "lan_refs_ok s pool" and a: "0 < pp_refs pool a" and l: "ns_IsReleasedAtomic s = 0"
  obtains q pool' where "LanSession_Enqueue s pool a = Inr (s\<lparr>ns_mSendQueue := q\<rparr>, pool', True)" "lan_sess_inv (s\<lparr>ns_mSendQueue := q\<rparr>)"
    "lan_refs_ok (s\<lparr>ns_mSendQueue := q\<rparr>) pool'" "queue_list q = queue_list (ns_mSendQueue s) @ [a]"
    "others (s\<lparr>ns_mSendQueue := q\<rparr>) pool' = others s pool" "pp_refs pool' = (pp_refs pool)(a := pp_refs pool a + 1)"
proof -
  obtain q pool' where e: "AddRefPacket pool a = Inr pool'" "Queue_Enqueue (ns_mSendQueue s) a = Inr (q, True)"
    "lan_sess_inv (s\<lparr>ns_mSendQueue := q\<rparr>)" "lan_refs_ok (s\<lparr>ns_mSendQueue := q\<rparr>) pool'"
    "queue_list q = queue_list (ns_mSendQueue s) @ [a]" "others (s\<lparr>ns_mSendQueue := q\<rparr>) pool' = others s pool"
    "pp_refs pool' = (pp_refs pool)(a := pp_refs pool a + 1)"
    by (rule enqueue_session [OF inv refs a])
  then show ?thesis
    using l by (intro that [of q pool']) (simp_all add: LanSession_Enqueue_def IsReleased_def)
qed

lemma LanSession_ReadySending_prefix:
  assumes inv: "lan_sess_inv s" and refs: "lan_refs_ok s pool" and idle: "ns_IsSendingAtomic s = 0"
    and as: "queue_list (ns_mSendQueue s) = as @ bs" "as \<noteq> []" "length as \<le> 300"
    and k: "length (as @ bs) mod 2 ^ 64 = length as"
  obtains s' where "LanSession_ReadySending s pool =
      Inr (s', Some (map (\<lambda>a. (a, GetPacketSize (the (pp_objs pool a)))) as))"
    "lan_sess_inv s'" "ns_IsSendingAtomic s' = 1" "sending s' = as" "queue_list (ns_mSendQueue s') = bs"
    "others s' pool = others s pool" "lan_refs_ok s' pool"
    "s' = s\<lparr>ns_mSendQueue := ns_mSendQueue s', ns_PacketBuffer := ns_PacketBuffer s',
           ns_PacketCount := ns_PacketCount s', ns_TotalByteSize := ns_TotalByteSize s', ns_IsSendingAtomic := 1\<rparr>"
proof -
  obtain s1 where s1: "ready_loop pool (length as) (s\<lparr>ns_IsSendingAtomic := 1, ns_PacketCount := 0, ns_TotalByteSize := 0\<rparr>) [] =
      Inr (s1, map (\<lambda>a. (a, GetPacketSize (the (pp_objs pool a)))) as)"
    "\<And>n. sending (s1\<lparr>ns_IsSendingAtomic := n\<rparr>) = as" "lan_sess_inv (s1\<lparr>ns_IsSendingAtomic := 1\<rparr>)"
    "queue_list (ns_mSendQueue s1) = bs"
    "\<And>n. others (s1\<lparr>ns_IsSendingAtomic := n\<rparr>) pool = others s pool" "\<And>n. lan_refs_ok (s1\<lparr>ns_IsSendingAtomic := n\<rparr>) pool"
    "s1 = s\<lparr>ns_mSendQueue := ns_mSendQueue s1, ns_PacketBuffer := ns_PacketBuffer s1,
           ns_PacketCount := ns_PacketCount s1, ns_TotalByteSize := ns_TotalByteSize s1, ns_IsSendingAtomic := 1\<rparr>"
    using ready_loop_session [OF inv refs idle one_neq_zero as] by blast
  have i1: "ns_IsSendingAtomic s1 = 1" using arg_cong [OF s1(7), of ns_IsSendingAtomic] by simp
  then have same: "s1\<lparr>ns_IsSendingAtomic := 1\<rparr> = s1" by simp
  have size: "nat (q_mUsedSize (ns_mSendQueue s) mod 2 ^ 64) = length as"
    using queue_used [of "ns_mSendQueue s"] inv as(1) k unfolding sess_inv_def
    by (metis nat_int of_nat_mod of_nat_numeral of_nat_power)
  have "LanSession_ReadySending s pool = Inr (s1, Some (map (\<lambda>a. (a, GetPacketSize (the (pp_objs pool a)))) as))"
    using idle size as(2,3) s1(1) by (simp add: LanSession_ReadySending_def Let_def MAX_PACKET_COUNT_PER_SEND_def)
  then show ?thesis
    by (rule that [OF _ s1(3) [unfolded same] i1 s1(2) [of 1, unfolded same] s1(4) s1(5) [of 1, unfolded same]
          s1(6) [of 1, unfolded same] s1(7)])
qed

text \<open>Every outcome of \<^verbatim>\<open>ReadySending\<close>: it throws, or leaves a consistent session behind.\<close>

lemma LanSession_ReadySending_cases:
  assumes inv: "lan_sess_inv s" and refs: "lan_refs_ok s pool"
  shows "LanSession_ReadySending s pool = Inl InvalidArgument \<and> 300 < length (queue_list (ns_mSendQueue s)) \<or>
    LanSession_ReadySending s pool = Inr (s, None) \<or>
    (\<exists>s' out. LanSession_ReadySending s pool = Inr (s', Some out) \<and> lan_sess_inv s' \<and> lan_refs_ok s' pool \<and>
      others s' pool = others s pool \<and> ns_IsSendingAtomic s = 0 \<and> ns_IsSendingAtomic s' = 1 \<and>
      s' = s\<lparr>ns_mSendQueue := ns_mSendQueue s', ns_PacketBuffer := ns_PacketBuffer s',
             ns_PacketCount := ns_PacketCount s', ns_TotalByteSize := ns_TotalByteSize s', ns_IsSendingAtomic := 1\<rparr>)"
proof (cases "ns_IsSendingAtomic s = 0")
  case True
  define q where "q = queue_list (ns_mSendQueue s)"
  define k where "k = length q mod 2 ^ 64"
  have used: "nat (q_mUsedSize (ns_mSendQueue s) mod 2 ^ 64) = k"
    using queue_used [of "ns_mSendQueue s"] inv unfolding sess_inv_def k_def q_def
    by (metis nat_int of_nat_mod of_nat_numeral of_nat_power)
  have kq: "k \<le> length q" by (simp add: k_def)
  consider "k = 0" | "300 < k" | "0 < k" "k \<le> 300" by linarith
  then show ?thesis
  proof cases
    case 1
    have "s\<lparr>ns_IsSendingAtomic := 0\<rparr> = s" using True by simp
    then have "LanSession_ReadySending s pool = Inr (s, None)"
      using 1 True used by (simp add: LanSession_ReadySending_def Let_def)
    then show ?thesis by blast
  next
    case 2
    then show ?thesis using True used kq by (simp add: LanSession_ReadySending_def Let_def MAX_PACKET_COUNT_PER_SEND_def q_def)
  next
    case 3
    have "queue_list (ns_mSendQueue s) = take k q @ drop k q" by (simp add: q_def)
    moreover have "take k q \<noteq> []" "length (take k q) \<le> 300" "length (take k q @ drop k q) mod 2 ^ 64 = length (take k q)"
      using 3 kq by (auto simp: k_def)
    ultimately show ?thesis
      by (intro disjI2) (rule LanSession_ReadySending_prefix [OF inv refs True, of "take k q" "drop k q"], use True in auto)
  qed
qed (simp add: LanSession_ReadySending_def)

lemma LanSession_FinishSending_ok:
  assumes inv: "lan_sess_inv s" and refs: "lan_refs_ok s pool"
  obtains pool' where "LanSession_FinishSending s pool =
      Inr (s\<lparr>ns_PacketCount := 0, ns_TotalByteSize := 0, ns_IsSendingAtomic := ns_IsSendingAtomic s - 1\<rparr>, pool')"
    "lan_sess_inv (s\<lparr>ns_PacketCount := 0, ns_TotalByteSize := 0, ns_IsSendingAtomic := 0\<rparr>)"
    "\<And>n. others (s\<lparr>ns_PacketCount := 0, ns_TotalByteSize := 0, ns_IsSendingAtomic := n\<rparr>) pool' = others s pool"
    "\<And>n. lan_refs_ok (s\<lparr>ns_PacketCount := 0, ns_TotalByteSize := 0, ns_IsSendingAtomic := n\<rparr>) pool'"
proof -
  obtain pool' where p: "finish_loop (take (ns_PacketCount s) (ns_PacketBuffer s)) pool = Inr pool'"
    "lan_sess_inv (s\<lparr>ns_PacketCount := 0, ns_TotalByteSize := 0, ns_IsSendingAtomic := 0\<rparr>)"
    "\<And>n. others (s\<lparr>ns_PacketCount := 0, ns_TotalByteSize := 0, ns_IsSendingAtomic := n\<rparr>) pool' = others s pool"
    "\<And>n. lan_refs_ok (s\<lparr>ns_PacketCount := 0, ns_TotalByteSize := 0, ns_IsSendingAtomic := n\<rparr>) pool'"
    using finish_loop_session [OF inv refs one_neq_zero] by blast
  then show ?thesis using that [of pool'] by (simp add: LanSession_FinishSending_def)
qed

text \<open>Release drops every reference the session holds and no other.\<close>

lemma LanSession_TryRelease_ok:
  assumes inv: "lan_sess_inv s" and refs: "lan_refs_ok s pool" and live: "ns_IsReleasedAtomic s = 0" "ns_IOCountAtomic s = 0"
    and sock: "ns_mIsCloseSocket s = 0 \<or> IsClosed s \<and> ns_mSocket s = None"
  obtains s' pool' where "LanSession_TryRelease s pool =
      Inr (s', pool', if ns_mIsCloseSocket s = 0 then [ns_mSocket s] else [], True)"
    "lan_sess_inv (s'\<lparr>ns_IsSendingAtomic := 0\<rparr>)" "lan_refs_ok s' pool'"
    "session_refs s' = []" "others s' pool' = others s pool" "ns_mSessionID s' = 0" "ns_mSocket s' = None"
    "IsClosed s'" "IsReleased s'" "ns_IOCountAtomic s' = 0"
proof -
  let ?s0 = "s\<lparr>ns_IsReleasedAtomic := 1, ns_IOCountAtomic := 0\<rparr>"
  define s1 where "s1 = ?s0\<lparr>ns_mIsCloseSocket := 1, ns_mSocket := None\<rparr>"
  have c: "LanSession_CancelationIO ?s0 = (s1, if ns_mIsCloseSocket s = 0 then [ns_mSocket s] else [])"
    using sock by (auto simp: LanSession_CancelationIO_def s1_def IsClosed_def)
  have "others s1 = others s" "lan_sess_inv s1" using inv
    by (auto simp: s1_def others_def session_refs_def sending_def fun_eq_iff sess_inv_def)
  moreover from this(1) have "lan_refs_ok s1 pool" using refs by (simp add: refs_in_def)
  ultimately have k1: "lan_sess_inv s1" "lan_refs_ok s1 pool" "others s1 = others s" by blast+
  obtain pool1 where f: "LanSession_FinishSending s1 pool =
      Inr (s1\<lparr>ns_PacketCount := 0, ns_TotalByteSize := 0, ns_IsSendingAtomic := ns_IsSendingAtomic s1 - 1\<rparr>, pool1)"
    "lan_sess_inv (s1\<lparr>ns_PacketCount := 0, ns_TotalByteSize := 0, ns_IsSendingAtomic := 0\<rparr>)"
    "\<And>n. others (s1\<lparr>ns_PacketCount := 0, ns_TotalByteSize := 0, ns_IsSendingAtomic := n\<rparr>) pool1 = others s1 pool"
    "\<And>n. lan_refs_ok (s1\<lparr>ns_PacketCount := 0, ns_TotalByteSize := 0, ns_IsSendingAtomic := n\<rparr>) pool1"
    using LanSession_FinishSending_ok [OF k1(1,2)] by blast
  let ?s2 = "\<lambda>n. s1\<lparr>ns_PacketCount := 0, ns_TotalByteSize := 0, ns_IsSendingAtomic := n\<rparr>"
  obtain q pool' where d: "drain_loop (nat (q_mUsedSize (ns_mSendQueue (?s2 0)))) (ns_mSendQueue (?s2 0)) pool1 = Inr (q, pool')"
    "lan_sess_inv (?s2 0\<lparr>ns_mSendQueue := q\<rparr>)" "queue_list q = []" "lan_refs_ok (?s2 0\<lparr>ns_mSendQueue := q\<rparr>) pool'"
    "others (?s2 0\<lparr>ns_mSendQueue := q\<rparr>) pool' = others (?s2 0) pool1"
    using drain_loop_session [OF f(2) f(4) [of 0]] by blast
  define s' where "s' = s1\<lparr>ns_PacketCount := 0, ns_TotalByteSize := 0, ns_IsSendingAtomic := ns_IsSendingAtomic s1 - 1,
    ns_mSendQueue := q, ns_mSessionID := 0\<rparr>"
  have r: "session_refs s' = []" "session_refs (?s2 0\<lparr>ns_mSendQueue := q\<rparr>) = []"
    using d(3) by (simp_all add: session_refs_def sending_def s'_def)
  then have o: "others s' pool' = others s pool"
    using d(5) f(3) [of 0] k1(3) by (simp add: others_def fun_eq_iff)
  have "LanSession_TryRelease s pool = Inr (s', pool', if ns_mIsCloseSocket s = 0 then [ns_mSocket s] else [], True)"
    using live c f(1) d(1) by (simp add: LanSession_TryRelease_def LanSession_Release_def s'_def)
  moreover have "lan_sess_inv (s'\<lparr>ns_IsSendingAtomic := 0\<rparr>)" using d(2) by (simp add: sess_inv_def s'_def)
  moreover have "lan_refs_ok s' pool'" using d(4) o refs by (simp add: refs_in_def)
  ultimately show ?thesis
    by (rule that) (use r(1) o in \<open>simp_all add: s'_def s1_def IsClosed_def IsReleased_def\<close>)
qed

lemma LanSession_TryRelease_busy:
  "ns_IsReleasedAtomic s \<noteq> 0 \<or> ns_IOCountAtomic s \<noteq> 0 \<Longrightarrow> LanSession_TryRelease s pool = Inr (s, pool, [], False)"
  by (auto simp: LanSession_TryRelease_def)

end
