(* ===== verification/Lan_Core.thy ===== *)
theory Lan_Core
  imports Core_State Lan_Session
begin

text \<open>
  \<^verbatim>\<open>LanSessionManager\<close> and \<^verbatim>\<open>LanCore\<close> (\<^verbatim>\<open>LanSessionManager.cpp\<close>, \<^verbatim>\<open>LanCore.cpp\<close>, \<^verbatim>\<open>LanCore_ThreadNetworkAccept.cpp\<close>,
  \<^verbatim>\<open>LanCore_ThreadNetworkIO.cpp\<close>): the server for trusted networks. Packets have a header of two bytes, the length, and are
  neither encoded nor checked. In contrast to \<^verbatim>\<open>NetCore\<close>, a session pointer is pinned only where a function takes an I/O
  count by itself, \<^verbatim>\<open>Disconnect\<close> releases a session at once or not at all, and no exception of the event handler is caught.

  \<^verbatim>\<open>SendPacket\<close> and the receive loop bracket the posting of a send and the callback with \<^verbatim>\<open>mProfiler.Begin\<close> and \<^verbatim>\<open>mProfiler.End\<close>. These calls
  are left out here and modelled in \<open>Profiler\<close>; \<open>lan_profiling_safe\<close> says when they cannot fail, and \<open>ninth_thread\<close> how they do.
  Asserts are compiled out, as in \<^verbatim>\<open>Net_Core\<close>. The two callbacks about worker threads are left out, they have no session.
\<close>

subsection \<open>Socket options\<close>

text \<open>\<^verbatim>\<open>LanCore\<close> leaves the receive buffer of the socket alone and does not ask for keep-alive.\<close>

definition LanCore_ApplySocketOption :: "sockopt_replies \<Rightarrow> ServerComponentOption \<Rightarrow> eServerComponentError option" where
  "LanCore_ApplySocketOption r option =
     (if \<not> sr_sndbuf r then Some Fail_setsockopt
      else if \<not> sr_linger r then Some Fail_setsockopt
      else if \<not> sr_nodelay r then Some Fail_setsockopt
      else None)"

subsection \<open>State\<close>

record 'w lan_core = "(SessionState, 'w) core_state" +
  lc_mSessionUIDAcc :: u32

text \<open>\<^verbatim>\<open>OnReceived\<close> may change the packet; an exception that leaves a callback is the error.\<close>

record 'w ILanCoreEvent =
  le_OnConnectionRequested :: "string \<Rightarrow> u16 \<Rightarrow> 'w lan_core \<Rightarrow> bool"
  le_OnConnected :: "u64 \<Rightarrow> 'w lan_core \<Rightarrow> 'w lan_core res"
  le_OnReceived :: "u64 \<Rightarrow> nat \<Rightarrow> Packet \<Rightarrow> 'w lan_core \<Rightarrow> (Packet \<times> 'w lan_core) res"
  le_OnSent :: "u64 \<Rightarrow> nat \<Rightarrow> 'w lan_core \<Rightarrow> 'w lan_core res"
  le_OnDisconnected :: "u64 \<Rightarrow> 'w lan_core \<Rightarrow> 'w lan_core res"

text \<open>The sockets that an operation of a session closed, in the history.\<close>

definition log_closed :: "nat option list \<Rightarrow> 'w lan_core \<Rightarrow> 'w lan_core" where
  "log_closed socks s = fold (\<lambda>sock. put_log (Closesocket sock)) socks s"

definition LanCore_CancelationIO :: "nat \<Rightarrow> 'w lan_core \<Rightarrow> 'w lan_core" where
  "LanCore_CancelationIO i s = (let (v, closed) = LanSession_CancelationIO (ses s i) in log_closed closed (set_ses i v s))"

text \<open>A request on \<^verbatim>\<open>INVALID_SOCKET\<close> is answered with \<^verbatim>\<open>WSAENOTSOCK\<close>.\<close>

definition WSAENOTSOCK :: int where
  "WSAENOTSOCK = 10038"

definition wsa_on :: "nat option \<Rightarrow> wsa_reply \<Rightarrow> wsa_reply" where
  "wsa_on sock reply = (if sock = None then WSA_Error WSAENOTSOCK else reply)"

subsection \<open>LanSessionManager\<close>

fun lan_create_loop :: "nat \<Rightarrow> u64 \<Rightarrow> nat \<Rightarrow> SessionState list res" where
  "lan_create_loop garbage uid 0 = Inr []"
| "lan_create_loop garbage uid (Suc n) =
     rbind (LanSession_Create garbage uid) (\<lambda>v. rbind (lan_create_loop garbage uid n) (\<lambda>vs. Inr (v # vs)))"

fun lan_push_loop :: "nat list \<Rightarrow> nat LockFreeStack \<Rightarrow> nat LockFreeStack res" where
  "lan_push_loop [] unused = Inr unused"
| "lan_push_loop (i # is) unused = rbind (Stack_Push unused i) (\<lambda>(unused, _). lan_push_loop is unused)"

text \<open>Deleting a session releases it.\<close>

fun lan_cleanup_loop :: "SessionState list \<Rightarrow> PacketPool \<Rightarrow> (PacketPool \<times> nat option list) res" where
  "lan_cleanup_loop [] pool = Inr (pool, [])"
| "lan_cleanup_loop (v # vs) pool =
     rbind (LanSession_Release v pool) (\<lambda>(_, pool, closed).
     rbind (lan_cleanup_loop vs pool) (\<lambda>(pool, closed'). Inr (pool, closed @ closed')))"

definition LanManager_Cleanup :: "'w lan_core \<Rightarrow> 'w lan_core res" where
  "LanManager_Cleanup s =
     rbind (lan_cleanup_loop (nc_mSessionPool s) (nc_send s)) (\<lambda>(pool, closed).
     rbind (Stack_Clear (nc_mUnusedSession s)) (\<lambda>unused.
       Inr (log_closed closed (s\<lparr>nc_mSessionPool := [], nc_send := pool, nc_mUnusedSession := unused\<rparr>))))"

definition LanManager_Init :: "nat \<Rightarrow> u64 \<Rightarrow> u32 \<Rightarrow> 'w lan_core \<Rightarrow> 'w lan_core res" where
  "LanManager_Init garbage uid n s =
     rbind (LanManager_Cleanup s) (\<lambda>s.
     rbind (Stack_Init (unat n) (nc_mUnusedSession s)) (\<lambda>unused.
     rbind (lan_create_loop garbage uid (unat n)) (\<lambda>sessions.
     rbind (lan_push_loop [0..<unat n] unused) (\<lambda>unused.
       Inr (s\<lparr>nc_mSessionPool := sessions, nc_mUnusedSession := unused\<rparr>)))))"

text \<open>The result is never null, and its id is not looked at.\<close>

definition LanManager_FindSessionOrNull :: "u64 \<Rightarrow> 'w lan_core \<Rightarrow> nat res" where
  "LanManager_FindSessionOrNull sid s =
     (let index = unat (SessionIndex sid) in
      if length (nc_mSessionPool s) \<le> index then Inl MemFault else Inr index)"

text \<open>
  The loop of \<^verbatim>\<open>GenUniqueSessionID\<close> passes over 0 and over the \<^verbatim>\<open>UID\<close> that the session has, so three rounds are enough. The
  accumulator has 32 bits, although an id has room for 48.
\<close>

fun lan_uid_loop :: "nat \<Rightarrow> u64 \<Rightarrow> u32 \<Rightarrow> (u32 \<times> u64) res" where
  "lan_uid_loop 0 prev acc = Inl Spin"
| "lan_uid_loop (Suc fuel) prev acc =
     (let acc = acc + 1; uid = ucast acc AND uid_mask in
      if uid \<noteq> 0 \<and> uid \<noteq> prev then Inr (acc, uid) else lan_uid_loop fuel prev acc)"

text \<open>When no session is unused, \<^verbatim>\<open>TryPop\<close> leaves the index 0 in place.\<close>

definition LanManager_GenUniqueSessionID :: "'w lan_core \<Rightarrow> ('w lan_core \<times> u64) res" where
  "LanManager_GenUniqueSessionID s =
     rbind (Stack_TryPop (nc_mUnusedSession s)) (\<lambda>(unused, r).
       let index = (case r of None \<Rightarrow> 0 | Some i \<Rightarrow> i) in
       if length (nc_mSessionPool s) \<le> index then Inl MemFault
       else
         rbind (lan_uid_loop 3 (SessionUID (ns_mSessionID (ses s index))) (lc_mSessionUIDAcc s)) (\<lambda>(acc, uid).
           Inr (s\<lparr>nc_mUnusedSession := unused, lc_mSessionUIDAcc := acc\<rparr>, GenSessionID (of_nat index) uid)))"

definition LanManager_NewSessionOrNull :: "nat \<Rightarrow> string \<Rightarrow> u16 \<Rightarrow> nat \<Rightarrow> 'w lan_core \<Rightarrow> ('w lan_core \<times> nat) res" where
  "LanManager_NewSessionOrNull sock address port garbage s =
     rbind (LanManager_GenUniqueSessionID s) (\<lambda>(s, sessionID).
       let i = unat (SessionIndex sessionID) in
       if length (nc_mSessionPool s) \<le> i then Inl MemFault
       else
         rbind (LanSession_Init sessionID sock address port garbage (ses s i)) (\<lambda>v.
           Inr ((set_ses i v s)\<lparr>nc_mConnectedSessionCount := nc_mConnectedSessionCount s + 1\<rparr>, i)))"

definition LanManager_TryReleaseSession :: "nat \<Rightarrow> 'w lan_core \<Rightarrow> ('w lan_core \<times> bool) res" where
  "LanManager_TryReleaseSession i s =
     (let index = unat (SessionIndex (ns_mSessionID (ses s i))) in
      rbind (LanSession_TryRelease (ses s i) (nc_send s)) (\<lambda>(v, pool, closed, isSuccessRelease).
      let s = log_closed closed ((set_ses i v s)\<lparr>nc_send := pool\<rparr>) in
      if \<not> isSuccessRelease then Inr (s, False)
      else
        rbind (Stack_Push (nc_mUnusedSession s) index) (\<lambda>(unused, isPush).
        if \<not> isPush then Inl LogicError
        else Inr (s\<lparr>nc_mUnusedSession := unused, nc_mConnectedSessionCount := nc_mConnectedSessionCount s - 1\<rparr>, True))))"

definition LanManager_DecrementIO :: "nat \<Rightarrow> 'w lan_core \<Rightarrow> 'w lan_core \<times> int" where
  "LanManager_DecrementIO i s =
     (let n = ns_IOCountAtomic (ses s i) - 1 in (set_ses i ((ses s i)\<lparr>ns_IOCountAtomic := n\<rparr>) s, n))"

subsection \<open>Releasing\<close>

definition LanCore_TryRemoveSession :: "'w ILanCoreEvent \<Rightarrow> nat \<Rightarrow> 'w lan_core \<Rightarrow> ('w lan_core \<times> bool) res" where
  "LanCore_TryRemoveSession ev i s =
     (let sessionID = ns_mSessionID (ses s i) in
      rbind (LanManager_TryReleaseSession i s) (\<lambda>(s, ok).
      if \<not> ok then Inr (s, False)
      else rbind (le_OnDisconnected ev sessionID (put_log (OnDisconnected sessionID) s)) (\<lambda>s. Inr (s, True))))"

text \<open>The statement \<^verbatim>\<open>if (mSessionManager->DecrementIO(session) <= 0) TryRemoveSession(session);\<close>.\<close>

definition give_up_io :: "'w ILanCoreEvent \<Rightarrow> nat \<Rightarrow> 'w lan_core \<Rightarrow> 'w lan_core res" where
  "give_up_io ev i s =
     (let (s, n) = LanManager_DecrementIO i s in
      if n \<le> 0 then rbind (LanCore_TryRemoveSession ev i s) (\<lambda>(s, _). Inr s) else Inr s)"

definition LanCore_Disconnect :: "'w ILanCoreEvent \<Rightarrow> u64 \<Rightarrow> 'w lan_core \<Rightarrow> ('w lan_core \<times> bool) res" where
  "LanCore_Disconnect ev sid s =
     rbind (LanManager_FindSessionOrNull sid s) (\<lambda>i.
       if ns_mSessionID (ses s i) \<noteq> sid then Inr (s, False) else LanCore_TryRemoveSession ev i s)"

subsection \<open>Sending\<close>

definition LanCore_SendPost :: "'w ILanCoreEvent \<Rightarrow> wsa_reply \<Rightarrow> nat \<Rightarrow> 'w lan_core \<Rightarrow> ('w lan_core \<times> bool) res" where
  "LanCore_SendPost ev reply i s =
     rbind (LanSession_ReadySending (ses s i) (nc_send s)) (\<lambda>(v, buffers).
       let s = set_ses i v s in
       case buffers of
         None \<Rightarrow> Inr (s, False)
       | Some bufs \<Rightarrow>
           let s = fst (IncrementIO i s) in
           if wsa_posted (wsa_on (ns_mSocket (ses s i)) reply)
           then Inr (s\<lparr>nc_sends := (nc_sends s)(i := nc_sends s i + 1), nc_mSendCountPerSec := nc_mSendCountPerSec s + 1\<rparr>, True)
           else rbind (give_up_io ev i s) (\<lambda>s. Inr (s, False)))"

definition set_packet_header :: "nat \<Rightarrow> 'w lan_core \<Rightarrow> 'w lan_core res" where
  "set_packet_header a s =
     (case pp_objs (nc_send s) a of
        None \<Rightarrow> Inl DeadObject
      | Some p \<Rightarrow>
          rbind (SetHeader p (le_bytes 2 (GetBodySize p))) (\<lambda>p.
            Inr (s\<lparr>nc_send := (nc_send s)\<lparr>pp_objs := (pp_objs (nc_send s))(a \<mapsto> p)\<rparr>\<rparr>)))"

definition LanCore_SendPacket :: "'w ILanCoreEvent \<Rightarrow> wsa_reply \<Rightarrow> u64 \<Rightarrow> nat \<Rightarrow> 'w lan_core \<Rightarrow> ('w lan_core \<times> bool) res" where
  "LanCore_SendPacket ev reply sid a s =
     rbind (LanManager_FindSessionOrNull sid s) (\<lambda>i.
       if ns_mSessionID (ses s i) \<noteq> sid then Inr (s, False)
       else if IsReleased (ses s i) then Inr (s, False)
       else
         let (s, increment) = IncrementIO i s in
         rbind (if increment = 1 then Inr (s, False)
                else if ns_mSessionID (ses s i) = sid then
                  rbind (set_packet_header a s) (\<lambda>s.
                  rbind (LanSession_Enqueue (ses s i) (nc_send s) a) (\<lambda>(v, pool, isEnqueue).
                  let s = (set_ses i v s)\<lparr>nc_send := pool\<rparr> in
                  if isEnqueue then LanCore_SendPost ev reply i s else Inr (s, False)))
                else Inr (s, False)) (\<lambda>(s, isSent).
         rbind (give_up_io ev i s) (\<lambda>s. Inr (s, isSent))))"

definition LanCore_NetworkSendCompleted :: "'w ILanCoreEvent \<Rightarrow> wsa_reply \<Rightarrow> nat \<Rightarrow> nat \<Rightarrow> 'w lan_core \<Rightarrow> 'w lan_core res" where
  "LanCore_NetworkSendCompleted ev reply i transferred s =
     rbind (LanSession_FinishSending (ses s i) (nc_send s)) (\<lambda>(v, pool).
     let s = (set_ses i v s)\<lparr>nc_send := pool\<rparr>; sid = ns_mSessionID (ses s i) in
     rbind (le_OnSent ev sid transferred (put_log (OnSent sid transferred) s)) (\<lambda>s.
     rbind (LanCore_SendPost ev reply i s) (\<lambda>(s, _). Inr s)))"

subsection \<open>Receiving\<close>

text \<open>
  The buffers that \<^verbatim>\<open>RecvPost\<close> hands to \<^verbatim>\<open>WSARecv\<close>. That the queue has room is only asserted: a full queue gives one buffer of
  length 0.
\<close>

definition lan_recv_buffers :: "RingBuffer \<Rightarrow> (nat \<times> nat) list" where
  "lan_recv_buffers rb =
     (let directSize = GetDirectEnqueueSize rb; enqueableSize = GetEnquableSize rb in
      if directSize = enqueableSize then [(rb_mWriteIndex rb, directSize)]
      else [(rb_mWriteIndex rb, directSize), (0, sz_sub enqueableSize directSize)])"

definition lan_kernel_fill :: "RingBuffer \<Rightarrow> byte list \<Rightarrow> RingBuffer res" where
  "lan_kernel_fill rb xs =
     rbind (scatter (lan_recv_buffers rb) xs (rb_mBuffer rb)) (\<lambda>buf. Inr (rb\<lparr>rb_mBuffer := buf\<rparr>))"

definition LanCore_RecvPost :: "'w ILanCoreEvent \<Rightarrow> wsa_reply \<Rightarrow> nat \<Rightarrow> 'w lan_core \<Rightarrow> 'w lan_core res" where
  "LanCore_RecvPost ev reply i s =
     (let s = fst (IncrementIO i s) in
      if wsa_posted (wsa_on (ns_mSocket (ses s i)) reply)
      then Inr (s\<lparr>nc_recvs := (nc_recvs s)(i := nc_recvs s i + 1)\<rparr>)
      else give_up_io ev i s)"

text \<open>
  One packet: the header is taken out of the queue, the body goes straight into the packet's buffer behind the header.
  \<^verbatim>\<open>MoveBodyWritePos\<close> may move less than asked for.
\<close>

definition lan_recv_packet ::
    "'w ILanCoreEvent \<Rightarrow> nat \<Rightarrow> (nat \<Rightarrow> byte list) \<Rightarrow> nat \<Rightarrow> nat \<Rightarrow> 'w lan_core \<Rightarrow> 'w lan_core res" where
  "lan_recv_packet ev t mem i len s =
     (let (queue, _) = RingBuffer_MoveRead (ns_mRecvQueue (ses s i)) LanHeaderSize in
      rbind (Pool_Alloc LanHeaderSize LAN_PACKET_BODY_CAPACITY t mem (nc_recv s)) (\<lambda>(pool, a).
      rbind (RingBuffer_Dequeue queue len) (\<lambda>(queue, bytes, dequeuedSize).
      case pp_objs pool a of None \<Rightarrow> Inl DeadObject | Some p \<Rightarrow>
      rbind (mem_write (pk_mBuffer p) (pk_mBodyBegin p) bytes) (\<lambda>buf.
      let (p, _) = MoveBodyWritePos (p\<lparr>pk_mBuffer := buf\<rparr>) dequeuedSize;
          s = (set_ses i ((ses s i)\<lparr>ns_mRecvQueue := queue\<rparr>) s)\<lparr>nc_recv := pool\<lparr>pp_objs := (pp_objs pool)(a \<mapsto> p)\<rparr>\<rparr>;
          sid = ns_mSessionID (ses s i)
      in
      rbind (le_OnReceived ev sid a p (put_log (OnReceived sid (pk_body p)) s)) (\<lambda>(p, s).
      rbind (TryFreePacket ((nc_recv s)\<lparr>pp_objs := (pp_objs (nc_recv s))(a \<mapsto> p)\<rparr>) a) (\<lambda>(pool, _).
        Inr (s\<lparr>nc_recv := pool, nc_mRecvCountPerSec := nc_mRecvCountPerSec s + 1\<rparr>)))))))"

text \<open>
  Every round takes at least the header out of the queue, so the number of queued bytes plus one bounds the number of rounds.
  The result says whether another receive is posted.
\<close>

fun lan_recv_loop ::
    "'w ILanCoreEvent \<Rightarrow> nat \<Rightarrow> (nat \<Rightarrow> byte list) \<Rightarrow> nat \<Rightarrow> nat \<Rightarrow> 'w lan_core \<Rightarrow> ('w lan_core \<times> bool) res" where
  "lan_recv_loop ev t mem i 0 s = Inl Spin"
| "lan_recv_loop ev t mem i (Suc fuel) s =
     (let queue = ns_mRecvQueue (ses s i); usedSize = GetUsedSize queue in
      if usedSize < LanHeaderSize then Inr (s, True)
      else
        rbind (RingBuffer_Peek queue LanHeaderSize) (\<lambda>(header, _).
        if unat (no_MaxPacketBodyLength (nc_option s)) < le_nat header then Inr (LanCore_CancelationIO i s, False)
        else if usedSize < LanHeaderSize + le_nat header then Inr (s, True)
        else rbind (lan_recv_packet ev t mem i (le_nat header) s) (lan_recv_loop ev t mem i fuel)))"

declare lan_recv_loop.simps [simp del]

definition LanCore_NetworkRecvCompleted ::
    "'w ILanCoreEvent \<Rightarrow> nat \<Rightarrow> (nat \<Rightarrow> byte list) \<Rightarrow> wsa_reply \<Rightarrow> nat \<Rightarrow> nat \<Rightarrow> 'w lan_core \<Rightarrow> 'w lan_core res" where
  "LanCore_NetworkRecvCompleted ev t mem reply i transferred s =
     (let (queue, movedSize) = RingBuffer_MoveWrite (ns_mRecvQueue (ses s i)) transferred;
          s = set_ses i ((ses s i)\<lparr>ns_mRecvQueue := queue\<rparr>) s
      in if movedSize < transferred then Inr (LanCore_CancelationIO i s)
         else rbind (lan_recv_loop ev t mem i (Suc (rb_mUsedSize queue)) s) (\<lambda>(s, isPost).
           if isPost then LanCore_RecvPost ev reply i s else Inr s))"

subsection \<open>Accepting\<close>

text \<open>
  A connection that the handler refuses is forgotten; its socket stays open. When the socket cannot be attached to the
  completion port, the handler is told of the disconnection of a session that was never connected. An address that cannot
  be printed is the empty string.
\<close>

definition LanCore_CreateSessionOrNull :: "'w ILanCoreEvent \<Rightarrow> accept_env \<Rightarrow> 'w lan_core \<Rightarrow> ('w lan_core \<times> nat option) res" where
  "LanCore_CreateSessionOrNull ev a s =
     (let ipAddr = (case ae_addr a of None \<Rightarrow> [] | Some ip \<Rightarrow> ip);
          s = put_log (OnConnectionRequested ipAddr (ae_port a)) s
      in if \<not> le_OnConnectionRequested ev ipAddr (ae_port a) s then Inr (s, None)
         else
           rbind (LanManager_NewSessionOrNull (ae_sock a) ipAddr (ae_port a) (ae_garbage a) s) (\<lambda>(s, i).
           if \<not> ae_port_created a then rbind (LanCore_TryRemoveSession ev i s) (\<lambda>(s, _). Inr (s, None))
           else
             let sid = ns_mSessionID (ses s i) in
             rbind (le_OnConnected ev sid (put_log (OnConnected sid) s)) (\<lambda>s. Inr (s, Some i))))"

text \<open>One round of the accept loop; \<open>None\<close> when \<^verbatim>\<open>accept\<close> failed, which ends the thread.\<close>

definition LanCore_NetworkAcceptThread_step :: "'w ILanCoreEvent \<Rightarrow> accept_env option \<Rightarrow> 'w lan_core \<Rightarrow> ('w lan_core \<times> bool) res" where
  "LanCore_NetworkAcceptThread_step ev accepted s =
     (case accepted of
        None \<Rightarrow> Inr (s, False)
      | Some a \<Rightarrow>
          let s = s\<lparr>nc_mAcceptTotal := nc_mAcceptTotal s + 1, nc_mAcceptCountPerSec := nc_mAcceptCountPerSec s + 1\<rparr> in
          if LanCore_ApplySocketOption (ae_opts a) (nc_option s) \<noteq> None
          then Inr (put_log (Closesocket (Some (ae_sock a))) s, True)
          else
            rbind (LanCore_CreateSessionOrNull ev a s) (\<lambda>(s, r).
              case r of
                None \<Rightarrow> Inr (s, True)
              | Some i \<Rightarrow> rbind (LanCore_RecvPost ev (ae_recv a) i s) (\<lambda>s. Inr (s, True))))"

subsection \<open>Completions\<close>

definition LAN_ERROR_ABANDONED_WAIT_0 :: int where
  "LAN_ERROR_ABANDONED_WAIT_0 = 735"

text \<open>One round of the I/O thread's loop; the result says whether the thread goes on.\<close>

definition LanCore_NetworkIOThread_step ::
    "'w ILanCoreEvent \<Rightarrow> nat \<Rightarrow> (nat \<Rightarrow> byte list) \<Rightarrow> completion \<Rightarrow> 'w lan_core \<Rightarrow> ('w lan_core \<times> bool) res" where
  "LanCore_NetworkIOThread_step ev t mem c s =
     (if \<not> cp_isSuccess c \<and> cp_overlapped c = None then
        if cp_lastError c = LAN_ERROR_ABANDONED_WAIT_0 then Inr (s, False) else Inl CrashDumped
      else case cp_session c of
        None \<Rightarrow> Inl NullDeref
      | Some i \<Rightarrow>
          rbind (if \<not> cp_isSuccess c \<or> cp_transferred c = 0 then Inr s
                 else if cp_overlapped c = Some RecvOverlapped
                 then LanCore_NetworkRecvCompleted ev t mem (cp_reply c) i (cp_transferred c) s
                 else if cp_overlapped c = Some SendOverlapped
                 then LanCore_NetworkSendCompleted ev (cp_reply c) i (cp_transferred c) s
                 else Inr s) (\<lambda>s.
          rbind (give_up_io ev i s) (\<lambda>s. Inr (s, True))))"

subsection \<open>Start\<close>

definition LanCore_Start ::
    "bool \<Rightarrow> start_replies \<Rightarrow> nat \<Rightarrow> u64 \<Rightarrow> ServerComponentOption \<Rightarrow> 'w lan_core \<Rightarrow>
     ('w lan_core \<times> eServerComponentError option \<times> nat) res" where
  "LanCore_Start hasEventHandler r garbage uid option s =
     (if \<not> ValidateOption option then Inr (s, Some InvalidOption, 0)
      else if \<not> hasEventHandler then Inr (s, Some NeedToRegisterEventHandler, 0)
      else
        rbind (LanManager_Init garbage uid (so_MaxSessionCount option) (s\<lparr>nc_option := option\<rparr>)) (\<lambda>s.
        Inr (s,
          (if \<not> st_startup r then Some Fail_WSAStartup
           else if \<not> st_iocp r then Some Fail_CreateIoCompletionPort_IOHandle
           else if \<not> st_socket r then Some Fail_socket_serverSock
           else if \<not> st_sndbuf r then Some Fail_setsockopt
           else if \<not> st_bind r then Some Fail_bind_serverSock
           else if \<not> st_listen r then Some Fail_listen_serverSock
           else None),
          if st_startup r \<and> st_iocp r \<and> st_socket r \<and> st_sndbuf r \<and> st_bind r \<and> st_listen r
          then unat (so_NetworkIOThreadCount option) else 0)))"

text \<open>One round of the monitor thread.\<close>

definition LanCore_MonitorRefreshThread_step :: "'w lan_core \<Rightarrow> 'w lan_core \<times> MonitorInfo" where
  "LanCore_MonitorRefreshThread_step s = (reset_counters s, read_counters s)"

text \<open>The core before \<^verbatim>\<open>Start\<close>; the packet pools are the process-wide ones.\<close>

definition lan_create :: "u64 \<Rightarrow> PacketPool \<Rightarrow> PacketPool \<Rightarrow> 'w \<Rightarrow> 'w lan_core" where
  "lan_create uid send recv world =
     \<lparr>nc_mSessionPool = [], nc_mUnusedSession = Stack_Create uid, nc_mConnectedSessionCount = 0,
      nc_send = send, nc_recv = recv, nc_option = default_option, nc_mRecvCountPerSec = 0, nc_mSendCountPerSec = 0,
      nc_mAcceptTotal = 0, nc_mAcceptCountPerSec = 0, nc_recvs = (\<lambda>_. 0), nc_sends = (\<lambda>_. 0), nc_log = [],
      nc_world = world, lc_mSessionUIDAcc = 0\<rparr>"

end
