(* ===== verification/Lan_Core_Inv.thy ===== *)
theory Lan_Core_Inv
  imports Lan_Core
begin

text \<open>
  The invariant of \<^verbatim>\<open>LanCore\<close>: its sessions are of the class \<open>lan_class\<close>, whose laws the interpretation discharges; every
  operation keeps the invariant, whatever the operating system answers, or ends in an exception.
\<close>

subsection \<open>The class of sessions\<close>

text \<open>\<^verbatim>\<open>CancelationIO\<close> closes the socket together with the flag; a released session may have sent once too little.\<close>

definition lan_class :: "SessionState session_class" where
  "lan_class = \<lparr>sc_inv = \<lambda>i v. if ns_IsReleasedAtomic v = 0
       then lan_sess_inv v \<and> (ns_mIsCloseSocket v = 0 \<and> ns_mSocket v \<noteq> None \<or> IsClosed v \<and> ns_mSocket v = None)
       else lan_sess_inv (v\<lparr>ns_IsSendingAtomic := 0\<rparr>),
     sc_tHeaderSize = 2, sc_tBodyCapacity = 2000\<rparr>"

lemma lan_class_simps [simp]:
  "sc_inv lan_class i v \<longleftrightarrow> (if ns_IsReleasedAtomic v = 0
       then lan_sess_inv v \<and> (ns_mIsCloseSocket v = 0 \<and> ns_mSocket v \<noteq> None \<or> IsClosed v \<and> ns_mSocket v = None)
       else lan_sess_inv (v\<lparr>ns_IsSendingAtomic := 0\<rparr>))"
  "sc_tHeaderSize lan_class = 2" "sc_tBodyCapacity lan_class = 2000"
  by (simp_all add: lan_class_def)

interpretation lan: io_sessions lan_class
  by unfold_locales (simp add: sess_inv_def IsClosed_def)

abbreviation lan_base :: "'w app \<Rightarrow> (nat \<Rightarrow> nat) \<Rightarrow> nat set \<Rightarrow> 'w lan_core \<Rightarrow> bool" where
  "lan_base \<equiv> core_base_in lan_class"

abbreviation lan_inv :: "'w app \<Rightarrow> (nat \<Rightarrow> nat) \<Rightarrow> nat set \<Rightarrow> 'w lan_core \<Rightarrow> bool" where
  "lan_inv \<equiv> core_inv_in lan_class"

text \<open>The exceptions that end the process: a handler may also let a \<^verbatim>\<open>PacketReaderException\<close> escape.\<close>

abbreviation lok :: "('a \<Rightarrow> bool) \<Rightarrow> 'a res \<Rightarrow> bool" where
  "lok \<equiv> rok_in {InvalidArgument, CrashDumped, ReaderException}"

abbreviation lan_keeps :: "'w app \<Rightarrow> (nat \<Rightarrow> nat) \<Rightarrow> nat set \<Rightarrow> 'w lan_core \<Rightarrow> 'w lan_core \<Rightarrow> bool" where
  "lan_keeps K x W s s' \<equiv> lan_inv K x W s' \<and> core_frame s s'"

lemmas lan_inv_def = core_inv_in_def [of lan_class]
lemmas lan_invD = lan.core_invD [unfolded lan_class_simps(2,3)]
lemmas lan_inv_change = lan.core_inv_change [unfolded lan_class_simps]
lemmas lan_inv_refs = lan.core_inv_refs_ok [unfolded lan_class_simps]

lemma lan_session_base:
  assumes "lan_base K x W s" "i < length (nc_mSessionPool s)" "live s i"
  shows "lan_sess_inv (ses s i)" "ns_mIsCloseSocket (ses s i) = 0 \<and> ns_mSocket (ses s i) \<noteq> None \<or> IsClosed (ses s i) \<and> ns_mSocket (ses s i) = None"
    "ns_IOCountAtomic (ses s i) = int (x i + nc_recvs s i + nc_sends s i)" "nc_recvs s i \<le> 1" "nc_sends s i \<le> 1"
    "nc_sends s i = 1 \<Longrightarrow> ns_IsSendingAtomic (ses s i) \<noteq> 0" "lan_refs_ok (ses s i) (nc_send s)" "ns_IsReleasedAtomic (ses s i) = 0"
  using lan.slot_inD [OF lan.core_baseD(1) [OF assms(1,2)]] lan.core_base_refs_ok [OF assms(1,2)] assms(3) by (simp_all add: live_def)

lemmas lan_session = lan_session_base [OF lan_inv_def [THEN iffD1, THEN conjunct1]]

lemma lan_released:
  assumes "lan_inv K x W s" "i < length (nc_mSessionPool s)" "\<not> live s i"
  shows "ns_IsReleasedAtomic (ses s i) = 1" "ns_mSocket (ses s i) = None" "ns_mSessionID (ses s i) = 0"
    "ns_IOCountAtomic (ses s i) = 0" "session_refs (ses s i) = []" "lan_sess_inv ((ses s i)\<lparr>ns_IsSendingAtomic := 0\<rparr>)"
    "IsClosed (ses s i)"
  using lan_invD(1) [OF assms(1,2)] assms(3) by (auto simp: slot_in_def live_def)

subsection \<open>The event handler\<close>

definition lan_handlers_ok :: "'w app \<Rightarrow> 'w ILanCoreEvent \<Rightarrow> bool" where
  "lan_handlers_ok K ev \<longleftrightarrow>
     (\<forall>x W s sid. lan_inv K x W s \<and> unat (SessionIndex sid) < length (nc_mSessionPool s) \<longrightarrow>
        lok (lan_keeps K x W s) (le_OnConnected ev sid s) \<and>
        lok (lan_keeps K x W s) (le_OnDisconnected ev sid s) \<and>
        (\<forall>n. lok (lan_keeps K x W s) (le_OnSent ev sid n s)))"

lemma lan_handlers_okD:
  assumes "lan_handlers_ok K ev" "lan_inv K x W s" "unat (SessionIndex sid) < length (nc_mSessionPool s)"
  shows "lok (lan_keeps K x W s) (le_OnConnected ev sid s)"
    and "lok (lan_keeps K x W s) (le_OnDisconnected ev sid s)"
    and "lok (lan_keeps K x W s) (le_OnSent ev sid n s)"
  using assms unfolding lan_handlers_ok_def by blast+

text \<open>
  An application as a whole: \<open>I n\<close> is the invariant of its state when the pool has \<open>n\<close> sessions. It may hold references to
  packets of the send pool during a callback, but not between two.
\<close>

abbreviation lan_app :: "(nat \<Rightarrow> int) \<Rightarrow> (nat \<Rightarrow> 'w \<Rightarrow> bool) \<Rightarrow> 'w app" where
  "lan_app m I \<equiv> \<lparr>ap_refs = m, ap_ok = I\<rparr>"

definition lan_app_ok :: "(nat \<Rightarrow> 'w \<Rightarrow> bool) \<Rightarrow> 'w ILanCoreEvent \<Rightarrow> bool" where
  "lan_app_ok I ev \<longleftrightarrow>
     (\<forall>m. lan_handlers_ok (lan_app m I) ev) \<and>
     (\<forall>m x W s sid a p. lan_inv (lan_app m I) x W s \<and> unat (SessionIndex sid) < length (nc_mSessionPool s) \<and>
        lan_packet p \<and> pk_mRefCount p = 1 \<longrightarrow>
        lok (\<lambda>(p', s'). lan_packet p' \<and> 1 \<le> pk_mRefCount p' \<and> lan_keeps (lan_app m I) x W s s') (le_OnReceived ev sid a p s))"

lemma lan_app_okD:
  "lan_app_ok I ev \<Longrightarrow> lan_handlers_ok (lan_app m I) ev"
  "lan_app_ok I ev \<Longrightarrow> lan_inv (lan_app m I) x W s \<Longrightarrow> unat (SessionIndex sid) < length (nc_mSessionPool s) \<Longrightarrow>
     lan_packet p \<Longrightarrow> pk_mRefCount p = 1 \<Longrightarrow>
     lok (\<lambda>(p', s'). lan_packet p' \<and> 1 \<le> pk_mRefCount p' \<and> lan_keeps (lan_app m I) x W s s') (le_OnReceived ev sid a p s)"
  by (simp_all add: lan_app_ok_def)

subsection \<open>The history of closed sockets\<close>

lemma log_closed_simps [simp]:
  "log_closed [] s = s" "log_closed [sock] s = put_log (Closesocket sock) s"
  by (simp_all add: log_closed_def)

lemma session_log_closesocket: "log_ok s \<Longrightarrow> session_log sid (nc_log s @ [Closesocket sock]) = session_log sid (nc_log s)"
  by (simp add: log_ok_def session_log_snoc)

lemma set_ses_self [simp]: "set_ses i (ses s i) s = s"
  by (simp add: set_ses_def ses_def)

subsection \<open>Releasing a session\<close>

lemma LanManager_TryReleaseSession_ok:
  assumes base: "lan_base K x (insert i W) s" and i: "i < length (nc_mSessionPool s)" "live s i"
    and io: "x i + nc_recvs s i + nc_sends s i = 0"
  shows "\<exists>s'. LanManager_TryReleaseSession i s = Inr (s', True) \<and> lan_base K x W s' \<and> core_frame s s' \<and> \<not> live s' i \<and>
    (\<forall>j. j \<noteq> i \<longrightarrow> ses s' j = ses s j) \<and>
    nc_log s' = nc_log s @ (if ns_mIsCloseSocket (ses s i) = 0 then [Closesocket (ns_mSocket (ses s i))] else [])"
proof -
  note d = lan_session_base [OF base i]
  have "length (nc_mSessionPool s) \<le> 65536" using base by (simp add: core_base_in_def Let_def)
  then have idx: "unat (SessionIndex (ns_mSessionID (ses s i))) = i"
    using lan.slot_id(1) [OF lan.core_baseD(1) [OF base i(1)] d(8)] i(1) by simp
  define closed where "closed = (if ns_mIsCloseSocket (ses s i) = 0 then [ns_mSocket (ses s i)] else [])"
  obtain v pool where t: "LanSession_TryRelease (ses s i) (nc_send s) = Inr (v, pool, closed, True)"
    "lan_sess_inv (v\<lparr>ns_IsSendingAtomic := 0\<rparr>)" "lan_refs_ok v pool" "session_refs v = []"
    "others v pool = others (ses s i) (nc_send s)" "ns_mSessionID v = 0" "ns_mSocket v = None"
    "IsClosed v" "IsReleased v" "ns_IOCountAtomic v = 0"
    using LanSession_TryRelease_ok [OF d(1,7,8)] d(2,3) io unfolding closed_def by auto
  have v: "sc_inv lan_class i v" using t(2,9) by (simp add: IsReleased_def)
  obtain u where u: "Stack_Push (nc_mUnusedSession s) i = Inr (u, True)"
    "\<And>s'. nc_mSessionPool s' = (nc_mSessionPool s)[i := v] \<Longrightarrow> nc_send s' = pool \<Longrightarrow> nc_mUnusedSession s' = u \<Longrightarrow>
      nc_mConnectedSessionCount s' = nc_mConnectedSessionCount s - 1 \<Longrightarrow> nc_recvs s' = nc_recvs s \<Longrightarrow> nc_sends s' = nc_sends s \<Longrightarrow>
      nc_recv s' = nc_recv s \<Longrightarrow> nc_option s' = nc_option s \<Longrightarrow> nc_world s' = nc_world s \<Longrightarrow>
      lan_base K x W s' \<and> core_frame s s' \<and> \<not> live s' i \<and> (\<forall>j. j \<noteq> i \<longrightarrow> ses s' j = ses s j)"
    using lan.core_base_released [OF base i io v] t(3-10) by auto
  define s' where "s' = (log_closed closed ((set_ses i v s)\<lparr>nc_send := pool\<rparr>))
    \<lparr>nc_mUnusedSession := u, nc_mConnectedSessionCount := nc_mConnectedSessionCount s - 1\<rparr>"
  have "lan_base K x W s' \<and> core_frame s s' \<and> \<not> live s' i \<and> (\<forall>j. j \<noteq> i \<longrightarrow> ses s' j = ses s j)"
    by (rule u(2)) (simp_all add: s'_def closed_def put_log_def set_ses_def)
  moreover have "LanManager_TryReleaseSession i s = Inr (s', True)"
    using t(1) u(1) idx
    by (simp add: LanManager_TryReleaseSession_def s'_def closed_def put_log_def set_ses_def Let_def)
  moreover have "nc_log s' = nc_log s @ (if ns_mIsCloseSocket (ses s i) = 0 then [Closesocket (ns_mSocket (ses s i))] else [])"
    by (simp add: s'_def closed_def put_log_def set_ses_def)
  ultimately show ?thesis by blast
qed

text \<open>A session with I/O under way, or one that is released already, stays as it is.\<close>

lemma LanCore_TryRemoveSession_busy:
  "ns_IsReleasedAtomic (ses s i) \<noteq> 0 \<or> ns_IOCountAtomic (ses s i) \<noteq> 0 \<Longrightarrow> LanCore_TryRemoveSession ev i s = Inr (s, False)"
  by (simp add: LanCore_TryRemoveSession_def LanManager_TryReleaseSession_def LanSession_TryRelease_busy Let_def)

lemma LanCore_TryRemoveSession_ok:
  assumes ev: "lan_handlers_ok K ev" and inv: "lan_inv K x (insert i W) s" and i: "i < length (nc_mSessionPool s)" "live s i"
    and io: "x i + nc_recvs s i + nc_sends s i = 0"
  shows "lok (\<lambda>(s', ok). ok \<and> lan_keeps K x W s s' \<and> \<not> live s' i) (LanCore_TryRemoveSession ev i s)"
proof -
  obtain s1 where s1: "LanManager_TryReleaseSession i s = Inr (s1, True)" "lan_base K x W s1" "core_frame s s1" "\<not> live s1 i"
    "\<forall>j. j \<noteq> i \<longrightarrow> ses s1 j = ses s j" "nc_log s1 = nc_log s @ (if ns_mIsCloseSocket (ses s i) = 0 then [Closesocket (ns_mSocket (ses s i))] else [])"
    using LanManager_TryReleaseSession_ok [OF lan_inv_def [THEN iffD1, THEN conjunct1, OF inv] i io] by blast
  have log: "session_log sid (nc_log s1) = session_log sid (nc_log s)" for sid
    using session_log_closesocket [of s] inv s1(6) by (simp add: lan_inv_def)
  let ?sid = "ns_mSessionID (ses s i)" let ?s2 = "put_log (OnDisconnected ?sid) s1"
  have "log_ok ?s2"
    by (rule lan.log_ok_gone [of K x "insert i W" s i s1]) (use inv i s1(3-5) log in \<open>simp_all add: lan_inv_def core_frame_def\<close>)
  then have k: "lan_inv K x W ?s2" using s1(2) by (simp add: lan_inv_def)
  have n: "unat (SessionIndex ?sid) < length (nc_mSessionPool ?s2)"
    using lan.live_index [OF inv i] i(1) s1(3) by (simp add: core_frame_def)
  have dead: "\<not> live s3 i" if "core_frame ?s2 s3" for s3
    using that s1(3,4) i(1) by (auto simp: core_frame_def)
  have "core_frame s ?s2" using s1(3) by simp
  then have "lok (\<lambda>(s', ok). ok \<and> lan_keeps K x W s s' \<and> \<not> live s' i) (rbind (le_OnDisconnected ev ?sid ?s2) (\<lambda>s. Inr (s, True)))"
    by (intro rok_bind [OF lan_handlers_okD(2) [OF ev k n]]) (use core_frame_trans dead in auto)
  then show ?thesis using s1(1) by (simp add: LanCore_TryRemoveSession_def Let_def)
qed

lemma give_up_io_ok:
  assumes ev: "lan_handlers_ok K ev" and inv: "lan_inv K x W s" and i: "i < length (nc_mSessionPool s)" "0 < x i"
  shows "lok (\<lambda>s'. lan_keeps K (x(i := x i - 1)) W s s' \<and> (x i + nc_recvs s i + nc_sends s i = 1 \<longrightarrow> \<not> live s' i))
    (give_up_io ev i s)"
proof -
  let ?io = "x i + nc_recvs s i + nc_sends s i"
  let ?s1 = "set_ses i ((ses s i)\<lparr>ns_IOCountAtomic := int ?io - 1\<rparr>) s"
  have l: "live s i" by (rule lan.core_inv_live [OF inv i])
  have dec: "LanManager_DecrementIO i s = (?s1, int ?io - 1)"
    using lan_session(3) [OF inv i(1) l] by (simp add: LanManager_DecrementIO_def Let_def)
  show ?thesis
  proof (cases "?io = 1")
    case False
    then have "1 < ?io" using i(2) by linarith
    then show ?thesis using dec lan.dec_keeps [OF inv i] by (simp add: give_up_io_def)
  next
    case True
    have k: "lan_inv K (x(i := x i - 1)) (insert i W) ?s1" "core_frame s ?s1"
      using lan.dec_keeps [OF lan.core_inv_mono [OF inv, of "insert i W"] i] by auto
    have l1: "i < length (nc_mSessionPool ?s1)" "live ?s1 i" "(x(i := x i - 1)) i + nc_recvs ?s1 i + nc_sends ?s1 i = 0"
      using l True i by (auto simp: live_def)
    have "lok (\<lambda>s'. lan_keeps K (x(i := x i - 1)) W s s' \<and> (?io = 1 \<longrightarrow> \<not> live s' i))
      (rbind (LanCore_TryRemoveSession ev i ?s1) (\<lambda>(s, _). Inr s))"
      by (rule rok_bind [OF LanCore_TryRemoveSession_ok [OF ev k(1) l1]]) (use core_frame_trans [OF k(2)] in \<open>auto simp del: fun_upd_apply\<close>)
    then show ?thesis using dec True by (simp add: give_up_io_def)
  qed
qed

subsection \<open>Closing and posting\<close>

lemma lan_cancel_ok:
  assumes inv: "lan_inv K x W s" and i: "i < length (nc_mSessionPool s)" "live s i"
  shows "lan_inv K x W (LanCore_CancelationIO i s)" "length (nc_mSessionPool (LanCore_CancelationIO i s)) = length (nc_mSessionPool s)"
    "nc_recv (LanCore_CancelationIO i s) = nc_recv s"
proof -
  note d = lan_session [OF inv i]
  let ?s' = "LanCore_CancelationIO i s"
  show "lan_inv K x W ?s'"
  proof (cases "ns_mIsCloseSocket (ses s i) = 0")
    case True
    let ?v = "(ses s i)\<lparr>ns_mIsCloseSocket := 1, ns_mSocket := None\<rparr>"
    have e: "?s' = put_log (Closesocket (ns_mSocket (ses s i))) (set_ses i ?v s)"
      using True by (simp add: LanCore_CancelationIO_def LanSession_CancelationIO_def)
    have "others ?v = others (ses s i)" "lan_sess_inv ?v"
      using d(1) by (auto simp: others_def session_refs_def sending_def fun_eq_iff sess_inv_def)
    then have "lan_inv K x W (set_ses i ?v s)"
      by (intro lan_inv_change(1) [OF inv i, of ?v])
        (use d lan_invD(3,4) [OF inv i(1)] in \<open>simp_all add: set_ses_def IsClosed_def\<close>)
    then show ?thesis unfolding e by (rule lan.core_inv_closesocket)
  next
    case False
    then show ?thesis using inv by (simp add: LanCore_CancelationIO_def LanSession_CancelationIO_def)
  qed
  show "length (nc_mSessionPool ?s') = length (nc_mSessionPool s)" "nc_recv ?s' = nc_recv s"
    by (simp_all add: LanCore_CancelationIO_def LanSession_CancelationIO_def)
qed

lemma LanCore_SendPost_ok:
  assumes ev: "lan_handlers_ok K ev" and inv: "lan_inv K x W s" and i: "i < length (nc_mSessionPool s)" "0 < x i"
  shows "lok (\<lambda>(s', _). lan_keeps K x W s s') (LanCore_SendPost ev reply i s)"
proof -
  have l: "live s i" by (rule lan.core_inv_live [OF inv i])
  note d = lan_session [OF inv i(1) l]
  note p = lan_invD(3,4) [OF inv i(1)]
  consider "LanSession_ReadySending (ses s i) (nc_send s) = Inl InvalidArgument"
    | "LanSession_ReadySending (ses s i) (nc_send s) = Inr (ses s i, None)"
    | v out where "LanSession_ReadySending (ses s i) (nc_send s) = Inr (v, Some out)" "lan_sess_inv v"
      "others v (nc_send s) = others (ses s i) (nc_send s)" "ns_IsSendingAtomic (ses s i) = 0" "ns_IsSendingAtomic v = 1"
      "v = (ses s i)\<lparr>ns_mSendQueue := ns_mSendQueue v, ns_PacketBuffer := ns_PacketBuffer v,
             ns_PacketCount := ns_PacketCount v, ns_TotalByteSize := ns_TotalByteSize v, ns_IsSendingAtomic := 1\<rparr>"
    using LanSession_ReadySending_cases [OF d(1,7)] by blast
  then show ?thesis
  proof cases
    case 1
    then show ?thesis by (simp add: LanCore_SendPost_def)
  next
    case 2
    then show ?thesis using inv by (simp add: LanCore_SendPost_def)
  next
    case 3
    let ?s1 = "set_ses i v s" let ?s2 = "fst (IncrementIO i ?s1)"
    have v: "ns_IsReleasedAtomic v = 0" "ns_mSocket v = ns_mSocket (ses s i)" "ns_mIsCloseSocket v = ns_mIsCloseSocket (ses s i)"
      "ns_mSessionID v = ns_mSessionID (ses s i)" "ns_IOCountAtomic v = ns_IOCountAtomic (ses s i)"
      "ns_mRecvQueue v = ns_mRecvQueue (ses s i)"
      using d(8) by (subst 3(6), simp)+
    have k1: "lan_inv K x W ?s1" "core_frame s ?s1"
      by (rule lan_inv_change [OF inv i(1) l, of v]; use 3(2,3,5) v d(2,8) p in \<open>simp add: set_ses_def IsClosed_def\<close>)+
    have l1: "i < length (nc_mSessionPool ?s1)" "live ?s1 i" using i v(1) by (simp_all add: live_def)
    note k2 = lan.IncrementIO_ok [OF k1(1) l1]
    have fr: "core_frame s ?s2" by (rule core_frame_trans [OF k1(2) k2(2)])
    have sel: "i < length (nc_mSessionPool ?s2)" "nc_sends ?s2 = nc_sends s" "nc_recvs ?s2 = nc_recvs s" "live ?s2 i"
      "ns_IsSendingAtomic (ses ?s2 i) = 1"
      using i l1(2) 3(5) by (simp_all add: IncrementIO_def Let_def live_def)
    have w0: "nc_sends s i = 0" using d(5,6) 3(4) by (cases "nc_sends s i") auto
    have rel: "lok (\<lambda>(s', _). lan_keeps K x W s s') (rbind (give_up_io ev i ?s2) (\<lambda>s. Inr (s, b)))" for b :: bool
      by (rule rok_bind [OF give_up_io_ok [OF ev k2(1) sel(1)]]) (use core_frame_trans [OF fr] in auto)
    let ?s3 = "?s2\<lparr>nc_sends := (nc_sends ?s2)(i := nc_sends ?s2 i + 1), nc_mSendCountPerSec := nc_mSendCountPerSec ?s2 + 1\<rparr>"
    have "lan_inv K x W ?s3"
      by (rule lan.core_inv_post [OF k2(1) sel(1,4)]) (use sel w0 d(4) in auto)
    moreover have "core_frame s ?s3" using fr by (simp add: core_frame_def live_def ses_def)
    ultimately show ?thesis using 3(1) rel by (simp add: LanCore_SendPost_def Let_def)
  qed
qed

text \<open>
  The caller pins the session, or it is new. A session that was released meanwhile stays released: its socket is invalid.
\<close>

lemma LanCore_RecvPost_ok:
  assumes ev: "lan_handlers_ok K ev" and inv: "lan_inv K x (insert i W) s" and i: "i < length (nc_mSessionPool s)" "live s i"
    and r0: "nc_recvs s i = 0"
  shows "lok (\<lambda>s'. lan_inv K x W s' \<and> length (nc_mSessionPool s') = length (nc_mSessionPool s) \<and> nc_option s' = nc_option s)
    (LanCore_RecvPost ev reply i s)"
proof -
  let ?s1 = "fst (IncrementIO i s)"
  note k = lan.IncrementIO_ok [OF inv i]
  have k1: "lan_inv K (x(i := x i + 1)) W ?s1" by (rule lan.core_inv_shrink [OF k(1)]) simp
  have sel: "i < length (nc_mSessionPool ?s1)" "nc_sends ?s1 = nc_sends s" "nc_recvs ?s1 = nc_recvs s" "live ?s1 i"
    "length (nc_mSessionPool ?s1) = length (nc_mSessionPool s)" "ns_IsSendingAtomic (ses ?s1 i) = ns_IsSendingAtomic (ses s i)"
    "nc_option ?s1 = nc_option s"
    using i by (simp_all add: IncrementIO_def Let_def live_def)
  have rel: "lok (\<lambda>s'. lan_inv K x W s' \<and> length (nc_mSessionPool s') = length (nc_mSessionPool s) \<and> nc_option s' = nc_option s)
      (give_up_io ev i ?s1)"
    by (rule rok_mono [OF give_up_io_ok [OF ev k1 sel(1)]]) (use sel in \<open>auto simp: core_frame_def\<close>)
  have "lan_inv K x W (?s1\<lparr>nc_recvs := (nc_recvs ?s1)(i := nc_recvs ?s1 i + 1)\<rparr>)"
    by (rule lan.core_inv_post [OF k1 sel(1,4)]) (use sel r0 lan_session(5,6) [OF inv i] in auto)
  then show ?thesis using rel sel(5,7) by (simp add: LanCore_RecvPost_def Let_def)
qed

lemma LanCore_RecvPost_released:
  assumes inv: "lan_inv K x W s" and i: "i < length (nc_mSessionPool s)" "\<not> live s i"
  shows "LanCore_RecvPost ev reply i s = Inr s"
proof -
  note d = lan_released [OF inv i]
  have "(ses s i)\<lparr>ns_IOCountAtomic := 0\<rparr> = ses s i" using d(4) by simp
  then have same: "set_ses i ((ses s i)\<lparr>ns_IOCountAtomic := 0\<rparr>) s = s" by simp
  have twice: "set_ses i v (set_ses i w s) = set_ses i v s" for v w by (simp add: set_ses_def)
  have "LanCore_TryRemoveSession ev i s = Inr (s, False)" using d(1) by (simp add: LanCore_TryRemoveSession_busy)
  then show ?thesis
    using d(2,4) i same twice
    by (simp add: LanCore_RecvPost_def Let_def IncrementIO_def wsa_on_def wsa_posted_def WSAENOTSOCK_def WSA_IO_PENDING_def
        give_up_io_def LanManager_DecrementIO_def)
qed

subsection \<open>SendPacket and Disconnect\<close>

lemma SetHeader_lan:
  assumes "lan_packet p"
  obtains p' where "SetHeader p (le_bytes 2 n) = Inr p'" "lan_packet p'" "pk_mRefCount p' = pk_mRefCount p" "pk_body p' = pk_body p"
    "p' = p\<lparr>pk_mBuffer := le_bytes 2 n @ drop 2 (pk_mBuffer p)\<rparr>"
proof -
  let ?p' = "p\<lparr>pk_mBuffer := le_bytes 2 n @ drop 2 (pk_mBuffer p)\<rparr>"
  have p: "pk_tHeaderSize p = 2" "length (pk_mBuffer p) = 2002" "pk_mBodyBegin p = 2"
    using assms by (auto simp: packet_kind_def pk_inv_def)
  have "SetHeader p (le_bytes 2 n) = Inr ?p'" using p by (simp add: SetHeader_def mem_read_def mem_write_def numeral_2_eq_2)
  moreover have "lan_packet ?p'" using assms p by (simp add: packet_kind_def pk_inv_def)
  moreover have "pk_body ?p' = pk_body p" using p by (simp add: pk_body_def GetBodySize_def)
  ultimately show ?thesis using that [of ?p'] by simp
qed

lemma set_packet_header_ok:
  assumes inv: "lan_inv K x W s" and i: "i < length (nc_mSessionPool s)" and a: "0 < pp_refs (nc_send s) a"
  obtains s' where "set_packet_header a s = Inr s'" "lan_inv K x W s'" "core_frame s s'" "pp_refs (nc_send s') = pp_refs (nc_send s)"
    "nc_mSessionPool s' = nc_mSessionPool s" "ses s' = ses s"
proof -
  note p = lan_invD(3,4) [OF inv i]
  obtain q where q: "pp_objs (nc_send s) a = Some q" using a by (auto simp: pp_refs_def split: option.splits)
  then have "lan_packet q" using p(1) by (simp add: pool_inv_def)
  then obtain q' where q': "SetHeader q (le_bytes 2 (GetBodySize q)) = Inr q'" "lan_packet q'" "pk_mRefCount q' = pk_mRefCount q"
    by (rule SetHeader_lan)
  let ?s' = "s\<lparr>nc_send := (nc_send s)\<lparr>pp_objs := (pp_objs (nc_send s))(a \<mapsto> q')\<rparr>\<rparr>"
  note r = pool_inv_same_refs [OF p(1) q q'(2,3)]
  have "lan_inv K x W ?s'" by (rule lan.core_inv_sessions [OF inv]) (use r p in simp_all)
  then show ?thesis
    by (intro that [of ?s']) (use q q'(1) r(2) in \<open>simp_all add: set_packet_header_def core_frame_def live_def ses_def fun_eq_iff\<close>)
qed

lemma LanCore_SendPacket_ok:
  fixes ev :: "'w ILanCoreEvent"
  assumes ev: "lan_handlers_ok K ev" and inv: "lan_inv K x W s" and n: "unat (SessionIndex sid) < length (nc_mSessionPool s)"
    and a: "0 < pp_refs (nc_send s) a"
  shows "lok (\<lambda>(s', _). lan_keeps K x W s s') (LanCore_SendPacket ev reply sid a s)"
proof -
  define i where "i = unat (SessionIndex sid)"
  have i: "i < length (nc_mSessionPool s)" using n by (simp add: i_def)
  let ?x = "x(i := x i + 1)"
  let ?enq = "\<lambda>s. rbind (set_packet_header a s) (\<lambda>s.
                  rbind (LanSession_Enqueue (ses s i) (nc_send s) a) (\<lambda>(v, pool, isEnqueue).
                  let s = (set_ses i v s)\<lparr>nc_send := pool\<rparr> in
                  if isEnqueue then LanCore_SendPost ev reply i s else Inr (s, False)))"
  have f: "LanManager_FindSessionOrNull sid s = Inr i" using n by (simp add: LanManager_FindSessionOrNull_def i_def Let_def)
  show ?thesis
  proof (cases "ns_mSessionID (ses s i) = sid \<and> \<not> IsReleased (ses s i)")
    case False
    then show ?thesis using f inv by (auto simp: LanCore_SendPacket_def)
  next
    case True
    then have l: "live s i" using lan.slot_inD(5) [OF lan_invD(1) [OF inv i]] by (auto simp: IsReleased_def live_def)
    obtain s1 c where s1: "IncrementIO i s = (s1, c)" by fastforce
    note k1 = lan.IncrementIO_ok(1,2) [OF inv i l, unfolded s1 fst_conv]
    have i1: "i < length (nc_mSessionPool s1)" "ns_mSessionID (ses s1 i) = sid" "0 < pp_refs (nc_send s1) a"
      using s1 i True a by (auto simp: IncrementIO_def Let_def)
    have fin: "lok (\<lambda>(s', _). lan_keeps K x W s s') (rbind (give_up_io ev i s2) (\<lambda>s. Inr (s, b)))"
      if k: "lan_inv K ?x W s2" "core_frame s s2" for s2 :: "'w lan_core" and b :: bool
    proof -
      have "i < length (nc_mSessionPool s2)" using i k(2) by (simp add: core_frame_def)
      then show ?thesis by (intro rok_bind [OF give_up_io_ok [OF ev k(1)]]) (use core_frame_trans [OF k(2)] in auto)
    qed
    have "lok (\<lambda>(s', _). lan_keeps K ?x W s s') (?enq s1)"
    proof -
      obtain s2 where s2: "set_packet_header a s1 = Inr s2" "lan_inv K ?x W s2" "core_frame s1 s2"
        "pp_refs (nc_send s2) = pp_refs (nc_send s1)"
        by (rule set_packet_header_ok [OF k1(1) i1(1,3)])
      have i2: "i < length (nc_mSessionPool s2)" using i1(1) s2(3) by (simp add: core_frame_def)
      have l2: "live s2 i" by (rule lan.core_inv_live [OF s2(2) i2]) simp
      note d = lan_session [OF s2(2) i2 l2]
      have a2: "0 < pp_refs (nc_send s2) a" using i1(3) s2(4) by simp
      obtain q pool where e: "LanSession_Enqueue (ses s2 i) (nc_send s2) a = Inr ((ses s2 i)\<lparr>ns_mSendQueue := q\<rparr>, pool, True)"
        "lan_sess_inv ((ses s2 i)\<lparr>ns_mSendQueue := q\<rparr>)" "lan_refs_ok ((ses s2 i)\<lparr>ns_mSendQueue := q\<rparr>) pool"
        "others ((ses s2 i)\<lparr>ns_mSendQueue := q\<rparr>) pool = others (ses s2 i) (nc_send s2)"
        using LanSession_Enqueue_ok [OF d(1,7) a2 d(8)] by blast
      let ?v = "(ses s2 i)\<lparr>ns_mSendQueue := q\<rparr>"
      let ?s3 = "(set_ses i ?v s2)\<lparr>nc_send := pool\<rparr>"
      have k3: "lan_inv K ?x W ?s3" "core_frame s2 ?s3"
        by (rule lan_inv_change [OF s2(2) i2 l2, of ?v];
            use e(2-4) d lan_invD(4) [OF s2(2) i2] in \<open>simp add: set_ses_def refs_in_def IsClosed_def\<close>)+
      have f3: "core_frame s ?s3" by (rule core_frame_trans [OF core_frame_trans [OF k1(2) s2(3)] k3(2)])
      have i3: "i < length (nc_mSessionPool ?s3)" using i2 by simp
      have "lok (\<lambda>(s', _). lan_keeps K ?x W s s') (LanCore_SendPost ev reply i ?s3)"
        by (rule rok_mono [OF LanCore_SendPost_ok [OF ev k3(1) i3]]) (use core_frame_trans [OF f3] in auto)
      then show ?thesis using s2(1) e(1) by (simp add: Let_def)
    qed
    then have "lok (\<lambda>(s', _). lan_keeps K ?x W s s') (if c = 1 then Inr (s1, False) else ?enq s1)" using k1 by simp
    then have "lok (\<lambda>(s', _). lan_keeps K x W s s')
      (rbind (if c = 1 then Inr (s1, False) else ?enq s1) (\<lambda>(s, isSent). rbind (give_up_io ev i s) (\<lambda>s. Inr (s, isSent))))"
      (is "lok _ ?r") by (rule rok_bind) (use fin in auto)
    moreover have "LanCore_SendPacket ev reply sid a s = ?r"
      unfolding LanCore_SendPacket_def f rbind_Inr s1 using True i1(2) by (simp only: if_True if_False simp_thms Let_def prod.case)
    ultimately show ?thesis by (simp only:)
  qed
qed

text \<open>\<^verbatim>\<open>Disconnect\<close> releases the session, or does nothing.\<close>

lemma LanCore_Disconnect_busy:
  assumes "lan_inv K x W s" "unat (SessionIndex sid) < length (nc_mSessionPool s)"
    "0 < x (unat (SessionIndex sid)) + nc_recvs s (unat (SessionIndex sid)) + nc_sends s (unat (SessionIndex sid))"
  shows "LanCore_Disconnect ev sid s = Inr (s, False)"
proof -
  let ?i = "unat (SessionIndex sid)"
  have l: "live s ?i" using lan.slot_inD(6) [OF lan_invD(1) [OF assms(1,2)]] assms(3) by (simp add: live_def)
  have "ns_IOCountAtomic (ses s ?i) \<noteq> 0" using lan_session(3) [OF assms(1,2) l] assms(3) by linarith
  then show ?thesis
    using assms(2) by (simp add: LanCore_Disconnect_def LanManager_FindSessionOrNull_def LanCore_TryRemoveSession_busy Let_def)
qed

lemma LanCore_Disconnect_ok:
  assumes ev: "lan_handlers_ok K ev" and inv: "lan_inv K x W s" and n: "unat (SessionIndex sid) < length (nc_mSessionPool s)"
  shows "lok (\<lambda>(s', _). lan_keeps K x W s s') (LanCore_Disconnect ev sid s)"
proof -
  let ?i = "unat (SessionIndex sid)"
  have f: "LanCore_Disconnect ev sid s = (if ns_mSessionID (ses s ?i) \<noteq> sid then Inr (s, False) else LanCore_TryRemoveSession ev ?i s)"
    using n by (simp add: LanCore_Disconnect_def LanManager_FindSessionOrNull_def Let_def)
  consider "\<not> live s ?i" | "live s ?i" "0 < x ?i + nc_recvs s ?i + nc_sends s ?i"
    | "live s ?i" "x ?i + nc_recvs s ?i + nc_sends s ?i = 0" by (metis gr0I)
  then show ?thesis
  proof cases
    case 1
    then show ?thesis using f inv LanCore_TryRemoveSession_busy [of s ?i ev] by (simp add: live_def)
  next
    case 2
    then show ?thesis using LanCore_Disconnect_busy [OF inv n] inv by simp
  next
    case 3
    have "lan_inv K x (insert ?i W) s" by (rule lan.core_inv_mono [OF inv]) blast
    from LanCore_TryRemoveSession_ok [OF ev this n 3] show ?thesis
      using f inv by (auto intro: rok_mono)
  qed
qed

subsection \<open>New sessions\<close>

text \<open>Two values are passed over, 0 and the previous one, so the third candidate is taken at the latest.\<close>

lemma lan_uid_loop_ok: "\<exists>acc' uid. lan_uid_loop 3 prev acc = Inr (acc', uid) \<and> uid \<noteq> 0 \<and> uid \<noteq> prev \<and> uid AND uid_mask = uid"
proof -
  have m: "(ucast (w :: u32) :: u64) AND uid_mask = ucast w" for w
    by (rule bit_word_eqI) (auto simp: bit_simps bit_uid_mask dest: bit_imp_le_length)
  have inj: "(ucast (v :: u32) :: u64) = ucast w \<longleftrightarrow> v = w" for v w
  proof
    assume "(ucast v :: u64) = ucast w"
    then have b: "bit (ucast v :: u64) n = bit (ucast w :: u64) n" for n by simp
    show "v = w"
    proof (rule bit_word_eqI)
      fix n assume "n < LENGTH(32)"
      then show "bit v n = bit w n" using b [of n] by (simp add: bit_simps)
    qed
  qed simp
  have z: "(ucast (w :: u32) :: u64) = 0 \<longleftrightarrow> w = 0" for w using inj [of w 0] by simp
  define P where "P = (\<lambda>w :: u32. w \<noteq> 0 \<and> (ucast w :: u64) \<noteq> prev)"
  have step: "lan_uid_loop (Suc n) prev w = (if P (w + 1) then Inr (w + 1, ucast (w + 1)) else lan_uid_loop n prev (w + 1))" for n w
    unfolding lan_uid_loop.simps Let_def m z P_def by (rule refl)
  have d: "acc + 1 \<noteq> acc + 1 + 1" "acc + 1 \<noteq> acc + 1 + 1 + 1" "acc + 1 + 1 \<noteq> acc + 1 + 1 + 1" by (simp_all add: add.assoc)
  have "P (acc + 1) \<or> P (acc + 1 + 1) \<or> P (acc + 1 + 1 + 1)" using d inj unfolding P_def by metis
  moreover have "P w \<Longrightarrow> (ucast w :: u64) \<noteq> 0 \<and> (ucast w :: u64) \<noteq> prev" for w by (simp add: P_def z)
  ultimately show ?thesis unfolding numeral_3_eq_3 step by (metis m)
qed

lemma lan_uid_acc_sel [simp]:
  "ses (s\<lparr>lc_mSessionUIDAcc := n\<rparr>) = ses s" "live (s\<lparr>lc_mSessionUIDAcc := n\<rparr>) = live s" "log_ok (s\<lparr>lc_mSessionUIDAcc := n\<rparr>) = log_ok s"
  "core_base_in k K x W (s\<lparr>lc_mSessionUIDAcc := n\<rparr>) = core_base_in k K x W s"
  "put_log e (s\<lparr>lc_mSessionUIDAcc := n\<rparr>) = (put_log e s)\<lparr>lc_mSessionUIDAcc := n\<rparr>"
  by (simp_all add: ses_def live_def log_ok_def core_base_in_def held_def put_log_def fun_eq_iff)

lemma LanManager_NewSessionOrNull_ok:
  assumes inv: "lan_inv K x W s" and free: "stack_list (nc_mUnusedSession s) \<noteq> []"
  shows "\<exists>i s'. LanManager_NewSessionOrNull sock address port garbage s = Inr (s', i) \<and> i < length (nc_mSessionPool s') \<and>
       length (nc_mSessionPool s') = length (nc_mSessionPool s) \<and> nc_option s' = nc_option s \<and> \<not> live s i \<and> live s' i \<and>
       lan_base K x (insert i W) s' \<and> log_ok (put_log (OnConnected (ns_mSessionID (ses s' i))) s') \<and>
       x i + nc_recvs s' i + nc_sends s' i = 0 \<and> (\<forall>j. j \<noteq> i \<longrightarrow> ses s' j = ses s j) \<and> nc_log s' = nc_log s \<and>
       ns_mSocket (ses s' i) = Some sock \<and> session_refs (ses s' i) = [] \<and> ns_mIsCloseSocket (ses s' i) = 0 \<and>
       ns_IsSendingAtomic (ses s' i) = 0 \<and> rb_contents (ns_mRecvQueue (ses s' i)) = []"
proof -
  obtain i rest where Cons: "stack_list (nc_mUnusedSession s) = i # rest" using free by (cases "stack_list (nc_mUnusedSession s)") auto
  have st: "stack_inv (length (nc_mSessionPool s)) (nc_mUnusedSession s)" "i < length (nc_mSessionPool s)" "\<not> live s i"
    "length (nc_mSessionPool s) \<le> 65536"
    using inv Cons by (auto simp: lan_inv_def core_base_in_def Let_def)
  obtain u' where u': "Stack_TryPop (nc_mUnusedSession s) = Inr (u', Some i)"
    "stack_inv (length (nc_mSessionPool s)) u'" "stack_list u' = rest"
    using Stack_TryPop_law(2) [OF st(1) Cons] by blast
  obtain acc uid where g: "lan_uid_loop 3 (SessionUID (ns_mSessionID (ses s i))) (lc_mSessionUIDAcc s) = Inr (acc, uid)"
    "uid \<noteq> 0" "uid AND uid_mask = uid"
    using lan_uid_loop_ok by blast
  let ?sid = "GenSessionID (of_nat i) uid"
  have ix: "unat (SessionIndex ?sid) = i" using SessionIndex_Gen_nat [of "of_nat i" uid] st(2,4) by (simp add: unat_of_nat)
  note d = lan_released [OF inv st(2,3)]
  obtain v where v: "LanSession_Init ?sid sock address port garbage (ses s i) = Inr v" "lan_sess_inv v" "session_refs v = []"
    "ns_mSessionID v = ?sid" "ns_IsReleasedAtomic v = 0" "ns_mIsCloseSocket v = 0" "ns_mSocket v = Some sock" "ns_IOCountAtomic v = 0"
    "ns_IsSendingAtomic v = 0" "rb_contents (ns_mRecvQueue v) = []"
    using LanSession_Init_ok [OF d(6,5)] by blast
  let ?s0 = "(set_ses i v s)\<lparr>nc_mUnusedSession := u', nc_mConnectedSessionCount := nc_mConnectedSessionCount s + 1\<rparr>"
  let ?s' = "?s0\<lparr>lc_mSessionUIDAcc := acc\<rparr>"
  have "sc_inv lan_class i v" using v by simp
  note b = lan.core_base_new [OF inv Cons u'(2,3) this v(3) g(2,3) v(4,5,8)]
  have sv: "ses ?s' i = v" using st(2) by (simp add: ses_def set_ses_def)
  have "log_ok (put_log (OnConnected (ns_mSessionID v)) ?s0)"
    by (rule lan.log_ok_connect [OF b(4) _ st(2,3)]) (use inv v(5) in \<open>simp_all add: lan_inv_def set_ses_def\<close>)
  moreover have "LanManager_NewSessionOrNull sock address port garbage s = Inr (?s', i)"
    using u'(1) g(1) v(1) ix st(2)
    by (simp add: LanManager_NewSessionOrNull_def LanManager_GenUniqueSessionID_def Let_def not_le ses_def set_ses_def)
  moreover have "live ?s' i" using v(5) sv by (simp add: live_def)
  moreover have "\<forall>j. j \<noteq> i \<longrightarrow> ses ?s' j = ses s j" by (simp add: ses_def set_ses_def)
  moreover have "nc_log ?s' = nc_log s" "nc_recvs ?s' = nc_recvs s" "nc_sends ?s' = nc_sends s" by (simp_all add: set_ses_def)
  ultimately show ?thesis
    using st b(3,4) v(3,6,7,9,10) sv by (intro exI [of _ i] exI [of _ ?s']) simp
qed

subsection \<open>Accepting\<close>

lemma LanCore_CreateSessionOrNull_ok:
  fixes ev :: "'w ILanCoreEvent"
  assumes ev: "lan_handlers_ok K ev" and inv: "lan_inv K x W s" and free: "stack_list (nc_mUnusedSession s) \<noteq> []" and a: "ae_port_created a"
  shows "lok (\<lambda>(s', r). length (nc_mSessionPool s') = length (nc_mSessionPool s) \<and> nc_option s' = nc_option s \<and>
      (case r of None \<Rightarrow> lan_inv K x W s'
       | Some i \<Rightarrow> i < length (nc_mSessionPool s') \<and> lan_inv K x (insert i W) s' \<and> (live s' i \<longrightarrow> nc_recvs s' i = 0)))
    (LanCore_CreateSessionOrNull ev a s)"
proof -
  let ?P = "\<lambda>(s' :: 'w lan_core, r). length (nc_mSessionPool s') = length (nc_mSessionPool s) \<and> nc_option s' = nc_option s \<and>
      (case r of None \<Rightarrow> lan_inv K x W s'
       | Some i \<Rightarrow> i < length (nc_mSessionPool s') \<and> lan_inv K x (insert i W) s' \<and> (live s' i \<longrightarrow> nc_recvs s' i = 0))"
  define ip where "ip = (case ae_addr a of None \<Rightarrow> [] | Some ip \<Rightarrow> ip)"
  define s1 where "s1 = put_log (OnConnectionRequested ip (ae_port a)) s"
  have k1: "lan_inv K x W s1" "stack_list (nc_mUnusedSession s1) \<noteq> []" "length (nc_mSessionPool s1) = length (nc_mSessionPool s)"
    "nc_option s1 = nc_option s"
    using lan.core_inv_requested [OF inv] free by (simp_all add: s1_def)
  obtain i s2 where n: "LanManager_NewSessionOrNull (ae_sock a) ip (ae_port a) (ae_garbage a) s1 = Inr (s2, i)"
    "i < length (nc_mSessionPool s2)" "length (nc_mSessionPool s2) = length (nc_mSessionPool s1)" "nc_option s2 = nc_option s1"
    "live s2 i" "lan_base K x (insert i W) s2" "log_ok (put_log (OnConnected (ns_mSessionID (ses s2 i))) s2)"
    "x i + nc_recvs s2 i + nc_sends s2 i = 0"
    using LanManager_NewSessionOrNull_ok [OF k1(1,2), of "ae_sock a" ip "ae_port a" "ae_garbage a"]
    by (elim exE conjE) (rule that)
  let ?sid = "ns_mSessionID (ses s2 i)" let ?s3 = "put_log (OnConnected ?sid) s2"
  have k: "lan_inv K x (insert i W) ?s3" using n(6,7) by (simp add: lan_inv_def)
  have idx: "unat (SessionIndex ?sid) < length (nc_mSessionPool ?s3)" using lan.live_index [OF k, of i] n(2,5) by simp
  have "lok ?P (rbind (le_OnConnected ev ?sid ?s3) (\<lambda>s. Inr (s, Some i)))"
    by (rule rok_bind [OF lan_handlers_okD(1) [OF ev k idx]]) (use n k1(3,4) in \<open>auto simp: core_frame_def\<close>)
  then have "lok ?P (LanCore_CreateSessionOrNull ev a s)"
    using n(1) a k1 by (simp add: LanCore_CreateSessionOrNull_def ip_def [symmetric] s1_def [symmetric] Let_def)
  then show ?thesis .
qed

lemma LanCore_NetworkAcceptThread_step_ok:
  fixes ev :: "'w ILanCoreEvent"
  assumes ev: "lan_handlers_ok K ev" and inv: "lan_inv K x W s"
    and accepted: "\<And>a. accepted = Some a \<Longrightarrow> stack_list (nc_mUnusedSession s) \<noteq> [] \<and> ae_port_created a"
  shows "lok (\<lambda>(s', _). lan_inv K x W s' \<and> length (nc_mSessionPool s') = length (nc_mSessionPool s) \<and> nc_option s' = nc_option s)
    (LanCore_NetworkAcceptThread_step ev accepted s)"
proof (cases accepted)
  case None
  then show ?thesis using inv by (simp add: LanCore_NetworkAcceptThread_step_def)
next
  case (Some a)
  let ?s1 = "s\<lparr>nc_mAcceptTotal := nc_mAcceptTotal s + 1, nc_mAcceptCountPerSec := nc_mAcceptCountPerSec s + 1\<rparr>"
  let ?P = "\<lambda>(s', _). lan_inv K x W s' \<and> length (nc_mSessionPool s') = length (nc_mSessionPool s) \<and> nc_option s' = nc_option s"
  have inv1: "lan_inv K x W ?s1"
    by (rule lan.core_inv_sessions [OF inv]) (use inv in \<open>simp_all add: lan_inv_def core_base_in_def Let_def\<close>)
  have c: "lok ?P (rbind (LanCore_CreateSessionOrNull ev a ?s1) (\<lambda>(s, r).
              case r of None \<Rightarrow> Inr (s, True) | Some i \<Rightarrow> rbind (LanCore_RecvPost ev (ae_recv a) i s) (\<lambda>s. Inr (s, True))))"
  proof (rule rok_bind [OF LanCore_CreateSessionOrNull_ok [OF ev inv1]], goal_cases)
    case (3 y)
    obtain s' r where y: "y = (s', r)" by fastforce
    show ?case
    proof (cases r)
      case None
      then show ?thesis using 3 y by simp
    next
      case (Some i)
      then have i: "i < length (nc_mSessionPool s')" "lan_inv K x (insert i W) s'" "live s' i \<Longrightarrow> nc_recvs s' i = 0"
        "length (nc_mSessionPool s') = length (nc_mSessionPool s) \<and> nc_option s' = nc_option s"
        using 3 y by auto
      show ?thesis
      proof (cases "live s' i")
        case True
        then show ?thesis
          using Some y i by (auto intro!: rok_bind [OF LanCore_RecvPost_ok [OF ev i(2,1)]])
      next
        case False
        then show ?thesis
          using Some y i(4) LanCore_RecvPost_released [OF i(2,1) False, of ev "ae_recv a"] lan.core_inv_shrink [OF i(2)] by simp
      qed
    qed
  qed (use accepted [OF Some] in simp_all)
  then show ?thesis
    using Some lan.core_inv_closesocket [OF inv1] by (simp add: LanCore_NetworkAcceptThread_step_def Let_def)
qed

text \<open>The normal case: the connection is told to the handler and waits for its first bytes.\<close>

lemma lan_accept_connects:
  assumes inv: "lan_inv K x W s" and ev: "\<And>sid s. le_OnConnected ev sid s = Inr s" "\<And>ip p s. le_OnConnectionRequested ev ip p s"
    and a: "LanCore_ApplySocketOption (ae_opts a) (nc_option s) = None" "ae_addr a = Some ip" "ae_port_created a" "wsa_posted (ae_recv a)"
    and free: "stack_list (nc_mUnusedSession s) \<noteq> []"
  shows "\<exists>i s'. LanCore_NetworkAcceptThread_step ev (Some a) s = Inr (s', True) \<and> i < length (nc_mSessionPool s) \<and>
    length (nc_mSessionPool s') = length (nc_mSessionPool s) \<and>
    \<not> live s i \<and> live s' i \<and> ns_mSocket (ses s' i) = Some (ae_sock a) \<and> nc_recvs s' i = 1 \<and>
    ns_mIsCloseSocket (ses s' i) = 0 \<and> ns_IsSendingAtomic (ses s' i) = 0 \<and> session_refs (ses s' i) = [] \<and>
    rb_contents (ns_mRecvQueue (ses s' i)) = [] \<and>
    nc_log s' = nc_log s @ [OnConnectionRequested ip (ae_port a), OnConnected (ns_mSessionID (ses s' i))]"
proof -
  let ?s0 = "s\<lparr>nc_mAcceptTotal := nc_mAcceptTotal s + 1, nc_mAcceptCountPerSec := nc_mAcceptCountPerSec s + 1\<rparr>"
  define s1 where "s1 = put_log (OnConnectionRequested ip (ae_port a)) ?s0"
  have "lan_inv K x W ?s0"
    by (rule lan.core_inv_sessions [OF inv]) (use inv in \<open>simp_all add: lan_inv_def core_base_in_def Let_def\<close>)
  then have inv1: "lan_inv K x W s1" unfolding s1_def by (rule lan.core_inv_requested)
  have sel: "stack_list (nc_mUnusedSession s1) \<noteq> []" "live s1 = live s" "length (nc_mSessionPool s1) = length (nc_mSessionPool s)"
    "nc_log s1 = nc_log s @ [OnConnectionRequested ip (ae_port a)]"
    using free by (simp_all add: s1_def ses_def live_def put_log_def fun_eq_iff)
  obtain i s2 where n: "LanManager_NewSessionOrNull (ae_sock a) ip (ae_port a) (ae_garbage a) s1 = Inr (s2, i)"
    "i < length (nc_mSessionPool s2)" "length (nc_mSessionPool s2) = length (nc_mSessionPool s1)" "\<not> live s1 i" "live s2 i"
    "x i + nc_recvs s2 i + nc_sends s2 i = 0" "nc_log s2 = nc_log s1" "ns_mSocket (ses s2 i) = Some (ae_sock a)"
    "session_refs (ses s2 i) = []" "ns_mIsCloseSocket (ses s2 i) = 0" "ns_IsSendingAtomic (ses s2 i) = 0"
    "rb_contents (ns_mRecvQueue (ses s2 i)) = []"
    using LanManager_NewSessionOrNull_ok [OF inv1 sel(1), of "ae_sock a" ip "ae_port a" "ae_garbage a"]
    by (elim exE conjE) (rule that)
  let ?sid = "ns_mSessionID (ses s2 i)"
  let ?s3 = "put_log (OnConnected ?sid) s2"
  let ?s4 = "fst (IncrementIO i ?s3)"
  let ?s5 = "?s4\<lparr>nc_recvs := (nc_recvs ?s4)(i := nc_recvs ?s4 i + 1)\<rparr>"
  have "LanCore_CreateSessionOrNull ev a ?s0 = Inr (?s3, Some i)"
    using a ev n(1) by (simp add: LanCore_CreateSessionOrNull_def s1_def Let_def)
  moreover have v: "ses ?s4 i = (ses s2 i)\<lparr>ns_IOCountAtomic := ns_IOCountAtomic (ses s2 i) + 1\<rparr>"
    using n(2) by (simp add: IncrementIO_def Let_def)
  then have "LanCore_RecvPost ev (ae_recv a) i ?s3 = Inr ?s5"
    using n(8) a(4) by (simp add: LanCore_RecvPost_def wsa_on_def Let_def)
  ultimately have "LanCore_NetworkAcceptThread_step ev (Some a) s = Inr (?s5, True)"
    using a(1) by (simp add: LanCore_NetworkAcceptThread_step_def LanCore_ApplySocketOption_def split: if_splits)
  moreover have s5: "ses ?s5 i = ses ?s4 i" "nc_log ?s5 = nc_log s2 @ [OnConnected ?sid]" "nc_recvs ?s5 i = 1"
    "length (nc_mSessionPool ?s5) = length (nc_mSessionPool s2)"
    using n(6) by (simp_all add: ses_def IncrementIO_def Let_def)
  ultimately show ?thesis
    using n(2-5,7-12) sel v by (intro exI [of _ i] exI [of _ ?s5]) (simp add: live_def)
qed

text \<open>
  The two failures of an accept. A refused connection leaves nothing behind but its socket, which is never closed. When the socket
  cannot be attached to the completion port, the handler is told of the end of a session that it does not know, which
  breaks the order of the callbacks.
\<close>

lemma lan_refused_leaves_socket:
  assumes "LanCore_ApplySocketOption (ae_opts a) (nc_option s) = None" "\<And>ip p s. \<not> le_OnConnectionRequested ev ip p s"
  shows "\<exists>s'. LanCore_NetworkAcceptThread_step ev (Some a) s = Inr (s', True) \<and> nc_mSessionPool s' = nc_mSessionPool s \<and>
    (\<exists>ip. nc_log s' = nc_log s @ [OnConnectionRequested ip (ae_port a)])"
  using assms by (simp add: LanCore_NetworkAcceptThread_step_def LanCore_CreateSessionOrNull_def LanCore_ApplySocketOption_def Let_def split: if_splits)

lemma lan_port_failure_breaks_order:
  assumes inv: "lan_inv K x W s" and free: "stack_list (nc_mUnusedSession s) \<noteq> []"
    and ev: "\<And>ip p s. le_OnConnectionRequested ev ip p s" "\<And>sid s. le_OnDisconnected ev sid s = Inr s"
    and a: "LanCore_ApplySocketOption (ae_opts a) (nc_option s) = None" "\<not> ae_port_created a"
  shows "\<exists>s' sid. LanCore_NetworkAcceptThread_step ev (Some a) s = Inr (s', True) \<and> session_log sid (nc_log s') = None"
proof -
  let ?s0 = "s\<lparr>nc_mAcceptTotal := nc_mAcceptTotal s + 1, nc_mAcceptCountPerSec := nc_mAcceptCountPerSec s + 1\<rparr>"
  define ip where "ip = (case ae_addr a of None \<Rightarrow> [] | Some ip \<Rightarrow> ip)"
  define s1 where "s1 = put_log (OnConnectionRequested ip (ae_port a)) ?s0"
  have "lan_inv K x W ?s0"
    by (rule lan.core_inv_sessions [OF inv]) (use inv in \<open>simp_all add: lan_inv_def core_base_in_def Let_def\<close>)
  then have inv1: "lan_inv K x W s1" unfolding s1_def by (rule lan.core_inv_requested)
  have free1: "stack_list (nc_mUnusedSession s1) \<noteq> []" using free by (simp add: s1_def)
  obtain i s2 where n: "LanManager_NewSessionOrNull (ae_sock a) ip (ae_port a) (ae_garbage a) s1 = Inr (s2, i)"
    "i < length (nc_mSessionPool s2)" "length (nc_mSessionPool s2) = length (nc_mSessionPool s1)" "live s2 i" "lan_base K x (insert i W) s2"
    "log_ok (put_log (OnConnected (ns_mSessionID (ses s2 i))) s2)" "x i + nc_recvs s2 i + nc_sends s2 i = 0" "nc_log s2 = nc_log s1"
    using LanManager_NewSessionOrNull_ok [OF inv1 free1, of "ae_sock a" ip "ae_port a" "ae_garbage a"] by (elim exE conjE) (rule that)
  let ?sid = "ns_mSessionID (ses s2 i)"
  obtain s3 where s3: "LanManager_TryReleaseSession i s2 = Inr (s3, True)"
    "nc_log s3 = nc_log s2 @ (if ns_mIsCloseSocket (ses s2 i) = 0 then [Closesocket (ns_mSocket (ses s2 i))] else [])"
    using LanManager_TryReleaseSession_ok [OF n(5,2,4,7)] by blast
  have "session_log ?sid (nc_log s2 @ [OnConnected ?sid]) \<noteq> None" using n(6) by (simp add: log_ok_def put_log_def)
  then have off: "session_log ?sid (nc_log s2) = Some False"
    by (cases "session_log ?sid (nc_log s2)") (auto simp: session_log_snoc split: if_splits)
  have "session_log ?sid (nc_log s3) = Some False" using s3(2) off by (simp add: session_log_snoc)
  then have "session_log ?sid (nc_log (put_log (OnDisconnected ?sid) s3)) = None" by (simp add: put_log_def session_log_snoc)
  moreover have "LanCore_CreateSessionOrNull ev a ?s0 = Inr (put_log (OnDisconnected ?sid) s3, None)"
    using n(1) s3(1) ev a(2)
    by (simp add: LanCore_CreateSessionOrNull_def LanCore_TryRemoveSession_def ip_def [symmetric] s1_def Let_def)
  then have "LanCore_NetworkAcceptThread_step ev (Some a) s = Inr (put_log (OnDisconnected ?sid) s3, True)"
    using a(1) by (simp add: LanCore_NetworkAcceptThread_step_def LanCore_ApplySocketOption_def split: if_splits)
  ultimately show ?thesis by blast
qed

end
