(* ===== verification/Lan_Recv.thy ===== *)
theory Lan_Recv
  imports Lan_Core_Inv
begin

text \<open>
  The receiving half of \<^verbatim>\<open>LanCore\<close>: the framing protocol on lists of bytes, and \<^verbatim>\<open>NetworkRecvCompleted\<close> as its implementation
  on the ring buffer, the packet pool and the session.
\<close>

subsection \<open>The framing protocol, on lists of bytes\<close>

definition lan_frame :: "byte list \<Rightarrow> byte list" where
  "lan_frame body = le_bytes 2 (length body) @ body"

function lan_frames :: "nat \<Rightarrow> byte list \<Rightarrow> byte list list \<times> byte list \<times> verdict" where
  "lan_frames limit bs =
     (if length bs < 2 then ([], bs, GoOn)
      else
        let len = le_nat (take 2 bs) in
        if limit < len then ([], bs, CloseIt)
        else if length bs < 2 + len then ([], bs, GoOn)
        else case lan_frames limit (drop (2 + len) bs) of (bodies, left, v) \<Rightarrow> (take len (drop 2 bs) # bodies, left, v))"
  by pat_completeness auto

termination lan_frames
  by (relation "measure (length \<circ> snd)") auto

declare lan_frames.simps [simp del]

lemma lan_frames_cat:
  "\<forall>body \<in> set bodies. length body \<le> limit \<and> length body < 65536 \<Longrightarrow> lan_frames limit (concat (map lan_frame bodies)) = (bodies, [], GoOn)"
proof (induction bodies)
  case Nil
  then show ?case by (simp add: lan_frames.simps)
next
  case (Cons body bodies)
  let ?bs = "concat (map lan_frame (body # bodies))"
  have "le_nat (take 2 ?bs) = length body" using Cons.prems by (simp add: lan_frame_def)
  moreover have "take (length body) (drop 2 ?bs) = body" "drop (2 + length body) ?bs = concat (map lan_frame bodies)"
    "length ?bs = 2 + length body + length (concat (map lan_frame bodies))"
    by (simp_all add: lan_frame_def)
  moreover have "\<not> limit < length body" using Cons.prems by simp
  ultimately show ?case using Cons by (subst lan_frames.simps) (simp add: Let_def)
qed

lemma lan_frames_bodies: "lan_frames limit bs = (bodies, left, v) \<Longrightarrow> \<forall>body \<in> set bodies. length body \<le> limit"
proof (induction limit bs arbitrary: bodies left v rule: lan_frames.induct)
  case (1 limit bs)
  show ?case
  proof (cases "length bs < 2 \<or> limit < le_nat (take 2 bs) \<or> length bs < 2 + le_nat (take 2 bs)")
    case True
    then show ?thesis using "1.prems" by (subst (asm) lan_frames.simps) (auto simp: Let_def split: if_splits)
  next
    case False
    obtain bodies' left' v' where r: "lan_frames limit (drop (2 + le_nat (take 2 bs)) bs) = (bodies', left', v')"
      by (cases "lan_frames limit (drop (2 + le_nat (take 2 bs)) bs)") auto
    then have "\<forall>body \<in> set bodies'. length body \<le> limit" using False "1.IH" [OF _ refl _ _ r] by auto
    then show ?thesis using "1.prems" False r by (subst (asm) lan_frames.simps) (auto simp: Let_def)
  qed
qed

text \<open>
  The bodies that the buffer of a packet can take. Longer ones are possible when the option allows them.
\<close>

definition lan_fits :: "nat \<Rightarrow> byte list \<Rightarrow> bool" where
  "lan_fits limit bs \<longleftrightarrow> (\<forall>body \<in> set (fst (lan_frames limit bs)). length body \<le> 2000)"

lemma lan_fits_complete:
  assumes "2 + len \<le> length bs" "len \<le> limit" "len = le_nat (take 2 bs)"
  shows "lan_fits limit bs \<longleftrightarrow> len \<le> 2000 \<and> lan_fits limit (drop (2 + len) bs)"
proof -
  have "lan_frames limit bs = (case lan_frames limit (drop (2 + len) bs) of (bodies, left, v) \<Rightarrow> (take len (drop 2 bs) # bodies, left, v))"
    using assms by (subst lan_frames.simps) (simp add: Let_def)
  moreover have "length (take len (drop 2 bs)) = len" using assms(1) by simp
  ultimately show ?thesis by (simp add: lan_fits_def del: length_take split: prod.splits)
qed

lemma lan_fits_stop: "length bs < 2 \<or> limit < le_nat (take 2 bs) \<or> length bs < 2 + le_nat (take 2 bs) \<Longrightarrow> lan_fits limit bs"
  unfolding lan_fits_def by (subst lan_frames.simps) (auto simp: Let_def)

lemma lan_fits_limit: "limit \<le> 2000 \<Longrightarrow> lan_fits limit bs"
  using lan_frames_bodies [of limit bs] by (cases "lan_frames limit bs") (force simp: lan_fits_def)

subsection \<open>One packet\<close>

abbreviation lan_mem_ok :: "(nat \<Rightarrow> byte list) \<Rightarrow> bool" where
  "lan_mem_ok mem \<equiv> \<forall>a. length (mem a) = 2002"

text \<open>The received bytes in a fresh packet. The end of the body is two bytes early.\<close>

lemma lan_packet_filled:
  assumes p: "lan_packet p" "pk_mWritePos p = 2" "pk_mReadPos p = 2" and bs: "length bs \<le> 2000"
  obtains p' where "mem_write (pk_mBuffer p) (pk_mBodyBegin p) bs = Inr (pk_mBuffer p')"
    "MoveBodyWritePos (p\<lparr>pk_mBuffer := pk_mBuffer p'\<rparr>) (length bs) = (p', min 1998 (length bs))"
    "lan_packet p'" "pk_body p' = take 1998 bs" "pk_unread p' = pk_body p'" "pk_mRefCount p' = pk_mRefCount p"
proof -
  have i: "length (pk_mBuffer p) = 2002" "pk_mBodyBegin p = 2" "pk_mBodyEnd p = 2000" "pk_tHeaderSize p = 2"
    using p(1) by (auto simp: packet_kind_def pk_inv_def)
  let ?p' = "p\<lparr>pk_mBuffer := take 2 (pk_mBuffer p) @ bs @ drop (2 + length bs) (pk_mBuffer p), pk_mWritePos := 2 + min 1998 (length bs)\<rparr>"
  have "mem_write (pk_mBuffer p) (pk_mBodyBegin p) bs = Inr (pk_mBuffer ?p')" using i bs by (simp add: mem_write_def)
  moreover have "MoveBodyWritePos (p\<lparr>pk_mBuffer := pk_mBuffer ?p'\<rparr>) (length bs) = (?p', min 1998 (length bs))"
    using i p by (simp add: MoveBodyWritePos_def sz_sub_def size_lim_def Let_def)
  moreover have n: "lan_packet ?p'" using p i bs by (auto simp: packet_kind_def pk_inv_def)
  moreover have "GetBodySize ?p' = min 1998 (length bs)" using i bs by (simp add: GetBodySize_def sz_sub_def size_lim_def)
  then have "pk_body ?p' = take 1998 bs" using i bs by (simp add: pk_body_def min_def)
  moreover have "pk_unread ?p' = pk_body ?p'" using i p by (intro pk_unread_fresh) simp
  ultimately show ?thesis using that [of ?p'] by simp
qed

text \<open>Everything up to the call of the handler, and what is left to do after it.\<close>

definition after_received :: "nat \<Rightarrow> Packet \<Rightarrow> 'w lan_core \<Rightarrow> 'w lan_core res" where
  "after_received a p s =
     rbind (TryFreePacket ((nc_recv s)\<lparr>pp_objs := (pp_objs (nc_recv s))(a \<mapsto> p)\<rparr>) a) (\<lambda>(pool, _).
       Inr (s\<lparr>nc_recv := pool, nc_mRecvCountPerSec := nc_mRecvCountPerSec s + 1\<rparr>))"

lemma lan_recv_packet_prefix:
  fixes s :: "'w lan_core"
  assumes inv: "lan_inv K x W s" and i: "i < length (nc_mSessionPool s)" "live s i" and mem: "lan_mem_ok mem"
    and len: "2 + len \<le> length (rb_contents (ns_mRecvQueue (ses s i)))" "len \<le> 2000"
  obtains s1 a p where
    "\<And>ev. lan_recv_packet ev t mem i len s =
       rbind (le_OnReceived ev (ns_mSessionID (ses s i)) a p (put_log (OnReceived (ns_mSessionID (ses s i)) (pk_body p)) s1))
         (\<lambda>(p, s). after_received a p s)"
    "lan_inv K x W s1" "pp_objs (nc_recv s1) a = Some p" "lan_packet p" "pk_mRefCount p = 1" "pk_unread p = pk_body p"
    "pk_body p = take 1998 (take len (drop 2 (rb_contents (ns_mRecvQueue (ses s i)))))"
    "rb_contents (ns_mRecvQueue (ses s1 i)) = drop (2 + len) (rb_contents (ns_mRecvQueue (ses s i)))"
    "ns_mSessionID (ses s1 i) = ns_mSessionID (ses s i)" "live s1 i" "ns_mIsCloseSocket (ses s1 i) = ns_mIsCloseSocket (ses s i)"
    "ns_mSocket (ses s1 i) = ns_mSocket (ses s i)" "length (nc_mSessionPool s1) = length (nc_mSessionPool s)"
    "nc_world s1 = nc_world s" "nc_log s1 = nc_log s" "nc_recvs s1 = nc_recvs s" "nc_option s1 = nc_option s"
    "nc_sends s1 = nc_sends s" "ns_IsSendingAtomic (ses s1 i) = ns_IsSendingAtomic (ses s i)"
    "ns_mSendQueue (ses s1 i) = ns_mSendQueue (ses s i)"
proof -
  note d = lan_session [OF inv i]
  let ?q = "ns_mRecvQueue (ses s i)"
  have rb: "rb_inv ?q" "rb_mMaxCapacity ?q = 4086" using d(1) by (auto simp: sess_inv_def)
  obtain q1 m where m: "RingBuffer_MoveRead ?q 2 = (q1, m)" by fastforce
  note q1 = MoveRead_spec [OF rb(1) m]
  have u1: "rb_mUsedSize q1 = length (rb_contents ?q) - 2" by (metis length_rb_contents length_drop q1(3))
  obtain q2 where q2: "RingBuffer_Dequeue q1 len = Inr (q2, take len (rb_contents q1), min len (rb_mUsedSize q1))" "rb_inv q2"
    "rb_contents q2 = drop len (rb_contents q1)" "rb_mMaxCapacity q2 = 4086"
    using Dequeue_spec [OF q1(1), of len] q1(4) rb(2) by auto
  define bytes where "bytes = take len (drop 2 (rb_contents ?q))"
  have b: "take len (rb_contents q1) = bytes" "min len (rb_mUsedSize q1) = length bytes" "length bytes = len"
    using q1(3) u1 len by (simp_all add: bytes_def)
  have kind: "1 \<le> (2 :: nat)" "2 \<le> (2000 :: nat)" "2 + 2000 < size_lim" by (simp_all add: size_lim_def)
  obtain pool a where al: "Pool_Alloc 2 2000 t mem (nc_recv s) = Inr (pool, a)" "lan_pool pool"
    "pp_objs pool = (pp_objs (nc_recv s))(a \<mapsto> (Packet_Initial 2 2000 (mem a))\<lparr>pk_mRefCount := 1\<rparr>)"
    by (rule Pool_Alloc_ok [OF lan_invD(4) [OF inv i(1)] kind, of mem t], simp add: mem, rule that)
  define p0 where "p0 = (Packet_Initial 2 2000 (mem a))\<lparr>pk_mRefCount := 1\<rparr>"
  have p0: "pp_objs pool a = Some p0" "pk_mWritePos p0 = 2" "pk_mReadPos p0 = 2" "pk_mRefCount p0 = 1"
    using al(3) by (simp_all add: p0_def Packet_Initial_def)
  then have lp0: "lan_packet p0" using al(2) by (simp add: pool_inv_def)
  obtain p where p: "mem_write (pk_mBuffer p0) (pk_mBodyBegin p0) bytes = Inr (pk_mBuffer p)"
    "MoveBodyWritePos (p0\<lparr>pk_mBuffer := pk_mBuffer p\<rparr>) (length bytes) = (p, min 1998 (length bytes))"
    "lan_packet p" "pk_body p = take 1998 bytes" "pk_unread p = pk_body p" "pk_mRefCount p = pk_mRefCount p0"
    using lan_packet_filled [OF lp0 p0(2,3), of bytes] b(3) len(2) by auto
  let ?v = "(ses s i)\<lparr>ns_mRecvQueue := q2\<rparr>"
  define s1 where "s1 = (set_ses i ?v s)\<lparr>nc_recv := pool\<lparr>pp_objs := (pp_objs pool)(a \<mapsto> p)\<rparr>\<rparr>"
  have np: "lan_pool (pool\<lparr>pp_objs := (pp_objs pool)(a \<mapsto> p)\<rparr>)"
    by (rule pool_inv_same_refs(1) [OF al(2) p0(1) p(3,6)])
  have "others ?v = others (ses s i)" "lan_sess_inv ?v"
    using d(1) q2(2,4) by (auto simp: others_def session_refs_def sending_def fun_eq_iff sess_inv_def)
  then have "lan_inv K x W s1" unfolding s1_def
    by (intro lan_inv_change(1) [OF inv i, of ?v]) (use d np lan_invD(3) [OF inv i(1)] in \<open>simp_all add: set_ses_def IsClosed_def\<close>)
  moreover have ses1: "ses s1 i = ?v" using i(1) by (simp add: s1_def ses_def set_ses_def)
  moreover have "lan_recv_packet ev t mem i len s =
       rbind (le_OnReceived ev (ns_mSessionID (ses s i)) a p (put_log (OnReceived (ns_mSessionID (ses s i)) (pk_body p)) s1))
         (\<lambda>(p, s). after_received a p s)" for ev
    using m q2(1) al(1) p0(1) p(1,2) b ses1
    by (simp add: lan_recv_packet_def LanHeaderSize_def LAN_PACKET_BODY_CAPACITY_def after_received_def s1_def Let_def)
  moreover have "rb_contents q2 = drop (2 + len) (rb_contents ?q)" using q2(3) q1(3) by (simp add: add.commute)
  ultimately show ?thesis
    using p p0 i d(8) by (intro that [of a p s1]) (simp_all add: s1_def set_ses_def bytes_def live_def)
qed

lemma after_received_ok:
  assumes "lan_pool (nc_recv s)" "a \<in> dom (pp_objs (nc_recv s))" "lan_packet p" "1 \<le> pk_mRefCount p"
  obtains pool where "after_received a p s = Inr (s\<lparr>nc_recv := pool, nc_mRecvCountPerSec := nc_mRecvCountPerSec s + 1\<rparr>)" "lan_pool pool"
proof -
  let ?pool = "(nc_recv s)\<lparr>pp_objs := (pp_objs (nc_recv s))(a \<mapsto> p)\<rparr>"
  have k: "lan_pool ?pool" by (rule pool_inv_upd [OF assms])
  then have "0 < pp_refs ?pool a" by (auto simp: pp_refs_pos)
  from TryFreePacket_ok [OF k this] obtain pool ok where "TryFreePacket ?pool a = Inr (pool, ok)" "lan_pool pool" by metis
  then show ?thesis using that by (simp add: after_received_def)
qed

subsection \<open>The loop\<close>

text \<open>
  A handler that only looks at the body, and changes its own state by \<open>upd\<close>. The application has no invariant and holds no
  references.
\<close>

definition lan_quiet :: "'w ILanCoreEvent \<Rightarrow> (u64 \<Rightarrow> byte list \<Rightarrow> 'w \<Rightarrow> 'w) \<Rightarrow> bool" where
  "lan_quiet ev upd \<longleftrightarrow>
     (\<forall>sid a p s. lan_packet p \<and> pk_unread p = pk_body p \<longrightarrow>
        le_OnReceived ev sid a p s = Inr (p, s\<lparr>nc_world := upd sid (pk_body p) (nc_world s)\<rparr>))"

abbreviation no_app :: "'w app" where
  "no_app \<equiv> \<lparr>ap_refs = \<lambda>_. 0, ap_ok = \<lambda>_ _. True\<rparr>"

lemma lan_inv_world:
  assumes "lan_inv no_app x W s"
  shows "lan_inv no_app x W (s\<lparr>nc_world := w\<rparr>)"
proof -
  have "ses (s\<lparr>nc_world := w\<rparr>) = ses s" "live (s\<lparr>nc_world := w\<rparr>) = live s" "held (s\<lparr>nc_world := w\<rparr>) = held s"
    by (simp_all add: ses_def live_def held_def fun_eq_iff)
  then show ?thesis using assms by (simp add: core_inv_in_def core_base_in_def log_ok_def Let_def)
qed

lemma lan_inv_recv_pool:
  assumes "lan_inv K x W s" "lan_pool pool" "i < length (nc_mSessionPool s)"
  shows "lan_inv K x W (s\<lparr>nc_recv := pool, nc_mRecvCountPerSec := n\<rparr>)"
  by (rule lan.core_inv_sessions [OF assms(1)]) (use assms lan_invD(3) [OF assms(1,3)] in simp_all)

lemma lan_loop_dispatch:
  assumes inv: "lan_inv K x W s" and i: "i < length (nc_mSessionPool s)" "live s i"
  defines "bs \<equiv> rb_contents (ns_mRecvQueue (ses s i))"
  shows "lan_recv_loop ev t mem i (Suc fuel) s =
    (if length bs < 2 then Inr (s, True)
     else if unat (no_MaxPacketBodyLength (nc_option s)) < le_nat (take 2 bs) then Inr (LanCore_CancelationIO i s, False)
     else if length bs < 2 + le_nat (take 2 bs) then Inr (s, True)
     else rbind (lan_recv_packet ev t mem i (le_nat (take 2 bs)) s) (lan_recv_loop ev t mem i fuel))"
proof -
  have "rb_inv (ns_mRecvQueue (ses s i))" using lan_session(1) [OF inv i] by (auto simp: sess_inv_def)
  from Peek_eq [OF this, of 2] show ?thesis
    by (subst lan_recv_loop.simps) (simp add: bs_def GetUsedSize_def LanHeaderSize_def Let_def)
qed

lemma lan_cancel_world:
  "nc_world (LanCore_CancelationIO i s) = nc_world s" "nc_recvs (LanCore_CancelationIO i s) = nc_recvs s"
  "i < length (nc_mSessionPool s) \<Longrightarrow> ns_mRecvQueue (ses (LanCore_CancelationIO i s) i) = ns_mRecvQueue (ses s i)"
  "i < length (nc_mSessionPool s) \<Longrightarrow> ns_mSessionID (ses (LanCore_CancelationIO i s) i) = ns_mSessionID (ses s i)"
  "i < length (nc_mSessionPool s) \<Longrightarrow> ns_mIsCloseSocket (ses (LanCore_CancelationIO i s) i) \<noteq> 0"
  "nc_option (LanCore_CancelationIO i s) = nc_option s"
  "nc_log (LanCore_CancelationIO i s) =
     nc_log s @ (if ns_mIsCloseSocket (ses s i) = 0 then [Closesocket (ns_mSocket (ses s i))] else [])"
  by (simp_all add: LanCore_CancelationIO_def LanSession_CancelationIO_def) (simp_all add: put_log_def)

lemma lan_recv_loop_frames:
  fixes s :: "'w lan_core"
  assumes h: "lan_quiet ev upd" and mem: "lan_mem_ok mem"
    and "lan_inv no_app x W s" "i < length (nc_mSessionPool s)" "live s i" "ns_mSessionID (ses s i) = sid"
    and "unat (no_MaxPacketBodyLength (nc_option s)) = limit" "lan_frames limit (rb_contents (ns_mRecvQueue (ses s i))) = (bodies, left, v)"
    and "rb_mUsedSize (ns_mRecvQueue (ses s i)) < fuel" "\<forall>body \<in> set bodies. length body \<le> 2000"
  shows "\<exists>s'. lan_recv_loop ev t mem i fuel s = Inr (s', v = GoOn) \<and> lan_inv no_app x W s' \<and>
    length (nc_mSessionPool s') = length (nc_mSessionPool s) \<and> nc_recvs s' = nc_recvs s \<and>
    rb_contents (ns_mRecvQueue (ses s' i)) = left \<and> ns_mSessionID (ses s' i) = sid \<and>
    nc_world s' = fold (upd sid) (map (take 1998) bodies) (nc_world s) \<and>
    nc_option s' = nc_option s \<and> nc_log s' = nc_log s @ map (OnReceived sid) (map (take 1998) bodies) @
      (if v = CloseIt \<and> ns_mIsCloseSocket (ses s i) = 0 then [Closesocket (ns_mSocket (ses s i))] else []) \<and>
    (if v = CloseIt then ns_mIsCloseSocket (ses s' i) \<noteq> 0 else ns_mIsCloseSocket (ses s' i) = ns_mIsCloseSocket (ses s i))"
  using assms(3-10)
proof (induction fuel arbitrary: s bodies)
  case 0
  then show ?case by simp
next
  case (Suc fuel)
  let ?bs = "rb_contents (ns_mRecvQueue (ses s i))"
  note d = lan_loop_dispatch [OF Suc.prems(1-3), of ev t mem fuel, unfolded Suc.prems(5)]
  define len where "len = le_nat (take 2 ?bs)"
  consider "length ?bs < 2 \<or> \<not> limit < len \<and> length ?bs < 2 + len" | "2 \<le> length ?bs" "limit < len"
    | "2 \<le> length ?bs" "2 + len \<le> length ?bs" "len \<le> limit" by linarith
  then show ?case
  proof cases
    case 1
    then have "bodies = []" "left = ?bs" "v = GoOn"
      using Suc.prems(6) by (subst (asm) lan_frames.simps; auto simp: Let_def len_def split: if_splits)+
    then show ?thesis using 1 d Suc.prems by (auto simp: len_def)
  next
    case 2
    then have "bodies = []" "left = ?bs" "v = CloseIt"
      using Suc.prems(6) by (subst (asm) lan_frames.simps; auto simp: Let_def len_def split: if_splits)+
    then show ?thesis
      using 2 d Suc.prems lan_cancel_ok [OF Suc.prems(1-3)] lan_cancel_world [of i s] by (auto simp: len_def)
  next
    case 3
    obtain bodies' where r: "lan_frames limit (drop (2 + len) ?bs) = (bodies', left, v)" "bodies = take len (drop 2 ?bs) # bodies'"
      using Suc.prems(6) 3 by (subst (asm) lan_frames.simps) (auto simp: Let_def len_def split: prod.splits)
    have len: "2 + len \<le> length ?bs" "len \<le> 2000" using 3 r(2) Suc.prems(8) by (auto simp: min_def split: if_splits)
    obtain s1 a p where p: "lan_recv_packet ev t mem i len s =
       rbind (le_OnReceived ev sid a p (put_log (OnReceived sid (pk_body p)) s1)) (\<lambda>(p, s). after_received a p s)"
      "lan_inv no_app x W s1" "pp_objs (nc_recv s1) a = Some p" "lan_packet p" "pk_mRefCount p = 1" "pk_unread p = pk_body p"
      "pk_body p = take 1998 (take len (drop 2 ?bs))" "rb_contents (ns_mRecvQueue (ses s1 i)) = drop (2 + len) ?bs"
      "ns_mSessionID (ses s1 i) = sid" "live s1 i" "length (nc_mSessionPool s1) = length (nc_mSessionPool s)"
      "nc_world s1 = nc_world s" "nc_recvs s1 = nc_recvs s" "nc_option s1 = nc_option s" "nc_log s1 = nc_log s"
      "ns_mIsCloseSocket (ses s1 i) = ns_mIsCloseSocket (ses s i)" "ns_mSocket (ses s1 i) = ns_mSocket (ses s i)"
      by (rule lan_recv_packet_prefix [OF Suc.prems(1-3) mem len, of t, unfolded Suc.prems(4)]) (rule that)
    let ?s2 = "(put_log (OnReceived sid (pk_body p)) s1)\<lparr>nc_world := upd sid (pk_body p) (nc_world s)\<rparr>"
    have i1: "i < length (nc_mSessionPool s1)" using p(11) Suc.prems(2) by simp
    have "lan_inv no_app x W (put_log (OnReceived sid (pk_body p)) s1)"
      using lan.core_inv_live_log(2) [OF p(2) i1 p(10)] p(9) by simp
    then have k2: "lan_inv no_app x W ?s2" by (rule lan_inv_world)
    have sel2: "ses ?s2 = ses s1" "live ?s2 = live s1" "nc_recv ?s2 = nc_recv s1" by (simp_all add: ses_def live_def put_log_def fun_eq_iff)
    obtain pool where f: "after_received a p ?s2 = Inr (?s2\<lparr>nc_recv := pool, nc_mRecvCountPerSec := nc_mRecvCountPerSec ?s2 + 1\<rparr>)"
      "lan_pool pool"
      using after_received_ok [of ?s2 a p] lan_invD(4) [OF p(2) i1] sel2(3) p(3-5) by (auto simp: dom_def)
    let ?s3 = "?s2\<lparr>nc_recv := pool, nc_mRecvCountPerSec := nc_mRecvCountPerSec ?s2 + 1\<rparr>"
    have "le_OnReceived ev sid a p (put_log (OnReceived sid (pk_body p)) s1) = Inr (p, ?s2)"
      using h p(4,6,12) by (simp add: lan_quiet_def put_log_def)
    then have rp: "lan_recv_packet ev t mem i len s = Inr ?s3" using p(1) f(1) by simp
    have sel3: "ses ?s3 = ses s1" "live ?s3 = live s1" "length (nc_mSessionPool ?s3) = length (nc_mSessionPool s)"
      "nc_option ?s3 = nc_option s" "nc_recvs ?s3 = nc_recvs s" "nc_world ?s3 = upd sid (take 1998 (take len (drop 2 ?bs))) (nc_world s)"
      "nc_log ?s3 = nc_log s @ [OnReceived sid (take 1998 (take len (drop 2 ?bs)))]"
      using p(7,11,13-15) by (simp_all add: ses_def live_def put_log_def fun_eq_iff)
    have k3: "lan_inv no_app x W ?s3" by (rule lan_inv_recv_pool [OF k2 f(2)]) (use i1 in simp)
    have "rb_mUsedSize (ns_mRecvQueue (ses ?s3 i)) < fuel"
      using arg_cong [OF p(8), of length] sel3(1) Suc.prems(7) len(1) by simp
    then obtain s' where s': "lan_recv_loop ev t mem i fuel ?s3 = Inr (s', v = GoOn)" "lan_inv no_app x W s'"
      "length (nc_mSessionPool s') = length (nc_mSessionPool ?s3)" "nc_recvs s' = nc_recvs ?s3"
      "rb_contents (ns_mRecvQueue (ses s' i)) = left" "ns_mSessionID (ses s' i) = sid"
      "nc_world s' = fold (upd sid) (map (take 1998) bodies') (nc_world ?s3)"
      "nc_option s' = nc_option ?s3" "nc_log s' = nc_log ?s3 @ map (OnReceived sid) (map (take 1998) bodies') @
        (if v = CloseIt \<and> ns_mIsCloseSocket (ses ?s3 i) = 0 then [Closesocket (ns_mSocket (ses ?s3 i))] else [])"
      "if v = CloseIt then ns_mIsCloseSocket (ses s' i) \<noteq> 0 else ns_mIsCloseSocket (ses s' i) = ns_mIsCloseSocket (ses ?s3 i)"
      using Suc.IH [OF k3, of bodies'] p(8-10) r sel3 Suc.prems(2,5,8) by auto
    have "lan_recv_loop ev t mem i (Suc fuel) s = Inr (s', v = GoOn)"
      using d 3 rp s'(1) by (simp add: len_def)
    then show ?thesis using s'(2-10) sel3 r(2) p(16,17) by (intro exI [of _ s']) simp
  qed
qed

text \<open>Whatever the handler of the application does, within its contract.\<close>

lemma lan_recv_packet_ok:
  fixes s :: "'w lan_core"
  assumes ev: "lan_app_ok I ev" and mem: "lan_mem_ok mem" and inv: "lan_inv (lan_app m I) x W s"
    and i: "i < length (nc_mSessionPool s)" "0 < x i"
    and len: "2 + len \<le> length (rb_contents (ns_mRecvQueue (ses s i)))" "len \<le> 2000"
  shows "lok (\<lambda>s'. lan_inv (lan_app m I) x W s' \<and> length (nc_mSessionPool s') = length (nc_mSessionPool s) \<and>
      nc_recvs s' = nc_recvs s \<and> nc_option s' = nc_option s \<and>
      rb_contents (ns_mRecvQueue (ses s' i)) = drop (2 + len) (rb_contents (ns_mRecvQueue (ses s i))))
    (lan_recv_packet ev t mem i len s)"
proof -
  let ?sid = "ns_mSessionID (ses s i)" let ?bs = "rb_contents (ns_mRecvQueue (ses s i))"
  have l: "live s i" by (rule lan.core_inv_live [OF inv i])
  obtain s1 a p where p: "lan_recv_packet ev t mem i len s =
       rbind (le_OnReceived ev ?sid a p (put_log (OnReceived ?sid (pk_body p)) s1)) (\<lambda>(p, s). after_received a p s)"
    "lan_inv (lan_app m I) x W s1" "pp_objs (nc_recv s1) a = Some p" "lan_packet p" "pk_mRefCount p = 1"
    "rb_contents (ns_mRecvQueue (ses s1 i)) = drop (2 + len) ?bs" "ns_mSessionID (ses s1 i) = ?sid" "live s1 i"
    "length (nc_mSessionPool s1) = length (nc_mSessionPool s)" "nc_recvs s1 = nc_recvs s" "nc_option s1 = nc_option s"
    using lan_recv_packet_prefix [OF inv i(1) l mem len, of t] by metis
  let ?s2 = "put_log (OnReceived ?sid (pk_body p)) s1"
  have i1: "i < length (nc_mSessionPool s1)" using p(9) i(1) by simp
  have k2: "lan_inv (lan_app m I) x W ?s2" using lan.core_inv_live_log(2) [OF p(2) i1 p(8)] p(7) by simp
  have idx: "unat (SessionIndex ?sid) < length (nc_mSessionPool ?s2)" using lan.live_index [OF p(2) i1 p(8)] p(7) i1 by simp
  show ?thesis
    unfolding p(1)
  proof (rule rok_bind [OF lan_app_okD(2) [OF ev k2 idx p(4,5)]], clarify)
    fix p' and s3 :: "'w lan_core"
    assume h: "lan_packet p'" "1 \<le> pk_mRefCount p'" "lan_inv (lan_app m I) x W s3" "core_frame ?s2 s3"
    have i3: "i < length (nc_mSessionPool s3)" using h(4) i1 by (simp add: core_frame_def)
    have "a \<in> dom (pp_objs (nc_recv s3))" using h(4) p(3) by (auto simp: core_frame_def)
    then obtain pool where f: "after_received a p' s3 = Inr (s3\<lparr>nc_recv := pool, nc_mRecvCountPerSec := nc_mRecvCountPerSec s3 + 1\<rparr>)"
      "lan_pool pool"
      using after_received_ok [OF lan_invD(4) [OF h(3) i3]] h(1,2) by metis
    have "ns_mRecvQueue (ses s3 i) = ns_mRecvQueue (ses s1 i)"
      using h(4) i1 lan.core_inv_live [OF h(3) i3 i(2)] by (simp add: core_frame_def)
    moreover have "ses (s3\<lparr>nc_recv := pool, nc_mRecvCountPerSec := n\<rparr>) i = ses s3 i" for n by (simp add: ses_def)
    ultimately show "lok (\<lambda>s'. lan_inv (lan_app m I) x W s' \<and> length (nc_mSessionPool s') = length (nc_mSessionPool s) \<and>
        nc_recvs s' = nc_recvs s \<and> nc_option s' = nc_option s \<and>
        rb_contents (ns_mRecvQueue (ses s' i)) = drop (2 + len) ?bs) (after_received a p' s3)"
      using f(1) lan_inv_recv_pool [OF h(3) f(2) i3] h(4) p(6,9-11) by (simp add: core_frame_def)
  qed
qed

lemma lan_recv_loop_ok:
  fixes s :: "'w lan_core"
  assumes ev: "lan_app_ok I ev" and mem: "lan_mem_ok mem" and inv: "lan_inv (lan_app m I) x W s"
    and i: "i < length (nc_mSessionPool s)" "0 < x i"
    and fits: "lan_fits (unat (no_MaxPacketBodyLength (nc_option s))) (rb_contents (ns_mRecvQueue (ses s i)))"
    and f: "rb_mUsedSize (ns_mRecvQueue (ses s i)) < fuel"
  shows "lok (\<lambda>(s', _). lan_inv (lan_app m I) x W s' \<and> length (nc_mSessionPool s') = length (nc_mSessionPool s) \<and>
      nc_recvs s' = nc_recvs s \<and> nc_option s' = nc_option s)
    (lan_recv_loop ev t mem i fuel s)"
  using inv i fits f
proof (induction fuel arbitrary: s)
  case 0
  then show ?case by simp
next
  case (Suc fuel)
  have l: "live s i" by (rule lan.core_inv_live [OF Suc.prems(1-3)])
  let ?bs = "rb_contents (ns_mRecvQueue (ses s i))"
  note d = lan_loop_dispatch [OF Suc.prems(1,2) l, of ev t mem fuel]
  show ?case
  proof (cases "length ?bs < 2 \<or> unat (no_MaxPacketBodyLength (nc_option s)) < le_nat (take 2 ?bs) \<or> length ?bs < 2 + le_nat (take 2 ?bs)")
    case True
    then show ?thesis
      unfolding d using Suc.prems(1) lan_cancel_ok [OF Suc.prems(1,2) l] by (auto simp: lan_cancel_world)
  next
    case False
    define len where "len = le_nat (take 2 ?bs)"
    have len: "2 + len \<le> length ?bs" "len \<le> unat (no_MaxPacketBodyLength (nc_option s))" using False by (auto simp: len_def)
    note fit = lan_fits_complete [OF len len_def, THEN iffD1, OF Suc.prems(4)]
    have "lok (\<lambda>(s', _). lan_inv (lan_app m I) x W s' \<and> length (nc_mSessionPool s') = length (nc_mSessionPool s) \<and>
        nc_recvs s' = nc_recvs s \<and> nc_option s' = nc_option s)
      (rbind (lan_recv_packet ev t mem i len s) (lan_recv_loop ev t mem i fuel))"
    proof (rule rok_bind [OF lan_recv_packet_ok [OF ev mem Suc.prems(1-3) len(1) conjunct1 [OF fit]]])
      fix s1 assume s1: "lan_inv (lan_app m I) x W s1 \<and> length (nc_mSessionPool s1) = length (nc_mSessionPool s) \<and>
        nc_recvs s1 = nc_recvs s \<and> nc_option s1 = nc_option s \<and>
        rb_contents (ns_mRecvQueue (ses s1 i)) = drop (2 + len) ?bs"
      then have "rb_contents (ns_mRecvQueue (ses s1 i)) = drop (2 + len) ?bs" by simp
      from arg_cong [OF this, of length] have "rb_mUsedSize (ns_mRecvQueue (ses s1 i)) < fuel" using len(1) Suc.prems(5) by simp
      with s1 show "lok (\<lambda>(s', _). lan_inv (lan_app m I) x W s' \<and> length (nc_mSessionPool s') = length (nc_mSessionPool s) \<and>
        nc_recvs s' = nc_recvs s \<and> nc_option s' = nc_option s) (lan_recv_loop ev t mem i fuel s1)"
        by (intro rok_mono [OF Suc.IH [of s1]]) (use s1 fit Suc.prems in auto)
    qed
    then show ?thesis using d False by (simp add: len_def)
  qed
qed

text \<open>A body that is too long is written past the end of the packet's buffer, unless a handler stops the process before.\<close>

lemma lan_recv_packet_overlong:
  fixes s :: "'w lan_core"
  assumes inv: "lan_inv K x W s" and i: "i < length (nc_mSessionPool s)" "live s i" and mem: "lan_mem_ok mem"
    and len: "2 + len \<le> length (rb_contents (ns_mRecvQueue (ses s i)))" "2000 < len"
  shows "lan_recv_packet ev t mem i len s = Inl MemFault"
proof -
  let ?q = "ns_mRecvQueue (ses s i)"
  have rb: "rb_inv ?q" "rb_mMaxCapacity ?q = 4086" using lan_session(1) [OF inv i] by (auto simp: sess_inv_def)
  obtain q1 m where m: "RingBuffer_MoveRead ?q 2 = (q1, m)" by fastforce
  note q1 = MoveRead_spec [OF rb(1) m]
  have "length (rb_contents q1) = length (rb_contents ?q) - 2" using q1(3) by simp
  then have u1: "len \<le> rb_mUsedSize q1" using len(1) by simp
  obtain q2 where q2: "RingBuffer_Dequeue q1 len = Inr (q2, take len (rb_contents q1), min len (rb_mUsedSize q1))"
    using Dequeue_spec [OF q1(1), of len] q1(4) rb(2) by auto
  have kind: "1 \<le> (2 :: nat)" "2 \<le> (2000 :: nat)" "2 + 2000 < size_lim" by (simp_all add: size_lim_def)
  obtain pool a where al: "Pool_Alloc 2 2000 t mem (nc_recv s) = Inr (pool, a)"
    "pp_objs pool = (pp_objs (nc_recv s))(a \<mapsto> (Packet_Initial 2 2000 (mem a))\<lparr>pk_mRefCount := 1\<rparr>)"
    by (rule Pool_Alloc_ok [OF lan_invD(4) [OF inv i(1)] kind, of mem t], simp add: mem, rule that)
  show ?thesis
    using m q2 al len(2) u1 mem
    by (simp add: lan_recv_packet_def LanHeaderSize_def LAN_PACKET_BODY_CAPACITY_def Packet_Initial_def mem_write_def)
qed

lemma lan_recv_loop_overlong:
  fixes s :: "'w lan_core"
  assumes ev: "lan_app_ok I ev" and mem: "lan_mem_ok mem" and "lan_inv (lan_app m I) x W s"
    and "i < length (nc_mSessionPool s)" "0 < x i"
    and "\<not> lan_fits (unat (no_MaxPacketBodyLength (nc_option s))) (rb_contents (ns_mRecvQueue (ses s i)))"
    and "rb_mUsedSize (ns_mRecvQueue (ses s i)) < fuel"
  shows "rok_in {InvalidArgument, CrashDumped, ReaderException, MemFault} (\<lambda>_. False) (lan_recv_loop ev t mem i fuel s)"
  using assms(3-)
proof (induction fuel arbitrary: s)
  case 0
  then show ?case by simp
next
  case (Suc fuel)
  have l: "live s i" by (rule lan.core_inv_live [OF Suc.prems(1-3)])
  let ?bs = "rb_contents (ns_mRecvQueue (ses s i))" and ?limit = "unat (no_MaxPacketBodyLength (nc_option s))"
  define len where "len = le_nat (take 2 ?bs)"
  have len: "2 + len \<le> length ?bs" "len \<le> ?limit"
    using Suc.prems(4) lan_fits_stop [of ?bs ?limit] unfolding len_def by linarith+
  have d: "lan_recv_loop ev t mem i (Suc fuel) s = rbind (lan_recv_packet ev t mem i len s) (lan_recv_loop ev t mem i fuel)"
    using lan_loop_dispatch [OF Suc.prems(1,2) l, of ev t mem fuel] len by (simp add: len_def)
  show ?case
  proof (cases "len \<le> 2000")
    case True
    then have over: "\<not> lan_fits ?limit (drop (2 + len) ?bs)" using lan_fits_complete [OF len len_def] Suc.prems(4) by blast
    from lan_recv_packet_ok [OF ev mem Suc.prems(1-3) len(1) True, of t]
    show ?thesis
      unfolding d
    proof (cases "lan_recv_packet ev t mem i len s", goal_cases)
      case (2 s1)
      then have s1: "lan_inv (lan_app m I) x W s1" "length (nc_mSessionPool s1) = length (nc_mSessionPool s)" "nc_option s1 = nc_option s"
        "rb_contents (ns_mRecvQueue (ses s1 i)) = drop (2 + len) ?bs" by simp_all
      have "rb_mUsedSize (ns_mRecvQueue (ses s1 i)) < fuel"
        using arg_cong [OF s1(4), of length] len(1) Suc.prems(5) by simp
      then show ?case using 2 Suc.IH [OF s1(1)] s1(2-4) Suc.prems(2,3) over by simp
    qed auto
  next
    case False
    then show ?thesis using d lan_recv_packet_overlong [OF Suc.prems(1,2) l mem len(1)] by simp
  qed
qed

subsection \<open>A completed receive\<close>

lemma lan_kernel_fill_eq:
  assumes "rb_inv rb" "length xs \<le> rb_mMaxCapacity rb - rb_mUsedSize rb"
  shows "lan_kernel_fill rb xs = kernel_fill rb xs"
proof (cases "GetEnquableSize rb = 0")
  case True
  have "length xs = 0" using True assms GetEnquableSize_eq [OF assms(1)] by simp
  moreover have "rb_mWriteIndex rb \<le> length (rb_mBuffer rb)" using assms(1) by (auto simp: rb_inv_def wrap_def)
  then have "mem_write (rb_mBuffer rb) (rb_mWriteIndex rb) [] = Inr (rb_mBuffer rb)" "mem_write (rb_mBuffer rb) 0 [] = Inr (rb_mBuffer rb)"
    by (simp_all add: mem_write_def)
  ultimately show ?thesis using True by (simp add: lan_kernel_fill_def kernel_fill_def lan_recv_buffers_def recv_buffers_def Let_def)
next
  case False
  then show ?thesis by (simp add: lan_kernel_fill_def kernel_fill_def lan_recv_buffers_def recv_buffers_def Let_def)
qed

lemma lan_inv_queue:
  assumes inv: "lan_inv K x W s" and i: "i < length (nc_mSessionPool s)" "live s i" and q: "rb_inv q" "rb_mMaxCapacity q = 4086"
  shows "lan_inv K x W (set_ses i ((ses s i)\<lparr>ns_mRecvQueue := q\<rparr>) s)"
proof -
  note d = lan_session [OF inv i]
  let ?v = "(ses s i)\<lparr>ns_mRecvQueue := q\<rparr>"
  have "others ?v = others (ses s i)" "lan_sess_inv ?v"
    using d(1) q by (auto simp: others_def session_refs_def sending_def fun_eq_iff sess_inv_def)
  then show ?thesis
    by (intro lan_inv_change(1) [OF inv i, of ?v]) (use d lan_invD(3,4) [OF inv i(1)] in \<open>simp_all add: set_ses_def IsClosed_def\<close>)
qed

lemma LanCore_NetworkRecvCompleted_ok:
  fixes s :: "'w lan_core"
  assumes ev: "lan_app_ok I ev" and mem: "lan_mem_ok mem" and inv: "lan_inv (lan_app m I) x W s"
    and i: "i < length (nc_mSessionPool s)" "0 < x i"
    and fits: "lan_fits (unat (no_MaxPacketBodyLength (nc_option s))) (rb_contents (fst (RingBuffer_MoveWrite (ns_mRecvQueue (ses s i)) n)))"
    and r0: "nc_recvs s i = 0"
  shows "lok (\<lambda>s'. lan_inv (lan_app m I) x W s' \<and> length (nc_mSessionPool s') = length (nc_mSessionPool s) \<and> nc_option s' = nc_option s)
    (LanCore_NetworkRecvCompleted ev t mem reply i n s)"
proof -
  let ?P = "\<lambda>s'. lan_inv (lan_app m I) x W s' \<and> length (nc_mSessionPool s') = length (nc_mSessionPool s) \<and> nc_option s' = nc_option s"
  have l: "live s i" by (rule lan.core_inv_live [OF inv i])
  have rb: "rb_inv (ns_mRecvQueue (ses s i))" "rb_mMaxCapacity (ns_mRecvQueue (ses s i)) = 4086"
    using lan_session(1) [OF inv i(1) l] by (auto simp: sess_inv_def)
  obtain q k where q: "RingBuffer_MoveWrite (ns_mRecvQueue (ses s i)) n = (q, k)" by fastforce
  let ?s1 = "set_ses i ((ses s i)\<lparr>ns_mRecvQueue := q\<rparr>) s"
  have k1: "lan_inv (lan_app m I) x W ?s1"
    by (rule lan_inv_queue [OF inv i(1) l]) (use MoveWrite_spec [OF rb(1) q] rb(2) in simp_all)
  have i1: "i < length (nc_mSessionPool ?s1)" "live ?s1 i" "ns_mRecvQueue (ses ?s1 i) = q" using i l by (simp_all add: live_def)
  have "lok ?P (rbind (lan_recv_loop ev t mem i (Suc (rb_mUsedSize q)) ?s1) (\<lambda>(s, isPost).
           if isPost then LanCore_RecvPost ev reply i s else Inr s))"
  proof (rule rok_bind [OF lan_recv_loop_ok [OF ev mem k1 i1(1) i(2)]], goal_cases)
    case (3 y)
    obtain s2 b where y: "y = (s2, b)" by fastforce
    have k2: "lan_inv (lan_app m I) x W s2" "length (nc_mSessionPool s2) = length (nc_mSessionPool s)" "nc_recvs s2 i = 0" "nc_option s2 = nc_option s"
      using 3 y r0 by auto
    have i2: "i < length (nc_mSessionPool s2)" using k2(2) i(1) by simp
    have l2: "live s2 i" by (rule lan.core_inv_live [OF k2(1) i2 i(2)])
    have "lok ?P (LanCore_RecvPost ev reply i s2)"
      by (rule rok_mono [OF LanCore_RecvPost_ok [OF lan_app_okD(1) [OF ev] lan.core_inv_mono [OF k2(1)] i2 l2 k2(3)]])
        (use k2(2,4) in auto)
    then show ?case using y k2 by simp
  qed (use fits q i1(3) in simp_all)
  then show ?thesis
    using q lan_cancel_ok [OF k1 i1(1,2)] lan_cancel_world(6) [of i ?s1] by (simp add: LanCore_NetworkRecvCompleted_def Let_def)
qed

text \<open>A full queue leaves the kernel one buffer without a byte.\<close>

lemma lan_full_queue_buffers:
  assumes "rb_inv rb" "rb_mUsedSize rb = rb_mMaxCapacity rb"
  shows "lan_recv_buffers rb = [(rb_mWriteIndex rb, 0)]"
proof -
  have "GetEnquableSize rb = 0" using GetEnquableSize_eq [OF assms(1)] assms(2) by simp
  then show ?thesis by (simp add: lan_recv_buffers_def GetDirectEnqueueSize_def)
qed

end
