(* ===== verification/Lan_Server.thy ===== *)
theory Lan_Server
  imports Lan_Recv
begin

text \<open>
  Completions, start, and the histories of a running \<^verbatim>\<open>LanCore\<close>.
\<close>

subsection \<open>Completions\<close>

lemma LanCore_NetworkSendCompleted_ok:
  assumes ev: "lan_handlers_ok K ev" and inv: "lan_inv K x W s" and i: "i < length (nc_mSessionPool s)" "0 < x i"
    and w0: "nc_sends s i = 0" "ns_IsSendingAtomic (ses s i) \<noteq> 0"
  shows "lok (lan_keeps K x W s) (LanCore_NetworkSendCompleted ev reply i n s)"
proof -
  have l: "live s i" by (rule lan.core_inv_live [OF inv i])
  note d = lan_session [OF inv i(1) l]
  have one: "ns_IsSendingAtomic (ses s i) = 1" using d(1) w0(2) by (simp add: sess_inv_def)
  obtain pool where f: "LanSession_FinishSending (ses s i) (nc_send s) =
      Inr ((ses s i)\<lparr>ns_PacketCount := 0, ns_TotalByteSize := 0, ns_IsSendingAtomic := ns_IsSendingAtomic (ses s i) - 1\<rparr>, pool)"
    "lan_sess_inv ((ses s i)\<lparr>ns_PacketCount := 0, ns_TotalByteSize := 0, ns_IsSendingAtomic := 0\<rparr>)"
    "\<And>n. others ((ses s i)\<lparr>ns_PacketCount := 0, ns_TotalByteSize := 0, ns_IsSendingAtomic := n\<rparr>) pool = others (ses s i) (nc_send s)"
    "\<And>n. lan_refs_ok ((ses s i)\<lparr>ns_PacketCount := 0, ns_TotalByteSize := 0, ns_IsSendingAtomic := n\<rparr>) pool"
    using LanSession_FinishSending_ok [OF d(1,7)] by blast
  let ?v = "(ses s i)\<lparr>ns_PacketCount := 0, ns_TotalByteSize := 0, ns_IsSendingAtomic := 0\<rparr>"
  let ?s1 = "(set_ses i ?v s)\<lparr>nc_send := pool\<rparr>"
  have pool: "lan_pool pool" using f(4) by (simp add: refs_in_def)
  have k1: "lan_inv K x W ?s1" "core_frame s ?s1"
    by (rule lan_inv_change [OF inv i(1) l, of ?v];
        use f(2,3) d w0 pool lan_invD(4) [OF inv i(1)] in \<open>simp add: set_ses_def IsClosed_def\<close>)+
  have i1: "i < length (nc_mSessionPool ?s1)" "ses ?s1 i = ?v" using i(1) by (simp_all add: ses_def set_ses_def)
  have l1: "live ?s1 i" by (rule lan.core_inv_live [OF k1(1) i1(1) i(2)])
  let ?sid = "ns_mSessionID (ses s i)" let ?s2 = "put_log (OnSent ?sid n) ?s1"
  have k2: "lan_inv K x W ?s2" "core_frame s ?s2"
    using lan.core_inv_live_log(1) [OF k1(1) i1(1) l1, of n] i1(2) k1(2) by simp_all
  have idx: "unat (SessionIndex ?sid) < length (nc_mSessionPool ?s2)" using lan.live_index [OF k1(1) i1(1) l1] i1 by simp
  have "lok (lan_keeps K x W s) (rbind (le_OnSent ev ?sid n ?s2) (\<lambda>s. rbind (LanCore_SendPost ev reply i s) (\<lambda>(s, _). Inr s)))"
  proof (rule rok_bind [OF lan_handlers_okD(3) [OF ev k2(1) idx]], clarify)
    fix s3
    assume s3: "lan_inv K x W s3" "core_frame ?s2 s3"
    have i3: "i < length (nc_mSessionPool s3)" using s3(2) i by (simp add: core_frame_def)
    show "lok (lan_keeps K x W s) (rbind (LanCore_SendPost ev reply i s3) (\<lambda>(s, _). Inr s))"
      by (rule rok_bind [OF LanCore_SendPost_ok [OF ev s3(1) i3 i(2)]])
        (use core_frame_trans [OF core_frame_trans [OF k2(2) s3(2)]] in auto)
  qed
  then show ?thesis using f(1) one i1(2) by (simp add: LanCore_NetworkSendCompleted_def Let_def)
qed

text \<open>One completion of session \<open>i\<close>, whatever its kind and its outcome. The count that the request held is given up.\<close>

lemma LanCore_NetworkIOThread_step_ok:
  fixes s :: "'w lan_core"
  assumes ev: "lan_app_ok I ev" and mem: "lan_mem_ok mem" and inv: "lan_inv (lan_app m I) x W s"
    and i: "i < length (nc_mSessionPool s)" "0 < x i"
    and fits: "cp_overlapped c = Some RecvOverlapped \<Longrightarrow> cp_isSuccess c \<Longrightarrow> cp_transferred c \<noteq> 0 \<Longrightarrow>
      lan_fits (unat (no_MaxPacketBodyLength (nc_option s))) (rb_contents (fst (RingBuffer_MoveWrite (ns_mRecvQueue (ses s i)) (cp_transferred c))))"
    and c: "cp_session c = Some i" "cp_overlapped c \<noteq> None"
    and none: "cp_overlapped c = Some RecvOverlapped \<Longrightarrow> nc_recvs s i = 0"
      "cp_overlapped c = Some SendOverlapped \<Longrightarrow> nc_sends s i = 0 \<and> ns_IsSendingAtomic (ses s i) \<noteq> 0"
  shows "lok (\<lambda>(s', _). lan_inv (lan_app m I) (x(i := x i - 1)) W s' \<and> length (nc_mSessionPool s') = length (nc_mSessionPool s) \<and> nc_option s' = nc_option s)
    (LanCore_NetworkIOThread_step ev t mem c s)"
proof -
  note ev' = lan_app_okD(1) [OF ev, of m]
  let ?P = "\<lambda>s'. lan_inv (lan_app m I) x W s' \<and> length (nc_mSessionPool s') = length (nc_mSessionPool s) \<and> nc_option s' = nc_option s"
  let ?done = "\<lambda>(s', b :: bool). lan_inv (lan_app m I) (x(i := x i - 1)) W s' \<and> length (nc_mSessionPool s') = length (nc_mSessionPool s) \<and> nc_option s' = nc_option s"
  define act where "act = (if \<not> cp_isSuccess c \<or> cp_transferred c = 0 then Inr s
                 else if cp_overlapped c = Some RecvOverlapped
                 then LanCore_NetworkRecvCompleted ev t mem (cp_reply c) i (cp_transferred c) s
                 else if cp_overlapped c = Some SendOverlapped
                 then LanCore_NetworkSendCompleted ev (cp_reply c) i (cp_transferred c) s
                 else Inr s)"
  have sent: "cp_overlapped c = Some SendOverlapped \<Longrightarrow> lok ?P (LanCore_NetworkSendCompleted ev (cp_reply c) i (cp_transferred c) s)"
    by (rule rok_mono [OF LanCore_NetworkSendCompleted_ok [OF ev' inv i]]) (use none(2) in \<open>auto simp: core_frame_def\<close>)
  have "lok ?P act"
    using inv sent LanCore_NetworkRecvCompleted_ok [OF ev mem inv i fits none(1), of t "cp_reply c"]
    by (simp add: act_def)
  then have "lok ?done (rbind act (\<lambda>s. rbind (give_up_io ev i s) (\<lambda>s. Inr (s, True))))"
  proof (rule rok_bind)
    fix s1 assume s1: "?P s1"
    then have k1: "lan_inv (lan_app m I) x W s1" "i < length (nc_mSessionPool s1)" using i by simp_all
    show "lok ?done (rbind (give_up_io ev i s1) (\<lambda>s. Inr (s, True)))"
      by (rule rok_bind [OF give_up_io_ok [OF ev' k1 i(2)]]) (use s1 in \<open>auto simp: core_frame_def simp del: fun_upd_apply\<close>)
  qed
  moreover have "LanCore_NetworkIOThread_step ev t mem c s = rbind act (\<lambda>s. rbind (give_up_io ev i s) (\<lambda>s. Inr (s, True)))"
    using c by (auto simp: LanCore_NetworkIOThread_step_def act_def)
  ultimately show ?thesis by (simp only:)
qed

subsection \<open>Start\<close>

lemma lan_create_loop_ok:
  "\<exists>vs. lan_create_loop garbage uid n = Inr vs \<and> length vs = n \<and>
     (\<forall>k < n. slot_in lan_class k 0 0 0 (vs ! k) \<and> IsReleased (vs ! k) \<and> session_refs (vs ! k) = [])"
proof (induction n)
  case 0
  then show ?case by simp
next
  case (Suc n)
  obtain v where v: "LanSession_Create garbage uid = Inr v" "lan_sess_inv v" "session_refs v = []" "IsReleased v" "IsClosed v"
    "ns_mSocket v = None" "ns_IOCountAtomic v = 0" "ns_mSessionID v = 0" "ns_IsSendingAtomic v = 0"
    using LanSession_Create_ok [of garbage uid] by blast
  have "lan_sess_inv (v\<lparr>ns_IsSendingAtomic := 0\<rparr>)" using v(2,9) by (simp add: sess_inv_def)
  then have "slot_in lan_class k 0 0 0 v" for k using v by (simp add: slot_in_def IsReleased_def)
  moreover obtain vs where "lan_create_loop garbage uid n = Inr vs" "length vs = n"
    "\<forall>k < n. slot_in lan_class k 0 0 0 (vs ! k) \<and> IsReleased (vs ! k) \<and> session_refs (vs ! k) = []"
    using Suc.IH by blast
  moreover have "slot_in lan_class (Suc k) x r w u = slot_in lan_class k x r w u" if "ns_IsReleasedAtomic u = 1" for k x r w u
    using that by (simp add: slot_in_def)
  ultimately show ?case
    using v by (intro exI [of _ "v # vs"]) (auto simp: less_Suc_eq_0_disj IsReleased_def)
qed

lemma lan_push_loop_ok:
  assumes "stack_inv cap u" "length (stack_list u) + length is \<le> cap"
  shows "\<exists>u'. lan_push_loop is u = Inr u' \<and> stack_inv cap u' \<and> stack_list u' = rev is @ stack_list u"
  using assms
proof (induction "is" arbitrary: u)
  case Nil
  then show ?case by simp
next
  case (Cons i "is")
  obtain u1 where u1: "Stack_Push u i = Inr (u1, True)" "stack_inv cap u1" "stack_list u1 = i # stack_list u"
    using Stack_Push_law [OF Cons.prems(1), of i] Cons.prems(2) by auto
  then show ?case using Cons.IH [OF u1(2)] Cons.prems(2) by auto
qed

text \<open>The invariant between two steps: nothing is pinned, and the application has no reference.\<close>

abbreviation lan_ok :: "(nat \<Rightarrow> 'w \<Rightarrow> bool) \<Rightarrow> 'w lan_core \<Rightarrow> bool" where
  "lan_ok I s \<equiv> lan_inv (lan_app (\<lambda>_. 0) I) (\<lambda>_. 0) {} s"

lemma LanManager_Init_ok:
  assumes n: "unat n \<le> 65536" and p: "lan_pool (nc_send s)" "lan_pool (nc_recv s)" and w: "I (unat n) (nc_world s)"
    and s: "nc_mSessionPool s = []" "nc_mUnusedSession s = Stack_Create g" "nc_mConnectedSessionCount s = 0"
      "nc_recvs s = (\<lambda>_. 0)" "nc_sends s = (\<lambda>_. 0)" "nc_log s = []"
  shows "\<exists>s'. LanManager_Init garbage uid n s = Inr s' \<and> lan_inv (lan_app (\<lambda>_. 0) I) (\<lambda>_. 0) {} s' \<and> length (nc_mSessionPool s') = unat n \<and>
    stack_list (nc_mUnusedSession s') = rev [0..<unat n] \<and> nc_log s' = [] \<and> nc_option s' = nc_option s"
proof -
  let ?n = "unat n"
  have c: "Stack_Clear (Stack_Create g :: nat LockFreeStack) = Inr (Stack_Create g)"
    by (simp add: Stack_Clear_def Stack_Create_def) (simp add: LockFree_Create_def LockFree_Clear_def)
  have clean: "LanManager_Cleanup s = Inr s" using c s by (simp add: LanManager_Cleanup_def)
  obtain u where u: "Stack_Init ?n (nc_mUnusedSession s) = Inr u" "stack_inv ?n u" "stack_list u = []"
    using Stack_Init_fresh [of ?n g] n s(2) by auto
  obtain vs where vs: "lan_create_loop garbage uid ?n = Inr vs" "length vs = ?n"
    "\<forall>k < ?n. slot_in lan_class k 0 0 0 (vs ! k) \<and> IsReleased (vs ! k) \<and> session_refs (vs ! k) = []"
    using lan_create_loop_ok by blast
  obtain u' where u': "lan_push_loop [0..<?n] u = Inr u'" "stack_inv ?n u'" "stack_list u' = rev [0..<?n]"
    using lan_push_loop_ok [OF u(2), of "[0..<?n]"] u(3) by auto
  let ?s' = "s\<lparr>nc_mSessionPool := vs, nc_mUnusedSession := u'\<rparr>"
  have nl: "\<not> live ?s' i" if "i < ?n" for i
    using vs(3) that by (simp add: live_def ses_def IsReleased_def)
  have "{i. i < ?n \<and> live ?s' i} = {}" "{i. i < ?n \<and> \<not> live ?s' i} = {..<?n}" using nl by auto
  moreover have "held ?s' a = 0" for a
  proof -
    have "map (\<lambda>v. int (count_list (session_refs v) a)) vs = map (\<lambda>_. 0) vs"
      using vs(2,3) by (auto simp: in_set_conv_nth)
    then have "(\<Sum>v\<leftarrow>vs. int (count_list (session_refs v) a)) = 0" by (simp only: sum_list_0)
    then show ?thesis by (simp add: held_def)
  qed
  moreover have "0 \<le> pp_refs (nc_send s) a" for a
    using p(1) by (force simp: pp_refs_def pool_inv_def split: option.splits)
  ultimately have "lan_base (lan_app (\<lambda>_. 0) I) (\<lambda>_. 0) {} ?s'"
    using vs u' n p nl s w by (auto simp: core_base_in_def Let_def ses_def)
  moreover have "log_ok ?s'" using s(6) nl vs(2) by (auto simp: log_ok_def session_log_def)
  moreover have "LanManager_Init garbage uid n s = Inr ?s'" using clean u(1) vs(1) u'(1) by (simp add: LanManager_Init_def)
  ultimately show ?thesis using u'(3) vs(2) s(6) by (intro exI [of _ ?s']) (simp add: lan_inv_def)
qed

lemma LanCore_Start_ok:
  assumes "ValidateOption option" "unat (so_MaxSessionCount option) \<le> 65536" "lan_pool send" "lan_pool recv"
    "I (unat (so_MaxSessionCount option)) world"
  shows "\<exists>s. (\<forall>r. \<exists>y. LanCore_Start True r garbage uid option (lan_create uid' send recv world) = Inr (s, y)) \<and>
    lan_inv (lan_app (\<lambda>_. 0) I) (\<lambda>_. 0) {} s \<and> length (nc_mSessionPool s) = unat (so_MaxSessionCount option) \<and>
    stack_list (nc_mUnusedSession s) = rev [0..<unat (so_MaxSessionCount option)] \<and> nc_log s = [] \<and> nc_option s = option"
proof -
  let ?s = "(lan_create uid' send recv world)\<lparr>nc_option := option\<rparr>"
  obtain s' where "LanManager_Init garbage uid (so_MaxSessionCount option) ?s = Inr s'" "lan_inv (lan_app (\<lambda>_. 0) I) (\<lambda>_. 0) {} s'"
    "length (nc_mSessionPool s') = unat (so_MaxSessionCount option)"
    "stack_list (nc_mUnusedSession s') = rev [0..<unat (so_MaxSessionCount option)]" "nc_log s' = []" "nc_option s' = option"
    using LanManager_Init_ok [OF assms(2), of ?s I uid' garbage uid] assms(3-5) by (auto simp: lan_create_def)
  then show ?thesis using assms(1) by (intro exI [of _ s']) (simp add: LanCore_Start_def)
qed

subsection \<open>Histories\<close>

text \<open>
  The events that drive the core, as for \<^verbatim>\<open>NetCore\<close>; a receive of no bytes is the end of the stream. \<open>lan_enabled\<close> says which of
  them can happen. Two of its conditions are not ensured by the code: an accepted connection finds an unused session, and
  its socket can be attached to the completion port.
\<close>

datatype lan_op =
    LanAccept "accept_env option"
  | LanRecvDone nat "byte list" wsa_reply
  | LanSendDone nat nat wsa_reply
  | LanFailed nat overlapped int
  | LanSend u64 nat wsa_reply
  | LanDisconnect u64
  | LanAlloc
  | LanFree nat
  | LanMonitor

definition lan_completion :: "nat \<Rightarrow> overlapped \<Rightarrow> bool \<Rightarrow> nat \<Rightarrow> int \<Rightarrow> wsa_reply \<Rightarrow> completion" where
  "lan_completion i ov ok n err reply =
     \<lparr>cp_isSuccess = ok, cp_transferred = n, cp_session = Some i, cp_overlapped = Some ov, cp_lastError = err, cp_reply = reply\<rparr>"

fun lan_step :: "'w ILanCoreEvent \<Rightarrow> nat \<Rightarrow> (nat \<Rightarrow> byte list) \<Rightarrow> lan_op \<Rightarrow> 'w lan_core \<Rightarrow> 'w lan_core res" where
  "lan_step ev t mem (LanAccept a) s = rbind (LanCore_NetworkAcceptThread_step ev a s) (\<lambda>(s, _). Inr s)"
| "lan_step ev t mem (LanRecvDone i xs reply) s =
     rbind (lan_kernel_fill (ns_mRecvQueue (ses s i)) xs) (\<lambda>q.
     rbind (LanCore_NetworkIOThread_step ev t mem (lan_completion i RecvOverlapped True (length xs) 0 reply)
         (completed i RecvOverlapped (set_ses i ((ses s i)\<lparr>ns_mRecvQueue := q\<rparr>) s))) (\<lambda>(s, _). Inr s))"
| "lan_step ev t mem (LanSendDone i n reply) s =
     rbind (LanCore_NetworkIOThread_step ev t mem (lan_completion i SendOverlapped True n 0 reply) (completed i SendOverlapped s))
       (\<lambda>(s, _). Inr s)"
| "lan_step ev t mem (LanFailed i ov err) s =
     rbind (LanCore_NetworkIOThread_step ev t mem (lan_completion i ov False 0 err WSA_Done) (completed i ov s)) (\<lambda>(s, _). Inr s)"
| "lan_step ev t mem (LanSend sid a reply) s = rbind (LanCore_SendPacket ev reply sid a s) (\<lambda>(s, _). Inr s)"
| "lan_step ev t mem (LanDisconnect sid) s = rbind (LanCore_Disconnect ev sid s) (\<lambda>(s, _). Inr s)"
| "lan_step ev t mem LanAlloc s =
     rbind (Pool_Alloc LanHeaderSize LAN_PACKET_BODY_CAPACITY t mem (nc_send s)) (\<lambda>(pool, _). Inr (s\<lparr>nc_send := pool\<rparr>))"
| "lan_step ev t mem (LanFree a) s = rbind (TryFreePacket (nc_send s) a) (\<lambda>(pool, _). Inr (s\<lparr>nc_send := pool\<rparr>))"
| "lan_step ev t mem LanMonitor s = Inr (fst (LanCore_MonitorRefreshThread_step s))"

fun lan_enabled :: "lan_op \<Rightarrow> 'w lan_core \<Rightarrow> bool" where
  "lan_enabled (LanAccept None) s = True"
| "lan_enabled (LanAccept (Some a)) s = (stack_list (nc_mUnusedSession s) \<noteq> [] \<and> ae_port_created a)"
| "lan_enabled (LanRecvDone i xs reply) s =
     (i < length (nc_mSessionPool s) \<and> 0 < nc_recvs s i \<and>
      length xs \<le> rb_mMaxCapacity (ns_mRecvQueue (ses s i)) - rb_mUsedSize (ns_mRecvQueue (ses s i)))"
| "lan_enabled (LanSendDone i n reply) s = (i < length (nc_mSessionPool s) \<and> 0 < nc_sends s i)"
| "lan_enabled (LanFailed i ov err) s =
     (i < length (nc_mSessionPool s) \<and>
      (ov = RecvOverlapped \<and> 0 < nc_recvs s i \<or> ov = SendOverlapped \<and> 0 < nc_sends s i))"
| "lan_enabled (LanSend sid a reply) s =
     (unat (SessionIndex sid) < length (nc_mSessionPool s) \<and> 0 < pp_refs (nc_send s) a)"
| "lan_enabled (LanDisconnect sid) s = (unat (SessionIndex sid) < length (nc_mSessionPool s))"
| "lan_enabled LanAlloc s = True"
| "lan_enabled (LanFree a) s = (held s a < pp_refs (nc_send s) a)"
| "lan_enabled LanMonitor s = True"

inductive lan_reaches :: "'w ILanCoreEvent \<Rightarrow> 'w lan_core \<Rightarrow> 'w lan_core \<Rightarrow> bool" for ev s0 where
  lan_start: "lan_reaches ev s0 s0"
| lan_next: "lan_reaches ev s0 s \<Longrightarrow> lan_enabled op s \<Longrightarrow> lan_mem_ok mem \<Longrightarrow> lan_step ev t mem op s = Inr s' \<Longrightarrow>
    lan_reaches ev s0 s'"

text \<open>A receive that completes a body longer than the buffer of a packet, which is possible when the option allows it.\<close>

fun lan_too_long :: "lan_op \<Rightarrow> 'w lan_core \<Rightarrow> bool" where
  "lan_too_long (LanRecvDone i xs reply) s =
     (xs \<noteq> [] \<and> \<not> lan_fits (unat (no_MaxPacketBodyLength (nc_option s))) (rb_contents (ns_mRecvQueue (ses s i)) @ xs))"
| "lan_too_long _ s = False"

text \<open>A completed receive is the loop on the longer queue, the next receive, and the end of the request.\<close>

lemma lan_recv_done_eq:
  fixes s :: "'w lan_core"
  assumes inv: "lan_inv K (\<lambda>_. 0) {} s" and en: "lan_enabled (LanRecvDone i xs reply) s" and xs: "xs \<noteq> []"
  obtains s1 where
    "\<And>ev. lan_step ev t mem (LanRecvDone i xs reply) s =
       rbind (lan_recv_loop ev t mem i (Suc (rb_mUsedSize (ns_mRecvQueue (ses s1 i)))) s1) (\<lambda>(s, isPost).
       rbind (if isPost then LanCore_RecvPost ev reply i s else Inr s) (give_up_io ev i))"
    "lan_inv K ((\<lambda>_. 0)(i := 1)) {} s1" "i < length (nc_mSessionPool s1)" "live s1 i" "live s i"
    "rb_contents (ns_mRecvQueue (ses s1 i)) = rb_contents (ns_mRecvQueue (ses s i)) @ xs"
    "ns_mSessionID (ses s1 i) = ns_mSessionID (ses s i)" "nc_recvs s1 i = 0" "nc_sends s1 = nc_sends s"
    "nc_world s1 = nc_world s" "nc_option s1 = nc_option s" "length (nc_mSessionPool s1) = length (nc_mSessionPool s)"
    "nc_log s1 = nc_log s" "ns_mIsCloseSocket (ses s1 i) = ns_mIsCloseSocket (ses s i)"
    "ns_IsSendingAtomic (ses s1 i) = ns_IsSendingAtomic (ses s i)" "ns_mSendQueue (ses s1 i) = ns_mSendQueue (ses s i)"
proof -
  have i: "i < length (nc_mSessionPool s)" "0 < nc_recvs s i"
    "length xs \<le> rb_mMaxCapacity (ns_mRecvQueue (ses s i)) - rb_mUsedSize (ns_mRecvQueue (ses s i))"
    using en by auto
  have l: "live s i" using lan.slot_inD(6) [OF lan_invD(1) [OF inv i(1)]] i(2) by (simp add: live_def)
  have rb: "rb_inv (ns_mRecvQueue (ses s i))" "rb_mMaxCapacity (ns_mRecvQueue (ses s i)) = 4086"
    using lan_session(1) [OF inv i(1) l] by (auto simp: sess_inv_def)
  obtain q1 q2 where q: "kernel_fill (ns_mRecvQueue (ses s i)) xs = Inr q1" "RingBuffer_MoveWrite q1 (length xs) = (q2, length xs)"
    "rb_inv q2" "rb_contents q2 = rb_contents (ns_mRecvQueue (ses s i)) @ xs" "rb_mMaxCapacity q2 = rb_mMaxCapacity (ns_mRecvQueue (ses s i))"
    by (rule kernel_fill_MoveWrite [OF rb(1) i(3)]) (rule that)
  have kf: "lan_kernel_fill (ns_mRecvQueue (ses s i)) xs = Inr q1" using q(1) lan_kernel_fill_eq [OF rb(1) i(3)] by simp
  let ?c = "completed i RecvOverlapped (set_ses i ((ses s i)\<lparr>ns_mRecvQueue := q1\<rparr>) s)"
  define s1 where "s1 = set_ses i ((ses s i)\<lparr>ns_mRecvQueue := q2\<rparr>) ?c"
  have c: "ses ?c i = (ses s i)\<lparr>ns_mRecvQueue := q1\<rparr>" using i(1) by (simp add: completed_def ses_def set_ses_def)
  have s1: "s1 = completed i RecvOverlapped (set_ses i ((ses s i)\<lparr>ns_mRecvQueue := q2\<rparr>) s)"
    by (simp add: s1_def completed_def set_ses_def)
  have v: "ses s1 i = (ses s i)\<lparr>ns_mRecvQueue := q2\<rparr>" using i(1) by (simp add: s1 completed_def ses_def set_ses_def)
  have "lan_inv K (\<lambda>_. 0) {} (set_ses i ((ses s i)\<lparr>ns_mRecvQueue := q2\<rparr>) s)"
    by (rule lan_inv_queue [OF inv i(1) l q(3)]) (use q(5) rb(2) in simp)
  note k = lan.completed_ok [OF this, of i RecvOverlapped, folded s1]
  have k1: "lan_inv K ((\<lambda>_. 0)(i := 1)) {} s1" "nc_recvs s1 i = 0" using k(1,3) i(1,2) by simp_all
  have e: "lan_step ev t mem (LanRecvDone i xs reply) s =
       rbind (lan_recv_loop ev t mem i (Suc (rb_mUsedSize (ns_mRecvQueue (ses s1 i)))) s1) (\<lambda>(s, isPost).
       rbind (if isPost then LanCore_RecvPost ev reply i s else Inr s) (give_up_io ev i))" for ev
  proof -
    have "LanCore_NetworkRecvCompleted ev t mem reply i (length xs) ?c =
        rbind (lan_recv_loop ev t mem i (Suc (rb_mUsedSize (ns_mRecvQueue (ses s1 i)))) s1) (\<lambda>(s, isPost).
          if isPost then LanCore_RecvPost ev reply i s else Inr s)"
      using q(2) c v by (simp add: LanCore_NetworkRecvCompleted_def s1_def)
    moreover have "rbind (rbind (rbind r f) (\<lambda>s. rbind (g s) (\<lambda>s. Inr (s, True)))) (\<lambda>(s, _). Inr s) = rbind r (\<lambda>x. rbind (f x) g)"
      for r :: "('w lan_core \<times> bool) res" and f and g :: "'w lan_core \<Rightarrow> 'w lan_core res"
      by (cases r) (auto split: sum.split simp: rbind_def)
    ultimately show ?thesis using kf xs by (simp add: LanCore_NetworkIOThread_step_def lan_completion_def split_beta')
  qed
  show ?thesis
    by (rule that [of s1, OF e k1(1) _ _ l])
      (use k1(2) v i(1) l q(4) in \<open>simp_all add: live_def s1 completed_def set_ses_def\<close>)
qed

lemma lan_completion_ok:
  fixes s :: "'w lan_core"
  assumes ev: "lan_app_ok I ev" and mem: "lan_mem_ok mem" and inv: "lan_ok I s" and i: "i < length (nc_mSessionPool s)"
    and ov: "ov = RecvOverlapped \<and> 0 < nc_recvs s i \<or> ov = SendOverlapped \<and> 0 < nc_sends s i"
    and fits: "ov = RecvOverlapped \<Longrightarrow> ok \<Longrightarrow> n \<noteq> 0 \<Longrightarrow>
      lan_fits (unat (no_MaxPacketBodyLength (nc_option s))) (rb_contents (fst (RingBuffer_MoveWrite (ns_mRecvQueue (ses s i)) n)))"
  shows "lok (lan_ok I) (rbind (LanCore_NetworkIOThread_step ev t mem (lan_completion i ov ok n err reply) (completed i ov s))
    (\<lambda>(s, _). Inr s))"
proof -
  let ?c = "lan_completion i ov ok n err reply"
  have c: "cp_session ?c = Some i" "cp_overlapped ?c = Some ov" "cp_isSuccess ?c = ok" "cp_transferred ?c = n"
    by (simp_all add: lan_completion_def)
  note k = lan.completed_ok [OF inv i ov]
  have l: "live s i" using lan.slot_inD(6) [OF lan_invD(1) [OF inv i]] ov by (auto simp: live_def)
  have sel: "nc_option (completed i ov s) = nc_option s" "ses (completed i ov s) = ses s"
    by (simp_all add: completed_def ses_def fun_eq_iff split: overlapped.split)
  have w: "ov = SendOverlapped \<Longrightarrow> ns_IsSendingAtomic (ses s i) \<noteq> 0"
    using ov lan_session(5,6) [OF inv i l] by auto
  have z: "(\<lambda>_. 0)(i := 0) = (\<lambda>_. 0 :: nat)" by auto
  show ?thesis
    by (rule rok_bind [OF LanCore_NetworkIOThread_step_ok [OF ev mem k(1,2)]])
      (use c k(3,4) sel w fits z in auto)
qed

lemma lan_step_recv:
  fixes s :: "'w lan_core"
  assumes ev: "lan_app_ok I ev" and mem: "lan_mem_ok mem" and inv: "lan_ok I s" and en: "lan_enabled (LanRecvDone i xs reply) s"
    and fits: "\<not> lan_too_long (LanRecvDone i xs reply) s"
  shows "lok (lan_ok I) (lan_step ev t mem (LanRecvDone i xs reply) s)"
proof -
  have i: "i < length (nc_mSessionPool s)" "0 < nc_recvs s i"
    "length xs \<le> rb_mMaxCapacity (ns_mRecvQueue (ses s i)) - rb_mUsedSize (ns_mRecvQueue (ses s i))"
    using en by auto
  have l: "live s i" using lan.slot_inD(6) [OF lan_invD(1) [OF inv i(1)]] i(2) by (simp add: live_def)
  have rb: "rb_inv (ns_mRecvQueue (ses s i))" "rb_mMaxCapacity (ns_mRecvQueue (ses s i)) = 4086"
    using lan_session(1) [OF inv i(1) l] by (auto simp: sess_inv_def)
  obtain q q2 where q: "kernel_fill (ns_mRecvQueue (ses s i)) xs = Inr q" "RingBuffer_MoveWrite q (length xs) = (q2, length xs)"
    "rb_contents q2 = rb_contents (ns_mRecvQueue (ses s i)) @ xs"
    by (rule kernel_fill_MoveWrite [OF rb(1) i(3)]) (rule that)
  have qi: "rb_inv q" "rb_mMaxCapacity q = 4086" using kernel_fill_inv [OF rb(1) i(3)] q(1) rb(2) by simp_all
  let ?s1 = "set_ses i ((ses s i)\<lparr>ns_mRecvQueue := q\<rparr>) s"
  have "lan_ok I ?s1" by (rule lan_inv_queue [OF inv i(1) l qi])
  then have "lok (lan_ok I) (rbind (LanCore_NetworkIOThread_step ev t mem (lan_completion i RecvOverlapped True (length xs) 0 reply)
         (completed i RecvOverlapped ?s1)) (\<lambda>(s, _). Inr s))"
    by (rule lan_completion_ok [OF ev mem]) (use i(1,2) q(2,3) fits in auto)
  then show ?thesis using q(1) lan_kernel_fill_eq [OF rb(1) i(3)] by simp
qed

lemma lan_step_too_long:
  fixes s :: "'w lan_core"
  assumes ev: "lan_app_ok I ev" and mem: "lan_mem_ok mem" and inv: "lan_ok I s" and en: "lan_enabled op s" and long: "lan_too_long op s"
  shows "rok_in {InvalidArgument, CrashDumped, ReaderException, MemFault} (\<lambda>_. False) (lan_step ev t mem op s)"
proof -
  obtain i xs reply where op: "op = LanRecvDone i xs reply" "xs \<noteq> []"
    "\<not> lan_fits (unat (no_MaxPacketBodyLength (nc_option s))) (rb_contents (ns_mRecvQueue (ses s i)) @ xs)"
    using long by (cases op) simp_all
  obtain s1 where s1: "lan_step ev t mem (LanRecvDone i xs reply) s =
       rbind (lan_recv_loop ev t mem i (Suc (rb_mUsedSize (ns_mRecvQueue (ses s1 i)))) s1) (\<lambda>(s, isPost).
       rbind (if isPost then LanCore_RecvPost ev reply i s else Inr s) (give_up_io ev i))"
    "lan_inv (lan_app (\<lambda>_. 0) I) ((\<lambda>_. 0)(i := 1)) {} s1" "i < length (nc_mSessionPool s1)"
    "rb_contents (ns_mRecvQueue (ses s1 i)) = rb_contents (ns_mRecvQueue (ses s i)) @ xs" "nc_option s1 = nc_option s"
    by (rule lan_recv_done_eq [OF inv en [unfolded op(1)] op(2), of t mem]) (rule that)
  have "rok_in {InvalidArgument, CrashDumped, ReaderException, MemFault} (\<lambda>_. False)
      (lan_recv_loop ev t mem i (Suc (rb_mUsedSize (ns_mRecvQueue (ses s1 i)))) s1)"
    by (rule lan_recv_loop_overlong [OF ev mem s1(2,3)]) (use s1(4,5) op(3) in simp_all)
  then show ?thesis unfolding op(1) s1(1) by (rule rok_bind) simp
qed

lemma lan_step_ok:
  fixes s :: "'w lan_core"
  assumes ev: "lan_app_ok I ev" and mem: "lan_mem_ok mem" and inv: "lan_ok I s" and en: "lan_enabled op s"
    and fits: "\<not> lan_too_long op s"
  shows "lok (lan_ok I) (lan_step ev t mem op s)"
proof -
  note ev' = lan_app_okD(1) [OF ev, of "\<lambda>_. 0"]
  have p: "lan_pool (nc_send s)" "held s a \<le> pp_refs (nc_send s) a" for a
    using inv by (auto simp: lan_inv_def core_base_in_def Let_def)
  show ?thesis
  proof (cases op)
    case (LanAccept a)
    show ?thesis
      unfolding LanAccept lan_step.simps
      by (rule rok_bind [OF LanCore_NetworkAcceptThread_step_ok [OF ev' inv]]) (use en LanAccept inv in auto)
  next
    case (LanRecvDone i xs reply)
    then show ?thesis using lan_step_recv [OF ev mem inv] en fits by blast
  next
    case (LanSendDone i n reply)
    then show ?thesis using lan_completion_ok [OF ev mem inv, of i SendOverlapped] en by simp
  next
    case (LanFailed i ov err)
    then show ?thesis using lan_completion_ok [OF ev mem inv, of i ov] en by simp
  next
    case (LanSend sid a reply)
    show ?thesis
      unfolding LanSend lan_step.simps
      by (rule rok_bind [OF LanCore_SendPacket_ok [OF ev' inv]]) (use en LanSend inv in \<open>auto simp: core_frame_def\<close>)
  next
    case (LanDisconnect sid)
    show ?thesis
      unfolding LanDisconnect lan_step.simps
      by (rule rok_bind [OF LanCore_Disconnect_ok [OF ev' inv]]) (use en LanDisconnect inv in \<open>auto simp: core_frame_def\<close>)
  next
    case LanAlloc
    have kind: "1 \<le> (2 :: nat)" "2 \<le> (2000 :: nat)" "2 + 2000 < size_lim" by (simp_all add: size_lim_def)
    obtain pool a where r: "Pool_Alloc 2 2000 t mem (nc_send s) = Inr (pool, a)" "lan_pool pool" "pp_objs (nc_send s) a = None"
      "pp_objs pool = (pp_objs (nc_send s))(a \<mapsto> (Packet_Initial 2 2000 (mem a))\<lparr>pk_mRefCount := 1\<rparr>)"
      by (rule Pool_Alloc_ok [OF p(1) kind, of mem t], simp add: mem, rule that)
    have "pp_refs (nc_send s) b \<le> pp_refs pool b" for b using r(3,4) by (simp add: pp_refs_def)
    then have le: "held s b \<le> pp_refs pool b" for b using p(2) [of b] order_trans by blast
    have "lan_ok I (s\<lparr>nc_send := pool\<rparr>)" using lan.core_inv_send_pool [OF inv, of pool] r(2) le inv by simp
    then show ?thesis using LanAlloc r(1) by (simp add: LanHeaderSize_def LAN_PACKET_BODY_CAPACITY_def)
  next
    case (LanFree a)
    have "0 \<le> held s a" unfolding held_def by (rule sum_list_nonneg) auto
    then have "0 < pp_refs (nc_send s) a" using en LanFree by simp
    from TryFreePacket_ok [OF p(1) this] obtain pool ok where
      r: "TryFreePacket (nc_send s) a = Inr (pool, ok)" "lan_pool pool" "pp_refs pool = (pp_refs (nc_send s))(a := pp_refs (nc_send s) a - 1)" by metis
    have "lan_ok I (s\<lparr>nc_send := pool\<rparr>)"
      using lan.core_inv_send_pool [OF inv, of pool] r(2,3) p(2) en LanFree inv by auto
    then show ?thesis using LanFree r(1) by simp
  next
    case LanMonitor
    then show ?thesis using inv by (simp add: LanCore_MonitorRefreshThread_step_def)
  qed
qed

lemma lan_reaches_inv:
  assumes "lan_reaches ev s0 s" "lan_app_ok I ev" "lan_ok I s0"
  shows "lan_ok I s"
  using assms(1)
proof induction
  case lan_start
  then show ?case using assms(3) .
next
  case (lan_next s op mem t s')
  note h = assms(2) lan_next.hyps(3) lan_next.IH lan_next.hyps(2)
  have "\<not> lan_too_long op s" using lan_step_too_long [OF h, of t] lan_next.hyps(4) by auto
  then show ?case using lan_step_ok [OF h, of t] lan_next.hyps(4) by simp
qed

text \<open>A core that was started, with any option, and has run for a while.\<close>

definition lan_running :: "(nat \<Rightarrow> 'w \<Rightarrow> bool) \<Rightarrow> 'w ILanCoreEvent \<Rightarrow> 'w lan_core \<Rightarrow> bool" where
  "lan_running I ev s \<longleftrightarrow>
     (\<exists>replies garbage uid option uid' send recv world s0 threads.
        LanCore_Start True replies garbage uid option (lan_create uid' send recv world) = Inr (s0, None, threads) \<and>
        unat (so_MaxSessionCount option) \<le> 65536 \<and>
        lan_pool send \<and> lan_pool recv \<and> I (unat (so_MaxSessionCount option)) world \<and> lan_reaches ev s0 s)"

lemma lan_running_inv:
  assumes ev: "lan_app_ok I ev" and run: "lan_running I ev s"
  shows "lan_ok I s"
proof -
  obtain r garbage uid option uid' send recv world s0 threads where
    s0: "LanCore_Start True r garbage uid option (lan_create uid' send recv world) = Inr (s0, None, threads)"
    "unat (so_MaxSessionCount option) \<le> 65536"
    "lan_pool send" "lan_pool recv" "I (unat (so_MaxSessionCount option)) world" "lan_reaches ev s0 s"
    using run unfolding lan_running_def by blast
  have "ValidateOption option" using s0(1) by (auto simp: LanCore_Start_def split: if_splits)
  then have "lan_ok I s0"
    using LanCore_Start_ok [where I = I and world = world, OF _ s0(2-5), of garbage uid uid'] s0(1)
    by (metis Pair_inject sum.inject(2))
  then show ?thesis using lan_reaches_inv [OF s0(6) ev] by blast
qed

lemma lan_running_step:
  "lan_running I ev s \<Longrightarrow> lan_enabled op s \<Longrightarrow> lan_mem_ok mem \<Longrightarrow> lan_step ev t mem op s = Inr s' \<Longrightarrow> lan_running I ev s'"
  unfolding lan_running_def using lan_next by blast

end
