(* ===== verification/Lan_Echo.thy ===== *)
theory Lan_Echo
  imports Lan_Server
begin

text \<open>
  The application in \<^verbatim>\<open>playground_lan/Main.cpp\<close>: it answers every packet with its first eight bytes. What the system answers to
  a call of the handler is given by \<open>env\<close>, a function of the length of the history, which no two calls share.
\<close>

record echo_env =
  ee_thread :: nat
  ee_mem :: "nat \<Rightarrow> byte list"
  ee_reply :: wsa_reply

text \<open>The callbacks that \<^verbatim>\<open>SendPacket\<close> can reach.\<close>

definition echo_callbacks :: "'w ILanCoreEvent" where
  "echo_callbacks =
     \<lparr>le_OnConnectionRequested = \<lambda>_ _ _. True, le_OnConnected = \<lambda>_ s. Inr s, le_OnReceived = \<lambda>_ _ p s. Inr (p, s),
      le_OnSent = \<lambda>_ _ s. Inr s, le_OnDisconnected = \<lambda>_ s. Inr s\<rparr>"

definition echo_OnReceived :: "echo_env \<Rightarrow> u64 \<Rightarrow> nat \<Rightarrow> Packet \<Rightarrow> 'w lan_core \<Rightarrow> (Packet \<times> 'w lan_core) res" where
  "echo_OnReceived e sid a recvPacket s =
     rbind (stream_read recvPacket 8) (\<lambda>(recvPacket, val).
     rbind (Pool_Alloc LanHeaderSize LAN_PACKET_BODY_CAPACITY (ee_thread e) (ee_mem e) (nc_send s)) (\<lambda>(pool, b).
     case pp_objs pool b of None \<Rightarrow> Inl DeadObject | Some sendPacket \<Rightarrow>
     rbind (stream_write sendPacket 8 val) (\<lambda>sendPacket.
     let s = s\<lparr>nc_send := pool\<lparr>pp_objs := (pp_objs pool)(b \<mapsto> sendPacket)\<rparr>\<rparr> in
     rbind (LanCore_SendPacket echo_callbacks (ee_reply e) sid b s) (\<lambda>(s, _).
     rbind (TryFreePacket (nc_send s) b) (\<lambda>(pool, _).
       Inr (recvPacket, s\<lparr>nc_send := pool\<rparr>))))))"

definition echo_events :: "(nat \<Rightarrow> echo_env) \<Rightarrow> 'w ILanCoreEvent" where
  "echo_events env = echo_callbacks\<lparr>le_OnReceived := \<lambda>sid a p s. echo_OnReceived (env (length (nc_log s))) sid a p s\<rparr>"

abbreviation any_state :: "nat \<Rightarrow> 'w \<Rightarrow> bool" where
  "any_state \<equiv> \<lambda>_ _. True"

subsection \<open>The contract of an application\<close>

text \<open>References of the application that change together with the pool.\<close>

lemma lan_inv_refs_change:
  assumes inv: "lan_inv (lan_app m I) x W s" and p: "lan_pool pool"
    and d: "\<And>a. m' a - m a = pp_refs pool a - pp_refs (nc_send s) a" "\<And>a. 0 \<le> m' a"
  shows "lan_inv (lan_app m' I) x W (s\<lparr>nc_send := pool\<rparr>)"
proof -
  have e: "ses (s\<lparr>nc_send := pool\<rparr>) = ses s" "live (s\<lparr>nc_send := pool\<rparr>) = live s" "held (s\<lparr>nc_send := pool\<rparr>) = held s"
    by (simp_all add: ses_def live_def held_def fun_eq_iff)
  have "held s a + m a \<le> pp_refs (nc_send s) a" for a using inv by (simp add: core_inv_in_def core_base_in_def Let_def)
  then have "held s a + m' a \<le> pp_refs pool a" for a using d(1) [of a] by (smt (verit))
  then show ?thesis using inv p d(2) by (simp add: core_inv_in_def core_base_in_def log_ok_def Let_def e)
qed

lemma stream_read_lan:
  assumes "lan_packet p"
  shows "stream_read p n = Inl ReaderException \<or>
    (\<exists>p' v. stream_read p n = Inr (p', v) \<and> lan_packet p' \<and> pk_mRefCount p' = pk_mRefCount p)"
proof (cases "n \<le> length (pk_unread p)")
  case True
  have "lan_packet (p\<lparr>pk_mReadPos := pk_mReadPos p + n\<rparr>)" using assms pk_inv_read [OF _ True] by (simp add: packet_kind_def)
  then show ?thesis using assms True by (auto simp: stream_read_def GetBody_eq packet_kind_def)
qed (use assms stream_read_short [of p n] in \<open>auto simp: packet_kind_def\<close>)

text \<open>A fresh packet of the send pool with eight bytes in it.\<close>

lemma echo_alloc:
  assumes p: "lan_pool pool0" and mem: "lan_mem_ok mem"
  obtains pool b q q' where "Pool_Alloc 2 2000 t mem pool0 = Inr (pool, b)" "pp_objs pool b = Some q" "stream_write q 8 v = Inr q'"
    "lan_pool (pool\<lparr>pp_objs := (pp_objs pool)(b \<mapsto> q')\<rparr>)" "lan_packet q'" "pk_body q' = le_bytes 8 v" "pk_mRefCount q' = 1"
    "\<And>a. pp_refs (pool\<lparr>pp_objs := (pp_objs pool)(b \<mapsto> q')\<rparr>) a = pp_refs pool0 a + (if a = b then 1 else 0)" "pp_refs pool0 b = 0"
proof -
  have kind: "1 \<le> (2 :: nat)" "2 \<le> (2000 :: nat)" "2 + 2000 < size_lim" by (simp_all add: size_lim_def)
  obtain pool b where al: "Pool_Alloc 2 2000 t mem pool0 = Inr (pool, b)" "lan_pool pool" "pp_objs pool0 b = None"
    "pp_objs pool = (pp_objs pool0)(b \<mapsto> (Packet_Initial 2 2000 (mem b))\<lparr>pk_mRefCount := 1\<rparr>)"
    by (rule Pool_Alloc_ok [OF p kind, of mem t], simp add: mem, rule that)
  define q where "q = (Packet_Initial 2 2000 (mem b))\<lparr>pk_mRefCount := 1\<rparr>"
  have q: "pp_objs pool b = Some q" "pk_mWritePos q = 2" "pk_mRefCount q = 1" "pk_tBodyCapacity q = 2000" "pk_body q = []"
    using al(4) by (simp_all add: q_def Packet_Initial_def pk_body_def)
  then have lq: "lan_packet q" using al(2) by (simp add: pool_inv_def)
  then have iq: "pk_inv q" by (simp add: packet_kind_def)
  obtain q' where "PutBody q (le_bytes 8 v) 8 = Inr (q', 8)" "pk_inv q'" "pk_body q' = pk_body q @ le_bytes 8 v"
    "q' = q\<lparr>pk_mBuffer := pk_mBuffer q', pk_mWritePos := pk_mWritePos q + 8\<rparr>"
    using PutBody_spec [OF iq, of 8 "le_bytes 8 v"] q(2,4) by (auto simp: min_absorb1)
  note q' = this
  have "stream_write q 8 v = Inr q'" using q'(1) by (simp add: stream_write_def)
  moreover have rc: "pk_mRefCount q' = pk_mRefCount q" "pk_tHeaderSize q' = pk_tHeaderSize q" "pk_tBodyCapacity q' = pk_tBodyCapacity q"
    using q'(4) by (auto dest: arg_cong [of _ _ pk_mRefCount] arg_cong [of _ _ pk_tHeaderSize] arg_cong [of _ _ pk_tBodyCapacity])
  moreover have lq': "lan_packet q'" using lq q'(2) rc by (simp add: packet_kind_def)
  moreover note pool_inv_same_refs [OF al(2) q(1) lq' rc(1)]
  ultimately show ?thesis
    using that [of pool b q q'] al(1,3,4) q(1,3,5) q'(3) by (simp add: pp_refs_def)
qed

lemma echo_callbacks_ok: "lan_handlers_ok K echo_callbacks"
  by (simp add: lan_handlers_ok_def echo_callbacks_def)

lemma echo_OnReceived_ok:
  fixes s :: "'w lan_core"
  assumes mem: "lan_mem_ok (ee_mem e)" and inv: "lan_inv (lan_app m I) x W s" and n: "unat (SessionIndex sid) < length (nc_mSessionPool s)"
    and p: "lan_packet p" "pk_mRefCount p = 1"
  shows "lok (\<lambda>(p', s'). lan_packet p' \<and> 1 \<le> pk_mRefCount p' \<and> lan_keeps (lan_app m I) x W s s') (echo_OnReceived e sid a p s)"
proof (cases "stream_read p 8 = Inl ReaderException")
  case True
  then show ?thesis by (simp add: echo_OnReceived_def)
next
  case False
  then obtain p' v where r: "stream_read p 8 = Inr (p', v)" "lan_packet p'" "pk_mRefCount p' = 1"
    using stream_read_lan [OF p(1), of 8] p(2) by auto
  have m0: "0 \<le> m c" for c using inv by (simp add: core_inv_in_def core_base_in_def Let_def)
  have sp: "lan_pool (nc_send s)" using inv by (simp add: core_inv_in_def core_base_in_def Let_def)
  obtain pool b q q' where q: "Pool_Alloc 2 2000 (ee_thread e) (ee_mem e) (nc_send s) = Inr (pool, b)" "pp_objs pool b = Some q"
    "stream_write q 8 v = Inr q'" "lan_pool (pool\<lparr>pp_objs := (pp_objs pool)(b \<mapsto> q')\<rparr>)" "pk_mRefCount q' = 1"
    "\<And>a. pp_refs (pool\<lparr>pp_objs := (pp_objs pool)(b \<mapsto> q')\<rparr>) a = pp_refs (nc_send s) a + (if a = b then 1 else 0)" "pp_refs (nc_send s) b = 0"
    by (rule echo_alloc [OF sp mem, of "ee_thread e" v]) (rule that)
  let ?s1 = "s\<lparr>nc_send := pool\<lparr>pp_objs := (pp_objs pool)(b \<mapsto> q')\<rparr>\<rparr>"
  let ?m = "m(b := m b + 1)"
  have k1: "lan_inv (lan_app ?m I) x W ?s1"
    by (rule lan_inv_refs_change [OF inv q(4)]) (use q(6) m0 in auto)
  have f1: "core_frame s ?s1" "unat (SessionIndex sid) < length (nc_mSessionPool ?s1)" "0 < pp_refs (nc_send ?s1) b"
    using n q(6,7) by (simp_all add: core_frame_def live_def ses_def)
  have "lok (\<lambda>(p', s'). lan_packet p' \<and> 1 \<le> pk_mRefCount p' \<and> lan_keeps (lan_app m I) x W s s')
    (rbind (LanCore_SendPacket echo_callbacks (ee_reply e) sid b ?s1) (\<lambda>(s, _).
     rbind (TryFreePacket (nc_send s) b) (\<lambda>(pool, _). Inr (p', s\<lparr>nc_send := pool\<rparr>))))"
  proof (rule rok_bind [OF LanCore_SendPacket_ok [OF echo_callbacks_ok k1 f1(2,3)]], clarify)
    fix s2 :: "'w lan_core" assume s2: "lan_inv (lan_app ?m I) x W s2" "core_frame ?s1 s2"
    have "\<forall>a. held s2 a + ?m a \<le> pp_refs (nc_send s2) a" and h2: "lan_pool (nc_send s2)"
      using s2(1) by (simp_all add: core_inv_in_def core_base_in_def Let_def del: fun_upd_apply)
    then have h: "held s2 b + ?m b \<le> pp_refs (nc_send s2) b" by blast
    have "0 \<le> held s2 b" unfolding held_def by (rule sum_list_nonneg) auto
    then have "0 < pp_refs (nc_send s2) b" using h m0 [of b] by simp
    from TryFreePacket_ok [OF h2 this] obtain pool2 ok where
      f: "TryFreePacket (nc_send s2) b = Inr (pool2, ok)" "lan_pool pool2" "pp_refs pool2 = (pp_refs (nc_send s2))(b := pp_refs (nc_send s2) b - 1)" by metis
    have "lan_inv (lan_app m I) x W (s2\<lparr>nc_send := pool2\<rparr>)"
      by (rule lan_inv_refs_change [OF s2(1) f(2)]) (use f(3) m0 in auto)
    moreover have "core_frame s (s2\<lparr>nc_send := pool2\<rparr>)"
      using core_frame_trans [OF f1(1) s2(2)] by (simp add: core_frame_def live_def ses_def)
    ultimately show "lok (\<lambda>(p', s'). lan_packet p' \<and> 1 \<le> pk_mRefCount p' \<and> lan_keeps (lan_app m I) x W s s')
        (rbind (TryFreePacket (nc_send s2) b) (\<lambda>(pool, _). Inr (p', s2\<lparr>nc_send := pool\<rparr>)))"
      using f(1) r(2,3) by simp
  qed
  then show ?thesis using r(1) q(1-3) by (simp add: echo_OnReceived_def LanHeaderSize_def LAN_PACKET_BODY_CAPACITY_def Let_def)
qed

lemma echo_contract:
  assumes "\<And>n. lan_mem_ok (ee_mem (env n))"
  shows "lan_app_ok I (echo_events env)"
proof -
  have "lan_handlers_ok K (echo_events env)" for K by (simp add: lan_handlers_ok_def echo_events_def echo_callbacks_def)
  then show ?thesis
    unfolding lan_app_ok_def
    by (auto simp: echo_events_def intro!: echo_OnReceived_ok assms [rule_format])
qed

subsection \<open>Answering\<close>

text \<open>
  Sending to an open, idle session: the header is set, the packet is queued, and given to the kernel at once. No handler is
  called.
\<close>

lemma pk_wire_lan:
  assumes "lan_packet p" "p' = p\<lparr>pk_mBuffer := le_bytes 2 (GetBodySize p) @ drop 2 (pk_mBuffer p)\<rparr>"
  shows "pk_wire p' = lan_frame (pk_body p)"
proof -
  have p: "pk_inv p" "pk_tHeaderSize p = 2" "2 \<le> pk_mWritePos p" "length (pk_mBuffer p) = 2002" "pk_mWritePos p \<le> 2000"
    using assms(1) by (auto simp: packet_kind_def pk_inv_def)
  have "GetPacketSize p' = pk_mWritePos p"
    using pk_inv_sizes(2) [OF p(1)] by (simp add: assms(2) GetPacketSize_def GetHeaderSize_def GetBodySize_def)
  then show ?thesis using p pk_inv_sizes(1) [OF p(1)] by (simp add: pk_wire_def lan_frame_def assms(2) pk_body_def)
qed

lemma set_ses_twice [simp]: "set_ses i v (set_ses i w s) = set_ses i v s"
  by (simp add: set_ses_def)

lemma LanCore_SendPost_posts:
  assumes "i < length (nc_mSessionPool s)" "LanSession_ReadySending (ses s i) (nc_send s) = Inr (v, Some out)"
    "ns_mSocket v \<noteq> None" "wsa_posted reply"
  shows "LanCore_SendPost ev reply i s = Inr ((set_ses i (v\<lparr>ns_IOCountAtomic := ns_IOCountAtomic v + 1\<rparr>) s)
    \<lparr>nc_sends := (nc_sends s)(i := nc_sends s i + 1), nc_mSendCountPerSec := nc_mSendCountPerSec s + 1\<rparr>, True)"
proof -
  obtain y where "ns_mSocket v = Some y" using assms(3) by blast
  then show ?thesis using assms by (simp add: LanCore_SendPost_def Let_def IncrementIO_def wsa_on_def) (simp add: set_ses_def)
qed

lemma give_up_io_more:
  assumes "1 < ns_IOCountAtomic (ses s i)"
  shows "give_up_io ev i s = Inr (set_ses i ((ses s i)\<lparr>ns_IOCountAtomic := ns_IOCountAtomic (ses s i) - 1\<rparr>) s)"
  using assms by (simp add: give_up_io_def LanManager_DecrementIO_def Let_def)

lemma LanCore_SendPacket_posts:
  assumes inv: "lan_inv K x W s" and i: "unat (SessionIndex sid) = i" "i < length (nc_mSessionPool s)" "live s i"
    and sid: "ns_mSessionID (ses s i) = sid" "ns_mIsCloseSocket (ses s i) = 0"
    and io: "0 < x i + nc_recvs s i + nc_sends s i"
    and idle: "ns_IsSendingAtomic (ses s i) = 0" "queue_list (ns_mSendQueue (ses s i)) = []"
    and a: "pp_objs (nc_send s) a = Some p" and reply: "wsa_posted reply"
  shows "\<exists>s'. LanCore_SendPacket ev reply sid a s = Inr (s', True) \<and> nc_sends s' i = nc_sends s i + 1 \<and>
    sending (ses s' i) = [a] \<and> queue_list (ns_mSendQueue (ses s' i)) = [] \<and> pp_refs (nc_send s') a = pp_refs (nc_send s) a + 1 \<and>
    pk_wire (the (pp_objs (nc_send s') a)) = lan_frame (pk_body p) \<and>
    length (nc_mSessionPool s') = length (nc_mSessionPool s) \<and> nc_log s' = nc_log s \<and> ns_mIsCloseSocket (ses s' i) = 0"
proof -
  let ?x = "x(i := x i + 1)"
  define t1 where "t1 = fst (IncrementIO i s)"
  note d0 = lan_session [OF inv i(2,3)]
  have c: "0 < ns_IOCountAtomic (ses s i)" using d0(3) io by linarith
  have s1: "IncrementIO i s = (t1, ns_IOCountAtomic (ses s i) + 1)" "ses t1 i = (ses s i)\<lparr>ns_IOCountAtomic := ns_IOCountAtomic (ses s i) + 1\<rparr>"
    "nc_send t1 = nc_send s" "nc_sends t1 = nc_sends s" "nc_log t1 = nc_log s" "length (nc_mSessionPool t1) = length (nc_mSessionPool s)"
    using i(2) by (simp_all add: t1_def IncrementIO_def Let_def)
  note k1 = lan.IncrementIO_ok [OF inv i(2,3), folded t1_def]
  have lp: "lan_packet p" "0 < pp_refs (nc_send s) a" using lan_invD(3) [OF inv i(2)] a by (force simp: pool_inv_def pp_refs_def)+
  obtain p' where p': "SetHeader p (le_bytes 2 (GetBodySize p)) = Inr p'" "lan_packet p'" "pk_mRefCount p' = pk_mRefCount p"
    "p' = p\<lparr>pk_mBuffer := le_bytes 2 (GetBodySize p) @ drop 2 (pk_mBuffer p)\<rparr>"
    using SetHeader_lan [OF lp(1), of "GetBodySize p"] by metis
  let ?s2 = "t1\<lparr>nc_send := (nc_send s)\<lparr>pp_objs := (pp_objs (nc_send s))(a \<mapsto> p')\<rparr>\<rparr>"
  have s2: "set_packet_header a t1 = Inr ?s2" using a p'(1) s1(3) by (simp add: set_packet_header_def)
  obtain t2 where "set_packet_header a t1 = Inr t2" "lan_inv K ?x W t2"
    by (rule set_packet_header_ok [OF k1(1), of i a]) (use i(2) lp(2) s1 in simp_all)
  then have k2: "lan_inv K ?x W ?s2" using s2 by simp
  have i2: "i < length (nc_mSessionPool ?s2)" "live ?s2 i" using i s1(2,6) by (simp_all add: live_def ses_def)
  define v2 where "v2 = ses ?s2 i"
  have "ses ?s2 = ses t1" by (simp add: ses_def fun_eq_iff)
  then have v2: "v2 = (ses s i)\<lparr>ns_IOCountAtomic := ns_IOCountAtomic (ses s i) + 1\<rparr>" using s1(2) by (simp add: v2_def)
  note d = lan_session [OF k2 i2, folded v2_def]
  have a2: "0 < pp_refs (nc_send ?s2) a" using lp(2) a p'(3) by (simp add: pp_refs_def)
  obtain q pool where e: "LanSession_Enqueue v2 (nc_send ?s2) a = Inr (v2\<lparr>ns_mSendQueue := q\<rparr>, pool, True)"
    "lan_sess_inv (v2\<lparr>ns_mSendQueue := q\<rparr>)" "lan_refs_ok (v2\<lparr>ns_mSendQueue := q\<rparr>) pool"
    "queue_list q = queue_list (ns_mSendQueue v2) @ [a]" "pp_refs pool = (pp_refs (nc_send ?s2))(a := pp_refs (nc_send ?s2) a + 1)"
    using LanSession_Enqueue_ok [OF d(1,7) a2 d(8)] by blast
  let ?v3 = "v2\<lparr>ns_mSendQueue := q\<rparr>"
  have obj: "pp_objs pool a = Some (fst (Packet_AddRef p'))"
    using e(1) d(8) by (auto simp: LanSession_Enqueue_def AddRefPacket_def IsReleased_def rbind_eq_Inr Let_def split: if_splits)
  then have wire: "pk_wire (the (pp_objs pool a)) = lan_frame (pk_body p)"
    using pk_wire_lan [OF lp(1) p'(4)] by (simp add: Packet_AddRef_def pk_wire_def GetPacketSize_def GetHeaderSize_def GetBodySize_def)
  have q1: "queue_list (ns_mSendQueue ?v3) = [a] @ []" "[a] \<noteq> []" "length [a] \<le> 300" "length ([a] @ []) mod 2 ^ 64 = length [a]"
    "ns_IsSendingAtomic ?v3 = 0"
    using e(4) v2 idle by simp_all
  obtain v4 where r: "LanSession_ReadySending ?v3 pool = Inr (v4, Some (map (\<lambda>a. (a, GetPacketSize (the (pp_objs pool a)))) [a]))"
    "sending v4 = [a]" "queue_list (ns_mSendQueue v4) = []"
    "v4 = ?v3\<lparr>ns_mSendQueue := ns_mSendQueue v4, ns_PacketBuffer := ns_PacketBuffer v4,
           ns_PacketCount := ns_PacketCount v4, ns_TotalByteSize := ns_TotalByteSize v4, ns_IsSendingAtomic := 1\<rparr>"
    by (rule LanSession_ReadySending_prefix [OF e(2,3) q1(5,1-4)]) (rule that)
  have v4: "ns_IOCountAtomic v4 = ns_IOCountAtomic (ses s i) + 1" "ns_mSocket v4 \<noteq> None" "ns_mIsCloseSocket v4 = 0"
    using arg_cong [OF r(4), of ns_IOCountAtomic] arg_cong [OF r(4), of ns_mSocket] arg_cong [OF r(4), of ns_mIsCloseSocket] v2 d0(2) sid(2) by (auto simp: IsClosed_def)
  define s3 where "s3 = (set_ses i ?v3 ?s2)\<lparr>nc_send := pool\<rparr>"
  have s3: "i < length (nc_mSessionPool s3)" "ses s3 i = ?v3" "nc_send s3 = pool" "nc_sends s3 = nc_sends s" "nc_log s3 = nc_log s"
    "length (nc_mSessionPool s3) = length (nc_mSessionPool s)"
    using i2(1) s1(4-6) by (simp_all add: s3_def ses_def set_ses_def)
  define s5 where "s5 = (set_ses i (v4\<lparr>ns_IOCountAtomic := ns_IOCountAtomic v4 + 1\<rparr>) s3)
    \<lparr>nc_sends := (nc_sends s3)(i := nc_sends s3 i + 1), nc_mSendCountPerSec := nc_mSendCountPerSec s3 + 1\<rparr>"
  have sp: "LanCore_SendPost ev reply i s3 = Inr (s5, True)"
    unfolding s5_def by (rule LanCore_SendPost_posts) (use s3 r(1) v4(2) reply in simp_all)
  have s5: "ses s5 i = v4\<lparr>ns_IOCountAtomic := ns_IOCountAtomic v4 + 1\<rparr>" "nc_send s5 = pool" "nc_sends s5 = (nc_sends s)(i := nc_sends s i + 1)"
    "nc_log s5 = nc_log s" "length (nc_mSessionPool s5) = length (nc_mSessionPool s)" "i < length (nc_mSessionPool s5)"
    using s3 by (simp_all add: s5_def ses_def set_ses_def)
  let ?s6 = "set_ses i ((ses s5 i)\<lparr>ns_IOCountAtomic := ns_IOCountAtomic (ses s5 i) - 1\<rparr>) s5"
  have gu: "give_up_io ev i s5 = Inr ?s6" by (rule give_up_io_more) (use s5(1) v4(1) c in simp)
  have "LanManager_FindSessionOrNull sid s = Inr i" using i by (simp add: LanManager_FindSessionOrNull_def Let_def)
  then have "LanCore_SendPacket ev reply sid a s = Inr (?s6, True)"
    using sid d0(8) c s1(1,2) s2 e(1) sp gu
    by (simp add: LanCore_SendPacket_def IsReleased_def v2_def [symmetric] Let_def s3_def [symmetric])
  moreover have "ses ?s6 i = v4" using s5(1,6) by simp
  moreover have "pp_refs (nc_send ?s2) a = pp_refs (nc_send s) a" using a p'(3) by (simp add: pp_refs_def)
  ultimately show ?thesis
    using r(2,3) e(5) wire s5 v4(3) by (intro exI [of _ ?s6]) simp
qed

text \<open>The whole callback: the answer is under way, and the reference of the handler is given back.\<close>

lemma echo_OnReceived_answers:
  fixes s :: "'w lan_core"
  assumes mem: "lan_mem_ok (ee_mem e)" and inv: "lan_inv (lan_app m I) x W s"
    and i: "i < length (nc_mSessionPool s)" "live s i" "ns_mIsCloseSocket (ses s i) = 0" "0 < x i + nc_recvs s i + nc_sends s i"
    and idle: "ns_IsSendingAtomic (ses s i) = 0" "queue_list (ns_mSendQueue (ses s i)) = []"
    and p: "lan_packet p" "8 \<le> length (pk_unread p)" and reply: "wsa_posted (ee_reply e)"
  shows "\<exists>p' s' b. echo_OnReceived e (ns_mSessionID (ses s i)) a p s = Inr (p', s') \<and> nc_sends s' i = nc_sends s i + 1 \<and>
    sending (ses s' i) = [b] \<and> pp_refs (nc_send s') b = 1 \<and> nc_log s' = nc_log s \<and> ns_mIsCloseSocket (ses s' i) = 0 \<and>
    pk_wire (the (pp_objs (nc_send s') b)) = lan_frame (take 8 (pk_unread p))"
proof -
  let ?sid = "ns_mSessionID (ses s i)"
  define v where "v = le_nat (take 8 (pk_unread p))"
  have l8: "length (take 8 (pk_unread p)) = 8" using p(2) by simp
  have v: "le_bytes 8 v = take 8 (pk_unread p)" "v < 256 ^ 8"
    using le_bytes_le_nat [of "take 8 (pk_unread p)"] le_nat_bound [of "take 8 (pk_unread p)"] unfolding v_def l8 by simp_all
  have "pk_unread p = le_bytes 8 v @ drop 8 (pk_unread p)" by (simp add: v(1))
  then obtain p' where r: "stream_read p 8 = Inr (p', v)"
    using stream_read_spec [of p 8 v "drop 8 (pk_unread p)"] v(2) p(1) by (auto simp: packet_kind_def)
  have m0: "0 \<le> m c" for c using inv by (simp add: core_inv_in_def core_base_in_def Let_def)
  have sp: "lan_pool (nc_send s)" using inv by (simp add: core_inv_in_def core_base_in_def Let_def)
  obtain pool b q q' where q: "Pool_Alloc 2 2000 (ee_thread e) (ee_mem e) (nc_send s) = Inr (pool, b)" "pp_objs pool b = Some q"
    "stream_write q 8 v = Inr q'" "lan_pool (pool\<lparr>pp_objs := (pp_objs pool)(b \<mapsto> q')\<rparr>)" "pk_body q' = le_bytes 8 v" "pk_mRefCount q' = 1"
    "\<And>a. pp_refs (pool\<lparr>pp_objs := (pp_objs pool)(b \<mapsto> q')\<rparr>) a = pp_refs (nc_send s) a + (if a = b then 1 else 0)" "pp_refs (nc_send s) b = 0"
    by (rule echo_alloc [OF sp mem, of "ee_thread e" v]) (rule that)
  define s1 where "s1 = s\<lparr>nc_send := pool\<lparr>pp_objs := (pp_objs pool)(b \<mapsto> q')\<rparr>\<rparr>"
  have k1: "lan_inv (lan_app (m(b := m b + 1)) I) x W s1"
    unfolding s1_def by (rule lan_inv_refs_change [OF inv q(4)]) (use q(7) m0 in auto)
  have s1: "ses s1 = ses s" "live s1 = live s" "length (nc_mSessionPool s1) = length (nc_mSessionPool s)" "nc_recvs s1 = nc_recvs s"
    "nc_sends s1 = nc_sends s" "nc_log s1 = nc_log s" "pp_objs (nc_send s1) b = Some q'" "pp_refs (nc_send s1) b = 1"
    using q(6) by (simp_all add: s1_def ses_def live_def pp_refs_def fun_eq_iff)
  obtain s2 where s2: "LanCore_SendPacket echo_callbacks (ee_reply e) ?sid b s1 = Inr (s2, True)" "nc_sends s2 i = nc_sends s i + 1"
    "sending (ses s2 i) = [b]" "pp_refs (nc_send s2) b = 2" "pk_wire (the (pp_objs (nc_send s2) b)) = lan_frame (pk_body q')"
    "nc_log s2 = nc_log s" "ns_mIsCloseSocket (ses s2 i) = 0"
    using LanCore_SendPacket_posts [OF k1 lan.live_index [OF inv i(1,2)], of b q' "ee_reply e" echo_callbacks] i idle s1 reply by auto
  obtain o2 where o2: "pp_objs (nc_send s2) b = Some o2" "pk_mRefCount o2 = 2" using s2(4) by (auto simp: pp_refs_def split: option.splits)
  let ?o = "o2\<lparr>pk_mRefCount := 1\<rparr>" let ?pool = "(nc_send s2)\<lparr>pp_objs := (pp_objs (nc_send s2))(b \<mapsto> ?o)\<rparr>"
  have "TryFreePacket (nc_send s2) b = Inr (?pool, False)" using o2 by (simp add: TryFreePacket_def Packet_SubRef_def)
  then have "echo_OnReceived e ?sid a p s = Inr (p', s2\<lparr>nc_send := ?pool\<rparr>)"
    using r q(1-3) s2(1) by (simp add: echo_OnReceived_def LanHeaderSize_def LAN_PACKET_BODY_CAPACITY_def Let_def s1_def)
  moreover have "pk_wire ?o = pk_wire o2" by (simp add: pk_wire_def GetPacketSize_def GetHeaderSize_def GetBodySize_def)
  moreover have "ses (s2\<lparr>nc_send := ?pool\<rparr>) = ses s2" by (simp add: ses_def fun_eq_iff)
  ultimately show ?thesis
    using s2 o2(1) q(5) v(1) by (intro exI [of _ p'] exI [of _ "s2\<lparr>nc_send := ?pool\<rparr>"] exI [of _ b]) (simp add: pp_refs_def)
qed

end
