(* ===== verification/Lan_Stream.thy ===== *)
theory Lan_Stream
  imports Lan_Echo
begin

text \<open>
  A connection as the client sees it: a stream of bytes that the kernel hands over in pieces of its own choice.
\<close>

subsection \<open>Frames of a stream that arrives in pieces\<close>

lemma lan_frames_append:
  "lan_frames limit xs = (bodies, left, GoOn) \<Longrightarrow>
   lan_frames limit (xs @ ys) = (case lan_frames limit (left @ ys) of (bodies', left', v) \<Rightarrow> (bodies @ bodies', left', v))"
proof (induction limit xs arbitrary: bodies rule: lan_frames.induct)
  case (1 limit xs)
  let ?len = "le_nat (take 2 xs)"
  show ?case
  proof (cases "length xs < 2 \<or> limit < ?len \<or> length xs < 2 + ?len")
    case True
    then have "bodies = []" "left = xs" using "1.prems" by (subst (asm) lan_frames.simps; auto simp: Let_def split: if_splits)+
    then show ?thesis by (simp split: prod.split)
  next
    case False
    obtain bodies0 where r: "lan_frames limit (drop (2 + ?len) xs) = (bodies0, left, GoOn)" "bodies = take ?len (drop 2 xs) # bodies0"
      using "1.prems" False by (subst (asm) lan_frames.simps) (auto simp: Let_def split: prod.splits)
    have "lan_frames limit (drop (2 + ?len) xs @ ys) = (case lan_frames limit (left @ ys) of (b, l, v) \<Rightarrow> (bodies0 @ b, l, v))"
      using "1.IH" [OF _ refl _ _ r(1)] False by simp
    then show ?thesis
      using False r(2) by (subst lan_frames.simps) (simp add: Let_def split: prod.split)
  qed
qed

text \<open>What is left of the stream is an incomplete frame, so the next piece has room.\<close>

lemma lan_frames_concat: "lan_frames limit bs = (bodies, left, v) \<Longrightarrow> bs = concat (map lan_frame bodies) @ left"
proof (induction limit bs arbitrary: bodies rule: lan_frames.induct)
  case (1 limit bs)
  let ?len = "le_nat (take 2 bs)"
  show ?case
  proof (cases "length bs < 2 \<or> limit < ?len \<or> length bs < 2 + ?len")
    case True
    then have "bodies = []" "left = bs" using "1.prems" by (subst (asm) lan_frames.simps; auto simp: Let_def split: if_splits)+
    then show ?thesis by simp
  next
    case False
    obtain bodies0 where r: "lan_frames limit (drop (2 + ?len) bs) = (bodies0, left, v)" "bodies = take ?len (drop 2 bs) # bodies0"
      using "1.prems" False by (subst (asm) lan_frames.simps) (auto simp: Let_def split: prod.splits)
    have "le_bytes (length (take 2 bs)) ?len = take 2 bs" by (rule le_bytes_le_nat)
    moreover have "length (take ?len (drop 2 bs)) = ?len" "length (take 2 bs) = 2" using False by (auto simp: min_def)
    ultimately have "lan_frame (take ?len (drop 2 bs)) = take 2 bs @ take ?len (drop 2 bs)" by (simp only: lan_frame_def)
    moreover have "drop (2 + ?len) bs = concat (map lan_frame bodies0) @ left" using "1.IH" [OF _ refl _ _ r(1)] False by simp
    moreover have "bs = take 2 bs @ take ?len (drop 2 bs) @ drop (2 + ?len) bs"
      by (metis append_take_drop_id drop_drop add.commute)
    ultimately show ?thesis unfolding r(2) by (metis append.assoc concat.simps(2) list.simps(9))
  qed
qed

lemma lan_frames_done:
  assumes "lan_frames limit bs = ([], bs, GoOn)" "bs = concat (map lan_frame bodies)"
    and "\<forall>body \<in> set bodies. length body \<le> 2000 \<and> length body \<le> limit"
  shows "bodies = []"
proof -
  have "lan_frames limit bs = (bodies, [], GoOn)" unfolding assms(2) by (rule lan_frames_cat) (use assms(3) in auto)
  then show ?thesis using assms(1) by simp
qed

text \<open>A beginning of a stream of frames that holds no complete frame is shorter than a frame.\<close>

lemma lan_frames_short:
  assumes "lan_frames limit bs = ([], bs, GoOn)" "bs @ ys = concat (map lan_frame bodies)" "\<forall>body \<in> set bodies. length body \<le> 2000"
  shows "length bs < 2002"
proof (cases "length bs < 2")
  case False
  let ?len = "le_nat (take 2 bs)"
  obtain body rest where b: "bodies = body # rest" using assms(2) False by (cases bodies) auto
  have "take 2 bs = take 2 (bs @ ys)" using False by simp
  also have "\<dots> = le_bytes 2 (length body)" unfolding assms(2) b by (simp add: lan_frame_def)
  finally have two: "take 2 bs = le_bytes 2 (length body)" .
  have "?len = length body" unfolding two using assms(3) b by simp
  moreover have "length bs < 2 + ?len"
    using assms(1) False by (subst (asm) lan_frames.simps) (auto simp: Let_def split: if_splits prod.splits)
  ultimately show ?thesis using assms(3) b by simp
qed simp

lemma lan_frames_left:
  "lan_frames limit xs = (bodies, left, GoOn) \<Longrightarrow> lan_frames limit left = ([], left, GoOn) \<and> length left < 2 + limit"
proof (induction limit xs arbitrary: bodies rule: lan_frames.induct)
  case (1 limit xs)
  let ?len = "le_nat (take 2 xs)"
  show ?case
  proof (cases "length xs < 2 \<or> limit < ?len \<or> length xs < 2 + ?len")
    case True
    then have "bodies = []" "left = xs" "length xs < 2 + limit"
      using "1.prems" by (subst (asm) lan_frames.simps; auto simp: Let_def split: if_splits)+
    then show ?thesis using "1.prems" by simp
  next
    case False
    obtain bodies0 where "lan_frames limit (drop (2 + ?len) xs) = (bodies0, left, GoOn)"
      using "1.prems" False by (subst (asm) lan_frames.simps) (auto simp: Let_def split: prod.splits)
    then show ?thesis using "1.IH" [OF _ refl] False by simp
  qed
qed

lemma lan_frames_prefix_goes_on:
  "lan_frames limit (xs @ ys) = (bodies, left, GoOn) \<Longrightarrow> \<exists>bodies' left'. lan_frames limit xs = (bodies', left', GoOn)"
proof (induction limit xs arbitrary: bodies rule: lan_frames.induct)
  case (1 limit xs)
  let ?len = "le_nat (take 2 xs)"
  show ?case
  proof (cases "length xs < 2 \<or> limit < ?len \<or> length xs < 2 + ?len")
    case True
    then have "length xs < 2 \<or> \<not> limit < ?len \<and> length xs < 2 + ?len"
      using "1.prems" by (cases "length xs < 2") (subst (asm) lan_frames.simps; auto simp: Let_def split: if_splits)+
    then show ?thesis by (subst lan_frames.simps) (auto simp: Let_def)
  next
    case False
    then obtain bodies0 where "lan_frames limit (drop (2 + ?len) xs @ ys) = (bodies0, left, GoOn)"
      using "1.prems" by (subst (asm) lan_frames.simps) (auto simp: Let_def split: prod.splits)
    then obtain b l where "lan_frames limit (drop (2 + ?len) xs) = (b, l, GoOn)" using "1.IH" [OF _ refl] False by auto
    then show ?thesis using False by (subst lan_frames.simps) (simp add: Let_def)
  qed
qed

subsection \<open>One completed receive\<close>

text \<open>The loop asks for more, and the kernel takes the request: the session waits again.\<close>

lemma LanCore_RecvPost_posts:
  assumes inv: "lan_inv K x W s" and i: "i < length (nc_mSessionPool s)" "live s i" "0 < x i" "nc_recvs s i = 0"
    and opened: "ns_mIsCloseSocket (ses s i) = 0" and reply: "wsa_posted reply"
  shows "\<exists>s'. LanCore_RecvPost ev reply i s = Inr s' \<and> give_up_io ev i s' = Inr (s\<lparr>nc_recvs := (nc_recvs s)(i := 1)\<rparr>)"
proof -
  let ?s1 = "fst (IncrementIO i s)"
  let ?s2 = "?s1\<lparr>nc_recvs := (nc_recvs ?s1)(i := nc_recvs ?s1 i + 1)\<rparr>"
  note d = lan_session [OF inv i(1,2)]
  have v: "ses ?s2 i = (ses s i)\<lparr>ns_IOCountAtomic := ns_IOCountAtomic (ses s i) + 1\<rparr>"
    using i(1) by (simp add: IncrementIO_def ses_def set_ses_def Let_def)
  have "LanCore_RecvPost ev reply i s = Inr ?s2"
    using i(1) d(2) opened reply by (auto simp: LanCore_RecvPost_def IncrementIO_def wsa_on_def IsClosed_def Let_def)
  moreover have "1 < ns_IOCountAtomic (ses ?s2 i)" using v d(3) i(3) by simp
  then have "give_up_io ev i ?s2 = Inr (set_ses i (ses s i) ?s2)" using v by (simp add: give_up_io_more)
  moreover have "set_ses i (ses s i) ?s2 = s\<lparr>nc_recvs := (nc_recvs s)(i := 1)\<rparr>"
    using i(1,4) by (simp add: IncrementIO_def set_ses_def ses_def Let_def)
  ultimately show ?thesis by simp
qed

lemma lan_recv_done_goes_on:
  fixes s :: "'w lan_core"
  assumes h: "lan_quiet ev upd" and mem: "lan_mem_ok mem" and fits: "\<forall>body \<in> set bodies. length body \<le> 2000"
    and inv: "lan_inv no_app (\<lambda>_. 0) {} s" and en: "lan_enabled (LanRecvDone i xs reply) s" and xs: "xs \<noteq> []"
    and opened: "ns_mIsCloseSocket (ses s i) = 0" and reply: "wsa_posted reply"
    and f: "lan_frames (unat (no_MaxPacketBodyLength (nc_option s))) (rb_contents (ns_mRecvQueue (ses s i)) @ xs) = (bodies, left, GoOn)"
  shows "\<exists>s'. lan_step ev t mem (LanRecvDone i xs reply) s = Inr s' \<and> lan_inv no_app (\<lambda>_. 0) {} s' \<and>
    nc_world s' = fold (upd (ns_mSessionID (ses s i))) (map (take 1998) bodies) (nc_world s) \<and>
    rb_contents (ns_mRecvQueue (ses s' i)) = left \<and> nc_recvs s' i = 1 \<and> live s' i \<and> ns_mIsCloseSocket (ses s' i) = 0 \<and>
    ns_mSessionID (ses s' i) = ns_mSessionID (ses s i) \<and> length (nc_mSessionPool s') = length (nc_mSessionPool s) \<and>
    nc_option s' = nc_option s"
proof -
  let ?sid = "ns_mSessionID (ses s i)"
  let ?e = "\<lambda>s. rbind (if True then LanCore_RecvPost ev reply i s else Inr s) (give_up_io ev i)"
  obtain s1 where s1: "lan_step ev t mem (LanRecvDone i xs reply) s =
       rbind (lan_recv_loop ev t mem i (Suc (rb_mUsedSize (ns_mRecvQueue (ses s1 i)))) s1) (\<lambda>(s, isPost).
       rbind (if isPost then LanCore_RecvPost ev reply i s else Inr s) (give_up_io ev i))"
    "lan_inv no_app ((\<lambda>_. 0)(i := 1)) {} s1" "i < length (nc_mSessionPool s1)" "live s1 i"
    "rb_contents (ns_mRecvQueue (ses s1 i)) = rb_contents (ns_mRecvQueue (ses s i)) @ xs"
    "ns_mSessionID (ses s1 i) = ?sid" "nc_recvs s1 i = 0"
    "nc_world s1 = nc_world s" "nc_option s1 = nc_option s" "length (nc_mSessionPool s1) = length (nc_mSessionPool s)"
    "ns_mIsCloseSocket (ses s1 i) = ns_mIsCloseSocket (ses s i)"
    by (rule lan_recv_done_eq [OF inv en xs, of t mem]) (rule that)
  obtain s2 where s2: "lan_recv_loop ev t mem i (Suc (rb_mUsedSize (ns_mRecvQueue (ses s1 i)))) s1 = Inr (s2, True)"
    "lan_inv no_app ((\<lambda>_. 0)(i := 1)) {} s2" "length (nc_mSessionPool s2) = length (nc_mSessionPool s)" "nc_recvs s2 = nc_recvs s1"
    "rb_contents (ns_mRecvQueue (ses s2 i)) = left" "ns_mSessionID (ses s2 i) = ?sid"
    "nc_world s2 = fold (upd ?sid) (map (take 1998) bodies) (nc_world s)" "nc_option s2 = nc_option s" "ns_mIsCloseSocket (ses s2 i) = 0"
    using lan_recv_loop_frames [OF h mem s1(2-4,6), of _ bodies left GoOn _ t] s1 f fits opened by auto
  have i2: "i < length (nc_mSessionPool s2)" using s2(3) s1(3,10) by simp
  have l2: "live s2 i" by (rule lan.core_inv_live [OF s2(2) i2]) simp
  let ?s3 = "s2\<lparr>nc_recvs := (nc_recvs s2)(i := 1)\<rparr>"
  have "\<exists>s'. LanCore_RecvPost ev reply i s2 = Inr s' \<and> give_up_io ev i s' = Inr ?s3"
    by (rule LanCore_RecvPost_posts [OF s2(2) i2 l2]) (use s2(4,9) s1(7) reply in simp_all)
  then have st: "lan_step ev t mem (LanRecvDone i xs reply) s = Inr ?s3" using s1(1) s2(1) by auto
  have "lan_inv no_app ((\<lambda>_. 0)(i := 0)) {} ?s3"
    by (rule lan.core_inv_post [OF s2(2) i2 l2]) (use s2(4) s1(7) lan_session(4-6) [OF s2(2) i2 l2] in auto)
  moreover have "((\<lambda>_. 0)(i := 0)) = (\<lambda>_. 0 :: nat)" by auto
  moreover have "ses ?s3 = ses s2" "live ?s3 = live s2" by (simp_all add: ses_def live_def fun_eq_iff)
  ultimately show ?thesis using st s2(3,5-9) l2 by (intro exI [of _ ?s3]) simp
qed

subsection \<open>The whole stream\<close>

text \<open>
  The completions of a session to which a stream of bytes is sent. Each receive takes as many bytes as the kernel likes, at most what
  the posted buffers have room for; when none is left the receive stays pending. With each size comes the system's answer to
  the next \<^verbatim>\<open>WSARecv\<close>.
\<close>

fun lan_recv_stream ::
    "'w ILanCoreEvent \<Rightarrow> nat \<Rightarrow> (nat \<Rightarrow> byte list) \<Rightarrow> nat \<Rightarrow> (nat \<times> wsa_reply) list \<Rightarrow> byte list \<Rightarrow> 'w lan_core \<Rightarrow>
     ('w lan_core \<times> byte list) res" where
  "lan_recv_stream ev t mem i [] stream s = Inr (s, stream)"
| "lan_recv_stream ev t mem i ((n, reply) # ns) stream s =
     (let m = min n (GetEnquableSize (ns_mRecvQueue (ses s i))) in
      if take m stream = [] then Inr (s, stream)
      else rbind (lan_step ev t mem (LanRecvDone i (take m stream) reply) s) (lan_recv_stream ev t mem i ns (drop m stream)))"

lemma lan_recv_stream_frames:
  fixes s :: "'w lan_core"
  assumes h: "lan_quiet ev upd" and mem: "lan_mem_ok mem"
    and "unat (no_MaxPacketBodyLength (nc_option s)) = limit"
    and "lan_inv no_app (\<lambda>_. 0) {} s" "i < length (nc_mSessionPool s)" "live s i" "nc_recvs s i = 1" "ns_mIsCloseSocket (ses s i) = 0"
    and "lan_frames limit (rb_contents (ns_mRecvQueue (ses s i))) = ([], rb_contents (ns_mRecvQueue (ses s i)), GoOn)"
    and "rb_contents (ns_mRecvQueue (ses s i)) @ stream = concat (map lan_frame bodies)"
    and "\<forall>body \<in> set bodies. length body \<le> 2000 \<and> length body \<le> limit" "\<forall>(n, reply) \<in> set ns. 1 \<le> n \<and> wsa_posted reply"
    and "length stream \<le> length ns"
  shows "\<exists>s'. lan_recv_stream ev t mem i ns stream s = Inr (s', []) \<and> lan_inv no_app (\<lambda>_. 0) {} s' \<and>
    nc_world s' = fold (upd (ns_mSessionID (ses s i))) (map (take 1998) bodies) (nc_world s) \<and>
    rb_contents (ns_mRecvQueue (ses s' i)) = [] \<and> nc_recvs s' i = 1 \<and> live s' i \<and> ns_mIsCloseSocket (ses s' i) = 0 \<and>
    ns_mSessionID (ses s' i) = ns_mSessionID (ses s i)"
  using assms(3-)
proof (induction ns arbitrary: s bodies stream)
  case Nil
  then have "bodies = []" using lan_frames_done [OF Nil.prems(7), of bodies] by simp
  then show ?case using Nil by simp
next
  case (Cons n ns)
  let ?q = "ns_mRecvQueue (ses s i)"
  obtain k reply where n: "n = (k, reply)" "1 \<le> k" "wsa_posted reply" using Cons.prems(10) by (cases n) auto
  define m where "m = min k (GetEnquableSize ?q)"
  define xs where "xs = take m stream"
  have q: "rb_inv ?q" "rb_mMaxCapacity ?q = 4086" using lan_session(1) [OF Cons.prems(2-4)] by (auto simp: sess_inv_def)
  have "length (rb_contents ?q) < 2002" using lan_frames_short [OF Cons.prems(7,8)] Cons.prems(9) by blast
  then have m: "1 \<le> m" "m \<le> 4086 - rb_mUsedSize ?q" using n(2) q(2) by (auto simp: m_def GetEnquableSize_eq [OF q(1)])
  show ?case
  proof (cases "stream = []")
    case True
    then have "bodies = []" using lan_frames_done [OF Cons.prems(7), of bodies] Cons.prems(8,9) by simp
    then show ?thesis using True Cons.prems by (simp add: n(1))
  next
    case False
    have xs: "xs \<noteq> []" "stream = xs @ drop m stream" "length xs \<le> 4086 - rb_mUsedSize ?q"
      using False m by (auto simp: xs_def)
    have en: "lan_enabled (LanRecvDone i xs reply) s" using xs(3) q(2) Cons.prems(3,5) by simp
    have all: "lan_frames limit (rb_contents ?q @ xs @ drop m stream) = (bodies, [], GoOn)"
      unfolding xs(2) [symmetric] Cons.prems(8) by (rule lan_frames_cat) (use Cons.prems(9) in auto)
    obtain b l where f: "lan_frames limit (rb_contents ?q @ xs) = (b, l, GoOn)"
      using lan_frames_prefix_goes_on [of limit "rb_contents ?q @ xs" "drop m stream"] all by auto
    obtain bodies' where f': "lan_frames limit (l @ drop m stream) = (bodies', [], GoOn)" "bodies = b @ bodies'"
      using lan_frames_append [OF f, of "drop m stream"] all by (auto split: prod.splits)
    obtain s1 where s1: "lan_step ev t mem (LanRecvDone i xs reply) s = Inr s1" "lan_inv no_app (\<lambda>_. 0) {} s1"
      "nc_world s1 = fold (upd (ns_mSessionID (ses s i))) (map (take 1998) b) (nc_world s)"
      "rb_contents (ns_mRecvQueue (ses s1 i)) = l" "nc_recvs s1 i = 1" "live s1 i" "ns_mIsCloseSocket (ses s1 i) = 0"
      "ns_mSessionID (ses s1 i) = ns_mSessionID (ses s i)" "length (nc_mSessionPool s1) = length (nc_mSessionPool s)"
      "nc_option s1 = nc_option s"
      using lan_recv_done_goes_on [OF h mem _ Cons.prems(2) en xs(1) Cons.prems(6) n(3), of b l t] f f'(2) Cons.prems(1,9) by auto
    have "\<exists>s'. lan_recv_stream ev t mem i ns (drop m stream) s1 = Inr (s', []) \<and> lan_inv no_app (\<lambda>_. 0) {} s' \<and>
      nc_world s' = fold (upd (ns_mSessionID (ses s1 i))) (map (take 1998) bodies') (nc_world s1) \<and>
      rb_contents (ns_mRecvQueue (ses s' i)) = [] \<and> nc_recvs s' i = 1 \<and> live s' i \<and> ns_mIsCloseSocket (ses s' i) = 0 \<and>
      ns_mSessionID (ses s' i) = ns_mSessionID (ses s1 i)"
    proof (rule Cons.IH [OF _ s1(2) _ s1(6,5,7)])
      show "lan_frames limit (rb_contents (ns_mRecvQueue (ses s1 i))) = ([], rb_contents (ns_mRecvQueue (ses s1 i)), GoOn)"
        using lan_frames_left [OF f] s1(4) by blast
      show "rb_contents (ns_mRecvQueue (ses s1 i)) @ drop m stream = concat (map lan_frame bodies')"
        using lan_frames_concat [OF f'(1)] s1(4) by simp
    qed (use s1(9,10) Cons.prems(1,3,9-11) f'(2) m(1) in auto)
    then obtain s' where "lan_recv_stream ev t mem i ns (drop m stream) s1 = Inr (s', [])" "lan_inv no_app (\<lambda>_. 0) {} s'"
      "nc_world s' = fold (upd (ns_mSessionID (ses s i))) (map (take 1998) bodies') (nc_world s1)"
      "rb_contents (ns_mRecvQueue (ses s' i)) = []" "nc_recvs s' i = 1" "live s' i" "ns_mIsCloseSocket (ses s' i) = 0"
      "ns_mSessionID (ses s' i) = ns_mSessionID (ses s i)" unfolding s1(8) by blast
    moreover have "lan_recv_stream ev t mem i (n # ns) stream s = lan_recv_stream ev t mem i ns (drop m stream) s1"
      using s1(1) xs(1) by (simp add: n(1) m_def [symmetric] xs_def [symmetric] Let_def del: take_eq_Nil lan_step.simps)
    ultimately show ?thesis using s1(3) f'(2) by (intro exI [of _ s']) simp
  qed
qed

subsection \<open>The echo server\<close>

text \<open>One packet in the queue: what the loop does is one call of the handler.\<close>

lemma lan_recv_one:
  fixes s :: "'w lan_core"
  assumes inv: "lan_inv K x W s" and i: "i < length (nc_mSessionPool s)" "live s i" and mem: "lan_mem_ok mem"
    and q: "rb_contents (ns_mRecvQueue (ses s i)) = lan_frame body"
    and n: "length body \<le> unat (no_MaxPacketBodyLength (nc_option s))" "length body \<le> 2000"
  obtains s1 a p where
    "\<And>ev fuel. lan_recv_loop ev t mem i (Suc fuel) s =
       rbind (rbind (le_OnReceived ev (ns_mSessionID (ses s i)) a p (put_log (OnReceived (ns_mSessionID (ses s i)) (take 1998 body)) s1))
         (\<lambda>(p, s). after_received a p s)) (lan_recv_loop ev t mem i fuel)"
    "lan_inv K x W (put_log (OnReceived (ns_mSessionID (ses s i)) (take 1998 body)) s1)" "pp_objs (nc_recv s1) a = Some p" "lan_packet p" "pk_mRefCount p = 1"
    "pk_unread p = take 1998 body" "rb_contents (ns_mRecvQueue (ses s1 i)) = []"
    "ns_mSessionID (ses s1 i) = ns_mSessionID (ses s i)" "live s1 i" "ns_mIsCloseSocket (ses s1 i) = ns_mIsCloseSocket (ses s i)"
    "length (nc_mSessionPool s1) = length (nc_mSessionPool s)" "nc_recvs s1 = nc_recvs s" "nc_option s1 = nc_option s" "nc_log s1 = nc_log s"
    "nc_sends s1 = nc_sends s" "ns_IsSendingAtomic (ses s1 i) = ns_IsSendingAtomic (ses s i)" "ns_mSendQueue (ses s1 i) = ns_mSendQueue (ses s i)"
proof -
  have len: "le_nat (take 2 (lan_frame body)) = length body" "length (lan_frame body) = 2 + length body"
    "drop 2 (lan_frame body) = body" "drop (2 + length body) (lan_frame body) = []"
    using n(2) by (simp_all add: lan_frame_def)
  have b: "2 + length body \<le> length (rb_contents (ns_mRecvQueue (ses s i)))" using q len(2) by simp
  obtain s1 a p where p: "\<And>ev. lan_recv_packet ev t mem i (length body) s =
       rbind (le_OnReceived ev (ns_mSessionID (ses s i)) a p (put_log (OnReceived (ns_mSessionID (ses s i)) (pk_body p)) s1))
         (\<lambda>(p, s). after_received a p s)"
    "lan_inv K x W s1" "pp_objs (nc_recv s1) a = Some p" "lan_packet p" "pk_mRefCount p = 1" "pk_unread p = pk_body p"
    "pk_body p = take 1998 (take (length body) (drop 2 (rb_contents (ns_mRecvQueue (ses s i)))))"
    "rb_contents (ns_mRecvQueue (ses s1 i)) = drop (2 + length body) (rb_contents (ns_mRecvQueue (ses s i)))"
    "ns_mSessionID (ses s1 i) = ns_mSessionID (ses s i)" "live s1 i" "ns_mIsCloseSocket (ses s1 i) = ns_mIsCloseSocket (ses s i)"
    "length (nc_mSessionPool s1) = length (nc_mSessionPool s)" "nc_log s1 = nc_log s" "nc_recvs s1 = nc_recvs s" "nc_option s1 = nc_option s"
    "nc_sends s1 = nc_sends s" "ns_IsSendingAtomic (ses s1 i) = ns_IsSendingAtomic (ses s i)" "ns_mSendQueue (ses s1 i) = ns_mSendQueue (ses s i)"
    by (rule lan_recv_packet_prefix [OF inv i mem b n(2), of t]) (rule that)
  have pb: "pk_body p = take 1998 body" using p(7) q len(3) by simp
  have i1: "i < length (nc_mSessionPool s1)" using p(12) i(1) by simp
  have k: "lan_inv K x W (put_log (OnReceived (ns_mSessionID (ses s i)) (take 1998 body)) s1)"
    using lan.core_inv_live_log(2) [OF p(2) i1 p(10)] p(9) by simp
  have "lan_recv_loop ev t mem i (Suc fuel) s = rbind (lan_recv_packet ev t mem i (length body) s) (lan_recv_loop ev t mem i fuel)" for ev fuel
    using lan_loop_dispatch [OF inv i, of ev t mem fuel] q len n(1) by simp
  then show ?thesis
    using p(1,3-6,8-18) k q len(4) pb by (intro that [of a p s1]) simp_all
qed

text \<open>A packet of at least eight bytes reaches an idle session: the answer is under way, and the session waits again.\<close>

lemma lan_echo_round:
  fixes s :: "'w lan_core"
  assumes mem: "lan_mem_ok mem" and env: "\<And>n. lan_mem_ok (ee_mem (env n))" "\<And>n. wsa_posted (ee_reply (env n))"
    and inv: "lan_inv (lan_app (\<lambda>_. 0) I) (\<lambda>_. 0) {} s" and en: "lan_enabled (LanRecvDone i (lan_frame body) reply) s"
    and reply: "wsa_posted reply" and opened: "ns_mIsCloseSocket (ses s i) = 0" and q: "rb_contents (ns_mRecvQueue (ses s i)) = []"
    and idle: "ns_IsSendingAtomic (ses s i) = 0" "queue_list (ns_mSendQueue (ses s i)) = []"
    and n: "8 \<le> length body" "length body \<le> unat (no_MaxPacketBodyLength (nc_option s))" "length body \<le> 2000"
  shows "\<exists>s' b. lan_step (echo_events env) t mem (LanRecvDone i (lan_frame body) reply) s = Inr s' \<and> live s' i \<and>
    nc_recvs s' i = 1 \<and> nc_sends s' i = 1 \<and> sending (ses s' i) = [b] \<and> pp_refs (nc_send s') b = 1 \<and>
    pk_wire (the (pp_objs (nc_send s') b)) = lan_frame (take 8 body) \<and> rb_contents (ns_mRecvQueue (ses s' i)) = [] \<and>
    nc_log s' = nc_log s @ [OnReceived (ns_mSessionID (ses s i)) (take 1998 body)]"
proof -
  let ?sid = "ns_mSessionID (ses s i)" let ?ev = "echo_events env" let ?x = "(\<lambda>_. 0)(i := 1)"
  have ne: "lan_frame body \<noteq> []" by (simp add: lan_frame_def numeral_2_eq_2)
  obtain s1 where s1: "\<And>ev. lan_step ev t mem (LanRecvDone i (lan_frame body) reply) s =
       rbind (lan_recv_loop ev t mem i (Suc (rb_mUsedSize (ns_mRecvQueue (ses s1 i)))) s1) (\<lambda>(s, isPost).
       rbind (if isPost then LanCore_RecvPost ev reply i s else Inr s) (give_up_io ev i))"
    "lan_inv (lan_app (\<lambda>_. 0) I) ?x {} s1" "i < length (nc_mSessionPool s1)" "live s1 i" "live s i"
    "rb_contents (ns_mRecvQueue (ses s1 i)) = lan_frame body" "ns_mSessionID (ses s1 i) = ?sid" "nc_recvs s1 i = 0"
    "nc_sends s1 = nc_sends s" "nc_option s1 = nc_option s" "nc_log s1 = nc_log s" "ns_mIsCloseSocket (ses s1 i) = 0"
    "ns_IsSendingAtomic (ses s1 i) = 0" "ns_mSendQueue (ses s1 i) = ns_mSendQueue (ses s i)"
    by (rule lan_recv_done_eq [OF inv en ne, of t mem, unfolded q opened idle(1) append_Nil]) (rule that)
  obtain s2 a p where p: "\<And>ev fuel. lan_recv_loop ev t mem i (Suc fuel) s1 =
       rbind (rbind (le_OnReceived ev ?sid a p (put_log (OnReceived ?sid (take 1998 body)) s2))
         (\<lambda>(p, s). after_received a p s)) (lan_recv_loop ev t mem i fuel)"
    "lan_inv (lan_app (\<lambda>_. 0) I) ?x {} (put_log (OnReceived ?sid (take 1998 body)) s2)"
    "pp_objs (nc_recv s2) a = Some p" "lan_packet p" "pk_mRefCount p = 1" "pk_unread p = take 1998 body"
    "rb_contents (ns_mRecvQueue (ses s2 i)) = []" "ns_mSessionID (ses s2 i) = ?sid" "live s2 i" "ns_mIsCloseSocket (ses s2 i) = 0"
    "length (nc_mSessionPool s2) = length (nc_mSessionPool s1)" "nc_recvs s2 = nc_recvs s1" "nc_log s2 = nc_log s"
    "nc_sends s2 = nc_sends s" "ns_IsSendingAtomic (ses s2 i) = 0" "ns_mSendQueue (ses s2 i) = ns_mSendQueue (ses s i)"
    by (rule lan_recv_one [OF s1(2-4) mem s1(6) _ n(3), of t, unfolded s1(7,9-14)]) (use n(2) in simp, rule that)
  define s3 where "s3 = put_log (OnReceived ?sid (take 1998 body)) s2"
  have s3: "ses s3 = ses s2" "live s3 = live s2" "nc_recvs s3 = nc_recvs s1" "nc_sends s3 = nc_sends s" "nc_recv s3 = nc_recv s2"
    "length (nc_mSessionPool s3) = length (nc_mSessionPool s1)" "nc_log s3 = nc_log s @ [OnReceived ?sid (take 1998 body)]"
    using p(11-14) by (simp_all add: s3_def ses_def live_def put_log_def fun_eq_iff)
  note k3 = p(2) [folded s3_def]
  have i3: "i < length (nc_mSessionPool s3)" "live s3 i" using s3(2,6) s1(3) p(9) by simp_all
  note d3 = lan_session [OF k3 i3]
  have w0: "nc_sends s i = 0" using d3(5,6) s3(1,4) p(15) by (cases "nc_sends s i") auto
  define e where "e = env (length (nc_log s3))"
  have e: "le_OnReceived ?ev ?sid a p s3 = echo_OnReceived e ?sid a p s3" "lan_mem_ok (ee_mem e)" "wsa_posted (ee_reply e)"
    using env by (simp_all add: echo_events_def e_def)
  have n8: "8 \<le> length (pk_unread p)" "take 8 (pk_unread p) = take 8 body" using p(6) n(1) by simp_all
  obtain p' s4 b where r: "echo_OnReceived e ?sid a p s3 = Inr (p', s4)" "nc_sends s4 i = 1" "sending (ses s4 i) = [b]"
    "pp_refs (nc_send s4) b = 1" "nc_log s4 = nc_log s3" "ns_mIsCloseSocket (ses s4 i) = 0"
    "pk_wire (the (pp_objs (nc_send s4) b)) = lan_frame (take 8 body)"
    using echo_OnReceived_answers [OF e(2) k3 i3 _ _ _ _ p(4) n8(1) e(3), of a] p(8,10,15,16) idle(2) n8(2) s3(1,4) w0 by auto
  have ix: "unat (SessionIndex ?sid) < length (nc_mSessionPool s3)" using lan.live_index [OF k3 i3] s3(1) p(8) i3(1) by simp
  have k4: "lan_packet p'" "1 \<le> pk_mRefCount p'" "lan_inv (lan_app (\<lambda>_. 0) I) ?x {} s4" "core_frame s3 s4"
    using echo_OnReceived_ok [OF e(2) k3 ix p(4,5), of a] r(1) by simp_all
  have i4: "i < length (nc_mSessionPool s4)" using k4(4) i3(1) by (simp add: core_frame_def)
  have l4: "live s4 i" by (rule lan.core_inv_live [OF k4(3) i4]) simp
  have q4: "ns_mRecvQueue (ses s4 i) = ns_mRecvQueue (ses s2 i)" "nc_recvs s4 i = 0" "a \<in> dom (pp_objs (nc_recv s4))"
    using k4(4) i3(1) l4 s3(1,3,5) s1(8) p(3) by (auto simp: core_frame_def)
  obtain pool where f: "after_received a p' s4 = Inr (s4\<lparr>nc_recv := pool, nc_mRecvCountPerSec := nc_mRecvCountPerSec s4 + 1\<rparr>)" "lan_pool pool"
    by (rule after_received_ok [OF lan_invD(4) [OF k4(3) i4] q4(3) k4(1,2)]) (rule that)
  define s5 where "s5 = s4\<lparr>nc_recv := pool, nc_mRecvCountPerSec := nc_mRecvCountPerSec s4 + 1\<rparr>"
  have s5: "ses s5 = ses s4" "live s5 = live s4" "nc_recvs s5 = nc_recvs s4" "nc_sends s5 = nc_sends s4" "nc_log s5 = nc_log s4"
    "nc_send s5 = nc_send s4" "i < length (nc_mSessionPool s5)"
    using i4 by (simp_all add: s5_def ses_def live_def fun_eq_iff)
  have k5: "lan_inv (lan_app (\<lambda>_. 0) I) ?x {} s5" unfolding s5_def by (rule lan_inv_recv_pool [OF k4(3) f(2) i4])
  have used: "rb_mUsedSize (ns_mRecvQueue (ses s1 i)) = Suc (Suc (length body))"
    using arg_cong [OF s1(6), of length] by (simp add: lan_frame_def)
  have "lan_recv_loop ?ev t mem i (Suc fuel) s5 = Inr (s5, True)" for fuel
    using lan_loop_dispatch [OF k5 s5(7), of ?ev t mem fuel] l4 s5(1,2) q4(1) p(7) by simp
  then have loop: "lan_recv_loop ?ev t mem i (Suc (rb_mUsedSize (ns_mRecvQueue (ses s1 i)))) s1 = Inr (s5, True)"
    using p(1) [of ?ev] e(1) r(1) f(1) used by (simp add: s3_def [symmetric] s5_def [symmetric])
  obtain s6 where "LanCore_RecvPost ?ev reply i s5 = Inr s6" "give_up_io ?ev i s6 = Inr (s5\<lparr>nc_recvs := (nc_recvs s5)(i := 1)\<rparr>)"
    using LanCore_RecvPost_posts [OF k5 s5(7), where ev = ?ev] l4 s5(1-3) q4(2) r(6) reply by auto
  then have "lan_step ?ev t mem (LanRecvDone i (lan_frame body) reply) s = Inr (s5\<lparr>nc_recvs := (nc_recvs s5)(i := 1)\<rparr>)"
    using s1(1) loop by simp
  moreover have "ses (s5\<lparr>nc_recvs := f\<rparr>) = ses s5" "live (s5\<lparr>nc_recvs := f\<rparr>) = live s5" for f
    by (simp_all add: ses_def live_def fun_eq_iff)
  ultimately show ?thesis
    using r(2-5,7) s5 l4 q4(1) p(7) s3(7) by (intro exI [of _ "s5\<lparr>nc_recvs := (nc_recvs s5)(i := 1)\<rparr>"] exI [of _ b]) simp
qed

text \<open>Reading eight bytes from a shorter packet raises an exception that nobody catches.\<close>

lemma lan_echo_short:
  fixes s :: "'w lan_core"
  assumes mem: "lan_mem_ok mem" and inv: "lan_inv (lan_app (\<lambda>_. 0) I) (\<lambda>_. 0) {} s"
    and en: "lan_enabled (LanRecvDone i (lan_frame body) reply) s" and q: "rb_contents (ns_mRecvQueue (ses s i)) = []"
    and n: "length body < 8" "length body \<le> unat (no_MaxPacketBodyLength (nc_option s))"
  shows "lan_step (echo_events env) t mem (LanRecvDone i (lan_frame body) reply) s = Inl ReaderException"
proof -
  have ne: "lan_frame body \<noteq> []" by (simp add: lan_frame_def numeral_2_eq_2)
  have n2: "length body \<le> 2000" using n(1) by simp
  obtain s1 where s1: "\<And>ev. lan_step ev t mem (LanRecvDone i (lan_frame body) reply) s =
       rbind (lan_recv_loop ev t mem i (Suc (rb_mUsedSize (ns_mRecvQueue (ses s1 i)))) s1) (\<lambda>(s, isPost).
       rbind (if isPost then LanCore_RecvPost ev reply i s else Inr s) (give_up_io ev i))"
    "lan_inv (lan_app (\<lambda>_. 0) I) ((\<lambda>_. 0)(i := 1)) {} s1" "i < length (nc_mSessionPool s1)" "live s1 i"
    "rb_contents (ns_mRecvQueue (ses s1 i)) = lan_frame body" "nc_option s1 = nc_option s"
    by (rule lan_recv_done_eq [OF inv en ne, of t mem, unfolded q append_Nil]) (rule that)
  have n1: "length body \<le> unat (no_MaxPacketBodyLength (nc_option s1))" using n(2) s1(6) by simp
  obtain s2 a p where p: "\<And>ev fuel. lan_recv_loop ev t mem i (Suc fuel) s1 =
       rbind (rbind (le_OnReceived ev (ns_mSessionID (ses s1 i)) a p (put_log (OnReceived (ns_mSessionID (ses s1 i)) (take 1998 body)) s2))
         (\<lambda>(p, s). after_received a p s)) (lan_recv_loop ev t mem i fuel)"
    "lan_packet p" "pk_unread p = take 1998 body"
    by (rule lan_recv_one [OF s1(2-4) mem s1(5) n1 n2, of t]) (rule that)
  have "length (pk_unread p) < 8" using n(1) p(3) by simp
  then have "stream_read p 8 = Inl ReaderException" using p(2) by (simp add: packet_kind_def stream_read_short)
  then show ?thesis using s1(1) [of "echo_events env"] p(1) [of "echo_events env"] by (simp add: echo_events_def echo_OnReceived_def)
qed

text \<open>
  The limit for received bodies comes from the options, the size of a packet's buffer does not. A body between the two is
  written past the end of the buffer, before any handler is called.
\<close>

lemma lan_overlong:
  fixes s :: "'w lan_core"
  assumes mem: "lan_mem_ok mem" and inv: "lan_inv K (\<lambda>_. 0) {} s"
    and en: "lan_enabled (LanRecvDone i (lan_frame body) reply) s" and q: "rb_contents (ns_mRecvQueue (ses s i)) = []"
    and n: "2000 < length body" "length body \<le> unat (no_MaxPacketBodyLength (nc_option s))" "length body < 65536"
  shows "lan_step ev t mem (LanRecvDone i (lan_frame body) reply) s = Inl MemFault"
proof -
  have ne: "lan_frame body \<noteq> []" by (simp add: lan_frame_def numeral_2_eq_2)
  obtain s1 where s1: "\<And>ev. lan_step ev t mem (LanRecvDone i (lan_frame body) reply) s =
       rbind (lan_recv_loop ev t mem i (Suc (rb_mUsedSize (ns_mRecvQueue (ses s1 i)))) s1) (\<lambda>(s, isPost).
       rbind (if isPost then LanCore_RecvPost ev reply i s else Inr s) (give_up_io ev i))"
    "lan_inv K ((\<lambda>_. 0)(i := 1)) {} s1" "i < length (nc_mSessionPool s1)" "live s1 i"
    "rb_contents (ns_mRecvQueue (ses s1 i)) = lan_frame body" "nc_option s1 = nc_option s"
    by (rule lan_recv_done_eq [OF inv en ne, of t mem, unfolded q append_Nil]) (rule that)
  let ?q = "ns_mRecvQueue (ses s1 i)"
  have rb: "rb_inv ?q" "rb_mMaxCapacity ?q = 4086" using lan_session(1) [OF s1(2-4)] by (auto simp: sess_inv_def)
  obtain q1 m where m: "RingBuffer_MoveRead ?q 2 = (q1, m)" by fastforce
  note q1 = MoveRead_spec [OF rb(1) m]
  have c1: "rb_contents q1 = body" using q1(3) s1(5) by (simp add: lan_frame_def)
  then have u1: "rb_mUsedSize q1 = length body" by (metis length_rb_contents)
  obtain q2 where q2: "RingBuffer_Dequeue q1 (length body) = Inr (q2, body, length body)"
    using Dequeue_spec [OF q1(1), of "length body"] q1(4) rb(2) c1 u1 by auto
  have kind: "1 \<le> (2 :: nat)" "2 \<le> (2000 :: nat)" "2 + 2000 < size_lim" by (simp_all add: size_lim_def)
  obtain pool a where al: "Pool_Alloc 2 2000 t mem (nc_recv s1) = Inr (pool, a)"
    "pp_objs pool = (pp_objs (nc_recv s1))(a \<mapsto> (Packet_Initial 2 2000 (mem a))\<lparr>pk_mRefCount := 1\<rparr>)"
    by (rule Pool_Alloc_ok [OF lan_invD(4) [OF s1(2,3)] kind, of mem t], simp add: mem, rule that)
  have "lan_recv_packet ev t mem i (length body) s1 = Inl MemFault"
    using m q2 al n(1) mem
    by (simp add: lan_recv_packet_def LanHeaderSize_def LAN_PACKET_BODY_CAPACITY_def Packet_Initial_def mem_write_def)
  moreover have "lan_recv_loop ev t mem i (Suc fuel) s1 = rbind (lan_recv_packet ev t mem i (length body) s1) (lan_recv_loop ev t mem i fuel)" for fuel
    using lan_loop_dispatch [OF s1(2-4), of ev t mem fuel] s1(5,6) n by (simp add: lan_frame_def)
  ultimately show ?thesis using s1(1) by simp
qed

end
