(* ===== verification/Profiler.thy ===== *)
theory Profiler
  imports Prelude "HOL-Library.Signed_Division"
begin

text \<open>
  \<^verbatim>\<open>nf::profile\<close> (\<^verbatim>\<open>Profiler.hpp\<close>, \<^verbatim>\<open>ProfileThreadGroup.cpp\<close>, \<^verbatim>\<open>ProfileSample.cpp\<close>), switched on: how often and how long the code
  between \<^verbatim>\<open>Begin\<close> and \<^verbatim>\<open>End\<close> of a tag runs, for each thread. \<^verbatim>\<open>LanCore\<close> brackets two pieces of code with it. A thread is its
  number; the thread-local \<^verbatim>\<open>gTLSThreadIndex\<close> is the function \<open>pr_gTLSThreadIndex\<close> of it. It is one variable for all profilers of a
  process, so the model speaks of a process with one profiler, which is what a program with one \<^verbatim>\<open>LanCore\<close> has. \<open>now\<close> is the answer of
  \<^verbatim>\<open>QueryPerformanceCounter\<close>; the differences are small enough for 64 bits (ten times the count of a 10 MHz clock wraps
  after 2900 years). An exception keeps what was written before it, so an operation returns its result beside the state.
\<close>

definition SKIP_MINMAX :: nat where
  "SKIP_MINMAX = 10"

definition MAX_SUPPORT_PROFILESAMPLE :: nat where
  "MAX_SUPPORT_PROFILESAMPLE = 30"

definition MAX_SUPPORT_THREAD :: nat where
  "MAX_SUPPORT_THREAD = 8"

subsection \<open>Samples\<close>

record ProfileSample =
  ps_IsActivated :: bool
  ps_ThreadID :: "nat option"
  ps_Name :: string
  ps_CallCount :: nat
  ps_StartPerformanceCount :: int
  ps_SumOfElapsed :: int
  ps_MinElapseds :: "int list"
  ps_MaxElapseds :: "int list"

definition INT64_MAX :: int where
  "INT64_MAX = 2 ^ 63 - 1"

definition ProfileSample_Clear :: "ProfileSample \<Rightarrow> ProfileSample" where
  "ProfileSample_Clear sample = sample\<lparr>ps_IsActivated := False, ps_Name := '''', ps_CallCount := 0, ps_StartPerformanceCount := 0,
     ps_SumOfElapsed := 0, ps_MinElapseds := replicate SKIP_MINMAX INT64_MAX, ps_MaxElapseds := replicate SKIP_MINMAX 0\<rparr>"

definition ProfileSample_Create :: ProfileSample where
  "ProfileSample_Create = ProfileSample_Clear
     \<lparr>ps_IsActivated = False, ps_ThreadID = None, ps_Name = '''', ps_CallCount = 0, ps_StartPerformanceCount = 0, ps_SumOfElapsed = 0,
      ps_MinElapseds = [], ps_MaxElapseds = []\<rparr>"

text \<open>\<^verbatim>\<open>StartRecord\<close>: the samples of a group are searched for the tag or the first unused one.\<close>

fun StartRecord :: "string \<Rightarrow> nat \<Rightarrow> int \<Rightarrow> ProfileSample list \<Rightarrow> ProfileSample list res" where
  "StartRecord tag t now [] = Inl LogicError"
| "StartRecord tag t now (sample # samples) =
     (if ps_Name sample = '''' then
        if ps_IsActivated sample then Inl InvalidArgument
        else Inr (sample\<lparr>ps_Name := tag, ps_ThreadID := Some t, ps_IsActivated := True, ps_StartPerformanceCount := now\<rparr> # samples)
      else if ps_Name sample = tag then
        if ps_IsActivated sample then Inl InvalidArgument
        else Inr (sample\<lparr>ps_IsActivated := True, ps_StartPerformanceCount := now\<rparr> # samples)
      else rbind (StartRecord tag t now samples) (\<lambda>samples. Inr (sample # samples)))"

text \<open>The first entry that the new value improves on is replaced; the value it had is dropped.\<close>

fun put_first :: "(int \<Rightarrow> bool) \<Rightarrow> int \<Rightarrow> int list \<Rightarrow> int list option" where
  "put_first worse elapsed [] = None"
| "put_first worse elapsed (y # ys) =
     (if worse y then Some (elapsed # ys) else map_option (\<lambda>ys. y # ys) (put_first worse elapsed ys))"

definition put_elapsed :: "int \<Rightarrow> ProfileSample \<Rightarrow> ProfileSample" where
  "put_elapsed elapsed sample =
     (case put_first (\<lambda>y. elapsed < y) elapsed (ps_MinElapseds sample) of
        Some ys \<Rightarrow> sample\<lparr>ps_MinElapseds := ys\<rparr>
      | None \<Rightarrow>
          (case put_first (\<lambda>y. y < elapsed) elapsed (ps_MaxElapseds sample) of
             Some ys \<Rightarrow> sample\<lparr>ps_MaxElapseds := ys\<rparr>
           | None \<Rightarrow> sample\<lparr>ps_SumOfElapsed := elapsed\<rparr>))"

definition stop_sample :: "int \<Rightarrow> int \<Rightarrow> ProfileSample \<Rightarrow> ProfileSample" where
  "stop_sample frequency now sample =
     (let sample = put_elapsed (((now - ps_StartPerformanceCount sample) * 10) sdiv frequency) sample
      in sample\<lparr>ps_CallCount := ps_CallCount sample + 1, ps_IsActivated := False\<rparr>)"

fun StopRecord :: "string \<Rightarrow> nat \<Rightarrow> int \<Rightarrow> int \<Rightarrow> ProfileSample list \<Rightarrow> ProfileSample list res" where
  "StopRecord tag t frequency now [] = Inl LogicError"
| "StopRecord tag t frequency now (sample # samples) =
     (if ps_ThreadID sample = Some t \<and> ps_Name sample = tag then Inr (stop_sample frequency now sample # samples)
      else rbind (StopRecord tag t frequency now samples) (\<lambda>samples. Inr (sample # samples)))"

subsection \<open>The profiler\<close>

record ProfileThreadGroup =
  pg_mFrequency :: int
  pg_mProfileSamples :: "ProfileSample list"

record Profiler =
  pr_mThreadIndexAcc :: int
  pr_mProfileGroups :: "ProfileThreadGroup list"
  pr_gTLSThreadIndex :: "nat \<Rightarrow> int"

definition Profiler_Create :: "int \<Rightarrow> Profiler" where
  "Profiler_Create frequency =
     \<lparr>pr_mThreadIndexAcc = -1,
      pr_mProfileGroups = replicate MAX_SUPPORT_THREAD
        \<lparr>pg_mFrequency = frequency, pg_mProfileSamples = replicate MAX_SUPPORT_PROFILESAMPLE ProfileSample_Create\<rparr>,
      pr_gTLSThreadIndex = (\<lambda>_. -1)\<rparr>"

text \<open>An operation on the group of a thread.\<close>

definition with_group ::
  "nat \<Rightarrow> (int \<Rightarrow> ProfileSample list \<Rightarrow> ProfileSample list res) \<Rightarrow> Profiler \<Rightarrow> unit res \<times> Profiler" where
  "with_group t f p =
     (let i = pr_gTLSThreadIndex p t; g = pr_mProfileGroups p ! nat i in
      if i < 0 \<or> int (length (pr_mProfileGroups p)) \<le> i then (Inl MemFault, p)
      else case f (pg_mFrequency g) (pg_mProfileSamples g) of
             Inl e \<Rightarrow> (Inl e, p)
           | Inr samples \<Rightarrow> (Inr (), p\<lparr>pr_mProfileGroups := (pr_mProfileGroups p)[nat i := g\<lparr>pg_mProfileSamples := samples\<rparr>]\<rparr>))"

definition Profiler_Begin :: "nat \<Rightarrow> string \<Rightarrow> int \<Rightarrow> Profiler \<Rightarrow> unit res \<times> Profiler" where
  "Profiler_Begin t tag now p =
     (if pr_gTLSThreadIndex p t = -1 then
        let acc = pr_mThreadIndexAcc p + 1;
            p = p\<lparr>pr_mThreadIndexAcc := acc, pr_gTLSThreadIndex := (pr_gTLSThreadIndex p)(t := acc)\<rparr>
        in if int MAX_SUPPORT_THREAD \<le> acc then (Inl LogicError, p)
           else with_group t (\<lambda>_. StartRecord tag t now) p
      else with_group t (\<lambda>_. StartRecord tag t now) p)"

definition Profiler_End :: "nat \<Rightarrow> string \<Rightarrow> int \<Rightarrow> Profiler \<Rightarrow> unit res \<times> Profiler" where
  "Profiler_End t tag now p =
     (if pr_gTLSThreadIndex p t = -1 then (Inl LogicError, p)
      else with_group t (\<lambda>frequency. StopRecord tag t frequency now) p)"

definition Profiler_Clear :: "Profiler \<Rightarrow> Profiler" where
  "Profiler_Clear p = p\<lparr>pr_mProfileGroups :=
     map (\<lambda>g. g\<lparr>pg_mProfileSamples := map ProfileSample_Clear (pg_mProfileSamples g)\<rparr>) (pr_mProfileGroups p)\<rparr>"

text \<open>
  \<^verbatim>\<open>Dump\<close>: the samples it prints, in order; the loop over the groups uses \<^verbatim>\<open>mThreadIndexAcc\<close>, which a refused thread has raised
  too. What a row shows of a sample is the quotient of two of its numbers.
\<close>

definition Profiler_Dump :: "Profiler \<Rightarrow> ProfileSample list res" where
  "Profiler_Dump p =
     (let n = nat (pr_mThreadIndexAcc p + 1) in
      if length (pr_mProfileGroups p) < n then Inl MemFault
      else Inr (filter (\<lambda>sample. ps_Name sample \<noteq> '''') (concat (map pg_mProfileSamples (take n (pr_mProfileGroups p))))))"

subsection \<open>What a profiler promises\<close>

text \<open>
  For each thread that called it, in the order of their first calls, the tags with whether they are active and how often they were
  ended. \<open>None\<close> is a call that must not be made: one thread or tag too many, a tag begun twice, or ended before it was ever begun.
\<close>

type_synonym tag_map = "string \<rightharpoonup> bool \<times> nat"

datatype prof_call = ProfBegin nat string int | ProfEnd nat string int

fun prof_do :: "prof_call \<Rightarrow> Profiler \<Rightarrow> unit res \<times> Profiler" where
  "prof_do (ProfBegin t tag now) p = Profiler_Begin t tag now p"
| "prof_do (ProfEnd t tag now) p = Profiler_End t tag now p"

definition tags_of :: "(nat \<rightharpoonup> tag_map) \<Rightarrow> nat \<Rightarrow> tag_map" where
  "tags_of A t = (case A t of None \<Rightarrow> Map.empty | Some M \<Rightarrow> M)"

fun tag_begin :: "string \<Rightarrow> tag_map \<Rightarrow> tag_map option" where
  "tag_begin tag M =
     (case M tag of
        None \<Rightarrow> if card (dom M) < MAX_SUPPORT_PROFILESAMPLE then Some (M(tag \<mapsto> (True, 0))) else None
      | Some (True, n) \<Rightarrow> None
      | Some (False, n) \<Rightarrow> Some (M(tag \<mapsto> (True, n))))"

fun prof_spec :: "prof_call \<Rightarrow> (nat \<rightharpoonup> tag_map) \<Rightarrow> (nat \<rightharpoonup> tag_map) option" where
  "prof_spec (ProfBegin t tag now) A =
     (if t \<in> dom A \<or> card (dom A) < MAX_SUPPORT_THREAD then map_option (\<lambda>M. A(t \<mapsto> M)) (tag_begin tag (tags_of A t)) else None)"
| "prof_spec (ProfEnd t tag now) A =
     (case tags_of A t tag of None \<Rightarrow> None | Some (_, n) \<Rightarrow> Some (A(t \<mapsto> (tags_of A t)(tag \<mapsto> (False, n + 1)))))"

fun call_tag :: "prof_call \<Rightarrow> string" where
  "call_tag (ProfBegin t tag now) = tag"
| "call_tag (ProfEnd t tag now) = tag"

text \<open>Calls one after the other, up to the first that fails.\<close>

fun prof_run :: "prof_call list \<Rightarrow> Profiler \<Rightarrow> unit res \<times> Profiler" where
  "prof_run [] p = (Inr (), p)"
| "prof_run (c # cs) p = (case prof_do c p of (Inl e, p) \<Rightarrow> (Inl e, p) | (Inr _, p) \<Rightarrow> prof_run cs p)"

fun spec_run :: "prof_call list \<Rightarrow> (nat \<rightharpoonup> tag_map) \<Rightarrow> (nat \<rightharpoonup> tag_map) option" where
  "spec_run [] A = Some A"
| "spec_run (c # cs) A = (case prof_spec c A of None \<Rightarrow> None | Some A \<Rightarrow> spec_run cs A)"

subsection \<open>A group keeps the tags of its thread\<close>

fun sample_tags :: "ProfileSample list \<Rightarrow> tag_map" where
  "sample_tags [] = Map.empty"
| "sample_tags (y # ys) = (sample_tags ys)(ps_Name y \<mapsto> (ps_IsActivated y, ps_CallCount y))"

definition samples_of :: "nat \<Rightarrow> ProfileSample list \<Rightarrow> bool" where
  "samples_of t ys \<longleftrightarrow> distinct (map ps_Name ys) \<and> (\<forall>y \<in> set ys. ps_Name y \<noteq> '''' \<and> ps_ThreadID y = Some t)"

definition samples_rel :: "nat \<Rightarrow> ProfileSample list \<Rightarrow> tag_map \<Rightarrow> bool" where
  "samples_rel t xs M \<longleftrightarrow>
     (\<exists>ys. samples_of t ys \<and> length ys \<le> MAX_SUPPORT_PROFILESAMPLE \<and> M = sample_tags ys \<and>
       xs = ys @ replicate (MAX_SUPPORT_PROFILESAMPLE - length ys) ProfileSample_Create)"

lemma fresh_sample [simp]:
  "ps_Name ProfileSample_Create = ''''" "ps_ThreadID ProfileSample_Create = None" "\<not> ps_IsActivated ProfileSample_Create"
  "ps_CallCount ProfileSample_Create = 0"
  by (simp_all add: ProfileSample_Create_def ProfileSample_Clear_def)

lemma samples_of_simps [simp]:
  "samples_of t []"
  "samples_of t (y # ys) \<longleftrightarrow> ps_Name y \<noteq> '''' \<and> ps_ThreadID y = Some t \<and> ps_Name y \<notin> ps_Name ` set ys \<and> samples_of t ys"
  by (auto simp: samples_of_def)

lemma samples_of_append [simp]:
  "samples_of t (ys @ zs) \<longleftrightarrow> samples_of t ys \<and> samples_of t zs \<and> ps_Name ` set ys \<inter> ps_Name ` set zs = {}"
  by (auto simp: samples_of_def)

lemma dom_sample_tags: "dom (sample_tags ys) = ps_Name ` set ys"
  by (induction ys) (simp_all only: sample_tags.simps dom_fun_upd dom_empty list.set image_empty image_insert option.distinct if_False)

lemma sample_tags_append: "sample_tags (us @ ys) = sample_tags ys ++ sample_tags us"
  by (induction us) (simp_all only: sample_tags.simps append.simps map_add_upd map_add_empty)

lemma card_tags: "samples_of t ys \<Longrightarrow> card (dom (sample_tags ys)) = length ys"
  by (simp add: dom_sample_tags samples_of_def) (metis card_image distinct_card distinct_map)

lemma fresh_rel: "samples_rel t (replicate MAX_SUPPORT_PROFILESAMPLE ProfileSample_Create) Map.empty"
  by (auto simp: samples_rel_def intro: exI [of _ "[]"])

text \<open>A search that ends at the sample of the tag, and one that ends behind the samples in use.\<close>

lemma entry_split:
  assumes "sample_tags ys tag = Some (b, n)"
  obtains us y vs where "ys = us @ y # vs" "ps_Name y = tag" "ps_IsActivated y = b" "ps_CallCount y = n" "tag \<notin> ps_Name ` set us"
  using assms
proof (induction ys arbitrary: thesis)
  case (Cons x ys)
  show ?case
  proof (cases "ps_Name x = tag")
    case True
    then show ?thesis using Cons.prems by (intro Cons.prems(1) [of "[]" x ys]) auto
  next
    case False
    then have "sample_tags ys tag = Some (b, n)" using Cons.prems(2) by simp
    from Cons.IH [OF _ this] obtain us y vs where "ys = us @ y # vs" "ps_Name y = tag" "ps_IsActivated y = b" "ps_CallCount y = n"
      "tag \<notin> ps_Name ` set us" by blast
    then show ?thesis using False by (intro Cons.prems(1) [of "x # us" y vs]) auto
  qed
qed simp

lemma StartRecord_skip:
  assumes "samples_of t us" "tag \<notin> ps_Name ` set us"
  shows "StartRecord tag t now (us @ xs) = rbind (StartRecord tag t now xs) (\<lambda>xs. Inr (us @ xs))"
  using assms by (induction us) (auto simp: rbind_assoc rbind_def split: sum.splits)

lemma StopRecord_skip:
  assumes "tag \<notin> ps_Name ` set us"
  shows "StopRecord tag t f now (us @ xs) = rbind (StopRecord tag t f now xs) (\<lambda>xs. Inr (us @ xs))"
  using assms by (induction us) (auto simp: rbind_assoc rbind_def split: sum.splits)

lemma put_elapsed_keeps [simp]:
  "ps_Name (put_elapsed e y) = ps_Name y" "ps_ThreadID (put_elapsed e y) = ps_ThreadID y" "ps_CallCount (put_elapsed e y) = ps_CallCount y"
  by (simp_all add: put_elapsed_def split: option.splits)

lemma stop_sample_fields [simp]:
  "ps_Name (stop_sample f now y) = ps_Name y" "ps_ThreadID (stop_sample f now y) = ps_ThreadID y"
  "ps_CallCount (stop_sample f now y) = ps_CallCount y + 1" "\<not> ps_IsActivated (stop_sample f now y)"
  by (simp_all add: stop_sample_def Let_def)

text \<open>The sample of a tag is replaced.\<close>

lemma samples_rel_upd:
  assumes "samples_of t (us @ y # vs)" "length (us @ y # vs) \<le> MAX_SUPPORT_PROFILESAMPLE"
    and "ps_Name z = ps_Name y" "ps_ThreadID z = ps_ThreadID y"
  shows "samples_rel t (us @ z # vs @ replicate (MAX_SUPPORT_PROFILESAMPLE - length (us @ y # vs)) ProfileSample_Create)
    ((sample_tags (us @ y # vs))(ps_Name y \<mapsto> (ps_IsActivated z, ps_CallCount z)))"
proof -
  have "sample_tags us (ps_Name y) = None" using assms(1) dom_sample_tags [of us] by auto
  then have "sample_tags (us @ z # vs) = (sample_tags (us @ y # vs))(ps_Name y \<mapsto> (ps_IsActivated z, ps_CallCount z))"
    using assms(3) by (auto simp: sample_tags_append fun_eq_iff map_add_def split: option.splits)
  then show ?thesis using assms unfolding samples_rel_def by (intro exI [of _ "us @ z # vs"]) auto
qed

lemma StartRecord_refines:
  assumes rel: "samples_rel t xs M" and tag: "tag \<noteq> ''''"
  shows "case tag_begin tag M of
      None \<Rightarrow> \<exists>e. StartRecord tag t now xs = Inl e
    | Some M' \<Rightarrow> \<exists>xs'. StartRecord tag t now xs = Inr xs' \<and> samples_rel t xs' M'"
proof -
  obtain ys where ys: "samples_of t ys" "length ys \<le> MAX_SUPPORT_PROFILESAMPLE" "M = sample_tags ys"
    "xs = ys @ replicate (MAX_SUPPORT_PROFILESAMPLE - length ys) ProfileSample_Create"
    using rel by (auto simp: samples_rel_def)
  show ?thesis
  proof (cases "M tag")
    case None
    then have new: "tag \<notin> ps_Name ` set ys" using ys(3) dom_sample_tags [of ys] by auto
    show ?thesis
    proof (cases "MAX_SUPPORT_PROFILESAMPLE - length ys")
      case 0
      then show ?thesis
        using None new ys card_tags [OF ys(1)] StartRecord_skip [OF ys(1) new, of now "[]"] by (simp split: option.splits)
    next
      case (Suc n)
      let ?y = "ProfileSample_Create\<lparr>ps_Name := tag, ps_ThreadID := Some t, ps_IsActivated := True, ps_StartPerformanceCount := now\<rparr>"
      have "samples_rel t (ys @ ?y # replicate n ProfileSample_Create) (M(tag \<mapsto> (True, 0)))"
        unfolding samples_rel_def
      proof (intro exI [of _ "ys @ [?y]"] conjI)
        show "samples_of t (ys @ [?y])" using ys(1) new tag by auto
        show "length (ys @ [?y]) \<le> MAX_SUPPORT_PROFILESAMPLE" using Suc by simp
        show "M(tag \<mapsto> (True, 0)) = sample_tags (ys @ [?y])"
          using None ys(3) by (auto simp: sample_tags_append fun_eq_iff map_add_def split: option.splits)
        show "ys @ ?y # replicate n ProfileSample_Create =
          (ys @ [?y]) @ replicate (MAX_SUPPORT_PROFILESAMPLE - length (ys @ [?y])) ProfileSample_Create"
          using Suc by (simp add: diff_Suc)
      qed
      then show ?thesis
        using None Suc ys(4) card_tags [OF ys(1)] StartRecord_skip [OF ys(1) new, of now "replicate (Suc n) ProfileSample_Create"]
        by (simp add: ys(3) [symmetric])
    qed
  next
    case (Some c)
    obtain b n where c: "c = (b, n)" by (cases c)
    obtain us y vs where y: "ys = us @ y # vs" "ps_Name y = tag" "ps_IsActivated y = b" "ps_CallCount y = n" "tag \<notin> ps_Name ` set us"
      using entry_split [of ys tag b n] Some c ys(3) by metis
    have us: "samples_of t us" using ys(1) y(1) by simp
    note skip = StartRecord_skip [OF us y(5), of now "y # vs @ replicate (MAX_SUPPORT_PROFILESAMPLE - length ys) ProfileSample_Create"]
    show ?thesis
    proof (cases b)
      case True
      then show ?thesis using Some c skip y ys(4) tag by simp
    next
      case False
      then show ?thesis
        using Some c skip y ys(2-4) tag samples_rel_upd [of t us y vs "y\<lparr>ps_IsActivated := True, ps_StartPerformanceCount := now\<rparr>"] ys(1)
        by simp
    qed
  qed
qed

lemma StopRecord_refines:
  assumes rel: "samples_rel t xs M"
  shows "case M tag of
      None \<Rightarrow> \<exists>e. StopRecord tag t f now xs = Inl e
    | Some (_, n) \<Rightarrow> \<exists>xs'. StopRecord tag t f now xs = Inr xs' \<and> samples_rel t xs' (M(tag \<mapsto> (False, n + 1)))"
proof -
  obtain ys where ys: "samples_of t ys" "length ys \<le> MAX_SUPPORT_PROFILESAMPLE" "M = sample_tags ys"
    "xs = ys @ replicate (MAX_SUPPORT_PROFILESAMPLE - length ys) ProfileSample_Create"
    using rel by (auto simp: samples_rel_def)
  show ?thesis
  proof (cases "M tag")
    case None
    then have new: "tag \<notin> ps_Name ` set ys" using ys(3) dom_sample_tags [of ys] by auto
    have "\<exists>e. StopRecord tag t f now (replicate k ProfileSample_Create) = Inl e" for k by (induction k) auto
    then obtain e where "StopRecord tag t f now (replicate (MAX_SUPPORT_PROFILESAMPLE - length ys) ProfileSample_Create) = Inl e" by blast
    then show ?thesis using None StopRecord_skip [OF new, of t f now] ys(4) by simp
  next
    case (Some c)
    obtain b n where c: "c = (b, n)" by (cases c)
    obtain us y vs where y: "ys = us @ y # vs" "ps_Name y = tag" "ps_CallCount y = n" "tag \<notin> ps_Name ` set us"
      using entry_split [of ys tag b n] Some c ys(3) by metis
    note skip = StopRecord_skip [OF y(4), of t f now "y # vs @ replicate (MAX_SUPPORT_PROFILESAMPLE - length ys) ProfileSample_Create"]
    have "ps_ThreadID y = Some t" using ys(1) y(1) by simp
    then show ?thesis using Some c y(1-3) ys skip samples_rel_upd [of t us y vs "stop_sample f now y"] by simp
  qed
qed

subsection \<open>The profiler does what it promises\<close>

text \<open>A thread with tags owns the group of its index, no two threads the same; the groups behind the last index are fresh.\<close>

definition fresh_group :: "int \<Rightarrow> ProfileThreadGroup" where
  "fresh_group f = \<lparr>pg_mFrequency = f, pg_mProfileSamples = replicate MAX_SUPPORT_PROFILESAMPLE ProfileSample_Create\<rparr>"

definition prof_rel :: "Profiler \<Rightarrow> (nat \<rightharpoonup> tag_map) \<Rightarrow> bool" where
  "prof_rel p A \<longleftrightarrow>
     (\<exists>ts. distinct ts \<and> set ts = dom A \<and> length ts \<le> MAX_SUPPORT_THREAD \<and>
        pr_mThreadIndexAcc p = int (length ts) - 1 \<and> length (pr_mProfileGroups p) = MAX_SUPPORT_THREAD \<and>
        (\<forall>t. t \<notin> dom A \<longrightarrow> pr_gTLSThreadIndex p t = -1) \<and>
        (\<forall>k < length ts. pr_gTLSThreadIndex p (ts ! k) = int k \<and>
           samples_rel (ts ! k) (pg_mProfileSamples (pr_mProfileGroups p ! k)) (the (A (ts ! k)))) \<and>
        (\<forall>k. length ts \<le> k \<longrightarrow> k < MAX_SUPPORT_THREAD \<longrightarrow> (\<exists>f. pr_mProfileGroups p ! k = fresh_group f)))"

lemma prof_rel_Create: "prof_rel (Profiler_Create f) Map.empty"
  by (auto simp: prof_rel_def Profiler_Create_def fresh_group_def intro!: exI [of _ "[]"])

text \<open>An operation on the group of a thread that has one.\<close>

lemma with_group_refines:
  assumes rel: "prof_rel p A" and t: "A t = Some M"
    and f: "\<And>fr xs. samples_rel t xs M \<Longrightarrow>
      case M' of None \<Rightarrow> \<exists>e. f fr xs = Inl e | Some N \<Rightarrow> \<exists>xs'. f fr xs = Inr xs' \<and> samples_rel t xs' N"
  shows "case M' of
      None \<Rightarrow> \<exists>e. fst (with_group t f p) = Inl e
    | Some N \<Rightarrow> fst (with_group t f p) = Inr () \<and> prof_rel (snd (with_group t f p)) (A(t \<mapsto> N))"
proof -
  obtain ts where ts: "distinct ts" "set ts = dom A" "length ts \<le> MAX_SUPPORT_THREAD"
    "pr_mThreadIndexAcc p = int (length ts) - 1" "length (pr_mProfileGroups p) = MAX_SUPPORT_THREAD"
    "\<And>t. t \<notin> dom A \<Longrightarrow> pr_gTLSThreadIndex p t = -1"
    "\<And>k. k < length ts \<Longrightarrow> pr_gTLSThreadIndex p (ts ! k) = int k \<and>
       samples_rel (ts ! k) (pg_mProfileSamples (pr_mProfileGroups p ! k)) (the (A (ts ! k)))"
    "\<And>k. length ts \<le> k \<Longrightarrow> k < MAX_SUPPORT_THREAD \<Longrightarrow> \<exists>f. pr_mProfileGroups p ! k = fresh_group f"
    using rel by (auto simp: prof_rel_def)
  obtain k where k: "k < length ts" "ts ! k = t" using t ts(2) by (metis domI in_set_conv_nth)
  let ?g = "pr_mProfileGroups p ! k"
  have ix: "pr_gTLSThreadIndex p t = int k" "samples_rel t (pg_mProfileSamples ?g) M" "k < MAX_SUPPORT_THREAD"
    using ts(7) [OF k(1)] k ts(3) t by auto
  note step = f [OF ix(2), of "pg_mFrequency ?g"]
  show ?thesis
  proof (cases M')
    case None
    then show ?thesis using step ix ts(5) by (auto simp: with_group_def Let_def)
  next
    case (Some N)
    then obtain xs' where xs': "f (pg_mFrequency ?g) (pg_mProfileSamples ?g) = Inr xs'" "samples_rel t xs' N" using step by auto
    let ?p = "p\<lparr>pr_mProfileGroups := (pr_mProfileGroups p)[k := ?g\<lparr>pg_mProfileSamples := xs'\<rparr>]\<rparr>"
    have "ts ! j = t \<longleftrightarrow> j = k" if "j < length ts" for j using that k ts(1) by (auto simp: nth_eq_iff_index_eq)
    then have "prof_rel ?p (A(t \<mapsto> N))"
      unfolding prof_rel_def using ts ix xs'(2) k t
      by (intro exI [of _ ts]) (auto simp: nth_list_update)
    then show ?thesis using Some xs'(1) ix ts(5) by (simp add: with_group_def Let_def)
  qed
qed

lemma prof_rel_card: "prof_rel p A \<Longrightarrow> pr_mThreadIndexAcc p + 1 = int (card (dom A)) \<and> card (dom A) \<le> MAX_SUPPORT_THREAD"
  unfolding prof_rel_def by (metis diff_add_cancel distinct_card)

lemma prof_rel_index: "prof_rel p A \<Longrightarrow> pr_gTLSThreadIndex p t = -1 \<longleftrightarrow> t \<notin> dom A"
  unfolding prof_rel_def by (metis in_set_conv_nth of_nat_0_le_iff neg_0_le_iff_le not_one_le_zero)

definition join_thread :: "nat \<Rightarrow> Profiler \<Rightarrow> Profiler" where
  "join_thread t p = p\<lparr>pr_mThreadIndexAcc := pr_mThreadIndexAcc p + 1, pr_gTLSThreadIndex := (pr_gTLSThreadIndex p)(t := pr_mThreadIndexAcc p + 1)\<rparr>"

lemma prof_rel_join:
  assumes rel: "prof_rel p A" and t: "t \<notin> dom A" "card (dom A) < MAX_SUPPORT_THREAD"
  shows "prof_rel (join_thread t p) (A(t \<mapsto> Map.empty))"
proof -
  obtain ts where ts: "distinct ts" "set ts = dom A" "length ts \<le> MAX_SUPPORT_THREAD"
    "pr_mThreadIndexAcc p = int (length ts) - 1" "length (pr_mProfileGroups p) = MAX_SUPPORT_THREAD"
    "\<And>t. t \<notin> dom A \<Longrightarrow> pr_gTLSThreadIndex p t = -1"
    "\<And>k. k < length ts \<Longrightarrow> pr_gTLSThreadIndex p (ts ! k) = int k \<and>
       samples_rel (ts ! k) (pg_mProfileSamples (pr_mProfileGroups p ! k)) (the (A (ts ! k)))"
    "\<And>k. length ts \<le> k \<Longrightarrow> k < MAX_SUPPORT_THREAD \<Longrightarrow> \<exists>f. pr_mProfileGroups p ! k = fresh_group f"
    using rel by (auto simp: prof_rel_def)
  have n: "length ts < MAX_SUPPORT_THREAD" using t(2) ts(1,2) by (metis distinct_card)
  obtain f where "pr_mProfileGroups p ! length ts = fresh_group f" using ts(8) n by blast
  then have new: "samples_rel t (pg_mProfileSamples (pr_mProfileGroups p ! length ts)) Map.empty"
    using fresh_rel by (simp add: fresh_group_def)
  have "ts ! k \<noteq> t" if "k < length ts" for k using that t(1) ts(2) by (metis nth_mem)
  then show ?thesis
    unfolding prof_rel_def join_thread_def using ts n new t(1)
    by (intro exI [of _ "ts @ [t]"]) (auto simp: nth_append less_Suc_eq)
qed

lemma Profiler_Begin_refines:
  assumes rel: "prof_rel p A" and tag: "tag \<noteq> ''''"
  shows "case prof_spec (ProfBegin t tag now) A of
      None \<Rightarrow> \<exists>e. fst (Profiler_Begin t tag now p) = Inl e
    | Some B \<Rightarrow> fst (Profiler_Begin t tag now p) = Inr () \<and> prof_rel (snd (Profiler_Begin t tag now p)) B"
proof -
  have start: "case tag_begin tag M of
      None \<Rightarrow> \<exists>e. fst (with_group t (\<lambda>_. StartRecord tag t now) q) = Inl e
    | Some N \<Rightarrow> fst (with_group t (\<lambda>_. StartRecord tag t now) q) = Inr () \<and>
        prof_rel (snd (with_group t (\<lambda>_. StartRecord tag t now) q)) (B(t \<mapsto> N))"
    if "prof_rel q B" "B t = Some M" for q B M
    using StartRecord_refines [OF _ tag] by (intro with_group_refines [OF that]) blast
  note card = prof_rel_card [OF rel] and index = prof_rel_index [OF rel, of t]
  show ?thesis
  proof (cases "A t")
    case (Some M)
    then show ?thesis using start [OF rel Some] index
      by (auto simp: Profiler_Begin_def tags_of_def simp del: tag_begin.simps split: option.splits)
  next
    case None
    show ?thesis
    proof (cases "card (dom A) < MAX_SUPPORT_THREAD")
      case True
      have "\<not> int MAX_SUPPORT_THREAD \<le> pr_mThreadIndexAcc p + 1" using True card by simp
      then have "Profiler_Begin t tag now p = with_group t (\<lambda>_. StartRecord tag t now) (join_thread t p)"
        using None index by (simp add: Profiler_Begin_def join_thread_def Let_def domIff)
      moreover have "prof_rel (join_thread t p) (A(t \<mapsto> Map.empty))" using prof_rel_join [OF rel] None True by auto
      ultimately show ?thesis
        using start [of "join_thread t p" "A(t \<mapsto> Map.empty)" Map.empty] None True
        by (auto simp: tags_of_def simp del: tag_begin.simps split: option.splits)
    next
      case False
      then have "int MAX_SUPPORT_THREAD \<le> pr_mThreadIndexAcc p + 1" using card by simp
      then show ?thesis using None False index by (auto simp: Profiler_Begin_def Let_def domIff)
    qed
  qed
qed

lemma Profiler_End_refines:
  assumes rel: "prof_rel p A"
  shows "case prof_spec (ProfEnd t tag now) A of
      None \<Rightarrow> \<exists>e. fst (Profiler_End t tag now p) = Inl e
    | Some B \<Rightarrow> fst (Profiler_End t tag now p) = Inr () \<and> prof_rel (snd (Profiler_End t tag now p)) B"
proof (cases "A t")
  case None
  then show ?thesis using prof_rel_index [OF rel, of t] by (simp add: Profiler_End_def tags_of_def domIff)
next
  case (Some M)
  let ?M = "case M tag of None \<Rightarrow> None | Some (b, n) \<Rightarrow> Some (M(tag \<mapsto> (False, n + 1)))"
  have "case ?M of
      None \<Rightarrow> \<exists>e. fst (with_group t (\<lambda>f. StopRecord tag t f now) p) = Inl e
    | Some N \<Rightarrow> fst (with_group t (\<lambda>f. StopRecord tag t f now) p) = Inr () \<and>
        prof_rel (snd (with_group t (\<lambda>f. StopRecord tag t f now) p)) (A(t \<mapsto> N))"
  proof (rule with_group_refines [OF rel Some])
    fix f xs assume "samples_rel t xs M"
    from StopRecord_refines [OF this, of tag f now]
    show "case ?M of None \<Rightarrow> \<exists>e. StopRecord tag t f now xs = Inl e | Some N \<Rightarrow> \<exists>xs'. StopRecord tag t f now xs = Inr xs' \<and> samples_rel t xs' N"
      by (simp split: option.splits prod.splits)
  qed
  then show ?thesis using Some prof_rel_index [OF rel, of t] by (auto simp: Profiler_End_def tags_of_def split: option.splits)
qed

lemma prof_do_refines:
  assumes "prof_rel p A" "call_tag c \<noteq> ''''"
  shows "case prof_spec c A of
      None \<Rightarrow> \<exists>e. fst (prof_do c p) = Inl e
    | Some B \<Rightarrow> fst (prof_do c p) = Inr () \<and> prof_rel (snd (prof_do c p)) B"
proof (cases c)
  case (ProfBegin t tag now)
  with assms show ?thesis unfolding ProfBegin prof_do.simps call_tag.simps by (intro Profiler_Begin_refines)
next
  case (ProfEnd t tag now)
  with assms(1) show ?thesis unfolding ProfEnd prof_do.simps by (intro Profiler_End_refines)
qed

lemma prof_run_refines:
  assumes "prof_rel p A" "\<forall>c \<in> set cs. call_tag c \<noteq> ''''"
  shows "case spec_run cs A of
      None \<Rightarrow> \<exists>e. fst (prof_run cs p) = Inl e
    | Some B \<Rightarrow> fst (prof_run cs p) = Inr () \<and> prof_rel (snd (prof_run cs p)) B"
  using assms
proof (induction cs arbitrary: p A)
  case (Cons c cs)
  have step: "case prof_spec c A of None \<Rightarrow> \<exists>e. fst (prof_do c p) = Inl e
    | Some B \<Rightarrow> fst (prof_do c p) = Inr () \<and> prof_rel (snd (prof_do c p)) B"
    using prof_do_refines Cons.prems by simp
  show ?case
  proof (cases "prof_spec c A")
    case None
    then obtain e where "prof_do c p = (Inl e, snd (prof_do c p))" using step by (auto simp: prod_eq_iff)
    then have "prof_run (c # cs) p = (Inl e, snd (prof_do c p))" by (cases "prof_do c p") auto
    then show ?thesis using None by simp
  next
    case (Some B)
    then have do: "prof_do c p = (Inr (), snd (prof_do c p))" "prof_rel (snd (prof_do c p)) B" using step by (simp_all add: prod_eq_iff)
    then have run: "prof_run (c # cs) p = prof_run cs (snd (prof_do c p))" by (cases "prof_do c p") auto
    show ?thesis using Cons.IH [OF do(2)] Cons.prems(2) Some unfolding run by simp
  qed
qed simp

subsection \<open>What is printed\<close>

text \<open>The row of a tag of a thread, with whether it is active and its number of calls.\<close>

definition row_of :: "nat \<Rightarrow> string \<Rightarrow> bool \<Rightarrow> nat \<Rightarrow> ProfileSample \<Rightarrow> bool" where
  "row_of t tag b n row \<longleftrightarrow> ps_ThreadID row = Some t \<and> ps_Name row = tag \<and> ps_IsActivated row = b \<and> ps_CallCount row = n"

lemma sample_tags_row:
  assumes "samples_of t ys"
  shows "sample_tags ys tag = Some (b, n) \<longleftrightarrow> (\<exists>y \<in> set ys. row_of t tag b n y)"
  using assms by (induction ys) (auto simp: row_of_def image_iff)

lemma samples_rel_rows:
  assumes "samples_rel t xs M"
  shows "M tag = Some (b, n) \<longleftrightarrow> (\<exists>y \<in> set (filter (\<lambda>y. ps_Name y \<noteq> '''') xs). row_of t tag b n y)"
    "y \<in> set (filter (\<lambda>y. ps_Name y \<noteq> '''') xs) \<Longrightarrow> ps_ThreadID y = Some t"
proof -
  obtain ys where ys: "samples_of t ys" "M = sample_tags ys"
    "xs = ys @ replicate (MAX_SUPPORT_PROFILESAMPLE - length ys) ProfileSample_Create" using assms by (auto simp: samples_rel_def)
  have "filter (\<lambda>y. ps_Name y \<noteq> '''') xs = ys" using ys(1,3) by (auto simp: samples_of_def filter_id_conv)
  then show "M tag = Some (b, n) \<longleftrightarrow> (\<exists>y \<in> set (filter (\<lambda>y. ps_Name y \<noteq> '''') xs). row_of t tag b n y)"
    "y \<in> set (filter (\<lambda>y. ps_Name y \<noteq> '''') xs) \<Longrightarrow> ps_ThreadID y = Some t"
    using ys(1,2) sample_tags_row [OF ys(1)] by (auto simp: samples_of_def)
qed

lemma Profiler_Dump_rows:
  assumes rel: "prof_rel p A"
  shows "\<exists>rows. Profiler_Dump p = Inr rows \<and>
    (\<forall>t tag b n. (\<exists>row \<in> set rows. row_of t tag b n row) \<longleftrightarrow> tags_of A t tag = Some (b, n))"
proof -
  obtain ts where ts: "distinct ts" "set ts = dom A" "length ts \<le> MAX_SUPPORT_THREAD"
    "pr_mThreadIndexAcc p = int (length ts) - 1" "length (pr_mProfileGroups p) = MAX_SUPPORT_THREAD"
    "\<And>k. k < length ts \<Longrightarrow>
       samples_rel (ts ! k) (pg_mProfileSamples (pr_mProfileGroups p ! k)) (the (A (ts ! k)))"
    using rel by (auto simp: prof_rel_def)
  let ?used = "\<lambda>k. set (filter (\<lambda>y. ps_Name y \<noteq> '''') (pg_mProfileSamples (pr_mProfileGroups p ! k)))"
  let ?rows = "filter (\<lambda>sample. ps_Name sample \<noteq> '''') (concat (map pg_mProfileSamples (take (length ts) (pr_mProfileGroups p))))"
  have rows: "set ?rows = (\<Union>k < length ts. ?used k)"
    using nth_image [of "length ts" "pr_mProfileGroups p"] ts(3,5) by (simp add: lessThan_atLeast0 [symmetric] flip: nth_image) auto
  have "(\<exists>row \<in> set ?rows. row_of t tag b n row) \<longleftrightarrow> tags_of A t tag = Some (b, n)" for t tag b n
  proof
    assume "\<exists>row \<in> set ?rows. row_of t tag b n row"
    then obtain k row where k: "k < length ts" "row \<in> ?used k" "row_of t tag b n row" unfolding rows by blast
    then have "ts ! k = t" using samples_rel_rows(2) [OF ts(6) [OF k(1)] k(2)] by (simp add: row_of_def)
    then show "tags_of A t tag = Some (b, n)"
      using samples_rel_rows(1) [OF ts(6) [OF k(1)]] k ts(2) nth_mem [OF k(1)] by (fastforce simp: tags_of_def)
  next
    assume a: "tags_of A t tag = Some (b, n)"
    then obtain M where M: "A t = Some M" "M tag = Some (b, n)" by (auto simp: tags_of_def split: option.splits)
    then obtain k where k: "k < length ts" "ts ! k = t" using ts(2) by (metis domI in_set_conv_nth)
    then show "\<exists>row \<in> set ?rows. row_of t tag b n row"
      using samples_rel_rows(1) [OF ts(6) [OF k(1)], of tag b n] M unfolding rows by auto
  qed
  moreover have "Profiler_Dump p = Inr ?rows" using ts(3-5) by (simp add: Profiler_Dump_def)
  ultimately show ?thesis by blast
qed

subsection \<open>Brackets in LanCore\<close>

text \<open>
  What the functions of \<^verbatim>\<open>LanCore\<close> call of the profiler, statement by statement. \<^verbatim>\<open>SendPacket\<close> puts a bracket around \<^verbatim>\<open>SendPost\<close> when the packet
  was queued; \<^verbatim>\<open>NetworkRecvCompleted\<close> puts one around the handler of every packet, in which \<^verbatim>\<open>SendPacket\<close> may be called any number of times.
  The numbers are the times at which the clock is read. A thread executes such functions one after the other: completed receives, and
  calls of \<^verbatim>\<open>SendPacket\<close> from elsewhere (the other callbacks, the application's own threads). \<^verbatim>\<open>SendPost\<close> itself makes no call
  of the profiler, as long as \<^verbatim>\<open>OnDisconnected\<close>, which it may call when \<^verbatim>\<open>WSASend\<close> fails, sends nothing.
\<close>

definition tag_send :: string where
  "tag_send = ''SendPacket-SendPost''"

definition tag_recv :: string where
  "tag_recv = ''OnReceived''"

record send_call =
  sc_isEnqueue :: bool
  sc_begin :: int
  sc_end :: int

record received_packet =
  rp_begin :: int
  rp_sends :: "send_call list"
  rp_end :: int

definition SendPacket_profile :: "nat \<Rightarrow> send_call \<Rightarrow> prof_call list" where
  "SendPacket_profile t c =
     (if sc_isEnqueue c then [ProfBegin t tag_send (sc_begin c), ProfEnd t tag_send (sc_end c)] else [])"

definition NetworkRecvCompleted_profile :: "nat \<Rightarrow> received_packet list \<Rightarrow> prof_call list" where
  "NetworkRecvCompleted_profile t packets =
     concat (map (\<lambda>p. ProfBegin t tag_recv (rp_begin p) # concat (map (SendPacket_profile t) (rp_sends p)) @
       [ProfEnd t tag_recv (rp_end p)]) packets)"

datatype lan_work = Receives "received_packet list" | Sends send_call

fun work_profile :: "nat \<Rightarrow> lan_work \<Rightarrow> prof_call list" where
  "work_profile t (Receives packets) = NetworkRecvCompleted_profile t packets"
| "work_profile t (Sends c) = SendPacket_profile t c"

fun call_thread :: "prof_call \<Rightarrow> nat" where
  "call_thread (ProfBegin t tag now) = t"
| "call_thread (ProfEnd t tag now) = t"

text \<open>An interleaving of threads, each of which has come to some point of its work.\<close>

definition lan_interleaving :: "(nat \<Rightarrow> lan_work list) \<Rightarrow> prof_call list \<Rightarrow> bool" where
  "lan_interleaving works cs \<longleftrightarrow>
     (\<forall>t. \<exists>later. concat (map (work_profile t) (works t)) = filter (\<lambda>c. call_thread c = t) cs @ later)"

text \<open>
  Such calls are nested: \<open>st t\<close> is the stack of open tags of a thread, which is one of three.
\<close>

fun lan_calls :: "prof_call list \<Rightarrow> (nat \<Rightarrow> string list) \<Rightarrow> bool" where
  "lan_calls [] st = True"
| "lan_calls (ProfBegin t tag now # cs) st =
     (tag # st t \<in> {[tag_send], [tag_recv], [tag_send, tag_recv]} \<and> lan_calls cs (st(t := tag # st t)))"
| "lan_calls (ProfEnd t tag now # cs) st =
     (st t \<noteq> [] \<and> hd (st t) = tag \<and> lan_calls cs (st(t := tl (st t))))"

text \<open>The stacks of the threads do not depend on one another.\<close>

fun thread_calls :: "prof_call list \<Rightarrow> string list \<Rightarrow> bool" where
  "thread_calls [] st = True"
| "thread_calls (ProfBegin t tag now # cs) st =
     (tag # st \<in> {[tag_send], [tag_recv], [tag_send, tag_recv]} \<and> thread_calls cs (tag # st))"
| "thread_calls (ProfEnd t tag now # cs) st = (st \<noteq> [] \<and> hd st = tag \<and> thread_calls cs (tl st))"

lemma lan_calls_threads:
  "(\<And>t. thread_calls (filter (\<lambda>c. call_thread c = t) cs) (st t)) \<Longrightarrow> lan_calls cs st"
proof (induction cs arbitrary: st)
  case (Cons c cs)
  note here = Cons.prems [of "call_thread c"]
  have step: "lan_calls cs (st(call_thread c := ss))" if "thread_calls (filter (\<lambda>d. call_thread d = call_thread c) cs) ss" for ss
  proof (rule Cons.IH)
    fix t
    show "thread_calls (filter (\<lambda>c. call_thread c = t) cs) ((st(call_thread c := ss)) t)"
      using that Cons.prems [of t] by (cases "t = call_thread c") auto
  qed
  show ?case
  proof (cases c)
    case (ProfBegin t tag now)
    then show ?thesis using here step [of "tag # st t"] by simp
  next
    case (ProfEnd t tag now)
    then show ?thesis using here step [of "tl (st t)"] by simp
  qed
qed simp

lemma thread_calls_prefix: "thread_calls (cs @ ds) st \<Longrightarrow> thread_calls cs st"
  by (induction cs st rule: thread_calls.induct) auto

lemma thread_calls_send:
  assumes "st \<in> {[], [tag_recv]}"
  shows "thread_calls (SendPacket_profile t c @ cs) st = thread_calls cs st"
    "thread_calls (concat (map (SendPacket_profile t) calls) @ cs) st = thread_calls cs st"
proof -
  show one: "thread_calls (SendPacket_profile t c @ cs) st = thread_calls cs st" for c cs
    using assms by (auto simp: SendPacket_profile_def)
  show "thread_calls (concat (map (SendPacket_profile t) calls) @ cs) st = thread_calls cs st"
    by (induction calls) (simp_all add: one)
qed

lemma thread_calls_works: "thread_calls (concat (map (work_profile t) ws) @ cs) [] = thread_calls cs []"
proof -
  have "thread_calls (NetworkRecvCompleted_profile t packets @ cs) [] = thread_calls cs []" for packets cs
    by (induction packets) (simp_all add: NetworkRecvCompleted_profile_def thread_calls_send)
  then have one: "thread_calls (work_profile t w @ cs) [] = thread_calls cs []" for w cs
    by (cases w) (simp_all add: thread_calls_send)
  show ?thesis by (induction ws) (simp_all add: one)
qed

lemma lan_interleaving_calls:
  assumes "lan_interleaving works cs"
  shows "lan_calls cs (\<lambda>_. [])"
proof (rule lan_calls_threads)
  fix t
  obtain later where l: "concat (map (work_profile t) (works t)) = filter (\<lambda>c. call_thread c = t) cs @ later"
    using assms by (auto simp: lan_interleaving_def)
  show "thread_calls (filter (\<lambda>c. call_thread c = t) cs) []"
    by (rule thread_calls_prefix [of _ later]) (use thread_calls_works [of t "works t" "[]"] l in simp)
qed

fun is_end :: "nat \<Rightarrow> string \<Rightarrow> prof_call \<Rightarrow> bool" where
  "is_end t tag (ProfBegin t' tag' now) = False"
| "is_end t tag (ProfEnd t' tag' now) = (t' = t \<and> tag' = tag)"

definition ends :: "nat \<Rightarrow> string \<Rightarrow> prof_call list \<Rightarrow> nat" where
  "ends t tag cs = length (filter (is_end t tag) cs)"

definition count_of :: "(nat \<rightharpoonup> tag_map) \<Rightarrow> nat \<Rightarrow> string \<Rightarrow> nat" where
  "count_of A t tag = (case tags_of A t tag of None \<Rightarrow> 0 | Some (_, n) \<Rightarrow> n)"

lemma tags_distinct [simp]: "tag_send \<noteq> tag_recv" "tag_recv \<noteq> tag_send" "tag_send \<noteq> ''''" "tag_recv \<noteq> ''''"
  by (simp_all add: tag_send_def tag_recv_def)

lemma tags_of_upd [simp]: "tags_of (A(t \<mapsto> M)) t' = (if t' = t then M else tags_of A t')"
  by (simp add: tags_of_def)

lemma spec_run_threads: "spec_run cs A = Some B \<Longrightarrow> dom B = dom A \<union> call_thread ` set cs"
proof (induction cs arbitrary: A)
  case (Cons c cs)
  then obtain A' where A': "prof_spec c A = Some A'" "spec_run cs A' = Some B" by (auto split: option.splits)
  then have "dom A' = insert (call_thread c) (dom A)" by (cases c) (auto split: if_splits option.splits)
  then show ?case using Cons.IH [OF A'(2)] by auto
qed simp

lemma spec_run_counts: "spec_run cs A = Some B \<Longrightarrow> count_of B t tag = count_of A t tag + ends t tag cs"
proof (induction cs arbitrary: A)
  case (Cons c cs)
  then obtain A' where A': "prof_spec c A = Some A'" "spec_run cs A' = Some B" by (auto split: option.splits)
  then have "count_of A' t tag = count_of A t tag + ends t tag [c]"
    by (cases c) (auto simp: count_of_def ends_def split: if_splits option.splits bool.splits)
  then show ?case using Cons.IH [OF A'(2)] by (simp add: ends_def)
qed (simp add: ends_def)

text \<open>The open tags are the active ones, and there are at most the two.\<close>

definition stack_rel :: "(nat \<Rightarrow> string list) \<Rightarrow> (nat \<rightharpoonup> tag_map) \<Rightarrow> bool" where
  "stack_rel st A \<longleftrightarrow>
     (\<forall>t. distinct (st t) \<and> dom (tags_of A t) \<subseteq> {tag_send, tag_recv} \<and>
        (\<forall>tag. (\<exists>n. tags_of A t tag = Some (True, n)) \<longleftrightarrow> tag \<in> set (st t)))"

lemma stack_relD:
  assumes "stack_rel st A"
  shows "distinct (st t)" "dom (tags_of A t) \<subseteq> {tag_send, tag_recv}" "(\<exists>n. tags_of A t tag = Some (True, n)) \<longleftrightarrow> tag \<in> set (st t)"
  using assms by (auto simp: stack_rel_def)

lemma card_two: "dom M \<subseteq> {tag_send, tag_recv} \<Longrightarrow> card (dom M) < MAX_SUPPORT_PROFILESAMPLE"
  using card_mono [of "{tag_send, tag_recv}" "dom M"] by (simp add: MAX_SUPPORT_PROFILESAMPLE_def card_insert_if)

lemma tag_begin_idle:
  assumes "\<And>n. M tag \<noteq> Some (True, n)" "card (dom M) < MAX_SUPPORT_PROFILESAMPLE"
  obtains n where "tag_begin tag M = Some (M(tag \<mapsto> (True, n)))"
proof (cases "M tag")
  case None
  then show ?thesis using assms(2) that [of 0] by simp
next
  case (Some c)
  then show ?thesis using assms(1) [of "snd c"] that [of "snd c"] by (cases c) (auto split: bool.splits)
qed

lemma lan_calls_step:
  assumes "stack_rel st A" "lan_calls (c # cs) st" "call_thread c \<in> dom A \<or> card (dom A) < MAX_SUPPORT_THREAD"
  shows "\<exists>A' st'. prof_spec c A = Some A' \<and> stack_rel st' A' \<and> lan_calls cs st'"
proof (cases c)
  case (ProfBegin t tag now)
  then have tag: "tag \<in> {tag_send, tag_recv}" "tag \<notin> set (st t)" and rest: "lan_calls cs (st(t := tag # st t))"
    using assms(2) by auto
  note d = stack_relD [OF assms(1), of t]
  have free: "card (dom (tags_of A t)) < MAX_SUPPORT_PROFILESAMPLE" by (rule card_two [OF d(2)])
  obtain n where n: "tag_begin tag (tags_of A t) = Some ((tags_of A t)(tag \<mapsto> (True, n)))"
    using tag_begin_idle [OF _ free, of tag] d(3) [of tag] tag(2) by blast
  then have "stack_rel (st(t := tag # st t)) (A(t \<mapsto> (tags_of A t)(tag \<mapsto> (True, n))))"
    using assms(1) tag by (auto simp: stack_rel_def)
  then show ?thesis using ProfBegin n rest assms(3) by (auto simp del: tag_begin.simps)
next
  case (ProfEnd t tag now)
  then have tag: "st t \<noteq> []" "hd (st t) = tag" and rest: "lan_calls cs (st(t := tl (st t)))" using assms(2) by auto
  obtain ss where ss: "st t = tag # ss" using tag by (cases "st t") auto
  note d = stack_relD [OF assms(1), of t]
  obtain n where n: "tags_of A t tag = Some (True, n)" using d(3) [of tag] ss by auto
  have "stack_rel (st(t := ss)) (A(t \<mapsto> (tags_of A t)(tag \<mapsto> (False, n + 1))))"
    using assms(1) d(1,2) ss n unfolding stack_rel_def by auto
  then show ?thesis using ProfEnd n rest ss by auto
qed

lemma lan_calls_tag:
  assumes "stack_rel st A" "lan_calls (c # cs) st"
  shows "call_tag c \<in> {tag_send, tag_recv}"
proof (cases c)
  case (ProfBegin t tag now)
  then show ?thesis using assms(2) by auto
next
  case (ProfEnd t tag now)
  then have "tag \<in> set (st t)" using assms(2) by auto
  then have "tag \<in> dom (tags_of A t)" using stack_relD(3) [OF assms(1)] by blast
  then show ?thesis using stack_relD(2) [OF assms(1)] ProfEnd by (simp only: call_tag.simps) blast
qed

lemma lan_calls_run:
  assumes "stack_rel st A" "lan_calls cs st" "card (dom A \<union> call_thread ` set cs) \<le> MAX_SUPPORT_THREAD" "finite (dom A)"
  shows "\<exists>B. spec_run cs A = Some B \<and> (\<forall>c \<in> set cs. call_tag c \<in> {tag_send, tag_recv})"
  using assms
proof (induction cs arbitrary: st A)
  case (Cons c cs)
  have "call_thread c \<in> dom A \<or> card (dom A) < MAX_SUPPORT_THREAD"
    using Cons.prems(3,4) card_seteq [of "dom A \<union> call_thread ` set (c # cs)" "dom A"] by fastforce
  then obtain A' st' where s: "prof_spec c A = Some A'" "stack_rel st' A'" "lan_calls cs st'"
    using lan_calls_step [OF Cons.prems(1,2)] by blast
  have d: "dom A' = insert (call_thread c) (dom A)" using spec_run_threads [of "[c]" A A'] s(1) by (simp del: prof_spec.simps)
  have "call_tag c \<in> {tag_send, tag_recv}" by (rule lan_calls_tag [OF Cons.prems(1,2)])
  moreover obtain B where "spec_run cs A' = Some B" "\<forall>c \<in> set cs. call_tag c \<in> {tag_send, tag_recv}"
    using Cons.IH [OF s(2,3)] Cons.prems(3,4) d by auto
  ultimately show ?case using s(1) by auto
qed simp

lemma lan_calls_safe:
  assumes "lan_calls cs (\<lambda>_. [])" "card (call_thread ` set cs) \<le> MAX_SUPPORT_THREAD"
  shows "\<exists>p rows. prof_run cs (Profiler_Create f) = (Inr (), p) \<and> Profiler_Dump p = Inr rows \<and>
    (\<forall>t tag b n. (\<exists>row \<in> set rows. row_of t tag b n row) \<longrightarrow> n = ends t tag cs) \<and>
    (\<forall>t tag. 0 < ends t tag cs \<longrightarrow> (\<exists>b. \<exists>row \<in> set rows. row_of t tag b (ends t tag cs) row))"
proof -
  have "stack_rel (\<lambda>_. []) Map.empty" by (simp add: stack_rel_def tags_of_def)
  then obtain A where A: "spec_run cs Map.empty = Some A" "\<forall>c \<in> set cs. call_tag c \<in> {tag_send, tag_recv}"
    using lan_calls_run [of "\<lambda>_. []" Map.empty cs] assms by auto
  then have "\<forall>c \<in> set cs. call_tag c \<noteq> ''''" by auto
  from prof_run_refines [OF prof_rel_Create this, of f] A(1)
  obtain p where p: "prof_run cs (Profiler_Create f) = (Inr (), p)" "prof_rel p A" by (auto simp: prod_eq_iff)
  obtain rows where rows: "Profiler_Dump p = Inr rows"
    "\<And>t tag b n. (\<exists>row \<in> set rows. row_of t tag b n row) \<longleftrightarrow> tags_of A t tag = Some (b, n)"
    using Profiler_Dump_rows [OF p(2)] by blast
  have n: "ends t tag cs = count_of A t tag" for t tag
    using spec_run_counts [OF A(1), of t tag] by (simp add: count_of_def tags_of_def)
  have "\<forall>t tag b n. (\<exists>row \<in> set rows. row_of t tag b n row) \<longrightarrow> n = ends t tag cs" unfolding rows(2) n by (simp add: count_of_def)
  moreover have "\<forall>t tag. 0 < ends t tag cs \<longrightarrow> (\<exists>b. \<exists>row \<in> set rows. row_of t tag b (ends t tag cs) row)"
    unfolding rows(2) n by (auto simp: count_of_def split: option.splits)
  ultimately show ?thesis using p(1) rows(1) by blast
qed

subsection \<open>The numbers of a sample\<close>

text \<open>A begin at \<open>a\<close> and the end at \<open>b\<close>.\<close>

definition measured :: "int \<Rightarrow> int \<times> int \<Rightarrow> ProfileSample \<Rightarrow> ProfileSample" where
  "measured f ab y = stop_sample f (snd ab) (y\<lparr>ps_IsActivated := True, ps_StartPerformanceCount := fst ab\<rparr>)"

definition elapsed_of :: "int \<Rightarrow> int \<times> int \<Rightarrow> int" where
  "elapsed_of f ab = ((snd ab - fst ab) * 10) sdiv f"

lemma put_first_hd:
  assumes "put_first (\<lambda>y. e < y) e ys = Some zs" "ys \<noteq> []"
  shows "zs \<noteq> []" "hd zs = min (hd ys) e"
  using assms by (cases ys; auto split: if_splits)+

lemma put_first_None: "put_first worse e ys = None \<longleftrightarrow> (\<forall>y \<in> set ys. \<not> worse y)"
  by (induction ys) auto

lemma put_elapsed_min:
  assumes "ps_MinElapseds y \<noteq> []"
  shows "ps_MinElapseds (put_elapsed e y) \<noteq> []" "hd (ps_MinElapseds (put_elapsed e y)) = min (hd (ps_MinElapseds y)) e"
proof -
  have "hd (ps_MinElapseds y) \<le> e" if "put_first (\<lambda>y. e < y) e (ps_MinElapseds y) = None"
    using that assms by (auto simp: put_first_None not_less)
  then show "ps_MinElapseds (put_elapsed e y) \<noteq> []" "hd (ps_MinElapseds (put_elapsed e y)) = min (hd (ps_MinElapseds y)) e"
    using assms put_first_hd by (auto simp: put_elapsed_def split: option.splits)
qed

lemma put_elapsed_sum: "ps_SumOfElapsed (put_elapsed e y) = ps_SumOfElapsed y \<or> ps_SumOfElapsed (put_elapsed e y) = e"
  by (auto simp: put_elapsed_def split: option.splits)

lemma measured_fields:
  assumes "ps_MinElapseds y \<noteq> []"
  shows "ps_MinElapseds (measured f ab y) \<noteq> []" "hd (ps_MinElapseds (measured f ab y)) = min (hd (ps_MinElapseds y)) (elapsed_of f ab)"
    "ps_SumOfElapsed (measured f ab y) = ps_SumOfElapsed y \<or> ps_SumOfElapsed (measured f ab y) = elapsed_of f ab"
    "ps_CallCount (measured f ab y) = ps_CallCount y + 1"
  using put_elapsed_min [of "y\<lparr>ps_IsActivated := True, ps_StartPerformanceCount := fst ab\<rparr>" "elapsed_of f ab"] assms
    put_elapsed_sum [of "elapsed_of f ab" "y\<lparr>ps_IsActivated := True, ps_StartPerformanceCount := fst ab\<rparr>"]
  by (simp_all add: measured_def stop_sample_def elapsed_of_def Let_def)

lemma fold_measured:
  assumes "ps_MinElapseds y \<noteq> []"
  shows "ps_MinElapseds (fold (measured f) ivs y) \<noteq> [] \<and>
    hd (ps_MinElapseds (fold (measured f) ivs y)) = Min (insert (hd (ps_MinElapseds y)) (elapsed_of f ` set ivs)) \<and>
    ps_SumOfElapsed (fold (measured f) ivs y) \<in> insert (ps_SumOfElapsed y) (elapsed_of f ` set ivs) \<and>
    ps_CallCount (fold (measured f) ivs y) = ps_CallCount y + length ivs"
  using assms
proof (induction ivs arbitrary: y)
  case (Cons ab ivs)
  note m = measured_fields [OF Cons.prems, of f ab]
  have "Min (insert (min u v) (elapsed_of f ` set ivs)) = Min (insert u (insert v (elapsed_of f ` set ivs)))" for u v
    by (cases "ivs = []") (simp_all add: min.assoc)
  then show ?case using Cons.IH [OF m(1)] m by auto
qed simp

lemma rfold_measured:
  assumes "ps_Name y = tag" "tag \<noteq> ''''" "\<not> ps_IsActivated y" "ps_ThreadID y = Some t"
  shows "rfold (\<lambda>(a, b) xs. rbind (StartRecord tag t a xs) (StopRecord tag t f b)) ivs (y # ys) = Inr (fold (measured f) ivs y # ys)"
  using assms
proof (induction ivs arbitrary: y)
  case (Cons ab ivs)
  have "ps_Name (measured f ab y) = tag" "\<not> ps_IsActivated (measured f ab y)" "ps_ThreadID (measured f ab y) = Some t"
    using Cons.prems by (simp_all add: measured_def)
  then show ?case using Cons.IH [of "measured f ab y"] Cons.prems by (cases ab) (simp add: measured_def)
qed simp

lemma rfold_fresh:
  assumes "ivs \<noteq> []" "tag \<noteq> ''''"
  shows "rfold (\<lambda>(a, b) xs. rbind (StartRecord tag t a xs) (StopRecord tag t f b)) ivs (ProfileSample_Create # ys) =
    Inr (fold (measured f) ivs (ProfileSample_Create\<lparr>ps_Name := tag, ps_ThreadID := Some t\<rparr>) # ys)"
proof (cases ivs)
  case (Cons ab rest)
  then show ?thesis
    using rfold_measured [of "measured f ab (ProfileSample_Create\<lparr>ps_Name := tag, ps_ThreadID := Some t\<rparr>)" tag t f rest ys] assms(2)
    by (cases ab) (simp add: measured_def)
qed (use assms in simp)

subsection \<open>Properties\<close>

text \<open>
  C24. Any calls of \<^verbatim>\<open>Begin\<close> and \<^verbatim>\<open>End\<close> with tags that are not empty, from a new profiler: they all succeed exactly when every thread is
  one of the first eight, has at most 30 tags, begins none that is active and ends none it never began. Then the dump
  has exactly the tags of every thread, with whether they are active and how often they were ended.
\<close>

theorem profiler_counts:
  assumes "\<forall>c \<in> set cs. call_tag c \<noteq> ''''"
  shows "case spec_run cs Map.empty of
      None \<Rightarrow> \<exists>e. fst (prof_run cs (Profiler_Create f)) = Inl e
    | Some A \<Rightarrow> \<exists>p rows. prof_run cs (Profiler_Create f) = (Inr (), p) \<and> Profiler_Dump p = Inr rows \<and>
        (\<forall>t tag b n. (\<exists>row \<in> set rows. row_of t tag b n row) \<longleftrightarrow> tags_of A t tag = Some (b, n))"
proof (cases "spec_run cs Map.empty")
  case None
  then show ?thesis using prof_run_refines [OF prof_rel_Create assms, of f] by simp
next
  case (Some A)
  then have r: "prof_run cs (Profiler_Create f) = (Inr (), snd (prof_run cs (Profiler_Create f)))"
    "prof_rel (snd (prof_run cs (Profiler_Create f))) A"
    using prof_run_refines [OF prof_rel_Create assms, of f] by (simp_all add: prod_eq_iff)
  show ?thesis unfolding Some option.case using Profiler_Dump_rows [OF r(2)] r(1) by blast
qed

theorem profiler_counts_witness:
  "\<exists>p rows. prof_run [ProfBegin 7 tag_recv 5, ProfEnd 7 tag_recv 9] (Profiler_Create 10) = (Inr (), p) \<and> Profiler_Dump p = Inr rows \<and>
    (\<exists>row \<in> set rows. row_of 7 tag_recv False 1 row)"
proof -
  have "\<forall>c \<in> set [ProfBegin 7 tag_recv 5, ProfEnd 7 tag_recv 9]. call_tag c \<noteq> ''''" by simp
  from profiler_counts [OF this, of 10] show ?thesis
    by (auto simp: tags_of_def MAX_SUPPORT_THREAD_def MAX_SUPPORT_PROFILESAMPLE_def)
qed

text \<open>
  C25. When eight threads have called a profiler, the first call of \<^verbatim>\<open>Begin\<close> by another one throws \<^verbatim>\<open>std::logic_error\<close> but keeps
  index 8 for it: its next call and the next dump read behind the array of groups.
\<close>

theorem ninth_thread:
  assumes "\<forall>c \<in> set cs. call_tag c \<noteq> ''''" "prof_run cs (Profiler_Create f) = (Inr (), p)"
    and "card (call_thread ` set cs) = MAX_SUPPORT_THREAD" "t \<notin> call_thread ` set cs"
  shows "\<exists>q. Profiler_Begin t tag now p = (Inl LogicError, q) \<and> fst (Profiler_Begin t tag' now' q) = Inl MemFault \<and>
    fst (Profiler_End t tag' now' q) = Inl MemFault \<and> Profiler_Dump q = Inl MemFault"
proof -
  obtain A where A: "spec_run cs Map.empty = Some A" "prof_rel p A"
    using prof_run_refines [OF prof_rel_Create assms(1), of f] assms(2) by (cases "spec_run cs Map.empty") auto
  then have "dom A = call_thread ` set cs" using spec_run_threads by force
  then have i: "pr_gTLSThreadIndex p t = -1" "pr_mThreadIndexAcc p = 7"
    using prof_rel_index [OF A(2), of t] prof_rel_card [OF A(2)] assms(3,4) by (simp_all add: MAX_SUPPORT_THREAD_def)
  moreover have "length (pr_mProfileGroups p) = 8" using A(2) by (auto simp: prof_rel_def MAX_SUPPORT_THREAD_def)
  ultimately show ?thesis
    by (simp add: Profiler_Begin_def Profiler_End_def with_group_def Profiler_Dump_def MAX_SUPPORT_THREAD_def)
qed

theorem ninth_thread_witness:
  "\<exists>p q. prof_run (map (\<lambda>t. ProfBegin t tag_send 0) [0..<8]) (Profiler_Create 1) = (Inr (), p) \<and>
    Profiler_Begin 8 tag_send 1 p = (Inl LogicError, q) \<and> Profiler_Dump q = Inl MemFault"
proof -
  let ?cs = "map (\<lambda>t. ProfBegin t tag_send 0) [0..<8]"
  have cs: "call_thread ` set ?cs = {0..<8}" "\<forall>c \<in> set ?cs. call_tag c \<noteq> ''''" by (auto simp: image_image)
  then have "card (call_thread ` set ?cs) = MAX_SUPPORT_THREAD" "8 \<notin> call_thread ` set ?cs" by (simp_all add: MAX_SUPPORT_THREAD_def)
  moreover have "\<exists>A. spec_run ?cs Map.empty = Some A"
    using lan_calls_run [of "\<lambda>_. []" Map.empty ?cs] cs(1) by (simp add: upt_rec stack_rel_def tags_of_def MAX_SUPPORT_THREAD_def)
  then obtain p where "prof_run ?cs (Profiler_Create 1) = (Inr (), p)"
    using prof_run_refines [OF prof_rel_Create cs(2), of 1] by (auto simp: prod_eq_iff)
  ultimately show ?thesis using ninth_thread [OF cs(2), of 1 p 8] by blast
qed

text \<open>
  The numbers of a tag that a thread begins and ends, any number of times: the first entry of \<^verbatim>\<open>MinElapseds\<close> is the least
  elapsed time and \<^verbatim>\<open>CallCount\<close> the number of calls, but \<^verbatim>\<open>SumOfElapsed\<close>, from which the average is printed, is zero or the
  time of a single call.
\<close>

lemma profile_numbers:
  assumes "ivs \<noteq> []" "\<forall>ab \<in> set ivs. elapsed_of f ab \<le> INT64_MAX" "tag \<noteq> ''''"
  shows "\<exists>y. rfold (\<lambda>(a, b) xs. rbind (StartRecord tag t a xs) (StopRecord tag t f b)) ivs (ProfileSample_Create # ys) = Inr (y # ys) \<and>
    hd (ps_MinElapseds y) = Min (elapsed_of f ` set ivs) \<and> ps_CallCount y = length ivs \<and>
    (ps_SumOfElapsed y = 0 \<or> (\<exists>ab \<in> set ivs. ps_SumOfElapsed y = elapsed_of f ab))"
proof -
  let ?y = "ProfileSample_Create\<lparr>ps_Name := tag, ps_ThreadID := Some t\<rparr>"
  have c: "ps_MinElapseds ?y \<noteq> []" "hd (ps_MinElapseds ?y) = INT64_MAX" "ps_SumOfElapsed ?y = 0" "ps_CallCount ?y = 0"
    by (simp_all add: ProfileSample_Create_def ProfileSample_Clear_def SKIP_MINMAX_def)
  have "Min (elapsed_of f ` set ivs) \<le> INT64_MAX"
    using assms(1,2) by (intro order_trans [OF Min.coboundedI [of _ "elapsed_of f (hd ivs)"]]) auto
  then have "Min (insert INT64_MAX (elapsed_of f ` set ivs)) = Min (elapsed_of f ` set ivs)" using assms(1) by simp
  then show ?thesis using fold_measured [OF c(1), of f ivs] c(2-4) rfold_fresh [OF assms(1,3), of t f ys] by auto
qed

lemma profile_numbers_example:
  "\<exists>y. rfold (\<lambda>(a, b) xs. rbind (StartRecord tag_send 1 a xs) (StopRecord tag_send 1 10 b)) [(0, 40), (50, 80)] [ProfileSample_Create] = Inr [y] \<and>
    hd (ps_MinElapseds y) = 30"
proof -
  have e: "\<forall>ab \<in> set [(0, 40), (50, 80)]. elapsed_of 10 ab \<le> INT64_MAX" "elapsed_of 10 ` set [(0, 40), (50, 80)] = {40, 30}"
    by (simp_all add: elapsed_of_def INT64_MAX_def signed_divide_int_def)
  show ?thesis using profile_numbers [OF _ e(1) tags_distinct(3), of 1 "[]"] unfolding e(2) by auto
qed

end
