(* ===== verification/Lan_Properties.thy ===== *)
theory Lan_Properties
  imports Lan_Stream Profiler
begin

text \<open>
  What \<^verbatim>\<open>LanCore\<close> and the application of \<^verbatim>\<open>playground_lan/Main.cpp\<close> do, and where they fall short.
\<close>

subsection \<open>A started server with one connection\<close>

definition lan_demo_option :: "u32 \<Rightarrow> u32 \<Rightarrow> ServerComponentOption" where
  "lan_demo_option n k = default_option\<lparr>no_MaxPacketBodyLength := n, so_MaxSessionCount := k\<rparr>"

definition lan_demo_mem :: "nat \<Rightarrow> byte list" where
  "lan_demo_mem a = replicate 2002 0"

definition lan_demo_env :: "nat \<Rightarrow> echo_env" where
  "lan_demo_env n = \<lparr>ee_thread = 0, ee_mem = lan_demo_mem, ee_reply = WSA_Done\<rparr>"

text \<open>A handler that collects the bodies.\<close>

definition lan_demo_events :: "byte list list ILanCoreEvent" where
  "lan_demo_events = echo_callbacks\<lparr>le_OnReceived := \<lambda>_ _ p s. Inr (p, s\<lparr>nc_world := nc_world s @ [pk_body p]\<rparr>)\<rparr>"

lemma lan_demo_ok:
  "lan_mem_ok lan_demo_mem" "lan_app_ok any_state (echo_events lan_demo_env)" "lan_app_ok any_state lan_demo_events"
  "lan_quiet lan_demo_events (\<lambda>_ body w. w @ [body])"
proof -
  show "lan_mem_ok lan_demo_mem" by (simp add: lan_demo_mem_def)
  then show "lan_app_ok any_state (echo_events lan_demo_env)"
    by (intro echo_contract [where I = any_state]) (simp add: lan_demo_env_def)
  show "lan_quiet lan_demo_events (\<lambda>_ body w. w @ [body])" by (simp add: lan_quiet_def lan_demo_events_def)
  have "lan_inv (lan_app m any_state) x W (s\<lparr>nc_world := w\<rparr>) \<and> core_frame s (s\<lparr>nc_world := w\<rparr>)"
    if "lan_inv (lan_app m any_state) x W s" for m x W w and s :: "byte list list lan_core"
  proof -
    have "ses (s\<lparr>nc_world := w\<rparr>) = ses s" "live (s\<lparr>nc_world := w\<rparr>) = live s" "held (s\<lparr>nc_world := w\<rparr>) = held s"
      by (simp_all add: ses_def live_def held_def fun_eq_iff)
    then show ?thesis using that by (simp add: core_inv_in_def core_base_in_def log_ok_def core_frame_def Let_def)
  qed
  then show "lan_app_ok any_state lan_demo_events"
    by (auto simp: lan_app_ok_def lan_handlers_ok_def lan_demo_events_def echo_callbacks_def)
qed

lemma lan_demo_connected:
  fixes ev :: "'w ILanCoreEvent"
  assumes k: "0 < unat k" "unat k \<le> 65536" and ok: "lan_app_ok any_state ev" and ev: "\<And>sid s. le_OnConnected ev sid s = Inr s" "\<And>ip p s. le_OnConnectionRequested ev ip p s"
  shows "\<exists>s i. lan_running any_state ev s \<and> lan_inv (lan_app (\<lambda>_. 0) any_state) (\<lambda>_. 0) {} s \<and>
     i < length (nc_mSessionPool s) \<and> live s i \<and> nc_recvs s i = 1 \<and> nc_sends s i = 0 \<and> ns_mIsCloseSocket (ses s i) = 0 \<and>
     ns_IsSendingAtomic (ses s i) = 0 \<and> queue_list (ns_mSendQueue (ses s i)) = [] \<and> rb_contents (ns_mRecvQueue (ses s i)) = [] \<and>
     rb_mUsedSize (ns_mRecvQueue (ses s i)) = 0 \<and> rb_mMaxCapacity (ns_mRecvQueue (ses s i)) = 4086 \<and>
     unat (SessionIndex (ns_mSessionID (ses s i))) = i \<and> nc_option s = lan_demo_option n k \<and> length (nc_mSessionPool s) = unat k"
proof -
  let ?core = "lan_create 0 (PacketPool_Init 0) (PacketPool_Init 0) undefined :: 'w lan_core"
  let ?option = "lan_demo_option n k"
  have o: "ValidateOption ?option" "no_MaxPacketBodyLength ?option = n" "so_MaxSessionCount ?option = k"
    using demo_option_ok by (simp_all add: lan_demo_option_def ValidateOption_def)
  obtain s0 :: "'w lan_core" where s0: "\<forall>r. \<exists>y. LanCore_Start True r 0 0 ?option ?core = Inr (s0, y)"
    "lan_inv (lan_app (\<lambda>_. 0) any_state) (\<lambda>_. 0) {} s0" "length (nc_mSessionPool s0) = unat k"
    "stack_list (nc_mUnusedSession s0) = rev [0..<unat k]" "nc_option s0 = ?option"
    using LanCore_Start_ok [where I = any_state, OF o(1) _ pool_inv_Init pool_inv_Init TrueI, where garbage = 0 and uid = 0 and uid' = 0]
      k unfolding o(3) by fastforce
  have st: "\<exists>n. LanCore_Start True demo_replies 0 0 ?option ?core = Inr (s0, None, n)"
    using s0(1) o(1) by (force simp: LanCore_Start_def demo_replies_def rbind_eq_Inr)
  have run0: "lan_running any_state ev s0"
    unfolding lan_running_def using st o k pool_inv_Init lan_start by fastforce
  have free: "stack_list (nc_mUnusedSession s0) \<noteq> []" using s0(4) k(1) by simp
  obtain i s where a: "LanCore_NetworkAcceptThread_step ev (Some demo_accept) s0 = Inr (s, True)" "i < length (nc_mSessionPool s0)"
    "length (nc_mSessionPool s) = length (nc_mSessionPool s0)" "live s i" "nc_recvs s i = 1"
    "ns_mIsCloseSocket (ses s i) = 0" "ns_IsSendingAtomic (ses s i) = 0" "session_refs (ses s i) = []"
    "rb_contents (ns_mRecvQueue (ses s i)) = []"
    using lan_accept_connects [OF s0(2) ev(1) ev(2) _ _ _ _ free, of demo_accept "''10.0.0.1''"]
    by (auto simp: demo_accept_def LanCore_ApplySocketOption_def wsa_posted_def WSA_IO_PENDING_def)
  have k: "lan_inv (lan_app (\<lambda>_. 0) any_state) (\<lambda>_. 0) {} s" "nc_option s = ?option"
    using LanCore_NetworkAcceptThread_step_ok [OF lan_app_okD(1) [OF ok] s0(2), of "Some demo_accept"] a(1) free s0(5)
    by (auto simp: demo_accept_def)
  have i: "i < length (nc_mSessionPool s)" using a(2,3) by simp
  note d = lan_session [OF k(1) i a(4)]
  have "lan_running any_state ev s"
    using run0 lan_running_step [of any_state ev s0 "LanAccept (Some demo_accept)" lan_demo_mem 0 s] a(1) free lan_demo_ok(1)
    by (auto simp: demo_accept_def)
  moreover have "nc_sends s i = 0" using d(5,6) a(7) by (cases "nc_sends s i") auto
  moreover have "rb_mUsedSize (ns_mRecvQueue (ses s i)) = 0" using arg_cong [OF a(9), of length] by simp
  moreover have "rb_mMaxCapacity (ns_mRecvQueue (ses s i)) = 4086" using d(1) by (simp add: sess_inv_def)
  ultimately show ?thesis
    using k a(3-9) s0(3) i lan.live_index [OF k(1) i a(4)] by (intro exI [of _ s] exI [of _ i]) (simp add: session_refs_def)
qed

lemma lan_demo_calls:
  "le_OnConnected lan_demo_events sid s = Inr s" "le_OnConnectionRequested lan_demo_events ip port s"
  "le_OnConnected (echo_events env) sid s' = Inr s'" "le_OnConnectionRequested (echo_events env) ip port s'"
  by (simp_all add: lan_demo_events_def echo_events_def echo_callbacks_def)

lemma lan_demo_running:
  fixes ev :: "'w ILanCoreEvent" and k n :: u32
  assumes "0 < unat k" "unat k \<le> 65536" "lan_app_ok any_state ev" "\<And>sid s. le_OnConnected ev sid s = Inr s"
    "\<And>ip p s. le_OnConnectionRequested ev ip p s"
  obtains s i where "lan_running any_state ev s" "lan_inv (lan_app (\<lambda>_. 0) any_state) (\<lambda>_. 0) {} s" "i < length (nc_mSessionPool s)"
    "live s i" "nc_recvs s i = 1" "nc_sends s i = 0" "ns_mIsCloseSocket (ses s i) = 0"
    "ns_IsSendingAtomic (ses s i) = 0" "queue_list (ns_mSendQueue (ses s i)) = []" "rb_contents (ns_mRecvQueue (ses s i)) = []"
    "rb_mUsedSize (ns_mRecvQueue (ses s i)) = 0" "rb_mMaxCapacity (ns_mRecvQueue (ses s i)) = 4086"
    "unat (SessionIndex (ns_mSessionID (ses s i))) = i" "nc_option s = lan_demo_option n k"
    "length (nc_mSessionPool s) = unat k"
proof -
  from lan_demo_connected [OF assms, of n] show ?thesis by (elim exE conjE) (rule that; simp)
qed

lemma lan_demo_sizes: "0 < unat (150 :: u32)" "unat (150 :: u32) \<le> 65536" "0 < unat (1 :: u32)" "unat (1 :: u32) \<le> 65536"
  by simp_all

text \<open>The echo server of \<^verbatim>\<open>Main.cpp\<close>, with bodies of any length allowed; and with one session.\<close>

lemmas lan_demo_echo = lan_demo_running [OF lan_demo_sizes(1,2) lan_demo_ok(2) lan_demo_calls(3,4), where 'w = unit and n = 65535]
lemmas lan_demo_echo_1 = lan_demo_running [OF lan_demo_sizes(3,4) lan_demo_ok(2) lan_demo_calls(3,4), where 'w = unit and n = 65535]

subsection \<open>The server\<close>

text \<open>
  C15. A started \<^verbatim>\<open>LanCore\<close>, whatever its option, after any history of accepts, completions (with any outcome), sends and disconnects,
  with callbacks that keep their contract. The histories are those in which every accepted connection finds an unused session and its
  socket can be attached to the completion port; the code ensures neither, and both failures break what is said here. The next such event
  leaves a state in which the I/O count of every session is the number of its outstanding requests, a session is released exactly when there
  are none, exactly the released ones are on the stack of unused sessions, every packet has a reference for every place where a session holds
  it, and the callbacks of every session id came in their order. Otherwise it ends in one of three exceptions that stop the process, or, only
  when it is a receive that completes a body longer than 2000 bytes, in a write past the end of a packet's buffer.
\<close>

theorem lan_server_safe:
  assumes "lan_app_ok I ev" "lan_running I ev s" "lan_enabled op s" "lan_mem_ok mem"
  shows "case lan_step ev t mem op s of
      Inl e \<Rightarrow> e = InvalidArgument \<or> e = CrashDumped \<or> e = ReaderException \<or> e = MemFault \<and> lan_too_long op s
    | Inr s' \<Rightarrow> lan_running I ev s' \<and> \<not> lan_too_long op s \<and>
        (\<forall>i < length (nc_mSessionPool s').
           ns_IOCountAtomic (ses s' i) = int (nc_recvs s' i + nc_sends s' i) \<and> nc_recvs s' i \<le> 1 \<and> nc_sends s' i \<le> 1 \<and>
           (IsReleased (ses s' i) \<longleftrightarrow> nc_recvs s' i + nc_sends s' i = 0) \<and>
           (IsReleased (ses s' i) \<longleftrightarrow> i \<in> set (stack_list (nc_mUnusedSession s')))) \<and>
        distinct (stack_list (nc_mUnusedSession s')) \<and> (\<forall>a. held s' a \<le> pp_refs (nc_send s') a) \<and>
        (\<forall>sid. session_log sid (nc_log s') \<noteq> None)"
proof (cases "lan_step ev t mem op s")
  case (Inl e)
  note h = assms(1,4) lan_running_inv [OF assms(1,2)] assms(3)
  show ?thesis
    using Inl lan_step_ok [OF h, of t] lan_step_too_long [OF h, of t] by (cases "lan_too_long op s") auto
next
  case (Inr s')
  note h = assms(1,4) lan_running_inv [OF assms(1,2)] assms(3)
  have short: "\<not> lan_too_long op s" using Inr lan_step_too_long [OF h, of t] by auto
  have run: "lan_running I ev s'" by (rule lan_running_step [OF assms(2-4) Inr])
  have inv: "lan_inv (lan_app (\<lambda>_. 0) I) (\<lambda>_. 0) {} s'" by (rule lan_running_inv [OF assms(1) run])
  have base: "lan_base (lan_app (\<lambda>_. 0) I) (\<lambda>_. 0) {} s'" using inv by (simp add: lan_inv_def)
  have "IsReleased (ses s' i) \<longleftrightarrow> \<not> live s' i" "live s' i \<longleftrightarrow> nc_recvs s' i + nc_sends s' i \<noteq> 0"
    "ns_IOCountAtomic (ses s' i) = int (nc_recvs s' i + nc_sends s' i)" "nc_recvs s' i \<le> 1" "nc_sends s' i \<le> 1"
    if "i < length (nc_mSessionPool s')" for i
    using lan.slot_inD(2-6) [OF lan_invD(1) [OF inv that]] lan_invD(2) [OF inv that] by (auto simp: IsReleased_def live_def)
  moreover have "distinct (stack_list (nc_mUnusedSession s'))" "set (stack_list (nc_mUnusedSession s')) = {i. i < length (nc_mSessionPool s') \<and> \<not> live s' i}"
    using base by (simp_all add: core_base_in_def Let_def)
  moreover have "held s' a \<le> pp_refs (nc_send s') a" for a using base by (simp add: core_base_in_def Let_def)
  moreover have "session_log sid (nc_log s') \<noteq> None" for sid using inv by (simp add: lan_inv_def log_ok_def)
  ultimately show ?thesis using run short Inr by auto
qed

theorem lan_server_safe_witness:
  "\<exists>s i. live s i \<and> (case lan_step (echo_events lan_demo_env) 0 lan_demo_mem (LanFailed i RecvOverlapped 64) s of
      Inl e \<Rightarrow> e = InvalidArgument \<or> e = CrashDumped \<or> e = ReaderException \<or> e = MemFault
    | Inr s' \<Rightarrow> lan_running any_state (echo_events lan_demo_env) (s' :: unit lan_core))"
proof -
  obtain s :: "unit lan_core" and i where s: "lan_running any_state (echo_events lan_demo_env) s"
    "i < length (nc_mSessionPool s)" "live s i" "nc_recvs s i = 1"
    by (rule lan_demo_echo)
  have en: "lan_enabled (LanFailed i RecvOverlapped 64) s" using s by simp
  from lan_server_safe [OF lan_demo_ok(2) s(1) en lan_demo_ok(1), of 0] s(3) show ?thesis
    by (intro exI [of _ s] exI [of _ i]) (auto split: sum.splits)
qed

text \<open>
  C16. A client sends bodies over a connection that waits for its first bytes, each in a frame of a two-byte length and the body, none
  longer than the option allows and than the 2000 bytes that the buffer of a packet takes, whatever the option is. However the kernel cuts the
  stream into receives, each at most as large as the buffers that were posted for it, when the system takes every \<^verbatim>\<open>WSARecv\<close> that is posted
  and \<^verbatim>\<open>OnReceived\<close> only looks at the bodies: it gets them in order, each once and cut at 1998 bytes; no byte is left over and the
  session waits for more.
\<close>

theorem lan_stream_delivers:
  assumes "lan_app_ok any_state ev" "lan_quiet ev upd" "lan_mem_ok mem"
    and "lan_running any_state ev s" "i < length (nc_mSessionPool s)" "nc_recvs s i = 1" "ns_mIsCloseSocket (ses s i) = 0"
    and "rb_contents (ns_mRecvQueue (ses s i)) = []"
    and "stream = concat (map lan_frame bodies)"
    and "\<forall>body \<in> set bodies. length body \<le> 2000 \<and> length body \<le> unat (no_MaxPacketBodyLength (nc_option s))"
    and "\<forall>(n, reply) \<in> set sizes. 1 \<le> n \<and> wsa_posted reply" "length stream \<le> length sizes"
  shows "\<exists>s'. lan_recv_stream ev t mem i sizes stream s = Inr (s', []) \<and>
    nc_world s' = fold (upd (ns_mSessionID (ses s i))) (map (take 1998) bodies) (nc_world s) \<and>
    rb_contents (ns_mRecvQueue (ses s' i)) = [] \<and> nc_recvs s' i = 1 \<and> \<not> IsReleased (ses s' i) \<and> ns_mIsCloseSocket (ses s' i) = 0"
proof -
  have inv: "lan_inv no_app (\<lambda>_. 0) {} s" using lan_running_inv [OF assms(1,4)] by simp
  have l: "live s i" using lan.slot_inD(6) [OF lan_invD(1) [OF inv assms(5)]] assms(6) by (simp add: live_def)
  have nil: "lan_frames n [] = ([], [], GoOn)" for n by (simp add: lan_frames.simps)
  have "rb_contents (ns_mRecvQueue (ses s i)) @ stream = concat (map lan_frame bodies)" using assms(8,9) by simp
  from lan_recv_stream_frames [OF assms(2,3) refl inv assms(5) l assms(6,7) _ this assms(10-12), of t] show ?thesis
    using nil assms(8) by (auto simp: live_def IsReleased_def)
qed

theorem lan_stream_delivers_witness:
  "\<exists>(s :: byte list list lan_core) i s'. no_MaxPacketBodyLength (nc_option s) = 2048 \<and>
    lan_recv_stream lan_demo_events 0 lan_demo_mem i (replicate 5 (1, WSA_Done) @ replicate 5 (5000, WSA_Error 997)) [3, 0, 1, 2, 3, 0, 0, 1, 0, 9] s = Inr (s', []) \<and>
    nc_world s' = nc_world s @ [[1, 2, 3], [], [9]]"
proof -
  obtain s :: "byte list list lan_core" and i where s: "lan_running any_state lan_demo_events s"
    "i < length (nc_mSessionPool s)" "nc_recvs s i = 1" "ns_mIsCloseSocket (ses s i) = 0" "rb_contents (ns_mRecvQueue (ses s i)) = []"
    "nc_option s = lan_demo_option 2048 150"
    by (rule lan_demo_running [OF lan_demo_sizes(1,2) lan_demo_ok(3) lan_demo_calls(1,2), where n = 2048])
  let ?bodies = "[[1, 2, 3], [], [9]] :: byte list list" and ?stream = "[3, 0, 1, 2, 3, 0, 0, 1, 0, 9] :: byte list"
  let ?sizes = "replicate 5 (1 :: nat, WSA_Done) @ replicate 5 (5000, WSA_Error 997)"
  have o: "no_MaxPacketBodyLength (nc_option s) = 2048" unfolding s(6) by (simp add: lan_demo_option_def)
  have c: "?stream = concat (map lan_frame ?bodies)" by (simp add: lan_frame_def numeral_2_eq_2)
  have b: "\<forall>body \<in> set ?bodies. length body \<le> 2000 \<and> length body \<le> unat (no_MaxPacketBodyLength (nc_option s))" unfolding o by simp
  have z: "\<forall>(n, reply) \<in> set ?sizes. 1 \<le> n \<and> wsa_posted reply" "length ?stream \<le> length ?sizes"
    by (simp_all add: wsa_posted_def WSA_IO_PENDING_def)
  from lan_stream_delivers [OF lan_demo_ok(3,4,1) s(1-5) c b z, of 0] o show ?thesis by auto
qed

text \<open>
  C19. \<^verbatim>\<open>Disconnect\<close> never disconnects anybody. In every state between two events of a started server, whatever its option, in whose
  history every accept found an unused session and attached its socket to the port: a session waits for a request, and then its
  I/O count is not 0 and \<^verbatim>\<open>TryRelease\<close> refuses, or it is released already. The whole state stays as it is, the socket too, so the peer stays
  connected.
\<close>

theorem lan_disconnect_ineffective:
  assumes "lan_app_ok I ev" "lan_running I ev s" "unat (SessionIndex sid) < length (nc_mSessionPool s)"
  shows "LanCore_Disconnect ev sid s = Inr (s, False)"
proof -
  have inv: "lan_inv (lan_app (\<lambda>_. 0) I) (\<lambda>_. 0) {} s" by (rule lan_running_inv [OF assms(1,2)])
  show ?thesis
  proof (cases "live s (unat (SessionIndex sid))")
    case True
    then show ?thesis using LanCore_Disconnect_busy [OF inv assms(3)] lan_invD(2) [OF inv assms(3)] by simp
  next
    case False
    then show ?thesis
      using assms(3) LanCore_TryRemoveSession_busy [of s "unat (SessionIndex sid)" ev]
      by (simp add: LanCore_Disconnect_def LanManager_FindSessionOrNull_def live_def Let_def)
  qed
qed

theorem lan_disconnect_ineffective_witness:
  "\<exists>(s :: unit lan_core) i. live s i \<and> nc_recvs s i = 1 \<and>
    LanCore_Disconnect (echo_events lan_demo_env) (ns_mSessionID (ses s i)) s = Inr (s, False)"
proof -
  obtain s :: "unit lan_core" and i where s: "lan_running any_state (echo_events lan_demo_env) s"
    "i < length (nc_mSessionPool s)" "live s i" "nc_recvs s i = 1" "unat (SessionIndex (ns_mSessionID (ses s i))) = i"
    by (rule lan_demo_echo)
  then have n: "unat (SessionIndex (ns_mSessionID (ses s i))) < length (nc_mSessionPool s)" by simp
  from lan_disconnect_ineffective [OF lan_demo_ok(2) s(1) n] s(3,4) show ?thesis by blast
qed

text \<open>With no unused session, the session manager gives out session 0, whatever it is doing.\<close>

lemma LanManager_gives_session_0:
  fixes s :: "'w lan_core"
  assumes inv: "lan_inv K (\<lambda>_. 0) {} s" and full: "stack_list (nc_mUnusedSession s) = []" "0 < length (nc_mSessionPool s)"
  obtains s' where "LanManager_NewSessionOrNull sock address port garbage s = Inr (s', 0)" "ns_mSocket (ses s' 0) = Some sock"
    "ns_IOCountAtomic (ses s' 0) = 0" "ns_mSessionID (ses s' 0) \<noteq> ns_mSessionID (ses s 0)" "ns_IsReleasedAtomic (ses s' 0) = 0"
    "nc_recvs s' = nc_recvs s" "nc_sends s' = nc_sends s" "nc_log s' = nc_log s" "length (nc_mSessionPool s') = length (nc_mSessionPool s)"
    "nc_mConnectedSessionCount s' = int (length (nc_mSessionPool s)) + 1" "nc_option s' = nc_option s"
proof -
  have base: "stack_inv (length (nc_mSessionPool s)) (nc_mUnusedSession s)" "\<forall>i < length (nc_mSessionPool s). live s i"
    "nc_mConnectedSessionCount s = int (card {i. i < length (nc_mSessionPool s) \<and> live s i})"
    using inv full(1) by (auto simp: lan_inv_def core_base_in_def Let_def)
  have "{i. i < length (nc_mSessionPool s) \<and> live s i} = {..<length (nc_mSessionPool s)}" using base(2) by auto
  then have cnt: "nc_mConnectedSessionCount s = int (length (nc_mSessionPool s))" using base(3) by simp
  have pop: "Stack_TryPop (nc_mUnusedSession s) = Inr (nc_mUnusedSession s, None)" by (rule Stack_TryPop_law(1) [OF base(1) full(1)])
  obtain acc uid where g: "lan_uid_loop 3 (SessionUID (ns_mSessionID (ses s 0))) (lc_mSessionUIDAcc s) = Inr (acc, uid)"
    "uid \<noteq> SessionUID (ns_mSessionID (ses s 0))" "uid AND uid_mask = uid"
    using lan_uid_loop_ok by blast
  let ?sid = "GenSessionID (of_nat 0) uid"
  have ix: "unat (SessionIndex ?sid) = 0" using SessionIndex_Gen_nat [of "of_nat 0" uid] by simp
  have ne: "?sid \<noteq> ns_mSessionID (ses s 0)" using SessionUID_Gen [of "of_nat 0" uid] g(2,3) by auto
  have "live s 0" using base(2) full(2) by blast
  then have "queue_inv (ns_mSendQueue (ses s 0))" using lan_session(1) [OF inv full(2)] by (simp add: sess_inv_def)
  then obtain d as where "queue_rep (ns_mSendQueue (ses s 0)) d as" by (auto simp: queue_inv_def)
  then obtain q' where "Queue_Clear garbage (ns_mSendQueue (ses s 0)) = Inr q'" using Queue_Clear_rep by metis
  then obtain v where v: "LanSession_Init ?sid sock address port garbage (ses s 0) = Inr v" "ns_mSocket v = Some sock" "ns_IOCountAtomic v = 0"
    "ns_mSessionID v = ?sid" "ns_IsReleasedAtomic v = 0"
    by (auto simp: LanSession_Init_def)
  let ?s1 = "s\<lparr>lc_mSessionUIDAcc := acc\<rparr>"
  let ?s' = "(set_ses 0 v ?s1)\<lparr>nc_mConnectedSessionCount := nc_mConnectedSessionCount s + 1\<rparr>"
  have "LanManager_NewSessionOrNull sock address port garbage s = Inr (?s', 0)"
    using pop g(1) v(1) ix full(2)
    by (simp add: LanManager_NewSessionOrNull_def LanManager_GenUniqueSessionID_def Let_def)
  moreover have "ses ?s' 0 = v" using full(2) by (simp add: ses_def set_ses_def)
  ultimately show ?thesis using v(2-5) ne cnt by (intro that [of ?s']) simp_all
qed

text \<open>
  C20. A round of the accept thread while every session is in use, in a running server as above. The request is granted by a handler
  whose \<^verbatim>\<open>OnConnected\<close> changes nothing, and the system does all that it is asked (options, port, \<^verbatim>\<open>WSARecv\<close>). The connection takes session 0 all
  the same, as the index that \<^verbatim>\<open>TryPop\<close> did not write is still 0: the session gets the new socket and another id, and the I/O count 1 while
  at least two requests are outstanding, those of the old connection among them. The handler is told of the new connection, and never that
  the old one has ended; the count of connected sessions is above the number of sessions.
\<close>

theorem lan_accept_takes_session_0:
  assumes "lan_app_ok I ev" "lan_running I ev s" "stack_list (nc_mUnusedSession s) = []" "0 < length (nc_mSessionPool s)"
    and "\<And>sid s. le_OnConnected ev sid s = Inr s" "\<And>ip p s. le_OnConnectionRequested ev ip p s"
    and "LanCore_ApplySocketOption (ae_opts a) (nc_option s) = None" "ae_addr a = Some ip" "ae_port_created a" "wsa_posted (ae_recv a)"
  shows "\<exists>s'. LanCore_NetworkAcceptThread_step ev (Some a) s = Inr (s', True) \<and>
    ns_mSocket (ses s' 0) = Some (ae_sock a) \<and> ns_mSessionID (ses s' 0) \<noteq> ns_mSessionID (ses s 0) \<and>
    ns_IOCountAtomic (ses s' 0) = 1 \<and> 2 \<le> nc_recvs s' 0 + nc_sends s' 0 \<and>
    nc_recvs s' 0 = nc_recvs s 0 + 1 \<and> nc_sends s' = nc_sends s \<and>
    nc_log s' = nc_log s @ [OnConnectionRequested ip (ae_port a), OnConnected (ns_mSessionID (ses s' 0))] \<and>
    nc_mConnectedSessionCount s' = int (length (nc_mSessionPool s')) + 1"
proof -
  have inv: "lan_inv (lan_app (\<lambda>_. 0) I) (\<lambda>_. 0) {} s" by (rule lan_running_inv [OF assms(1,2)])
  then have "live s 0" using assms(3,4) by (auto simp: lan_inv_def core_base_in_def Let_def)
  then have busy: "Suc 0 \<le> nc_recvs s 0 + nc_sends s 0" using lan_invD(2) [OF inv assms(4)] by auto
  let ?s0 = "s\<lparr>nc_mAcceptTotal := nc_mAcceptTotal s + 1, nc_mAcceptCountPerSec := nc_mAcceptCountPerSec s + 1\<rparr>"
  define s1 where "s1 = put_log (OnConnectionRequested ip (ae_port a)) ?s0"
  have "lan_inv (lan_app (\<lambda>_. 0) I) (\<lambda>_. 0) {} ?s0"
    by (rule lan.core_inv_sessions [OF inv]) (use inv in \<open>simp_all add: lan_inv_def core_base_in_def Let_def\<close>)
  then have inv1: "lan_inv (lan_app (\<lambda>_. 0) I) (\<lambda>_. 0) {} s1" unfolding s1_def by (rule lan.core_inv_requested)
  have sel: "stack_list (nc_mUnusedSession s1) = []" "0 < length (nc_mSessionPool s1)" "length (nc_mSessionPool s1) = length (nc_mSessionPool s)"
    "ses s1 = ses s" "nc_recvs s1 = nc_recvs s" "nc_sends s1 = nc_sends s" "nc_log s1 = nc_log s @ [OnConnectionRequested ip (ae_port a)]"
    using assms(3,4) by (simp_all add: s1_def ses_def put_log_def fun_eq_iff)
  obtain s2 where n: "LanManager_NewSessionOrNull (ae_sock a) ip (ae_port a) (ae_garbage a) s1 = Inr (s2, 0)"
    "ns_mSocket (ses s2 0) = Some (ae_sock a)" "ns_IOCountAtomic (ses s2 0) = 0" "ns_mSessionID (ses s2 0) \<noteq> ns_mSessionID (ses s 0)"
    "nc_recvs s2 = nc_recvs s" "nc_sends s2 = nc_sends s" "nc_log s2 = nc_log s @ [OnConnectionRequested ip (ae_port a)]"
    "length (nc_mSessionPool s2) = length (nc_mSessionPool s)" "nc_mConnectedSessionCount s2 = int (length (nc_mSessionPool s)) + 1"
    by (rule LanManager_gives_session_0 [OF inv1 sel(1,2), unfolded sel(3-7)]) (rule that)
  let ?sid = "ns_mSessionID (ses s2 0)"
  let ?s3 = "put_log (OnConnected ?sid) s2"
  let ?s4 = "fst (IncrementIO 0 ?s3)"
  let ?s5 = "?s4\<lparr>nc_recvs := (nc_recvs ?s4)(0 := nc_recvs ?s4 0 + 1)\<rparr>"
  have "LanCore_CreateSessionOrNull ev a ?s0 = Inr (?s3, Some 0)"
    using assms(5-) n(1) by (simp add: LanCore_CreateSessionOrNull_def s1_def Let_def)
  moreover have v: "ses ?s4 0 = (ses s2 0)\<lparr>ns_IOCountAtomic := 1\<rparr>"
    using n(3,8) assms(4) by (simp add: IncrementIO_def Let_def)
  then have "LanCore_RecvPost ev (ae_recv a) 0 ?s3 = Inr ?s5"
    using n(2) assms(10) by (simp add: LanCore_RecvPost_def wsa_on_def Let_def)
  ultimately have "LanCore_NetworkAcceptThread_step ev (Some a) s = Inr (?s5, True)"
    using assms(7) by (simp add: LanCore_NetworkAcceptThread_step_def LanCore_ApplySocketOption_def split: if_splits)
  moreover have "ses ?s5 0 = (ses s2 0)\<lparr>ns_IOCountAtomic := 1\<rparr>" "nc_log ?s5 = nc_log s2 @ [OnConnected ?sid]"
    "nc_recvs ?s5 0 = nc_recvs s 0 + 1" "nc_sends ?s5 = nc_sends s" "length (nc_mSessionPool ?s5) = length (nc_mSessionPool s)"
    "nc_mConnectedSessionCount ?s5 = nc_mConnectedSessionCount s2"
    using v n(5,6,8) by (simp_all add: ses_def IncrementIO_def Let_def)
  ultimately show ?thesis using n(2,4,7,9) busy by (intro exI [of _ ?s5]) simp
qed

theorem lan_accept_takes_session_0_witness:
  "\<exists>(s :: unit lan_core) s'. live s 0 \<and> nc_recvs s 0 = 1 \<and>
    LanCore_NetworkAcceptThread_step (echo_events lan_demo_env) (Some demo_accept) s = Inr (s', True) \<and>
    nc_recvs s' 0 = 2 \<and> ns_IOCountAtomic (ses s' 0) = 1"
proof -
  obtain s :: "unit lan_core" and i where s: "lan_running any_state (echo_events lan_demo_env) s"
    "i < length (nc_mSessionPool s)" "live s i" "nc_recvs s i = 1" "length (nc_mSessionPool s) = unat (1 :: u32)"
    "lan_inv (lan_app (\<lambda>_. 0) any_state) (\<lambda>_. 0) {} s"
    by (rule lan_demo_echo_1)
  have i: "i = 0" "0 < length (nc_mSessionPool s)" using s(2,5) by simp_all
  have "set (stack_list (nc_mUnusedSession s)) = {}" using s(3,5,6) i(1) by (auto simp: lan_inv_def core_base_in_def Let_def)
  then have e: "stack_list (nc_mUnusedSession s) = []" by simp
  have a: "LanCore_ApplySocketOption (ae_opts demo_accept) (nc_option s) = None" "ae_addr demo_accept = Some ''10.0.0.1''"
    "ae_port_created demo_accept" "wsa_posted (ae_recv demo_accept)"
    by (simp_all add: demo_accept_def LanCore_ApplySocketOption_def wsa_posted_def WSA_IO_PENDING_def)
  from lan_accept_takes_session_0 [OF lan_demo_ok(2) s(1) e i(2) lan_demo_calls(3,4) a] show ?thesis
    using s(3,4) i(1) by auto
qed

text \<open>
  C18. The option may allow bodies that are longer than the buffer of a packet; the default is 2048, the buffer takes 2000. When a frame with
  such a body arrives in one receive (its header and body fill the 4086 bytes of the queue at most), the body is written past the end of
  the buffer, before any handler is called and whatever the handler is.
\<close>

theorem lan_overlong_body:
  assumes "lan_mem_ok mem" "lan_inv K (\<lambda>_. 0) {} s" "lan_enabled (LanRecvDone i (lan_frame body) reply) s"
    and "rb_contents (ns_mRecvQueue (ses s i)) = []" "2000 < length body" "length body \<le> unat (no_MaxPacketBodyLength (nc_option s))"
    and "length body < 65536"
  shows "lan_step ev t mem (LanRecvDone i (lan_frame body) reply) s = Inl MemFault"
  by (rule lan_overlong [OF assms])

theorem lan_overlong_body_witness:
  "\<exists>(s :: unit lan_core) i. nc_option s = default_option \<and>
    lan_step (echo_events lan_demo_env) 0 lan_demo_mem (LanRecvDone i (lan_frame (replicate 2048 0)) WSA_Done) s = Inl MemFault"
proof -
  obtain s :: "unit lan_core" and i where s: "lan_inv (lan_app (\<lambda>_. 0) any_state) (\<lambda>_. 0) {} s" "i < length (nc_mSessionPool s)"
    "nc_recvs s i = 1" "rb_contents (ns_mRecvQueue (ses s i)) = []" "rb_mUsedSize (ns_mRecvQueue (ses s i)) = 0"
    "rb_mMaxCapacity (ns_mRecvQueue (ses s i)) = 4086" "nc_option s = lan_demo_option 2048 150"
    using lan_demo_connected [OF lan_demo_sizes(1,2) lan_demo_ok(2) lan_demo_calls(3,4), of 2048] by auto
  have o: "nc_option s = default_option" using s(7) by (simp add: lan_demo_option_def default_option_def)
  have en: "lan_enabled (LanRecvDone i (lan_frame (replicate 2048 0)) WSA_Done) s" using s by (simp add: lan_frame_def)
  have b: "2000 < length (replicate 2048 (0 :: byte))" "length (replicate 2048 (0 :: byte)) < 65536"
    "length (replicate 2048 (0 :: byte)) \<le> unat (no_MaxPacketBodyLength (nc_option s))"
    unfolding o by (simp_all add: default_option_def)
  from lan_overlong_body [OF lan_demo_ok(1) s(1) en s(4) b(1,3,2), of "echo_events lan_demo_env" 0] o show ?thesis by blast
qed

subsection \<open>The echo server\<close>

text \<open>
  C22. The callbacks of the echo server keep the contract that \<^verbatim>\<open>LanCore\<close> needs, with every invariant of an application's state: no
  reference to a packet is left over or given back twice, no session is touched that it may not touch, whatever the system answers.
\<close>

theorem echo_keeps_contract:
  assumes "\<And>n. lan_mem_ok (ee_mem (env n))"
  shows "lan_app_ok I (echo_events env)"
  by (rule echo_contract [OF assms])

theorem echo_keeps_contract_witness:
  "lan_app_ok (\<lambda>n (w :: nat). w = n) (echo_events lan_demo_env)"
  by (rule echo_keeps_contract) (simp add: lan_demo_env_def lan_demo_mem_def)

text \<open>
  C17. The echo server, with any option, \<^verbatim>\<open>UINT16_MAX\<close> of its \<^verbatim>\<open>Main.cpp\<close> for one, after any history as above. A frame with a body of at
  least eight bytes, which the option allows and the buffer of a packet can take, arrives in one receive on a connection that is open and has
  nothing to send and nothing received, and the system takes the \<^verbatim>\<open>WSASend\<close> and the next \<^verbatim>\<open>WSARecv\<close>: it is answered by a frame of its first
  eight bytes. The send is under way, the session holds the only reference to the packet, and it waits for the next bytes.
\<close>

theorem lan_echo_answers:
  assumes "\<And>n. lan_mem_ok (ee_mem (env n))" "\<And>n. wsa_posted (ee_reply (env n))" "lan_mem_ok mem" "wsa_posted reply"
    and "lan_running any_state (echo_events env) s" "lan_enabled (LanRecvDone i (lan_frame body) reply) s"
    and "ns_mIsCloseSocket (ses s i) = 0" "rb_contents (ns_mRecvQueue (ses s i)) = []"
    and "ns_IsSendingAtomic (ses s i) = 0" "queue_list (ns_mSendQueue (ses s i)) = []"
    and "8 \<le> length body" "length body \<le> unat (no_MaxPacketBodyLength (nc_option s))" "length body \<le> 2000"
  shows "\<exists>s' b. lan_step (echo_events env) t mem (LanRecvDone i (lan_frame body) reply) s = Inr s' \<and> \<not> IsReleased (ses s' i) \<and>
    nc_recvs s' i = 1 \<and> nc_sends s' i = 1 \<and> sending (ses s' i) = [b] \<and> pp_refs (nc_send s') b = 1 \<and>
    pk_wire (the (pp_objs (nc_send s') b)) = lan_frame (take 8 body) \<and> rb_contents (ns_mRecvQueue (ses s' i)) = [] \<and>
    nc_log s' = nc_log s @ [OnReceived (ns_mSessionID (ses s i)) (take 1998 body)]"
proof -
  have inv: "lan_inv (lan_app (\<lambda>_. 0) any_state) (\<lambda>_. 0) {} s" by (rule lan_running_inv [OF echo_contract [OF assms(1)] assms(5)])
  obtain s' b where "lan_step (echo_events env) t mem (LanRecvDone i (lan_frame body) reply) s = Inr s'" "live s' i"
    "nc_recvs s' i = 1" "nc_sends s' i = 1" "sending (ses s' i) = [b]" "pp_refs (nc_send s') b = 1"
    "pk_wire (the (pp_objs (nc_send s') b)) = lan_frame (take 8 body)" "rb_contents (ns_mRecvQueue (ses s' i)) = []"
    "nc_log s' = nc_log s @ [OnReceived (ns_mSessionID (ses s i)) (take 1998 body)]"
    using lan_echo_round [where env = env and t = t, OF assms(3,1,2) inv assms(6,4,7-13)] by (elim exE conjE) (rule that)
  then show ?thesis by (auto simp: live_def IsReleased_def)
qed

theorem lan_echo_answers_witness:
  "\<exists>(s :: unit lan_core) i s' b. no_MaxPacketBodyLength (nc_option s) = 65535 \<and>
    lan_step (echo_events lan_demo_env) 0 lan_demo_mem (LanRecvDone i (lan_frame [1, 2, 3, 4, 5, 6, 7, 8, 9]) WSA_Done) s = Inr s' \<and>
    sending (ses s' i) = [b] \<and> pk_wire (the (pp_objs (nc_send s') b)) = [8, 0, 1, 2, 3, 4, 5, 6, 7, 8]"
proof -
  let ?body = "[1, 2, 3, 4, 5, 6, 7, 8, 9] :: byte list"
  obtain s :: "unit lan_core" and i where s: "lan_running any_state (echo_events lan_demo_env) s" "i < length (nc_mSessionPool s)"
    "nc_recvs s i = 1" "ns_mIsCloseSocket (ses s i) = 0" "ns_IsSendingAtomic (ses s i) = 0" "queue_list (ns_mSendQueue (ses s i)) = []"
    "rb_contents (ns_mRecvQueue (ses s i)) = []" "rb_mUsedSize (ns_mRecvQueue (ses s i)) = 0" "rb_mMaxCapacity (ns_mRecvQueue (ses s i)) = 4086"
    "nc_option s = lan_demo_option 65535 150"
    by (rule lan_demo_echo)
  have o: "no_MaxPacketBodyLength (nc_option s) = 65535" unfolding s(10) by (simp add: lan_demo_option_def)
  have env: "lan_mem_ok (ee_mem (lan_demo_env n))" "wsa_posted (ee_reply (lan_demo_env n))" for n
    by (simp_all add: lan_demo_env_def lan_demo_mem_def wsa_posted_def)
  have w: "wsa_posted WSA_Done" by (simp add: wsa_posted_def)
  have en: "lan_enabled (LanRecvDone i (lan_frame ?body) WSA_Done) s" using s(2,3,8,9) by (simp add: lan_frame_def)
  have b: "8 \<le> length ?body" "length ?body \<le> unat (no_MaxPacketBodyLength (nc_option s))" "length ?body \<le> 2000" unfolding o by simp_all
  have f: "lan_frame (take 8 ?body) = [8, 0, 1, 2, 3, 4, 5, 6, 7, 8]" by (simp add: lan_frame_def numeral_2_eq_2)
  from lan_echo_answers [where env = lan_demo_env, OF env lan_demo_ok(1) w s(1) en s(4,7,5,6) b, of 0] o show ?thesis unfolding f by blast
qed

text \<open>
  Any client can stop the echo server: a body of fewer than eight bytes makes the read of the callback throw, and no function
  between it and the start of the thread catches the exception.
\<close>

lemma lan_echo_short_body:
  assumes "\<And>n. lan_mem_ok (ee_mem (env n))" "lan_mem_ok mem" "lan_running any_state (echo_events env) s"
    and "lan_enabled (LanRecvDone i (lan_frame body) reply) s" "rb_contents (ns_mRecvQueue (ses s i)) = []"
    and "length body < 8" "length body \<le> unat (no_MaxPacketBodyLength (nc_option s))"
  shows "lan_step (echo_events env) t mem (LanRecvDone i (lan_frame body) reply) s = Inl ReaderException"
proof -
  have "lan_inv (lan_app (\<lambda>_. 0) any_state) (\<lambda>_. 0) {} s" using lan_running_inv [OF echo_contract [OF assms(1)] assms(3)] by simp
  from lan_echo_short [OF assms(2) this assms(4-7)] show ?thesis .
qed

lemma lan_echo_short_body_example:
  "\<exists>(s :: unit lan_core) i. lan_running any_state (echo_events lan_demo_env) s \<and>
    lan_step (echo_events lan_demo_env) 0 lan_demo_mem (LanRecvDone i (lan_frame [1, 2, 3]) WSA_Done) s = Inl ReaderException"
proof -
  let ?body = "[1, 2, 3] :: byte list"
  obtain s :: "unit lan_core" and i where s: "lan_running any_state (echo_events lan_demo_env) s" "i < length (nc_mSessionPool s)"
    "nc_recvs s i = 1" "rb_contents (ns_mRecvQueue (ses s i)) = []" "rb_mUsedSize (ns_mRecvQueue (ses s i)) = 0"
    "rb_mMaxCapacity (ns_mRecvQueue (ses s i)) = 4086" "nc_option s = lan_demo_option 65535 150"
    by (rule lan_demo_echo)
  have env: "lan_mem_ok (ee_mem (lan_demo_env n))" for n by (simp add: lan_demo_env_def lan_demo_mem_def)
  have en: "lan_enabled (LanRecvDone i (lan_frame ?body) WSA_Done) s" using s(2,3,5,6) by (simp add: lan_frame_def)
  have b: "length ?body < 8" "length ?body \<le> unat (no_MaxPacketBodyLength (nc_option s))" unfolding s(7) by (simp_all add: lan_demo_option_def)
  from lan_echo_short_body [where env = lan_demo_env, OF env lan_demo_ok(1) s(1) en s(4) b, of 0] s(1) show ?thesis by blast
qed

subsection \<open>Profiling\<close>

lemma option_threads: "ValidateOption option \<Longrightarrow> unat (so_NetworkIOThreadCount option) \<le> MAX_SUPPORT_THREAD"
  by (simp add: ValidateOption_def MAX_SUPPORT_THREAD_def not_less word_le_nat_alt)

text \<open>
  C23. The calls of the profiler in \<^verbatim>\<open>LanCore\<close>: the brackets that \<^verbatim>\<open>SendPacket\<close> puts around \<^verbatim>\<open>SendPost\<close> and \<^verbatim>\<open>NetworkRecvCompleted\<close> around
  \<^verbatim>\<open>OnReceived\<close>. Threads execute these functions any number of times, with packets that are queued or not and handlers that send any
  number of packets; their calls are interleaved at will, and every thread may be anywhere in its work. As long as the threads are no more than
  the I/O threads of an option that passes the check of \<^verbatim>\<open>Start\<close>, no call fails, and the dump that follows counts for every thread on its own how
  often it has ended each bracket.
\<close>

theorem lan_profiling_safe:
  assumes "lan_interleaving works cs" "ValidateOption option" "card (call_thread ` set cs) \<le> unat (so_NetworkIOThreadCount option)"
  shows "\<exists>p rows. prof_run cs (Profiler_Create f) = (Inr (), p) \<and> Profiler_Dump p = Inr rows \<and>
    (\<forall>t tag b n. (\<exists>row \<in> set rows. row_of t tag b n row) \<longrightarrow> n = ends t tag cs) \<and>
    (\<forall>t tag. 0 < ends t tag cs \<longrightarrow> (\<exists>b. \<exists>row \<in> set rows. row_of t tag b (ends t tag cs) row))"
  by (rule lan_calls_safe [OF lan_interleaving_calls [OF assms(1)] order_trans [OF assms(3) option_threads [OF assms(2)]]])

theorem lan_profiling_safe_witness:
  "\<exists>p rows. prof_run [ProfBegin 3 tag_recv 1, ProfBegin 3 tag_send 2, ProfBegin 4 tag_send 3, ProfEnd 3 tag_send 4, ProfEnd 3 tag_recv 5]
      (Profiler_Create 10) = (Inr (), p) \<and> Profiler_Dump p = Inr rows \<and> (\<exists>b. \<exists>row \<in> set rows. row_of 3 tag_recv b 1 row)"
proof -
  let ?cs = "[ProfBegin 3 tag_recv 1, ProfBegin 3 tag_send 2, ProfBegin 4 tag_send 3, ProfEnd 3 tag_send 4, ProfEnd 3 tag_recv 5]"
  let ?works = "(\<lambda>_. [])(3 := [Receives [\<lparr>rp_begin = 1, rp_sends = [\<lparr>sc_isEnqueue = True, sc_begin = 2, sc_end = 4\<rparr>], rp_end = 5\<rparr>]],
    4 := [Sends \<lparr>sc_isEnqueue = True, sc_begin = 3, sc_end = 6\<rparr>])"
  have cs: "lan_interleaving ?works ?cs" "card (call_thread ` set ?cs) \<le> unat (so_NetworkIOThreadCount default_option)" "ends 3 tag_recv ?cs = 1"
    by (simp_all add: lan_interleaving_def NetworkRecvCompleted_profile_def SendPacket_profile_def default_option_def ends_def card_insert_if)
  obtain p rows where p: "prof_run ?cs (Profiler_Create 10) = (Inr (), p)" "Profiler_Dump p = Inr rows"
    and n: "\<And>t tag. 0 < ends t tag ?cs \<Longrightarrow> \<exists>b. \<exists>row \<in> set rows. row_of t tag b (ends t tag ?cs) row"
    using lan_profiling_safe [OF cs(1) demo_option_ok(1) cs(2), of 10] by blast
  have "0 < ends 3 tag_recv ?cs" unfolding cs(3) by simp
  from n [OF this] p show ?thesis unfolding cs(3) by blast
qed

end
