(* ===== verification/Shutdown.thy ===== *)
theory Shutdown
  imports Net_Core_Inv Lan_Properties
begin

text \<open>
  The threads of a server and \<^verbatim>\<open>Stop\<close> (\<^verbatim>\<open>NetCore.cpp\<close>, \<^verbatim>\<open>LanCore.cpp\<close>), which joins them one after the other: the monitor thread ends
  when it sees the event \<^verbatim>\<open>quitMre\<close>, the accept thread when the listening socket is closed under its \<^verbatim>\<open>accept\<close>, the I/O threads when the
  completion port is closed under their \<^verbatim>\<open>GetQueuedCompletionStatus\<close>. A thread that waits when the port is closed finds
  \<^verbatim>\<open>ERROR_ABANDONED_WAIT_0\<close>; one that was in a handler and asks the closed port afterwards finds \<^verbatim>\<open>ERROR_INVALID_HANDLE\<close>. What the threads do
  is a parameter, instantiated with both cores at the end. A handler takes effect when its completion is taken.
  \<^verbatim>\<open>PacketPool::Clear\<close> does nothing, as \<^verbatim>\<open>ObjectPoolTLS::Clear\<close> is empty.
\<close>

datatype io_thread = Waiting | Abandoned | Handling | Ended

datatype stop_pc = Serving | JoiningMonitor | JoiningAccept | JoiningIO nat | Stopped

record threads =
  th_mIsEnded :: bool
  th_quitMre :: bool
  th_mServerSock :: bool
  th_mIOHandle :: bool
  th_monitor :: bool
  th_accept :: bool
  th_io :: "io_thread list"
  th_main :: stop_pc

definition threads_started :: "nat \<Rightarrow> threads" where
  "threads_started n = \<lparr>th_mIsEnded = False, th_quitMre = False, th_mServerSock = True, th_mIOHandle = True, th_monitor = True,
     th_accept = True, th_io = replicate n Waiting, th_main = Serving\<rparr>"

text \<open>What the threads and the main thread execute on the state of the server.\<close>

record ('s, 'op) thread_code =
  tc_monitor :: "'s \<Rightarrow> 's"
  tc_accept :: "accept_env option \<Rightarrow> 's \<Rightarrow> ('s \<times> bool) res"
  tc_wait :: "completion \<Rightarrow> 's \<Rightarrow> ('s \<times> bool) res"
  tc_enabled :: "'op \<Rightarrow> 's \<Rightarrow> bool"
  tc_event :: "'op \<Rightarrow> 's \<Rightarrow> 's res"
  tc_OnUpdate :: "int \<Rightarrow> 's \<Rightarrow> 's res"
  tc_OnQuit :: "'s \<Rightarrow> 's res"

definition wait_failed :: "int \<Rightarrow> completion" where
  "wait_failed err = \<lparr>cp_isSuccess = False, cp_transferred = 0, cp_session = None, cp_overlapped = None, cp_lastError = err,
     cp_reply = WSA_Done\<rparr>"

definition set_io :: "nat \<Rightarrow> io_thread \<Rightarrow> threads \<Rightarrow> threads" where
  "set_io k x th = th\<lparr>th_io := (th_io th)[k := x]\<rparr>"

subsection \<open>Stop\<close>

definition stop_called :: "threads \<Rightarrow> threads" where
  "stop_called th = th\<lparr>th_mIsEnded := True, th_quitMre := True, th_main := JoiningMonitor\<rparr>"

definition close_socket :: "threads \<Rightarrow> threads" where
  "close_socket th = th\<lparr>th_mServerSock := False, th_main := JoiningAccept\<rparr>"

definition close_port :: "threads \<Rightarrow> threads" where
  "close_port th = th\<lparr>th_mIOHandle := False, th_io := map (\<lambda>x. if x = Waiting then Abandoned else x) (th_io th), th_main := JoiningIO 0\<rparr>"

text \<open>The next statement of \<^verbatim>\<open>Stop\<close> after a join, \<open>None\<close> while the thread to be joined runs.\<close>

definition stop_next :: "('s, 'op) thread_code \<Rightarrow> threads \<times> 's \<Rightarrow> (threads \<times> 's) res option" where
  "stop_next C x =
     (case x of (th, s) \<Rightarrow>
       (case th_main th of
          Serving \<Rightarrow> None
        | JoiningMonitor \<Rightarrow> if th_monitor th then None else Some (Inr (close_socket th, s))
        | JoiningAccept \<Rightarrow> if th_accept th then None else Some (Inr (close_port th, s))
        | JoiningIO k \<Rightarrow>
            if k < length (th_io th) then if th_io th ! k = Ended then Some (Inr (th\<lparr>th_main := JoiningIO (k + 1)\<rparr>, s)) else None
            else Some (rbind (tc_OnQuit C s) (\<lambda>s. Inr (th\<lparr>th_main := Stopped\<rparr>, s)))
        | Stopped \<Rightarrow> None))"

subsection \<open>Steps\<close>

text \<open>
  \<open>Fetch k op\<close>: I/O thread \<open>k\<close> takes a completion and handles it; \<open>Return k\<close>: it is back at the port; \<open>Fail k\<close>: its wait fails. A step that
  cannot happen is \<open>None\<close>.
\<close>

datatype 'op thread_event =
    CallTick int | CallStop | StopNext | MonitorRound | AcceptRound accept_env | Fetch nat 'op | Return nat | Fail nat

fun th_step :: "('s, 'op) thread_code \<Rightarrow> 'op thread_event \<Rightarrow> threads \<times> 's \<Rightarrow> (threads \<times> 's) res option" where
  "th_step C (CallTick d) (th, s) =
     (if th_main th = Serving then Some (rbind (tc_OnUpdate C d s) (\<lambda>s. Inr (th, s))) else None)"
| "th_step C CallStop (th, s) = (if th_main th = Serving then Some (Inr (stop_called th, s)) else None)"
| "th_step C StopNext (th, s) = stop_next C (th, s)"
| "th_step C MonitorRound (th, s) =
     (if \<not> th_monitor th then None
      else if th_quitMre th then Some (Inr (th\<lparr>th_monitor := False\<rparr>, s))
      else Some (Inr (th, tc_monitor C s)))"
| "th_step C (AcceptRound a) (th, s) =
     (if \<not> th_accept th then None
      else Some (rbind (tc_accept C (if th_mServerSock th then Some a else None) s) (\<lambda>(s, isContinue).
             Inr (th\<lparr>th_accept := isContinue\<rparr>, s))))"
| "th_step C (Fetch k op) (th, s) =
     (if k < length (th_io th) \<and> th_io th ! k = Waiting \<and> th_mIOHandle th \<and> tc_enabled C op s
      then Some (rbind (tc_event C op s) (\<lambda>s. Inr (set_io k Handling th, s))) else None)"
| "th_step C (Return k) (th, s) =
     (if k < length (th_io th) \<and> th_io th ! k = Handling then Some (Inr (set_io k Waiting th, s)) else None)"
| "th_step C (Fail k) (th, s) =
     (if k < length (th_io th) \<and> th_io th ! k \<in> {Waiting, Abandoned} \<and> \<not> th_mIOHandle th
      then Some (rbind (tc_wait C (wait_failed (if th_io th ! k = Abandoned then ERROR_ABANDONED_WAIT_0 else ERROR_INVALID_HANDLE)) s)
        (\<lambda>(s, isContinue). Inr (set_io k (if isContinue then Waiting else Ended) th, s)))
      else None)"

fun th_run :: "('s, 'op) thread_code \<Rightarrow> 'op thread_event list \<Rightarrow> threads \<times> 's \<Rightarrow> (threads \<times> 's) res option" where
  "th_run C [] x = Some (Inr x)"
| "th_run C (e # es) x =
     (case th_step C e x of None \<Rightarrow> None | Some (Inl f) \<Rightarrow> Some (Inl f) | Some (Inr y) \<Rightarrow> th_run C es y)"

lemma th_run_Cons: "th_run C (e # es) x = Some (Inr z) \<longleftrightarrow> (\<exists>y. th_step C e x = Some (Inr y) \<and> th_run C es y = Some (Inr z))"
  by (auto split: option.split sum.split)

lemma th_run_append: "th_run C es x = Some (Inr y) \<Longrightarrow> th_run C (es @ es') x = th_run C es' y"
  by (induction es arbitrary: x) (auto split: option.splits sum.splits)

subsection \<open>How far Stop has got\<close>

definition th_inv :: "nat \<Rightarrow> threads \<Rightarrow> bool" where
  "th_inv n th \<longleftrightarrow> length (th_io th) = n \<and>
     (case th_main th of
        Serving \<Rightarrow> True
      | JoiningMonitor \<Rightarrow> th_quitMre th
      | JoiningAccept \<Rightarrow> \<not> th_monitor th \<and> \<not> th_mServerSock th
      | JoiningIO k \<Rightarrow> \<not> th_monitor th \<and> \<not> th_accept th \<and> \<not> th_mIOHandle th \<and> k \<le> n \<and> (\<forall>j<k. th_io th ! j = Ended)
      | Stopped \<Rightarrow> \<not> th_monitor th \<and> \<not> th_accept th \<and> \<not> th_mIOHandle th \<and> (\<forall>j<n. th_io th ! j = Ended))"

lemma th_inv_started: "th_inv n (threads_started n)"
  by (simp add: th_inv_def threads_started_def)

lemma th_inv_set_io:
  assumes "th_inv n th" "k < length (th_io th)" "th_io th ! k \<noteq> Ended"
  shows "th_inv n (set_io k x th)"
proof (cases "th_main th")
  case (JoiningIO i)
  then show ?thesis using assms by (auto simp: th_inv_def set_io_def nth_list_update)
qed (use assms in \<open>auto simp: th_inv_def set_io_def\<close>)

lemma th_inv_ended:
  assumes "th_inv n th"
  shows "th_inv n (th\<lparr>th_monitor := False\<rparr>)" "th_accept th \<Longrightarrow> th_inv n (th\<lparr>th_accept := b\<rparr>)"
  using assms by (cases "th_main th"; simp add: th_inv_def)+

lemma th_inv_stop_next:
  assumes "th_inv n th" "stop_next C (th, s) = Some (Inr (th', s'))"
  shows "th_inv n th'"
proof (cases "th_main th")
  case (JoiningIO k)
  show ?thesis
  proof (cases "k < n")
    case True
    then have "th_io th ! k = Ended" "th' = th\<lparr>th_main := JoiningIO (k + 1)\<rparr>"
      using assms JoiningIO by (auto simp: th_inv_def stop_next_def split: if_splits)
    then show ?thesis using assms(1) True JoiningIO by (auto simp: th_inv_def less_Suc_eq)
  next
    case False
    then have "th' = th\<lparr>th_main := Stopped\<rparr>" "k = n"
      using assms JoiningIO by (auto simp: th_inv_def stop_next_def rbind_eq_Inr)
    then show ?thesis using assms(1) JoiningIO by (simp add: th_inv_def)
  qed
qed (use assms in \<open>auto simp: th_inv_def stop_next_def close_socket_def close_port_def split: if_splits\<close>)

lemma th_inv_step:
  assumes "th_inv n th" "th_step C e (th, s) = Some (Inr (th', s'))"
  shows "th_inv n th'"
proof (cases e)
  case (CallTick d)
  then show ?thesis using assms by (simp add: rbind_eq_Inr split: if_splits)
next
  case CallStop
  then show ?thesis using assms by (auto simp: th_inv_def stop_called_def split: if_splits)
next
  case StopNext
  then show ?thesis using assms th_inv_stop_next by simp
next
  case MonitorRound
  then show ?thesis using assms th_inv_ended(1) by (auto split: if_splits)
next
  case (AcceptRound a)
  then have "th_accept th" "\<exists>b. th' = th\<lparr>th_accept := b\<rparr>" using assms(2) by (auto simp: rbind_eq_Inr split: if_splits)
  then show ?thesis using th_inv_ended(2) [OF assms(1)] by blast
next
  case (Fetch k op)
  then have "k < length (th_io th)" "th_io th ! k = Waiting" "th' = set_io k Handling th" using assms(2) by (simp_all add: rbind_eq_Inr split: if_splits)
  then show ?thesis using th_inv_set_io [OF assms(1)] by simp
next
  case (Return k)
  then have "k < length (th_io th)" "th_io th ! k = Handling" "th' = set_io k Waiting th" using assms(2) by (simp_all split: if_splits)
  then show ?thesis using th_inv_set_io [OF assms(1)] by simp
next
  case (Fail k)
  then have "k < length (th_io th)" "th_io th ! k \<noteq> Ended" "\<exists>x. th' = set_io k x th"
    using assms(2) by (auto simp: rbind_eq_Inr split: if_splits)
  then show ?thesis using th_inv_set_io [OF assms(1)] by blast
qed

lemma th_inv_run: "th_run C es (th, s) = Some (Inr (th', s')) \<Longrightarrow> th_inv n th \<Longrightarrow> th_inv n th'"
proof (induction es arbitrary: th s)
  case (Cons e es)
  obtain y where y: "th_step C e (th, s) = Some (Inr y)" "th_run C es y = Some (Inr (th', s'))"
    using Cons.prems(1) [unfolded th_run_Cons] by blast
  obtain th1 s1 where eq: "y = (th1, s1)" by (cases y)
  show ?case by (rule Cons.IH [OF y(2) [unfolded eq] th_inv_step [OF Cons.prems(2) y(1) [unfolded eq]]])
qed simp


subsection \<open>What Stop relies on\<close>

text \<open>The threads leave their loops when the call they wait in fails because its handle was closed.\<close>

locale stopping =
  fixes C :: "('s, 'op) thread_code"
  assumes accept_closed: "tc_accept C None s = Inr (s, False)"
    and wait_abandoned: "tc_wait C (wait_failed ERROR_ABANDONED_WAIT_0) s = Inr (s, False)"

text \<open>An I/O thread that comes back from a handler to a closed port leaves its loop, too.\<close>

locale robust_stopping = stopping C for C :: "('s, 'op) thread_code" +
  assumes wait_invalid: "tc_wait C (wait_failed ERROR_INVALID_HANDLE) s = Inr (s, False)"

text \<open>What is left to do: the steps of the threads and of \<^verbatim>\<open>Stop\<close>.\<close>

fun io_left :: "io_thread \<Rightarrow> nat" where
  "io_left Ended = 0"
| "io_left Handling = 2"
| "io_left _ = 1"

definition stop_left :: "threads \<Rightarrow> nat" where
  "stop_left th = of_bool (th_monitor th) + of_bool (th_accept th) + sum_list (map io_left (th_io th)) +
     (case th_main th of
        Serving \<Rightarrow> length (th_io th) + 4
      | JoiningMonitor \<Rightarrow> length (th_io th) + 3
      | JoiningAccept \<Rightarrow> length (th_io th) + 2
      | JoiningIO k \<Rightarrow> length (th_io th) - k + 1
      | Stopped \<Rightarrow> 0)"

lemma io_left_sum: "sum_list (map io_left xs) \<le> 2 * length xs"
proof (induction xs)
  case (Cons x xs)
  then show ?case by (cases x) simp_all
qed simp

lemma stop_left_le: "th_inv n th \<Longrightarrow> stop_left th \<le> 3 * n + 6"
  using io_left_sum [of "th_io th"] by (auto simp: stop_left_def th_inv_def split: stop_pc.splits)

lemma sum_list_upd_less:
  fixes f :: "'a \<Rightarrow> nat"
  shows "k < length xs \<Longrightarrow> f v < f (xs ! k) \<Longrightarrow> sum_list (map f (xs[k := v])) < sum_list (map f xs)"
  by (induction xs arbitrary: k) (auto split: nat.splits)

lemma set_io_left: "k < length (th_io th) \<Longrightarrow> io_left x < io_left (th_io th ! k) \<Longrightarrow> stop_left (set_io k x th) < stop_left th"
  using sum_list_upd_less [of k "th_io th" io_left x] by (simp add: stop_left_def set_io_def split: stop_pc.split)

text \<open>
  Every step after the call of \<^verbatim>\<open>Stop\<close> brings the end nearer, except that the accept thread may take further connections until its socket
  is closed and the I/O threads further completions until the port is closed. What such a step adds:
\<close>

fun new_work :: "'op thread_event \<Rightarrow> nat" where
  "new_work (Fetch k op) = 2"
| "new_work (AcceptRound a) = 1"
| "new_work _ = 0"

lemma sum_list_upd:
  fixes f :: "'a \<Rightarrow> nat"
  shows "k < length xs \<Longrightarrow> sum_list (map f (xs[k := v])) + f (xs ! k) = sum_list (map f xs) + f v"
  by (induction xs arbitrary: k) (auto split: nat.splits)

lemma stop_left_set_io:
  assumes "k < length (th_io th)" "io_left x \<le> io_left (th_io th ! k) + m"
  shows "stop_left (set_io k x th) \<le> stop_left th + m"
proof -
  have "sum_list (map io_left ((th_io th)[k := x])) + io_left (th_io th ! k) = sum_list (map io_left (th_io th)) + io_left x"
    by (rule sum_list_upd [OF assms(1)])
  then show ?thesis using assms(2) by (simp add: stop_left_def set_io_def split: stop_pc.split)
qed

lemma stop_next_left:
  assumes "th_inv n th" "th_main th \<noteq> Serving" "stop_next C (th, s) = Some (Inr (th', s'))"
  shows "th_main th' \<noteq> Serving \<and> stop_left th' + 1 \<le> stop_left th"
proof (cases "th_main th")
  case JoiningAccept
  have "io_left \<circ> (\<lambda>x. if x = Waiting then Abandoned else x) = io_left" by (auto simp: fun_eq_iff)
  then show ?thesis using assms(3) JoiningAccept by (auto simp: stop_next_def stop_left_def close_port_def split: if_splits)
next
  case (JoiningIO k)
  then show ?thesis
    using assms(1,3) by (cases "k < n") (auto simp: stop_next_def stop_left_def th_inv_def rbind_eq_Inr in_set_conv_nth split: if_splits)
qed (use assms in \<open>auto simp: stop_next_def stop_left_def close_socket_def split: if_splits\<close>)

text \<open>Once the port is closed nothing new is taken.\<close>

lemma closed_step:
  assumes inv: "th_inv n th" and main: "th_main th \<in> insert Stopped (range JoiningIO)" and step: "th_step C e (th, s) = Some (Inr (th', s'))"
  shows "th_main th' \<in> insert Stopped (range JoiningIO) \<and> new_work e = 0"
proof -
  have c: "\<not> th_accept th" "\<not> th_mIOHandle th" "\<not> th_monitor th" using inv main by (auto simp: th_inv_def)
  show ?thesis using c main step
    by (cases e) (auto simp: stop_next_def set_io_def rbind_eq_Inr split: if_splits)
qed

lemma closed_run:
  assumes "th_run C es (th, s) = Some (Inr (th', s'))" "th_inv n th" "th_main th \<in> insert Stopped (range JoiningIO)"
  shows "sum_list (map new_work es) = 0"
  using assms
proof (induction es arbitrary: th s)
  case (Cons e es)
  obtain y where "th_step C e (th, s) = Some (Inr y)" "th_run C es y = Some (Inr (th', s'))"
    using Cons.prems(1) [unfolded th_run_Cons] by blast
  then obtain th1 s1 where y: "th_step C e (th, s) = Some (Inr (th1, s1))" "th_run C es (th1, s1) = Some (Inr (th', s'))"
    by (cases y) simp
  show ?case using closed_step [OF Cons.prems(2,3) y(1)] Cons.IH [OF y(2) th_inv_step [OF Cons.prems(2) y(1)]] by simp
qed simp

definition stop_done :: "threads \<Rightarrow> bool" where
  "stop_done th \<longleftrightarrow> th_main th = Stopped \<and> \<not> th_monitor th \<and> \<not> th_accept th \<and> set (th_io th) \<subseteq> {Ended}"

text \<open>While \<^verbatim>\<open>Stop\<close> is not through, some thread or \<^verbatim>\<open>Stop\<close> itself has a next step that brings the end nearer.\<close>

definition stop_progress :: "('s, 'op) thread_code \<Rightarrow> nat \<Rightarrow> threads \<times> 's \<Rightarrow> bool" where
  "stop_progress C n x \<longleftrightarrow>
     (case x of (th, s) \<Rightarrow>
       (\<exists>e th'. th_step C e (th, s) = Some (Inr (th', s)) \<and> stop_left th' < stop_left th \<and> th_main th' \<notin> {Serving, Stopped}) \<or>
       (\<exists>th'. th_step C StopNext (th, s) = Some (rbind (tc_OnQuit C s) (\<lambda>s. Inr (th', s))) \<and> stop_done th'))"

context stopping
begin

lemma io_progress:
  assumes inv: "th_inv n th" and k: "th_main th = JoiningIO k" "k < n"
    and wait: "th_io th ! k = Waiting \<Longrightarrow> tc_wait C (wait_failed ERROR_INVALID_HANDLE) s = Inr (s, False)"
  shows "stop_progress C n (th, s)"
proof -
  have i: "length (th_io th) = n" "\<not> th_mIOHandle th" using inv k(1) by (simp_all add: th_inv_def)
  have main: "th_main (set_io k x th) = JoiningIO k" for x using k(1) by (simp add: set_io_def)
  show ?thesis
  proof (cases "th_io th ! k")
    case Handling
    then have "th_step C (Return k) (th, s) = Some (Inr (set_io k Waiting th, s))" using i k(2) by simp
    moreover have "stop_left (set_io k Waiting th) < stop_left th" by (rule set_io_left) (use Handling i k(2) in simp_all)
    ultimately show ?thesis using main [of Waiting] unfolding stop_progress_def by fastforce
  next
    case Ended
    let ?th = "th\<lparr>th_main := JoiningIO (k + 1)\<rparr>"
    have "th_step C StopNext (th, s) = Some (Inr (?th, s))" using Ended i k by (simp add: stop_next_def)
    moreover have "stop_left ?th < stop_left th" using i k by (simp add: stop_left_def)
    ultimately show ?thesis unfolding stop_progress_def by fastforce
  next
    case Waiting
    then have "th_step C (Fail k) (th, s) = Some (Inr (set_io k Ended th, s))" using i k(2) wait by simp
    moreover have "stop_left (set_io k Ended th) < stop_left th" by (rule set_io_left) (use Waiting i k(2) in simp_all)
    ultimately show ?thesis using main [of Ended] unfolding stop_progress_def by fastforce
  next
    case Abandoned
    then have "th_step C (Fail k) (th, s) = Some (Inr (set_io k Ended th, s))" using i k(2) wait_abandoned by simp
    moreover have "stop_left (set_io k Ended th) < stop_left th" by (rule set_io_left) (use Abandoned i k(2) in simp_all)
    ultimately show ?thesis using main [of Ended] unfolding stop_progress_def by fastforce
  qed
qed

lemma join_progress:
  assumes inv: "th_inv n th" and main: "th_main th \<in> {JoiningMonitor, JoiningAccept, JoiningIO n}"
  shows "stop_progress C n (th, s)"
proof -
  have len: "length (th_io th) = n" using inv by (simp add: th_inv_def)
  consider (mon) "th_main th = JoiningMonitor" | (acc) "th_main th = JoiningAccept" | (quit) "th_main th = JoiningIO n" using main by blast
  then show ?thesis
  proof cases
    case mon
    show ?thesis
    proof (cases "th_monitor th")
      case True
      let ?th = "th\<lparr>th_monitor := False\<rparr>"
      have "th_step C MonitorRound (th, s) = Some (Inr (?th, s))" using inv mon True by (simp add: th_inv_def)
      moreover have "stop_left ?th < stop_left th" "th_main ?th \<notin> {Serving, Stopped}" using True mon by (simp_all add: stop_left_def)
      ultimately show ?thesis unfolding stop_progress_def by fast
    next
      case False
      have "th_step C StopNext (th, s) = Some (Inr (close_socket th, s))" using mon False by (simp add: stop_next_def)
      moreover have "stop_left (close_socket th) < stop_left th" "th_main (close_socket th) \<notin> {Serving, Stopped}"
        using mon by (simp_all add: stop_left_def close_socket_def)
      ultimately show ?thesis unfolding stop_progress_def by fast
    qed
  next
    case acc
    show ?thesis
    proof (cases "th_accept th")
      case True
      let ?th = "th\<lparr>th_accept := False\<rparr>"
      have "th_step C (AcceptRound a) (th, s) = Some (Inr (?th, s))" for a using inv acc True accept_closed by (simp add: th_inv_def)
      moreover have "stop_left ?th < stop_left th" "th_main ?th \<notin> {Serving, Stopped}" using True acc by (simp_all add: stop_left_def)
      ultimately show ?thesis unfolding stop_progress_def by fast
    next
      case False
      have "io_left \<circ> (\<lambda>x. if x = Waiting then Abandoned else x) = io_left" by (auto simp: fun_eq_iff)
      then have "stop_left (close_port th) < stop_left th" "th_main (close_port th) \<notin> {Serving, Stopped}"
        using acc by (simp_all add: stop_left_def close_port_def)
      moreover have "th_step C StopNext (th, s) = Some (Inr (close_port th, s))" using acc False by (simp add: stop_next_def)
      ultimately show ?thesis unfolding stop_progress_def by fast
    qed
  next
    case quit
    have "th_step C StopNext (th, s) = Some (rbind (tc_OnQuit C s) (\<lambda>s. Inr (th\<lparr>th_main := Stopped\<rparr>, s)))"
      using quit len by (simp add: stop_next_def)
    moreover have "stop_done (th\<lparr>th_main := Stopped\<rparr>)" using inv quit by (auto simp: stop_done_def th_inv_def in_set_conv_nth)
    ultimately show ?thesis unfolding stop_progress_def by blast
  qed
qed

end

context robust_stopping
begin

lemma progress:
  assumes inv: "th_inv n th" and main: "th_main th \<notin> {Serving, Stopped}"
  shows "stop_progress C n (th, s)"
proof (cases "\<exists>k. th_main th = JoiningIO k \<and> k < n")
  case True
  then show ?thesis using io_progress [OF inv] wait_invalid by blast
next
  case False
  then have "th_main th \<in> {JoiningMonitor, JoiningAccept, JoiningIO n}" using inv main by (cases "th_main th") (auto simp: th_inv_def)
  then show ?thesis by (rule join_progress [OF inv])
qed

lemma step_left:
  assumes inv: "th_inv n th" and main: "th_main th \<noteq> Serving" and step: "th_step C e (th, s) = Some (Inr (th', s'))"
  shows "th_main th' \<noteq> Serving \<and> stop_left th' + 1 \<le> stop_left th + new_work e"
proof (cases e)
  case (CallTick d)
  then show ?thesis using main step by simp
next
  case CallStop
  then show ?thesis using main step by simp
next
  case StopNext
  then show ?thesis using stop_next_left [OF inv main] step by simp
next
  case MonitorRound
  then have "th_monitor th" using step by (simp split: if_splits)
  then have "th_main th = JoiningMonitor" "th_quitMre th" using inv main by (cases "th_main th"; simp add: th_inv_def)+
  then show ?thesis using MonitorRound step by (auto simp: stop_left_def)
next
  case (AcceptRound a)
  then have a: "th_accept th" "\<exists>b. th' = th\<lparr>th_accept := b\<rparr>" using step by (auto simp: rbind_eq_Inr split: if_splits)
  then show ?thesis using AcceptRound main by (auto simp: stop_left_def split: stop_pc.split)
next
  case (Fetch k op)
  then have k: "k < length (th_io th)" "th_io th ! k = Waiting" "th' = set_io k Handling th"
    using step by (simp_all add: rbind_eq_Inr split: if_splits)
  then have "stop_left th' \<le> stop_left th + 1" using stop_left_set_io [of k th Handling 1] by simp
  then show ?thesis using k Fetch main by (simp add: set_io_def)
next
  case (Return k)
  then have k: "k < length (th_io th)" "th_io th ! k = Handling" "th' = set_io k Waiting th" using step by (simp_all split: if_splits)
  then show ?thesis using set_io_left [of k th Waiting] Return main by (simp add: set_io_def)
next
  case (Fail k)
  then have k: "k < length (th_io th)" "th_io th ! k \<in> {Waiting, Abandoned}" using step by (simp_all split: if_splits)
  moreover have "th' = set_io k Ended th"
    using Fail step wait_abandoned wait_invalid by (auto split: if_splits)
  ultimately show ?thesis using set_io_left [of k th Ended] main by (auto simp: set_io_def)
qed

lemma run_left:
  assumes "th_run C es (th, s) = Some (Inr (th', s'))" "th_inv n th" "th_main th \<noteq> Serving"
  shows "stop_left th' + length es \<le> stop_left th + sum_list (map new_work es)"
  using assms
proof (induction es arbitrary: th s)
  case (Cons e es)
  obtain y where "th_step C e (th, s) = Some (Inr y)" "th_run C es y = Some (Inr (th', s'))"
    using Cons.prems(1) [unfolded th_run_Cons] by blast
  then obtain th1 s1 where y: "th_step C e (th, s) = Some (Inr (th1, s1))" "th_run C es (th1, s1) = Some (Inr (th', s'))"
    by (cases y) simp
  show ?case using step_left [OF Cons.prems(2,3) y(1)] Cons.IH [OF y(2) th_inv_step [OF Cons.prems(2) y(1)]] by simp
qed simp

lemma finishes:
  assumes "th_inv n th" "th_main th \<notin> {Serving, Stopped}"
  shows "\<exists>es th'. length es \<le> stop_left th + 1 \<and> stop_done th' \<and>
    th_run C es (th, s) = Some (rbind (tc_OnQuit C s) (\<lambda>s. Inr (th', s)))"
  using assms
proof (induction "stop_left th" arbitrary: th rule: less_induct)
  case less
  from progress [OF less.prems, of s] consider
    (step) e th' where "th_step C e (th, s) = Some (Inr (th', s))" "stop_left th' < stop_left th" "th_main th' \<notin> {Serving, Stopped}"
  | (quit) th' where "th_step C StopNext (th, s) = Some (rbind (tc_OnQuit C s) (\<lambda>s. Inr (th', s)))" "stop_done th'"
    unfolding stop_progress_def by blast
  then show ?case
  proof cases
    case step
    obtain es th'' where es: "length es \<le> stop_left th' + 1" "stop_done th''"
      "th_run C es (th', s) = Some (rbind (tc_OnQuit C s) (\<lambda>s. Inr (th'', s)))"
      using less.hyps [OF step(2) th_inv_step [OF less.prems(1) step(1)] step(3)] by blast
    have "th_run C (e # es) (th, s) = Some (rbind (tc_OnQuit C s) (\<lambda>s. Inr (th'', s)))" using step(1) es(3) by simp
    moreover have "length (e # es) \<le> stop_left th + 1" using es(1) step(2) by simp
    ultimately show ?thesis using es(2) by blast
  next
    case quit
    have "th_run C [StopNext] (th, s) = Some (rbind (tc_OnQuit C s) (\<lambda>s. Inr (th', s)))"
      using quit(1) by (cases "tc_OnQuit C s") (simp_all del: th_step.simps)
    then show ?thesis using quit(2) by (intro exI [of _ "[StopNext]"] exI [of _ th']) simp
  qed
qed

lemma stop_finishes:
  assumes "th_run C es (threads_started n, s0) = Some (Inr (th, s))" "th_main th \<notin> {Serving, Stopped}"
  shows "\<exists>es' th'. length es' \<le> 3 * n + 7 \<and> stop_done th' \<and>
    th_run C es' (th, s) = Some (rbind (tc_OnQuit C s) (\<lambda>s. Inr (th', s)))"
proof -
  have inv: "th_inv n th" by (rule th_inv_run [OF assms(1) th_inv_started])
  obtain es' th' where "length es' \<le> stop_left th + 1" "stop_done th'"
    "th_run C es' (th, s) = Some (rbind (tc_OnQuit C s) (\<lambda>s. Inr (th', s)))"
    using finishes [OF inv assms(2)] by blast
  then show ?thesis using stop_left_le [OF inv] by (intro exI [of _ es'] exI [of _ th']) simp
qed

lemma stop_bounded:
  assumes "th_run C es (threads_started n, s0) = Some (Inr (th, s))" "th_main th \<noteq> Serving"
    and "th_run C es' (th, s) = Some (Inr (th', s'))"
  shows "length es' \<le> 3 * n + 6 + sum_list (map new_work es')"
    "th_main th = JoiningIO j \<Longrightarrow> sum_list (map new_work es') = 0"
proof -
  have inv: "th_inv n th" by (rule th_inv_run [OF assms(1) th_inv_started])
  show "length es' \<le> 3 * n + 6 + sum_list (map new_work es')"
    using run_left [OF assms(3) inv assms(2)] stop_left_le [OF inv] by simp
  show "th_main th = JoiningIO j \<Longrightarrow> sum_list (map new_work es') = 0"
    by (rule closed_run [OF assms(3) inv]) simp
qed

end

subsection \<open>Both cores\<close>

text \<open>The completions among the events of a core; the other events come from the application or have threads of their own.\<close>

fun is_completion :: "core_op \<Rightarrow> bool" where
  "is_completion (OpRecvDone i xs reply) = True"
| "is_completion (OpSendDone i n reply) = True"
| "is_completion (OpFailed i ov err) = True"
| "is_completion _ = False"

definition net_code ::
    "'w INetCoreEvent \<Rightarrow> (int \<Rightarrow> 'w core \<Rightarrow> 'w core res) \<Rightarrow> ('w core \<Rightarrow> 'w core res) \<Rightarrow> nat \<Rightarrow> (nat \<Rightarrow> byte list) \<Rightarrow> ('w core, core_op) thread_code" where
  "net_code ev OnUpdate OnQuit t mem =
     \<lparr>tc_monitor = \<lambda>s. fst (NetCore_MonitorRefreshThread_step s), tc_accept = NetworkAcceptThread_step ev,
      tc_wait = NetworkIOThread_step ev t mem, tc_enabled = \<lambda>op s. is_completion op \<and> core_enabled op s, tc_event = core_step ev t mem,
      tc_OnUpdate = OnUpdate, tc_OnQuit = OnQuit\<rparr>"

fun is_lan_completion :: "lan_op \<Rightarrow> bool" where
  "is_lan_completion (LanRecvDone i xs reply) = True"
| "is_lan_completion (LanSendDone i n reply) = True"
| "is_lan_completion (LanFailed i ov err) = True"
| "is_lan_completion _ = False"

definition lan_code ::
    "'w ILanCoreEvent \<Rightarrow> (int \<Rightarrow> 'w lan_core \<Rightarrow> 'w lan_core res) \<Rightarrow> ('w lan_core \<Rightarrow> 'w lan_core res) \<Rightarrow> nat \<Rightarrow> (nat \<Rightarrow> byte list) \<Rightarrow>
     ('w lan_core, lan_op) thread_code" where
  "lan_code ev OnUpdate OnQuit t mem =
     \<lparr>tc_monitor = \<lambda>s. fst (LanCore_MonitorRefreshThread_step s), tc_accept = LanCore_NetworkAcceptThread_step ev,
      tc_wait = LanCore_NetworkIOThread_step ev t mem, tc_enabled = \<lambda>op s. is_lan_completion op \<and> lan_enabled op s, tc_event = lan_step ev t mem,
      tc_OnUpdate = OnUpdate, tc_OnQuit = OnQuit\<rparr>"

interpretation net_stop: robust_stopping "net_code ev OnUpdate OnQuit t mem" for ev OnUpdate OnQuit t mem
  by unfold_locales (simp_all add: net_code_def NetworkAcceptThread_step_def NetworkIOThread_step_def io_failed_def wait_failed_def)

interpretation lan_stop: stopping "lan_code ev OnUpdate OnQuit t mem" for ev OnUpdate OnQuit t mem
  by unfold_locales (simp_all add: lan_code_def LanCore_NetworkAcceptThread_step_def LanCore_NetworkIOThread_step_def wait_failed_def
    LAN_ERROR_ABANDONED_WAIT_0_def ERROR_ABANDONED_WAIT_0_def)

subsection \<open>A LanCore that is stopped under load\<close>

text \<open>
  C21. When an I/O thread of \<^verbatim>\<open>LanCore\<close> is in a handler while \<^verbatim>\<open>Stop\<close> closes the completion port, it finds an invalid handle when it comes
  back, which \<^verbatim>\<open>NetworkIOThread\<close> takes for a fatal error: it calls the crash dump, and \<^verbatim>\<open>Stop\<close> never reaches \<^verbatim>\<open>OnQuit\<close>.
\<close>

theorem lan_stop_crashes:
  assumes "th_run (lan_code ev OnUpdate OnQuit t mem) es (threads_started n, s0) = Some (Inr (th, s))"
    and "th_main th = JoiningIO j" "k < n" "th_io th ! k = Handling"
  shows "th_run (lan_code ev OnUpdate OnQuit t mem) [Return k, Fail k] (th, s) = Some (Inl CrashDumped)"
proof -
  have "th_inv n th" by (rule th_inv_run [OF assms(1) th_inv_started])
  then have "length (th_io th) = n" "\<not> th_mIOHandle th" using assms(2) by (simp_all add: th_inv_def)
  then show ?thesis using assms(3,4)
    by (simp add: set_io_def lan_code_def LanCore_NetworkIOThread_step_def wait_failed_def LAN_ERROR_ABANDONED_WAIT_0_def ERROR_INVALID_HANDLE_def)
qed

theorem lan_stop_crashes_witness:
  "\<exists>(s0 :: unit lan_core) i th s. th_run (lan_code (echo_events lan_demo_env) (\<lambda>_. Inr) Inr 0 lan_demo_mem)
      [Fetch 1 (LanRecvDone i (lan_frame [1, 2, 3, 4, 5, 6, 7, 8, 9]) WSA_Done), CallStop, MonitorRound, StopNext, AcceptRound demo_accept, StopNext]
      (threads_started 2, s0) = Some (Inr (th, s)) \<and>
    th_run (lan_code (echo_events lan_demo_env) (\<lambda>_. Inr) Inr 0 lan_demo_mem) [Return 1, Fail 1] (th, s) = Some (Inl CrashDumped)"
proof -
  let ?body = "[1, 2, 3, 4, 5, 6, 7, 8, 9] :: byte list"
  let ?C = "lan_code (echo_events lan_demo_env) (\<lambda>_. Inr) Inr 0 lan_demo_mem :: (unit lan_core, lan_op) thread_code"
  obtain s0 :: "unit lan_core" and i where s: "lan_inv (lan_app (\<lambda>_. 0) any_state) (\<lambda>_. 0) {} s0" "i < length (nc_mSessionPool s0)"
    "nc_recvs s0 i = 1" "ns_mIsCloseSocket (ses s0 i) = 0" "ns_IsSendingAtomic (ses s0 i) = 0" "queue_list (ns_mSendQueue (ses s0 i)) = []"
    "rb_contents (ns_mRecvQueue (ses s0 i)) = []" "rb_mUsedSize (ns_mRecvQueue (ses s0 i)) = 0" "rb_mMaxCapacity (ns_mRecvQueue (ses s0 i)) = 4086"
    "nc_option s0 = lan_demo_option 65535 150"
    by (rule lan_demo_echo)
  have env: "lan_mem_ok (ee_mem (lan_demo_env n))" "wsa_posted (ee_reply (lan_demo_env n))" for n
    by (simp_all add: lan_demo_env_def lan_demo_mem_def wsa_posted_def)
  have w: "wsa_posted WSA_Done" by (simp add: wsa_posted_def)
  have en: "lan_enabled (LanRecvDone i (lan_frame ?body) WSA_Done) s0" using s(2,3,8,9) by (simp add: lan_frame_def)
  have b: "8 \<le> length ?body" "length ?body \<le> unat (no_MaxPacketBodyLength (nc_option s0))" "length ?body \<le> 2000"
    unfolding s(10) by (simp_all add: lan_demo_option_def)
  obtain s' where s': "lan_step (echo_events lan_demo_env) 0 lan_demo_mem (LanRecvDone i (lan_frame ?body) WSA_Done) s0 = Inr s'"
    using lan_echo_round [where env = lan_demo_env, OF lan_demo_ok(1) env s(1) en w s(4,7,5,6) b, of 0] by blast
  let ?th = "\<lparr>th_mIsEnded = True, th_quitMre = True, th_mServerSock = False, th_mIOHandle = False, th_monitor = False, th_accept = False,
    th_io = [Abandoned, Handling], th_main = JoiningIO 0\<rparr>"
  have run: "th_run ?C [Fetch 1 (LanRecvDone i (lan_frame ?body) WSA_Done), CallStop, MonitorRound, StopNext, AcceptRound demo_accept, StopNext]
      (threads_started 2, s0) = Some (Inr (?th, s'))"
    using s' en lan_stop.accept_closed
    by (simp add: threads_started_def lan_code_def set_io_def stop_called_def stop_next_def close_socket_def close_port_def numeral_2_eq_2
        LanCore_NetworkAcceptThread_step_def)
  have "th_run ?C [Return 1, Fail 1] (?th, s') = Some (Inl CrashDumped)" by (rule lan_stop_crashes [OF run]) simp_all
  with run show ?thesis by blast
qed

end
