(* ===== verification/Logger.thy ===== *)
theory Logger
  imports Prelude
begin

text \<open>
  \<^verbatim>\<open>nf::logging::Logger\<close> (\<^verbatim>\<open>Logger.hpp\<close>, \<^verbatim>\<open>Logger.cpp\<close>): lines of text with a level, a tag, the time and a sequence number, to a file or
  a stream. What a format and its arguments expand to is the argument of the operations; the file system is the map of paths
  to contents. A line ends with \<^verbatim>\<open>\n\<close>, as the code writes it; a file opened in text mode on Windows holds CR LF there.
\<close>

datatype eLogLevel = Trace | Debug | Info | Warn | Error | System

fun eLogLevel_value :: "eLogLevel \<Rightarrow> int" where
  "eLogLevel_value Trace = 0"
| "eLogLevel_value Debug = 1"
| "eLogLevel_value Info = 2"
| "eLogLevel_value Warn = 3"
| "eLogLevel_value Error = 4"
| "eLogLevel_value System = 5"

fun GetLogName :: "eLogLevel \<Rightarrow> string" where
  "GetLogName Trace = ''[Trace ]''"
| "GetLogName Debug = ''[Debug ]''"
| "GetLogName Info = ''[Info  ]''"
| "GetLogName Warn = ''[Warn  ]''"
| "GetLogName Error = ''[Error ]''"
| "GetLogName System = ''[System]''"

text \<open>\<open>lg_mOstream\<close> is what was written to the stream, if it has a buffer; a logger made with a path has none.\<close>

record Logger =
  lg_mSequenceNumber :: nat
  lg_mLogLevel :: eLogLevel
  lg_mFilePath :: string
  lg_mOstream :: "string option"
  lg_files :: "string \<Rightarrow> string"

definition Logger_on_stream :: "eLogLevel \<Rightarrow> (string \<Rightarrow> string) \<Rightarrow> Logger" where
  "Logger_on_stream level files =
     \<lparr>lg_mSequenceNumber = 0, lg_mLogLevel = level, lg_mFilePath = '''', lg_mOstream = Some '''', lg_files = files\<rparr>"

definition Logger_on_path :: "eLogLevel \<Rightarrow> string \<Rightarrow> (string \<Rightarrow> string) \<Rightarrow> Logger" where
  "Logger_on_path level path files =
     \<lparr>lg_mSequenceNumber = 0, lg_mLogLevel = level, lg_mFilePath = path, lg_mOstream = None, lg_files = files\<rparr>"

definition SetFilePath :: "string \<Rightarrow> Logger \<Rightarrow> Logger" where
  "SetFilePath path lg = lg\<lparr>lg_mFilePath := path\<rparr>"

definition SetLogLevel :: "eLogLevel \<Rightarrow> Logger \<Rightarrow> Logger" where
  "SetLogLevel level lg = lg\<lparr>lg_mLogLevel := level\<rparr>"

subsection \<open>Numbers as text\<close>

definition digits :: string where
  "digits = ''0123456789abcdef''"

definition digit :: "nat \<Rightarrow> char" where
  "digit n = digits ! n"

fun dec :: "nat \<Rightarrow> string" where
  "dec n = (if n < 10 then [digit n] else dec (n div 10) @ [digit (n mod 10)])"

declare dec.simps [simp del]

lemma digits_facts: "distinct digits" "length digits = 16"
  by (simp_all add: digits_def)

lemma dec_small: "n < 10 \<Longrightarrow> dec n = [digit n]"
  by (simp add: dec.simps)

lemma dec_large: "10 \<le> n \<Longrightarrow> dec n = dec (n div 10) @ [digit (n mod 10)]"
  by (subst dec.simps) simp

text \<open>\<^verbatim>\<open>std::setw(2)\<close> and \<^verbatim>\<open>std::setfill('0')\<close>, in hexadecimal.\<close>

definition hex2 :: "byte \<Rightarrow> string" where
  "hex2 b = [digit (unat b div 16), digit (unat b mod 16)]"

subsection \<open>The time\<close>

record UtcTime =
  Year :: nat
  Month :: nat
  Day :: nat
  Hour :: nat
  Minute :: nat
  Second :: nat
  Millisecond :: nat

text \<open>The date that \<^verbatim>\<open>gmtime\<close> gives for a day, counted from 1970-01-01: in eras of 400 years that start in March.\<close>

definition gmtime_date :: "nat \<Rightarrow> nat \<times> nat \<times> nat" where
  "gmtime_date days =
     (let z = days + 719468;
          doe = z mod 146097;
          yoe = (doe - doe div 1460 + doe div 36524 - doe div 146096) div 365;
          doy = doe - (365 * yoe + yoe div 4 - yoe div 100);
          mp = (5 * doy + 2) div 153;
          m = (if mp < 10 then mp + 3 else mp - 9)
      in (yoe + z div 146097 * 400 + (if m \<le> 2 then 1 else 0), m, doy - (153 * mp + 2) div 5 + 1))"

text \<open>
  \<^verbatim>\<open>GetUtcTime\<close>: \<open>now\<close> is the time of the system clock, in its ticks of 100 ns since 1970. The last field gets what is left of it,
  in ticks.
\<close>

definition ticks_per_second :: nat where
  "ticks_per_second = 10000000"

definition GetUtcTime :: "nat \<Rightarrow> UtcTime" where
  "GetUtcTime now =
     (let d = now div (86400 * ticks_per_second); tp = now - d * (86400 * ticks_per_second);
          h = tp div (3600 * ticks_per_second); tp = tp - h * (3600 * ticks_per_second);
          m = tp div (60 * ticks_per_second); tp = tp - m * (60 * ticks_per_second);
          s = tp div ticks_per_second; tp = tp - s * ticks_per_second;
          (year, month, day) = gmtime_date d
      in \<lparr>Year = year, Month = month, Day = day, Hour = h, Minute = m, Second = s, Millisecond = tp\<rparr>)"

lemma GetUtcTime_eq:
  "GetUtcTime now =
     (case gmtime_date (now div (86400 * ticks_per_second)) of (year, month, day) \<Rightarrow>
        \<lparr>Year = year, Month = month, Day = day, Hour = now mod (86400 * ticks_per_second) div (3600 * ticks_per_second),
         Minute = now mod (3600 * ticks_per_second) div (60 * ticks_per_second),
         Second = now mod (60 * ticks_per_second) div ticks_per_second, Millisecond = now mod ticks_per_second\<rparr>)"
proof -
  have "now mod (86400 * ticks_per_second) mod (3600 * ticks_per_second) = now mod (3600 * ticks_per_second)"
    "now mod (3600 * ticks_per_second) mod (60 * ticks_per_second) = now mod (60 * ticks_per_second)"
    "now mod (60 * ticks_per_second) mod ticks_per_second = now mod ticks_per_second"
    by (rule mod_mod_cancel, rule dvdI [of _ _ 24], simp)
      (rule mod_mod_cancel, rule dvdI [of _ _ 60], simp, rule mod_mod_cancel, rule dvd_triv_right)
  then show ?thesis by (simp only: GetUtcTime_def Let_def minus_div_mult_eq_mod)
qed

lemma gmtime_epoch: "gmtime_date 0 = (1970, 1, 1)"
  by (simp add: gmtime_date_def cong: let_weak_cong)

subsection \<open>Lines\<close>

text \<open>What a call finds: the clock, the number of its thread, whether the file could be opened.\<close>

record log_env =
  le_now :: nat
  le_thread :: nat
  le_opened :: bool

definition time_text :: "UtcTime \<Rightarrow> string" where
  "time_text u = dec (Year u) @ ''.'' @ dec (Month u) @ ''.'' @ dec (Day u) @ ''|'' @ dec (Hour u) @ dec (Minute u) @ dec (Second u) @ ''|''"

definition BaseInfo :: "log_env \<Rightarrow> string \<Rightarrow> eLogLevel \<Rightarrow> Logger \<Rightarrow> Logger \<times> string" where
  "BaseInfo env tag level lg =
     (let seqNumber = lg_mSequenceNumber lg + 1 in
      (lg\<lparr>lg_mSequenceNumber := seqNumber\<rparr>,
       GetLogName level @ ''|'' @ tag @ ''|'' @ time_text (GetUtcTime (le_now env)) @
         ''<'' @ dec (le_thread env) @ ''>|'' @ dec seqNumber @ ''|''))"

definition ForwardStream :: "log_env \<Rightarrow> string \<Rightarrow> Logger \<Rightarrow> Logger" where
  "ForwardStream env ss lg =
     (if lg_mFilePath lg \<noteq> '''' then
        if le_opened env then
          lg\<lparr>lg_files := (lg_files lg)(lg_mFilePath lg := lg_files lg (lg_mFilePath lg) @ ss @ [CHR 0x0A])\<rparr>
        else lg
      else lg\<lparr>lg_mOstream := map_option (\<lambda>out. out @ ss @ [CHR 0x0A]) (lg_mOstream lg)\<rparr>)"

text \<open>
  \<^verbatim>\<open>Format\<close>: \<open>None\<close> is a null format, otherwise what it expands to. \<^verbatim>\<open>StringCchVPrintf\<close> cuts the text to the buffer and reports that
  with an \<^verbatim>\<open>HRESULT\<close>, never with -1, so the loop runs once.
\<close>

definition Format :: "string option \<Rightarrow> string" where
  "Format fmt = (case fmt of None \<Rightarrow> '''' | Some expanded \<Rightarrow> takeWhile (\<lambda>c. c \<noteq> CHR 0x00) (take 511 expanded))"

definition Log :: "log_env \<Rightarrow> string \<Rightarrow> eLogLevel \<Rightarrow> string option \<Rightarrow> Logger \<Rightarrow> Logger" where
  "Log env tag level fmt lg =
     (if eLogLevel_value level < eLogLevel_value (lg_mLogLevel lg) then lg
      else let (lg, stream) = BaseInfo env tag level lg in ForwardStream env (stream @ Format fmt) lg)"

definition Log_stream :: "log_env \<Rightarrow> string \<Rightarrow> eLogLevel \<Rightarrow> string \<Rightarrow> Logger \<Rightarrow> Logger" where
  "Log_stream env tag level ss lg =
     (if eLogLevel_value level < eLogLevel_value (lg_mLogLevel lg) then lg
      else let (lg, stream) = BaseInfo env tag level lg in ForwardStream env (stream @ ss) lg)"

definition Logger_Trace :: "log_env \<Rightarrow> string \<Rightarrow> string option \<Rightarrow> Logger \<Rightarrow> Logger" where
  "Logger_Trace env tag fmt = Log env tag Trace fmt"

definition Logger_Debug :: "log_env \<Rightarrow> string \<Rightarrow> string option \<Rightarrow> Logger \<Rightarrow> Logger" where
  "Logger_Debug env tag fmt = Log env tag Debug fmt"

definition Logger_Info :: "log_env \<Rightarrow> string \<Rightarrow> string option \<Rightarrow> Logger \<Rightarrow> Logger" where
  "Logger_Info env tag fmt = Log env tag Info fmt"

definition Logger_Warn :: "log_env \<Rightarrow> string \<Rightarrow> string option \<Rightarrow> Logger \<Rightarrow> Logger" where
  "Logger_Warn env tag fmt = Log env tag Warn fmt"

definition Logger_Error :: "log_env \<Rightarrow> string \<Rightarrow> string option \<Rightarrow> Logger \<Rightarrow> Logger" where
  "Logger_Error env tag fmt = Log env tag Error fmt"

definition Logger_System :: "log_env \<Rightarrow> string \<Rightarrow> string option \<Rightarrow> Logger \<Rightarrow> Logger" where
  "Logger_System env tag fmt = Log env tag System fmt"

text \<open>The bytes in rows of eight, each row on a new line.\<close>

fun hex_loop :: "nat \<Rightarrow> byte list \<Rightarrow> string" where
  "hex_loop i [] = ''''"
| "hex_loop i (b # bs) = (if i mod 8 = 0 then [CHR 0x0A] else '''') @ ''0x'' @ hex2 b @ '' '' @ hex_loop (i + 1) bs"

definition LogHex :: "log_env \<Rightarrow> string \<Rightarrow> eLogLevel \<Rightarrow> byte list \<Rightarrow> Logger \<Rightarrow> Logger" where
  "LogHex env tag level bytes lg =
     (let (lg, ss) = BaseInfo env tag level lg in ForwardStream env (ss @ hex_loop 0 bytes) lg)"

definition DebugHex :: "log_env \<Rightarrow> string \<Rightarrow> byte list \<Rightarrow> Logger \<Rightarrow> Logger" where
  "DebugHex env tag bytes = LogHex env tag Debug bytes"

definition InfoHex :: "log_env \<Rightarrow> string \<Rightarrow> byte list \<Rightarrow> Logger \<Rightarrow> Logger" where
  "InfoHex env tag bytes = LogHex env tag Info bytes"

definition WarnHex :: "log_env \<Rightarrow> string \<Rightarrow> byte list \<Rightarrow> Logger \<Rightarrow> Logger" where
  "WarnHex env tag bytes = LogHex env tag Warn bytes"

definition ErrorHex :: "log_env \<Rightarrow> string \<Rightarrow> byte list \<Rightarrow> Logger \<Rightarrow> Logger" where
  "ErrorHex env tag bytes = LogHex env tag Error bytes"

definition SystemHex :: "log_env \<Rightarrow> string \<Rightarrow> byte list \<Rightarrow> Logger \<Rightarrow> Logger" where
  "SystemHex env tag bytes = LogHex env tag System bytes"

subsection \<open>A hexadecimal dump can be read back\<close>

lemma takeWhile_neq_nth: "distinct xs \<Longrightarrow> n < length xs \<Longrightarrow> length (takeWhile (\<lambda>x. x \<noteq> xs ! n) xs) = n"
  by (induction xs arbitrary: n) (auto simp: nth_Cons split: nat.splits)

definition undigit :: "char \<Rightarrow> nat" where
  "undigit c = length (takeWhile (\<lambda>d. d \<noteq> c) digits)"

fun hex_parse :: "string \<Rightarrow> byte list option" where
  "hex_parse [] = Some []"
| "hex_parse (c # cs) =
     (if c = CHR 0x0A then hex_parse cs
      else case cs of
          x # h # l # sp # cs' \<Rightarrow>
            if c = CHR ''0'' \<and> x = CHR ''x'' \<and> sp = CHR '' '' then
              map_option (\<lambda>bs. of_nat (16 * undigit h + undigit l) # bs) (hex_parse cs')
            else None
        | _ \<Rightarrow> None)"

lemma undigit_digit [simp]: "n < 16 \<Longrightarrow> undigit (digit n) = n"
  using takeWhile_neq_nth [of digits n] by (simp add: undigit_def digit_def digits_facts)

lemma hex_parse_loop: "hex_parse (hex_loop i bs) = Some bs"
proof (induction bs arbitrary: i)
  case (Cons b bs)
  have "unat b < 256" using unsigned_less [of b, where ?'a = nat] by simp
  then have "unat b div 16 < 16" "unat b mod 16 < 16" by simp_all
  then have "(of_nat (16 * undigit (digit (unat b div 16)) + undigit (digit (unat b mod 16))) :: byte) = b"
    by (simp only: undigit_digit) simp
  then show ?case using Cons.IH by (simp add: hex2_def)
qed simp

subsection \<open>Runs\<close>

datatype log_call =
    LogText log_env string eLogLevel "string option"
  | LogBytes log_env string eLogLevel "byte list"

fun log_do :: "log_call \<Rightarrow> Logger \<Rightarrow> Logger" where
  "log_do (LogText env tag level fmt) lg = Log env tag level fmt lg"
| "log_do (LogBytes env tag level bytes) lg = LogHex env tag level bytes lg"

fun call_env :: "log_call \<Rightarrow> log_env" where
  "call_env (LogText env tag level fmt) = env"
| "call_env (LogBytes env tag level bytes) = env"

text \<open>Which calls leave a line, and the line with the number \<open>n\<close>.\<close>

fun printed :: "eLogLevel \<Rightarrow> log_call \<Rightarrow> bool" where
  "printed lowest (LogText env tag level fmt) = (eLogLevel_value lowest \<le> eLogLevel_value level)"
| "printed lowest (LogBytes env tag level bytes) = True"

definition line_start :: "log_env \<Rightarrow> string \<Rightarrow> eLogLevel \<Rightarrow> nat \<Rightarrow> string" where
  "line_start env tag level n =
     GetLogName level @ ''|'' @ tag @ ''|'' @ time_text (GetUtcTime (le_now env)) @ ''<'' @ dec (le_thread env) @ ''>|'' @ dec n @ ''|''"

fun line_text :: "nat \<Rightarrow> log_call \<Rightarrow> string" where
  "line_text n (LogText env tag level fmt) = line_start env tag level n @ Format fmt @ [CHR 0x0A]"
| "line_text n (LogBytes env tag level bytes) = line_start env tag level n @ hex_loop 0 bytes @ [CHR 0x0A]"

definition lines_from :: "nat \<Rightarrow> log_call list \<Rightarrow> string" where
  "lines_from n cs = concat (map (\<lambda>(k, c). line_text (n + k) c) (enumerate 0 cs))"

lemma lines_from_simps [simp]: "lines_from n [] = ''''" "lines_from n (c # cs) = line_text n c @ lines_from (Suc n) cs"
proof -
  have "map (\<lambda>(k, c). line_text (n + k) c) (enumerate (Suc 0) cs) = map (\<lambda>(k, c). line_text (Suc n + k) c) (enumerate 0 cs)"
    by (intro nth_equalityI) (simp_all add: nth_enumerate_eq)
  then show "lines_from n (c # cs) = line_text n c @ lines_from (Suc n) cs" by (simp add: lines_from_def)
qed (simp add: lines_from_def)

lemma log_do_path:
  assumes "lg_mFilePath lg = path" "path \<noteq> ''''" "le_opened (call_env c)"
  shows "log_do c lg =
    (if printed (lg_mLogLevel lg) c then
       lg\<lparr>lg_mSequenceNumber := lg_mSequenceNumber lg + 1,
          lg_files := (lg_files lg)(path := lg_files lg path @ line_text (lg_mSequenceNumber lg + 1) c)\<rparr>
     else lg)"
  using assms by (cases c) (auto simp: Log_def LogHex_def BaseInfo_def ForwardStream_def line_start_def Let_def)

lemma log_run_path:
  assumes "lg_mFilePath lg = path" "path \<noteq> ''''" "\<forall>c \<in> set cs. le_opened (call_env c)"
  shows "lg_files (fold log_do cs lg) =
    (lg_files lg)(path := lg_files lg path @ lines_from (lg_mSequenceNumber lg + 1) (filter (printed (lg_mLogLevel lg)) cs))"
  using assms
proof (induction cs arbitrary: lg)
  case (Cons c cs)
  let ?lg = "lg\<lparr>lg_mSequenceNumber := lg_mSequenceNumber lg + 1,
    lg_files := (lg_files lg)(path := lg_files lg path @ line_text (lg_mSequenceNumber lg + 1) c)\<rparr>"
  have "log_do c lg = (if printed (lg_mLogLevel lg) c then ?lg else lg)"
    by (rule log_do_path [OF Cons.prems(1,2)]) (use Cons.prems(3) in simp)
  then show ?case using Cons.IH [of ?lg] Cons.IH [of lg] Cons.prems by auto
qed simp

subsection \<open>Properties\<close>

text \<open>
  C40. After any calls of a logger with a path whose file can be opened, the file has grown by exactly the lines of the messages at
  or above the level and of every hexadecimal dump, whatever its level, in the order of the calls and numbered from 1; a message is cut
  at 511 characters. No other file is touched.
\<close>

theorem log_file_lines:
  assumes "path \<noteq> ''''" "\<forall>c \<in> set cs. le_opened (call_env c)"
  shows "lg_files (fold log_do cs (Logger_on_path level path files)) =
    files(path := files path @ lines_from 1 (filter (printed level) cs))"
  using log_run_path [OF _ assms, of "Logger_on_path level path files"] by (simp add: Logger_on_path_def)

theorem log_file_lines_witness:
  "lg_files (fold log_do [LogText \<lparr>le_now = 0, le_thread = 1, le_opened = True\<rparr> ''t'' Debug (Some ''lost''),
      LogBytes \<lparr>le_now = 0, le_thread = 1, le_opened = True\<rparr> ''t'' Trace [255]]
    (Logger_on_path Info ''log'' (\<lambda>_. ''''))) ''log'' =
   ''[Trace ]|t|1970.1.1|000|<1>|1|'' @ [CHR 0x0A] @ ''0xff '' @ [CHR 0x0A]"
proof -
  let ?e = "\<lparr>le_now = 0, le_thread = 1, le_opened = True\<rparr>"
  have "''log'' \<noteq> ''''" "\<forall>c \<in> set [LogText ?e ''t'' Debug (Some ''lost''), LogBytes ?e ''t'' Trace [255]]. le_opened (call_env c)" by simp_all
  note run = log_file_lines [OF this, of Info "\<lambda>_. ''''"]
  have "time_text (GetUtcTime 0) = ''1970.1.1|000|''"
    by (simp add: time_text_def GetUtcTime_eq ticks_per_second_def gmtime_epoch dec_small dec_large digit_def digits_def)
  then show ?thesis unfolding run by (simp add: line_start_def hex2_def dec_small digit_def digits_def)
qed

text \<open>
  What a hexadecimal dump adds to its line gives the bytes back.
\<close>

lemma hex_dump_round_trip:
  "\<exists>start rest. LogHex env tag level bytes (Logger_on_stream lowest files) =
      Logger_on_stream lowest files\<lparr>lg_mSequenceNumber := 1, lg_mOstream := Some (start @ rest @ [CHR 0x0A])\<rparr> \<and>
    start = line_start env tag level 1 \<and> hex_parse rest = Some bytes"
  by (intro exI [of _ "line_start env tag level 1"] exI [of _ "hex_loop 0 bytes"])
    (simp add: hex_parse_loop LogHex_def BaseInfo_def ForwardStream_def Logger_on_stream_def line_start_def)

text \<open>Two different times of a day are printed as the same text: hours, minutes and seconds are not padded.\<close>

lemma time_text_ambiguous:
  "GetUtcTime (3671 * ticks_per_second) \<noteq> GetUtcTime (39661 * ticks_per_second) \<and>
   time_text (GetUtcTime (3671 * ticks_per_second)) = time_text (GetUtcTime (39661 * ticks_per_second))"
  by (simp add: time_text_def GetUtcTime_eq ticks_per_second_def gmtime_epoch dec_small dec_large digit_def digits_def)

end
