(* ===== verification/Spec2Isabelle.thy ===== *)
theory Spec2Isabelle
  imports Net_Core_Inv Pool_Concurrent Sector Chat_Properties Shutdown Logger
begin

text \<open>
  This library models and verifies the core of \<^verbatim>\<open>nf_network\<close>, a C++ library for TCP servers on Windows I/O completion ports
  (\<^verbatim>\<open>src/nf_network/src/nf\<close>), of the chat server that is built on it (\<^verbatim>\<open>src/nf_network/playground_net/chat\<close>), and of the echo server in
  \<^verbatim>\<open>src/nf_network/playground_lan/Main.cpp\<close>.

  The program. A server is a \<^verbatim>\<open>NetCore\<close>: an accept thread makes sessions out of connections, a few I/O threads take completed sends
  and receives from a completion port, and an event handler, supplied by the application, is called back. Received bytes go into the ring
  buffer of the session and are cut into packets; packets are encoded by a stream cipher with a checksum, are reference counted, and
  live in thread-local object pools on top of a lock-free pool. The unused sessions are on a lock-free stack, the packets to send in a
  lock-free queue per session. The chat server puts what it receives as jobs into a lock-free queue, and one thread
  handles the jobs: logins, moves between sectors, messages to the users near by, disconnections. \<^verbatim>\<open>LanCore\<close> is the same server for trusted
  networks: packets have only a length in front and are not encoded, and sessions are handled with less care. The echo server uses it.

  The theories, bottom up, and the code they model (paths below \<^verbatim>\<open>src/nf_network/src/nf\<close> unless they begin with \<^verbatim>\<open>chat\<close>):

  \<^item> \<open>Prelude\<close>: integer types, the faults that stand for undefined behaviour, exceptions and deliberate crashes, the result
    type \<open>res\<close> with \<open>rbind\<close>, checked memory accesses, \<^verbatim>\<open>size_t\<close> arithmetic.
  \<^item> \<open>Packet_Codec\<close>: \<^verbatim>\<open>network/packet/Packet.cpp\<close>. \<open>Packet_Buffer\<close>: \<^verbatim>\<open>network/packet/Packet*.hpp\<close>, the buffer and its cursors.
  \<^item> \<open>Ring_Buffer\<close>: \<^verbatim>\<open>buffer/ringbuffer\<close>, with the refinement of a bounded list of bytes.
  \<^item> \<open>Object_Pool\<close>, \<open>Pool_LockFree\<close>, \<open>Pool_TLS\<close>: \<^verbatim>\<open>objectpool\<close>, run by one thread, with the nodes as a heap of addresses. The locale
    \<open>object_pool\<close> is what they promise. \<open>Pool_Concurrent\<close>: \<^verbatim>\<open>Rent\<close> and \<^verbatim>\<open>Return\<close> of the lock-free pool again, statement by statement under every
    schedule of any number of threads, with the 64-bit counter of the head and its wrap-around.
  \<^item> \<open>LockFree_Containers\<close>: \<^verbatim>\<open>system/collections/concurrent\<close>, the stack and the queue, run by one thread.
  \<^item> \<open>Packet_Pool\<close>: \<^verbatim>\<open>network/packet/PacketPool.hpp\<close>. One state models the send pool and the receive pool each.
  \<^item> \<open>Net_Recv\<close>: \<^verbatim>\<open>NetworkRecvCompleted\<close>, with a specification that cuts a list of bytes into frames.
  \<^item> \<open>Session_State\<close>: what \<^verbatim>\<open>NetSession\<close> and \<^verbatim>\<open>LanSession\<close> share: the members (record \<open>SessionState\<close>), identifiers, the references a session
    holds. \<open>Core_State\<close>: what \<^verbatim>\<open>NetCore\<close> and \<^verbatim>\<open>LanCore\<close> share: options, the record \<open>core_state\<close>, I/O counts, the invariant over a
    class of sessions. The locale \<open>io_sessions\<close> is what the cores ask of such a class, with the lemmas about it; both cores interpret it.
  \<^item> \<open>Net_Session\<close>: \<^verbatim>\<open>network/server/net/manager/session/NetSession\<close>. \<open>Net_Core\<close>: the session manager and
    \<^verbatim>\<open>network/server/net/NetCore*.cpp\<close>, one definition per member function, over the record \<open>core\<close>. \<open>Net_Core_Inv\<close>: its invariant.
  \<^item> \<open>Lan_Session\<close>: \<^verbatim>\<open>network/server/lan/manager/session/LanSession\<close>. \<open>Lan_Core\<close>: the session manager and
    \<^verbatim>\<open>network/server/lan/LanCore*.cpp\<close>, over the record \<open>lan_core\<close>. \<open>Lan_Core_Inv\<close>: its invariant, every handler but receiving and completions.
    \<open>Lan_Recv\<close>: receiving, with the frames of a list of bytes as its specification. \<open>Lan_Server\<close>: completions, start, histories.
    \<open>Lan_Echo\<close>: the event handler of \<^verbatim>\<open>playground_lan/Main.cpp\<close>. \<open>Lan_Stream\<close>: streams that arrive in pieces, echoes.
    \<open>Lan_Properties\<close>: what follows.
  \<^item> \<open>Profiler\<close>: \<^verbatim>\<open>profile\<close>, the counts and times of tagged pieces of code, with a specification of which calls succeed, and what \<^verbatim>\<open>LanCore\<close>
    executes of it (\<open>SendPacket_profile\<close>, \<open>NetworkRecvCompleted_profile\<close>).
    \<open>Logger\<close>: \<^verbatim>\<open>logging\<close>, the lines it writes. The counters that the monitor threads read are in \<open>Core_State\<close>, their rounds in
    \<open>Net_Core\<close> and \<open>Lan_Core\<close>.
  \<^item> \<open>Shutdown\<close>: \<^verbatim>\<open>Stop\<close> and \<^verbatim>\<open>Tick\<close> of both cores, with the threads as a state machine over what they execute. The locales \<open>stopping\<close> and
    \<open>robust_stopping\<close> are what \<^verbatim>\<open>Stop\<close> relies on; \<^verbatim>\<open>LanCore\<close> fulfils the first, \<^verbatim>\<open>NetCore\<close> both.
  \<^item> \<open>Sector\<close>: \<^verbatim>\<open>network/server/net/manager/sector\<close>, the grid. The locale \<open>sector_grid\<close> is shared with the sectors of the chat server.
  \<^item> \<open>Chat\<close>: the model of \<^verbatim>\<open>chat/EventHandler.hpp\<close>, \<^verbatim>\<open>ChatUser.hpp\<close>, \<^verbatim>\<open>ChatUserManager.hpp\<close>, \<^verbatim>\<open>SectorManager.hpp\<close> and the packets, on the record
    \<open>chat\<close> in the field \<open>nc_world\<close> of the core. \<open>Chat_Inv\<close>: its invariant and the callbacks. \<open>Chat_Jobs\<close>: each job. \<open>Chat_Server\<close>: the job
    thread, \<^verbatim>\<open>OnQuit\<close>, histories, and packets that break the server. \<open>Chat_Properties\<close>: what follows.

  How the code is modelled. An object is a record, an operation a function on it; what can fail returns \<open>res\<close>: \<open>Inl\<close> with a \<open>fault\<close> (an access
  outside of an allocation, a null pointer, a dead object, an exception, the crash dump, a loop that goes on for ever) or \<open>Inr\<close>. Heap
  objects are addresses in partial maps. The answers of the system (sockets, completions, the memory of a new object, random numbers) are
  arguments. A handler of the core (a round of the accept or I/O thread, \<^verbatim>\<open>SendPacket\<close>, \<^verbatim>\<open>Disconnect\<close>), a job and a heartbeat are one step each; the
  event handler is a record of functions on the whole core, so it may send and disconnect while it runs, as the real one may. The core's
  record has three fields of the proof: the numbers of outstanding receives and sends of a session and the history of callbacks.

  What is shown. Codec and packets: the cipher is a bijection, fields and packets come back as they were sent, cursors stay in the
  buffer. Containers and pools: each refines its abstract counterpart, hands out no object twice, and counts rightly; the lock-free pool under
  every interleaving. Receiving: any stream in pieces of any sizes is delivered as its frames. Sessions and core: an invariant over all
  histories (\<open>core_inv\<close>) that ties the I/O count of a session to its outstanding requests, its release, its place on the stack of
  unused sessions, the callbacks and the references to packets; every handler keeps it for every event handler that keeps its own part
  (\<open>app_ok\<close>). The chat server's callbacks are such (\<open>chat_app_ok\<close>), and its jobs keep the invariant of users, sectors and jobs. The same
  invariant holds for \<^verbatim>\<open>LanCore\<close> (\<open>lan_inv\<close>) with every option, under two conditions that the code does not ensure: an accepted connection
  finds an unused session and can be attached to the completion port (\<open>lan_enabled\<close>). A step then ends in a fault exactly when it completes a body
  above the 2000 bytes that a packet takes while the option allows it (\<open>lan_too_long\<close>). What happens without
  the two conditions is shown as well. The echo server keeps the contract of \<^verbatim>\<open>LanCore\<close> and answers.
  The profiler refines a map from threads and tags to counts; the logger writes exactly the lines above its level and every hexadecimal
  dump, which can be read back; the monitor reports the live sessions and packets of every running state and
  starts its three counts per second again. \<^verbatim>\<open>Stop\<close> of \<^verbatim>\<open>NetCore\<close> comes to its end from every state of the threads, and the length of every run of its
  threads is bounded by the work there is when it begins and the work that still comes in; that of \<^verbatim>\<open>LanCore\<close> may crash.
  Failures of the code are theorems, too: what an over-long header, a \<^verbatim>\<open>Clear\<close> at the wrong time, more than 300 queued packets, a message
  longer than its buffer or a sector outside of the grid do; that \<^verbatim>\<open>Disconnect\<close> of \<^verbatim>\<open>LanCore\<close> disconnects nobody; that a short packet ends the
  echo server.

  Bounds and fuel. Retry loops around one compare-and-swap have fuel 1, because run by one thread it succeeds; loops that walk over nodes have the number of
  allocated nodes. \<open>Spin\<close> marks a loop that would go on, and the lemmas show that it does not occur except after \<^verbatim>\<open>Clear\<close>. The loops for a new session number have fuel 3. The receive loop consumes at least a header per round and has the number of
  bytes as fuel; draining a queue has its length as fuel, and \<^verbatim>\<open>OnQuit\<close> the number of queued jobs. At most 65536 sessions are assumed, because
  an identifier holds 16 bits of the index.

  Not modelled, and why. A handler is not interrupted by another thread (only the lock-free pool is shown under interleaving); the order
  of completions, jobs and events is free. \<^verbatim>\<open>LanCore\<close> calls its profiler around the callback and around the posting of a send; these calls do not touch the state of the core, and
  are modelled in \<open>Profiler\<close>, per handler and in every interleaving of the threads (\<open>lan_interleaving\<close>). \<open>lan_profiling_safe\<close> shows that they do not
  throw with at most eight threads; a ninth one that sends gets an exception (\<open>ninth_thread\<close>). The counts of references and of I/O are integers
  (64 and 32 bits in the code); the I/O count of a session is shown to stay at two or below between handlers. What a
  \<^verbatim>\<open>catch\<close> of the application finds after the core threw \<^verbatim>\<open>std::invalid_argument\<close> is not modelled; the step ends there. \<^verbatim>\<open>assert\<close> is
  off. The calls of the logger write text and are left out of the servers. The crash dump, the wrappers of system calls, the tests and
  the experiments below \<^verbatim>\<open>playground_pool*\<close> do no part of the server's work.
\<close>

subsection \<open>Concrete inputs for the witnesses\<close>

definition demo_option :: NetOption where
  "demo_option = \<lparr>no_MaxPacketBodyLength = 2048, no_PacketCode = 0x77, no_PacketEncodeKey = 0xa9\<rparr>"

definition demo_mem :: "nat \<Rightarrow> byte list" where
  "demo_mem a = replicate 4101 0"

definition demo_handler :: "byte list list on_received" where
  "demo_handler sid a p closed w = (Returned, p, closed, w @ [pk_body p])"

definition demo_env :: "byte list list recv_env" where
  "demo_env = \<lparr>rc_RecvQueue = RingBuffer_Init 8192, rc_mIsCloseSocket = 0, rc_pool = PacketPool_Init 0,
     rc_mRecvCountPerSec = 0, rc_world = []\<rparr>"

lemma demo_ok: "env_ok demo_env" "mem_ok demo_mem" "handler_ok demo_handler (\<lambda>_ body w. w @ [body])"
  using rb_inv_Init [of 8192] pp_inv_Init [of 0]
  by (auto simp: env_ok_def demo_env_def size_lim_def mem_ok_def demo_mem_def NetHeaderSize_def
      NET_PACKET_BODY_CAPACITY_def handler_ok_def demo_handler_def)

lemma demo_env_sel: "rb_contents (rc_RecvQueue demo_env) = []" "rb_mMaxCapacity (rc_RecvQueue demo_env) = 8192"
  "rc_world demo_env = []"
  by (simp_all add: demo_env_def) (simp add: RingBuffer_Init_def)

text \<open>A handler that does nothing, a started server and a server with one connection.\<close>

abbreviation any_world :: "(nat \<Rightarrow> int) \<Rightarrow> nat \<Rightarrow> unit \<Rightarrow> bool" where
  "any_world \<equiv> \<lambda>_ _ _. True"

definition quiet_events :: "unit INetCoreEvent" where
  "quiet_events = \<lparr>ev_OnConnectionRequested = (\<lambda>_ _ _. True), ev_OnConnected = (\<lambda>_. Inr), ev_OnReceived = (\<lambda>_ _ p s. (Returned, p, s)),
     ev_OnSent = (\<lambda>_ _. Inr), ev_OnDisconnected = (\<lambda>_. Inr)\<rparr>"

definition demo_core :: "unit core" where
  "demo_core = core_create 0 (PacketPool_Init 0) (PacketPool_Init 0) ()"

lemma quiet_ok: "app_ok any_world quiet_events"
  by (auto simp: app_ok_def handlers_ok_def quiet_events_def)

lemma demo_started:
  "\<exists>s. Start True demo_replies 0 0 default_option demo_core = Inr (s, None, 2) \<and> core_running any_world quiet_events s \<and>
     app_inv any_world s \<and> length (nc_mSessionPool s) = 150 \<and> stack_list (nc_mUnusedSession s) \<noteq> [] \<and>
     nc_log s = [] \<and> nc_option s = default_option"
proof -
  obtain s y where s: "Start True demo_replies 0 0 default_option demo_core = Inr (s, y)" "app_inv any_world s"
    "length (nc_mSessionPool s) = 150" "stack_list (nc_mUnusedSession s) = rev [0..<150]" "nc_log s = []" "nc_option s = default_option"
    using Start_ok [where I = any_world, OF demo_option_ok(1) _ pp_inv_Init pp_inv_Init TrueI, where garbage = 0 and uid = 0 and uid' = 0 and world = "()"]
    unfolding demo_option_ok(2) demo_core_def by fastforce
  have y: "y = (None, 2)" using Start_replies [OF s(1)] demo_option_ok by (simp add: demo_replies_def)
  have "core_running any_world quiet_events s"
    using s(1) y demo_option_ok pp_inv_Init core_reaches.start unfolding core_running_def demo_core_def by fastforce
  then show ?thesis using s y by auto
qed

lemma demo_connected:
  "\<exists>s i. core_running any_world quiet_events s \<and> i < length (nc_mSessionPool s) \<and> live s i \<and> nc_recvs s i = 1 \<and>
     nc_log s = [OnConnectionRequested ''10.0.0.1'' 4000, OnConnected (ns_mSessionID (ses s i))] \<and>
     ns_mIsCloseSocket (ses s i) = 0 \<and> ns_IsSendingAtomic (ses s i) = 0 \<and> session_refs (ses s i) = []"
proof -
  obtain s where s: "core_running any_world quiet_events s" "app_inv any_world s" "stack_list (nc_mUnusedSession s) \<noteq> []" "nc_log s = []"
    using demo_started by blast
  obtain i s' where a: "NetworkAcceptThread_step quiet_events (Some demo_accept) s = Inr (s', True)" "i < length (nc_mSessionPool s)"
    "length (nc_mSessionPool s') = length (nc_mSessionPool s)" "live s' i" "nc_recvs s' i = 1"
    "nc_log s' = [OnConnectionRequested ''10.0.0.1'' 4000, OnConnected (ns_mSessionID (ses s' i))]"
    "ns_mIsCloseSocket (ses s' i) = 0" "ns_IsSendingAtomic (ses s' i) = 0" "session_refs (ses s' i) = []"
    using accept_connects [OF s(2) _ _ _ _ _ _ s(3), of quiet_events "''10.0.0.1''" demo_accept] s(4)
    by (auto simp: quiet_events_def demo_accept_def ApplySocketOption_def wsa_posted_def WSA_IO_PENDING_def)
  have "core_running any_world quiet_events s'"
    by (rule core_running_step [OF s(1), of "OpAccept (Some demo_accept)" demo_mem 0]) (use a(1) demo_ok in simp_all)
  then show ?thesis using a by (intro exI [of _ s'] exI [of _ i]) simp
qed

text \<open>A connected session and a packet that nobody else holds.\<close>

lemma demo_allocated:
  "\<exists>s i a. core_running any_world quiet_events s \<and> app_inv any_world s \<and> i < length (nc_mSessionPool s) \<and> live s i \<and> nc_recvs s i = 1 \<and>
     nc_sends s i = 0 \<and> ns_mIsCloseSocket (ses s i) = 0 \<and> ns_IsSendingAtomic (ses s i) = 0 \<and>
     queue_list (ns_mSendQueue (ses s i)) = [] \<and> pp_refs (nc_send s) a = 1 \<and> unat (SessionIndex (ns_mSessionID (ses s i))) = i"
proof -
  obtain s i where s: "core_running any_world quiet_events s" "i < length (nc_mSessionPool s)" "live s i" "nc_recvs s i = 1"
    "ns_mIsCloseSocket (ses s i) = 0" "ns_IsSendingAtomic (ses s i) = 0" "session_refs (ses s i) = []"
    using demo_connected by blast
  have inv: "app_inv any_world s" by (rule core_running_inv [OF quiet_ok s(1)])
  have w: "nc_sends s i = 0" using slot_okD(4,7) [OF core_invD(1) [OF inv s(2)]] s(6) by (cases "nc_sends s i") auto
  obtain pool a where p: "AllocPacket 0 demo_mem (nc_send s) = Inr (pool, a)"
    "pp_objs pool = (pp_objs (nc_send s))(a \<mapsto> (Packet_Initial 5 4096 (demo_mem a))\<lparr>pk_mRefCount := 1\<rparr>)"
    using AllocPacket_ok [OF core_invD(3) [OF inv s(2)] demo_ok(2), of 0] by metis
  let ?s = "s\<lparr>nc_send := pool\<rparr>"
  have r: "core_running any_world quiet_events ?s"
    by (rule core_running_step [OF s(1), of OpAlloc demo_mem 0]) (use p(1) demo_ok in simp_all)
  have e: "ses ?s = ses s" "live ?s = live s" by (simp_all add: ses_def live_def fun_eq_iff)
  have "app_inv any_world ?s" by (rule core_running_inv [OF quiet_ok r])
  then show ?thesis
    using r s w e p(2) live_index [OF inv s(2,3)] by (intro exI [of _ ?s] exI [of _ i] exI [of _ a]) (simp add: session_refs_def pp_refs_def)
qed

lemma demo_sending:
  "\<exists>s i. core_running any_world quiet_events s \<and> i < length (nc_mSessionPool s) \<and> nc_sends s i = 1"
proof -
  obtain s i a where s: "core_running any_world quiet_events s" "app_inv any_world s" "i < length (nc_mSessionPool s)" "live s i" "nc_recvs s i = 1"
    "nc_sends s i = 0" "ns_mIsCloseSocket (ses s i) = 0" "ns_IsSendingAtomic (ses s i) = 0"
    "queue_list (ns_mSendQueue (ses s i)) = []" "pp_refs (nc_send s) a = 1" "unat (SessionIndex (ns_mSessionID (ses s i))) = i"
    using demo_allocated by blast
  obtain s' where s': "SendPacket quiet_events 0 WSA_Done (ns_mSessionID (ses s i)) a s = Inr (s', True)" "nc_sends s' i = 1"
    "length (nc_mSessionPool s') = length (nc_mSessionPool s)"
    using SendPacket_posts [OF s(2,11,3,4) _ s(7) _ s(8,9), of a WSA_Done quiet_events 0] s(5,6,10) by (auto simp: wsa_posted_def)
  have "core_running any_world quiet_events s'"
    by (rule core_running_step [OF s(1), of "OpSend (ns_mSessionID (ses s i)) a 0 WSA_Done" demo_mem 0])
      (use s'(1) s(3,10,11) demo_ok in simp_all)
  then show ?thesis using s(3) s'(2,3) by (intro exI [of _ s'] exI [of _ i]) simp
qed

lemma released_live:
  "core_inv K x W s \<Longrightarrow> i < length (nc_mSessionPool s) \<Longrightarrow> IsReleased (ses s i) \<longleftrightarrow> \<not> live s i"
  by (drule (1) core_invD(1) [THEN slot_okD(5)]) (auto simp: IsReleased_def live_def)

subsection \<open>Receiving\<close>

text \<open>
  C1. A stream of encoded packets, whatever the sizes of the pieces in which it is received: the event
  handler is given the bodies of the packets, decoded, each once and in order; the session is not
  closed and no byte is left over. Every packet that was allocated for it is freed again or kept by
  the handler (\<open>env_ok\<close> of the final state).
\<close>

theorem recv_stream_delivers:
  assumes "env_ok e" "rb_mMaxCapacity (rc_RecvQueue e) = 8192" "rb_contents (rc_RecvQueue e) = []"
    and "mem_ok mem" "handler_ok h upd"
    and "\<forall>(rk, body) \<in> set msgs. fits opt body"
    and stream: "stream = concat (map (\<lambda>(rk, body). net_frame (no_PacketCode opt) (no_PacketEncodeKey opt) rk body) msgs)"
    and "\<forall>n \<in> set sizes. 1 \<le> n" "length stream \<le> length sizes"
  shows "\<exists>e'. recv_stream opt h t mem sid sizes stream e = Inr (e', [], True) \<and> env_ok e' \<and>
    rb_contents (rc_RecvQueue e') = [] \<and> rc_world e' = fold (upd sid) (map snd msgs) (rc_world e)"
proof -
  have nil: "frames opt [] = ([], [], GoOn)" "classify opt [] = NeedMore"
    by (simp_all add: frames.simps classify_def)
  have f: "frames opt (rb_contents (rc_RecvQueue e) @ stream) = (map snd msgs, [], GoOn)"
    using frames_net_frames [OF assms(6), of "[]"] assms(3) nil(1) by (simp add: stream)
  obtain e' rest b1 b2 where r: "recv_stream opt h t mem sid sizes stream e = Inr (e', rest, True)" "env_ok e'"
    "classify opt (rb_contents (rc_RecvQueue e')) = NeedMore" "rc_world e' = fold (upd sid) b1 (rc_world e)"
    "frames opt (rb_contents (rc_RecvQueue e') @ rest) = (b2, [], GoOn)" "map snd msgs = b1 @ b2"
    "length rest \<le> length stream - length sizes"
    using recv_stream_ok [OF assms(4,5,1,2) _ f assms(8), of t sid] assms(3) nil(2) by auto
  have "rest = []" using r(7) assms(9) by simp
  moreover have "frames opt (rb_contents (rc_RecvQueue e')) = ([], rb_contents (rc_RecvQueue e'), GoOn)"
    using r(3) by (simp add: frames.simps)
  ultimately show ?thesis using r by simp
qed

theorem recv_stream_delivers_witness:
  "\<exists>e'. recv_stream demo_option demo_handler 0 demo_mem 7 (replicate 13 1)
      (net_frame 0x77 0xa9 0x31 [1, 2, 3] @ net_frame 0x77 0xa9 5 []) demo_env = Inr (e', [], True) \<and> env_ok e' \<and>
    rb_contents (rc_RecvQueue e') = [] \<and> rc_world e' = [[1, 2, 3], []]"
  using recv_stream_delivers [of demo_env demo_mem demo_handler "\<lambda>_ body w. w @ [body]"
      "[(0x31, [1, 2, 3]), (5, [])]" demo_option
      "net_frame 0x77 0xa9 0x31 [1, 2, 3] @ net_frame 0x77 0xa9 5 []" "replicate 13 1" 0 7]
    demo_ok demo_env_sel by (simp add: fits_def demo_option_def)

subsection \<open>The server\<close>

text \<open>
  C2. A started server, after any history of connections, completions (with any outcome), sends and
  disconnects, with event handlers that keep the server's invariant: the next event ends in a consistent state
  again, or in one of the two deliberate stops (the exception of \<^verbatim>\<open>ReadySending\<close>, the crash dump). It never
  touches memory outside an allocation, a null pointer or a dead packet, takes no I/O count below zero and does not
  loop for ever.
\<close>

theorem server_step_safe:
  assumes "app_ok I ev" "core_running I ev s" "core_enabled op s" "mem_ok mem"
  shows "case core_step ev t mem op s of
      Inl e \<Rightarrow> e = InvalidArgument \<or> e = CrashDumped
    | Inr s' \<Rightarrow> core_running I ev s' \<and> app_inv I s'"
  using core_step_ok [OF assms(1,4) core_running_inv [OF assms(1,2)] assms(3), of t] core_running_step [OF assms(2-4)]
  by (auto simp: rok_def split: sum.splits)

theorem server_step_safe_witness:
  "\<exists>s i. live s i \<and> (case core_step quiet_events 0 demo_mem (OpFailed i RecvOverlapped 64) s of
      Inl e \<Rightarrow> e = InvalidArgument \<or> e = CrashDumped
    | Inr s' \<Rightarrow> core_running any_world quiet_events s' \<and> app_inv any_world s')"
proof -
  obtain s i where s: "core_running any_world quiet_events s" "i < length (nc_mSessionPool s)" "live s i" "nc_recvs s i = 1"
    using demo_connected by blast
  then have "core_enabled (OpFailed i RecvOverlapped 64) s" by simp
  from server_step_safe [OF quiet_ok s(1) this demo_ok(2), of 0] s(3) show ?thesis by blast
qed

text \<open>
  C3. The life of a session: its I/O count is the number of its outstanding receives and sends, of which there is at most one each;
  it is released if and only if nothing is outstanding, and exactly the released sessions are on the stack of unused
  ones, once each. So a session is never reused under a pending request and never lost.
\<close>

theorem session_lifetime:
  assumes "app_ok I ev" "core_running I ev s" "i < length (nc_mSessionPool s)"
  shows "ns_IOCountAtomic (ses s i) = int (nc_recvs s i + nc_sends s i) \<and> nc_recvs s i \<le> 1 \<and> nc_sends s i \<le> 1 \<and>
    (IsReleased (ses s i) \<longleftrightarrow> nc_recvs s i + nc_sends s i = 0) \<and>
    (IsReleased (ses s i) \<longleftrightarrow> i \<in> set (stack_list (nc_mUnusedSession s))) \<and> distinct (stack_list (nc_mUnusedSession s)) \<and>
    (ns_mSocket (ses s i) = None \<longleftrightarrow> IsReleased (ses s i))"
proof -
  have inv: "app_inv I s" by (rule core_running_inv [OF assms(1,2)])
  note d = core_invD(1) [OF inv assms(3)]
  note r = released_live [OF inv assms(3)]
  have "live s i \<longleftrightarrow> 0 < nc_recvs s i + nc_sends s i"
    using core_invD(2) [OF inv assms(3)] slot_okD(6) [OF d] by (auto simp: live_def)
  moreover have "ns_mSocket (ses s i) = None \<longleftrightarrow> \<not> live s i" using d by (auto simp: slot_ok_def live_def split: if_splits)
  moreover have "core_base (the_app (\<lambda>_. 0) I (pp_refs (nc_recv s))) (\<lambda>_. 0) {} s" using inv by (simp add: core_inv_def)
  ultimately show ?thesis
    using slot_okD(2-4) [OF d] r core_baseD(7,8) [of _ "\<lambda>_. 0" "{}" s i] assms(3) by auto
qed

theorem session_lifetime_witness:
  "\<exists>s i. live s i \<and> nc_recvs s i = 1 \<and> \<not> IsReleased (ses s i) \<and> i \<notin> set (stack_list (nc_mUnusedSession (s :: unit core)))"
proof -
  obtain s i where s: "core_running any_world quiet_events s" "i < length (nc_mSessionPool s)" "live s i" "nc_recvs s i = 1"
    using demo_connected by blast
  with session_lifetime [OF quiet_ok s(1,2)] show ?thesis by auto
qed

text \<open>
  C4. The calls of the event handler: for every session id the history is \<^verbatim>\<open>OnConnected\<close>, then any
  number of \<^verbatim>\<open>OnReceived\<close> and \<^verbatim>\<open>OnSent\<close>, then \<^verbatim>\<open>OnDisconnected\<close>, once each (and again from the start when the id
  comes back); and the ids that are connected according to the history are the ids of the sessions that are not released.
\<close>

theorem callbacks_in_order:
  assumes "app_ok I ev" "core_running I ev s"
  shows "session_log sid (nc_log s) =
    Some (\<exists>i < length (nc_mSessionPool s). \<not> IsReleased (ses s i) \<and> ns_mSessionID (ses s i) = sid)"
proof -
  have inv: "app_inv I s" by (rule core_running_inv [OF assms])
  note released_live [OF inv]
  then have "(\<exists>i < length (nc_mSessionPool s). \<not> IsReleased (ses s i) \<and> ns_mSessionID (ses s i) = sid) \<longleftrightarrow>
      (\<exists>i < length (nc_mSessionPool s). live s i \<and> ns_mSessionID (ses s i) = sid)" by blast
  then show ?thesis using inv by (simp add: core_inv_def log_ok_def)
qed

theorem callbacks_in_order_witness:
  "\<exists>s i. nc_log (s :: unit core) \<noteq> [] \<and> i < length (nc_mSessionPool s) \<and>
     session_log (ns_mSessionID (ses s i)) (nc_log s) = Some True"
proof -
  obtain s i where s: "core_running any_world quiet_events s" "i < length (nc_mSessionPool s)" "live s i" "nc_recvs s i = 1" "nc_log s \<noteq> []"
    using demo_connected by fastforce
  moreover from s have "\<not> IsReleased (ses s i)" by (simp add: live_def IsReleased_def)
  ultimately show ?thesis
    using callbacks_in_order [OF quiet_ok s(1), of "ns_mSessionID (ses s i)"] by (intro exI [of _ s] exI [of _ i]) auto
qed

text \<open>
  While a send is outstanding, the packets that were given to the kernel are alive: the session is in the sending
  state, holds at least one packet, and the pool counts a reference for every place in which a session holds a packet.
\<close>

lemma packets_alive_in_flight:
  assumes "app_ok I ev" "core_running I ev s" "i < length (nc_mSessionPool s)" "nc_sends s i \<noteq> 0"
  shows "ns_IsSendingAtomic (ses s i) = 2 \<and> sending (ses s i) \<noteq> [] \<and> set (sending (ses s i)) \<subseteq> dom (pp_objs (nc_send s)) \<and>
    (\<forall>a. held s a \<le> pp_refs (nc_send s) a)"
proof -
  have inv: "app_inv I s" by (rule core_running_inv [OF assms(1,2)])
  note d = slot_okD [OF core_invD(1) [OF inv assms(3)]]
  have w: "nc_sends s i = 1" using d(4) assms(4) by simp
  have s2: "ns_IsSendingAtomic (ses s i) = 2" using d(7) w by simp
  then have "0 < ns_PacketCount (ses s i)" using d(1) by (simp add: session_inv_def)
  moreover have "a \<in> dom (pp_objs (nc_send s))" if "a \<in> set (sending (ses s i))" for a
  proof -
    have "0 < count_list (session_refs (ses s i)) a"
      using that by (auto simp: session_refs_def count_list_append count_list_0_iff neq0_conv [symmetric] simp del: neq0_conv)
    then have "0 < pp_refs (nc_send s) a" using session_refs_le [OF core_inv_refs_ok [OF inv assms(3)], of a] by simp
    then show ?thesis using pp_refs_pos [OF core_invD(3) [OF inv assms(3)]] by blast
  qed
  moreover have "\<forall>a. held s a \<le> pp_refs (nc_send s) a" using inv by (simp add: core_inv_def core_base_def Let_def)
  ultimately show ?thesis using s2 length_sending [OF d(1)] by auto
qed

lemma packets_alive_in_flight_example:
  "\<exists>s i. nc_sends (s :: unit core) i = 1 \<and> sending (ses s i) \<noteq> [] \<and> set (sending (ses s i)) \<subseteq> dom (pp_objs (nc_send s))"
proof -
  obtain s i where s: "core_running any_world quiet_events s" "i < length (nc_mSessionPool s)" "nc_sends s i = 1"
    using demo_sending by blast
  with packets_alive_in_flight [OF quiet_ok s(1,2)] show ?thesis by auto
qed

subsection \<open>Starting, accepting, sending\<close>

text \<open>
  C35. \<^verbatim>\<open>Start\<close> with a valid option, at most 65536 sessions and an event handler: every session is created, released and
  stacked, and the invariant of the server holds, whatever the socket calls answer; the start succeeds, and the
  I/O threads run, exactly when all of them do.
\<close>

theorem start_ready:
  assumes "ValidateOption option" "unat (so_MaxSessionCount option) \<le> 65536" "pp_inv send" "pp_inv recv" "I (pp_refs recv) (unat (so_MaxSessionCount option)) world"
  shows "\<exists>s err n. Start True r garbage uid option (core_create uid' send recv world) = Inr (s, err, n) \<and>
    app_inv I s \<and> length (nc_mSessionPool s) = unat (so_MaxSessionCount option) \<and>
    set (stack_list (nc_mUnusedSession s)) = {..<unat (so_MaxSessionCount option)} \<and>
    (err = None \<longleftrightarrow> st_startup r \<and> st_iocp r \<and> st_socket r \<and> st_rcvbuf r \<and> st_sndbuf r \<and> st_bind r \<and> st_listen r) \<and>
    n = (if err = None then unat (so_NetworkIOThreadCount option) else 0)"
proof -
  obtain s where s: "\<forall>r. \<exists>y. Start True r garbage uid option (core_create uid' send recv world) = Inr (s, y)"
    "app_inv I s" "length (nc_mSessionPool s) = unat (so_MaxSessionCount option)"
    "stack_list (nc_mUnusedSession s) = rev [0..<unat (so_MaxSessionCount option)]"
    using Start_ok [where I = I and world = world, OF assms, of garbage uid uid'] by blast
  obtain err n where y: "Start True r garbage uid option (core_create uid' send recv world) = Inr (s, err, n)"
    using s(1) by (metis prod.collapse)
  have "(err = None \<longleftrightarrow> st_startup r \<and> st_iocp r \<and> st_socket r \<and> st_rcvbuf r \<and> st_sndbuf r \<and> st_bind r \<and> st_listen r) \<and>
      n = (if err = None then unat (so_NetworkIOThreadCount option) else 0)"
    using y assms(1) by (auto simp: Start_def rbind_eq_Inr split: if_splits)
  with y s(2-4) show ?thesis by (auto simp: atLeast0LessThan)
qed

theorem start_ready_witness:
  "\<exists>s. Start True (demo_replies\<lparr>st_bind := False\<rparr>) 0 0 default_option demo_core = Inr (s, Some Fail_bind_serverSock, 0) \<and>
     app_inv any_world s \<and> length (nc_mSessionPool s) = 150"
proof -
  let ?r = "demo_replies\<lparr>st_bind := False\<rparr>"
  obtain s err n where s: "Start True ?r 0 0 default_option demo_core = Inr (s, err, n)" "app_inv any_world s"
    "length (nc_mSessionPool s) = 150" "n = (if err = None then 2 else 0)" "err \<noteq> None"
    using start_ready [where I = any_world, OF demo_option_ok(1) _ pp_inv_Init [of 0] pp_inv_Init [of 0] TrueI, where r = ?r and garbage = 0 and uid = 0 and uid' = 0 and world = "()"]
    unfolding demo_option_ok(2,3) demo_core_def by (fastforce simp: demo_replies_def)
  have "err = Some Fail_bind_serverSock"
    using s(1) demo_option_ok(1) by (auto simp: Start_def demo_replies_def rbind_eq_Inr split: if_splits)
  then show ?thesis using s by auto
qed

text \<open>
  C36. Accepting, when nothing stops it: a session is unused, the socket options are set, the address can be written down, the
  handler agrees to the connection, the socket is attached to the port and the first \<^verbatim>\<open>WSARecv\<close> is taken (the other
  branches of the round are those of \<open>server_step_safe\<close>); \<^verbatim>\<open>OnConnected\<close> may change what the handler itself keeps, but calls
  nothing of the server (the handler that sends there is the one of \<open>send_in_OnConnected_releases\<close>). Then a slot that was
  unused becomes a session with this socket and nothing to send, the handler is told of it with its identifier, and a receive is
  under way. The identifier names the slot and no other live session; its number is read off the counter of the slot, which has
  moved on by one, two or three, and is neither 0 nor the number of the session that had the slot before.
\<close>

theorem accept_opens_session:
  assumes "app_ok I ev" "core_running I ev s"
    and "\<And>sid s. \<exists>w. ev_OnConnected ev sid s = Inr (s\<lparr>nc_world := w\<rparr>)"
    and "\<And>s. ev_OnConnectionRequested ev ip (ae_port a) s"
    and "ApplySocketOption (ae_opts a) (nc_option s) = None" "ae_addr a = Some ip" "ae_port_created a" "wsa_posted (ae_recv a)"
    and "stack_list (nc_mUnusedSession s) \<noteq> []"
  shows "\<exists>i s'. NetworkAcceptThread_step ev (Some a) s = Inr (s', True) \<and> i < length (nc_mSessionPool s) \<and>
    \<not> live s i \<and> live s' i \<and> nc_recvs s' i = 1 \<and>
    ns_mSocket (ses s' i) = Some (ae_sock a) \<and> session_refs (ses s' i) = [] \<and>
    new_uid (ses s i) (ses s' i) \<and> unat (SessionIndex (ns_mSessionID (ses s' i))) = i \<and>
    (\<forall>j. live s j \<and> j < length (nc_mSessionPool s) \<longrightarrow> ns_mSessionID (ses s j) \<noteq> ns_mSessionID (ses s' i)) \<and>
    nc_log s' = nc_log s @ [OnConnectionRequested ip (ae_port a), OnConnected (ns_mSessionID (ses s' i))]"
proof -
  have inv: "app_inv I s" by (rule core_running_inv [OF assms(1,2)])
  obtain i s' where a: "NetworkAcceptThread_step ev (Some a) s = Inr (s', True)" "i < length (nc_mSessionPool s)"
    "length (nc_mSessionPool s') = length (nc_mSessionPool s)" "\<not> live s i" "live s' i" "ns_mSocket (ses s' i) = Some (ae_sock a)"
    "nc_recvs s' i = 1" "session_refs (ses s' i) = []" "new_uid (ses s i) (ses s' i)"
    "nc_log s' = nc_log s @ [OnConnectionRequested ip (ae_port a), OnConnected (ns_mSessionID (ses s' i))]"
    using accept_connects [OF inv assms(3-9)] by blast
  have "core_running I ev s'"
    by (rule core_running_step [OF assms(2), of "OpAccept (Some a)" demo_mem 0]) (use a(1) demo_ok in simp_all)
  then have "app_inv I s'" by (rule core_running_inv [OF assms(1)])
  from live_index [OF this _ a(5)] a(2,3) have ix: "unat (SessionIndex (ns_mSessionID (ses s' i))) = i" by simp
  then have "ns_mSessionID (ses s j) \<noteq> ns_mSessionID (ses s' i)" if "live s j" "j < length (nc_mSessionPool s)" for j
    using live_index [OF inv that(2,1)] a(4) that(1) by auto
  then show ?thesis using a ix by blast
qed

theorem accept_opens_session_witness:
  "\<exists>s i s'. NetworkAcceptThread_step quiet_events (Some demo_accept) s = Inr (s', True) \<and> \<not> live s i \<and> live s' i \<and>
     ns_mSocket (ses s' i) = Some 7"
proof -
  obtain s where s: "core_running any_world quiet_events s" "stack_list (nc_mUnusedSession s) \<noteq> []" "nc_option s = default_option"
    using demo_started by blast
  then show ?thesis
    using accept_opens_session [OF quiet_ok s(1) _ _ _ _ _ _ s(2), of "''10.0.0.1''" demo_accept]
    by (auto simp: quiet_events_def demo_accept_def ApplySocketOption_def wsa_posted_def WSA_IO_PENDING_def)
qed

text \<open>
  C37. Sending to an open session with nothing under way: \<^verbatim>\<open>SendPacket\<close> succeeds, the packet is with the kernel when it
  returns, the session holds one more reference to it, and no handler was called.
\<close>

theorem send_packet_posts:
  assumes "app_ok I ev" "core_running I ev s" "i < length (nc_mSessionPool s)" "live s i" "ns_mIsCloseSocket (ses s i) = 0"
    and "ns_IsSendingAtomic (ses s i) = 0" "queue_list (ns_mSendQueue (ses s i)) = []"
    and "0 < pp_refs (nc_send s) a" "wsa_posted reply"
  shows "\<exists>s'. SendPacket ev rnd reply (ns_mSessionID (ses s i)) a s = Inr (s', True) \<and> nc_sends s' i = nc_sends s i + 1 \<and>
    sending (ses s' i) = [a] \<and> queue_list (ns_mSendQueue (ses s' i)) = [] \<and> pp_refs (nc_send s') a = pp_refs (nc_send s) a + 1 \<and>
    nc_log s' = nc_log s"
proof -
  have inv: "app_inv I s" by (rule core_running_inv [OF assms(1,2)])
  have io: "0 < 0 + nc_recvs s i + nc_sends s i" using core_invD(2) [OF inv assms(3,4)] by simp
  from SendPacket_posts [OF inv live_index [OF inv assms(3,4)] assms(3,4) refl assms(5) io assms(6-9), of ev rnd]
  show ?thesis by blast
qed

theorem send_packet_posts_witness:
  "\<exists>s s' i a. SendPacket quiet_events 0 WSA_Done (ns_mSessionID (ses s i)) a s = Inr (s', True) \<and> sending (ses s' i) = [a]"
proof -
  obtain s i a where s: "core_running any_world quiet_events s" "i < length (nc_mSessionPool s)" "live s i"
    "ns_mIsCloseSocket (ses s i) = 0" "ns_IsSendingAtomic (ses s i) = 0"
    "queue_list (ns_mSendQueue (ses s i)) = []" "pp_refs (nc_send s) a = 1"
    using demo_allocated by blast
  from send_packet_posts [OF quiet_ok s(1-6), of a WSA_Done 0] s(7) show ?thesis by (auto simp: wsa_posted_def)
qed

text \<open>
  C38. A session whose \<^verbatim>\<open>OnConnected\<close> runs has no I/O under way yet, so acquiring it takes it for a stale one: a handler
  that sends a packet to the session it was just told about gets \<^verbatim>\<open>false\<close>, and the session is released under it.
\<close>

theorem send_in_OnConnected_releases:
  assumes "app_ok I ev" "core_running I ev s" "NewSessionOrNull sock address port garbage s = Inr (s1, Some i)"
  shows "rok (\<lambda>(s2, isSent). \<not> isSent \<and> \<not> live s2 i)
    (SendPacket ev rnd reply (ns_mSessionID (ses s1 i)) a (put_log (OnConnected (ns_mSessionID (ses s1 i))) s1))"
proof -
  have inv: "app_inv I s" by (rule core_running_inv [OF assms(1,2)])
  let ?s = "put_log (OnConnected (ns_mSessionID (ses s1 i))) s1"
  let ?K = "the_app (\<lambda>_. 0) I (pp_refs (nc_recv s))"
  have n: "i < length (nc_mSessionPool s1)" "live s1 i" "core_base ?K (\<lambda>_. 0) {i} s1" "log_ok ?s"
    "0 + nc_recvs s1 i + nc_sends s1 i = 0" "ns_mIsCloseSocket (ses s1 i) = 0"
    using NewSessionOrNull_ok [OF inv, of sock address port garbage] assms(3) by auto
  have e: "ses ?s = ses s1" "live ?s = live s1" "held ?s = held s1" "nc_mSessionPool ?s = nc_mSessionPool s1"
    "nc_recvs ?s = nc_recvs s1" "nc_sends ?s = nc_sends s1" "nc_mUnusedSession ?s = nc_mUnusedSession s1"
    "nc_send ?s = nc_send s1" "nc_recv ?s = nc_recv s1" "nc_world ?s = nc_world s1" "nc_mConnectedSessionCount ?s = nc_mConnectedSessionCount s1"
    by (simp_all add: put_log_def ses_def live_def held_def fun_eq_iff)
  have inv1: "core_inv ?K (\<lambda>_. 0) {i} ?s" using n(3,4) by (simp add: core_inv_def core_base_def Let_def e)
  have i: "i < length (nc_mSessionPool ?s)" "live ?s i" using n(1,2) by (simp_all add: e)
  have "rok (\<lambda>(s', r). r = None \<and> \<not> live s' i \<and> core_inv ?K (\<lambda>_. 0) {i} s') (AcquireSessionOrNull ev (ns_mSessionID (ses s1 i)) ?s)"
    using n(5,6) live_index [OF inv1 i] by (intro Acquire_fresh [OF app_okD [OF assms(1)] inv1 _ i]) (simp_all add: e)
  then show ?thesis unfolding SendPacket_def by (rule rok_bind) auto
qed

theorem send_in_OnConnected_releases_witness:
  "\<exists>s s1 i. live s1 i \<and> rok (\<lambda>(s2, isSent). \<not> isSent \<and> \<not> live s2 i)
    (SendPacket quiet_events 0 WSA_Done (ns_mSessionID (ses s1 i)) 0 (put_log (OnConnected (ns_mSessionID (ses s1 i))) s1)) \<and>
    NewSessionOrNull 7 ''10.0.0.1'' 4000 0 s = Inr (s1, Some i)"
proof -
  obtain s where s: "core_running any_world quiet_events s" "app_inv any_world s" "stack_list (nc_mUnusedSession s) \<noteq> []"
    using demo_started by blast
  obtain s1 i where n: "NewSessionOrNull 7 ''10.0.0.1'' 4000 0 s = Inr (s1, Some i)" "live s1 i"
    using NewSessionOrNull_ok [OF s(2), of 7 "''10.0.0.1''" 4000 0] s(3) by auto
  from send_in_OnConnected_releases [OF quiet_ok s(1) n(1), of 0 WSA_Done 0] n show ?thesis by blast
qed

text \<open>
  C11. In every running state a round of the monitor thread reports as connected exactly the sessions that are not released, as cached
  the other ones, as used the packets that are alive, and as accepts, sends and receives per second the counts since the last round; all
  three counts start at zero again, so that the next round reports none of them a second time, and the total of accepts is kept.
\<close>

theorem monitor_report:
  assumes "app_ok I ev" "core_running I ev s" "NetCore_MonitorRefreshThread_step s = (s', info)"
  shows "core_running I ev s' \<and>
    unat (mi_ConnectedSessionCount info) = card {i. i < length (nc_mSessionPool s) \<and> \<not> IsReleased (ses s i)} \<and>
    unat (mi_SessionMaxIndexes info) = length (nc_mSessionPool s) \<and>
    unat (mi_SessionCachedIndexes info) + unat (mi_ConnectedSessionCount info) = unat (mi_SessionMaxIndexes info) \<and>
    mi_PacketPoolSendUsedSize info = of_nat (card (dom (pp_objs (nc_send s)))) \<and>
    mi_PacketPoolRecvUsedSize info = of_nat (card (dom (pp_objs (nc_recv s)))) \<and>
    mi_AcceptTPS info = of_nat (nc_mAcceptCountPerSec s) \<and> mi_SendPacketTPS info = of_int (nc_mSendCountPerSec s) \<and>
    mi_RecvPacketTPS info = of_int (nc_mRecvCountPerSec s) \<and>
    nc_mAcceptCountPerSec s' = 0 \<and> nc_mSendCountPerSec s' = 0 \<and> nc_mRecvCountPerSec s' = 0 \<and>
    mi_AcceptTPS (snd (NetCore_MonitorRefreshThread_step s')) = 0 \<and>
    mi_SendPacketTPS (snd (NetCore_MonitorRefreshThread_step s')) = 0 \<and>
    mi_RecvPacketTPS (snd (NetCore_MonitorRefreshThread_step s')) = 0 \<and>
    mi_AcceptTotal (snd (NetCore_MonitorRefreshThread_step s')) = mi_AcceptTotal info"
proof -
  have inv: "app_inv I s" by (rule core_running_inv [OF assms(1,2)])
  let ?n = "length (nc_mSessionPool s)"
  let ?live = "{i. i < ?n \<and> live s i}" and ?free = "{i. i < ?n \<and> \<not> live s i}"
  have b: "?n \<le> 65536" "stack_inv ?n (nc_mUnusedSession s)" "distinct (stack_list (nc_mUnusedSession s))"
    "set (stack_list (nc_mUnusedSession s)) = ?free"
    using inv by (simp_all add: core_inv_def core_base_def Let_def)
  have "?live \<union> ?free = {..<?n}" "?live \<inter> ?free = {}" by auto
  then have sum: "card ?free + card ?live = ?n" using card_Un_disjoint [of ?live ?free] by simp
  have "card ?free = length (stack_list (nc_mUnusedSession s))" using b(3,4) distinct_card by metis
  moreover obtain as where as: "stack_rep (nc_mUnusedSession s) as" using b(2) by (auto simp: stack_inv_def)
  ultimately have used: "st_mUsedSize (nc_mUnusedSession s) = int (card ?free)" "st_mMaxCapacity (nc_mUnusedSession s) = ?n"
    using b(2) stack_list_eq [OF as] as by (simp_all add: stack_inv_def stack_rep_def)
  have small: "card ?free < 2 ^ LENGTH(64)" "?n < 2 ^ LENGTH(64)" using b(1) sum by simp_all
  have run: "core_running I ev s'"
    by (rule core_running_step [OF assms(2), of OpMonitor demo_mem 0]) (use assms(3) demo_ok in simp_all)
  have info: "info = (read_counters s)\<lparr>mi_SessionCachedIndexes := of_nat (card ?free), mi_SessionMaxIndexes := of_nat ?n\<rparr>" "s' = reset_counters s"
    using assms(3) used by (auto simp: NetCore_MonitorRefreshThread_step_def)
  have "?live = {i. i < ?n \<and> \<not> IsReleased (ses s i)}" using released_live [OF inv] by auto
  then show ?thesis
    using run counters_read [OF inv] sum small
    by (simp add: info NetCore_MonitorRefreshThread_step_def unsigned_of_nat take_bit_nat_eq_self)
      (simp add: read_counters_def reset_counters_def)
qed

theorem monitor_report_witness:
  "\<exists>s i. i < length (nc_mSessionPool s) \<and> \<not> IsReleased (ses s i) \<and>
    0 < unat (mi_ConnectedSessionCount (snd (NetCore_MonitorRefreshThread_step (s :: unit core))))"
proof -
  obtain s :: "unit core" and i where s: "core_running any_world quiet_events s" "i < length (nc_mSessionPool s)" "live s i"
    using demo_connected by blast
  have "i \<in> {i. i < length (nc_mSessionPool s) \<and> \<not> IsReleased (ses s i)}" using s(2,3) by (simp add: live_def IsReleased_def)
  moreover have "finite {i. i < length (nc_mSessionPool s) \<and> \<not> IsReleased (ses s i)}" by simp
  ultimately have "0 < card {i. i < length (nc_mSessionPool s) \<and> \<not> IsReleased (ses s i)}" using card_gt_0_iff by blast
  with monitor_report [OF quiet_ok s(1) prod.collapse [symmetric]]
  have "0 < unat (mi_ConnectedSessionCount (snd (NetCore_MonitorRefreshThread_step s)))" by simp
  moreover have "\<not> IsReleased (ses s i)" using s(3) by (simp add: live_def IsReleased_def)
  ultimately show ?thesis using s(2) by blast
qed

text \<open>
  C12. \<^verbatim>\<open>Stop\<close> of \<^verbatim>\<open>NetCore\<close>, whatever happened before and after the call, n being the number of I/O threads. It is never stuck: from every
  state it reaches, some 3n + 7 steps of the threads and of \<^verbatim>\<open>Stop\<close> bring it to its end, where the monitor, accept and I/O threads have
  ended and \<^verbatim>\<open>OnQuit\<close> has been called once, on the state the handlers left. And it is only held up by work that is still taken: every
  run after the call has at most 3n + 6 steps, plus one for each round of the accept thread and two for each completion that is taken
  in it; once the port is closed none is, so that every run from there ends after at most 3n + 6 steps, whatever the schedule.
\<close>

theorem net_stop_finishes:
  assumes "th_run (net_code ev upd quit t mem) es (threads_started n, s0) = Some (Inr (th, s))"
    and "th_main th \<notin> {Serving, Stopped}"
  shows "(\<exists>es' th'. length es' \<le> 3 * n + 7 \<and>
      th_main th' = Stopped \<and> \<not> th_monitor th' \<and> \<not> th_accept th' \<and> set (th_io th') \<subseteq> {Ended} \<and>
      th_run (net_code ev upd quit t mem) es' (th, s) = Some (rbind (quit s) (\<lambda>s'. Inr (th', s')))) \<and>
    (\<forall>es' th' s'. th_run (net_code ev upd quit t mem) es' (th, s) = Some (Inr (th', s')) \<longrightarrow>
      length es' \<le> 3 * n + 6 + sum_list (map new_work es') \<and>
      ((\<exists>j. th_main th = JoiningIO j) \<longrightarrow> length es' \<le> 3 * n + 6))"
proof (intro conjI allI impI)
  show "\<exists>es' th'. length es' \<le> 3 * n + 7 \<and>
      th_main th' = Stopped \<and> \<not> th_monitor th' \<and> \<not> th_accept th' \<and> set (th_io th') \<subseteq> {Ended} \<and>
      th_run (net_code ev upd quit t mem) es' (th, s) = Some (rbind (quit s) (\<lambda>s'. Inr (th', s')))"
    using net_stop.stop_finishes [OF assms] by (simp add: stop_done_def net_code_def)
  fix es' th' s' assume run: "th_run (net_code ev upd quit t mem) es' (th, s) = Some (Inr (th', s'))"
  have main: "th_main th \<noteq> Serving" using assms(2) by simp
  show "length es' \<le> 3 * n + 6 + sum_list (map new_work es')" by (rule net_stop.stop_bounded(1) [OF assms(1) main run])
  assume "\<exists>j. th_main th = JoiningIO j"
  then show "length es' \<le> 3 * n + 6" using net_stop.stop_bounded [OF assms(1) main run] by force
qed

theorem net_stop_finishes_witness:
  "\<exists>(s :: unit core) es' th'. length es' \<le> 13 \<and>
    th_run (net_code quiet_events (\<lambda>_. Inr) Inr 0 demo_mem) (CallStop # es') (threads_started 2, s) = Some (Inr (th', s)) \<and>
    th_main th' = Stopped \<and> set (th_io th') \<subseteq> {Ended}"
proof -
  obtain s :: "unit core" where "core_running any_world quiet_events s" using demo_started by blast
  let ?C = "net_code quiet_events (\<lambda>_. Inr) Inr 0 demo_mem"
  have run: "th_run ?C [CallStop] (threads_started 2, s) = Some (Inr (stop_called (threads_started 2), s))"
    by (simp add: threads_started_def)
  have main: "th_main (stop_called (threads_started 2)) \<notin> {Serving, Stopped}" by (simp add: stop_called_def)
  obtain es' th' where e: "length es' \<le> 3 * 2 + 7" "th_main th' = Stopped" "set (th_io th') \<subseteq> {Ended}"
    "th_run ?C es' (stop_called (threads_started 2), s) = Some (rbind (Inr s) (\<lambda>s'. Inr (th', s')))"
    using net_stop_finishes [OF run main] by blast
  have "th_run ?C (CallStop # es') (threads_started 2, s) = Some (Inr (th', s))"
    using th_run_append [OF run, of es'] e(4) by simp
  then show ?thesis using e(1-3) by (intro exI [of _ s] exI [of _ es'] exI [of _ th']) simp
qed

end
